(* ===== verification/Prelude.thy ===== *)
theory Prelude
  imports
    Main
    "HOL-Library.Char_ord"
    "HOL-Library.List_Lexorder"
    "HOL-Library.Finite_Map"
    "HOL-Library.Word"
begin

text \<open>
  Shared vocabulary of the development.

  A Go string is a byte sequence: \<open>string\<close>, with the byte-wise lexicographic order of
  \<open>HOL-Library.List_Lexorder\<close>, which is Go's order on strings.  A Go map is a finite map
  (\<open>fmap\<close>); \<open>for k := range m\<close> followed by a sort over the keys is the
  sorted key list.  A fallible function returns \<open>error + 'a\<close>.
\<close>

named_theorems idx_simps \<open>what an index operation does to the relation it stores\<close>
named_theorems keeps \<open>operations that preserve an invariant\<close>

subsection \<open>Strings\<close>

text \<open>
  The white space that \<open>strings.TrimSpace\<close> removes (\<open>unicode.IsSpace\<close>), as the
  UTF-8 byte sequences of the code points: the six ASCII ones, U+0085, U+00A0, U+1680,
  U+2000 to U+200A, U+2028, U+2029, U+202F, U+205F and U+3000.
\<close>

definition space_encodings :: "string list" where
  "space_encodings =
     [[CHR 0x09], [CHR 0x0A], [CHR 0x0B], [CHR 0x0C], [CHR 0x0D], [CHR 0x20],
      [CHR 0xC2, CHR 0x85], [CHR 0xC2, CHR 0xA0],
      [CHR 0xE1, CHR 0x9A, CHR 0x80],
      [CHR 0xE2, CHR 0x80, CHR 0x80], [CHR 0xE2, CHR 0x80, CHR 0x81],
      [CHR 0xE2, CHR 0x80, CHR 0x82], [CHR 0xE2, CHR 0x80, CHR 0x83],
      [CHR 0xE2, CHR 0x80, CHR 0x84], [CHR 0xE2, CHR 0x80, CHR 0x85],
      [CHR 0xE2, CHR 0x80, CHR 0x86], [CHR 0xE2, CHR 0x80, CHR 0x87],
      [CHR 0xE2, CHR 0x80, CHR 0x88], [CHR 0xE2, CHR 0x80, CHR 0x89],
      [CHR 0xE2, CHR 0x80, CHR 0x8A], [CHR 0xE2, CHR 0x80, CHR 0xA8],
      [CHR 0xE2, CHR 0x80, CHR 0xA9], [CHR 0xE2, CHR 0x80, CHR 0xAF],
      [CHR 0xE2, CHR 0x81, CHR 0x9F], [CHR 0xE3, CHR 0x80, CHR 0x80]]"

fun has_prefix :: "string \<Rightarrow> string \<Rightarrow> bool" where
  "has_prefix s [] = True"
| "has_prefix [] (c # p) = False"
| "has_prefix (d # s) (c # p) = (c = d \<and> has_prefix s p)"

text \<open>Length of the first listed sequence that \<open>s\<close> starts with, 0 if none.\<close>

fun match_len :: "string list \<Rightarrow> string \<Rightarrow> nat" where
  "match_len [] s = 0"
| "match_len (e # es) s = (if has_prefix s e then length e else match_len es s)"

function trim_left_of :: "string list \<Rightarrow> string \<Rightarrow> string" where
  "trim_left_of es s =
     (if s = [] \<or> match_len es s = 0 then s else trim_left_of es (drop (match_len es s) s))"
  by pat_completeness auto
termination
  by (relation "measure (\<lambda>(es, s). length s)") auto

declare trim_left_of.simps [simp del]

definition trim_space :: "string \<Rightarrow> string" where
  "trim_space s =
     rev (trim_left_of (map rev space_encodings) (rev (trim_left_of space_encodings s)))"

definition blank :: "string \<Rightarrow> bool" where
  "blank s \<longleftrightarrow> trim_space s = []"

lemma blank_Nil [simp]: "blank []"
  by (simp add: blank_def trim_space_def trim_left_of.simps)

lemma match_len_unspaced: "\<forall>e \<in> set es. \<not> has_prefix s e \<Longrightarrow> match_len es s = 0"
  by (induction es) auto

lemma trim_left_of_unspaced: "\<forall>e \<in> set es. \<not> has_prefix s e \<Longrightarrow> trim_left_of es s = s"
  by (subst trim_left_of.simps) (simp add: match_len_unspaced)

subsection \<open>Strictly sorted lists\<close>

abbreviation ssorted :: "'a::linorder list \<Rightarrow> bool" where
  "ssorted \<equiv> sorted_wrt (<)"

lemma ssorted_unique:
  "ssorted xs \<Longrightarrow> ssorted ys \<Longrightarrow> set xs = set ys \<Longrightarrow> xs = ys"
  by (simp add: strict_sorted_equal)

lemma ssorted_eq_sorted_list_of_set:
  "ssorted xs \<Longrightarrow> xs = sorted_list_of_set (set xs)"
  by (rule ssorted_unique) simp_all

lemma ssorted_distinct: "ssorted xs \<Longrightarrow> distinct xs"
  by (simp add: strict_sorted_iff)

end
