(* ===== verification/Model.thy ===== *)
theory Model
  imports Complex_Main Prelude "HOL-Library.Product_Lexorder"
begin

text \<open>
  \<open>core/model\<close>: the node and edge values of the graph, their identity, the path
  normalisation, and the wire form of a graph.  The hash \<open>xxhash.Sum64\<close> is not part of the
  repository: it is the parameter \<open>xxh\<close> of every definition that uses it.  A
  \<open>float64\<close> is only copied and compared here, so it is a rational, an infinity or NaN,
  with the IEEE comparison (false when an operand is NaN).
\<close>

type_synonym node_id = string
type_synonym edge_id = string
type_synonym hash64 = "string \<Rightarrow> 64 word"

subsection \<open>Identity: \<open>id.go\<close>\<close>

definition identity_schema_version :: "32 word" where
  "identity_schema_version = 1"

definition id_hex_width :: nat where
  "id_hex_width = 16"

definition node_id_domain_tag :: string where
  "node_id_domain_tag = ''graphi/node-id''"

definition edge_id_domain_tag :: string where
  "edge_id_domain_tag = ''graphi/edge-id''"

definition unit_separator :: char where
  "unit_separator = CHR 0x1F"

text \<open>\<open>binary.BigEndian.PutUint32\<close>: the four bytes of a word, most significant first.\<close>

definition byte_of :: "32 word \<Rightarrow> nat \<Rightarrow> char" where
  "byte_of w k = char_of (unat (drop_bit (8 * k) w) mod 256)"

definition put_uint32 :: "32 word \<Rightarrow> string" where
  "put_uint32 w = [byte_of w 3, byte_of w 2, byte_of w 1, byte_of w 0]"

definition write_field :: "string \<Rightarrow> string \<Rightarrow> string" where
  "write_field b s = (b @ put_uint32 (word_of_nat (length s))) @ s"

definition identity_preimage :: "string \<Rightarrow> string list \<Rightarrow> string" where
  "identity_preimage domain_tag fields =
     foldl write_field ((domain_tag @ [unit_separator]) @ put_uint32 identity_schema_version) fields"

text \<open>\<open>fmt.Sprintf("%016x", digest)\<close>: sixteen lower-case hexadecimal digits.\<close>

definition hex_digit :: "nat \<Rightarrow> char" where
  "hex_digit d = ''0123456789abcdef'' ! (d mod 16)"

definition format_id :: "64 word \<Rightarrow> string" where
  "format_id digest =
     map (\<lambda>k. hex_digit (unat (drop_bit (4 * (15 - k)) digest))) [0..<id_hex_width]"

definition derive_id :: "hash64 \<Rightarrow> string \<Rightarrow> string list \<Rightarrow> string" where
  "derive_id xxh domain_tag fields = format_id (xxh (identity_preimage domain_tag fields))"

subsection \<open>Paths: \<open>NormalizePath\<close> and the \<open>path.Clean\<close> it calls\<close>

fun split_slash :: "string \<Rightarrow> string list" where
  "split_slash [] = [[]]"
| "split_slash (c # s) =
     (if c = CHR ''/'' then [] # split_slash s
      else (case split_slash s of [] \<Rightarrow> [[c]] | p # ps \<Rightarrow> (c # p) # ps))"

fun join_slash :: "string list \<Rightarrow> string" where
  "join_slash [] = []"
| "join_slash [p] = p"
| "join_slash (p # q # ps) = p @ CHR ''/'' # join_slash (q # ps)"

text \<open>
  The component loop of \<open>path.Clean\<close>: \<open>out\<close> holds the components written so far, the
  last one first.
\<close>

fun clean_loop :: "bool \<Rightarrow> string list \<Rightarrow> string list \<Rightarrow> string list" where
  "clean_loop rooted out [] = rev out"
| "clean_loop rooted out (c # cs) =
     (if c = [] \<or> c = ''.'' then clean_loop rooted out cs
      else if c = ''..'' then
        (case out of
           [] \<Rightarrow> clean_loop rooted (if rooted then [] else [''..'']) cs
         | d # ds \<Rightarrow> if d = ''..'' then clean_loop rooted (''..'' # out) cs
                    else clean_loop rooted ds cs)
      else clean_loop rooted (c # out) cs)"

definition path_clean :: "string \<Rightarrow> string" where
  "path_clean p =
     (if p = [] then ''.''
      else let rooted = (hd p = CHR ''/'');
               out = join_slash (clean_loop rooted [] (split_slash p))
           in if rooted then CHR ''/'' # out
              else if out = [] then ''.'' else out)"

definition is_letter :: "char \<Rightarrow> bool" where
  "is_letter c \<longleftrightarrow> (CHR ''A'' \<le> c \<and> c \<le> CHR ''Z'') \<or> (CHR ''a'' \<le> c \<and> c \<le> CHR ''z'')"

fun drive_prefixed :: "string \<Rightarrow> bool" where
  "drive_prefixed (c # d # s) = (d = CHR '':'' \<and> is_letter c)"
| "drive_prefixed s = False"

definition normalize_path :: "string \<Rightarrow> string" where
  "normalize_path p =
     (if p = [] then []
      else let p1 = map (\<lambda>c. if c = CHR 0x5C then CHR ''/'' else c) p;
               p2 = (if drive_prefixed p1 then drop 2 p1 else p1);
               p3 = dropWhile (\<lambda>c. c = CHR ''/'') p2;
               cleaned = path_clean (CHR ''/'' # p3);
               trimmed = (if has_prefix cleaned ''/'' then drop 1 cleaned else cleaned)
           in if trimmed = ''.'' then [] else trimmed)"

subsection \<open>Nodes: \<open>node.go\<close>\<close>

record node_meta =
  annotations :: "string list"
  flags :: "string list"

record node =
  n_id :: node_id
  n_kind :: string
  n_qname :: string
  n_path :: string
  n_line :: int
  n_col :: int
  n_meta :: node_meta

definition zero_meta :: node_meta where
  "zero_meta = \<lparr>annotations = [], flags = []\<rparr>"

text \<open>The loop of \<open>sortedDedupNonEmpty\<close>: \<open>seen\<close> is its map, \<open>out\<close> its slice.\<close>

fun dedup_loop :: "string fset \<Rightarrow> string list \<Rightarrow> string list \<Rightarrow> string list" where
  "dedup_loop seen out [] = out"
| "dedup_loop seen out (s # ss) =
     (if s = [] then dedup_loop seen out ss
      else if s |\<in>| seen then dedup_loop seen out ss
      else dedup_loop (finsert s seen) (out @ [s]) ss)"

definition sorted_dedup_non_empty :: "string list \<Rightarrow> string list" where
  "sorted_dedup_non_empty ss =
     (if ss = [] then []
      else let out = dedup_loop {||} [] ss in if out = [] then [] else sort out)"

definition new_node_meta :: "string list \<Rightarrow> string list \<Rightarrow> node_meta" where
  "new_node_meta as fs =
     \<lparr>annotations = sorted_dedup_non_empty as, flags = sorted_dedup_non_empty fs\<rparr>"

definition meta_is_zero :: "node_meta \<Rightarrow> bool" where
  "meta_is_zero m \<longleftrightarrow> annotations m = [] \<and> flags m = []"

datatype node_fault = NodeKindEmpty | NodeQnameEmpty | NodeLineNegative | NodeColumnNegative
  | NodeIdEmpty

datatype float64 = NaN | PosInf | NegInf | Finite rat

datatype edge_fault = EdgeFromEmpty | EdgeToEmpty | EdgeKindEmpty | EdgeTierUnknown string
  | EdgeConfidenceRange float64 | EdgeReasonEmpty | EdgeEvidenceMissing | EdgeEvidenceBlank
  | EdgeIdEmpty | EdgeUnknownFrom node_id | EdgeUnknownTo node_id

datatype model_error =
    ErrInvalidNode node_fault
  | ErrInvalidEdge edge_fault
  | ErrFormatVersion int
  | ErrNodeIdMismatch node_id node_id
  | ErrEdgeIdMismatch edge_id edge_id

definition new_node ::
  "hash64 \<Rightarrow> string \<Rightarrow> string \<Rightarrow> string \<Rightarrow> int \<Rightarrow> int \<Rightarrow> model_error + node" where
  "new_node xxh kind qname spath line col =
     (if blank kind then Inl (ErrInvalidNode NodeKindEmpty)
      else if blank qname then Inl (ErrInvalidNode NodeQnameEmpty)
      else if line < 0 then Inl (ErrInvalidNode NodeLineNegative)
      else if col < 0 then Inl (ErrInvalidNode NodeColumnNegative)
      else let norm = normalize_path spath
           in Inr \<lparr>n_id = derive_id xxh node_id_domain_tag [kind, qname, norm],
                   n_kind = kind, n_qname = qname, n_path = norm,
                   n_line = line, n_col = col, n_meta = zero_meta\<rparr>)"

definition with_meta :: "node \<Rightarrow> node_meta \<Rightarrow> node" where
  "with_meta n m = n\<lparr>n_meta := m\<rparr>"

subsection \<open>Edges: \<open>edge.go\<close>\<close>

definition tier_heuristic :: string where "tier_heuristic = ''heuristic''"
definition tier_derived :: string where "tier_derived = ''derived''"
definition tier_confirmed :: string where "tier_confirmed = ''confirmed''"

definition valid_tiers :: "string list" where
  "valid_tiers = [tier_heuristic, tier_derived, tier_confirmed]"

definition tier_valid :: "string \<Rightarrow> bool" where
  "tier_valid t \<longleftrightarrow> t \<in> set valid_tiers"

fun f64_less :: "float64 \<Rightarrow> float64 \<Rightarrow> bool" where
  "f64_less NaN y = False"
| "f64_less x NaN = False"
| "f64_less PosInf y = False"
| "f64_less x NegInf = False"
| "f64_less x PosInf = True"
| "f64_less NegInf y = True"
| "f64_less (Finite p) (Finite q) = (p < q)"

record edge =
  e_id :: edge_id
  e_from :: node_id
  e_to :: node_id
  e_kind :: string
  e_tier :: string
  e_conf :: float64
  e_reason :: string
  e_evidence :: "string list"

fun evidence_loop :: "nat \<Rightarrow> string list \<Rightarrow> string list \<Rightarrow> nat \<times> string list" where
  "evidence_loop k out [] = (k, out)"
| "evidence_loop k out (ev # evs) =
     evidence_loop (if \<not> blank ev then Suc k else k) (out @ [ev]) evs"

definition normalize_evidence :: "string list \<Rightarrow> model_error + string list" where
  "normalize_evidence ev =
     (if ev = [] then Inl (ErrInvalidEdge EdgeEvidenceMissing)
      else let (non_empty, out) = evidence_loop 0 [] ev
           in if non_empty = 0 then Inl (ErrInvalidEdge EdgeEvidenceBlank) else Inr (sort out))"

definition new_edge ::
  "hash64 \<Rightarrow> node_id \<Rightarrow> node_id \<Rightarrow> string \<Rightarrow> string \<Rightarrow> float64 \<Rightarrow> string \<Rightarrow> string list
    \<Rightarrow> model_error + edge" where
  "new_edge xxh frm tgt kind tier conf reason ev =
     (if blank frm then Inl (ErrInvalidEdge EdgeFromEmpty)
      else if blank tgt then Inl (ErrInvalidEdge EdgeToEmpty)
      else if blank kind then Inl (ErrInvalidEdge EdgeKindEmpty)
      else if \<not> tier_valid tier then Inl (ErrInvalidEdge (EdgeTierUnknown tier))
      else if f64_less conf (Finite 0) \<or> f64_less (Finite 1) conf
        then Inl (ErrInvalidEdge (EdgeConfidenceRange conf))
      else if blank reason then Inl (ErrInvalidEdge EdgeReasonEmpty)
      else (case normalize_evidence ev of
              Inl e \<Rightarrow> Inl e
            | Inr cleaned \<Rightarrow>
                Inr \<lparr>e_id = derive_id xxh edge_id_domain_tag [frm, tgt, kind],
                     e_from = frm, e_to = tgt, e_kind = kind, e_tier = tier, e_conf = conf,
                     e_reason = reason, e_evidence = cleaned\<rparr>))"

subsection \<open>Identities determine the value\<close>

lemma word_eq_by_chunks:
  fixes a b :: "'a::len word"
  assumes "0 < k" and "LENGTH('a) \<le> k * m"
    and "\<And>j. j < m \<Longrightarrow> unat (drop_bit (k * j) a) mod 2 ^ k = unat (drop_bit (k * j) b) mod 2 ^ k"
  shows "a = b"
proof (rule bit_word_eqI)
  fix n assume n: "n < LENGTH('a)"
  let ?j = "n div k" and ?i = "n mod k"
  have j: "?j < m" using n assms(1,2)
    by (metis less_mult_imp_div_less less_le_trans mult.commute)
  have "take_bit k (unat (drop_bit (k * ?j) a)) = take_bit k (unat (drop_bit (k * ?j) b))"
    using assms(3) [OF j] by (simp add: take_bit_eq_mod)
  then have "bit (take_bit k (unat (drop_bit (k * ?j) a))) ?i
           = bit (take_bit k (unat (drop_bit (k * ?j) b))) ?i" by simp
  moreover have "?i < k" using assms(1) by simp
  ultimately show "bit a n = bit b n" using n
    by (simp add: bit_take_bit_iff bit_unsigned_iff bit_drop_bit_eq)
qed

lemma put_uint32_inj: "put_uint32 a = put_uint32 b \<longleftrightarrow> a = b"
proof
  assume eq: "put_uint32 a = put_uint32 b"
  show "a = b"
  proof (rule word_eq_by_chunks [where k = 8 and m = 4])
    fix j :: nat assume "j < 4"
    with eq have "byte_of a j = byte_of b j"
      by (auto simp: put_uint32_def less_Suc_eq numeral_eq_Suc)
    then have "(of_char (byte_of a j) :: nat) = of_char (byte_of b j)" by simp
    then show "unat (drop_bit (8 * j) a) mod 2 ^ 8 = unat (drop_bit (8 * j) b) mod 2 ^ 8"
      by (simp add: byte_of_def)
  qed simp_all
qed simp

lemma hex_digit_inj: "hex_digit a = hex_digit b \<longleftrightarrow> a mod 16 = b mod 16"
proof -
  have d: "distinct ''0123456789abcdef''" by simp
  have l: "length ''0123456789abcdef'' = 16" by simp
  show ?thesis unfolding hex_digit_def
    using nth_eq_iff_index_eq [OF d, of "a mod 16" "b mod 16"] l by simp
qed

lemma length_format_id [simp]: "length (format_id d) = id_hex_width"
  by (simp add: format_id_def)

lemma format_id_nth:
  "k < 16 \<Longrightarrow> format_id d ! k = hex_digit (unat (drop_bit (4 * (15 - k)) d))"
  by (simp add: format_id_def id_hex_width_def del: upt_rec_numeral)

lemma format_id_inj: "format_id a = format_id b \<longleftrightarrow> a = b"
proof
  assume eq: "format_id a = format_id b"
  show "a = b"
  proof (rule word_eq_by_chunks [where k = 4 and m = 16])
    fix j :: nat assume "j < 16"
    then have "4 * (15 - (15 - j)) = 4 * j" and "15 - j < 16" by auto
    then have "hex_digit (unat (drop_bit (4 * j) a)) = hex_digit (unat (drop_bit (4 * j) b))"
      using format_id_nth [of "15 - j" a] format_id_nth [of "15 - j" b] eq by simp
    then show "unat (drop_bit (4 * j) a) mod 2 ^ 4 = unat (drop_bit (4 * j) b) mod 2 ^ 4"
      by (simp add: hex_digit_inj)
  qed simp_all
qed simp

text \<open>The pre-image as one header followed by the encoded fields.\<close>

definition encode_field :: "string \<Rightarrow> string" where
  "encode_field s = put_uint32 (word_of_nat (length s)) @ s"

lemma foldl_write_field: "foldl write_field b fs = b @ concat (map encode_field fs)"
  by (induction fs arbitrary: b) (simp_all add: write_field_def encode_field_def)

lemma identity_preimage_eq:
  "identity_preimage tag fs =
     tag @ unit_separator # put_uint32 identity_schema_version @ concat (map encode_field fs)"
  by (simp add: identity_preimage_def foldl_write_field)

lemma length_put_uint32 [simp]: "length (put_uint32 w) = 4"
  by (simp add: put_uint32_def)

lemma encode_field_prefix:
  assumes "encode_field s @ r = encode_field t @ v" "length s < 2 ^ 32" "length t < 2 ^ 32"
  shows "s = t \<and> r = v"
proof -
  from assms(1) have "put_uint32 (word_of_nat (length s)) = put_uint32 (word_of_nat (length t))"
    and st: "s @ r = t @ v"
    by (simp_all add: encode_field_def)
  then have "(word_of_nat (length s) :: 32 word) = word_of_nat (length t)"
    by (simp add: put_uint32_inj)
  then have "unat (word_of_nat (length s) :: 32 word) = unat (word_of_nat (length t) :: 32 word)"
    by simp
  then have "length s = length t" using assms(2,3)
    by (simp add: unat_of_nat take_bit_eq_mod)
  with st show ?thesis by simp
qed

lemma encode_fields_inj:
  assumes "concat (map encode_field fs) = concat (map encode_field gs)"
    and "\<forall>f \<in> set fs. length f < 2 ^ 32" and "\<forall>g \<in> set gs. length g < 2 ^ 32"
  shows "fs = gs"
  using assms
proof (induction fs arbitrary: gs)
  case Nil
  then show ?case
    by (cases gs) (auto simp: encode_field_def put_uint32_def)
next
  case (Cons f fs)
  then obtain g gs' where gs: "gs = g # gs'"
    by (cases gs) (auto simp: encode_field_def put_uint32_def)
  with Cons.prems have "f = g \<and> concat (map encode_field fs) = concat (map encode_field gs')"
    by (intro encode_field_prefix) auto
  with Cons.IH Cons.prems gs show ?case by auto
qed

lemma tag_append:
  "c \<notin> set t \<Longrightarrow> c \<notin> set u \<Longrightarrow> t @ c # r = u @ c # v \<longleftrightarrow> t = u \<and> r = v"
  by (induction t arbitrary: u) (case_tac u; auto)+

lemma identity_preimage_inj:
  assumes "identity_preimage t fs = identity_preimage u gs"
    and "unit_separator \<notin> set t" "unit_separator \<notin> set u"
    and "\<forall>f \<in> set fs. length f < 2 ^ 32" "\<forall>g \<in> set gs. length g < 2 ^ 32"
  shows "t = u \<and> fs = gs"
proof -
  from assms(1-3) have "t = u" and "concat (map encode_field fs) = concat (map encode_field gs)"
    by (simp_all add: identity_preimage_eq tag_append)
  with assms(4,5) show ?thesis by (simp add: encode_fields_inj)
qed

lemma domain_tags [simp]:
  "unit_separator \<notin> set node_id_domain_tag" "unit_separator \<notin> set edge_id_domain_tag"
  "node_id_domain_tag \<noteq> edge_id_domain_tag"
  by (simp_all add: unit_separator_def node_id_domain_tag_def edge_id_domain_tag_def)

subsection \<open>Normalised paths\<close>

definition good_comp :: "string \<Rightarrow> bool" where
  "good_comp c \<longleftrightarrow> c \<noteq> [] \<and> c \<noteq> ''.'' \<and> c \<noteq> ''..'' \<and> CHR ''/'' \<notin> set c \<and> CHR 0x5C \<notin> set c"

text \<open>A repository-relative POSIX path without \<open>.\<close> or \<open>..\<close>.\<close>

definition repo_relative :: "string \<Rightarrow> bool" where
  "repo_relative q \<longleftrightarrow> (\<forall>c \<in> set (split_slash q). good_comp c) \<or> q = []"

lemma split_slash_ne [simp]: "split_slash s \<noteq> []"
  by (cases s) (auto split: list.splits)

lemma split_slash_no_slash: "p \<in> set (split_slash s) \<Longrightarrow> CHR ''/'' \<notin> set p"
proof (induction s arbitrary: p)
  case (Cons c s)
  then show ?case by (cases "split_slash s") (auto split: if_splits)
qed simp

lemma split_slash_chars: "p \<in> set (split_slash s) \<Longrightarrow> set p \<subseteq> set s"
proof (induction s arbitrary: p)
  case (Cons c s)
  then show ?case
    by (cases "split_slash s") (auto split: if_splits, blast+)
qed simp

lemma split_slash_single: "CHR ''/'' \<notin> set p \<Longrightarrow> split_slash p = [p]"
  by (induction p) auto

lemma split_slash_append:
  "CHR ''/'' \<notin> set p \<Longrightarrow> split_slash (p @ CHR ''/'' # s) = p # split_slash s"
  by (induction p) auto

lemma split_join:
  "ps \<noteq> [] \<Longrightarrow> \<forall>p \<in> set ps. CHR ''/'' \<notin> set p \<Longrightarrow> split_slash (join_slash ps) = ps"
  by (induction ps rule: join_slash.induct) (auto simp: split_slash_single split_slash_append)

lemma join_split: "join_slash (split_slash s) = s"
proof (induction s)
  case (Cons c s)
  then show ?case
    by (cases "split_slash s"; cases "tl (split_slash s)") auto
qed simp

lemma length_join_slash: "ps \<noteq> [] \<Longrightarrow> Suc (length (join_slash ps)) = sum_list (map (\<lambda>c. Suc (length c)) ps)"
  by (induction ps rule: join_slash.induct) auto

lemma clean_loop_good:
  assumes "\<forall>c \<in> set cs. good_comp c"
  shows "clean_loop r out cs = rev out @ cs"
  using assms by (induction cs arbitrary: out) (auto simp: good_comp_def)

lemma clean_loop_rooted_step:
  "clean_loop True out (c # cs) =
     (if c = [] \<or> c = ''.'' then clean_loop True out cs
      else if c = ''..'' \<and> (out = [] \<or> hd out \<noteq> ''..'') then clean_loop True (tl out) cs
      else clean_loop True (c # out) cs)"
  by (cases out) auto

lemma clean_loop_rooted:
  assumes "\<forall>c \<in> set out. good_comp c"
    and "\<forall>c \<in> set cs. CHR ''/'' \<notin> set c \<and> CHR 0x5C \<notin> set c"
  shows "\<forall>c \<in> set (clean_loop True out cs). good_comp c"
  using assms
proof (induction cs arbitrary: out)
  case (Cons c cs)
  have tl: "\<forall>c \<in> set (tl out). good_comp c" using Cons.prems(1) by (cases out) auto
  have hd: "out = [] \<or> hd out \<noteq> ''..''"
    using Cons.prems(1) by (cases out) (auto simp: good_comp_def)
  show ?case
  proof (cases "c = [] \<or> c = ''.'' \<or> c = ''..''")
    case True
    with Cons.IH [OF Cons.prems(1)] Cons.IH [OF tl] Cons.prems(2) hd show ?thesis
      unfolding clean_loop_rooted_step by auto
  next
    case False
    with Cons.prems have "\<forall>c \<in> set (c # out). good_comp c" by (simp add: good_comp_def)
    from Cons.IH [OF this] Cons.prems(2) False show ?thesis
      unfolding clean_loop_rooted_step by simp
  qed
qed simp

lemma clean_loop_size:
  "sum_list (map (\<lambda>c. Suc (length c)) (clean_loop True out cs))
     \<le> sum_list (map (\<lambda>c. Suc (length c)) out) + sum_list (map (\<lambda>c. Suc (length c)) cs)"
proof (induction cs arbitrary: out)
  case Nil
  then show ?case by (simp add: rev_map [symmetric])
next
  case (Cons c cs)
  have "sum_list (map (\<lambda>c. Suc (length c)) (tl out)) \<le> sum_list (map (\<lambda>c. Suc (length c)) out)"
    by (cases out) simp_all
  with Cons.IH [of out] Cons.IH [of "tl out"] Cons.IH [of "c # out"] show ?case
    unfolding clean_loop_rooted_step by (auto; linarith)
qed

definition strip_prefix :: "string \<Rightarrow> string" where
  "strip_prefix p =
     (let p1 = map (\<lambda>c. if c = CHR 0x5C then CHR ''/'' else c) p
      in dropWhile (\<lambda>c. c = CHR ''/'') (if drive_prefixed p1 then drop 2 p1 else p1))"

lemma strip_prefix_no_backslash: "CHR 0x5C \<notin> set (strip_prefix p)"
  by (auto simp: strip_prefix_def Let_def dest!: set_dropWhileD in_set_dropD)

lemma good_join_not_dot:
  "\<forall>c \<in> set cs. good_comp c \<Longrightarrow> join_slash cs \<noteq> ''.''"
  by (cases cs rule: join_slash.cases) (auto simp: good_comp_def append_eq_Cons_conv)

lemma normalize_path_comps:
  "\<forall>c \<in> set (clean_loop True [] (split_slash (strip_prefix p))). good_comp c"
proof (rule clean_loop_rooted)
  show "\<forall>c \<in> set (split_slash (strip_prefix p)). CHR ''/'' \<notin> set c \<and> CHR 0x5C \<notin> set c"
    using strip_prefix_no_backslash [of p] split_slash_chars [of _ "strip_prefix p"]
      split_slash_no_slash [of _ "strip_prefix p"] by blast
qed simp

lemma set_join_slash: "set (join_slash ps) \<subseteq> insert (CHR ''/'') (\<Union>(set ` set ps))"
  by (induction ps rule: join_slash.induct) auto

lemma normalize_path_eq:
  "normalize_path p = join_slash (clean_loop True [] (split_slash (strip_prefix p)))"
proof (cases "p = []")
  case True
  then show ?thesis by (simp add: normalize_path_def strip_prefix_def)
next
  case False
  let ?cs = "clean_loop True [] (split_slash (strip_prefix p))"
  have "\<forall>c \<in> set ?cs. good_comp c"
    by (rule normalize_path_comps)
  then have "join_slash ?cs \<noteq> ''.''" by (rule good_join_not_dot)
  moreover have "path_clean (CHR ''/'' # strip_prefix p) = CHR ''/'' # join_slash ?cs"
    by (simp add: path_clean_def Let_def)
  ultimately show ?thesis using False
    by (simp add: normalize_path_def strip_prefix_def Let_def)
qed

lemma repo_relative_normalize: "repo_relative (normalize_path p)"
proof (cases "clean_loop True [] (split_slash (strip_prefix p)) = []")
  case True
  then show ?thesis by (simp add: repo_relative_def normalize_path_eq)
next
  case False
  then show ?thesis using normalize_path_comps [of p]
    by (simp add: repo_relative_def normalize_path_eq split_join good_comp_def)
qed

lemma normalize_path_id:
  assumes "repo_relative q" "\<not> drive_prefixed q"
  shows "normalize_path q = q"
proof (cases "q = []")
  case True
  then show ?thesis by (simp add: normalize_path_def)
next
  case False
  with assms(1) have good: "\<forall>c \<in> set (split_slash q). good_comp c"
    by (simp add: repo_relative_def)
  have "CHR 0x5C \<notin> \<Union>(set ` set (split_slash q))"
    using good by (auto simp: good_comp_def)
  then have nb: "CHR 0x5C \<notin> set q"
    using set_join_slash [of "split_slash q"] by (auto simp: join_split)
  then have m: "map (\<lambda>c. if c = CHR 0x5C then CHR ''/'' else c) q = q"
    by (intro map_idI) auto
  have "hd q \<noteq> CHR ''/''"
  proof
    assume "hd q = CHR ''/''"
    with False have "[] \<in> set (split_slash q)" by (cases q) simp_all
    with good have "good_comp []" by (rule bspec)
    then show False by (simp add: good_comp_def)
  qed
  then have "strip_prefix q = q" unfolding strip_prefix_def m Let_def using assms(2) False
    by (cases q) simp_all
  then show ?thesis by (simp add: normalize_path_eq clean_loop_good good join_split)
qed

lemma length_normalize_path: "length (normalize_path p) \<le> length (strip_prefix p)"
proof -
  let ?cs = "clean_loop True [] (split_slash (strip_prefix p))"
  have "sum_list (map (\<lambda>c. Suc (length c)) ?cs) \<le> sum_list (map (\<lambda>c. Suc (length c)) (split_slash (strip_prefix p)))"
    using clean_loop_size [of "[]"] by simp
  also have "\<dots> = Suc (length (strip_prefix p))"
    using length_join_slash [of "split_slash (strip_prefix p)"] by (simp add: join_split)
  finally show ?thesis
    using length_join_slash [of ?cs] by (cases "?cs = []") (simp_all add: normalize_path_eq)
qed

lemma drive_prefixed_map:
  "drive_prefixed q \<Longrightarrow> drive_prefixed (map (\<lambda>c. if c = CHR 0x5C then CHR ''/'' else c) q)"
  by (cases q rule: drive_prefixed.cases) (auto simp: is_letter_def)

lemma normalize_path_drive:
  assumes "drive_prefixed q"
  shows "normalize_path q \<noteq> q"
proof -
  from assms have "2 \<le> length q" by (cases q rule: drive_prefixed.cases) auto
  moreover have "length (strip_prefix q) \<le> length q - 2"
    using drive_prefixed_map [OF assms]
    by (simp add: strip_prefix_def Let_def) (rule order_trans [OF length_dropWhile_le], simp)
  ultimately have "length (normalize_path q) < length q"
    using length_normalize_path [of q] by linarith
  then show ?thesis by auto
qed

end
