(* ===== verification/Wire.thy ===== *)
theory Wire
  imports Model "HOL-Library.Multiset"
begin

text \<open>
  \<open>core/model/serialize.go\<close>: the graph as a collection of nodes and edges, its canonical
  wire document, the reader that rebuilds and re-validates every value, and the structural
  check.  A document stands for its JSON text: what \<open>encoding/json\<close> does to the values on the way
  through the text is written out (bytes of a string that are not UTF-8 become U+FFFD, a float that
  is not finite is an error), the punctuation of the text is not.
\<close>

definition serial_format_version :: int where
  "serial_format_version = 1"

record graph =
  g_nodes :: "node list"
  g_edges :: "edge list"

definition new_graph :: "node list \<Rightarrow> edge list \<Rightarrow> graph" where
  "new_graph ns es = \<lparr>g_nodes = ns, g_edges = es\<rparr>"

record node_wire =
  nw_id :: node_id
  nw_kind :: string
  nw_qname :: string
  nw_path :: string
  nw_line :: int
  nw_col :: int
  nw_meta :: "node_meta option"

record edge_wire =
  ew_id :: edge_id
  ew_from :: node_id
  ew_to :: node_id
  ew_kind :: string
  ew_tier :: string
  ew_conf :: float64
  ew_reason :: string
  ew_evidence :: "string list"

record graph_wire =
  gw_format :: int
  gw_identity :: "32 word"
  gw_nodes :: "node_wire list"
  gw_edges :: "edge_wire list"

definition node_to_wire :: "node \<Rightarrow> node_wire" where
  "node_to_wire n =
     \<lparr>nw_id = n_id n, nw_kind = n_kind n, nw_qname = n_qname n, nw_path = n_path n,
      nw_line = n_line n, nw_col = n_col n,
      nw_meta = (if \<not> meta_is_zero (n_meta n)
                 then Some (new_node_meta (annotations (n_meta n)) (flags (n_meta n)))
                 else None)\<rparr>"

definition edge_to_wire :: "edge \<Rightarrow> edge_wire" where
  "edge_to_wire e =
     \<lparr>ew_id = e_id e, ew_from = e_from e, ew_to = e_to e, ew_kind = e_kind e,
      ew_tier = e_tier e, ew_conf = e_conf e, ew_reason = e_reason e,
      ew_evidence = e_evidence e\<rparr>"

definition edge_order :: "edge_wire \<Rightarrow> edge_id \<times> node_id \<times> node_id \<times> string" where
  "edge_order w = (ew_id w, ew_from w, ew_to w, ew_kind w)"

definition wire_document :: "graph \<Rightarrow> graph_wire" where
  "wire_document g =
     \<lparr>gw_format = serial_format_version, gw_identity = identity_schema_version,
      gw_nodes = sort_key nw_id (map node_to_wire (g_nodes g)),
      gw_edges = sort_key edge_order (map edge_to_wire (g_edges g))\<rparr>"

subsection \<open>Through the JSON text\<close>

text \<open>
  The size of the rune a string starts with (\<open>unicode/utf8\<close>), 0 when the first byte starts none:
  no overlong form, no surrogate half, nothing above U+10FFFF.
\<close>

fun continues :: "nat \<Rightarrow> nat \<Rightarrow> nat \<Rightarrow> string \<Rightarrow> bool" where
  "continues 0 lo hi cs = True"
| "continues (Suc n) lo hi [] = False"
| "continues (Suc n) lo hi (c # cs) =
     (lo \<le> of_char c \<and> of_char c \<le> hi \<and> continues n 0x80 0xBF cs)"

definition rune_tail :: "nat \<Rightarrow> nat \<times> nat \<times> nat" where
  "rune_tail b =
     (if b < 0xE0 then (1, 0x80, 0xBF)
      else if b < 0xF0 then (2, if b = 0xE0 then 0xA0 else 0x80, if b = 0xED then 0x9F else 0xBF)
      else (3, if b = 0xF0 then 0x90 else 0x80, if b = 0xF4 then 0x8F else 0xBF))"

fun rune_size :: "string \<Rightarrow> nat" where
  "rune_size [] = 0"
| "rune_size (c # cs) =
     (let b = of_char c
      in if b < 0x80 then 1
         else if b < 0xC2 \<or> 0xF4 < b then 0
         else (case rune_tail b of (n, lo, hi) \<Rightarrow> if continues n lo hi cs then Suc n else 0))"

text \<open>A string after \<open>encoding/json\<close> has written it and read it back.\<close>

definition replacement :: string where
  "replacement = [char_of (0xEF :: nat), char_of (0xBF :: nat), char_of (0xBD :: nat)]"

fun json_string :: "string \<Rightarrow> string" where
  "json_string [] = []"
| "json_string (c # cs) =
     (case rune_size (c # cs) of
        0 \<Rightarrow> replacement @ json_string cs
      | Suc k \<Rightarrow> c # take k cs @ json_string (drop k cs))"

fun valid_utf8 :: "string \<Rightarrow> bool" where
  "valid_utf8 [] = True"
| "valid_utf8 (c # cs) =
     (case rune_size (c # cs) of 0 \<Rightarrow> False | Suc k \<Rightarrow> valid_utf8 (drop k cs))"

fun json_float :: "float64 \<Rightarrow> bool" where
  "json_float (Finite q) = True"
| "json_float x = False"

definition json_meta :: "node_meta \<Rightarrow> node_meta" where
  "json_meta m =
     m\<lparr>annotations := map json_string (annotations m), flags := map json_string (flags m)\<rparr>"

definition json_node :: "node_wire \<Rightarrow> node_wire" where
  "json_node w =
     w\<lparr>nw_id := json_string (nw_id w), nw_kind := json_string (nw_kind w),
       nw_qname := json_string (nw_qname w), nw_path := json_string (nw_path w),
       nw_meta := map_option json_meta (nw_meta w)\<rparr>"

definition json_edge :: "edge_wire \<Rightarrow> edge_wire" where
  "json_edge w =
     w\<lparr>ew_id := json_string (ew_id w), ew_from := json_string (ew_from w),
       ew_to := json_string (ew_to w), ew_kind := json_string (ew_kind w),
       ew_tier := json_string (ew_tier w), ew_reason := json_string (ew_reason w),
       ew_evidence := map json_string (ew_evidence w)\<rparr>"

datatype marshal_error = UnsupportedValue float64

definition json_encode :: "graph_wire \<Rightarrow> marshal_error + graph_wire" where
  "json_encode w =
     (case find (\<lambda>ew. \<not> json_float (ew_conf ew)) (gw_edges w) of
        Some ew \<Rightarrow> Inl (UnsupportedValue (ew_conf ew))
      | None \<Rightarrow> Inr (w\<lparr>gw_nodes := map json_node (gw_nodes w), gw_edges := map json_edge (gw_edges w)\<rparr>))"

definition marshal :: "graph \<Rightarrow> marshal_error + graph_wire" where
  "marshal g = json_encode (wire_document g)"

text \<open>The two loops of \<open>Unmarshal\<close>.\<close>

definition unmarshal_node :: "hash64 \<Rightarrow> node_wire \<Rightarrow> model_error + node" where
  "unmarshal_node xxh nw =
     (case new_node xxh (nw_kind nw) (nw_qname nw) (nw_path nw) (nw_line nw) (nw_col nw) of
        Inl e \<Rightarrow> Inl e
      | Inr n \<Rightarrow>
          if n_id n \<noteq> nw_id nw then Inl (ErrNodeIdMismatch (nw_id nw) (n_id n))
          else (case nw_meta nw of
                  None \<Rightarrow> Inr n
                | Some m \<Rightarrow> Inr (with_meta n (new_node_meta (annotations m) (flags m)))))"

definition unmarshal_edge :: "hash64 \<Rightarrow> edge_wire \<Rightarrow> model_error + edge" where
  "unmarshal_edge xxh ew =
     (if \<not> tier_valid (ew_tier ew) then Inl (ErrInvalidEdge (EdgeTierUnknown (ew_tier ew)))
      else (case new_edge xxh (ew_from ew) (ew_to ew) (ew_kind ew) (ew_tier ew) (ew_conf ew)
                   (ew_reason ew) (ew_evidence ew) of
              Inl e \<Rightarrow> Inl e
            | Inr e \<Rightarrow>
                if e_id e \<noteq> ew_id ew then Inl (ErrEdgeIdMismatch (ew_id ew) (e_id e)) else Inr e))"

fun map_err :: "('a \<Rightarrow> 'e + 'b) \<Rightarrow> 'a list \<Rightarrow> 'e + 'b list" where
  "map_err f [] = Inr []"
| "map_err f (x # xs) =
     (case f x of
        Inl e \<Rightarrow> Inl e
      | Inr y \<Rightarrow> (case map_err f xs of Inl e \<Rightarrow> Inl e | Inr ys \<Rightarrow> Inr (y # ys)))"

definition unmarshal :: "hash64 \<Rightarrow> graph_wire \<Rightarrow> model_error + graph" where
  "unmarshal xxh w =
     (if gw_format w \<noteq> serial_format_version then Inl (ErrFormatVersion (gw_format w))
      else (case map_err (unmarshal_node xxh) (gw_nodes w) of
              Inl e \<Rightarrow> Inl e
            | Inr ns \<Rightarrow>
                (case map_err (unmarshal_edge xxh) (gw_edges w) of
                   Inl e \<Rightarrow> Inl e
                 | Inr es \<Rightarrow> Inr (new_graph ns es))))"

text \<open>\<open>Validate\<close>: \<open>None\<close> is the nil error.\<close>

fun validate_ids :: "node_id fset \<Rightarrow> node list \<Rightarrow> model_error + node_id fset" where
  "validate_ids ids [] = Inr ids"
| "validate_ids ids (n # ns) =
     (if blank (n_id n) then Inl (ErrInvalidNode NodeIdEmpty)
      else validate_ids (finsert (n_id n) ids) ns)"

fun validate_edges :: "node_id fset \<Rightarrow> edge list \<Rightarrow> model_error option" where
  "validate_edges ids [] = None"
| "validate_edges ids (e # es) =
     (if blank (e_id e) then Some (ErrInvalidEdge EdgeIdEmpty)
      else if e_from e |\<notin>| ids then Some (ErrInvalidEdge (EdgeUnknownFrom (e_from e)))
      else if e_to e |\<notin>| ids then Some (ErrInvalidEdge (EdgeUnknownTo (e_to e)))
      else validate_edges ids es)"

definition validate :: "graph \<Rightarrow> model_error option" where
  "validate g =
     (case validate_ids {||} (g_nodes g) of
        Inl e \<Rightarrow> Some e
      | Inr ids \<Rightarrow> validate_edges ids (g_edges g))"

subsection \<open>Strings the text keeps\<close>

lemma continues_take:
  "n \<le> m \<Longrightarrow> continues n lo hi (take m cs @ ds) \<longleftrightarrow> continues n lo hi (take m cs @ es)" if "m \<le> length cs"
  using that
proof (induction n lo hi cs arbitrary: m rule: continues.induct)
  case (3 n lo hi c cs)
  then show ?case by (cases m) auto
qed auto

lemma continues_length: "continues n lo hi cs \<Longrightarrow> n \<le> length cs"
  by (induction n lo hi cs rule: continues.induct) auto

lemma rune_size_le: "rune_size cs \<le> length cs"
proof (cases cs)
  case (Cons c ds)
  then show ?thesis
    using continues_length [of "fst (rune_tail (of_char c))" "fst (snd (rune_tail (of_char c)))"
        "snd (snd (rune_tail (of_char c)))" ds]
    by (auto simp: Let_def split: prod.splits)
qed simp

lemma rune_size_take:
  assumes "rune_size (c # cs) = Suc k"
  shows "rune_size (c # take k cs @ ds) = Suc k"
proof -
  have k: "k \<le> length cs" using rune_size_le [of "c # cs"] assms by simp
  show ?thesis
    using assms continues_take [OF k order_refl, of _ _ "drop k cs" ds]
    by (auto simp: Let_def append_take_drop_id split: if_splits prod.splits)
qed


lemma length_json_string: "length s \<le> length (json_string s)"
proof (induction s rule: json_string.induct)
  case (2 c cs)
  show ?case
  proof (cases "rune_size (c # cs)")
    case 0
    then show ?thesis using 2(1) by (simp add: replacement_def del: rune_size.simps)
  next
    case (Suc k)
    then show ?thesis using 2(2) [OF Suc] by (simp del: rune_size.simps)
  qed
qed simp

lemma json_string_valid: "valid_utf8 s \<Longrightarrow> json_string s = s"
  by (induction s rule: valid_utf8.induct) (simp_all del: rune_size.simps split: nat.splits)

lemma json_string_id_iff: "json_string s = s \<longleftrightarrow> valid_utf8 s"
proof
  show "json_string s = s \<Longrightarrow> valid_utf8 s"
  proof (induction s rule: json_string.induct)
    case (2 c cs)
    show ?case
    proof (cases "rune_size (c # cs)")
      case 0
      then have "length (replacement @ json_string cs) = length (c # cs)"
        using 2(3) by (metis json_string.simps(2) old.nat.simps(4))
      then show ?thesis using length_json_string [of cs] by (simp add: replacement_def)
    next
      case (Suc k)
      then have "take k cs @ json_string (drop k cs) = take k cs @ drop k cs"
        using 2(3) by (simp del: rune_size.simps)
      then have "json_string (drop k cs) = drop k cs" by (simp only: same_append_eq)
      then show ?thesis using 2(2) [OF Suc] Suc by (simp del: rune_size.simps)
    qed
  qed simp
qed (rule json_string_valid)

lemma rune_size_replacement: "rune_size (replacement @ s) = 3"
  by (simp add: replacement_def rune_tail_def numeral_3_eq_3 numeral_2_eq_2)

lemma valid_replacement: "valid_utf8 (replacement @ s) = valid_utf8 s"
  using rune_size_replacement [of s] by (simp add: replacement_def del: rune_size.simps)

lemma valid_json_string: "valid_utf8 (json_string s)"
proof (induction s rule: json_string.induct)
  case (2 c cs)
  show ?case
  proof (cases "rune_size (c # cs)")
    case 0
    then show ?thesis using 2(1) by (simp add: valid_replacement del: rune_size.simps)
  next
    case (Suc k)
    have "k \<le> length cs" using rune_size_le [of "c # cs"] Suc by simp
    then show ?thesis
      using 2(2) [OF Suc] rune_size_take [OF Suc, of "json_string (drop k cs)"] Suc
      by (simp add: min_absorb2 del: rune_size.simps)
  qed
qed simp

lemma valid_ascii: "list_all (\<lambda>c. (of_char c :: nat) < 0x80) s \<Longrightarrow> valid_utf8 s"
  by (induction s) simp_all

lemma valid_derive_id: "valid_utf8 (derive_id xxh t fs)"
proof (rule valid_ascii)
  have "list_all (\<lambda>c. (of_char c :: nat) < 0x80) ''0123456789abcdef''" by simp
  then have "\<forall>i < 16. (of_char (''0123456789abcdef'' ! i) :: nat) < 0x80"
    unfolding list_all_length by simp
  then show "list_all (\<lambda>c. (of_char c :: nat) < 0x80) (derive_id xxh t fs)"
    by (simp add: derive_id_def format_id_def hex_digit_def list_all_iff)
qed

text \<open>Nodes and edges whose strings are all UTF-8.\<close>

definition utf8_node :: "node \<Rightarrow> bool" where
  "utf8_node n \<longleftrightarrow>
     list_all valid_utf8
       ([n_kind n, n_qname n, n_path n] @ annotations (n_meta n) @ flags (n_meta n))"

definition utf8_edge :: "edge \<Rightarrow> bool" where
  "utf8_edge e \<longleftrightarrow>
     list_all valid_utf8 ([e_from e, e_to e, e_kind e, e_reason e] @ e_evidence e)"

subsection \<open>Metadata is canonical\<close>

lemma set_dedup_loop:
  "set (dedup_loop seen out ss) = set out \<union> {s \<in> set ss. s \<noteq> [] \<and> s |\<notin>| seen}"
  by (induction seen out ss rule: dedup_loop.induct) auto

lemma distinct_dedup_loop:
  "distinct out \<Longrightarrow> set out \<subseteq> fset seen \<Longrightarrow> distinct (dedup_loop seen out ss)"
  by (induction seen out ss rule: dedup_loop.induct) auto

lemma sorted_dedup_eq: "sorted_dedup_non_empty ss = sorted_list_of_set (set ss - {[]})"
proof (rule ssorted_unique)
  show "ssorted (sorted_dedup_non_empty ss)"
    by (simp add: sorted_dedup_non_empty_def Let_def strict_sorted_iff distinct_dedup_loop)
  have "set (sorted_dedup_non_empty ss) = set (dedup_loop {||} [] ss)"
    by (simp add: sorted_dedup_non_empty_def Let_def)
  also have "\<dots> = set ss - {[]}"
    unfolding set_dedup_loop by auto
  finally show "set (sorted_dedup_non_empty ss) = set (sorted_list_of_set (set ss - {[]}))"
    by simp
qed simp

definition canonical_meta :: "node_meta \<Rightarrow> bool" where
  "canonical_meta m \<longleftrightarrow> new_node_meta (annotations m) (flags m) = m"

lemma canonical_new_node_meta [simp]: "canonical_meta (new_node_meta as fs)"
  by (simp add: canonical_meta_def new_node_meta_def sorted_dedup_eq)

lemma canonical_zero_meta [simp]: "canonical_meta zero_meta"
  by (simp add: canonical_meta_def new_node_meta_def zero_meta_def sorted_dedup_eq)

subsection \<open>Values that the constructors produce\<close>

text \<open>A node that \<open>NewNode\<close> and \<open>WithMeta (NewNodeMeta \<dots>)\<close> build, and an edge of \<open>NewEdge\<close>.\<close>

definition built_node :: "hash64 \<Rightarrow> node \<Rightarrow> bool" where
  "built_node xxh n \<longleftrightarrow>
     (\<exists>p m n0. new_node xxh (n_kind n) (n_qname n) p (n_line n) (n_col n) = Inr n0 \<and>
                n = with_meta n0 m \<and> canonical_meta m)"

definition built_edge :: "hash64 \<Rightarrow> edge \<Rightarrow> bool" where
  "built_edge xxh e \<longleftrightarrow>
     (\<exists>ev. new_edge xxh (e_from e) (e_to e) (e_kind e) (e_tier e) (e_conf e) (e_reason e) ev = Inr e)"

lemma new_node_InrD:
  assumes "new_node xxh k q p l c = Inr n"
  shows "\<not> blank k" "\<not> blank q" "0 \<le> l" "0 \<le> c"
    "n_id n = derive_id xxh node_id_domain_tag [k, q, normalize_path p]" "n_kind n = k"
    "n_qname n = q" "n_path n = normalize_path p" "n_line n = l" "n_col n = c"
    "n_meta n = zero_meta"
  using assms by (auto simp: new_node_def Let_def split: if_splits)

lemma built_nodeD:
  assumes "built_node xxh n"
  shows "\<not> blank (n_kind n)" "\<not> blank (n_qname n)" "0 \<le> n_line n" "0 \<le> n_col n"
    "n_id n = derive_id xxh node_id_domain_tag [n_kind n, n_qname n, n_path n]"
    "repo_relative (n_path n)" "canonical_meta (n_meta n)"
proof -
  from assms obtain p m n0 where
    n0: "new_node xxh (n_kind n) (n_qname n) p (n_line n) (n_col n) = Inr n0"
    and n: "n = with_meta n0 m" "canonical_meta m"
    by (auto simp: built_node_def)
  note c = new_node_InrD [OF n0]
  from c(1-4) show "\<not> blank (n_kind n)" "\<not> blank (n_qname n)" "0 \<le> n_line n" "0 \<le> n_col n" .
  have f: "n_id n = n_id n0" "n_kind n = n_kind n0" "n_qname n = n_qname n0"
    "n_path n = n_path n0" "n_meta n = m"
    by (simp_all add: n with_meta_def)
  show "n_id n = derive_id xxh node_id_domain_tag [n_kind n, n_qname n, n_path n]"
    by (simp only: f(1) f(4) c(5) c(8))
  show "repo_relative (n_path n)"
    by (simp only: f(4) c(8) repo_relative_normalize)
  show "canonical_meta (n_meta n)" by (simp only: f(5) n(2))
qed

lemma evidence_loop_eq:
  "evidence_loop k out evs = (k + length (filter (\<lambda>ev. \<not> blank ev) evs), out @ evs)"
  by (induction k out evs rule: evidence_loop.induct) auto

lemma normalize_evidence_eq:
  "normalize_evidence ev =
     (if ev = [] then Inl (ErrInvalidEdge EdgeEvidenceMissing)
      else if \<forall>x \<in> set ev. blank x then Inl (ErrInvalidEdge EdgeEvidenceBlank)
      else Inr (sort ev))"
  by (auto simp: normalize_evidence_def evidence_loop_eq filter_empty_conv)

lemma new_edge_InrD:
  assumes "new_edge xxh f t k tier conf r ev = Inr e"
  shows "\<not> blank f" "\<not> blank t" "\<not> blank k" "tier_valid tier"
    "\<not> f64_less conf (Finite 0)" "\<not> f64_less (Finite 1) conf" "\<not> blank r"
    "\<exists>x \<in> set ev. \<not> blank x"
    "e_id e = derive_id xxh edge_id_domain_tag [f, t, k]" "e_from e = f" "e_to e = t"
    "e_kind e = k" "e_tier e = tier" "e_conf e = conf" "e_reason e = r" "e_evidence e = sort ev"
  using assms by (auto simp: new_edge_def normalize_evidence_eq split: if_splits)

lemma sort_sort [simp]: "sort (sort xs) = sort xs"
  by (rule sorted_sort_id) simp

lemma normalize_evidence_sort: "normalize_evidence (sort ev) = normalize_evidence ev"
proof -
  have "sort ev = [] \<longleftrightarrow> ev = []" by (metis set_empty set_sort)
  then show ?thesis by (simp add: normalize_evidence_eq)
qed

lemma new_edge_again:
  assumes "built_edge xxh e"
  shows "new_edge xxh (e_from e) (e_to e) (e_kind e) (e_tier e) (e_conf e) (e_reason e)
           (e_evidence e) = Inr e"
proof -
  from assms obtain ev where
    ev: "new_edge xxh (e_from e) (e_to e) (e_kind e) (e_tier e) (e_conf e) (e_reason e) ev = Inr e"
    by (auto simp: built_edge_def)
  have "e_evidence e = sort ev" by (rule new_edge_InrD(16) [OF ev])
  moreover have "new_edge xxh (e_from e) (e_to e) (e_kind e) (e_tier e) (e_conf e) (e_reason e)
                   (sort ev) = Inr e"
    using ev by (simp only: new_edge_def normalize_evidence_sort)
  ultimately show ?thesis by simp
qed

lemma new_node_again:
  assumes "built_node xxh n" "\<not> drive_prefixed (n_path n)"
  shows "new_node xxh (n_kind n) (n_qname n) (n_path n) (n_line n) (n_col n)
           = Inr (n\<lparr>n_meta := zero_meta\<rparr>)"
proof -
  note b = built_nodeD [OF assms(1)]
  have "normalize_path (n_path n) = n_path n" by (rule normalize_path_id [OF b(6) assms(2)])
  moreover have "\<not> n_line n < 0" "\<not> n_col n < 0" using b(3,4) by simp_all
  ultimately have "new_node xxh (n_kind n) (n_qname n) (n_path n) (n_line n) (n_col n) =
      Inr \<lparr>n_id = n_id n, n_kind = n_kind n, n_qname = n_qname n, n_path = n_path n,
           n_line = n_line n, n_col = n_col n, n_meta = zero_meta\<rparr>"
    by (simp add: new_node_def b(1,2) b(5) [symmetric])
  then show ?thesis by (cases n) simp
qed

lemma unmarshal_node_to_wire:
  assumes "built_node xxh n" "\<not> drive_prefixed (n_path n)"
  shows "unmarshal_node xxh (node_to_wire n) = Inr n"
proof -
  have c: "new_node_meta (annotations (n_meta n)) (flags (n_meta n)) = n_meta n"
    using built_nodeD(7) [OF assms(1)] by (simp add: canonical_meta_def)
  have z: "n_meta n = zero_meta" if "meta_is_zero (n_meta n)"
    using that by (cases "n_meta n") (simp add: meta_is_zero_def zero_meta_def)
  have u: "n\<lparr>n_meta := n_meta n\<rparr> = n" by simp
  show ?thesis
    using new_node_again [OF assms] c z u
    by (auto simp: unmarshal_node_def node_to_wire_def with_meta_def)
qed

lemma unmarshal_edge_to_wire:
  "built_edge xxh e \<Longrightarrow> unmarshal_edge xxh (edge_to_wire e) = Inr e"
  using new_edge_again [of xxh e]
  by (auto simp: unmarshal_edge_def edge_to_wire_def built_edge_def dest: new_edge_InrD(4))

lemma map_err_map: "\<forall>x \<in> set xs. f (g x) = Inr x \<Longrightarrow> map_err f (map g xs) = Inr xs"
  by (induction xs) auto

lemma sort_key_map: "sort_key f (map g xs) = map g (sort_key (f \<circ> g) xs)"
proof (induction xs)
  case (Cons x xs)
  have "insort_key f (g x) (map g ys) = map g (insort_key (f \<circ> g) x ys)" for ys
    by (induction ys) auto
  with Cons show ?case by (simp add: comp_def)
qed simp

lemma edge_order_to_wire:
  "edge_order (edge_to_wire e) = (e_id e, e_from e, e_to e, e_kind e)"
  by (simp add: edge_order_def edge_to_wire_def)

text \<open>The canonical order of a graph: nodes by identity, edges by identity and then endpoints.\<close>

definition canonical :: "graph \<Rightarrow> graph" where
  "canonical g =
     new_graph (sort_key n_id (g_nodes g))
               (sort_key (\<lambda>e. (e_id e, e_from e, e_to e, e_kind e)) (g_edges g))"

lemma wire_document_eq:
  "wire_document g =
     \<lparr>gw_format = serial_format_version, gw_identity = identity_schema_version,
      gw_nodes = map node_to_wire (g_nodes (canonical g)),
      gw_edges = map edge_to_wire (g_edges (canonical g))\<rparr>"
proof -
  have "nw_id \<circ> node_to_wire = n_id" by (rule ext) (simp add: node_to_wire_def)
  moreover have "edge_order \<circ> edge_to_wire = (\<lambda>e. (e_id e, e_from e, e_to e, e_kind e))"
    by (rule ext) (simp add: edge_order_to_wire)
  ultimately show ?thesis
    by (simp add: wire_document_def canonical_def new_graph_def sort_key_map)
qed

lemma sort_key_mset_cong:
  "mset xs = mset ys \<Longrightarrow> inj_on f (set xs) \<Longrightarrow> sort_key f xs = sort_key f ys"
  by (rule sort_key_inj_key_eq) simp_all

lemma unmarshal_canonical:
  assumes "\<forall>n \<in> set (g_nodes g). built_node xxh n \<and> \<not> drive_prefixed (n_path n)"
    and "\<forall>e \<in> set (g_edges g). built_edge xxh e"
  shows "unmarshal xxh (wire_document g) = Inr (canonical g)"
proof -
  have "map_err (unmarshal_node xxh) (map node_to_wire (g_nodes (canonical g)))
          = Inr (g_nodes (canonical g))"
    using assms(1) by (intro map_err_map) (simp add: canonical_def new_graph_def unmarshal_node_to_wire)
  moreover have "map_err (unmarshal_edge xxh) (map edge_to_wire (g_edges (canonical g)))
          = Inr (g_edges (canonical g))"
    using assms(2) by (intro map_err_map) (simp add: canonical_def new_graph_def unmarshal_edge_to_wire)
  ultimately show ?thesis
    by (simp add: unmarshal_def wire_document_eq) (simp add: new_graph_def)
qed

lemma sort_key_sort_key [simp]: "sort_key f (sort_key f xs) = sort_key f xs"
  by (rule sort_key_id_if_sorted) simp

lemma canonical_canonical: "canonical (canonical g) = canonical g"
  by (simp add: canonical_def new_graph_def)

lemma json_strings: "list_all valid_utf8 ss \<Longrightarrow> map json_string ss = ss"
  by (induction ss) (simp_all add: json_string_valid)

lemma json_node_to_wire:
  assumes "built_node xxh n" "utf8_node n"
  shows "json_node (node_to_wire n) = node_to_wire n"
proof -
  note b = built_nodeD(5,7) [OF assms(1)]
  have "new_node_meta (annotations (n_meta n)) (flags (n_meta n)) = n_meta n"
    using b(2) by (simp add: canonical_meta_def)
  moreover have "json_meta (n_meta n) = n_meta n"
    using assms(2) by (simp add: json_meta_def utf8_node_def json_strings)
  ultimately show ?thesis
    using assms(2) valid_derive_id [of xxh node_id_domain_tag, folded b(1)]
    by (simp add: json_node_def node_to_wire_def utf8_node_def json_string_valid b(1) valid_derive_id)
qed

lemma built_edge_id:
  "built_edge xxh e \<Longrightarrow> e_id e = derive_id xxh edge_id_domain_tag [e_from e, e_to e, e_kind e]"
  unfolding built_edge_def by (elim exE) (drule new_edge_InrD(9))

lemma valid_tier: "tier_valid t \<Longrightarrow> valid_utf8 t"
  by (rule valid_ascii)
    (auto simp: tier_valid_def valid_tiers_def tier_heuristic_def tier_derived_def tier_confirmed_def)

lemma json_edge_to_wire:
  assumes "built_edge xxh e" "utf8_edge e"
  shows "json_edge (edge_to_wire e) = edge_to_wire e"
proof -
  have "tier_valid (e_tier e)" using assms(1) unfolding built_edge_def by (elim exE) (drule new_edge_InrD(4))
  then show ?thesis
    using assms(2)
    by (simp add: json_edge_def edge_to_wire_def utf8_edge_def json_string_valid json_strings valid_tier
        built_edge_id [OF assms(1)] valid_derive_id)
qed

lemma built_conf: "built_edge xxh e \<Longrightarrow> json_float (e_conf e) \<longleftrightarrow> e_conf e \<noteq> NaN"
  by (cases "e_conf e") (auto simp: built_edge_def new_edge_def split: if_splits)

lemma canonical_sets [simp]:
  "set (g_nodes (canonical g)) = set (g_nodes g)" "set (g_edges (canonical g)) = set (g_edges g)"
  by (simp_all add: canonical_def new_graph_def)

lemma marshal_eq:
  "\<forall>e \<in> set (g_edges g). json_float (e_conf e) \<Longrightarrow>
     marshal g = Inr \<lparr>gw_format = serial_format_version, gw_identity = identity_schema_version,
       gw_nodes = map (json_node \<circ> node_to_wire) (g_nodes (canonical g)),
       gw_edges = map (json_edge \<circ> edge_to_wire) (g_edges (canonical g))\<rparr>"
  "\<exists>e \<in> set (g_edges g). \<not> json_float (e_conf e) \<Longrightarrow>
     \<exists>e \<in> set (g_edges g). marshal g = Inl (UnsupportedValue (e_conf e)) \<and> \<not> json_float (e_conf e)"
proof -
  let ?bad = "\<lambda>ew. \<not> json_float (ew_conf ew)"
  have none: "find ?bad (gw_edges (wire_document g)) = None \<longleftrightarrow> (\<forall>e \<in> set (g_edges g). json_float (e_conf e))"
    by (auto simp: find_None_iff wire_document_eq edge_to_wire_def)
  show "\<forall>e \<in> set (g_edges g). json_float (e_conf e) \<Longrightarrow>
     marshal g = Inr \<lparr>gw_format = serial_format_version, gw_identity = identity_schema_version,
       gw_nodes = map (json_node \<circ> node_to_wire) (g_nodes (canonical g)),
       gw_edges = map (json_edge \<circ> edge_to_wire) (g_edges (canonical g))\<rparr>"
    using none by (simp add: marshal_def json_encode_def) (simp add: wire_document_eq)
  assume "\<exists>e \<in> set (g_edges g). \<not> json_float (e_conf e)"
  then obtain ew where ew: "find ?bad (gw_edges (wire_document g)) = Some ew" using none by fastforce
  then have "?bad ew" "ew \<in> set (gw_edges (wire_document g))" by (auto simp: find_Some_iff)
  then show "\<exists>e \<in> set (g_edges g). marshal g = Inl (UnsupportedValue (e_conf e)) \<and> \<not> json_float (e_conf e)"
    using ew by (auto simp: marshal_def json_encode_def wire_document_eq edge_to_wire_def)
qed

lemma marshal_document:
  assumes "\<forall>n \<in> set (g_nodes g). built_node xxh n \<and> utf8_node n"
    and "\<forall>e \<in> set (g_edges g). built_edge xxh e \<and> e_conf e \<noteq> NaN \<and> utf8_edge e"
  shows "marshal g = Inr (wire_document g)"
proof -
  have "\<forall>e \<in> set (g_edges g). json_float (e_conf e)" using assms(2) built_conf by blast
  moreover have "map (json_node \<circ> node_to_wire) (g_nodes (canonical g)) = map node_to_wire (g_nodes (canonical g))"
    using assms(1) json_node_to_wire by fastforce
  moreover have "map (json_edge \<circ> edge_to_wire) (g_edges (canonical g)) = map edge_to_wire (g_edges (canonical g))"
    using assms(2) json_edge_to_wire by fastforce
  ultimately show ?thesis by (simp add: marshal_eq(1) wire_document_eq)
qed

lemma marshal_unmarshal:
  assumes "\<forall>n \<in> set (g_nodes g). built_node xxh n \<and> \<not> drive_prefixed (n_path n) \<and> utf8_node n"
    and "\<forall>e \<in> set (g_edges g). built_edge xxh e \<and> e_conf e \<noteq> NaN \<and> utf8_edge e"
  shows "marshal g = Inr (wire_document g)" "unmarshal xxh (wire_document g) = Inr (canonical g)"
proof -
  show "marshal g = Inr (wire_document g)" by (rule marshal_document) (use assms in blast)+
  show "unmarshal xxh (wire_document g) = Inr (canonical g)" by (rule unmarshal_canonical) (use assms in blast)+
qed

text \<open>
  C40: a graph of constructed values marshals, and reading the document back gives the same values
  in canonical order, which marshal to the same document again: provided no confidence is NaN,
  every string is UTF-8 and no normalised path still looks drive-prefixed.
\<close>

theorem unmarshal_marshal:
  assumes "\<forall>n \<in> set (g_nodes g). built_node xxh n \<and> \<not> drive_prefixed (n_path n) \<and> utf8_node n"
    and "\<forall>e \<in> set (g_edges g). built_edge xxh e \<and> e_conf e \<noteq> NaN \<and> utf8_edge e"
  shows "\<exists>w. marshal g = Inr w \<and> unmarshal xxh w = Inr (canonical g) \<and> marshal (canonical g) = Inr w"
proof -
  have "wire_document (canonical g) = wire_document g"
    by (simp add: wire_document_eq canonical_canonical)
  then show ?thesis
    using marshal_unmarshal [OF assms] by (simp add: marshal_def)
qed

text \<open>
  \<open>Marshal\<close> fails exactly on a confidence that is not finite, which of the values \<open>NewEdge\<close> builds
  only a NaN is.
\<close>

theorem marshal_fails_iff_nan:
  assumes "\<forall>e \<in> set (g_edges g). built_edge xxh e"
  shows "(\<exists>e. marshal g = Inl e) \<longleftrightarrow> (\<exists>e \<in> set (g_edges g). e_conf e = NaN)"
  using assms marshal_eq [of g] built_conf by (metis Inl_Inr_False)

subsection \<open>Properties\<close>

lemma derive_id_eq_iff:
  assumes "unit_separator \<notin> set t" "unit_separator \<notin> set u"
    and "\<forall>f \<in> set fs. length f < 2 ^ 32" "\<forall>g \<in> set gs. length g < 2 ^ 32"
    and "inj_on xxh {identity_preimage t fs, identity_preimage u gs}"
  shows "derive_id xxh t fs = derive_id xxh u gs \<longleftrightarrow> t = u \<and> fs = gs"
  using assms identity_preimage_inj [of t fs u gs]
  by (auto simp: derive_id_def format_id_inj inj_on_def)

text \<open>
  as long as the hash does not collide on the two pre-images, two identities are equal
  exactly when they belong to the same domain (node or edge) and were derived from the same fields;
  every identity is 16 characters wide.  Fields are below 4 GiB, the bound of the 32-bit length
  prefix.
\<close>

theorem derive_id_identity:
  assumes "t \<in> {node_id_domain_tag, edge_id_domain_tag}"
    and "u \<in> {node_id_domain_tag, edge_id_domain_tag}"
    and "\<forall>f \<in> set (fs @ gs). length f < 2 ^ 32"
    and "inj_on xxh {identity_preimage t fs, identity_preimage u gs}"
  shows "(derive_id xxh t fs = derive_id xxh u gs \<longleftrightarrow> t = u \<and> fs = gs)
         \<and> length (derive_id xxh t fs) = 16"
proof -
  have "unit_separator \<notin> set t" "unit_separator \<notin> set u" using assms(1,2) by auto
  then show ?thesis using assms(3,4)
    by (subst derive_id_eq_iff) (auto simp: derive_id_def id_hex_width_def)
qed

definition sum_hash :: hash64 where
  "sum_hash s = word_of_int (foldl (\<lambda>a c. (31 * a + of_char c) mod 251) 7 s)"

lemma sum_hash_fields:
  "inj_on sum_hash {identity_preimage node_id_domain_tag [''a'', ''bc''],
                    identity_preimage node_id_domain_tag [''ab'', ''c'']}"
proof -
  have "sum_hash (identity_preimage node_id_domain_tag [''a'', ''bc'']) \<noteq>
        sum_hash (identity_preimage node_id_domain_tag [''ab'', ''c''])" by code_simp
  then show ?thesis by (simp add: inj_on_def)
qed

theorem derive_id_identity_witness:
  "derive_id sum_hash node_id_domain_tag [''a'', ''bc''] \<noteq>
   derive_id sum_hash node_id_domain_tag [''ab'', ''c'']"
  using derive_id_identity [OF _ _ _ sum_hash_fields] by simp

lemma length_normalize_path_le: "length (normalize_path p) \<le> length p"
proof -
  have "length (strip_prefix p) \<le> length p"
    by (auto simp: strip_prefix_def Let_def intro: order_trans [OF length_dropWhile_le])
  then show ?thesis using length_normalize_path [of p] by linarith
qed

text \<open>
  normalisation yields a repository-relative path (no empty, \<open>.\<close> or \<open>..\<close>
  component, no backslash), never a longer one than the argument, and is idempotent exactly when
  its result does not look drive-prefixed.
\<close>

theorem normalize_path_normal_form:
  "repo_relative (normalize_path p) \<and> length (normalize_path p) \<le> length p \<and>
   (normalize_path (normalize_path p) = normalize_path p \<longleftrightarrow> \<not> drive_prefixed (normalize_path p))"
proof (intro conjI)
  show "repo_relative (normalize_path p)" by (rule repo_relative_normalize)
  show "length (normalize_path p) \<le> length p" by (rule length_normalize_path_le)
  show "normalize_path (normalize_path p) = normalize_path p \<longleftrightarrow> \<not> drive_prefixed (normalize_path p)"
    using normalize_path_id [OF repo_relative_normalize] normalize_path_drive by blast
qed

lemma f64_in_unit:
  "(\<not> f64_less c (Finite 0) \<and> \<not> f64_less (Finite 1) c) \<longleftrightarrow>
   c = NaN \<or> (\<exists>q. c = Finite q \<and> 0 \<le> q \<and> q \<le> 1)"
  by (cases c) auto

text \<open>
  \<open>NewEdge\<close> accepts exactly the complete provenance it documents, with one
  difference: the range check lets a NaN confidence pass.  The accepted edge carries the derived
  identity and the sorted evidence.
\<close>

theorem new_edge_accepts:
  "(\<exists>e. new_edge xxh f t k tier conf r ev = Inr e) \<longleftrightarrow>
     \<not> blank f \<and> \<not> blank t \<and> \<not> blank k \<and>
     (tier = ''heuristic'' \<or> tier = ''derived'' \<or> tier = ''confirmed'') \<and>
     (conf = NaN \<or> (\<exists>q. conf = Finite q \<and> 0 \<le> q \<and> q \<le> 1)) \<and>
     \<not> blank r \<and> (\<exists>x. x \<in> set ev \<and> \<not> blank x)"
proof -
  have "(\<exists>e. new_edge xxh f t k tier conf r ev = Inr e) \<longleftrightarrow>
     \<not> blank f \<and> \<not> blank t \<and> \<not> blank k \<and> tier_valid tier \<and>
     (\<not> f64_less conf (Finite 0) \<and> \<not> f64_less (Finite 1) conf) \<and>
     \<not> blank r \<and> (\<exists>x. x \<in> set ev \<and> \<not> blank x)"
    by (auto simp: new_edge_def normalize_evidence_eq)
  then show ?thesis
    unfolding f64_in_unit
    by (auto simp: tier_valid_def valid_tiers_def tier_heuristic_def tier_derived_def
             tier_confirmed_def)
qed

text \<open>
  the canonical document does not depend on the order in which nodes and edges were
  collected, as long as identities are distinct.
\<close>

theorem marshal_order_independent:
  assumes "mset (g_nodes g) = mset (g_nodes h)" "mset (g_edges g) = mset (g_edges h)"
    and "inj_on n_id (set (g_nodes g))" "inj_on e_id (set (g_edges g))"
  shows "marshal g = marshal h"
proof -
  have "inj_on (\<lambda>e. (e_id e, e_from e, e_to e, e_kind e)) (set (g_edges g))"
    using assms(4) by (auto simp: inj_on_def)
  then have "canonical g = canonical h"
    using assms sort_key_mset_cong [of "g_nodes g" "g_nodes h" n_id]
      sort_key_mset_cong [of "g_edges g" "g_edges h" "\<lambda>e. (e_id e, e_from e, e_to e, e_kind e)"]
    by (simp add: canonical_def)
  then show ?thesis by (simp add: marshal_def wire_document_eq)
qed

lemma map_err_Inl: "x \<in> set xs \<Longrightarrow> f x = Inl e \<Longrightarrow> \<exists>e. map_err f xs = Inl e"
  by (induction xs) (auto split: sum.splits)

lemma unmarshal_changed_fails:
  assumes n: "n \<in> set (g_nodes g)" "built_node xxh n" and w: "marshal g = Inr w"
    and fs: "fs = [json_string (n_kind n), json_string (n_qname n), normalize_path (json_string (n_path n))]"
      "fs \<noteq> [n_kind n, n_qname n, n_path n]"
    and len: "\<forall>f \<in> set ([n_kind n, n_qname n, n_path n] @ fs). length f < 2 ^ 32"
    and hash: "inj_on xxh {identity_preimage node_id_domain_tag [n_kind n, n_qname n, n_path n],
           identity_preimage node_id_domain_tag fs}"
  shows "\<exists>e. unmarshal xxh w = Inl e"
proof -
  note b = built_nodeD [OF n(2)]
  have "\<forall>f \<in> set [n_kind n, n_qname n, n_path n]. length f < 2 ^ 32" "\<forall>f \<in> set fs. length f < 2 ^ 32"
    using len by simp_all
  from derive_id_eq_iff [OF domain_tags(1) domain_tags(1) this hash] fs(2) b(5)
  have ids: "derive_id xxh node_id_domain_tag fs \<noteq> n_id n" by metis
  have "json_string (n_id n) = n_id n" by (simp only: b(5) json_string_valid valid_derive_id)
  moreover have "\<not> n_line n < 0" "\<not> n_col n < 0" using b(3,4) by simp_all
  ultimately have "\<exists>e. unmarshal_node xxh (json_node (node_to_wire n)) = Inl e"
    using ids unfolding fs(1)
    by (simp add: unmarshal_node_def json_node_def node_to_wire_def new_node_def Let_def)
  then obtain e where e: "unmarshal_node xxh (json_node (node_to_wire n)) = Inl e" ..
  have fin: "\<forall>e \<in> set (g_edges g). json_float (e_conf e)"
    using w marshal_eq(2) [of g] by fastforce
  have "json_node (node_to_wire n) \<in> set (map (json_node \<circ> node_to_wire) (g_nodes (canonical g)))"
    using n(1) by simp
  from map_err_Inl [where f = "unmarshal_node xxh", OF this e]
  obtain e' where "map_err (unmarshal_node xxh) (map (json_node \<circ> node_to_wire) (g_nodes (canonical g))) = Inl e'" ..
  then have "unmarshal xxh w = Inl e'" using w marshal_eq(1) [OF fin] by (auto simp: unmarshal_def)
  then show ?thesis ..
qed

text \<open>
  a graph with a node whose normalised path looks drive-prefixed (such as the one
  built from \<open>/C:/x.go\<close>) is written but can not be read back: normalising the stored path
  again changes it, so the derived identity differs from the stored one.
\<close>

theorem unmarshal_drive_path_fails:
  assumes "n \<in> set (g_nodes g)" "built_node xxh n" "drive_prefixed (n_path n)"
    and "marshal g = Inr w" "utf8_node n"
    and "length (n_kind n) < 2 ^ 32" "length (n_qname n) < 2 ^ 32" "length (n_path n) < 2 ^ 32"
    and "inj_on xxh {identity_preimage node_id_domain_tag [n_kind n, n_qname n, n_path n],
           identity_preimage node_id_domain_tag [n_kind n, n_qname n, normalize_path (n_path n)]}"
  shows "\<exists>e. unmarshal xxh w = Inl e"
proof (rule unmarshal_changed_fails [OF assms(1,2,4)])
  have v: "json_string (n_kind n) = n_kind n" "json_string (n_qname n) = n_qname n" "json_string (n_path n) = n_path n"
    using assms(5) by (simp_all add: utf8_node_def json_string_valid)
  show "[n_kind n, n_qname n, normalize_path (n_path n)] =
      [json_string (n_kind n), json_string (n_qname n), normalize_path (json_string (n_path n))]"
    by (simp add: v)
  show "\<forall>f \<in> set ([n_kind n, n_qname n, n_path n] @ [n_kind n, n_qname n, normalize_path (n_path n)]). length f < 2 ^ 32"
    using assms(6-8) length_normalize_path_le [of "n_path n"] by simp
  show "[n_kind n, n_qname n, normalize_path (n_path n)] \<noteq> [n_kind n, n_qname n, n_path n]"
    using normalize_path_drive [OF assms(3)] by simp
qed (fact assms(9))

text \<open>
  a graph with a node whose kind or qualified name is not UTF-8, which \<open>NewNode\<close> accepts, is
  written without an error but can not be read back: the text carries U+FFFD in its place, so the
  derived identity differs from the stored one.
\<close>

theorem unmarshal_invalid_utf8_fails:
  assumes "n \<in> set (g_nodes g)" "built_node xxh n" "\<not> (valid_utf8 (n_kind n) \<and> valid_utf8 (n_qname n))"
    and "marshal g = Inr w"
    and "fs = [json_string (n_kind n), json_string (n_qname n), normalize_path (json_string (n_path n))]"
    and "\<forall>f \<in> set ([n_kind n, n_qname n, n_path n] @ fs). length f < 2 ^ 32"
    and "inj_on xxh {identity_preimage node_id_domain_tag [n_kind n, n_qname n, n_path n],
           identity_preimage node_id_domain_tag fs}"
  shows "\<exists>e. unmarshal xxh w = Inl e"
  by (rule unmarshal_changed_fails [OF assms(1,2,4,5) _ assms(6,7)])
    (use assms(3) in \<open>auto simp: assms(5) json_string_id_iff\<close>)

lemma validate_ids_eq:
  "validate_ids ids ns =
     (if \<exists>n \<in> set ns. blank (n_id n) then Inl (ErrInvalidNode NodeIdEmpty)
      else Inr (ids |\<union>| fset_of_list (map n_id ns)))"
  by (induction ids ns rule: validate_ids.induct) auto

lemma validate_edges_None:
  "validate_edges ids es = None \<longleftrightarrow>
     (\<forall>e \<in> set es. \<not> blank (e_id e) \<and> e_from e |\<in>| ids \<and> e_to e |\<in>| ids)"
  by (induction ids es rule: validate_edges.induct) auto

lemma validate_None:
  "validate g = None \<longleftrightarrow>
     (\<forall>n \<in> set (g_nodes g). \<not> blank (n_id n)) \<and>
     (\<forall>e \<in> set (g_edges g). \<not> blank (e_id e) \<and>
        e_from e \<in> n_id ` set (g_nodes g) \<and> e_to e \<in> n_id ` set (g_nodes g))"
  by (auto simp: validate_def validate_ids_eq validate_edges_None fset_of_list_elem)

subsection \<open>Witnesses\<close>

definition ex_node :: "string \<Rightarrow> node" where
  "ex_node path =
     \<lparr>n_id = derive_id sum_hash node_id_domain_tag [''function'', ''m.f'', path],
      n_kind = ''function'', n_qname = ''m.f'', n_path = path, n_line = 3, n_col = 1,
      n_meta = zero_meta\<rparr>"

definition ex_edge :: edge where
  "ex_edge =
     \<lparr>e_id = derive_id sum_hash edge_id_domain_tag [''n1'', ''n2'', ''calls''],
      e_from = ''n1'', e_to = ''n2'', e_kind = ''calls'', e_tier = ''derived'',
      e_conf = Finite 1, e_reason = ''same package'', e_evidence = [''a.go:1'', ''b.go:2'']\<rparr>"

lemma built_ex_node:
  assumes "new_node sum_hash ''function'' ''m.f'' p 3 1 = Inr (ex_node path)"
  shows "built_node sum_hash (ex_node path)"
  unfolding built_node_def
  by (rule exI [of _ p], rule exI [of _ zero_meta], rule exI [of _ "ex_node path"])
     (use assms in \<open>simp add: ex_node_def with_meta_def\<close>)

lemma ex_node_plain: "new_node sum_hash ''function'' ''m.f'' ''./a/../b.go'' 3 1 = Inr (ex_node ''b.go'')"
  by code_simp

lemma ex_node_drive: "new_node sum_hash ''function'' ''m.f'' ''/C:/x.go'' 3 1 = Inr (ex_node ''C:/x.go'')"
  by code_simp

lemma built_ex_edge: "built_edge sum_hash ex_edge"
  unfolding built_edge_def
  by (rule exI [of _ "[''b.go:2'', ''a.go:1'']"]) code_simp

lemma utf8_ex: "utf8_node (ex_node ''b.go'')" "utf8_node (ex_node ''C:/x.go'')" "utf8_edge ex_edge"
  by (simp_all add: utf8_node_def utf8_edge_def ex_node_def ex_edge_def zero_meta_def)

theorem unmarshal_marshal_witness:
  "\<exists>w. marshal (new_graph [ex_node ''b.go''] [ex_edge]) = Inr w \<and>
     unmarshal sum_hash w = Inr (canonical (new_graph [ex_node ''b.go''] [ex_edge])) \<and>
     marshal (canonical (new_graph [ex_node ''b.go''] [ex_edge])) = Inr w"
proof (rule unmarshal_marshal)
  have "\<not> drive_prefixed (n_path (ex_node ''b.go''))" by (simp add: ex_node_def)
  then show "\<forall>n \<in> set (g_nodes (new_graph [ex_node ''b.go''] [ex_edge])).
      built_node sum_hash n \<and> \<not> drive_prefixed (n_path n) \<and> utf8_node n"
    by (simp add: new_graph_def built_ex_node [OF ex_node_plain] utf8_ex)
  have "e_conf ex_edge \<noteq> NaN" by (simp add: ex_edge_def)
  then show "\<forall>e \<in> set (g_edges (new_graph [ex_node ''b.go''] [ex_edge])).
      built_edge sum_hash e \<and> e_conf e \<noteq> NaN \<and> utf8_edge e"
    by (simp add: new_graph_def built_ex_edge utf8_ex)
qed

theorem marshal_order_independent_witness:
  "marshal (new_graph [ex_node ''b.go'', ex_node ''a.go''] [])
     = marshal (new_graph [ex_node ''a.go'', ex_node ''b.go''] [])"
proof (rule marshal_order_independent)
  have "n_id (ex_node ''b.go'') \<noteq> n_id (ex_node ''a.go'')" by code_simp
  then show "inj_on n_id (set (g_nodes (new_graph [ex_node ''b.go'', ex_node ''a.go''] [])))"
    by (simp add: new_graph_def inj_on_def)
qed (simp_all add: new_graph_def)

lemma ex_drive_no_collision:
  "inj_on sum_hash {identity_preimage node_id_domain_tag [''function'', ''m.f'', ''C:/x.go''],
     identity_preimage node_id_domain_tag [''function'', ''m.f'', normalize_path ''C:/x.go'']}"
proof -
  have "sum_hash (identity_preimage node_id_domain_tag [''function'', ''m.f'', ''C:/x.go'']) \<noteq>
        sum_hash (identity_preimage node_id_domain_tag [''function'', ''m.f'', normalize_path ''C:/x.go''])"
    by code_simp
  then show ?thesis by (simp add: inj_on_def)
qed

theorem unmarshal_drive_path_fails_witness:
  "\<exists>w e. marshal (new_graph [ex_node ''C:/x.go''] []) = Inr w \<and> unmarshal sum_hash w = Inl e"
proof -
  have m: "marshal (new_graph [ex_node ''C:/x.go''] []) = Inr (wire_document (new_graph [ex_node ''C:/x.go''] []))"
    by (rule marshal_document [where xxh = sum_hash])
      (simp_all add: new_graph_def utf8_ex built_ex_node [OF ex_node_drive])
  have "\<exists>e. unmarshal sum_hash (wire_document (new_graph [ex_node ''C:/x.go''] [])) = Inl e"
  proof (rule unmarshal_drive_path_fails [OF _ built_ex_node [OF ex_node_drive] _ m utf8_ex(2)])
    show "drive_prefixed (n_path (ex_node ''C:/x.go''))"
      by (simp add: ex_node_def is_letter_def)
    show "inj_on sum_hash
       {identity_preimage node_id_domain_tag
          [n_kind (ex_node ''C:/x.go''), n_qname (ex_node ''C:/x.go''), n_path (ex_node ''C:/x.go'')],
        identity_preimage node_id_domain_tag
          [n_kind (ex_node ''C:/x.go''), n_qname (ex_node ''C:/x.go''),
           normalize_path (n_path (ex_node ''C:/x.go''))]}"
      using ex_drive_no_collision by (simp add: ex_node_def)
  qed (simp_all add: new_graph_def ex_node_def)
  then show ?thesis using m by blast
qed

text \<open>A function named with the single byte \<open>0xFF\<close>.\<close>

definition latin_node :: node where
  "latin_node =
     \<lparr>n_id = derive_id sum_hash node_id_domain_tag [''function'', [char_of (0xFF :: nat)], ''b.go''],
      n_kind = ''function'', n_qname = [char_of (0xFF :: nat)], n_path = ''b.go'', n_line = 3, n_col = 1,
      n_meta = zero_meta\<rparr>"

lemma built_latin_node: "built_node sum_hash latin_node"
proof -
  have "new_node sum_hash ''function'' [char_of (0xFF :: nat)] ''b.go'' 3 1 = Inr latin_node" by code_simp
  then show ?thesis
    unfolding built_node_def
    by (intro exI [of _ "''b.go''"] exI [of _ zero_meta] exI [of _ latin_node])
      (simp add: latin_node_def with_meta_def)
qed

theorem unmarshal_invalid_utf8_fails_witness:
  "\<exists>w e. marshal (new_graph [latin_node] []) = Inr w \<and> unmarshal sum_hash w = Inl e"
proof -
  obtain w where w: "marshal (new_graph [latin_node] []) = Inr w"
    using marshal_eq(1) [of "new_graph [latin_node] []"] by (simp add: new_graph_def)
  have f: "n_kind latin_node = ''function''" "n_qname latin_node = [char_of (0xFF :: nat)]" "n_path latin_node = ''b.go''"
    by (simp_all add: latin_node_def)
  have "sum_hash (identity_preimage node_id_domain_tag [''function'', [char_of (0xFF :: nat)], ''b.go'']) \<noteq>
      sum_hash (identity_preimage node_id_domain_tag
        [json_string ''function'', json_string [char_of (0xFF :: nat)], normalize_path (json_string ''b.go'')])"
    by code_simp
  then have h: "inj_on sum_hash {identity_preimage node_id_domain_tag [n_kind latin_node, n_qname latin_node, n_path latin_node],
      identity_preimage node_id_domain_tag
        [json_string (n_kind latin_node), json_string (n_qname latin_node), normalize_path (json_string (n_path latin_node))]}"
    unfolding f by (simp only: inj_on_insert inj_on_empty) auto
  have l: "json_string ''function'' = ''function''" "json_string [char_of (0xFF :: nat)] = replacement"
    "normalize_path ''b.go'' = ''b.go''" "\<not> valid_utf8 [char_of (0xFF :: nat)]"
    by code_simp+
  have "\<exists>e. unmarshal sum_hash w = Inl e"
    by (rule unmarshal_invalid_utf8_fails [OF _ built_latin_node _ w refl _ h])
      (simp_all add: f l replacement_def new_graph_def)
  then show ?thesis using w by blast
qed

end
