(* ===== verification/Treap.thy ===== *)
theory Treap
  imports Prelude
begin

unbundle bit_operations_syntax

text \<open>
  \<open>core/graphstore/kind_tree.go\<close> and \<open>edge_id_tree.go\<close>: the deterministic treaps behind
  the bounded adjacency reads.  Both files hold the same code over strings, once for edge kinds
  and once for edge identities; here the operations are stated once, over the priority function,
  and each file's operations are instances.  A nil pointer is \<open>Leaf\<close>.
\<close>

datatype 'k tnode = Leaf | Node (left: "'k tnode") (key: 'k) (prio: "64 word") (right: "'k tnode")

fun root_prio :: "'k tnode \<Rightarrow> 64 word" where
  "root_prio (Node l k p r) = p"
| "root_prio Leaf = 0"

fun rotate_right :: "'k tnode \<Rightarrow> 'k tnode" where
  "rotate_right (Node (Node a k p b) k' p' c) = Node a k p (Node b k' p' c)"
| "rotate_right t = t"

fun rotate_left :: "'k tnode \<Rightarrow> 'k tnode" where
  "rotate_left (Node a k p (Node b k' p' c)) = Node (Node a k p b) k' p' c"
| "rotate_left t = t"

fun insert_node :: "('k::linorder \<Rightarrow> 64 word) \<Rightarrow> 'k tnode \<Rightarrow> 'k \<Rightarrow> 'k tnode \<times> bool" where
  "insert_node pf Leaf v = (Node Leaf v (pf v) Leaf, True)"
| "insert_node pf (Node l k p r) v =
     (if v = k then (Node l k p r, False)
      else if v < k then
        (let (l', added) = insert_node pf l v; root = Node l' k p r
         in (if root_prio l' < p then rotate_right root else root, added))
      else
        (let (r', added) = insert_node pf r v; root = Node l k p r'
         in (if root_prio r' < p then rotate_left root else root, added)))"

fun merge_nodes :: "'k tnode \<Rightarrow> 'k tnode \<Rightarrow> 'k tnode" where
  "merge_nodes Leaf r = r"
| "merge_nodes l Leaf = l"
| "merge_nodes (Node a k p b) (Node c k' p' d) =
     (if p < p' then Node a k p (merge_nodes b (Node c k' p' d))
      else Node (merge_nodes (Node a k p b) c) k' p' d)"

fun delete_node :: "'k::linorder tnode \<Rightarrow> 'k \<Rightarrow> 'k tnode \<times> bool" where
  "delete_node Leaf v = (Leaf, False)"
| "delete_node (Node l k p r) v =
     (if v < k then (let (l', removed) = delete_node l v in (Node l' k p r, removed))
      else if v > k then (let (r', removed) = delete_node r v in (Node l k p r', removed))
      else (merge_nodes l r, True))"

text \<open>The tree objects: a root and a size.\<close>

record 'k tree =
  root :: "'k tnode"
  size_of :: int

definition empty_tree :: "'k tree" where
  "empty_tree = \<lparr>root = Leaf, size_of = 0\<rparr>"

definition tree_len :: "'k tree option \<Rightarrow> int" where
  "tree_len t = (case t of None \<Rightarrow> 0 | Some t \<Rightarrow> size_of t)"

definition tree_insert :: "('k::linorder \<Rightarrow> 64 word) \<Rightarrow> 'k tree \<Rightarrow> 'k \<Rightarrow> 'k tree" where
  "tree_insert pf t v =
     (let (rt, added) = insert_node pf (root t) v
      in t\<lparr>root := rt, size_of := (if added then size_of t + 1 else size_of t)\<rparr>)"

definition tree_delete :: "'k::linorder tree \<Rightarrow> 'k \<Rightarrow> 'k tree" where
  "tree_delete t v =
     (let (rt, removed) = delete_node (root t) v
      in t\<lparr>root := rt, size_of := (if removed then size_of t - 1 else size_of t)\<rparr>)"

text \<open>The iterative in-order prefix: the inner loop pushes the left spine, then one node is popped.\<close>

fun push_left :: "'k tnode \<Rightarrow> 'k tnode list \<Rightarrow> 'k tnode list" where
  "push_left Leaf stack = stack"
| "push_left (Node l k p r) stack = push_left l (Node l k p r # stack)"

function first_loop :: "int \<Rightarrow> 'k tnode \<Rightarrow> 'k tnode list \<Rightarrow> 'k list \<Rightarrow> 'k list" where
  "first_loop limit cur stack out =
     (if (cur \<noteq> Leaf \<or> stack \<noteq> []) \<and> int (length out) < limit then
        (case push_left cur stack of
           [] \<Rightarrow> out
         | t # stack' \<Rightarrow> first_loop limit (right t) stack' (out @ [key t]))
      else out)"
  by pat_completeness auto
termination
  by (relation "measure (\<lambda>(limit, cur, stack, out). nat (limit - int (length out)))") auto

declare first_loop.simps [simp del]

definition tree_first :: "'k tree option \<Rightarrow> int \<Rightarrow> 'k list" where
  "tree_first t limit =
     (case t of
        None \<Rightarrow> []
      | Some t \<Rightarrow>
          if limit \<le> 0 \<or> root t = Leaf then []
          else first_loop (if size_of t < limit then size_of t else limit) (root t) [] [])"

text \<open>\<open>stringPriority\<close>: FNV-1a followed by the SplitMix64 avalanche, modulo \<open>2 ^ 64\<close>.\<close>

fun fnv1a :: "64 word \<Rightarrow> string \<Rightarrow> 64 word" where
  "fnv1a hash [] = hash"
| "fnv1a hash (c # cs) = fnv1a ((hash XOR word_of_nat (of_char c)) * 1099511628211) cs"

definition string_priority :: "string \<Rightarrow> 64 word" where
  "string_priority s =
     (let h0 = fnv1a 1469598103934665603 s;
          h1 = h0 + 0x9e3779b97f4a7c15;
          h2 = (h1 XOR drop_bit 30 h1) * 0xbf58476d1ce4e5b9;
          h3 = (h2 XOR drop_bit 27 h2) * 0x94d049bb133111eb
      in h3 XOR drop_bit 31 h3)"

definition edge_id_priority :: "string \<Rightarrow> 64 word" where
  "edge_id_priority eid = string_priority eid"

text \<open>The operations of the two files.\<close>

definition kind_insert :: "string tree \<Rightarrow> string \<Rightarrow> string tree" where
  "kind_insert = tree_insert string_priority"

definition kind_delete :: "string tree \<Rightarrow> string \<Rightarrow> string tree" where
  "kind_delete = tree_delete"

definition kind_first :: "string tree option \<Rightarrow> int \<Rightarrow> string list" where
  "kind_first = tree_first"

definition edge_id_insert :: "string tree \<Rightarrow> string \<Rightarrow> string tree" where
  "edge_id_insert = tree_insert edge_id_priority"

definition edge_id_delete :: "string tree \<Rightarrow> string \<Rightarrow> string tree" where
  "edge_id_delete = tree_delete"

definition edge_id_first :: "string tree option \<Rightarrow> int \<Rightarrow> string list" where
  "edge_id_first = tree_first"

subsection \<open>The search-tree and heap invariant\<close>

fun keys :: "'k tnode \<Rightarrow> 'k set" where
  "keys Leaf = {}"
| "keys (Node l k p r) = insert k (keys l \<union> keys r)"

fun inorder :: "'k tnode \<Rightarrow> 'k list" where
  "inorder Leaf = []"
| "inorder (Node l k p r) = inorder l @ k # inorder r"

definition prio_above :: "64 word \<Rightarrow> 'k tnode \<Rightarrow> bool" where
  "prio_above p t \<longleftrightarrow> t = Leaf \<or> p \<le> root_prio t"

fun treap_ok :: "('k::linorder \<Rightarrow> 64 word) \<Rightarrow> 'k tnode \<Rightarrow> bool" where
  "treap_ok pf Leaf = True"
| "treap_ok pf (Node l k p r) =
     (p = pf k \<and> (\<forall>x \<in> keys l. x < k) \<and> (\<forall>x \<in> keys r. k < x) \<and>
      prio_above p l \<and> prio_above p r \<and> treap_ok pf l \<and> treap_ok pf r)"

lemma prio_above_simps [simp]:
  "prio_above p Leaf" "prio_above p (Node l k q r) \<longleftrightarrow> p \<le> q"
  by (simp_all add: prio_above_def)

lemma finite_keys [simp]: "finite (keys t)"
  by (induction t) auto

lemma set_inorder [simp]: "set (inorder t) = keys t"
  by (induction t) auto

lemma ssorted_inorder: "treap_ok pf t \<Longrightarrow> ssorted (inorder t)"
proof (induction t)
  case (Node l k p r)
  then have "ssorted (inorder l)" "ssorted (inorder r)" by simp_all
  moreover have "\<forall>x \<in> keys l. \<forall>y \<in> keys r. x < y"
    using Node.prems by (auto intro: order.strict_trans)
  ultimately show ?case using Node.prems by (simp add: sorted_wrt_append)
qed simp

lemma inorder_eq: "treap_ok pf t \<Longrightarrow> inorder t = sorted_list_of_set (keys t)"
  using ssorted_eq_sorted_list_of_set [OF ssorted_inorder] by simp

lemma keys_rotate [simp]: "keys (rotate_right t) = keys t" "keys (rotate_left u) = keys u"
  by (cases t rule: rotate_right.cases; auto) (cases u rule: rotate_left.cases; auto)

lemma insert_node_cases:
  obtains a k p b ad where "insert_node pf t v = (Node a k p b, ad)"
proof -
  have "\<exists>a k p b ad. insert_node pf t v = (Node a k p b, ad)"
  proof (induction t)
    case (Node l k p r)
    have rot: "\<exists>a k p b. rotate_right (Node l' k p r) = Node a k p b"
      "\<exists>a k p b. rotate_left (Node l k p r') = Node a k p b" for l' r'
      by (cases l'; simp) (cases r'; simp)
    from Node show ?case using rot by (auto simp: Let_def split: prod.splits)
  qed auto
  then show ?thesis using that by blast
qed

lemma keys_insert_node [simp]: "keys (fst (insert_node pf t v)) = insert v (keys t)"
proof (induction t)
  case (Node l k p r)
  then show ?case by (simp add: Let_def split_beta) blast
qed simp

lemma added_insert_node:
  "treap_ok pf t \<Longrightarrow> snd (insert_node pf t v) \<longleftrightarrow> v \<notin> keys t"
proof (induction t)
  case (Node l k p r)
  then show ?case by (auto simp: Let_def split_beta)
qed simp

lemma insert_node_children:
  "treap_ok pf t \<Longrightarrow> prio_above q t \<Longrightarrow> insert_node pf t v = (Node a k1 p1 b, ad)
     \<Longrightarrow> prio_above q a \<and> prio_above q b"
proof (induction t arbitrary: q a k1 p1 b ad)
  case (Node l k p r)
  obtain la lk lp lb lad where l: "insert_node pf l v = (Node la lk lp lb, lad)"
    by (rule insert_node_cases)
  obtain ra rk rp rb rad where r: "insert_node pf r v = (Node ra rk rp rb, rad)"
    by (rule insert_node_cases)
  have lr: "treap_ok pf l" "prio_above p l" "treap_ok pf r" "prio_above p r"
    using Node.prems(1) by auto
  have "prio_above p la \<and> prio_above p lb" "prio_above p ra \<and> prio_above p rb"
    by (rule Node.IH(1) [OF lr(1,2) l], rule Node.IH(2) [OF lr(3,4) r])
  then have c: "prio_above p la" "prio_above p lb" "prio_above p ra" "prio_above p rb" by simp_all
  have q: "q \<le> p" using Node.prems(2) by simp
  have up: "prio_above q t" if "prio_above p t" for t
    using that q by (cases t) auto
  consider "v = k" | "v < k" "lp < p" | "v < k" "\<not> lp < p" | "k < v" "rp < p" | "k < v" "\<not> rp < p"
    by (metis linorder_cases)
  then show ?case
  proof cases
    case 1
    then show ?thesis using Node.prems(3) up lr by auto
  next
    case 2
    then have "v \<noteq> k" by auto
    with 2 show ?thesis using Node.prems(3) l c up q by (auto simp: Let_def)
  next
    case 3
    then have "v \<noteq> k" by auto
    with 3 show ?thesis using Node.prems(3) l lr up q by (auto simp: Let_def)
  next
    case 4
    then have "\<not> v < k" "v \<noteq> k" by auto
    with 4 show ?thesis using Node.prems(3) r c up q by (auto simp: Let_def)
  next
    case 5
    then have "\<not> v < k" "v \<noteq> k" by auto
    with 5 show ?thesis using Node.prems(3) r lr up q by (auto simp: Let_def)
  qed
qed simp

lemma treap_ok_insert_node: "treap_ok pf t \<Longrightarrow> treap_ok pf (fst (insert_node pf t v))"
proof (induction t)
  case (Node l k p r)
  obtain la lk lp lb lad where l: "insert_node pf l v = (Node la lk lp lb, lad)"
    by (rule insert_node_cases)
  obtain ra rk rp rb rad where r: "insert_node pf r v = (Node ra rk rp rb, rad)"
    by (rule insert_node_cases)
  have lr: "treap_ok pf l" "prio_above p l" "treap_ok pf r" "prio_above p r"
    using Node.prems by auto
  have pa: "prio_above p la \<and> prio_above p lb" "prio_above p ra \<and> prio_above p rb"
    by (rule insert_node_children [OF lr(1,2) l], rule insert_node_children [OF lr(3,4) r])
  have kl: "insert lk (keys la \<union> keys lb) = insert v (keys l)"
    and kr: "insert rk (keys ra \<union> keys rb) = insert v (keys r)"
    using keys_insert_node [of pf l v] keys_insert_node [of pf r v] l r by simp_all
  consider "v = k" | "v < k" | "k < v" by (rule linorder_cases)
  then show ?case
  proof cases
    case 2
    have tl: "treap_ok pf (Node la lk lp lb)" using Node.IH(1) [OF lr(1)] by (simp only: l fst_conv)
    have lt: "\<forall>x \<in> insert lk (keys la \<union> keys lb). x < k" using kl 2 Node.prems by simp
    show ?thesis using 2 tl lt Node.prems pa l
      by (auto simp: Let_def intro: order.strict_trans)
  next
    case 3
    have tr: "treap_ok pf (Node ra rk rp rb)" using Node.IH(2) [OF lr(3)] by (simp only: r fst_conv)
    have gt: "\<forall>x \<in> insert rk (keys ra \<union> keys rb). k < x" using kr 3 Node.prems by simp
    show ?thesis using 3 tr gt Node.prems pa r
      by (auto simp: Let_def intro: order.strict_trans)
  qed (use Node.prems in auto)
qed simp

lemma keys_merge_nodes [simp]: "keys (merge_nodes s t) = keys s \<union> keys t"
  by (induction s t rule: merge_nodes.induct) auto

lemma prio_above_merge_nodes:
  "prio_above q s \<Longrightarrow> prio_above q t \<Longrightarrow> prio_above q (merge_nodes s t)"
  by (cases s; cases t) auto

lemma treap_ok_merge_nodes:
  "treap_ok pf s \<Longrightarrow> treap_ok pf t \<Longrightarrow> \<forall>x \<in> keys s. \<forall>y \<in> keys t. x < y
     \<Longrightarrow> treap_ok pf (merge_nodes s t)"
proof (induction s t rule: merge_nodes.induct)
  case (3 a k p b c k' p' d)
  show ?case
  proof (cases "p < p'")
    case True
    have "treap_ok pf (merge_nodes b (Node c k' p' d))" using "3.IH"(1) [OF True] "3.prems" by auto
    then show ?thesis using True "3.prems"
      by (auto intro: prio_above_merge_nodes)
  next
    case False
    have "treap_ok pf (merge_nodes (Node a k p b) c)" using "3.IH"(2) [OF False] "3.prems" by auto
    then show ?thesis using False "3.prems"
      by (auto intro: prio_above_merge_nodes)
  qed
qed simp_all

lemma delete_node_facts:
  "treap_ok pf t \<Longrightarrow>
     keys (fst (delete_node t v)) = keys t - {v} \<and> (snd (delete_node t v) \<longleftrightarrow> v \<in> keys t) \<and>
     treap_ok pf (fst (delete_node t v)) \<and>
     (\<forall>q. prio_above q t \<longrightarrow> prio_above q (fst (delete_node t v)))"
proof (induction t)
  case (Node l k p r)
  have l: "treap_ok pf l" and r: "treap_ok pf r" using Node.prems by simp_all
  note IHl = Node.IH(1) [OF l] and IHr = Node.IH(2) [OF r]
  consider "v = k" | "v < k" | "k < v" by (rule linorder_cases)
  then show ?case
  proof cases
    case 1
    have "\<forall>x \<in> keys l. \<forall>y \<in> keys r. x < y" using Node.prems by (auto intro: order.strict_trans)
    then have "treap_ok pf (merge_nodes l r)" using l r by (intro treap_ok_merge_nodes)
    moreover have "prio_above q (merge_nodes l r)" if "q \<le> p" for q
      using Node.prems that by (intro prio_above_merge_nodes) (auto simp: prio_above_def)
    ultimately show ?thesis using 1 Node.prems by auto
  next
    case 2
    then have "v \<notin> keys r" using Node.prems by auto
    with 2 show ?thesis using IHl Node.prems by (auto simp: Let_def split_beta)
  next
    case 3
    then have "v \<notin> keys l" using Node.prems by auto
    with 3 show ?thesis using IHr Node.prems by (auto simp: Let_def split_beta)
  qed
qed simp

subsection \<open>The shape depends on the keys only\<close>

lemma prio_above_keys: "treap_ok pf t \<Longrightarrow> prio_above q t \<Longrightarrow> x \<in> keys t \<Longrightarrow> q \<le> pf x"
proof (induction t arbitrary: q)
  case (Node l k p r)
  have "prio_above p l" "prio_above p r" "q \<le> p" "p = pf k" using Node.prems by auto
  then show ?case using Node.IH(1) [of p] Node.IH(2) [of p] Node.prems(1,3)
    by (auto intro: order_trans)
qed simp

lemma root_min:
  assumes "treap_ok pf (Node l k p r)" "x \<in> keys (Node l k p r)"
  shows "pf k \<le> pf x"
  using prio_above_keys [OF assms(1) _ assms(2), of p] assms(1) by auto

lemma treap_shape:
  "treap_ok pf s \<Longrightarrow> treap_ok pf t \<Longrightarrow> keys s = keys t \<Longrightarrow> inj_on pf (keys s) \<Longrightarrow> s = t"
proof (induction s arbitrary: t)
  case Leaf
  then show ?case by (cases t) auto
next
  case (Node l k p r)
  from Node.prems(3) obtain l' k' p' r' where t: "t = Node l' k' p' r'" by (cases t) auto
  have "pf k \<le> pf k'" "pf k' \<le> pf k"
    using root_min [OF Node.prems(1)] root_min [of pf l' k' p' r'] Node.prems(2,3) t by auto
  then have "pf k = pf k'" by simp
  moreover have "k' \<in> keys (Node l k p r)" using Node.prems(3) t by auto
  ultimately have k: "k' = k" using Node.prems(4) by (auto simp: inj_on_def)
  have keys_l: "keys l = {x \<in> keys (Node l k p r). x < k}" using Node.prems(1) by auto
  have keys_r: "keys r = {x \<in> keys (Node l k p r). k < x}" using Node.prems(1) by auto
  have keys_l': "keys l' = {x \<in> keys t. x < k}" using Node.prems(2) t k by auto
  have keys_r': "keys r' = {x \<in> keys t. k < x}" using Node.prems(2) t k by auto
  have ok: "treap_ok pf l" "treap_ok pf r" "treap_ok pf l'" "treap_ok pf r'"
    using Node.prems(1,2) t by simp_all
  have inj: "inj_on pf (keys l)" "inj_on pf (keys r)"
    using Node.prems(4) by (auto elim!: inj_on_subset)
  have "l = l'"
    by (intro Node.IH(1) [OF ok(1,3) _ inj(1)] trans [OF keys_l]) (simp only: keys_l' Node.prems(3))
  moreover have "r = r'"
    by (intro Node.IH(2) [OF ok(2,4) _ inj(2)] trans [OF keys_r]) (simp only: keys_r' Node.prems(3))
  ultimately show ?case using Node.prems(1,2) t k by simp
qed

subsection \<open>The iterative prefix\<close>

fun pending :: "'k tnode list \<Rightarrow> 'k list" where
  "pending [] = []"
| "pending (t # ts) = (case t of Leaf \<Rightarrow> [] | Node l k p r \<Rightarrow> k # inorder r) @ pending ts"

lemma pending_push_left: "pending (push_left t ts) = inorder t @ pending ts"
  by (induction t ts rule: push_left.induct) auto

lemma push_left_nodes: "Leaf \<notin> set ts \<Longrightarrow> Leaf \<notin> set (push_left t ts)"
  by (induction t ts rule: push_left.induct) auto

lemma push_left_Nil [simp]: "push_left t ts = [] \<longleftrightarrow> t = Leaf \<and> ts = []"
  by (induction t ts rule: push_left.induct) auto

lemma first_loop_eq:
  "Leaf \<notin> set stack \<Longrightarrow> int (length out) \<le> limit \<Longrightarrow>
     first_loop limit cur stack out = take (nat limit) (out @ inorder cur @ pending stack)"
proof (induction limit cur stack out rule: first_loop.induct)
  case (1 limit cur stack out)
  show ?case
  proof (cases "(cur \<noteq> Leaf \<or> stack \<noteq> []) \<and> int (length out) < limit")
    case True
    then obtain t ts where p: "push_left cur stack = t # ts"
      by (cases "push_left cur stack") auto
    with push_left_nodes [OF "1.prems"(1), of cur] obtain l k q r
      where t: "t = Node l k q r" and ts: "Leaf \<notin> set ts" by (cases t) auto
    have "first_loop limit cur stack out = first_loop limit r ts (out @ [k])"
      using True p t by (subst first_loop.simps) simp
    also have "\<dots> = take (nat limit) ((out @ [k]) @ inorder r @ pending ts)"
      using "1.IH" [OF True p] ts True t by simp
    also have "(out @ [k]) @ inorder r @ pending ts = out @ inorder cur @ pending stack"
      using pending_push_left [of cur stack] p t by simp
    finally show ?thesis .
  next
    case False
    then have f: "first_loop limit cur stack out = out" by (subst first_loop.simps) auto
    show ?thesis
    proof (cases "int (length out) < limit")
      case True
      then have "cur = Leaf" "stack = []" using False by auto
      then show ?thesis using f "1.prems" by simp
    next
      case False
      then have "nat limit = length out" using "1.prems" by simp
      then show ?thesis using f by simp
    qed
  qed
qed

subsection \<open>Trees as ordered sets\<close>

definition members :: "'k tree \<Rightarrow> 'k set" where
  "members t = keys (root t)"

definition tree_ok :: "('k::linorder \<Rightarrow> 64 word) \<Rightarrow> 'k tree \<Rightarrow> bool" where
  "tree_ok pf t \<longleftrightarrow> treap_ok pf (root t) \<and> size_of t = int (card (members t))"

lemma tree_ok_empty: "tree_ok pf empty_tree" "members empty_tree = {}"
  by (simp_all add: tree_ok_def members_def empty_tree_def)

lemma tree_ok_insert:
  assumes "tree_ok pf t"
  shows "tree_ok pf (tree_insert pf t v)" "members (tree_insert pf t v) = insert v (members t)"
proof -
  show m: "members (tree_insert pf t v) = insert v (members t)"
    by (simp add: members_def tree_insert_def split_beta)
  have "card (insert v (members t)) = (if v \<in> members t then card (members t) else Suc (card (members t)))"
    by (simp add: card_insert_if members_def)
  then show "tree_ok pf (tree_insert pf t v)"
    using assms treap_ok_insert_node [of pf "root t" v] added_insert_node [of pf "root t" v] m
    by (auto simp: tree_ok_def tree_insert_def split_beta members_def)
qed

lemma tree_ok_delete:
  assumes "tree_ok pf t"
  shows "tree_ok pf (tree_delete t v)" "members (tree_delete t v) = members t - {v}"
proof -
  have ok: "treap_ok pf (root t)" using assms by (simp add: tree_ok_def)
  note d = delete_node_facts [OF ok, of v]
  then show m: "members (tree_delete t v) = members t - {v}"
    by (simp add: members_def tree_delete_def split_beta)
  have "v \<in> members t \<Longrightarrow> int (card (members t - {v})) = int (card (members t)) - 1"
    using card_gt_0_iff [of "members t"] by (auto simp: members_def card_Diff_singleton)
  then show "tree_ok pf (tree_delete t v)"
    using assms d m by (auto simp: tree_ok_def tree_delete_def split_beta members_def)
qed

lemma tree_first_eq:
  assumes "tree_ok pf t"
  shows "tree_first (Some t) limit = take (nat limit) (sorted_list_of_set (members t))"
proof -
  have s: "inorder (root t) = sorted_list_of_set (members t)"
    using assms inorder_eq by (auto simp: tree_ok_def members_def)
  have c: "size_of t = int (length (sorted_list_of_set (members t)))"
    using assms by (simp add: tree_ok_def members_def)
  show ?thesis
    using s c by (auto simp: tree_first_def first_loop_eq members_def)
qed

lemma tree_len_zero: "tree_ok pf t \<Longrightarrow> tree_len (Some t) = 0 \<longleftrightarrow> members t = {}"
  by (simp add: tree_ok_def tree_len_def members_def)

subsection \<open>Properties\<close>

text \<open>Histories of a tree: any sequence of insertions and deletions.\<close>

datatype tree_op = Ins string | Del string

fun run_kind :: "tree_op \<Rightarrow> string tree \<Rightarrow> string tree" where
  "run_kind (Ins v) t = kind_insert t v"
| "run_kind (Del v) t = kind_delete t v"

fun run_edge_id :: "tree_op \<Rightarrow> string tree \<Rightarrow> string tree" where
  "run_edge_id (Ins v) t = edge_id_insert t v"
| "run_edge_id (Del v) t = edge_id_delete t v"

fun run_set :: "tree_op \<Rightarrow> string set \<Rightarrow> string set" where
  "run_set (Ins v) S = insert v S"
| "run_set (Del v) S = S - {v}"

lemma run_kind_ok:
  "tree_ok string_priority (fold run_kind ops empty_tree) \<and>
   members (fold run_kind ops empty_tree) = fold run_set ops {}"
proof (induction ops rule: rev_induct)
  case (snoc x xs)
  then show ?case using tree_ok_delete [OF conjunct1 [OF snoc]] by (cases x) (simp_all add: kind_insert_def kind_delete_def tree_ok_insert tree_ok_delete)
qed (simp add: tree_ok_empty)

lemma run_edge_id_ok:
  "tree_ok edge_id_priority (fold run_edge_id ops empty_tree) \<and>
   members (fold run_edge_id ops empty_tree) = fold run_set ops {}"
proof (induction ops rule: rev_induct)
  case (snoc x xs)
  then show ?case using tree_ok_delete [OF conjunct1 [OF snoc]] by (cases x) (simp_all add: edge_id_insert_def edge_id_delete_def tree_ok_insert tree_ok_delete)
qed (simp add: tree_ok_empty)

text \<open>
  C39: after any sequence of insertions and deletions, duplicates and absent values
  included, both trees report the number of distinct values present and return their smallest
  \<open>limit\<close> values in ascending order, for every limit.
\<close>

theorem trees_are_ordered_sets:
  "kind_first (Some (fold run_kind ops empty_tree)) limit =
     take (nat limit) (sorted_list_of_set (fold run_set ops {})) \<and>
   tree_len (Some (fold run_kind ops empty_tree)) = int (card (fold run_set ops {})) \<and>
   edge_id_first (Some (fold run_edge_id ops empty_tree)) limit =
     take (nat limit) (sorted_list_of_set (fold run_set ops {})) \<and>
   tree_len (Some (fold run_edge_id ops empty_tree)) = int (card (fold run_set ops {}))"
proof -
  note k = run_kind_ok [of ops] and e = run_edge_id_ok [of ops]
  show ?thesis
    using tree_first_eq [OF conjunct1 [OF k]] tree_first_eq [OF conjunct1 [OF e]] k e
    by (simp add: kind_first_def edge_id_first_def tree_len_def tree_ok_def)
qed

text \<open>
  the tree is deterministic: two histories that leave the same values leave the
  same tree, node for node, when those values have different priorities.
\<close>

theorem tree_shape_history_free:
  assumes "fold run_set ops {} = fold run_set ops' {}"
    and "inj_on string_priority (fold run_set ops {})"
  shows "fold run_kind ops empty_tree = fold run_kind ops' empty_tree"
proof -
  let ?s = "fold run_kind ops empty_tree" and ?t = "fold run_kind ops' empty_tree"
  have ok: "treap_ok string_priority (root ?s)" "treap_ok string_priority (root ?t)"
    and keys: "keys (root ?s) = keys (root ?t)" "keys (root ?s) = fold run_set ops {}"
    and size: "size_of ?s = size_of ?t"
    using run_kind_ok [of ops] run_kind_ok [of ops'] assms(1) by (simp_all add: tree_ok_def members_def)
  have "root ?s = root ?t"
    by (rule treap_shape [OF ok keys(1)]) (use assms(2) keys(2) in simp)
  then show ?thesis using size by simp
qed

theorem tree_shape_history_free_witness:
  "fold run_kind [Ins ''calls'', Ins ''imports'', Del ''imports''] empty_tree =
   fold run_kind [Ins ''calls''] empty_tree"
  by (rule tree_shape_history_free) auto

end
