(* ===== verification/Index.thy ===== *)
theory Index
  imports Treap
begin

text \<open>
  The selective-read indexes of \<open>core/graphstore/memory.go\<close>: a map from a key to a set of
  values (a Go map used as a set, or one of the treaps), where a key with no value left is
  deleted.  Two interfaces: \<open>sorted_set\<close> is what an index needs from the trees,
  \<open>key_index\<close> is what the store needs from an index, namely a finite relation between keys
  and values.
\<close>

subsection \<open>The index operations of the code\<close>

definition add_to_set :: "('k, 'v fset) fmap \<Rightarrow> 'k \<Rightarrow> 'v \<Rightarrow> ('k, 'v fset) fmap" where
  "add_to_set idx k v =
     (case fmlookup idx k of
        None \<Rightarrow> fmupd k {|v|} idx
      | Some s \<Rightarrow> fmupd k (finsert v s) idx)"

definition drop_from_set :: "('k, 'v fset) fmap \<Rightarrow> 'k \<Rightarrow> 'v \<Rightarrow> ('k, 'v fset) fmap" where
  "drop_from_set idx k v =
     (case fmlookup idx k of
        None \<Rightarrow> idx
      | Some s \<Rightarrow>
          let s' = s |-| {|v|} in if s' = {||} then fmdrop k idx else fmupd k s' idx)"

text \<open>
  The tree-backed indexes: the body that \<open>addToEdgeIDTree\<close> and \<open>addToKindTree\<close> share, and
  the one of the two drops; the flag says that the key's tree became empty.
\<close>

definition tree_index_add ::
  "'t \<Rightarrow> ('t \<Rightarrow> 'v \<Rightarrow> 't) \<Rightarrow> ('k, 't) fmap \<Rightarrow> 'k \<Rightarrow> 'v \<Rightarrow> ('k, 't) fmap" where
  "tree_index_add emp ins idx k v =
     (let t = (case fmlookup idx k of None \<Rightarrow> emp | Some t \<Rightarrow> t) in fmupd k (ins t v) idx)"

definition tree_index_drop ::
  "('t \<Rightarrow> 'v \<Rightarrow> 't) \<Rightarrow> ('t option \<Rightarrow> int) \<Rightarrow> ('k, 't) fmap \<Rightarrow> 'k \<Rightarrow> 'v
     \<Rightarrow> ('k, 't) fmap \<times> bool" where
  "tree_index_drop del len idx k v =
     (case fmlookup idx k of
        None \<Rightarrow> (idx, False)
      | Some t \<Rightarrow>
          let t' = del t v
          in if len (Some t') = 0 then (fmdrop k idx, True) else (fmupd k t' idx, False))"

definition add_to_edge_id_tree where
  "add_to_edge_id_tree = tree_index_add empty_tree edge_id_insert"

definition drop_from_edge_id_tree where
  "drop_from_edge_id_tree = tree_index_drop edge_id_delete tree_len"

definition add_to_kind_tree where
  "add_to_kind_tree = tree_index_add empty_tree kind_insert"

definition drop_from_kind_tree where
  "drop_from_kind_tree idx k v = fst (tree_index_drop kind_delete tree_len idx k v)"

subsection \<open>What an index needs from a tree\<close>

locale sorted_set =
  fixes emp :: 't
    and ins :: "'t \<Rightarrow> 'v::linorder \<Rightarrow> 't"
    and del :: "'t \<Rightarrow> 'v \<Rightarrow> 't"
    and first :: "'t option \<Rightarrow> int \<Rightarrow> 'v list"
    and len :: "'t option \<Rightarrow> int"
    and mem :: "'t \<Rightarrow> 'v set"
    and ok :: "'t \<Rightarrow> bool"
  assumes ok_emp: "ok emp" and mem_emp: "mem emp = {}"
    and ok_ins: "ok t \<Longrightarrow> ok (ins t v)" and mem_ins: "ok t \<Longrightarrow> mem (ins t v) = insert v (mem t)"
    and ok_del: "ok t \<Longrightarrow> ok (del t v)" and mem_del: "ok t \<Longrightarrow> mem (del t v) = mem t - {v}"
    and finite_mem: "ok t \<Longrightarrow> finite (mem t)"
    and len_zero: "ok t \<Longrightarrow> len (Some t) = 0 \<longleftrightarrow> mem t = {}"
    and first_None: "first None n = []"
    and first_Some: "ok t \<Longrightarrow> first (Some t) n = take (nat n) (sorted_list_of_set (mem t))"
begin

definition index_ok :: "('k, 't) fmap \<Rightarrow> bool" where
  "index_ok idx \<longleftrightarrow> (\<forall>k t. fmlookup idx k = Some t \<longrightarrow> ok t \<and> mem t \<noteq> {})"

definition index_rel :: "('k, 't) fmap \<Rightarrow> ('k \<times> 'v) set" where
  "index_rel idx = {(k, v). \<exists>t. fmlookup idx k = Some t \<and> v \<in> mem t}"

lemma index_okD: "index_ok idx \<Longrightarrow> fmlookup idx k = Some t \<Longrightarrow> ok t"
  by (auto simp: index_ok_def)

lemma index_ok_add: "index_ok idx \<Longrightarrow> index_ok (tree_index_add emp ins idx k v)"
  by (auto simp: index_ok_def tree_index_add_def Let_def ok_emp mem_emp ok_ins mem_ins split: option.splits)

lemma index_rel_add:
  assumes "index_ok idx"
  shows "index_rel (tree_index_add emp ins idx k v) = insert (k, v) (index_rel idx)"
proof (cases "fmlookup idx k")
  case None
  then show ?thesis
    by (auto simp: index_rel_def tree_index_add_def mem_ins [OF ok_emp] mem_emp split: if_splits)
next
  case (Some t)
  then have "ok t" using index_okD [OF assms] by blast
  then show ?thesis using Some
    by (auto simp: index_rel_def tree_index_add_def mem_ins split: if_splits)
qed

lemma index_ok_drop: "index_ok idx \<Longrightarrow> index_ok (fst (tree_index_drop del len idx k v))"
  by (auto simp: index_ok_def tree_index_drop_def Let_def ok_del mem_del len_zero split: option.splits)

lemma index_rel_drop:
  assumes "index_ok idx"
  shows "index_rel (fst (tree_index_drop del len idx k v)) = index_rel idx - {(k, v)}"
proof (cases "fmlookup idx k")
  case None
  then show ?thesis by (auto simp: index_rel_def tree_index_drop_def)
next
  case (Some t)
  then have "ok t" using index_okD [OF assms] by blast
  then show ?thesis using Some
    by (auto simp: index_rel_def tree_index_drop_def Let_def mem_del len_zero ok_del split: if_splits)
qed

lemma drop_flag:
  "index_ok idx \<Longrightarrow> snd (tree_index_drop del len idx k v) \<longleftrightarrow>
     k \<in> fst ` index_rel idx \<and> k \<notin> fst ` (index_rel idx - {(k, v)})"
  by (force simp: index_ok_def index_rel_def tree_index_drop_def Let_def ok_del mem_del len_zero
            split: option.splits)

lemma first_lookup:
  "index_ok idx \<Longrightarrow>
     first (fmlookup idx k) n = take (nat n) (sorted_list_of_set {v. (k, v) \<in> index_rel idx})"
  by (cases "fmlookup idx k") (auto simp: first_None first_Some index_rel_def dest: index_okD)

lemma finite_index_row: "index_ok idx \<Longrightarrow> finite {v. (k, v) \<in> index_rel idx}"
  by (cases "fmlookup idx k") (auto simp: index_rel_def finite_mem dest: index_okD)

end

subsection \<open>What the store needs from an index\<close>

locale key_index =
  fixes emptyi :: 'm
    and add :: "'m \<Rightarrow> 'k \<Rightarrow> 'v \<Rightarrow> 'm"
    and drop :: "'m \<Rightarrow> 'k \<Rightarrow> 'v \<Rightarrow> 'm"
    and rel :: "'m \<Rightarrow> ('k \<times> 'v) set"
    and ok :: "'m \<Rightarrow> bool"
  assumes ok_empty: "ok emptyi" and rel_empty: "rel emptyi = {}"
    and ok_add: "ok m \<Longrightarrow> ok (add m k v)"
    and rel_add: "ok m \<Longrightarrow> rel (add m k v) = insert (k, v) (rel m)"
    and ok_drop: "ok m \<Longrightarrow> ok (drop m k v)"
    and rel_drop: "ok m \<Longrightarrow> rel (drop m k v) = rel m - {(k, v)}"
begin

text \<open>Building an index over a list of pairs, as \<open>Load\<close> does.\<close>

lemma ok_build: "ok m \<Longrightarrow> ok (foldl (\<lambda>m x. add m (f x) (g x)) m xs)"
  by (induction xs arbitrary: m) (simp_all add: ok_add)

lemma rel_build:
  "ok m \<Longrightarrow> rel (foldl (\<lambda>m x. add m (f x) (g x)) m xs) = (\<lambda>x. (f x, g x)) ` set xs \<union> rel m"
  by (induction xs arbitrary: m) (auto simp: ok_add rel_add)

text \<open>Replacing a value under the keys it already has changes nothing.\<close>

lemma rel_add_again: "ok m \<Longrightarrow> (k, v) \<in> rel m \<Longrightarrow> rel (add m k v) = rel m"
  by (auto simp: rel_add)

end

text \<open>Every tree with the first interface gives an index with the second.\<close>

sublocale sorted_set \<subseteq> ix: key_index fmempty "tree_index_add emp ins"
    "\<lambda>idx k v. fst (tree_index_drop del len idx k v)" index_rel index_ok
  by unfold_locales
     (simp_all add: index_ok_add index_rel_add index_ok_drop index_rel_drop,
      simp_all add: index_ok_def index_rel_def)

subsection \<open>The interfaces hold for the code's operations\<close>

definition set_index_ok :: "('k, 'v fset) fmap \<Rightarrow> bool" where
  "set_index_ok idx \<longleftrightarrow> (\<forall>k s. fmlookup idx k = Some s \<longrightarrow> s \<noteq> {||})"

definition set_index_rel :: "('k, 'v fset) fmap \<Rightarrow> ('k \<times> 'v) set" where
  "set_index_rel idx = {(k, v). \<exists>s. fmlookup idx k = Some s \<and> v |\<in>| s}"

interpretation si: key_index fmempty add_to_set drop_from_set set_index_rel set_index_ok
proof unfold_locales
  fix m :: "('k, 'v fset) fmap" and k v
  show "set_index_rel (add_to_set m k v) = insert (k, v) (set_index_rel m)"
    by (auto simp: set_index_rel_def add_to_set_def split: option.splits if_splits)
  show "set_index_rel (drop_from_set m k v) = set_index_rel m - {(k, v)}"
    by (auto simp: set_index_rel_def drop_from_set_def Let_def fminus_iff split: option.splits if_splits)
  show "set_index_ok m \<Longrightarrow> set_index_ok (add_to_set m k v)"
    by (auto simp: set_index_ok_def add_to_set_def split: option.splits)
  show "set_index_ok m \<Longrightarrow> set_index_ok (drop_from_set m k v)"
    by (auto simp: set_index_ok_def drop_from_set_def Let_def split: option.splits)
qed (simp_all add: set_index_ok_def set_index_rel_def)

lemma tree_sorted_set:
  "sorted_set empty_tree (tree_insert pf) tree_delete tree_first tree_len members (tree_ok pf)"
  by unfold_locales
     (simp_all add: tree_ok_empty tree_ok_insert tree_ok_delete tree_first_eq tree_len_zero,
      simp_all add: members_def tree_first_def)

interpretation kt: sorted_set empty_tree kind_insert kind_delete kind_first tree_len members
    "tree_ok string_priority"
  unfolding kind_insert_def kind_delete_def kind_first_def by (rule tree_sorted_set)

interpretation et: sorted_set empty_tree edge_id_insert edge_id_delete edge_id_first tree_len members
    "tree_ok edge_id_priority"
  unfolding edge_id_insert_def edge_id_delete_def edge_id_first_def by (rule tree_sorted_set)

end
