(* ===== verification/MemStore.thy ===== *)
theory MemStore
  imports Wire Index
begin

text \<open>
  \<open>core/graphstore/memory.go\<close>: the in-memory backend, its write path and the selective-read
  indexes the writes maintain.  A method that takes a context gets the value of \<open>ctx.Err()\<close> at
  its entry as an argument; one that writes returns the new state and the error it reports.  The
  mutex makes each method one atomic step, so a run of the store is a sequence of them.  After
  \<open>Close\<close> every map is nil; no method reads a map of a closed store, so they are empty here.
\<close>

datatype store_error =
    ErrCtx string
  | ErrNotFound
  | ErrClosed
  | ErrUnknownEdgeEndpoint
  | ErrInvalidLimit
  | ErrUnsafePath
  | ErrReadFile
  | ErrSnapshotFormat
  | ErrSnapshotMalformed
  | ErrSnapshotEncode
  | ErrCallback string

record mem_store =
  closed :: bool
  nodes :: "(node_id, node) fmap"
  edges :: "(edge_id, edge) fmap"
  metadata :: "(string, string) fmap"
  in_ids :: "(node_id, edge_id fset) fmap"
  out_ids :: "(node_id, edge_id fset) fmap"
  by_qn :: "(string, node_id fset) fmap"
  by_path :: "(string, node_id fset) fmap"
  in_kind_ordered :: "(node_id \<times> string, edge_id tree) fmap"
  out_kind_ordered :: "(node_id \<times> string, edge_id tree) fmap"
  in_kinds :: "(node_id, string tree) fmap"
  out_kinds :: "(node_id, string tree) fmap"

definition new_mem_store :: mem_store where
  "new_mem_store =
     \<lparr>closed = False, nodes = fmempty, edges = fmempty, metadata = fmempty,
      in_ids = fmempty, out_ids = fmempty, by_qn = fmempty, by_path = fmempty,
      in_kind_ordered = fmempty, out_kind_ordered = fmempty,
      in_kinds = fmempty, out_kinds = fmempty\<rparr>"

text \<open>The values of a map, in one of the orders \<open>range\<close> may produce; every use sorts them.\<close>

definition map_values :: "('k::linorder, 'v) fmap \<Rightarrow> 'v list" where
  "map_values m = map (\<lambda>k. the (fmlookup m k)) (sorted_list_of_fset (fmdom m))"

text \<open>A nil inner map is an empty set.\<close>

definition set_at :: "('k, 'v fset) fmap \<Rightarrow> 'k \<Rightarrow> 'v fset" where
  "set_at idx k = (case fmlookup idx k of None \<Rightarrow> {||} | Some s \<Rightarrow> s)"

subsection \<open>Index maintenance\<close>

definition index_node :: "mem_store \<Rightarrow> node \<Rightarrow> mem_store" where
  "index_node m n =
     m\<lparr>by_qn := add_to_set (by_qn m) (n_qname n) (n_id n),
       by_path := add_to_set (by_path m) (n_path n) (n_id n)\<rparr>"

definition unindex_node :: "mem_store \<Rightarrow> node \<Rightarrow> mem_store" where
  "unindex_node m n =
     m\<lparr>by_qn := drop_from_set (by_qn m) (n_qname n) (n_id n),
       by_path := drop_from_set (by_path m) (n_path n) (n_id n)\<rparr>"

definition index_edge :: "mem_store \<Rightarrow> edge \<Rightarrow> mem_store" where
  "index_edge m e =
     m\<lparr>out_ids := add_to_set (out_ids m) (e_from e) (e_id e),
       in_ids := add_to_set (in_ids m) (e_to e) (e_id e),
       out_kind_ordered := add_to_edge_id_tree (out_kind_ordered m) (e_from e, e_kind e) (e_id e),
       in_kind_ordered := add_to_edge_id_tree (in_kind_ordered m) (e_to e, e_kind e) (e_id e),
       out_kinds := add_to_kind_tree (out_kinds m) (e_from e) (e_kind e),
       in_kinds := add_to_kind_tree (in_kinds m) (e_to e) (e_kind e)\<rparr>"

text \<open>An endpoint forgets a kind only when its last edge of that kind goes.\<close>

definition unindex_edge :: "mem_store \<Rightarrow> edge \<Rightarrow> mem_store" where
  "unindex_edge m e =
     (let (oko, emptied_out) =
            drop_from_edge_id_tree (out_kind_ordered m) (e_from e, e_kind e) (e_id e);
          (iko, emptied_in) =
            drop_from_edge_id_tree (in_kind_ordered m) (e_to e, e_kind e) (e_id e)
      in m\<lparr>out_ids := drop_from_set (out_ids m) (e_from e) (e_id e),
           in_ids := drop_from_set (in_ids m) (e_to e) (e_id e),
           out_kind_ordered := oko,
           out_kinds := (if emptied_out then drop_from_kind_tree (out_kinds m) (e_from e) (e_kind e)
                         else out_kinds m),
           in_kind_ordered := iko,
           in_kinds := (if emptied_in then drop_from_kind_tree (in_kinds m) (e_to e) (e_kind e)
                        else in_kinds m)\<rparr>)"

subsection \<open>The write path\<close>

definition mem_put_node ::
  "store_error option \<Rightarrow> mem_store \<Rightarrow> node \<Rightarrow> mem_store \<times> store_error option" where
  "mem_put_node ctx m n =
     (case ctx of
        Some err \<Rightarrow> (m, Some err)
      | None \<Rightarrow>
          if closed m then (m, Some ErrClosed)
          else (index_node (m\<lparr>nodes := fmupd (n_id n) n (nodes m)\<rparr>) n, None))"

definition mem_put_edge ::
  "store_error option \<Rightarrow> mem_store \<Rightarrow> edge \<Rightarrow> mem_store \<times> store_error option" where
  "mem_put_edge ctx m e =
     (case ctx of
        Some err \<Rightarrow> (m, Some err)
      | None \<Rightarrow>
          if closed m then (m, Some ErrClosed)
          else if fmlookup (nodes m) (e_from e) = None then (m, Some ErrUnknownEdgeEndpoint)
          else if fmlookup (nodes m) (e_to e) = None then (m, Some ErrUnknownEdgeEndpoint)
          else (index_edge (m\<lparr>edges := fmupd (e_id e) e (edges m)\<rparr>) e, None))"

text \<open>One iteration of the cascade: an edge with both endpoints deleted is listed twice.\<close>

definition drop_incident :: "mem_store \<Rightarrow> edge_id \<Rightarrow> mem_store" where
  "drop_incident m eid =
     (case fmlookup (edges m) eid of
        None \<Rightarrow> m
      | Some e \<Rightarrow> let m' = unindex_edge m e in m'\<lparr>edges := fmdrop eid (edges m')\<rparr>)"

definition mem_delete_node ::
  "store_error option \<Rightarrow> mem_store \<Rightarrow> node_id \<Rightarrow> mem_store \<times> store_error option" where
  "mem_delete_node ctx m nid =
     (case ctx of
        Some err \<Rightarrow> (m, Some err)
      | None \<Rightarrow>
          if closed m then (m, Some ErrClosed)
          else
            let m1 = (case fmlookup (nodes m) nid of None \<Rightarrow> m | Some n \<Rightarrow> unindex_node m n);
                m2 = m1\<lparr>nodes := fmdrop nid (nodes m1)\<rparr>;
                incident_ids = sorted_list_of_fset (set_at (in_ids m2) nid) @
                               sorted_list_of_fset (set_at (out_ids m2) nid)
            in (foldl drop_incident m2 incident_ids, None))"

definition mem_delete_edge ::
  "store_error option \<Rightarrow> mem_store \<Rightarrow> edge_id \<Rightarrow> mem_store \<times> store_error option" where
  "mem_delete_edge ctx m eid =
     (case ctx of
        Some err \<Rightarrow> (m, Some err)
      | None \<Rightarrow>
          if closed m then (m, Some ErrClosed)
          else
            let m' = (case fmlookup (edges m) eid of None \<Rightarrow> m | Some e \<Rightarrow> unindex_edge m e)
            in (m'\<lparr>edges := fmdrop eid (edges m')\<rparr>, None))"

definition mem_set_metadata ::
  "store_error option \<Rightarrow> mem_store \<Rightarrow> string \<Rightarrow> string \<Rightarrow> mem_store \<times> store_error option" where
  "mem_set_metadata ctx m k v =
     (case ctx of
        Some err \<Rightarrow> (m, Some err)
      | None \<Rightarrow>
          if closed m then (m, Some ErrClosed)
          else (m\<lparr>metadata := fmupd k v (metadata m)\<rparr>, None))"

definition mem_metadata :: "store_error option \<Rightarrow> mem_store \<Rightarrow> string \<Rightarrow> store_error + string" where
  "mem_metadata ctx m k =
     (case ctx of
        Some err \<Rightarrow> Inl err
      | None \<Rightarrow>
          if closed m then Inl ErrClosed
          else (case fmlookup (metadata m) k of None \<Rightarrow> Inl ErrNotFound | Some v \<Rightarrow> Inr v))"

definition mem_evict_cache :: "store_error option \<Rightarrow> mem_store \<Rightarrow> store_error option" where
  "mem_evict_cache ctx m =
     (case ctx of Some err \<Rightarrow> Some err | None \<Rightarrow> if closed m then Some ErrClosed else None)"

definition mem_close :: "mem_store \<Rightarrow> mem_store \<times> store_error option" where
  "mem_close m = (new_mem_store\<lparr>closed := True\<rparr>, None)"

text \<open>
  The part of \<open>Load\<close> after the snapshot has been decoded: the replacement maps are built from
  the graph and swapped in; the metadata is kept.
\<close>

definition load_node :: "mem_store \<Rightarrow> node \<Rightarrow> mem_store" where
  "load_node m n = index_node (m\<lparr>nodes := fmupd (n_id n) n (nodes m)\<rparr>) n"

definition load_edge :: "mem_store \<Rightarrow> edge \<Rightarrow> mem_store" where
  "load_edge m e = index_edge (m\<lparr>edges := fmupd (e_id e) e (edges m)\<rparr>) e"

definition load_graph :: "mem_store \<Rightarrow> graph \<Rightarrow> mem_store \<times> store_error option" where
  "load_graph m g =
     (let fresh = foldl load_edge (foldl load_node new_mem_store (g_nodes g)) (g_edges g)
      in if closed m then (m, Some ErrClosed)
         else (fresh\<lparr>closed := closed m, metadata := metadata m\<rparr>, None))"

subsection \<open>What the indexes mean\<close>

text \<open>The relation an index over a map stands for: each entry's key under one of its attributes.\<close>

definition pairs :: "('v \<Rightarrow> 'a) \<Rightarrow> ('k, 'v) fmap \<Rightarrow> ('a \<times> 'k) set" where
  "pairs f mp = {(f v, k) |k v. fmlookup mp k = Some v}"

lemma pairs_iff: "(a, k) \<in> pairs f mp \<longleftrightarrow> (\<exists>v. fmlookup mp k = Some v \<and> f v = a)"
  by (auto simp: pairs_def)

lemma pairs_empty [simp]: "pairs f fmempty = {}"
  by (simp add: pairs_def)

lemma pairs_upd:
  "(\<And>v'. fmlookup mp k = Some v' \<Longrightarrow> f v' = f v) \<Longrightarrow>
     pairs f (fmupd k v mp) = insert (f v, k) (pairs f mp)"
  by (rule set_eqI) (force simp: pairs_iff split_paired_all split: if_splits)

lemma pairs_drop: "fmlookup mp k = Some v \<Longrightarrow> pairs f (fmdrop k mp) = pairs f mp - {(f v, k)}"
  by (auto simp: pairs_def)

lemma fst_image_remove:
  "(x, y) \<in> S \<Longrightarrow>
     fst ` (S - {(x, y)}) = (if x \<in> fst ` (S - {(x, y)}) then fst ` S else fst ` S - {x})"
  by (auto simp: rev_image_eqI) (metis (no_types, lifting) Diff_iff fst_conv image_eqI prod.inject singletonD)+

text \<open>A map of elements keyed by their own identity.\<close>

definition keyed :: "('v \<Rightarrow> 'k) \<Rightarrow> ('k, 'v) fmap \<Rightarrow> bool" where
  "keyed f mp \<longleftrightarrow> (\<forall>k v. fmlookup mp k = Some v \<longrightarrow> f v = k)"

lemma keyedD: "keyed f mp \<Longrightarrow> fmlookup mp k = Some v \<Longrightarrow> f v = k"
  by (simp add: keyed_def)

lemma keyed_empty [simp]: "keyed f fmempty"
  by (simp add: keyed_def)

lemma keyed_upd: "keyed f mp \<Longrightarrow> f v = k \<Longrightarrow> keyed f (fmupd k v mp)"
  by (simp add: keyed_def)

lemma keyed_drop: "keyed f mp \<Longrightarrow> keyed f (fmdrop k mp)"
  by (simp add: keyed_def)

text \<open>The indexes of one side of the adjacency: \<open>endp\<close> is \<open>e_from\<close> or \<open>e_to\<close>.\<close>

definition side_ok ::
  "(edge \<Rightarrow> node_id) \<Rightarrow> (edge_id, edge) fmap \<Rightarrow> (node_id, edge_id fset) fmap
     \<Rightarrow> (node_id \<times> string, edge_id tree) fmap \<Rightarrow> (node_id, string tree) fmap \<Rightarrow> bool" where
  "side_ok endp es idx ordered kinds \<longleftrightarrow>
     set_index_ok idx \<and> set_index_rel idx = pairs endp es \<and>
     et.index_ok ordered \<and> et.index_rel ordered = pairs (\<lambda>e. (endp e, e_kind e)) es \<and>
     kt.index_ok kinds \<and> kt.index_rel kinds = fst ` pairs (\<lambda>e. (endp e, e_kind e)) es"

lemma side_ok_add:
  assumes "side_ok endp es idx ordered kinds"
    and "\<And>e'. fmlookup es (e_id e) = Some e' \<Longrightarrow> endp e' = endp e \<and> e_kind e' = e_kind e"
  shows "side_ok endp (fmupd (e_id e) e es) (add_to_set idx (endp e) (e_id e))
           (add_to_edge_id_tree ordered (endp e, e_kind e) (e_id e))
           (add_to_kind_tree kinds (endp e) (e_kind e))"
proof -
  have "pairs endp (fmupd (e_id e) e es) = insert (endp e, e_id e) (pairs endp es)"
    by (rule pairs_upd) (use assms(2) in blast)
  moreover have "pairs (\<lambda>e. (endp e, e_kind e)) (fmupd (e_id e) e es) =
      insert ((endp e, e_kind e), e_id e) (pairs (\<lambda>e. (endp e, e_kind e)) es)"
    by (rule pairs_upd) (use assms(2) in blast)
  ultimately show ?thesis
    using assms(1)
    by (simp add: side_ok_def add_to_edge_id_tree_def add_to_kind_tree_def si.ok_add si.rel_add
        et.index_ok_add et.index_rel_add kt.index_ok_add kt.index_rel_add)
qed

lemma side_ok_drop:
  assumes ok: "side_ok endp es idx ordered kinds" and e: "fmlookup es (e_id e) = Some e"
    and drop: "drop_from_edge_id_tree ordered (endp e, e_kind e) (e_id e) = (ordered', emptied)"
  shows "side_ok endp (fmdrop (e_id e) es) (drop_from_set idx (endp e) (e_id e)) ordered'
           (if emptied then drop_from_kind_tree kinds (endp e) (e_kind e) else kinds)"
proof -
  let ?f = "\<lambda>e. (endp e, e_kind e)"
  note d = drop [unfolded drop_from_edge_id_tree_def]
  have ordered': "ordered' = fst (tree_index_drop edge_id_delete tree_len ordered (?f e) (e_id e))"
    and emptied: "emptied = snd (tree_index_drop edge_id_delete tree_len ordered (?f e) (e_id e))"
    using d by simp_all
  have p1: "pairs endp (fmdrop (e_id e) es) = pairs endp es - {(endp e, e_id e)}"
    and p2: "pairs ?f (fmdrop (e_id e) es) = pairs ?f es - {(?f e, e_id e)}"
    using pairs_drop [OF e, of endp] pairs_drop [OF e, of ?f] by simp_all
  have mem: "(?f e, e_id e) \<in> pairs ?f es" using e by (simp add: pairs_iff)
  have io: "et.index_ok ordered" "et.index_rel ordered = pairs ?f es"
    and ko: "kt.index_ok kinds" "kt.index_rel kinds = fst ` pairs ?f es"
    using ok by (simp_all add: side_ok_def)
  have flag: "emptied \<longleftrightarrow> ?f e \<notin> fst ` (pairs ?f es - {(?f e, e_id e)})"
    using et.drop_flag [OF io(1), of "?f e" "e_id e"] io(2) mem emptied by force
  have "fst ` (pairs ?f es - {(?f e, e_id e)}) =
      (if emptied then fst ` pairs ?f es - {?f e} else fst ` pairs ?f es)"
    using fst_image_remove [OF mem] flag by (cases emptied) simp_all
  then show ?thesis
    using ok p1 p2 io ko
    by (simp add: side_ok_def ordered' drop_from_kind_tree_def si.ok_drop si.rel_drop
        et.index_ok_drop et.index_rel_drop kt.index_ok_drop kt.index_rel_drop)
qed

definition nodes_indexed :: "mem_store \<Rightarrow> bool" where
  "nodes_indexed m \<longleftrightarrow>
     keyed n_id (nodes m) \<and>
     set_index_ok (by_qn m) \<and> set_index_rel (by_qn m) = pairs n_qname (nodes m) \<and>
     set_index_ok (by_path m) \<and> set_index_rel (by_path m) = pairs n_path (nodes m)"

definition edges_indexed :: "mem_store \<Rightarrow> bool" where
  "edges_indexed m \<longleftrightarrow>
     keyed e_id (edges m) \<and>
     side_ok e_from (edges m) (out_ids m) (out_kind_ordered m) (out_kinds m) \<and>
     side_ok e_to (edges m) (in_ids m) (in_kind_ordered m) (in_kinds m)"

text \<open>Referential integrity: both endpoints of every stored edge are stored.\<close>

definition endpoints_stored :: "mem_store \<Rightarrow> bool" where
  "endpoints_stored m \<longleftrightarrow>
     (\<forall>k e. fmlookup (edges m) k = Some e \<longrightarrow>
        e_from e |\<in>| fmdom (nodes m) \<and> e_to e |\<in>| fmdom (nodes m))"

definition store_ok :: "mem_store \<Rightarrow> bool" where
  "store_ok m \<longleftrightarrow> nodes_indexed m \<and> edges_indexed m \<and> endpoints_stored m"

text \<open>
  What content addressing gives the writes: a stored element with the new one's identity has its
  indexed attributes too.
\<close>

definition fits_node :: "mem_store \<Rightarrow> node \<Rightarrow> bool" where
  "fits_node m n \<longleftrightarrow>
     (\<forall>n'. fmlookup (nodes m) (n_id n) = Some n' \<longrightarrow> n_qname n' = n_qname n \<and> n_path n' = n_path n)"

definition fits_edge :: "mem_store \<Rightarrow> edge \<Rightarrow> bool" where
  "fits_edge m e \<longleftrightarrow>
     (\<forall>e'. fmlookup (edges m) (e_id e) = Some e' \<longrightarrow>
        e_from e' = e_from e \<and> e_to e' = e_to e \<and> e_kind e' = e_kind e)"

text \<open>The fields each index operation leaves alone.\<close>

lemma index_node_sel [simp]:
  "nodes (index_node m n) = nodes m" "edges (index_node m n) = edges m"
  "metadata (index_node m n) = metadata m" "closed (index_node m n) = closed m"
  "edges_indexed (index_node m n) = edges_indexed m"
  by (simp_all add: index_node_def edges_indexed_def)

lemma unindex_node_sel [simp]:
  "nodes (unindex_node m n) = nodes m" "edges (unindex_node m n) = edges m"
  "metadata (unindex_node m n) = metadata m" "closed (unindex_node m n) = closed m"
  "edges_indexed (unindex_node m n) = edges_indexed m"
  by (simp_all add: unindex_node_def edges_indexed_def)

lemma index_edge_sel [simp]:
  "nodes (index_edge m e) = nodes m" "edges (index_edge m e) = edges m"
  "metadata (index_edge m e) = metadata m" "closed (index_edge m e) = closed m"
  "nodes_indexed (index_edge m e) = nodes_indexed m"
  by (simp_all add: index_edge_def nodes_indexed_def)

lemma unindex_edge_sel [simp]:
  "nodes (unindex_edge m e) = nodes m" "edges (unindex_edge m e) = edges m"
  "metadata (unindex_edge m e) = metadata m" "closed (unindex_edge m e) = closed m"
  "nodes_indexed (unindex_edge m e) = nodes_indexed m"
  by (simp_all add: unindex_edge_def nodes_indexed_def split_beta)

lemma indexed_upd [simp]:
  "nodes_indexed (m\<lparr>edges := es\<rparr>) = nodes_indexed m"
  "edges_indexed (m\<lparr>nodes := ns\<rparr>) = edges_indexed m"
  by (simp_all add: nodes_indexed_def edges_indexed_def)

lemma nodes_indexed_put:
  "nodes_indexed m \<Longrightarrow> fits_node m n \<Longrightarrow>
     nodes_indexed (index_node (m\<lparr>nodes := fmupd (n_id n) n (nodes m)\<rparr>) n)"
  unfolding nodes_indexed_def fits_node_def index_node_def
  by (simp add: si.ok_add si.rel_add pairs_upd keyed_upd)

lemma nodes_indexed_remove:
  assumes "nodes_indexed m" "fmlookup (nodes m) nid = Some n"
  shows "nodes_indexed (unindex_node m n\<lparr>nodes := fmdrop nid (nodes m)\<rparr>)"
proof -
  have "n_id n = nid" using assms keyedD by (fastforce simp: nodes_indexed_def)
  then show ?thesis
    using assms(1) unfolding nodes_indexed_def unindex_node_def
    by (simp add: si.ok_drop si.rel_drop pairs_drop [OF assms(2)] keyed_drop)
qed

lemma edges_indexed_put:
  "edges_indexed m \<Longrightarrow> fits_edge m e \<Longrightarrow>
     edges_indexed (index_edge (m\<lparr>edges := fmupd (e_id e) e (edges m)\<rparr>) e)"
  unfolding edges_indexed_def fits_edge_def index_edge_def
  by (simp add: side_ok_add keyed_upd)

lemma edges_indexed_remove:
  assumes "edges_indexed m" "fmlookup (edges m) eid = Some e"
  shows "edges_indexed (unindex_edge m e\<lparr>edges := fmdrop eid (edges m)\<rparr>)"
proof -
  obtain oko eo where o: "drop_from_edge_id_tree (out_kind_ordered m) (e_from e, e_kind e) (e_id e) = (oko, eo)"
    by fastforce
  obtain iko ei where i: "drop_from_edge_id_tree (in_kind_ordered m) (e_to e, e_kind e) (e_id e) = (iko, ei)"
    by fastforce
  have e: "fmlookup (edges m) (e_id e) = Some e" "eid = e_id e"
    using assms keyedD [of e_id "edges m" eid e] by (simp_all add: edges_indexed_def)
  have ok: "side_ok e_from (edges m) (out_ids m) (out_kind_ordered m) (out_kinds m)"
    "side_ok e_to (edges m) (in_ids m) (in_kind_ordered m) (in_kinds m)"
    using assms(1) by (simp_all add: edges_indexed_def)
  note sides = side_ok_drop [where endp = e_from, OF ok(1) e(1) o]
    side_ok_drop [where endp = e_to, OF ok(2) e(1) i]
  from assms(1) show ?thesis
    unfolding edges_indexed_def unindex_edge_def o i Let_def prod.case
    using sides by (simp add: e(2) keyed_drop split del: if_split)
qed

lemma fmdrop_idle': "fmlookup mp k = None \<Longrightarrow> fmdrop k mp = mp"
  by (rule fmap_ext) auto

lemma drop_incident_sel [simp]:
  "nodes (drop_incident m eid) = nodes m" "edges (drop_incident m eid) = fmdrop eid (edges m)"
  "metadata (drop_incident m eid) = metadata m" "closed (drop_incident m eid) = closed m"
  "nodes_indexed (drop_incident m eid) = nodes_indexed m"
  by (auto simp: drop_incident_def Let_def fmdrop_idle' split: option.splits)

lemma edges_indexed_drop_incident: "edges_indexed m \<Longrightarrow> edges_indexed (drop_incident m eid)"
  by (auto simp: drop_incident_def Let_def edges_indexed_remove split: option.splits)

lemma foldl_drop_incident_sel [simp]:
  "nodes (foldl drop_incident m ids) = nodes m"
  "metadata (foldl drop_incident m ids) = metadata m" "closed (foldl drop_incident m ids) = closed m"
  "nodes_indexed (foldl drop_incident m ids) = nodes_indexed m"
  by (induction ids arbitrary: m) simp_all

lemma foldl_drop_incident_edges:
  "edges (foldl drop_incident m ids) = fmfilter (\<lambda>k. k \<notin> set ids) (edges m)"
  by (induction ids arbitrary: m) (auto intro!: fmap_ext)

lemma edges_indexed_foldl_drop_incident:
  "edges_indexed m \<Longrightarrow> edges_indexed (foldl drop_incident m ids)"
  by (induction ids arbitrary: m) (simp_all add: edges_indexed_drop_incident)

subsection \<open>Every operation keeps the invariant\<close>

lemma endpoints_stored_mono:
  "endpoints_stored m \<Longrightarrow> edges m' = edges m \<Longrightarrow> fmdom (nodes m) |\<subseteq>| fmdom (nodes m') \<Longrightarrow>
     endpoints_stored m'"
  unfolding endpoints_stored_def by (metis fsubsetD)

lemma endpoints_stored_insert:
  "endpoints_stored m \<Longrightarrow> nodes m' = nodes m \<Longrightarrow> edges m' = fmupd k e (edges m) \<Longrightarrow>
     e_from e |\<in>| fmdom (nodes m) \<Longrightarrow> e_to e |\<in>| fmdom (nodes m) \<Longrightarrow> endpoints_stored m'"
  unfolding endpoints_stored_def by (simp split: if_splits)

lemma endpoints_stored_drop:
  "endpoints_stored m \<Longrightarrow> nodes m' = nodes m \<Longrightarrow> edges m' = fmdrop k (edges m) \<Longrightarrow> endpoints_stored m'"
  unfolding endpoints_stored_def by (simp split: if_splits)

lemma store_ok_new [simp]: "store_ok new_mem_store"
  by (simp add: store_ok_def nodes_indexed_def edges_indexed_def endpoints_stored_def side_ok_def
      new_mem_store_def si.ok_empty si.rel_empty et.ix.ok_empty et.ix.rel_empty kt.ix.ok_empty
      kt.ix.rel_empty)

lemma store_ok_meta [simp]:
  "store_ok (m\<lparr>metadata := x\<rparr>) = store_ok m" "store_ok (m\<lparr>closed := b\<rparr>) = store_ok m"
  by (simp_all add: store_ok_def nodes_indexed_def edges_indexed_def endpoints_stored_def)

lemma store_ok_load_node:
  "store_ok m \<Longrightarrow> fits_node m n \<Longrightarrow> store_ok (load_node m n)"
  unfolding store_ok_def load_node_def
  by (auto intro!: nodes_indexed_put intro: endpoints_stored_mono)

lemma store_ok_load_edge:
  "store_ok m \<Longrightarrow> fits_edge m e \<Longrightarrow> e_from e |\<in>| fmdom (nodes m) \<Longrightarrow> e_to e |\<in>| fmdom (nodes m) \<Longrightarrow>
     store_ok (load_edge m e)"
  unfolding store_ok_def load_edge_def
  by (auto intro!: edges_indexed_put intro: endpoints_stored_insert)

lemma put_node_eq:
  "fst (mem_put_node ctx m n) = (if ctx = None \<and> \<not> closed m then load_node m n else m)"
  by (simp add: mem_put_node_def load_node_def split: option.split)

lemma fmdom_iff: "k |\<in>| fmdom mp \<longleftrightarrow> fmlookup mp k \<noteq> None"
  by (simp add: fmlookup_dom_iff)

lemma put_edge_eq:
  "fst (mem_put_edge ctx m e) =
     (if ctx = None \<and> \<not> closed m \<and> e_from e |\<in>| fmdom (nodes m) \<and> e_to e |\<in>| fmdom (nodes m)
      then load_edge m e else m)"
  unfolding mem_put_edge_def load_edge_def fmdom_iff by (cases ctx) simp_all

lemma store_ok_put_node [keeps]:
  "store_ok m \<Longrightarrow> fits_node m n \<Longrightarrow> store_ok (fst (mem_put_node ctx m n))"
  by (simp add: put_node_eq store_ok_load_node)

lemma store_ok_put_edge [keeps]:
  "store_ok m \<Longrightarrow> fits_edge m e \<Longrightarrow> store_ok (fst (mem_put_edge ctx m e))"
  by (simp add: put_edge_eq store_ok_load_edge)

lemma store_ok_drop_incident: "store_ok m \<Longrightarrow> store_ok (drop_incident m eid)"
  unfolding store_ok_def
  by (auto intro: edges_indexed_drop_incident endpoints_stored_drop)

lemma delete_edge_eq:
  "fst (mem_delete_edge ctx m eid) = (if ctx = None \<and> \<not> closed m then drop_incident m eid else m)"
  by (auto simp: mem_delete_edge_def drop_incident_def Let_def fmdrop_idle' split: option.split)

lemma store_ok_delete_edge [keeps]:
  "store_ok m \<Longrightarrow> store_ok (fst (mem_delete_edge ctx m eid))"
  by (simp add: delete_edge_eq store_ok_drop_incident)

lemma fset_set_at: "set_index_rel idx = R \<Longrightarrow> fset (set_at idx k) = {v. (k, v) \<in> R}"
  by (auto simp: set_at_def set_index_rel_def split: option.splits)

lemma fset_in_ids: "edges_indexed m \<Longrightarrow> fset (set_at (in_ids m) nid) = {k. (nid, k) \<in> pairs e_to (edges m)}"
  and fset_out_ids: "edges_indexed m \<Longrightarrow> fset (set_at (out_ids m) nid) = {k. (nid, k) \<in> pairs e_from (edges m)}"
  by (rule fset_set_at; simp add: edges_indexed_def side_ok_def)+

text \<open>The edges that do not touch a node.\<close>

definition without_node :: "node_id \<Rightarrow> (edge_id, edge) fmap \<Rightarrow> (edge_id, edge) fmap" where
  "without_node nid es =
     fmfilter (\<lambda>k. case fmlookup es k of None \<Rightarrow> False | Some e \<Rightarrow> e_from e \<noteq> nid \<and> e_to e \<noteq> nid) es"

definition remove_node_entry :: "mem_store \<Rightarrow> node_id \<Rightarrow> mem_store" where
  "remove_node_entry m nid =
     (let m1 = (case fmlookup (nodes m) nid of None \<Rightarrow> m | Some n \<Rightarrow> unindex_node m n)
      in m1\<lparr>nodes := fmdrop nid (nodes m1)\<rparr>)"

lemma remove_node_entry_sel [simp]:
  "nodes (remove_node_entry m nid) = fmdrop nid (nodes m)" "edges (remove_node_entry m nid) = edges m"
  "metadata (remove_node_entry m nid) = metadata m" "closed (remove_node_entry m nid) = closed m"
  "edges_indexed (remove_node_entry m nid) = edges_indexed m"
  by (auto simp: remove_node_entry_def Let_def split: option.split)

lemma nodes_indexed_remove_node_entry: "nodes_indexed m \<Longrightarrow> nodes_indexed (remove_node_entry m nid)"
  by (auto simp: remove_node_entry_def Let_def nodes_indexed_remove fmdrop_idle' split: option.split)

lemma delete_node_eq:
  "mem_delete_node None m nid =
     (if closed m then (m, Some ErrClosed)
      else (foldl drop_incident (remove_node_entry m nid)
              (sorted_list_of_fset (set_at (in_ids (remove_node_entry m nid)) nid) @
               sorted_list_of_fset (set_at (out_ids (remove_node_entry m nid)) nid)), None))"
  unfolding mem_delete_node_def remove_node_entry_def Let_def by simp

lemma incident_filter:
  "fset A = {k. (nid, k) \<in> pairs e_to es} \<Longrightarrow> fset B = {k. (nid, k) \<in> pairs e_from es} \<Longrightarrow>
     fmfilter (\<lambda>k. k \<notin> set (sorted_list_of_fset A @ sorted_list_of_fset B)) es = without_node nid es"
  by (rule fmap_ext) (auto simp: without_node_def pairs_iff split: option.split)

lemma delete_node_maps:
  assumes "store_ok m" "\<not> closed m"
  shows "nodes (fst (mem_delete_node None m nid)) = fmdrop nid (nodes m)"
    and "edges (fst (mem_delete_node None m nid)) = without_node nid (edges m)"
    and "metadata (fst (mem_delete_node None m nid)) = metadata m"
    and "closed (fst (mem_delete_node None m nid)) = closed m"
proof -
  have "edges_indexed (remove_node_entry m nid)" using assms(1) by (simp add: store_ok_def)
  note sets = fset_in_ids [OF this, of nid] fset_out_ids [OF this, of nid]
  show "edges (fst (mem_delete_node None m nid)) = without_node nid (edges m)"
    using incident_filter [OF sets] assms(2) by (simp add: delete_node_eq foldl_drop_incident_edges del: foldl_append set_append)
qed (use assms(2) in \<open>simp_all add: delete_node_eq\<close>)

lemma store_ok_delete_node [keeps]:
  assumes "store_ok m"
  shows "store_ok (fst (mem_delete_node ctx m nid))"
proof (cases "ctx = None \<and> \<not> closed m")
  case True
  let ?m' = "fst (mem_delete_node None m nid)"
  have "endpoints_stored ?m'"
    unfolding endpoints_stored_def
  proof (intro allI impI)
    fix k e
    assume "fmlookup (edges ?m') k = Some e"
    then have e: "fmlookup (edges m) k = Some e" "e_from e \<noteq> nid" "e_to e \<noteq> nid"
      using delete_node_maps(2) [OF assms] True by (auto simp: without_node_def split: if_splits option.splits)
    then show "e_from e |\<in>| fmdom (nodes ?m') \<and> e_to e |\<in>| fmdom (nodes ?m')"
      using assms delete_node_maps(1) [OF assms] True
      by (auto simp: store_ok_def endpoints_stored_def)
  qed
  moreover have "nodes_indexed ?m'" "edges_indexed ?m'"
    using assms True
    by (auto simp: delete_node_eq store_ok_def nodes_indexed_remove_node_entry
        intro!: edges_indexed_foldl_drop_incident)
  ultimately show ?thesis using True by (auto simp: store_ok_def)
next
  case False
  then show ?thesis using assms by (auto simp: mem_delete_node_def split: option.split)
qed

lemma store_ok_set_metadata [keeps]: "store_ok m \<Longrightarrow> store_ok (fst (mem_set_metadata ctx m k v))"
  by (simp add: mem_set_metadata_def split: option.split)

lemma store_ok_close [keeps]: "store_ok (fst (mem_close m))"
  by (simp add: mem_close_def)

lemma set_map_values: "set (map_values mp) = fmran' mp"
  by (auto simp: map_values_def fmran'_def ran_def fmdom'_notI image_iff)
     (metis fmdomE option.sel, metis fmdomI option.sel)

lemma map_map_values: "keyed f mp \<Longrightarrow> map f (map_values mp) = sorted_list_of_fset (fmdom mp)"
  unfolding map_values_def map_map comp_def
  by (rule map_idI) (auto elim!: fmdomE dest: keyedD)

lemma distinct_map_values: "keyed f mp \<Longrightarrow> distinct (map f (map_values mp))"
  by (simp add: map_map_values sorted_list_of_fset.rep_eq)

end
