(* ===== verification/Snapshot.thy ===== *)
theory Snapshot
  imports MemStore
begin

text \<open>
  \<open>core/graphstore/snapshot.go\<close> and the \<open>Snapshot\<close> and \<open>Load\<close> of \<open>memory.go\<close>: the portable
  envelope around the canonical graph document, its validation on the way back, and the
  atomic swap.  The file system is a map from resolved paths to what the file decodes to as an
  envelope (\<open>None\<close> for text that does not); what a snapshot puts there has been through the text
  already (\<open>marshal\<close> gives U+FFFD for bytes that are not UTF-8), and reading it changes no string again
  (\<open>valid_json_string\<close>, \<open>json_string_valid\<close>); \<open>resolve\<close> stands for the part of
  \<open>safeSnapshotPath\<close> that asks the operating system (absolute path, symbolic links), \<open>io\<close>
  for the error, if any, of the temporary file and its rename.
\<close>

definition snapshot_format_version :: int where
  "snapshot_format_version = 1"

definition snapshot_magic :: string where
  "snapshot_magic = ''graphi.graphstore.snapshot''"

definition model_schema_version :: "32 word" where
  "model_schema_version = identity_schema_version"

record snapshot_envelope =
  se_magic :: string
  se_format :: int
  se_schema :: "32 word"
  se_graph :: "graph_wire option"

datatype snapshot_error = MarshalGraph marshal_error

definition encode_snapshot :: "node list \<Rightarrow> edge list \<Rightarrow> snapshot_error + snapshot_envelope" where
  "encode_snapshot ns es =
     (case marshal (new_graph (sort_key n_id ns) (sort_key e_id es)) of
        Inl err \<Rightarrow> Inl (MarshalGraph err)
      | Inr graph_bytes \<Rightarrow>
          Inr \<lparr>se_magic = snapshot_magic, se_format = snapshot_format_version,
               se_schema = model_schema_version, se_graph = Some graph_bytes\<rparr>)"

definition decode_snapshot :: "hash64 \<Rightarrow> snapshot_envelope option \<Rightarrow> store_error + graph" where
  "decode_snapshot xxh data =
     (case data of
        None \<Rightarrow> Inl ErrSnapshotMalformed
      | Some env \<Rightarrow>
          if se_magic env \<noteq> snapshot_magic then Inl ErrSnapshotFormat
          else if se_format env \<noteq> snapshot_format_version then Inl ErrSnapshotFormat
          else if se_schema env \<noteq> model_schema_version then Inl ErrSnapshotFormat
          else (case se_graph env of
                  None \<Rightarrow> Inl ErrSnapshotMalformed
                | Some w \<Rightarrow>
                    (case unmarshal xxh w of
                       Inl err \<Rightarrow> Inl ErrSnapshotMalformed
                     | Inr g \<Rightarrow> if validate g \<noteq> None then Inl ErrSnapshotMalformed else Inr g)))"

definition safe_snapshot_path :: "(string \<Rightarrow> string option) \<Rightarrow> string \<Rightarrow> store_error + string" where
  "safe_snapshot_path resolve path =
     (if blank path then Inl ErrUnsafePath
      else if list_ex (\<lambda>seg. seg = ''..'') (split_slash path) then Inl ErrUnsafePath
      else (case resolve path of None \<Rightarrow> Inl ErrUnsafePath | Some resolved \<Rightarrow> Inr resolved))"

type_synonym disk = "(string, snapshot_envelope option) fmap"

definition mem_snapshot ::
  "(string \<Rightarrow> string option) \<Rightarrow> store_error option \<Rightarrow> store_error option \<Rightarrow> mem_store \<Rightarrow> string
     \<Rightarrow> disk \<Rightarrow> disk \<times> store_error option" where
  "mem_snapshot resolve io ctx m path files =
     (case ctx of
        Some err \<Rightarrow> (files, Some err)
      | None \<Rightarrow>
          (case safe_snapshot_path resolve path of
             Inl err \<Rightarrow> (files, Some err)
           | Inr safe \<Rightarrow>
               if closed m then (files, Some ErrClosed)
               else (case encode_snapshot (map_values (nodes m)) (map_values (edges m)) of
                       Inl err \<Rightarrow> (files, Some ErrSnapshotEncode)
                     | Inr env \<Rightarrow>
                         (case io of
                            Some err \<Rightarrow> (files, Some err)
                          | None \<Rightarrow> (fmupd safe (Some env) files, None)))))"

definition mem_load ::
  "hash64 \<Rightarrow> (string \<Rightarrow> string option) \<Rightarrow> store_error option \<Rightarrow> mem_store \<Rightarrow> string \<Rightarrow> disk
     \<Rightarrow> mem_store \<times> store_error option" where
  "mem_load xxh resolve ctx m path files =
     (case ctx of
        Some err \<Rightarrow> (m, Some err)
      | None \<Rightarrow>
          (case safe_snapshot_path resolve path of
             Inl err \<Rightarrow> (m, Some err)
           | Inr safe \<Rightarrow>
               (case fmlookup files safe of
                  None \<Rightarrow> (m, Some ErrReadFile)
                | Some data \<Rightarrow>
                    (case decode_snapshot xxh data of
                       Inl err \<Rightarrow> (m, Some err)
                     | Inr g \<Rightarrow> load_graph m g))))"

subsection \<open>Loading a graph\<close>

definition addressed :: "node set \<Rightarrow> edge set \<Rightarrow> bool" where
  "addressed N E \<longleftrightarrow>
     (\<forall>n \<in> N. \<forall>n' \<in> N. n_id n = n_id n' \<longrightarrow> n_qname n = n_qname n' \<and> n_path n = n_path n') \<and>
     (\<forall>e \<in> E. \<forall>e' \<in> E. e_id e = e_id e' \<longrightarrow>
        e_from e = e_from e' \<and> e_to e = e_to e' \<and> e_kind e = e_kind e')"

definition drawn_from :: "node set \<Rightarrow> edge set \<Rightarrow> mem_store \<Rightarrow> bool" where
  "drawn_from N E m \<longleftrightarrow>
     (\<forall>k n. fmlookup (nodes m) k = Some n \<longrightarrow> n \<in> N) \<and>
     (\<forall>k e. fmlookup (edges m) k = Some e \<longrightarrow> e \<in> E)"

lemma fits_drawn:
  "addressed N E \<Longrightarrow> drawn_from N E m \<Longrightarrow> keyed n_id (nodes m) \<Longrightarrow> n \<in> N \<Longrightarrow> fits_node m n"
  "addressed N E \<Longrightarrow> drawn_from N E m \<Longrightarrow> keyed e_id (edges m) \<Longrightarrow> e \<in> E \<Longrightarrow> fits_edge m e"
  unfolding addressed_def drawn_from_def fits_node_def fits_edge_def
  by (metis keyedD)+

lemma store_ok_keyed: "store_ok m \<Longrightarrow> keyed n_id (nodes m)" "store_ok m \<Longrightarrow> keyed e_id (edges m)"
  by (simp_all add: store_ok_def nodes_indexed_def edges_indexed_def)

lemma load_node_sel [simp]:
  "nodes (load_node m n) = fmupd (n_id n) n (nodes m)" "edges (load_node m n) = edges m"
  "metadata (load_node m n) = metadata m" "closed (load_node m n) = closed m"
  by (simp_all add: load_node_def)

lemma load_edge_sel [simp]:
  "edges (load_edge m e) = fmupd (e_id e) e (edges m)" "nodes (load_edge m e) = nodes m"
  "metadata (load_edge m e) = metadata m" "closed (load_edge m e) = closed m"
  by (simp_all add: load_edge_def)

lemma drawn_from_load:
  "drawn_from N E m \<Longrightarrow> n \<in> N \<Longrightarrow> drawn_from N E (load_node m n)"
  "drawn_from N E m \<Longrightarrow> e \<in> E \<Longrightarrow> drawn_from N E (load_edge m e)"
  by (simp_all add: drawn_from_def split: if_splits)

lemma load_nodes_ok:
  "addressed N E \<Longrightarrow> store_ok m \<Longrightarrow> drawn_from N E m \<Longrightarrow> set ns \<subseteq> N \<Longrightarrow>
     store_ok (foldl load_node m ns) \<and> drawn_from N E (foldl load_node m ns) \<and>
     fset (fmdom (nodes (foldl load_node m ns))) = n_id ` set ns \<union> fset (fmdom (nodes m)) \<and>
     edges (foldl load_node m ns) = edges m"
  by (induction ns arbitrary: m) (simp_all add: store_ok_load_node fits_drawn store_ok_keyed drawn_from_load)

lemma load_edges_ok:
  "addressed N E \<Longrightarrow> store_ok m \<Longrightarrow> drawn_from N E m \<Longrightarrow> set es \<subseteq> E \<Longrightarrow>
   \<forall>e \<in> set es. e_from e |\<in>| fmdom (nodes m) \<and> e_to e |\<in>| fmdom (nodes m) \<Longrightarrow>
     store_ok (foldl load_edge m es) \<and> drawn_from N E (foldl load_edge m es) \<and>
     nodes (foldl load_edge m es) = nodes m"
  by (induction es arbitrary: m) (simp_all add: store_ok_load_edge fits_drawn store_ok_keyed drawn_from_load)

lemma fmlookup_build:
  "distinct (map f xs) \<Longrightarrow>
     fmlookup (foldl (\<lambda>mp x. fmupd (f x) x mp) mp0 xs) k =
       (case find (\<lambda>x. f x = k) xs of Some x \<Rightarrow> Some x | None \<Rightarrow> fmlookup mp0 k)"
proof (induction xs arbitrary: mp0)
  case (Cons x xs)
  have "\<forall>y \<in> set xs. f y \<noteq> f x" using Cons.prems by simp (metis imageI)
  then have "find (\<lambda>y. f y = f x) xs = None" by (simp add: find_None_iff)
  then show ?case using Cons by (auto split: option.splits)
qed simp

lemma build_map_values:
  assumes "keyed f mp" "mset xs = mset (map_values mp)"
  shows "foldl (\<lambda>mp x. fmupd (f x) x mp) fmempty xs = mp"
proof (rule fmap_ext)
  fix k
  have dist: "distinct (map f xs)"
    using distinct_map_values [OF assms(1)] assms(2) by (metis mset_map mset_eq_imp_distinct_iff)
  have ran: "set xs = fmran' mp" unfolding set_map_values [symmetric] by (rule mset_eq_setD [OF assms(2)])
  have "find (\<lambda>x. f x = k) xs = fmlookup mp k"
  proof (cases "fmlookup mp k")
    case None
    have "\<forall>x \<in> set xs. f x \<noteq> k"
    proof
      fix x
      assume "x \<in> set xs"
      then have "x \<in> fmran' mp" unfolding ran .
      then obtain k' where "fmlookup mp k' = Some x" by (rule fmran'E)
      then show "f x \<noteq> k" using None keyedD [OF assms(1)] by force
    qed
    then show ?thesis using None by (simp add: find_None_iff)
  next
    case (Some v)
    then have "v \<in> fmran' mp" by (rule fmran'I)
    then have v: "v \<in> set xs" unfolding ran .
    have fv: "f v = k" by (rule keyedD [OF assms(1) Some])
    have "find (\<lambda>x. f x = k) xs \<noteq> None" unfolding find_None_iff using v fv by blast
    then obtain y where y: "find (\<lambda>x. f x = k) xs = Some y" by blast
    then have "y \<in> set xs" "f y = k" by (auto simp: find_Some_iff)
    then have "y = v" using v fv dist unfolding distinct_map inj_on_def by blast
    then show ?thesis using Some y by simp
  qed
  then show "fmlookup (foldl (\<lambda>mp x. fmupd (f x) x mp) fmempty xs) k = fmlookup mp k"
    using dist by (simp add: fmlookup_build split: option.split)
qed

lemma load_maps:
  "nodes (foldl load_node m ns) = foldl (\<lambda>mp n. fmupd (n_id n) n mp) (nodes m) ns"
  "edges (foldl load_node m ns) = edges m"
  "edges (foldl load_edge m es) = foldl (\<lambda>mp e. fmupd (e_id e) e mp) (edges m) es"
  "nodes (foldl load_edge m es) = nodes m"
  by (induction ns arbitrary: m; simp; fail)+ (induction es arbitrary: m; simp; fail)+

lemma drawn_from_new [simp]: "drawn_from N E new_mem_store"
  by (simp add: drawn_from_def new_mem_store_def)

lemma drawn_from_meta [simp]:
  "drawn_from N E (m\<lparr>metadata := x\<rparr>) = drawn_from N E m"
  "drawn_from N E (m\<lparr>closed := b\<rparr>) = drawn_from N E m"
  by (simp_all add: drawn_from_def)

lemma load_graph_ok:
  assumes "addressed N E" "store_ok m" "drawn_from N E m"
    and "set (g_nodes g) \<subseteq> N" "set (g_edges g) \<subseteq> E"
    and "\<forall>e \<in> set (g_edges g). e_from e \<in> n_id ` set (g_nodes g) \<and> e_to e \<in> n_id ` set (g_nodes g)"
  shows "store_ok (fst (load_graph m g)) \<and> drawn_from N E (fst (load_graph m g))"
proof -
  let ?n = "foldl load_node new_mem_store (g_nodes g)"
  have n: "store_ok ?n" "drawn_from N E ?n" "fset (fmdom (nodes ?n)) = n_id ` set (g_nodes g)"
    using load_nodes_ok [OF assms(1) store_ok_new drawn_from_new assms(4)]
    by (simp_all add: new_mem_store_def)
  have "store_ok (foldl load_edge ?n (g_edges g)) \<and> drawn_from N E (foldl load_edge ?n (g_edges g))"
    using load_edges_ok [OF assms(1) n(1,2) assms(5)] assms(6) n(3) by blast
  then show ?thesis using assms(2,3) by (simp add: load_graph_def)
qed

subsection \<open>Runs of the store\<close>

text \<open>
  One step is one method call; \<open>N\<close> and \<open>E\<close> are the nodes and edges the callers construct or
  load.  A call that only reads changes nothing.
\<close>

inductive mem_step :: "node set \<Rightarrow> edge set \<Rightarrow> mem_store \<Rightarrow> mem_store \<Rightarrow> bool" for N E where
  put_node: "n \<in> N \<Longrightarrow> mem_step N E m (fst (mem_put_node ctx m n))"
| put_edge: "e \<in> E \<Longrightarrow> mem_step N E m (fst (mem_put_edge ctx m e))"
| delete_node: "mem_step N E m (fst (mem_delete_node ctx m nid))"
| delete_edge: "mem_step N E m (fst (mem_delete_edge ctx m eid))"
| set_metadata: "mem_step N E m (fst (mem_set_metadata ctx m k v))"
| load: "decode_snapshot xxh data = Inr g \<Longrightarrow> set (g_nodes g) \<subseteq> N \<Longrightarrow> set (g_edges g) \<subseteq> E \<Longrightarrow>
    mem_step N E m (fst (load_graph m g))"
| close: "mem_step N E m (fst (mem_close m))"

inductive mem_reach :: "node set \<Rightarrow> edge set \<Rightarrow> mem_store \<Rightarrow> bool" for N E where
  start: "mem_reach N E new_mem_store"
| step: "mem_reach N E m \<Longrightarrow> mem_step N E m m' \<Longrightarrow> mem_reach N E m'"

inductive_cases mem_stepE: "mem_step N E m m'"

lemma drawn_from_shrink:
  "drawn_from N E m \<Longrightarrow>
     (\<And>k n. fmlookup (nodes m') k = Some n \<Longrightarrow> fmlookup (nodes m) k = Some n) \<Longrightarrow>
     (\<And>k e. fmlookup (edges m') k = Some e \<Longrightarrow> fmlookup (edges m) k = Some e) \<Longrightarrow>
     drawn_from N E m'"
  unfolding drawn_from_def by blast

lemma decode_snapshot_valid: "decode_snapshot xxh data = Inr g \<Longrightarrow> validate g = None"
  by (auto simp: decode_snapshot_def split: option.splits if_splits sum.splits)

lemma delete_node_shrinks:
  "store_ok m \<Longrightarrow> fmlookup (nodes (fst (mem_delete_node ctx m nid))) k = Some n \<Longrightarrow> fmlookup (nodes m) k = Some n"
  "store_ok m \<Longrightarrow> fmlookup (edges (fst (mem_delete_node ctx m nid))) k = Some e \<Longrightarrow> fmlookup (edges m) k = Some e"
proof -
  have other: "fst (mem_delete_node ctx m nid) = m" if "\<not> (ctx = None \<and> \<not> closed m)"
    using that by (auto simp: mem_delete_node_def split: option.split)
  show "store_ok m \<Longrightarrow> fmlookup (nodes (fst (mem_delete_node ctx m nid))) k = Some n \<Longrightarrow> fmlookup (nodes m) k = Some n"
    using other delete_node_maps(1) by (cases "ctx = None \<and> \<not> closed m") (simp_all split: if_splits)
  show "store_ok m \<Longrightarrow> fmlookup (edges (fst (mem_delete_node ctx m nid))) k = Some e \<Longrightarrow> fmlookup (edges m) k = Some e"
    using other delete_node_maps(2)
    by (cases "ctx = None \<and> \<not> closed m") (simp_all add: without_node_def split: if_splits)
qed

lemma step_keeps:
  assumes "addressed N E" "mem_step N E m m'" "store_ok m" "drawn_from N E m"
  shows "store_ok m' \<and> drawn_from N E m'"
  using assms(2)
proof cases
  case (put_node n ctx)
  then show ?thesis using assms
    by (simp add: put_node_eq store_ok_load_node fits_drawn store_ok_keyed drawn_from_load)
next
  case (put_edge e ctx)
  then show ?thesis using assms
    by (simp add: put_edge_eq store_ok_load_edge fits_drawn store_ok_keyed drawn_from_load)
next
  case (delete_node ctx nid)
  have "drawn_from N E (fst (mem_delete_node ctx m nid))"
    by (rule drawn_from_shrink [OF assms(4)]) (rule delete_node_shrinks [OF assms(3)], assumption)+
  then show ?thesis using delete_node assms(3) keeps by simp
next
  case (delete_edge ctx eid)
  have "drawn_from N E (drop_incident m eid)"
    by (rule drawn_from_shrink [OF assms(4)]) (simp_all split: if_splits)
  then show ?thesis using delete_edge assms(3,4) by (simp add: delete_edge_eq store_ok_drop_incident)
next
  case (set_metadata ctx k v)
  then show ?thesis using assms(3,4) by (simp add: mem_set_metadata_def split: option.split)
next
  case (load xxh data g)
  have "\<forall>e \<in> set (g_edges g). e_from e \<in> n_id ` set (g_nodes g) \<and> e_to e \<in> n_id ` set (g_nodes g)"
    using decode_snapshot_valid [OF load(2)] validate_None by blast
  then show ?thesis using load_graph_ok [OF assms(1,3,4) load(3,4)] load(1) by simp
next
  case close
  then show ?thesis by (simp add: mem_close_def)
qed

lemma reach_drawn:
  "mem_reach N E m \<Longrightarrow> addressed N E \<Longrightarrow> store_ok m \<and> drawn_from N E m"
  by (induction rule: mem_reach.induct) (simp, blast dest: step_keeps)

subsection \<open>Properties\<close>

text \<open>
  C1: in every state the store can reach, the elements are keyed by their identity, every
  edge has both endpoints stored, and every index holds exactly the relation that the node and
  edge maps define.
\<close>

theorem reachable_store_ok:
  assumes "addressed N E" "mem_reach N E m"
  shows "store_ok m"
  using reach_drawn assms by blast

text \<open>
  deleting a node removes it and exactly the edges that touch it, keeps everything
  else, and deleting it again changes nothing.
\<close>

theorem delete_node_cascades:
  assumes "store_ok m" "\<not> closed m" "mem_delete_node None m nid = (m', err)"
  shows "err = None \<and> nodes m' = fmdrop nid (nodes m) \<and> metadata m' = metadata m \<and>
    (\<forall>k. fmlookup (edges m') k =
       (case fmlookup (edges m) k of
          None \<Rightarrow> None
        | Some e \<Rightarrow> if e_from e = nid \<or> e_to e = nid then None else Some e)) \<and>
    store_ok m' \<and>
    (\<forall>m''. mem_delete_node None m' nid = (m'', None) \<longrightarrow> nodes m'' = nodes m' \<and> edges m'' = edges m')"
proof -
  have m': "m' = fst (mem_delete_node None m nid)" using assms(3) by simp
  note maps = delete_node_maps [OF assms(1,2), of nid, folded m']
  have ok: "store_ok m'" unfolding m' by (rule store_ok_delete_node [OF assms(1)])
  have look: "fmlookup (edges m') k = (case fmlookup (edges m) k of None \<Rightarrow> None
        | Some e \<Rightarrow> if e_from e = nid \<or> e_to e = nid then None else Some e)" for k
    by (simp add: maps without_node_def split: option.split)
  have "nodes m'' = nodes m' \<and> edges m'' = edges m'" if "mem_delete_node None m' nid = (m'', None)" for m''
  proof
    have m'': "m'' = fst (mem_delete_node None m' nid)" using that by simp
    note again = delete_node_maps [OF ok, of nid, folded m'']
    show "nodes m'' = nodes m'" using again(1) maps(1,4) assms(2) by (simp add: fmdrop_idle')
    have "edges m'' = without_node nid (edges m')" using again(2) maps(4) assms(2) by simp
    also have "\<dots> = edges m'"
      by (rule fmap_ext) (simp add: without_node_def look split: option.split)
    finally show "edges m'' = edges m'" .
  qed
  moreover have "err = None" using assms(2,3) by (simp add: delete_node_eq)
  ultimately show ?thesis using maps look ok by blast
qed

lemma snapshot_validates:
  assumes "store_ok m" "\<forall>n \<in> fmran' (nodes m). \<not> blank (n_id n)" "\<forall>e \<in> fmran' (edges m). \<not> blank (e_id e)"
    and "set ns = fmran' (nodes m)" "set es = fmran' (edges m)"
  shows "validate (canonical (new_graph ns es)) = None"
proof -
  have "e_from e \<in> n_id ` fmran' (nodes m) \<and> e_to e \<in> n_id ` fmran' (nodes m)" if "e \<in> fmran' (edges m)" for e
  proof -
    have k: "keyed n_id (nodes m)" using assms(1) by (rule store_ok_keyed)
    have dom: "x \<in> n_id ` fmran' (nodes m)" if x: "x |\<in>| fmdom (nodes m)" for x
    proof -
      obtain n where n: "fmlookup (nodes m) x = Some n" using x by (rule fmdomE)
      have "n_id n = x" "n \<in> fmran' (nodes m)" by (rule keyedD [OF k n], rule fmran'I [OF n])
      then show ?thesis by blast
    qed
    from that obtain eid where "fmlookup (edges m) eid = Some e" by (rule fmran'E)
    then show ?thesis using assms(1) dom unfolding store_ok_def endpoints_stored_def by blast
  qed
  moreover have "set (g_nodes (canonical (new_graph ns es))) = fmran' (nodes m)"
    "set (g_edges (canonical (new_graph ns es))) = fmran' (edges m)"
    unfolding assms(4,5) [symmetric] by (simp_all add: canonical_def new_graph_def)
  ultimately show ?thesis using assms(2,3) unfolding validate_None by simp
qed


definition hex_chars :: "char set" where
  "hex_chars = set ''0123456789abcdef''"

lemma hex_unspaced:
  "c \<in> hex_chars \<Longrightarrow> \<forall>e \<in> set space_encodings. \<not> has_prefix (c # s) e"
  "c \<in> hex_chars \<Longrightarrow> \<forall>e \<in> set (map rev space_encodings). \<not> has_prefix (c # s) e"
  by (auto simp: space_encodings_def hex_chars_def)

lemma trim_space_hex:
  assumes "set s \<subseteq> hex_chars" "s \<noteq> []"
  shows "trim_space s = s"
proof -
  obtain c s' where c: "s = c # s'" "c \<in> hex_chars" using assms by (cases s) simp_all
  obtain d t where d: "rev s = d # t" using assms(2) by (cases "rev s") simp_all
  then have "d \<in> set s" by (metis list.set_intros(1) set_rev)
  then have "d \<in> hex_chars" using assms(1) by blast
  then have "trim_left_of (map rev space_encodings) (rev s) = rev s"
    unfolding d by (intro trim_left_of_unspaced hex_unspaced)
  moreover have "trim_left_of space_encodings s = s"
    unfolding c(1) by (intro trim_left_of_unspaced hex_unspaced c(2))
  ultimately show ?thesis by (simp add: trim_space_def)
qed

lemma not_blank_format_id: "\<not> blank (format_id d)"
proof -
  have hex: "hex_digit k \<in> hex_chars" for k
    unfolding hex_digit_def hex_chars_def by (rule nth_mem) simp
  have "set (format_id d) \<subseteq> hex_chars" using hex by (auto simp: format_id_def)
  moreover have "format_id d \<noteq> []" by (simp add: format_id_def id_hex_width_def)
  ultimately show ?thesis by (simp add: blank_def trim_space_hex)
qed

lemma not_blank_derive_id [simp]: "\<not> blank (derive_id xxh t fs)"
  by (simp add: derive_id_def not_blank_format_id)

lemma map_err_InrD: "map_err f xs = Inr ys \<Longrightarrow> y \<in> set ys \<Longrightarrow> \<exists>x \<in> set xs. f x = Inr y"
  by (induction xs arbitrary: ys) (auto split: sum.splits)

lemma unmarshal_node_built: "unmarshal_node xxh nw = Inr n \<Longrightarrow> built_node xxh n"
proof -
  assume u: "unmarshal_node xxh nw = Inr n"
  then obtain n0 where n0: "new_node xxh (nw_kind nw) (nw_qname nw) (nw_path nw) (nw_line nw) (nw_col nw) = Inr n0"
    by (auto simp: unmarshal_node_def split: sum.splits)
  note c = new_node_InrD [OF n0]
  have "\<exists>m. n = with_meta n0 m \<and> canonical_meta m"
    using u n0 c(11) by (cases "nw_meta nw") (auto simp: unmarshal_node_def with_meta_def split: if_splits intro: exI [of _ zero_meta])
  then obtain m where m: "n = with_meta n0 m" "canonical_meta m" by blast
  then have "new_node xxh (n_kind n) (n_qname n) (nw_path nw) (n_line n) (n_col n) = Inr n0"
    using n0 c by (simp add: with_meta_def)
  then show ?thesis using m unfolding built_node_def by blast
qed

lemma unmarshal_edge_built: "unmarshal_edge xxh ew = Inr e \<Longrightarrow> built_edge xxh e"
proof -
  assume u: "unmarshal_edge xxh ew = Inr e"
  then have new: "new_edge xxh (ew_from ew) (ew_to ew) (ew_kind ew) (ew_tier ew) (ew_conf ew)
                   (ew_reason ew) (ew_evidence ew) = Inr e"
    by (auto simp: unmarshal_edge_def split: sum.splits if_splits)
  then have "e_from e = ew_from ew" "e_to e = ew_to ew" "e_kind e = ew_kind ew" "e_tier e = ew_tier ew"
    "e_conf e = ew_conf ew" "e_reason e = ew_reason ew"
    by (auto simp: new_edge_def split: if_splits sum.splits)
  then show ?thesis using new unfolding built_edge_def by auto
qed

lemma unmarshal_built:
  "unmarshal xxh w = Inr g \<Longrightarrow> n \<in> set (g_nodes g) \<Longrightarrow> built_node xxh n"
  "unmarshal xxh w = Inr g \<Longrightarrow> e \<in> set (g_edges g) \<Longrightarrow> built_edge xxh e"
  by (auto simp: unmarshal_def new_graph_def split: if_splits sum.splits
        dest!: map_err_InrD intro: unmarshal_node_built unmarshal_edge_built)

lemma decode_snapshot_built:
  "decode_snapshot xxh data = Inr g \<Longrightarrow> n \<in> set (g_nodes g) \<Longrightarrow> built_node xxh n"
  "decode_snapshot xxh data = Inr g \<Longrightarrow> e \<in> set (g_edges g) \<Longrightarrow> built_edge xxh e"
  by (auto simp: decode_snapshot_def split: option.splits if_splits sum.splits dest: unmarshal_built)

lemma build_stored:
  "fmlookup (foldl (\<lambda>mp x. fmupd (f x) x mp) mp0 xs) k = Some v \<Longrightarrow>
     v \<in> set xs \<and> f v = k \<or> fmlookup mp0 k = Some v"
proof (induction xs arbitrary: mp0)
  case (Cons x xs)
  from Cons.IH [of "fmupd (f x) x mp0"] Cons.prems show ?case by (auto split: if_splits)
qed simp

lemma build_dom:
  "fset (fmdom (foldl (\<lambda>mp x. fmupd (f x) x mp) mp0 xs)) = f ` set xs \<union> fset (fmdom mp0)"
  by (induction xs arbitrary: mp0) auto

lemma load_graph_maps:
  "\<not> closed m \<Longrightarrow> nodes (fst (load_graph m g)) = foldl (\<lambda>mp n. fmupd (n_id n) n mp) fmempty (g_nodes g)"
  "\<not> closed m \<Longrightarrow> edges (fst (load_graph m g)) = foldl (\<lambda>mp e. fmupd (e_id e) e mp) fmempty (g_edges g)"
  "metadata (fst (load_graph m g)) = metadata m"
  by (simp_all add: load_graph_def load_maps) (simp_all add: new_mem_store_def)

lemma mem_load_cases:
  assumes "mem_load xxh resolve ctx m path files = (m', err)"
  shows "m' = m \<and> err \<noteq> None \<or>
    (\<exists>data g. decode_snapshot xxh data = Inr g \<and> \<not> closed m \<and> m' = fst (load_graph m g) \<and> err = None)"
  using assms
  by (auto simp: mem_load_def load_graph_def Let_def split: option.splits sum.splits if_splits)

text \<open>
  C31: \<open>Load\<close> is fail-closed and trusts no identity in the file: an error leaves the
  store as it was, and after a success every stored value is one the constructors build, under
  the identity derived from its content, with no dangling edge; the metadata is kept.
\<close>

theorem load_fail_closed:
  assumes "mem_load xxh resolve ctx m path files = (m', err)"
  shows "(err \<noteq> None \<longrightarrow> m' = m) \<and>
    (err = None \<longrightarrow>
       metadata m' = metadata m \<and>
       (\<forall>k n. fmlookup (nodes m') k = Some n \<longrightarrow> built_node xxh n \<and> n_id n = k) \<and>
       (\<forall>k e. fmlookup (edges m') k = Some e \<longrightarrow> built_edge xxh e \<and> e_id e = k \<and>
          e_from e |\<in>| fmdom (nodes m') \<and> e_to e |\<in>| fmdom (nodes m')))"
  using mem_load_cases [OF assms]
proof
  assume "\<exists>data g. decode_snapshot xxh data = Inr g \<and> \<not> closed m \<and> m' = fst (load_graph m g) \<and> err = None"
  then obtain data g where g: "decode_snapshot xxh data = Inr g" "\<not> closed m"
    "m' = fst (load_graph m g)" "err = None" by blast
  note maps = load_graph_maps(1,2) [OF g(2), of g, folded g(3)]
  have "built_node xxh n \<and> n_id n = k" if "fmlookup (nodes m') k = Some n" for k n
    using build_stored [OF that [unfolded maps(1)]] decode_snapshot_built(1) [OF g(1)] by auto
  moreover have "built_edge xxh e \<and> e_id e = k \<and> e_from e |\<in>| fmdom (nodes m') \<and> e_to e |\<in>| fmdom (nodes m')"
    if "fmlookup (edges m') k = Some e" for k e
  proof -
    have e: "e \<in> set (g_edges g)" "e_id e = k" using build_stored [OF that [unfolded maps(2)]] by auto
    then have "e_from e \<in> n_id ` set (g_nodes g) \<and> e_to e \<in> n_id ` set (g_nodes g)"
      using decode_snapshot_valid [OF g(1)] unfolding validate_None by blast
    then show ?thesis
      using e decode_snapshot_built(2) [OF g(1)] build_dom [of n_id fmempty "g_nodes g"] maps(1) by simp
  qed
  ultimately show ?thesis using load_graph_maps(3) [of m g] g(3,4) by blast
qed blast

text \<open>
  over a store of constructed values a snapshot fails exactly when some stored edge has
  a NaN confidence, which the edge constructor accepts; the disk is then unchanged.
\<close>

theorem snapshot_fails_iff_nan:
  assumes "\<not> closed m" "safe_snapshot_path resolve path = Inr safe"
    and "\<forall>e \<in> fmran' (edges m). built_edge xxh e"
    and "mem_snapshot resolve None None m path files = (files', err)"
  shows "(err = Some ErrSnapshotEncode \<longleftrightarrow> (\<exists>e \<in> fmran' (edges m). e_conf e = NaN)) \<and>
    (err \<noteq> None \<longrightarrow> files' = files) \<and> (err = None \<or> err = Some ErrSnapshotEncode)"
proof -
  let ?g = "new_graph (sort_key n_id (map_values (nodes m))) (sort_key e_id (map_values (edges m)))"
  have "(\<exists>err. marshal ?g = Inl err) \<longleftrightarrow> (\<exists>e \<in> fmran' (edges m). e_conf e = NaN)"
    using marshal_fails_iff_nan [of ?g] assms(3) by (simp add: new_graph_def set_map_values)
  then show ?thesis
    using assms(1,2,4) by (auto simp: mem_snapshot_def encode_snapshot_def split: sum.splits)
qed

lemma addressed_stored:
  assumes "keyed n_id (nodes m)" "keyed e_id (edges m)"
  shows "addressed (fmran' (nodes m)) (fmran' (edges m))"
proof -
  have "n = n'" if "n \<in> fmran' (nodes m)" "n' \<in> fmran' (nodes m)" "n_id n = n_id n'" for n n'
    using that keyedD [OF assms(1)] by (metis fmran'E option.inject)
  moreover have "e = e'" if "e \<in> fmran' (edges m)" "e' \<in> fmran' (edges m)" "e_id e = e_id e'" for e e'
    using that keyedD [OF assms(2)] by (metis fmran'E option.inject)
  ultimately show ?thesis unfolding addressed_def by blast
qed

lemma store_ok_load_open:
  assumes "addressed N E" "\<not> closed m" "validate g = None"
    and "set (g_nodes g) \<subseteq> N" "set (g_edges g) \<subseteq> E"
  shows "store_ok (fst (load_graph m g))"
proof -
  have "store_ok (fst (load_graph (new_mem_store\<lparr>metadata := metadata m\<rparr>) g))"
    by (rule conjunct1 [OF load_graph_ok [OF assms(1) _ _ assms(4,5)]])
       (use assms(3) in \<open>simp_all add: validate_None\<close>)
  moreover have "fst (load_graph (new_mem_store\<lparr>metadata := metadata m\<rparr>) g) = fst (load_graph m g)"
    using assms(2) by (simp add: load_graph_def) (simp add: new_mem_store_def)
  ultimately show ?thesis by simp
qed

lemma snapshot_then_load:
  assumes ok: "store_ok m" and opn: "\<not> closed m" "\<not> closed m2"
    and ns: "\<forall>n \<in> fmran' (nodes m). built_node xxh n \<and> \<not> drive_prefixed (n_path n) \<and> utf8_node n"
    and es: "\<forall>e \<in> fmran' (edges m). built_edge xxh e \<and> e_conf e \<noteq> NaN \<and> utf8_edge e"
    and path: "safe_snapshot_path resolve path = Inr safe"
    and snap: "mem_snapshot resolve None None m path files = (files', err)"
  shows "err = None \<and>
    (\<exists>m'. mem_load xxh resolve None m2 path files' = (m', None) \<and>
       nodes m' = nodes m \<and> edges m' = edges m \<and> metadata m' = metadata m2 \<and> store_ok m')"
proof -
  let ?g = "new_graph (sort_key n_id (map_values (nodes m))) (sort_key e_id (map_values (edges m)))"
  let ?env = "\<lparr>se_magic = snapshot_magic, se_format = snapshot_format_version,
       se_schema = model_schema_version, se_graph = Some (wire_document ?g)\<rparr>"
  have sets: "set (g_nodes ?g) = fmran' (nodes m)" "set (g_edges ?g) = fmran' (edges m)"
    by (simp_all add: new_graph_def set_map_values)
  have "marshal ?g = Inr (wire_document ?g)"
    and u: "unmarshal xxh (wire_document ?g) = Inr (canonical ?g)"
    by (rule marshal_unmarshal; use ns es sets in blast)+
  then have files: "err = None" "files' = fmupd safe (Some ?env) files"
    using snap opn(1) path by (auto simp: mem_snapshot_def encode_snapshot_def)
  have ids: "\<forall>n \<in> fmran' (nodes m). \<not> blank (n_id n)" "\<forall>e \<in> fmran' (edges m). \<not> blank (e_id e)"
    using ns es by (auto simp: built_nodeD built_edge_id)
  have v: "validate (canonical ?g) = None"
    by (rule snapshot_validates [OF ok ids]) (simp_all add: set_map_values)
  have d: "decode_snapshot xxh (Some ?env) = Inr (canonical ?g)"
    by (simp add: decode_snapshot_def u v)
  have load: "mem_load xxh resolve None m2 path files' = load_graph m2 (canonical ?g)"
    unfolding mem_load_def path files(2) by (simp add: d)
  have m: "mset (g_nodes (canonical ?g)) = mset (map_values (nodes m))"
    "mset (g_edges (canonical ?g)) = mset (map_values (edges m))"
    by (simp_all add: canonical_def new_graph_def)
  note k = store_ok_keyed [OF ok]
  have res: "nodes (fst (load_graph m2 (canonical ?g))) = nodes m"
    "edges (fst (load_graph m2 (canonical ?g))) = edges m"
    using load_graph_maps(1,2) [OF opn(2)] build_map_values [OF k(1) m(1)] build_map_values [OF k(2) m(2)]
    by simp_all
  have "store_ok (fst (load_graph m2 (canonical ?g)))"
    by (rule store_ok_load_open [OF addressed_stored [OF k] opn(2) v])
       (simp_all only: mset_eq_setD [OF m(1)] mset_eq_setD [OF m(2)] set_map_values subset_refl)
  then show ?thesis
    using files(1) load res load_graph_maps(3) [of m2] opn(2) by (simp add: load_graph_def Let_def)
qed

text \<open>
  a store can write a snapshot that no store can load: a node whose kind or qualified name is not
  UTF-8, which every constructor accepts, goes into the text as U+FFFD, and \<open>Load\<close> finds an identity
  that does not match.
\<close>

theorem snapshot_of_invalid_utf8:
  assumes node: "n \<in> fmran' (nodes m)" "built_node xxh n" "\<not> (valid_utf8 (n_kind n) \<and> valid_utf8 (n_qname n))"
    and opn: "\<not> closed m" and path: "safe_snapshot_path resolve path = Inr safe"
    and es: "\<forall>e \<in> fmran' (edges m). built_edge xxh e \<and> e_conf e \<noteq> NaN"
    and fs: "fs = [json_string (n_kind n), json_string (n_qname n), normalize_path (json_string (n_path n))]"
      "\<forall>f \<in> set ([n_kind n, n_qname n, n_path n] @ fs). length f < 2 ^ 32"
      "inj_on xxh {identity_preimage node_id_domain_tag [n_kind n, n_qname n, n_path n],
         identity_preimage node_id_domain_tag fs}"
    and snap: "mem_snapshot resolve None None m path files = (files', err)"
  shows "err = None \<and> mem_load xxh resolve None m2 path files' = (m2, Some ErrSnapshotMalformed)"
proof -
  let ?g = "new_graph (sort_key n_id (map_values (nodes m))) (sort_key e_id (map_values (edges m)))"
  have sets: "n \<in> set (g_nodes ?g)" "\<forall>e \<in> set (g_edges ?g). built_edge xxh e \<and> e_conf e \<noteq> NaN"
    using node(1) es by (simp_all add: new_graph_def set_map_values)
  then obtain w where w: "marshal ?g = Inr w"
    using marshal_fails_iff_nan [of ?g xxh] by (cases "marshal ?g") auto
  obtain e where "unmarshal xxh w = Inl e"
    using unmarshal_invalid_utf8_fails [OF sets(1) node(2,3) w fs] by blast
  then show ?thesis
    using snap opn path w by (auto simp: mem_snapshot_def encode_snapshot_def mem_load_def decode_snapshot_def)
qed

text \<open>
  C30: a snapshot of a store of constructed values, with UTF-8 strings, no NaN confidence and no
  path that still looks drive-prefixed, is written, and loaded into any open store gives that
  store the same nodes and edges and well-formed indexes; the loading store's metadata stays as
  it was.
\<close>

theorem snapshot_load_roundtrip:
  assumes ok: "store_ok m" and opn: "\<not> closed m" "\<not> closed m2"
    and ns: "\<forall>n \<in> fmran' (nodes m). built_node xxh n \<and> \<not> drive_prefixed (n_path n) \<and> utf8_node n"
    and es: "\<forall>e \<in> fmran' (edges m). built_edge xxh e \<and> e_conf e \<noteq> NaN \<and> utf8_edge e"
    and path: "safe_snapshot_path resolve path = Inr safe"
    and snap: "mem_snapshot resolve None None m path files = (files', err)"
  shows "err = None \<and>
    (\<exists>m'. mem_load xxh resolve None m2 path files' = (m', None) \<and>
       nodes m' = nodes m \<and> edges m' = edges m \<and> metadata m' = metadata m2 \<and> store_ok m')"
  using snapshot_then_load [OF assms] .


subsection \<open>Witnesses\<close>

text \<open>Two functions, a call and the store that holds them.\<close>

definition fn_node :: "string \<Rightarrow> node" where
  "fn_node q =
     \<lparr>n_id = derive_id sum_hash node_id_domain_tag [''function'', q, ''a.go''],
      n_kind = ''function'', n_qname = q, n_path = ''a.go'', n_line = 1, n_col = 1,
      n_meta = zero_meta\<rparr>"

definition call_edge :: "float64 \<Rightarrow> edge" where
  "call_edge c =
     \<lparr>e_id = derive_id sum_hash edge_id_domain_tag [n_id (fn_node ''f''), n_id (fn_node ''g''), ''calls''],
      e_from = n_id (fn_node ''f''), e_to = n_id (fn_node ''g''), e_kind = ''calls'',
      e_tier = ''derived'', e_conf = c, e_reason = ''call'', e_evidence = [''a.go:1'']\<rparr>"

definition small_store :: "float64 \<Rightarrow> mem_store" where
  "small_store c =
     fst (mem_put_edge None
       (fst (mem_put_node None (fst (mem_put_node None new_mem_store (fn_node ''f''))) (fn_node ''g'')))
       (call_edge c))"

lemma fn_ids: "n_id (fn_node ''f'') \<noteq> n_id (fn_node ''g'')"
  by code_simp

lemma built_fn_node: "built_node sum_hash (fn_node ''f'')" "built_node sum_hash (fn_node ''g'')"
proof -
  have f: "new_node sum_hash ''function'' ''f'' ''a.go'' 1 1 = Inr (fn_node ''f'')"
    and g: "new_node sum_hash ''function'' ''g'' ''a.go'' 1 1 = Inr (fn_node ''g'')"
    by code_simp+
  show "built_node sum_hash (fn_node ''f'')" "built_node sum_hash (fn_node ''g'')"
    unfolding built_node_def
    by (rule exI [of _ "''a.go''"], rule exI [of _ zero_meta],
        rule exI [of _ "fn_node ''f''"], use f in \<open>simp add: fn_node_def with_meta_def\<close>)
       (rule exI [of _ "''a.go''"], rule exI [of _ zero_meta],
        rule exI [of _ "fn_node ''g''"], use g in \<open>simp add: fn_node_def with_meta_def\<close>)
qed

lemma built_call_edge: "built_edge sum_hash (call_edge (Finite 1))" "built_edge sum_hash (call_edge NaN)"
proof -
  have "new_edge sum_hash (e_from (call_edge c)) (e_to (call_edge c)) (e_kind (call_edge c))
      (e_tier (call_edge c)) (e_conf (call_edge c)) (e_reason (call_edge c)) [''a.go:1''] = Inr (call_edge c)"
    if "c = Finite 1 \<or> c = NaN" for c
    using that by (elim disjE; hypsubst) code_simp+
  then show "built_edge sum_hash (call_edge (Finite 1))" "built_edge sum_hash (call_edge NaN)"
    unfolding built_edge_def by blast+
qed

lemma small_store_maps:
  "nodes (small_store c) =
     fmupd (n_id (fn_node ''g'')) (fn_node ''g'') (fmupd (n_id (fn_node ''f'')) (fn_node ''f'') fmempty)"
  "edges (small_store c) = fmupd (e_id (call_edge c)) (call_edge c) fmempty"
  "\<not> closed (small_store c)"
  by (simp_all add: small_store_def put_node_eq put_edge_eq)
     (simp_all add: new_mem_store_def call_edge_def)

lemma small_addressed: "addressed {fn_node ''f'', fn_node ''g''} {call_edge c}"
  using fn_ids by (simp add: addressed_def)

lemma small_reach: "mem_reach {fn_node ''f'', fn_node ''g''} {call_edge c} (small_store c)"
  unfolding small_store_def
  by (rule mem_reach.step [OF _ mem_step.put_edge],
      rule mem_reach.step [OF _ mem_step.put_node],
      rule mem_reach.step [OF mem_reach.start mem_step.put_node]) simp_all

lemma small_store_ok: "store_ok (small_store c)"
  using reach_drawn [OF small_reach small_addressed] by simp

theorem reachable_store_ok_witness:
  "store_ok (fst (mem_delete_node None (small_store (Finite 1)) (n_id (fn_node ''f''))))"
  by (rule reachable_store_ok [OF small_addressed mem_reach.step [OF small_reach mem_step.delete_node]])

theorem delete_node_cascades_witness:
  "fmlookup (edges (fst (mem_delete_node None (small_store (Finite 1)) (n_id (fn_node ''f'')))))
     (e_id (call_edge (Finite 1))) = None"
  using delete_node_cascades [OF small_store_ok small_store_maps(3) surjective_pairing,
      of "Finite 1" "n_id (fn_node ''f'')"]
  by (simp add: small_store_maps) (simp add: call_edge_def)

definition same_path :: "string \<Rightarrow> string option" where
  "same_path p = Some p"

lemma safe_same_path: "safe_snapshot_path same_path ''s.json'' = Inr ''s.json''"
  by code_simp

lemma small_ran:
  "fmran' (nodes (small_store c)) = {fn_node ''f'', fn_node ''g''}"
  "fmran' (edges (small_store c)) = {call_edge c}"
  using fn_ids by (auto simp: small_store_maps fmran'_def ran_def split: if_splits)

theorem snapshot_fails_iff_nan_witness:
  "snd (mem_snapshot same_path None None (small_store NaN) ''s.json'' fmempty) = Some ErrSnapshotEncode"
  using snapshot_fails_iff_nan [OF small_store_maps(3) safe_same_path _ surjective_pairing, of NaN sum_hash]
    built_call_edge(2)
  by (simp add: small_ran) (simp add: call_edge_def)

lemma utf8_small: "utf8_node (fn_node ''f'')" "utf8_node (fn_node ''g'')" "utf8_edge (call_edge c)"
  by (simp_all add: utf8_node_def utf8_edge_def call_edge_def valid_derive_id)
     (simp_all add: fn_node_def zero_meta_def valid_derive_id)

lemma small_snapshot:
  "\<forall>n \<in> fmran' (nodes (small_store (Finite 1))).
     built_node sum_hash n \<and> \<not> drive_prefixed (n_path n) \<and> utf8_node n"
  "\<forall>e \<in> fmran' (edges (small_store (Finite 1))). built_edge sum_hash e \<and> e_conf e \<noteq> NaN \<and> utf8_edge e"
  using built_fn_node built_call_edge(1) utf8_small
  by (simp_all add: small_ran) (simp_all add: fn_node_def call_edge_def)

theorem snapshot_load_roundtrip_witness:
  "\<exists>m'. mem_load sum_hash same_path None new_mem_store ''s.json''
      (fst (mem_snapshot same_path None None (small_store (Finite 1)) ''s.json'' fmempty)) = (m', None) \<and>
      nodes m' = nodes (small_store (Finite 1)) \<and> edges m' = edges (small_store (Finite 1))"
  using snapshot_load_roundtrip [OF small_store_ok small_store_maps(3) _ small_snapshot safe_same_path
      surjective_pairing, of new_mem_store fmempty]
  by (auto simp: new_mem_store_def)

theorem load_fail_closed_witness:
  "fst (mem_load sum_hash same_path None (small_store NaN) ''s.json'' (fmupd ''s.json'' None fmempty)) =
     small_store NaN"
proof -
  have "snd (mem_load sum_hash same_path None (small_store NaN) ''s.json'' (fmupd ''s.json'' None fmempty)) \<noteq> None"
    by (simp add: mem_load_def safe_same_path decode_snapshot_def)
  then show ?thesis using load_fail_closed [OF surjective_pairing] by blast
qed

end
