(* ===== verification/MemReads.thy ===== *)
theory MemReads
  imports Snapshot
begin

text \<open>
  The read path of the in-memory backend: the listings and scans of
  \<open>core/graphstore/memory.go\<close> and the selective reads of \<open>memory_lookup.go\<close>.  A slice
  filled by ranging over a map is written in the map's key order and then sorted as the code
  sorts it.  \<open>lower\<close> stands for \<open>strings.ToLower\<close>, whose Unicode tables are not modelled.
\<close>

subsection \<open>Listings\<close>

record store_query =
  q_node_kind :: string
  q_edge_kind :: string
  q_text :: string

definition any_query :: store_query where
  "any_query = \<lparr>q_node_kind = [], q_edge_kind = [], q_text = []\<rparr>"

text \<open>\<open>strings.Contains\<close>\<close>

fun contains_str :: "string \<Rightarrow> string \<Rightarrow> bool" where
  "contains_str [] t \<longleftrightarrow> t = []"
| "contains_str (c # s) t \<longleftrightarrow> has_prefix (c # s) t \<or> contains_str s t"

definition node_matches_text :: "(string \<Rightarrow> string) \<Rightarrow> node \<Rightarrow> string \<Rightarrow> bool" where
  "node_matches_text lower n text \<longleftrightarrow> contains_str (lower (n_qname n)) (lower text)"

definition mem_get_node :: "store_error option \<Rightarrow> mem_store \<Rightarrow> node_id \<Rightarrow> store_error + node" where
  "mem_get_node ctx m nid =
     (case ctx of
        Some err \<Rightarrow> Inl err
      | None \<Rightarrow>
          if closed m then Inl ErrClosed
          else (case fmlookup (nodes m) nid of None \<Rightarrow> Inl ErrNotFound | Some n \<Rightarrow> Inr n))"

definition mem_get_edge :: "store_error option \<Rightarrow> mem_store \<Rightarrow> edge_id \<Rightarrow> store_error + edge" where
  "mem_get_edge ctx m eid =
     (case ctx of
        Some err \<Rightarrow> Inl err
      | None \<Rightarrow>
          if closed m then Inl ErrClosed
          else (case fmlookup (edges m) eid of None \<Rightarrow> Inl ErrNotFound | Some e \<Rightarrow> Inr e))"

definition mem_nodes ::
  "(string \<Rightarrow> string) \<Rightarrow> store_error option \<Rightarrow> mem_store \<Rightarrow> store_query \<Rightarrow> store_error + node list" where
  "mem_nodes lower ctx m q =
     (case ctx of
        Some err \<Rightarrow> Inl err
      | None \<Rightarrow>
          if closed m then Inl ErrClosed
          else Inr (sort_key n_id
            (filter (\<lambda>n. \<not> (q_node_kind q \<noteq> [] \<and> n_kind n \<noteq> q_node_kind q) \<and>
                         \<not> (q_text q \<noteq> [] \<and> \<not> node_matches_text lower n (q_text q)))
               (map_values (nodes m)))))"

definition mem_edges ::
  "(string \<Rightarrow> string) \<Rightarrow> store_error option \<Rightarrow> mem_store \<Rightarrow> store_query \<Rightarrow> store_error + edge list" where
  "mem_edges lower ctx m q =
     (case ctx of
        Some err \<Rightarrow> Inl err
      | None \<Rightarrow>
          if closed m then Inl ErrClosed
          else Inr (sort_key e_id
            (filter (\<lambda>e. \<not> (q_edge_kind q \<noteq> [] \<and> e_kind e \<noteq> q_edge_kind q) \<and>
                         \<not> (q_text q \<noteq> [] \<and> \<not> contains_str (lower (e_reason e)) (lower (q_text q))))
               (map_values (edges m)))))"

record ranked_node =
  rn_node :: node
  rn_rank :: float64

definition mem_search_nodes ::
  "(string \<Rightarrow> string) \<Rightarrow> store_error option \<Rightarrow> mem_store \<Rightarrow> string \<Rightarrow> int
     \<Rightarrow> store_error + ranked_node list" where
  "mem_search_nodes lower ctx m text limit =
     (case ctx of
        Some err \<Rightarrow> Inl err
      | None \<Rightarrow>
          if closed m then Inl ErrClosed
          else
            let t = lower (trim_space text)
            in if t = [] then Inr []
               else
                 let out = sort_key (\<lambda>r. (n_qname (rn_node r), n_id (rn_node r)))
                       (map (\<lambda>n. \<lparr>rn_node = n, rn_rank = Finite 0\<rparr>)
                          (filter (\<lambda>n. contains_str (lower (n_qname n)) t) (map_values (nodes m))))
                 in Inr (if limit > 0 \<and> int (length out) > limit then take (nat limit) out else out))"

definition mem_node_ids :: "store_error option \<Rightarrow> mem_store \<Rightarrow> store_error + node_id list" where
  "mem_node_ids ctx m =
     (case ctx of
        Some err \<Rightarrow> Inl err
      | None \<Rightarrow>
          if closed m then Inl ErrClosed
          else Inr (sort (sorted_list_of_fset (fmdom (nodes m)))))"

text \<open>The callback of a scan may keep state of its own; its first error stops the scan.\<close>

fun scan_loop :: "('s \<Rightarrow> 'a \<Rightarrow> 's \<times> store_error option) \<Rightarrow> 's \<Rightarrow> 'a list \<Rightarrow> 's \<times> store_error option" where
  "scan_loop fn s [] = (s, None)"
| "scan_loop fn s (x # xs) =
     (case fn s x of
        (s', Some err) \<Rightarrow> (s', Some err)
      | (s', None) \<Rightarrow> scan_loop fn s' xs)"

definition mem_scan_nodes ::
  "(string \<Rightarrow> string) \<Rightarrow> store_error option \<Rightarrow> mem_store \<Rightarrow> ('s \<Rightarrow> node \<Rightarrow> 's \<times> store_error option) \<Rightarrow> 's
     \<Rightarrow> 's \<times> store_error option" where
  "mem_scan_nodes lower ctx m fn s =
     (case mem_nodes lower ctx m any_query of Inl err \<Rightarrow> (s, Some err) | Inr ns \<Rightarrow> scan_loop fn s ns)"

definition mem_scan_edges ::
  "(string \<Rightarrow> string) \<Rightarrow> store_error option \<Rightarrow> mem_store \<Rightarrow> ('s \<Rightarrow> edge \<Rightarrow> 's \<times> store_error option) \<Rightarrow> 's
     \<Rightarrow> 's \<times> store_error option" where
  "mem_scan_edges lower ctx m fn s =
     (case mem_edges lower ctx m any_query of Inl err \<Rightarrow> (s, Some err) | Inr es \<Rightarrow> scan_loop fn s es)"

subsection \<open>Unbounded selective reads\<close>

definition kind_matches :: "string \<Rightarrow> string list \<Rightarrow> bool" where
  "kind_matches kind kinds \<longleftrightarrow> (if kinds = [] then True else list_ex (\<lambda>k. kind = k) kinds)"

definition incident ::
  "store_error option \<Rightarrow> (node_id \<Rightarrow> edge_id fset) \<Rightarrow> mem_store \<Rightarrow> node_id \<Rightarrow> string list
     \<Rightarrow> store_error + edge list" where
  "incident ctx side m nid kinds =
     (case ctx of
        Some err \<Rightarrow> Inl err
      | None \<Rightarrow>
          if closed m then Inl ErrClosed
          else Inr (sort_key e_id
            (concat (map (\<lambda>eid.
               case fmlookup (edges m) eid of
                 None \<Rightarrow> []
               | Some e \<Rightarrow> if \<not> kind_matches (e_kind e) kinds then [] else [e])
               (sorted_list_of_fset (side nid))))))"

definition mem_incoming ::
  "store_error option \<Rightarrow> mem_store \<Rightarrow> node_id \<Rightarrow> string list \<Rightarrow> store_error + edge list" where
  "mem_incoming ctx m nid kinds = incident ctx (set_at (in_ids m)) m nid kinds"

definition mem_outgoing ::
  "store_error option \<Rightarrow> mem_store \<Rightarrow> node_id \<Rightarrow> string list \<Rightarrow> store_error + edge list" where
  "mem_outgoing ctx m nid kinds = incident ctx (set_at (out_ids m)) m nid kinds"

text \<open>The loop of \<open>NodesByID\<close>, with its set of identities already seen.\<close>

fun nodes_by_id_loop :: "(node_id, node) fmap \<Rightarrow> node_id fset \<Rightarrow> node_id list \<Rightarrow> node list" where
  "nodes_by_id_loop ns seen [] = []"
| "nodes_by_id_loop ns seen (i # is) =
     (if i |\<in>| seen then nodes_by_id_loop ns seen is
      else (case fmlookup ns i of None \<Rightarrow> [] | Some n \<Rightarrow> [n]) @
           nodes_by_id_loop ns (finsert i seen) is)"

definition mem_nodes_by_id ::
  "store_error option \<Rightarrow> mem_store \<Rightarrow> node_id list \<Rightarrow> store_error + node list" where
  "mem_nodes_by_id ctx m is =
     (case ctx of
        Some err \<Rightarrow> Inl err
      | None \<Rightarrow>
          if closed m then Inl ErrClosed
          else Inr (sort_key n_id (nodes_by_id_loop (nodes m) {||} is)))"

definition lookup_nodes ::
  "store_error option \<Rightarrow> (string \<Rightarrow> node_id fset) \<Rightarrow> mem_store \<Rightarrow> string \<Rightarrow> store_error + node list" where
  "lookup_nodes ctx side m k =
     (case ctx of
        Some err \<Rightarrow> Inl err
      | None \<Rightarrow>
          if closed m then Inl ErrClosed
          else Inr (sort_key n_id
            (concat (map (\<lambda>i. case fmlookup (nodes m) i of None \<Rightarrow> [] | Some n \<Rightarrow> [n])
               (sorted_list_of_fset (side k))))))"

definition mem_qualified_name ::
  "store_error option \<Rightarrow> mem_store \<Rightarrow> string \<Rightarrow> store_error + node list" where
  "mem_qualified_name ctx m qn = lookup_nodes ctx (set_at (by_qn m)) m qn"

definition mem_source_path ::
  "store_error option \<Rightarrow> mem_store \<Rightarrow> string \<Rightarrow> store_error + node list" where
  "mem_source_path ctx m path = lookup_nodes ctx (set_at (by_path m)) m path"

definition mem_search ::
  "(string \<Rightarrow> string) \<Rightarrow> store_error option \<Rightarrow> mem_store \<Rightarrow> string \<Rightarrow> int
     \<Rightarrow> store_error + ranked_node list" where
  "mem_search lower ctx m text limit = mem_search_nodes lower ctx m text limit"

subsection \<open>Bounded selective reads\<close>

text \<open>The largest 64-bit \<open>int\<close>.\<close>

definition max_int :: int where
  "max_int = 9223372036854775807"

definition bounded_probe_limit :: "int \<Rightarrow> int" where
  "bounded_probe_limit limit = (if limit < max_int then limit + 1 else limit)"

fun unique_loop :: "string fset \<Rightarrow> string list \<Rightarrow> string list \<Rightarrow> string list" where
  "unique_loop seen out [] = out"
| "unique_loop seen out (k # ks) =
     (if k |\<in>| seen then unique_loop seen out ks else unique_loop (finsert k seen) (out @ [k]) ks)"

definition unique_edge_kinds :: "string list \<Rightarrow> string list" where
  "unique_edge_kinds kinds = sort (unique_loop {||} [] kinds)"

text \<open>Zero kinds: the kinds of the endpoint in order, each one's prefix up to the remaining budget.\<close>

fun kind_prefixes :: "(string \<Rightarrow> int \<Rightarrow> edge_id list) \<Rightarrow> int \<Rightarrow> edge_id list \<Rightarrow> string list \<Rightarrow> edge_id list" where
  "kind_prefixes first probe ids [] = ids"
| "kind_prefixes first probe ids (k # ks) =
     (let remaining = probe - int (length ids)
      in if remaining \<le> 0 then ids else kind_prefixes first probe (ids @ first k remaining) ks)"

text \<open>
  Explicit kinds: a merge of the kinds' prefixes.  A cursor is a list of identities and a
  position; \<open>container/heap\<close> pops a cursor that is least under \<open>Less\<close>, so the heap is the
  list of its cursors and \<open>heap_pop\<close> takes the first least one out.
\<close>

record cursor =
  c_ids :: "edge_id list"
  c_pos :: nat

definition cursor_head :: "cursor \<Rightarrow> edge_id" where
  "cursor_head c = c_ids c ! c_pos c"

fun least_cursor :: "cursor \<Rightarrow> cursor list \<Rightarrow> cursor" where
  "least_cursor c [] = c"
| "least_cursor c (d # ds) = least_cursor (if cursor_head d < cursor_head c then d else c) ds"

definition heap_pop :: "cursor list \<Rightarrow> cursor \<times> cursor list" where
  "heap_pop cs = (let c = least_cursor (hd cs) (tl cs) in (c, remove1 c cs))"

function merge_cursors :: "int \<Rightarrow> cursor list \<Rightarrow> edge_id list \<Rightarrow> edge_id list" where
  "merge_cursors probe cs ids =
     (if int (length ids) < probe \<and> cs \<noteq> [] then
        (let (c, rest) = heap_pop cs;
             c' = c\<lparr>c_pos := c_pos c + 1\<rparr>
         in merge_cursors probe (if c_pos c' < length (c_ids c') then rest @ [c'] else rest)
              (ids @ [cursor_head c]))
      else ids)"
  by pat_completeness auto
termination
  by (relation "measure (\<lambda>(probe, cs, ids). nat (probe - int (length ids)))") auto

declare merge_cursors.simps [simp del]

definition edge_prefix ::
  "(node_id \<times> string, edge_id tree) fmap \<Rightarrow> node_id \<Rightarrow> string \<Rightarrow> int \<Rightarrow> edge_id list" where
  "edge_prefix by_kind nid kind n = edge_id_first (fmlookup by_kind (nid, kind)) n"

definition incident_bounded ::
  "store_error option \<Rightarrow> mem_store \<Rightarrow> node_id \<Rightarrow> int \<Rightarrow> bool \<Rightarrow> string list
     \<Rightarrow> store_error + edge list \<times> bool" where
  "incident_bounded ctx m nid limit incoming kinds =
     (case ctx of
        Some err \<Rightarrow> Inl err
      | None \<Rightarrow>
          if limit \<le> 0 then Inl ErrInvalidLimit
          else if closed m then Inl ErrClosed
          else
            let by_kind = (if incoming then in_kind_ordered m else out_kind_ordered m);
                known_kinds = (if incoming then in_kinds m else out_kinds m);
                probe = bounded_probe_limit limit;
                ids = (if kinds = [] then
                         kind_prefixes (edge_prefix by_kind nid) probe []
                           (kind_first (fmlookup known_kinds nid) probe)
                       else
                         merge_cursors probe
                           (map (\<lambda>ordered. \<lparr>c_ids = ordered, c_pos = 0\<rparr>)
                              (filter (\<lambda>ordered. length ordered > 0)
                                 (map (\<lambda>kind. edge_prefix by_kind nid kind probe)
                                    (unique_edge_kinds kinds)))) []);
                truncated = (int (length ids) > limit);
                ids' = (if truncated then take (nat limit) ids else ids)
            in Inr (concat (map (\<lambda>eid. case fmlookup (edges m) eid of None \<Rightarrow> [] | Some e \<Rightarrow> [e]) ids'),
                    truncated))"

definition mem_incoming_bounded ::
  "store_error option \<Rightarrow> mem_store \<Rightarrow> node_id \<Rightarrow> int \<Rightarrow> string list
     \<Rightarrow> store_error + edge list \<times> bool" where
  "mem_incoming_bounded ctx m nid limit kinds = incident_bounded ctx m nid limit True kinds"

definition mem_outgoing_bounded ::
  "store_error option \<Rightarrow> mem_store \<Rightarrow> node_id \<Rightarrow> int \<Rightarrow> string list
     \<Rightarrow> store_error + edge list \<times> bool" where
  "mem_outgoing_bounded ctx m nid limit kinds = incident_bounded ctx m nid limit False kinds"

subsection \<open>Prefixes of sorted lists\<close>

lemma sorted_map_unique:
  "ssorted (map f xs) \<Longrightarrow> ssorted (map f ys) \<Longrightarrow> set xs = set ys \<Longrightarrow> xs = ys"
proof -
  assume s: "ssorted (map f xs)" "ssorted (map f ys)" and eq: "set xs = set ys"
  have "map f xs = map f ys" using ssorted_unique [OF s] eq by simp
  moreover have "inj_on f (set xs \<union> set ys)"
    using ssorted_distinct [OF s(1)] eq by (simp add: distinct_map)
  ultimately show "xs = ys" by (rule map_inj_on)
qed

lemma set_take_sorted_list_of_set:
  assumes "finite A"
  shows "set (take n (sorted_list_of_set A)) = {x \<in> A. card {y \<in> A. y < x} < n}"
proof -
  let ?l = "sorted_list_of_set A"
  have l: "ssorted ?l" "set ?l = A" using assms by simp_all
  have below: "{y \<in> A. y < ?l ! i} = set (take i ?l)" if "i < length ?l" for i
  proof -
    have nth: "j < i \<longleftrightarrow> ?l ! j < ?l ! i" if "j < length ?l" for j
      using l(1) that \<open>i < length ?l\<close> by (metis linorder_less_linear order_less_asym sorted_wrt_nth_less)
    have "y \<in> {y \<in> A. y < ?l ! i} \<longleftrightarrow> (\<exists>j < length ?l. y = ?l ! j \<and> ?l ! j < ?l ! i)" for y
      using l(2) by (metis (mono_tags, lifting) in_set_conv_nth mem_Collect_eq)
    moreover have "y \<in> set (take i ?l) \<longleftrightarrow> (\<exists>j < length ?l. y = ?l ! j \<and> j < i)" for y
      using that by (auto simp: in_set_conv_nth intro: order.strict_trans)
    ultimately show ?thesis using nth by blast
  qed
  have card: "card {y \<in> A. y < ?l ! i} = i" if "i < length ?l" for i
    using that below [OF that] distinct_card [of "take i ?l"] by simp
  show ?thesis
  proof (rule set_eqI, rule iffI)
    fix x
    assume "x \<in> set (take n ?l)"
    then obtain i where i: "i < length ?l" "i < n" "x = ?l ! i" by (auto simp: in_set_conv_nth)
    then have "x \<in> A" using l(2) nth_mem by blast
    moreover have "card {y \<in> A. y < x} < n" unfolding i(3) card [OF i(1)] by (rule i(2))
    ultimately show "x \<in> {x \<in> A. card {y \<in> A. y < x} < n}" by blast
  next
    fix x
    assume "x \<in> {x \<in> A. card {y \<in> A. y < x} < n}"
    then have x: "x \<in> set ?l" "card {y \<in> A. y < x} < n" using l(2) by simp_all
    then obtain i where i: "i < length ?l" "x = ?l ! i" by (auto simp: in_set_conv_nth)
    have "i < n" using x(2) unfolding i(2) card [OF i(1)] .
    then show "x \<in> set (take n ?l)" using i by (auto simp: in_set_conv_nth)
  qed
qed

lemma take_union_prefixes:
  assumes "finite K" "\<And>k. k \<in> K \<Longrightarrow> finite (S k)"
  shows "take n (sorted_list_of_set (\<Union>k \<in> K. set (take n (sorted_list_of_set (S k))))) =
         take n (sorted_list_of_set (\<Union>k \<in> K. S k))"
    (is "take n (sorted_list_of_set ?A') = take n (sorted_list_of_set ?A)")
proof (rule ssorted_unique)
  have pre: "set (take n (sorted_list_of_set (S k))) = {x \<in> S k. card {y \<in> S k. y < x} < n}" if "k \<in> K" for k
    by (rule set_take_sorted_list_of_set [OF assms(2) [OF that]])
  have fin: "finite ?A" "finite ?A'" using assms by simp_all
  have sub: "?A' \<subseteq> ?A" using pre by auto
  have fwd: "x \<in> ?A' \<and> card {y \<in> ?A'. y < x} < n" if x: "x \<in> ?A" "card {y \<in> ?A. y < x} < n" for x
  proof
    obtain k where k: "k \<in> K" "x \<in> S k" using x(1) by blast
    have "card {y \<in> S k. y < x} \<le> card {y \<in> ?A. y < x}"
      by (rule card_mono [OF finite_subset [OF _ fin(1)]]) (use k in auto)
    then show "x \<in> ?A'" using x(2) k pre [OF k(1)] by auto
    have "card {y \<in> ?A'. y < x} \<le> card {y \<in> ?A. y < x}"
      by (rule card_mono [OF finite_subset [OF _ fin(1)]]) (use sub in auto)
    then show "card {y \<in> ?A'. y < x} < n" using x(2) by simp
  qed
  have bwd: "x \<in> ?A \<and> card {y \<in> ?A. y < x} < n" if x: "x \<in> ?A'" "card {y \<in> ?A'. y < x} < n" for x
  proof
    show "x \<in> ?A" using x(1) sub by blast
    have "y \<in> ?A'" if y: "y \<in> ?A" "y < x" for y
    proof (rule ccontr)
      assume no: "y \<notin> ?A'"
      obtain k where k: "k \<in> K" "y \<in> S k" using y(1) by blast
      let ?P = "set (take n (sorted_list_of_set (S k)))"
      have "y \<notin> ?P" using no k(1) by blast
      then have many: "n \<le> card {z \<in> S k. z < y}" using k pre [OF k(1)] by simp
      have "{z \<in> S k. z < y} \<subseteq> S k" by blast
      then have "n \<le> card (S k)" using many card_mono [OF assms(2) [OF k(1)]] le_trans by blast
      then have card: "card ?P = n"
        by (subst distinct_card) (simp_all add: min_def)
      have "z < y" if "z \<in> ?P" for z
      proof (rule ccontr)
        assume "\<not> z < y"
        then have "{u \<in> S k. u < y} \<subseteq> {u \<in> S k. u < z}" by auto
        then have "card {u \<in> S k. u < y} \<le> card {u \<in> S k. u < z}"
          by (rule card_mono [rotated]) (simp add: assms(2) [OF k(1)])
        then show False using that many pre [OF k(1)] by auto
      qed
      then have "?P \<subseteq> {u \<in> ?A'. u < x}" using y(2) k(1) by force
      then have "card ?P \<le> card {u \<in> ?A'. u < x}" by (intro card_mono finite_subset [OF _ fin(2)]) auto
      then show False using card x(2) by simp
    qed
    then have "{y \<in> ?A. y < x} = {y \<in> ?A'. y < x}" using sub by blast
    then show "card {y \<in> ?A. y < x} < n" using x(2) by simp
  qed
  show "set (take n (sorted_list_of_set ?A')) = set (take n (sorted_list_of_set ?A))"
    unfolding set_take_sorted_list_of_set [OF fin(1)] set_take_sorted_list_of_set [OF fin(2)]
    using fwd bwd by blast
qed (simp_all add: sorted_wrt_take)

lemma length_concat_nonempty: "\<forall>x \<in> set xs. S x \<noteq> [] \<Longrightarrow> length xs \<le> length (concat (map S xs))"
proof (induction xs)
  case (Cons x xs)
  have "0 < length (S x)" using Cons.prems by simp
  moreover have "length xs \<le> length (concat (map S xs))" using Cons by simp
  ultimately show ?case by (simp del: length_greater_0_conv length_concat)
qed simp

lemma take_concat_nonempty:
  assumes "\<forall>x \<in> set xs. S x \<noteq> []"
  shows "take n (concat (map S (take n xs))) = take n (concat (map S xs))"
proof (cases "length xs \<le> n")
  case False
  have "n \<le> length (concat (map S (take n xs)))"
    using length_concat_nonempty [of "take n xs" S] assms False by (auto dest: in_set_takeD)
  moreover have "concat (map S xs) = concat (map S (take n xs)) @ concat (map S (drop n xs))"
    by (metis append_take_drop_id concat_append map_append)
  ultimately show ?thesis by simp
qed simp

subsection \<open>The merge of the cursors\<close>

definition remaining :: "cursor \<Rightarrow> edge_id list" where
  "remaining c = drop (c_pos c) (c_ids c)"

definition cursor_ok :: "cursor \<Rightarrow> bool" where
  "cursor_ok c \<longleftrightarrow> c_pos c < length (c_ids c) \<and> sorted (remaining c)"

lemma remaining_Cons:
  "cursor_ok c \<Longrightarrow> remaining c = cursor_head c # remaining (c\<lparr>c_pos := c_pos c + 1\<rparr>)"
  by (simp add: remaining_def cursor_ok_def cursor_head_def Cons_nth_drop_Suc)

lemma least_cursor_in: "least_cursor c ds \<in> set (c # ds)"
  by (induction c ds rule: least_cursor.induct) (auto split: if_splits)

lemma least_cursor_le: "d \<in> set (c # ds) \<Longrightarrow> cursor_head (least_cursor c ds) \<le> cursor_head d"
proof (induction c ds arbitrary: d rule: least_cursor.induct)
  case (2 c e ds)
  let ?b = "if cursor_head e < cursor_head c then e else c"
  have "cursor_head (least_cursor ?b ds) \<le> cursor_head ?b" by (rule "2.IH") simp
  moreover have "cursor_head ?b \<le> cursor_head c" "cursor_head ?b \<le> cursor_head e"
    by (simp_all add: order.strict_implies_order linorder_not_less)
  moreover have "cursor_head (least_cursor ?b ds) \<le> cursor_head d" if "d \<in> set ds"
    by (rule "2.IH") (use that in simp)
  ultimately show ?case using "2.prems" by (auto intro: order_trans)
qed simp

lemma sort_Cons_least:
  "mset xs = add_mset h (mset ys) \<Longrightarrow> \<forall>y \<in> set ys. h \<le> y \<Longrightarrow> sort xs = h # sort ys"
  by (rule properties_for_sort) simp_all

lemma merge_cursors_eq:
  "\<forall>c \<in> set cs. cursor_ok c \<Longrightarrow>
     merge_cursors probe cs ids =
       ids @ take (nat (probe - int (length ids))) (sort (concat (map remaining cs)))"
proof (induction probe cs ids rule: merge_cursors.induct)
  case (1 probe cs ids)
  show ?case
  proof (cases "int (length ids) < probe \<and> cs \<noteq> []")
    case True
    let ?c = "least_cursor (hd cs) (tl cs)"
    let ?c' = "?c\<lparr>c_pos := c_pos ?c + 1\<rparr>"
    let ?cs = "if c_pos ?c' < length (c_ids ?c') then remove1 ?c cs @ [?c'] else remove1 ?c cs"
    have pop: "heap_pop cs = (?c, remove1 ?c cs)" by (simp add: heap_pop_def Let_def)
    have c: "?c \<in> set cs" using least_cursor_in [of "hd cs" "tl cs"] True by simp
    have okc: "cursor_ok ?c" using c "1.prems" by blast
    note rem = remaining_Cons [OF okc]
    have over: "remaining ?c' = []" if "\<not> c_pos ?c' < length (c_ids ?c')"
      using that by (simp add: remaining_def)
    have okc': "cursor_ok ?c'" if "c_pos ?c' < length (c_ids ?c')"
      using that okc rem by (simp add: cursor_ok_def)
    have ok: "\<forall>c \<in> set ?cs. cursor_ok c"
      using "1.prems" okc' by (auto dest: notin_set_remove1)
    have "mset (concat (map remaining cs)) =
        mset (remaining ?c) + mset (concat (map remaining (remove1 ?c cs)))"
    proof -
      have "mset (concat (map remaining cs)) = sum_mset (image_mset (mset \<circ> remaining) (mset cs))"
        by (induction cs) simp_all
      also have "mset cs = add_mset ?c (mset (remove1 ?c cs))" using c by simp
      also have "sum_mset (image_mset (mset \<circ> remaining) (add_mset ?c (mset (remove1 ?c cs)))) =
          mset (remaining ?c) + sum_mset (image_mset (mset \<circ> remaining) (mset (remove1 ?c cs)))"
        by simp
      also have "sum_mset (image_mset (mset \<circ> remaining) (mset ds)) = mset (concat (map remaining ds))" for ds
        by (induction ds) simp_all
      finally show ?thesis .
    qed
    then have m: "mset (concat (map remaining cs)) = add_mset (cursor_head ?c) (mset (concat (map remaining ?cs)))"
      unfolding rem using over by simp
    have "cursor_head ?c \<le> y" if y: "y \<in> set (concat (map remaining ?cs))" for y
    proof -
      have "set (concat (map remaining ?cs)) \<subseteq> set (concat (map remaining cs))"
        using mset_eq_setD [of _ "cursor_head ?c # concat (map remaining ?cs)"] m by (metis mset.simps(2) set_subset_Cons)
      then obtain d where d: "d \<in> set cs" "y \<in> set (remaining d)" using y by auto
      have okd: "cursor_ok d" using d(1) "1.prems" by blast
      then have "cursor_head d \<le> y"
        using d(2) remaining_Cons [OF okd] by (auto simp: cursor_ok_def)
      moreover have "cursor_head ?c \<le> cursor_head d"
        by (rule least_cursor_le) (use d(1) True in simp)
      ultimately show ?thesis by simp
    qed
    then have s: "sort (concat (map remaining cs)) = cursor_head ?c # sort (concat (map remaining ?cs))"
      by (intro sort_Cons_least [OF m]) blast
    have "merge_cursors probe cs ids = merge_cursors probe ?cs (ids @ [cursor_head ?c])"
      using True pop by (subst merge_cursors.simps) (simp add: Let_def)
    also have "\<dots> = (ids @ [cursor_head ?c]) @
        take (nat (probe - int (length (ids @ [cursor_head ?c])))) (sort (concat (map remaining ?cs)))"
      by (rule "1.IH" [OF True pop [symmetric] refl refl ok])
    also have "\<dots> = ids @ take (nat (probe - int (length ids))) (sort (concat (map remaining cs)))"
    proof -
      have "nat (probe - int (length ids)) = Suc (nat (probe - int (length (ids @ [cursor_head ?c]))))"
        using True by auto
      then show ?thesis unfolding s by simp
    qed
    finally show ?thesis .
  next
    case False
    then show ?thesis by (subst merge_cursors.simps) auto
  qed
qed

subsection \<open>What the reads return\<close>

definition hits :: "('k, 'v) fmap \<Rightarrow> 'k list \<Rightarrow> 'v list" where
  "hits mp ks = concat (map (\<lambda>k. case fmlookup mp k of None \<Rightarrow> [] | Some v \<Rightarrow> [v]) ks)"

lemma hits_simps [simp]:
  "hits mp [] = []"
  "hits mp (k # ks) = (case fmlookup mp k of None \<Rightarrow> [] | Some v \<Rightarrow> [v]) @ hits mp ks"
  by (simp_all add: hits_def)

lemma set_hits: "set (hits mp ks) = {v. \<exists>k \<in> set ks. fmlookup mp k = Some v}"
  by (induction ks) (auto split: option.splits)

lemma map_hits: "keyed f mp \<Longrightarrow> map f (hits mp ks) = filter (\<lambda>k. k |\<in>| fmdom mp) ks"
  by (induction ks) (auto simp: fmdom_iff dest: keyedD split: option.splits)

lemma hits_keys: "keyed f mp \<Longrightarrow> set vs \<subseteq> fmran' mp \<Longrightarrow> hits mp (map f vs) = vs"
proof (induction vs)
  case (Cons v vs)
  then have "v \<in> fmran' mp" by simp
  then obtain k where k: "fmlookup mp k = Some v" by (rule fmran'E)
  then have "f v = k" by (rule keyedD [OF Cons.prems(1)])
  then show ?case using k Cons by simp
qed simp

lemma ssorted_values: "keyed f mp \<Longrightarrow> ssorted (map f (map_values mp))"
  by (simp add: map_map_values sorted_list_of_fset.rep_eq)

lemma ssorted_map_filter: "ssorted (map f xs) \<Longrightarrow> ssorted (map f (filter P xs))"
  unfolding sorted_wrt_map by (rule sorted_wrt_filter)

lemma ssorted_map_sort_key: "distinct (map f xs) \<Longrightarrow> ssorted (map f (sort_key f xs))"
proof -
  assume "distinct (map f xs)"
  then have "distinct (map f (sort_key f xs))"
    by (metis mset_map mset_sort mset_eq_imp_distinct_iff)
  then show ?thesis by (simp add: strict_sorted_iff del: distinct_map)
qed

lemma sort_key_eq_values:
  assumes "keyed f mp" "distinct (map f xs)" "set xs = {v \<in> fmran' mp. P v}"
  shows "sort_key f xs = filter P (map_values mp)"
  by (rule sorted_map_unique [OF ssorted_map_sort_key [OF assms(2)] ssorted_map_filter [OF ssorted_values [OF assms(1)]]])
     (simp add: assms(3) set_map_values)

text \<open>The edges at one side of a node, in identity order: the reference for the indexed reads.\<close>

definition edges_at :: "(edge \<Rightarrow> node_id) \<Rightarrow> mem_store \<Rightarrow> node_id \<Rightarrow> string list \<Rightarrow> edge list" where
  "edges_at endp m nid kinds =
     filter (\<lambda>e. endp e = nid \<and> kind_matches (e_kind e) kinds) (map_values (edges m))"

lemma incident_eq:
  assumes "keyed e_id (edges m)" "\<not> closed m" "fset (side nid) = {k. (nid, k) \<in> pairs endp (edges m)}"
  shows "incident None side m nid kinds = Inr (edges_at endp m nid kinds)"
proof -
  let ?ids = "sorted_list_of_fset (side nid)"
  have "concat (map (\<lambda>eid. case fmlookup (edges m) eid of None \<Rightarrow> []
        | Some e \<Rightarrow> if \<not> kind_matches (e_kind e) kinds then [] else [e]) ids)
      = filter (\<lambda>e. kind_matches (e_kind e) kinds) (hits (edges m) ids)" for ids
    by (induction ids) (auto split: option.splits)
  moreover have "sort_key e_id (filter (\<lambda>e. kind_matches (e_kind e) kinds) (hits (edges m) ?ids)) =
      edges_at endp m nid kinds"
    unfolding edges_at_def
  proof (rule sort_key_eq_values [OF assms(1)])
    have "distinct (map e_id (hits (edges m) ?ids))"
      unfolding map_hits [OF assms(1)] by (simp add: sorted_list_of_fset.rep_eq)
    then show "distinct (map e_id (filter (\<lambda>e. kind_matches (e_kind e) kinds) (hits (edges m) ?ids)))"
      by (rule distinct_map_filter)
    show "set (filter (\<lambda>e. kind_matches (e_kind e) kinds) (hits (edges m) ?ids)) =
        {v \<in> fmran' (edges m). endp v = nid \<and> kind_matches (e_kind v) kinds}"
      using assms(3) by (auto simp: set_hits pairs_iff elim!: fmran'E intro: fmran'I)
  qed
  ultimately show ?thesis using assms(2) by (simp add: incident_def)
qed

lemma mem_edges_any: "\<not> closed m \<Longrightarrow> keyed e_id (edges m) \<Longrightarrow> mem_edges lower None m any_query = Inr (map_values (edges m))"
  by (simp add: mem_edges_def any_query_def sort_key_eq_values [where P = "\<lambda>_. True"]
      set_map_values distinct_map_values sort_key_id_if_sorted
      strict_sorted_imp_sorted [OF ssorted_values])

lemma incoming_eq: "store_ok m \<Longrightarrow> \<not> closed m \<Longrightarrow> mem_incoming None m nid kinds = Inr (edges_at e_to m nid kinds)"
  and outgoing_eq: "store_ok m \<Longrightarrow> \<not> closed m \<Longrightarrow> mem_outgoing None m nid kinds = Inr (edges_at e_from m nid kinds)"
  unfolding mem_incoming_def mem_outgoing_def
  by (rule incident_eq; simp add: store_ok_def edges_indexed_def fset_in_ids fset_out_ids)+

subsection \<open>The bounded reads\<close>

lemma distinct_concat_disjoint:
  "distinct ks \<Longrightarrow> (\<And>k. k \<in> set ks \<Longrightarrow> distinct (f k)) \<Longrightarrow>
   (\<And>k k'. k \<in> set ks \<Longrightarrow> k' \<in> set ks \<Longrightarrow> k \<noteq> k' \<Longrightarrow> set (f k) \<inter> set (f k') = {}) \<Longrightarrow>
     distinct (concat (map f ks))"
proof (induction ks)
  case (Cons k ks)
  have "distinct (concat (map f ks))"
    using Cons.prems by (intro Cons.IH) auto
  moreover have "set (f k) \<inter> set (concat (map f ks)) = {}"
    using Cons.prems(1,3) by fastforce
  ultimately show ?case using Cons.prems(2) by simp
qed simp

lemma concat_filter_nonempty: "concat (filter (\<lambda>xs. 0 < length xs) xss) = concat xss"
  by (induction xss) auto

lemma set_unique_loop: "set (unique_loop seen out ks) = set out \<union> (set ks - fset seen)"
  by (induction seen out ks rule: unique_loop.induct) auto

lemma distinct_unique_loop: "distinct out \<Longrightarrow> set out = fset seen \<Longrightarrow> distinct (unique_loop seen out ks)"
  by (induction seen out ks rule: unique_loop.induct) auto

lemma unique_edge_kinds_facts [simp]:
  "set (unique_edge_kinds kinds) = set kinds" "distinct (unique_edge_kinds kinds)"
  by (simp_all add: unique_edge_kinds_def set_unique_loop distinct_unique_loop)

lemma kind_matches_iff: "kind_matches k kinds \<longleftrightarrow> kinds = [] \<or> k \<in> set kinds"
  by (auto simp: kind_matches_def list_ex_iff)

text \<open>The identities under one endpoint and kind.\<close>

definition ids_at :: "(edge \<Rightarrow> node_id) \<Rightarrow> mem_store \<Rightarrow> node_id \<Rightarrow> string \<Rightarrow> edge_id set" where
  "ids_at endp m nid kind = {eid. ((nid, kind), eid) \<in> pairs (\<lambda>e. (endp e, e_kind e)) (edges m)}"

lemma ids_at_iff: "eid \<in> ids_at endp m nid kind \<longleftrightarrow>
    (\<exists>e. fmlookup (edges m) eid = Some e \<and> endp e = nid \<and> e_kind e = kind)"
  by (simp add: ids_at_def pairs_iff)

lemma finite_ids_at [simp]: "finite (ids_at endp m nid kind)"
  by (rule finite_subset [of _ "fset (fmdom (edges m))"]) (auto simp: ids_at_iff intro: fmdomI)

lemma edge_prefix_eq:
  "side_ok endp (edges m) idx ordered ks \<Longrightarrow>
     edge_prefix ordered nid kind n = take (nat n) (sorted_list_of_set (ids_at endp m nid kind))"
  by (simp add: edge_prefix_def side_ok_def et.first_lookup ids_at_def)

lemma known_kinds_eq:
  "side_ok endp (edges m) idx ordered ks \<Longrightarrow>
     kind_first (fmlookup ks nid) n = take (nat n) (sorted_list_of_set {k. ids_at endp m nid k \<noteq> {}})"
proof -
  assume s: "side_ok endp (edges m) idx ordered ks"
  have ok: "kt.index_ok ks" and rel: "kt.index_rel ks = fst ` pairs (\<lambda>e. (endp e, e_kind e)) (edges m)"
    using s by (simp_all add: side_ok_def)
  have "{k. (nid, k) \<in> kt.index_rel ks} = {k. ids_at endp m nid k \<noteq> {}}"
    unfolding rel ids_at_def by force
  then show ?thesis unfolding kt.first_lookup [OF ok] by (simp only:)
qed

lemma set_edges_at: "set (edges_at endp m nid kinds) =
    {e \<in> fmran' (edges m). endp e = nid \<and> kind_matches (e_kind e) kinds}"
  by (simp add: edges_at_def set_map_values)

lemma ids_of_edges_at:
  assumes "keyed e_id (edges m)" "kinds \<noteq> []"
  shows "sorted_list_of_set (\<Union>k \<in> set kinds. ids_at endp m nid k) = map e_id (edges_at endp m nid kinds)"
proof -
  have "e_id ` set (edges_at endp m nid kinds) = (\<Union>k \<in> set kinds. ids_at endp m nid k)"
  proof (rule set_eqI)
    fix eid
    have "eid \<in> e_id ` set (edges_at endp m nid kinds) \<longleftrightarrow>
        (\<exists>e. fmlookup (edges m) eid = Some e \<and> endp e = nid \<and> e_kind e \<in> set kinds)"
      unfolding set_edges_at using assms keyedD [OF assms(1)]
      by (auto simp: kind_matches_iff image_iff elim!: fmran'E intro: fmran'I)
    then show "eid \<in> e_id ` set (edges_at endp m nid kinds) \<longleftrightarrow> eid \<in> (\<Union>k \<in> set kinds. ids_at endp m nid k)"
      by (auto simp: ids_at_iff)
  qed
  moreover have "ssorted (map e_id (edges_at endp m nid kinds))"
    unfolding edges_at_def by (rule ssorted_map_filter [OF ssorted_values [OF assms(1)]])
  ultimately show ?thesis using ssorted_eq_sorted_list_of_set by (metis list.set_map)
qed

lemma merged_ids:
  assumes "side_ok endp (edges m) idx ordered ks" "keyed e_id (edges m)" "kinds \<noteq> []"
  shows "merge_cursors probe
           (map (\<lambda>ordered. \<lparr>c_ids = ordered, c_pos = 0\<rparr>)
              (filter (\<lambda>ordered. length ordered > 0)
                 (map (\<lambda>kind. edge_prefix ordered nid kind probe) (unique_edge_kinds kinds)))) [] =
         map e_id (take (nat probe) (edges_at endp m nid kinds))"
proof -
  let ?S = "\<lambda>k. sorted_list_of_set (ids_at endp m nid k)"
  let ?T = "\<lambda>k. take (nat probe) (?S k)"
  let ?U = "unique_edge_kinds kinds"
  have pre: "edge_prefix ordered nid kind probe = ?T kind" for kind
    by (rule edge_prefix_eq [OF assms(1)])
  let ?cs = "map (\<lambda>ordered. \<lparr>c_ids = ordered, c_pos = 0\<rparr>) (filter (\<lambda>xs. length xs > 0) (map ?T ?U))"
  have "sorted (?T k)" for k
    by (rule sorted_wrt_take) simp
  then have "\<forall>c \<in> set ?cs. cursor_ok c"
    by (auto simp: cursor_ok_def remaining_def)
  then have "merge_cursors probe ?cs [] = take (nat probe) (sort (concat (map remaining ?cs)))"
    by (simp add: merge_cursors_eq)
  also have "map remaining ?cs = filter (\<lambda>xs. length xs > 0) (map ?T ?U)"
    by (simp add: remaining_def comp_def)
  also have "concat \<dots> = concat (map ?T ?U)" by (rule concat_filter_nonempty)
  also have "sort \<dots> = sorted_list_of_set (\<Union>k \<in> set kinds. set (?T k))"
  proof -
    have disj: "ids_at endp m nid k \<inter> ids_at endp m nid k' = {}" if "k \<noteq> k'" for k k'
      using that by (auto simp: ids_at_iff)
    have "distinct (concat (map ?T ?U))"
    proof (rule distinct_concat_disjoint)
      show "set (?T k) \<inter> set (?T k') = {}" if "k \<noteq> k'" for k k'
        using disj [OF that] by (auto dest!: in_set_takeD)
    qed simp_all
    moreover have "set (concat (map ?T ?U)) = (\<Union>k \<in> set kinds. set (?T k))" by simp
    ultimately show ?thesis by (metis distinct_remdups_id sorted_list_of_set_sort_remdups)
  qed
  also have "take (nat probe) \<dots> = take (nat probe) (sorted_list_of_set (\<Union>k \<in> set kinds. ids_at endp m nid k))"
    by (rule take_union_prefixes) simp_all
  also have "\<dots> = map e_id (take (nat probe) (edges_at endp m nid kinds))"
    by (simp add: ids_of_edges_at [OF assms(2,3)] take_map)
  finally show ?thesis by (simp only: pre)
qed

lemma kind_prefixes_eq:
  "(\<And>k n. first k n = take (nat n) (S k)) \<Longrightarrow> int (length ids) \<le> probe \<Longrightarrow>
     kind_prefixes first probe ids ks = take (nat probe) (ids @ concat (map S ks))"
proof (induction ks arbitrary: ids)
  case (Cons k ks)
  show ?case
  proof (cases "probe - int (length ids) \<le> 0")
    case True
    then show ?thesis using Cons.prems by simp
  next
    case False
    let ?ids = "ids @ take (nat (probe - int (length ids))) (S k)"
    have len: "int (length ?ids) \<le> probe" using False by simp
    have "kind_prefixes first probe ids (k # ks) = kind_prefixes first probe ?ids ks"
      using False by (simp add: Let_def Cons.prems(1))
    also have "\<dots> = take (nat probe) (?ids @ concat (map S ks))"
      by (rule Cons.IH [OF Cons.prems(1) len])
    also have "\<dots> = take (nat probe) (ids @ concat (map S (k # ks)))"
    proof -
      have n: "nat (probe - int (length ids)) = nat probe - length ids" by (simp add: nat_diff_distrib)
      show ?thesis
        using Cons.prems(2) unfolding n by (cases "length (S k) \<le> nat probe - length ids") (simp_all add: le_diff_conv2)
    qed
    finally show ?thesis .
  qed
qed simp

definition kind_then_id :: "edge \<Rightarrow> string \<times> edge_id" where
  "kind_then_id e = (e_kind e, e_id e)"

lemma ssorted_concat_kinds:
  assumes "keyed e_id (edges m)"
  shows "ssorted ks \<Longrightarrow> ssorted (map kind_then_id
    (concat (map (\<lambda>k. hits (edges m) (sorted_list_of_set (ids_at endp m nid k))) ks)))"
proof (induction ks)
  case (Cons k ks)
  let ?H = "\<lambda>k. hits (edges m) (sorted_list_of_set (ids_at endp m nid k))"
  have kind: "e_kind e = k" if "e \<in> set (?H k)" for e k
    using that by (auto simp: set_hits ids_at_iff)
  have "ssorted (map e_id (?H k))"
    unfolding map_hits [OF assms] by (rule sorted_wrt_filter) simp
  then have "ssorted (map kind_then_id (?H k))"
    unfolding sorted_wrt_map
    by (rule sorted_wrt_mono_rel [rotated]) (use kind in \<open>auto simp: kind_then_id_def less_prod_def\<close>)
  moreover have "kind_then_id e < kind_then_id e'" if "e \<in> set (?H k)" "e' \<in> set (?H k')" "k' \<in> set ks" for e e' k'
    using kind [OF that(1)] kind [OF that(2)] that(3) Cons.prems by (simp add: kind_then_id_def)
  ultimately show ?case using Cons by (auto simp: sorted_wrt_append)
qed simp

lemma finite_kinds_at: "finite {k. ids_at endp m nid k \<noteq> {}}"
  by (rule finite_subset [of _ "e_kind ` fset (fmran (edges m))"]) (auto simp: ids_at_iff intro!: imageI fmranI)

lemma all_kinds_edges:
  assumes "keyed e_id (edges m)"
  shows "concat (map (\<lambda>k. hits (edges m) (sorted_list_of_set (ids_at endp m nid k)))
           (sorted_list_of_set {k. ids_at endp m nid k \<noteq> {}})) =
         sort_key kind_then_id (edges_at endp m nid [])"
proof (rule sorted_map_unique)
  show "ssorted (map kind_then_id (sort_key kind_then_id (edges_at endp m nid [])))"
  proof (rule ssorted_map_sort_key)
    have "distinct (map snd (map kind_then_id (edges_at endp m nid [])))"
      using ssorted_distinct [OF ssorted_map_filter [OF ssorted_values [OF assms]]]
      by (simp add: edges_at_def kind_then_id_def comp_def)
    then show "distinct (map kind_then_id (edges_at endp m nid []))" by (rule distinct_map [THEN iffD1, THEN conjunct1])
  qed
  show "set (concat (map (\<lambda>k. hits (edges m) (sorted_list_of_set (ids_at endp m nid k)))
           (sorted_list_of_set {k. ids_at endp m nid k \<noteq> {}}))) =
        set (sort_key kind_then_id (edges_at endp m nid []))"
  proof (rule set_eqI)
    fix e
    have "e \<in> set (concat (map (\<lambda>k. hits (edges m) (sorted_list_of_set (ids_at endp m nid k)))
           (sorted_list_of_set {k. ids_at endp m nid k \<noteq> {}}))) \<longleftrightarrow>
        (\<exists>k. \<exists>eid \<in> ids_at endp m nid k. fmlookup (edges m) eid = Some e)"
      using finite_kinds_at [of endp m nid] by (simp add: set_hits) blast
    also have "\<dots> \<longleftrightarrow> (\<exists>eid. fmlookup (edges m) eid = Some e) \<and> endp e = nid"
      unfolding Bex_def ids_at_iff by force
    also have "\<dots> \<longleftrightarrow> e \<in> set (sort_key kind_then_id (edges_at endp m nid []))"
      by (auto simp: set_edges_at kind_matches_iff intro: fmran'I elim!: fmran'E)
    finally show "e \<in> set (concat (map (\<lambda>k. hits (edges m) (sorted_list_of_set (ids_at endp m nid k)))
           (sorted_list_of_set {k. ids_at endp m nid k \<noteq> {}}))) \<longleftrightarrow>
        e \<in> set (sort_key kind_then_id (edges_at endp m nid []))" .
  qed
qed (rule ssorted_concat_kinds [OF assms], simp)

lemma all_kinds_ids:
  assumes "side_ok endp (edges m) idx ordered ks" "keyed e_id (edges m)" "0 \<le> probe"
  shows "kind_prefixes (edge_prefix ordered nid) probe [] (kind_first (fmlookup ks nid) probe) =
         map e_id (take (nat probe) (sort_key kind_then_id (edges_at endp m nid [])))"
proof -
  let ?S = "\<lambda>k. sorted_list_of_set (ids_at endp m nid k)"
  let ?K = "sorted_list_of_set {k. ids_at endp m nid k \<noteq> {}}"
  have ids: "map e_id (hits (edges m) (?S k)) = ?S k" for k
    unfolding map_hits [OF assms(2)] by (simp add: filter_id_conv ids_at_iff) (auto simp: ids_at_iff intro: fmdomI)
  have "kind_prefixes (edge_prefix ordered nid) probe [] (kind_first (fmlookup ks nid) probe) =
      take (nat probe) (concat (map ?S (take (nat probe) ?K)))"
    using kind_prefixes_eq [where S = ?S and ids = "[]"] edge_prefix_eq [OF assms(1)] assms(3)
    by (simp add: known_kinds_eq [OF assms(1)])
  also have "\<dots> = take (nat probe) (concat (map ?S ?K))"
    by (rule take_concat_nonempty) (use finite_kinds_at [of endp m nid] in simp)
  also have "concat (map ?S ?K) = map e_id (concat (map (\<lambda>k. hits (edges m) (?S k)) ?K))"
    by (simp add: map_concat ids comp_def)
  finally show ?thesis by (simp add: all_kinds_edges [OF assms(2)] take_map)
qed

lemma bounded_finish:
  assumes "0 < limit" "limit \<le> max_int" "int (length E) \<le> max_int"
    and "keyed e_id (edges m)" "set E \<subseteq> fmran' (edges m)"
    and "ids = map e_id (take (nat (bounded_probe_limit limit)) E)"
  shows "int (length ids) > limit \<longleftrightarrow> int (length E) > limit"
    and "concat (map (\<lambda>eid. case fmlookup (edges m) eid of None \<Rightarrow> [] | Some e \<Rightarrow> [e])
           (if int (length ids) > limit then take (nat limit) ids else ids)) = take (nat limit) E"
proof -
  have ids: "(if int (length ids) > limit then take (nat limit) ids else ids) = map e_id (take (nat limit) E) \<and>
      (int (length ids) > limit \<longleftrightarrow> int (length E) > limit)"
  proof (cases "limit < max_int")
    case True
    then have p: "nat (bounded_probe_limit limit) = Suc (nat limit)"
      using assms(1) by (simp add: bounded_probe_limit_def Suc_nat_eq_nat_zadd1)
    show ?thesis
    proof (cases "length E \<le> nat limit")
      case True
      then show ?thesis using assms(1) unfolding assms(6) p by auto
    next
      case False
      then have "limit < int (length E)" by simp
      then show ?thesis using False assms(1) unfolding assms(6) p by (simp add: take_map min_def)
    qed
  next
    case False
    then have "limit = max_int" using assms(2) by simp
    then show ?thesis using assms(3) unfolding assms(6) bounded_probe_limit_def by simp
  qed
  then show "int (length ids) > limit \<longleftrightarrow> int (length E) > limit" by blast
  have "set (take (nat limit) E) \<subseteq> fmran' (edges m)" using assms(5) by (auto dest: in_set_takeD)
  then show "concat (map (\<lambda>eid. case fmlookup (edges m) eid of None \<Rightarrow> [] | Some e \<Rightarrow> [e])
           (if int (length ids) > limit then take (nat limit) ids else ids)) = take (nat limit) E"
    unfolding conjunct1 [OF ids] hits_def [symmetric] by (rule hits_keys [OF assms(4)])
qed

lemma incident_bounded_eq:
  assumes ok: "store_ok m" "\<not> closed m" and lim: "0 < limit" "limit \<le> max_int"
    and size: "int (length (edges_at endp m nid kinds)) \<le> max_int"
    and side: "endp = (if incoming then e_to else e_from)"
  shows "incident_bounded None m nid limit incoming kinds =
     (let E = (if kinds = [] then sort_key kind_then_id (edges_at endp m nid []) else edges_at endp m nid kinds)
      in Inr (take (nat limit) E, int (length E) > limit))"
proof -
  let ?E = "if kinds = [] then sort_key kind_then_id (edges_at endp m nid []) else edges_at endp m nid kinds"
  let ?bk = "if incoming then in_kind_ordered m else out_kind_ordered m"
  let ?kk = "if incoming then in_kinds m else out_kinds m"
  let ?p = "bounded_probe_limit limit"
  have k: "keyed e_id (edges m)" using ok(1) by (simp add: store_ok_def edges_indexed_def)
  have s: "side_ok endp (edges m) (if incoming then in_ids m else out_ids m) ?bk ?kk"
    using ok(1) side by (simp add: store_ok_def edges_indexed_def)
  have p: "0 \<le> ?p" using lim by (simp add: bounded_probe_limit_def)
  let ?ids = "if kinds = [] then kind_prefixes (edge_prefix ?bk nid) ?p [] (kind_first (fmlookup ?kk nid) ?p)
     else merge_cursors ?p (map (\<lambda>ordered. \<lparr>c_ids = ordered, c_pos = 0\<rparr>)
            (filter (\<lambda>ordered. length ordered > 0)
               (map (\<lambda>kind. edge_prefix ?bk nid kind ?p) (unique_edge_kinds kinds)))) []"
  have ids: "?ids = map e_id (take (nat ?p) ?E)"
    using all_kinds_ids [OF s k p] merged_ids [OF s k] by simp
  have "set ?E \<subseteq> fmran' (edges m)" using set_edges_at [of endp m nid] by auto
  note fin = bounded_finish [OF lim _ k this ids]
  have len: "int (length ?E) \<le> max_int" using size by auto
  show ?thesis
    unfolding incident_bounded_def Let_def using ok(2) lim(1) fin(1) [OF len] fin(2) [OF len]
    by simp
qed


lemma nodes_found:
  assumes "keyed n_id (nodes m)" "fset side = {k. (nm, k) \<in> pairs f (nodes m)}"
  shows "sort_key n_id (hits (nodes m) (sorted_list_of_fset side)) =
     filter (\<lambda>n. f n = nm) (map_values (nodes m))"
proof (rule sort_key_eq_values [OF assms(1)])
  show "distinct (map n_id (hits (nodes m) (sorted_list_of_fset side)))"
    unfolding map_hits [OF assms(1)] by (simp add: sorted_list_of_fset.rep_eq)
  show "set (hits (nodes m) (sorted_list_of_fset side)) = {n \<in> fmran' (nodes m). f n = nm}"
    using assms(2) by (auto simp: set_hits pairs_iff elim!: fmran'E intro: fmran'I)
qed

lemma unique_loop_append: "unique_loop seen (a @ b) ks = a @ unique_loop seen b ks"
  by (induction ks arbitrary: seen b) simp_all

lemma nodes_by_id_loop_eq: "nodes_by_id_loop ns seen is = hits ns (unique_loop seen [] is)"
proof (induction "is" arbitrary: seen)
  case (Cons i "is")
  then show ?case using unique_loop_append [of "finsert i seen" "[i]" "[]" "is"] by (simp add: hits_def)
qed simp

subsection \<open>Properties\<close>

text \<open>
  C25: the adjacency indexes answer exactly the question a scan of all edges would:
  incoming and outgoing reads are the kind-filtered edges at that endpoint, in canonical order.
\<close>

theorem incident_reads_are_scans:
  assumes "store_ok m" "mem_edges lower None m any_query = Inr all"
  shows "mem_incoming None m nid kinds =
           Inr (filter (\<lambda>e. e_to e = nid \<and> (kinds = [] \<or> e_kind e \<in> set kinds)) all) \<and>
         mem_outgoing None m nid kinds =
           Inr (filter (\<lambda>e. e_from e = nid \<and> (kinds = [] \<or> e_kind e \<in> set kinds)) all) \<and>
         ssorted (map e_id all)"
proof -
  have opn: "\<not> closed m" using assms(2) by (auto simp: mem_edges_def)
  have k: "keyed e_id (edges m)" using assms(1) by (simp add: store_ok_def edges_indexed_def)
  have all: "all = map_values (edges m)" using mem_edges_any [OF opn k] assms(2) by simp
  then show ?thesis
    using incoming_eq [OF assms(1) opn] outgoing_eq [OF assms(1) opn] ssorted_values [OF k]
    by (simp add: edges_at_def kind_matches_iff)
qed

lemma mem_nodes_any:
  "\<not> closed m \<Longrightarrow> keyed n_id (nodes m) \<Longrightarrow> mem_nodes lower None m any_query = Inr (map_values (nodes m))"
  by (simp add: mem_nodes_def any_query_def sort_key_id_if_sorted
      strict_sorted_imp_sorted [OF ssorted_values])

text \<open>
  the symbol and path lookups and the batch hydration return exactly the matching
  nodes of a full listing, each once and in canonical order, whatever the repetitions and
  unknown identities in the request.
\<close>

theorem node_lookups_are_scans:
  assumes "store_ok m" "mem_nodes lower None m any_query = Inr all"
  shows "mem_qualified_name None m name = Inr (filter (\<lambda>n. n_qname n = name) all) \<and>
         mem_source_path None m name = Inr (filter (\<lambda>n. n_path n = name) all) \<and>
         mem_nodes_by_id None m is = Inr (filter (\<lambda>n. n_id n \<in> set is) all) \<and>
         ssorted (map n_id all)"
proof -
  have opn: "\<not> closed m" using assms(2) by (auto simp: mem_nodes_def)
  have ix: "keyed n_id (nodes m)" "set_index_rel (by_qn m) = pairs n_qname (nodes m)"
    "set_index_rel (by_path m) = pairs n_path (nodes m)"
    using assms(1) by (simp_all add: store_ok_def nodes_indexed_def)
  have all: "all = map_values (nodes m)" using mem_nodes_any [OF opn ix(1)] assms(2) by simp
  let ?U = "unique_loop {||} [] is"
  have "distinct (map n_id (hits (nodes m) ?U))"
    unfolding map_hits [OF ix(1)] by (simp add: distinct_unique_loop)
  moreover have "set (hits (nodes m) ?U) = {n \<in> fmran' (nodes m). n_id n \<in> set is}"
    using keyedD [OF ix(1)]
    by (auto simp: set_hits set_unique_loop elim!: fmran'E intro: fmran'I)
  ultimately have "sort_key n_id (hits (nodes m) ?U) = filter (\<lambda>n. n_id n \<in> set is) all"
    unfolding all by (rule sort_key_eq_values [OF ix(1)])
  then show ?thesis
    using nodes_found [OF ix(1) fset_set_at [OF ix(2)]] nodes_found [OF ix(1) fset_set_at [OF ix(3)]]
      opn all ssorted_values [OF ix(1)]
    by (simp add: mem_qualified_name_def mem_source_path_def lookup_nodes_def mem_nodes_by_id_def
        nodes_by_id_loop_eq hits_def)
qed

text \<open>
  C3: a bounded read with explicit kinds returns the first \<open>limit\<close> edges of the
  unbounded read of the same kinds, and reports truncation exactly when there are more,
  whatever the duplicates among the kinds; the merge of the per-kind prefixes loses nothing.
\<close>

theorem bounded_reads_are_prefixes:
  assumes "store_ok m" "0 < limit" "limit \<le> max_int" "kinds \<noteq> []"
    and "mem_incoming None m nid kinds = Inr ins" "int (length ins) \<le> max_int"
    and "mem_outgoing None m nid kinds = Inr outs" "int (length outs) \<le> max_int"
  shows "mem_incoming_bounded None m nid limit kinds = Inr (take (nat limit) ins, int (length ins) > limit) \<and>
         mem_outgoing_bounded None m nid limit kinds = Inr (take (nat limit) outs, int (length outs) > limit)"
proof -
  have opn: "\<not> closed m" using assms(5) by (auto simp: mem_incoming_def incident_def)
  have e: "ins = edges_at e_to m nid kinds" "outs = edges_at e_from m nid kinds"
    using incoming_eq [OF assms(1) opn] outgoing_eq [OF assms(1) opn] assms(5,7) by simp_all
  show ?thesis
    unfolding mem_incoming_bounded_def mem_outgoing_bounded_def
    using incident_bounded_eq [OF assms(1) opn assms(2,3) assms(6) [unfolded e], of True]
      incident_bounded_eq [OF assms(1) opn assms(2,3) assms(8) [unfolded e], of False] assms(4) e
    by (simp add: Let_def)
qed

text \<open>
  with no kind given the order is by kind and then identity, and the answer is
  the first \<open>limit\<close> edges in that order with an exact truncation flag, although only the
  prefixes of the first kinds are touched.
\<close>

theorem bounded_all_kinds:
  assumes "store_ok m" "0 < limit" "limit \<le> max_int"
    and "mem_incoming None m nid [] = Inr ins" "int (length ins) \<le> max_int"
    and "mem_outgoing None m nid [] = Inr outs" "int (length outs) \<le> max_int"
  shows "mem_incoming_bounded None m nid limit [] =
           Inr (take (nat limit) (sort_key (\<lambda>e. (e_kind e, e_id e)) ins), int (length ins) > limit) \<and>
         mem_outgoing_bounded None m nid limit [] =
           Inr (take (nat limit) (sort_key (\<lambda>e. (e_kind e, e_id e)) outs), int (length outs) > limit)"
proof -
  have opn: "\<not> closed m" using assms(4) by (auto simp: mem_incoming_def incident_def)
  have e: "ins = edges_at e_to m nid []" "outs = edges_at e_from m nid []"
    using incoming_eq [OF assms(1) opn] outgoing_eq [OF assms(1) opn] assms(4,6) by simp_all
  have kt: "(\<lambda>e. (e_kind e, e_id e)) = kind_then_id" by (rule ext) (simp add: kind_then_id_def)
  show ?thesis
    unfolding mem_incoming_bounded_def mem_outgoing_bounded_def kt
    using incident_bounded_eq [OF assms(1) opn assms(2,3) assms(5) [unfolded e], of True]
      incident_bounded_eq [OF assms(1) opn assms(2,3) assms(7) [unfolded e], of False] e
    by (simp add: Let_def)
qed


subsection \<open>Witnesses\<close>

lemma small_values:
  "map_values (edges (small_store c)) = [call_edge c]"
  "set (map_values (nodes (small_store c))) = {fn_node ''f'', fn_node ''g''}"
proof -
  have "fmdom (edges (small_store c)) = {|e_id (call_edge c)|}" by (simp add: small_store_maps)
  then show "map_values (edges (small_store c)) = [call_edge c]"
    by (simp add: map_values_def sorted_list_of_fset.rep_eq) (simp add: small_store_maps)
qed (simp add: set_map_values small_ran)

lemma small_edges: "mem_edges id None (small_store c) any_query = Inr [call_edge c]"
  using mem_edges_any [OF small_store_maps(3)] store_ok_keyed(2) [OF small_store_ok] small_values(1)
  by simp

theorem incident_reads_are_scans_witness:
  "mem_incoming None (small_store (Finite 1)) (n_id (fn_node ''g'')) [''calls''] = Inr [call_edge (Finite 1)] \<and>
   mem_outgoing None (small_store (Finite 1)) (n_id (fn_node ''g'')) [''calls''] = Inr []"
  using incident_reads_are_scans [OF small_store_ok small_edges, of "Finite 1" "n_id (fn_node ''g'')" "[''calls'']"]
    fn_ids by (simp add: call_edge_def)

theorem node_lookups_are_scans_witness:
  "\<exists>all. mem_qualified_name None (small_store (Finite 1)) ''f'' = Inr (filter (\<lambda>n. n_qname n = ''f'') all) \<and>
     set all = {fn_node ''f'', fn_node ''g''}"
  using node_lookups_are_scans [OF small_store_ok
      mem_nodes_any [OF small_store_maps(3) store_ok_keyed(1) [OF small_store_ok]]] small_values(2)
  by metis

lemma small_incident:
  "mem_incoming None (small_store c) (n_id (fn_node ''g'')) kinds =
     Inr (if kind_matches ''calls'' kinds then [call_edge c] else [])"
  "mem_outgoing None (small_store c) (n_id (fn_node ''g'')) kinds = Inr []"
  using fn_ids incoming_eq [OF small_store_ok small_store_maps(3)] outgoing_eq [OF small_store_ok small_store_maps(3)]
  by (simp_all add: edges_at_def small_values) (simp_all add: call_edge_def)

theorem bounded_reads_are_prefixes_witness:
  "mem_incoming_bounded None (small_store (Finite 1)) (n_id (fn_node ''g'')) 1 [''calls'', ''calls''] =
     Inr ([call_edge (Finite 1)], False)"
  using bounded_reads_are_prefixes [OF small_store_ok _ _ _ small_incident(1) _ small_incident(2),
      of 1 "[''calls'', ''calls'']" "Finite 1"]
  by (simp add: max_int_def kind_matches_iff)

theorem bounded_all_kinds_witness:
  "mem_incoming_bounded None (small_store (Finite 1)) (n_id (fn_node ''g'')) 1 [] =
     Inr ([call_edge (Finite 1)], False)"
  using bounded_all_kinds [OF small_store_ok _ _ small_incident(1) _ small_incident(2), of 1 "Finite 1"]
  by (simp add: max_int_def kind_matches_iff)

end
