(* ===== verification/Aggregates.thy ===== *)
theory Aggregates
  imports MemReads
begin

text \<open>
  The aggregate reads of the in-memory backend: \<open>BriefStats\<close> (\<open>brief_aggregate.go\<close>),
  \<open>TrustStats\<close> (\<open>trust_aggregate.go\<close>) and the degree-stratified sample
  (\<open>degree_sample.go\<close>).  A Go counter map is a finite map read with default 0.  The two
  statistics poll the context again after every 1024 scanned entries, so their context is the
  sequence of answers it gives: the first at entry, the next ones at the polls.
\<close>

type_synonym 'k counts = "('k, int) fmap"

definition count_at :: "'k counts \<Rightarrow> 'k \<Rightarrow> int" where
  "count_at c k = (case fmlookup c k of None \<Rightarrow> 0 | Some n \<Rightarrow> n)"

definition bump :: "'k \<Rightarrow> 'k counts \<Rightarrow> 'k counts" where
  "bump k c = fmupd k (count_at c k + 1) c"

text \<open>The poll of the context in a scan loop, given the number of entries scanned so far.\<close>

definition poll :: "(nat \<Rightarrow> store_error option) \<Rightarrow> nat \<Rightarrow> store_error option" where
  "poll ctx scanned = (if scanned mod 1024 = 0 then ctx (scanned div 1024) else None)"

fun scan_polled ::
  "(nat \<Rightarrow> store_error option) \<Rightarrow> ('s \<Rightarrow> 'a \<Rightarrow> 's) \<Rightarrow> 's \<Rightarrow> nat \<Rightarrow> 'a list \<Rightarrow> store_error + 's \<times> nat" where
  "scan_polled ctx f s scanned [] = Inr (s, scanned)"
| "scan_polled ctx f s scanned (x # xs) =
     (let s' = f s x; scanned' = scanned + 1
      in case poll ctx scanned' of
           Some err \<Rightarrow> Inl err
         | None \<Rightarrow> scan_polled ctx f s' scanned' xs)"

subsection \<open>\<open>BriefStats\<close>\<close>

record file_counts =
  fc_symbols :: int
  fc_endpoints :: int

record brief_file_stats =
  bf_path :: string
  bf_symbols :: int
  bf_endpoints :: int

record brief_symbol_stats =
  bs_node :: node
  bs_inbound :: int

record brief_stats =
  b_total_nodes :: int
  b_total_edges :: int
  b_tier_counts :: "string counts"
  b_files :: "brief_file_stats list"
  b_top_inbound :: "brief_symbol_stats list"

definition file_at :: "(string, file_counts) fmap \<Rightarrow> string \<Rightarrow> file_counts" where
  "file_at fs p = (case fmlookup fs p of None \<Rightarrow> \<lparr>fc_symbols = 0, fc_endpoints = 0\<rparr> | Some c \<Rightarrow> c)"

definition brief_node :: "(string, file_counts) fmap \<Rightarrow> node \<Rightarrow> (string, file_counts) fmap" where
  "brief_node fs n =
     (if n_path n \<noteq> []
      then let fc = file_at fs (n_path n) in fmupd (n_path n) (fc\<lparr>fc_symbols := fc_symbols fc + 1\<rparr>) fs
      else fs)"

definition brief_endpoint ::
  "(node_id, node) fmap \<Rightarrow> (string, file_counts) fmap \<Rightarrow> node_id \<Rightarrow> (string, file_counts) fmap" where
  "brief_endpoint ns fs nid =
     (case fmlookup ns nid of
        None \<Rightarrow> fs
      | Some n \<Rightarrow>
          if n_path n \<noteq> []
          then let fc = file_at fs (n_path n)
               in fmupd (n_path n) (fc\<lparr>fc_endpoints := fc_endpoints fc + 1\<rparr>) fs
          else fs)"

definition brief_edge ::
  "(node_id, node) fmap \<Rightarrow> string counts \<times> node_id counts \<times> (string, file_counts) fmap \<Rightarrow> edge
     \<Rightarrow> string counts \<times> node_id counts \<times> (string, file_counts) fmap" where
  "brief_edge ns st e =
     (case st of (tiers, inbound, fs) \<Rightarrow>
        (bump (e_tier e) tiers, bump (e_to e) inbound,
         brief_endpoint ns (brief_endpoint ns fs (e_from e)) (e_to e)))"

definition top_inbound :: "(node_id, node) fmap \<Rightarrow> node_id counts \<Rightarrow> int \<Rightarrow> brief_symbol_stats list" where
  "top_inbound ns inbound top_symbols =
     (let out = sort_key (\<lambda>s. (- bs_inbound s, n_id (bs_node s)))
            (concat (map (\<lambda>i. case fmlookup ns i of
                                None \<Rightarrow> []
                              | Some n \<Rightarrow> [\<lparr>bs_node = n, bs_inbound = count_at inbound i\<rparr>])
                       (sorted_list_of_fset (fmdom inbound))))
      in if int (length out) > top_symbols then take (nat top_symbols) out else out)"

definition mem_brief_stats ::
  "(nat \<Rightarrow> store_error option) \<Rightarrow> mem_store \<Rightarrow> int \<Rightarrow> store_error + brief_stats" where
  "mem_brief_stats ctx m top_symbols =
     (case ctx 0 of
        Some err \<Rightarrow> Inl err
      | None \<Rightarrow>
          if closed m then Inl ErrClosed
          else
            (case scan_polled ctx brief_node fmempty 0 (map_values (nodes m)) of
               Inl err \<Rightarrow> Inl err
             | Inr (fs, scanned) \<Rightarrow>
                 (case scan_polled ctx (brief_edge (nodes m)) (fmempty, fmempty, fs) scanned
                         (map_values (edges m)) of
                    Inl err \<Rightarrow> Inl err
                  | Inr ((tiers, inbound, fs'), _) \<Rightarrow>
                      Inr \<lparr>b_total_nodes = int (fcard (fmdom (nodes m))),
                           b_total_edges = int (fcard (fmdom (edges m))),
                           b_tier_counts = tiers,
                           b_files = map (\<lambda>p. \<lparr>bf_path = p, bf_symbols = fc_symbols (file_at fs' p),
                                                bf_endpoints = fc_endpoints (file_at fs' p)\<rparr>)
                                       (sort (sorted_list_of_fset (fmdom fs'))),
                           b_top_inbound = (if top_symbols > 0
                                            then top_inbound (nodes m) inbound top_symbols
                                            else [])\<rparr>)))"

subsection \<open>\<open>TrustStats\<close>\<close>

definition kind_external :: string where
  "kind_external = ''external''"

record external_boundary =
  eb_qname :: string
  eb_incident :: int

record trust_stats =
  ts_nodes_total :: int
  ts_edges_total :: int
  ts_by_kind :: "string counts"
  ts_by_tier :: "string counts"
  ts_external_nodes :: int
  ts_external_edges :: int
  ts_top_boundaries :: "external_boundary list"

text \<open>The loops' variables: the external nodes and their names, then the edge counters.\<close>

definition trust_node :: "int \<times> (node_id, string) fmap \<Rightarrow> node \<Rightarrow> int \<times> (node_id, string) fmap" where
  "trust_node st n =
     (case st of (ext, ext_qn) \<Rightarrow>
        if n_kind n = kind_external then (ext + 1, fmupd (n_id n) (n_qname n) ext_qn)
        else (ext, ext_qn))"

record trust_counters =
  tc_kinds :: "string counts"
  tc_tiers :: "string counts"
  tc_external :: int
  tc_incident :: "string counts"

definition trust_edge :: "(node_id, string) fmap \<Rightarrow> trust_counters \<Rightarrow> edge \<Rightarrow> trust_counters" where
  "trust_edge ext_qn c e =
     (let c' = c\<lparr>tc_kinds := bump (e_kind e) (tc_kinds c), tc_tiers := bump (e_tier e) (tc_tiers c)\<rparr>
      in case fmlookup ext_qn (e_to e) of
           None \<Rightarrow> c'
         | Some qn \<Rightarrow> c'\<lparr>tc_external := tc_external c' + 1, tc_incident := bump qn (tc_incident c')\<rparr>)"

definition top_boundaries :: "string counts \<Rightarrow> int \<Rightarrow> external_boundary list" where
  "top_boundaries incident_counts top_n =
     (if top_n > 0 \<and> incident_counts \<noteq> fmempty then
        let bs = sort_key (\<lambda>b. (- eb_incident b, eb_qname b))
              (map (\<lambda>qn. \<lparr>eb_qname = qn, eb_incident = count_at incident_counts qn\<rparr>)
                 (sorted_list_of_fset (fmdom incident_counts)))
        in if int (length bs) > top_n then take (nat top_n) bs else bs
      else [])"

definition mem_trust_stats ::
  "(nat \<Rightarrow> store_error option) \<Rightarrow> mem_store \<Rightarrow> int \<Rightarrow> store_error + trust_stats" where
  "mem_trust_stats ctx m top_n =
     (case ctx 0 of
        Some err \<Rightarrow> Inl err
      | None \<Rightarrow>
          if closed m then Inl ErrClosed
          else
            (case scan_polled ctx trust_node (0, fmempty) 0 (map_values (nodes m)) of
               Inl err \<Rightarrow> Inl err
             | Inr ((ext, ext_qn), scanned) \<Rightarrow>
                 (case scan_polled ctx (trust_edge ext_qn)
                         \<lparr>tc_kinds = fmempty, tc_tiers = fmempty, tc_external = 0, tc_incident = fmempty\<rparr>
                         scanned (map_values (edges m)) of
                    Inl err \<Rightarrow> Inl err
                  | Inr (c, _) \<Rightarrow>
                      Inr \<lparr>ts_nodes_total = int (fcard (fmdom (nodes m))),
                           ts_edges_total = int (fcard (fmdom (edges m))),
                           ts_by_kind = tc_kinds c, ts_by_tier = tc_tiers c,
                           ts_external_nodes = ext, ts_external_edges = tc_external c,
                           ts_top_boundaries = top_boundaries (tc_incident c) top_n\<rparr>)))"

subsection \<open>The degree-stratified sample\<close>

record degree_candidate =
  dc_node :: node
  dc_degree :: int

text \<open>The quantile loop: one candidate per bucket, the first of each.\<close>

fun bucket_loop :: "int \<Rightarrow> int \<Rightarrow> int \<Rightarrow> int \<Rightarrow> degree_candidate list \<Rightarrow> node list" where
  "bucket_loop n max_symbols i last_bucket [] = []"
| "bucket_loop n max_symbols i last_bucket (c # cs) =
     (let bucket = i * max_symbols div n
      in if bucket = last_bucket then bucket_loop n max_symbols (i + 1) last_bucket cs
         else dc_node c # bucket_loop n max_symbols (i + 1) bucket cs)"

definition stratify_degree_candidates :: "degree_candidate list \<Rightarrow> int \<Rightarrow> node list" where
  "stratify_degree_candidates candidates max_symbols =
     (if candidates = [] \<or> max_symbols \<le> 0 then []
      else
        let cs = sort_key (\<lambda>c. (- dc_degree c, n_id (dc_node c))) candidates
        in if int (length cs) \<le> max_symbols then map dc_node cs
           else bucket_loop (int (length cs)) max_symbols 0 (-1) cs)"

definition edge_degrees :: "edge list \<Rightarrow> node_id counts" where
  "edge_degrees es = foldl (\<lambda>d e. bump (e_to e) (bump (e_from e) d)) fmempty es"

definition mem_degree_stratified_symbols ::
  "store_error option \<Rightarrow> mem_store \<Rightarrow> int \<Rightarrow> store_error + node list" where
  "mem_degree_stratified_symbols ctx m max_symbols =
     (case ctx of
        Some err \<Rightarrow> Inl err
      | None \<Rightarrow>
          if max_symbols \<le> 0 then Inr []
          else if closed m then Inl ErrClosed
          else
            let degree = edge_degrees (map_values (edges m));
                candidates =
                  map (\<lambda>n. \<lparr>dc_node = n, dc_degree = count_at degree (n_id n)\<rparr>)
                    (filter (\<lambda>n. n_kind n = ''function'' \<or> n_kind n = ''method'') (map_values (nodes m)))
            in Inr (stratify_degree_candidates candidates max_symbols))"

subsection \<open>Counters\<close>

lemma scan_polled_ok:
  "\<forall>k. ctx k = None \<Longrightarrow> scan_polled ctx f s n xs = Inr (foldl f s xs, n + length xs)"
  by (induction xs arbitrary: s n) (simp_all add: poll_def Let_def)

lemma count_at_empty [simp]: "count_at fmempty k = 0"
  by (simp add: count_at_def)

lemma count_at_bump [simp]: "count_at (bump j c) k = count_at c k + (if k = j then 1 else 0)"
  by (simp add: count_at_def bump_def)

definition tally :: "('a \<Rightarrow> bool) \<Rightarrow> 'a list \<Rightarrow> int" where
  "tally P xs = int (length (filter P xs))"

lemma tally_simps [simp]:
  "tally P [] = 0" "tally P (x # xs) = (if P x then 1 else 0) + tally P xs"
  by (simp_all add: tally_def)

lemma count_at_foldl_bump:
  "count_at (foldl (\<lambda>c x. bump (g x) c) c xs) k = count_at c k + tally (\<lambda>x. g x = k) xs"
  by (induction xs arbitrary: c) auto

lemma fmdom_bump [simp]: "fmdom (bump k c) = finsert k (fmdom c)"
  by (simp add: bump_def)

lemma fmdom_foldl_bump: "fset (fmdom (foldl (\<lambda>c x. bump (g x) c) c xs)) = g ` set xs \<union> fset (fmdom c)"
  by (induction xs arbitrary: c) auto

subsection \<open>What \<open>TrustStats\<close> counts\<close>

lemma trust_nodes_eq:
  "foldl trust_node (ext, q) ns =
     (ext + tally (\<lambda>n. n_kind n = kind_external) ns,
      foldl (\<lambda>q n. fmupd (n_id n) (n_qname n) q) q (filter (\<lambda>n. n_kind n = kind_external) ns))"
  by (induction ns arbitrary: ext q) (auto simp: trust_node_def)

lemma trust_edges_sel:
  "tc_kinds (foldl (trust_edge q) c es) = foldl (\<lambda>c e. bump (e_kind e) c) (tc_kinds c) es"
  "tc_tiers (foldl (trust_edge q) c es) = foldl (\<lambda>c e. bump (e_tier e) c) (tc_tiers c) es"
  "tc_external (foldl (trust_edge q) c es) = tc_external c + tally (\<lambda>e. fmlookup q (e_to e) \<noteq> None) es"
  "count_at (tc_incident (foldl (trust_edge q) c es)) qn =
     count_at (tc_incident c) qn + tally (\<lambda>e. fmlookup q (e_to e) = Some qn) es"
  by (induction es arbitrary: c) (auto simp: trust_edge_def Let_def split: option.split)

lemma lookup_names:
  "distinct (map n_id ns) \<Longrightarrow>
     fmlookup (foldl (\<lambda>q n. fmupd (n_id n) (n_qname n) q) q ns) i =
       (case find (\<lambda>n. n_id n = i) ns of Some n \<Rightarrow> Some (n_qname n) | None \<Rightarrow> fmlookup q i)"
proof (induction ns arbitrary: q)
  case (Cons n ns)
  have "\<forall>y \<in> set ns. n_id y \<noteq> n_id n" using Cons.prems by simp (metis imageI)
  then have "find (\<lambda>y. n_id y = n_id n) ns = None" by (simp add: find_None_iff)
  then show ?case using Cons by (auto split: option.splits)
qed simp

lemma external_names:
  assumes "keyed n_id (nodes m)"
  shows "fmlookup (foldl (\<lambda>q n. fmupd (n_id n) (n_qname n) q) fmempty
           (filter (\<lambda>n. n_kind n = kind_external) (map_values (nodes m)))) i = Some qn \<longleftrightarrow>
         (\<exists>n. fmlookup (nodes m) i = Some n \<and> n_kind n = kind_external \<and> n_qname n = qn)"
proof -
  let ?ns = "filter (\<lambda>n. n_kind n = kind_external) (map_values (nodes m))"
  have d: "distinct (map n_id ?ns)" by (rule distinct_map_filter [OF distinct_map_values [OF assms]])
  have mem: "n \<in> set ?ns \<and> n_id n = i \<longleftrightarrow> fmlookup (nodes m) i = Some n \<and> n_kind n = kind_external" for n
    using keyedD [OF assms] by (auto simp: set_map_values intro: fmran'I elim!: fmran'E)
  show ?thesis
  proof (cases "find (\<lambda>n. n_id n = i) ?ns")
    case None
    then have "\<forall>n \<in> set ?ns. n_id n \<noteq> i" by (simp add: find_None_iff)
    then show ?thesis using None mem unfolding lookup_names [OF d] by auto
  next
    case (Some n)
    then obtain j where j: "j < length ?ns" "n = ?ns ! j" "n_id (?ns ! j) = i"
      unfolding find_Some_iff by blast
    have "n \<in> set ?ns" unfolding j(2) by (rule nth_mem [OF j(1)])
    then have "n \<in> set ?ns \<and> n_id n = i" using j(2,3) by blast
    then have "fmlookup (nodes m) i = Some n \<and> n_kind n = kind_external" by (simp only: mem)
    then show ?thesis unfolding lookup_names [OF d] Some by auto
  qed
qed

text \<open>The external node at the far end of an edge.\<close>

definition to_external :: "mem_store \<Rightarrow> edge \<Rightarrow> bool" where
  "to_external m e \<longleftrightarrow> (\<exists>n. fmlookup (nodes m) (e_to e) = Some n \<and> n_kind n = kind_external)"

definition counted :: "mem_store \<Rightarrow> trust_counters" where
  "counted m = foldl (trust_edge (foldl (\<lambda>q n. fmupd (n_id n) (n_qname n) q) fmempty
       (filter (\<lambda>n. n_kind n = kind_external) (map_values (nodes m)))))
     \<lparr>tc_kinds = fmempty, tc_tiers = fmempty, tc_external = 0, tc_incident = fmempty\<rparr> (map_values (edges m))"

lemma mem_trust_stats_eq:
  assumes "\<not> closed m" "\<forall>k. ctx k = None"
  shows "mem_trust_stats ctx m top_n =
      Inr \<lparr>ts_nodes_total = int (length (map_values (nodes m))), ts_edges_total = int (length (map_values (edges m))),
           ts_by_kind = foldl (\<lambda>c e. bump (e_kind e) c) fmempty (map_values (edges m)),
           ts_by_tier = foldl (\<lambda>c e. bump (e_tier e) c) fmempty (map_values (edges m)),
           ts_external_nodes = tally (\<lambda>n. n_kind n = kind_external) (map_values (nodes m)),
           ts_external_edges = tc_external (counted m),
           ts_top_boundaries = top_boundaries (tc_incident (counted m)) top_n\<rparr>"
proof -
  have len: "int (length (map_values mp)) = int (fcard (fmdom mp))" for mp :: "('k::linorder, 'v) fmap"
    by (simp add: map_values_def sorted_list_of_fset.rep_eq fcard.rep_eq)
  show ?thesis
    using assms by (simp add: mem_trust_stats_def scan_polled_ok trust_nodes_eq counted_def trust_edges_sel len)
qed

lemma counted_external:
  assumes "keyed n_id (nodes m)"
  shows "tc_external (counted m) = tally (to_external m) (map_values (edges m))"
proof -
  have ext: "(fmlookup (foldl (\<lambda>q n. fmupd (n_id n) (n_qname n) q) fmempty
       (filter (\<lambda>n. n_kind n = kind_external) (map_values (nodes m)))) (e_to e) \<noteq> None) = to_external m e" for e
    using external_names [OF assms, of "e_to e"] by (auto simp: to_external_def)
  show ?thesis unfolding counted_def trust_edges_sel(3) ext by simp
qed

text \<open>
  on an uncancelled call the trust aggregate counts every node and edge once: the
  per-kind and per-tier counters are the numbers of stored edges, and the external figures are
  the external nodes and the edges that end in one.
\<close>

theorem trust_stats_counts:
  assumes "store_ok m" "\<not> closed m" "\<forall>k. ctx k = None"
  shows "\<exists>s. mem_trust_stats ctx m top_n = Inr s \<and>
    ts_nodes_total s = int (length (map_values (nodes m))) \<and>
    ts_edges_total s = int (length (map_values (edges m))) \<and>
    (\<forall>k. count_at (ts_by_kind s) k = int (length (filter (\<lambda>e. e_kind e = k) (map_values (edges m))))) \<and>
    (\<forall>t. count_at (ts_by_tier s) t = int (length (filter (\<lambda>e. e_tier e = t) (map_values (edges m))))) \<and>
    ts_external_nodes s = int (length (filter (\<lambda>n. n_kind n = kind_external) (map_values (nodes m)))) \<and>
    ts_external_edges s = int (length (filter (to_external m) (map_values (edges m)))) \<and>
    int (length (ts_top_boundaries s)) \<le> max 0 top_n"
proof -
  have top: "int (length (top_boundaries c top_n)) \<le> max 0 top_n" for c
    by (simp add: top_boundaries_def Let_def)
  show ?thesis
    unfolding mem_trust_stats_eq [OF assms(2,3)]
    by (simp add: counted_external [OF store_ok_keyed(1) [OF assms(1)]] count_at_foldl_bump top tally_def)
qed

subsection \<open>What \<open>BriefStats\<close> counts\<close>

definition at_path :: "mem_store \<Rightarrow> string \<Rightarrow> node_id \<Rightarrow> bool" where
  "at_path m p i \<longleftrightarrow> (\<exists>n. fmlookup (nodes m) i = Some n \<and> n_path n = p)"

lemma file_at_simps [simp]:
  "file_at fmempty p = \<lparr>fc_symbols = 0, fc_endpoints = 0\<rparr>"
  "file_at (fmupd q c fs) p = (if p = q then c else file_at fs p)"
  by (simp_all add: file_at_def)

lemma brief_nodes_file:
  "p \<noteq> [] \<Longrightarrow> fc_symbols (file_at (foldl brief_node fs ns) p) =
     fc_symbols (file_at fs p) + tally (\<lambda>n. n_path n = p) ns"
  "fc_endpoints (file_at (foldl brief_node fs ns) p) = fc_endpoints (file_at fs p)"
  by (induction ns arbitrary: fs) (auto simp: brief_node_def Let_def)

lemma brief_endpoint_file:
  "fc_symbols (file_at (brief_endpoint (nodes m) fs i) p) = fc_symbols (file_at fs p)"
  "p \<noteq> [] \<Longrightarrow> fc_endpoints (file_at (brief_endpoint (nodes m) fs i) p) =
     fc_endpoints (file_at fs p) + (if at_path m p i then 1 else 0)"
  by (auto simp: brief_endpoint_def Let_def at_path_def split: option.split)

definition edges_files where
  "edges_files ns = foldl (\<lambda>fs e. brief_endpoint ns (brief_endpoint ns fs (e_from e)) (e_to e))"

lemma brief_edges_eq:
  "foldl (brief_edge ns) (tiers, inbound, fs) es =
     (foldl (\<lambda>c e. bump (e_tier e) c) tiers es, foldl (\<lambda>c e. bump (e_to e) c) inbound es, edges_files ns fs es)"
  by (induction es arbitrary: tiers inbound fs) (simp_all add: brief_edge_def edges_files_def)

lemma edges_files_file:
  "fc_symbols (file_at (edges_files (nodes m) fs es) p) = fc_symbols (file_at fs p)"
  "p \<noteq> [] \<Longrightarrow> fc_endpoints (file_at (edges_files (nodes m) fs es) p) =
     fc_endpoints (file_at fs p) + tally (\<lambda>e. at_path m p (e_from e)) es + tally (\<lambda>e. at_path m p (e_to e)) es"
  by (induction es arbitrary: fs) (auto simp: edges_files_def brief_endpoint_file)

lemma brief_nodes_dom: "fset (fmdom (foldl brief_node fs ns)) = n_path ` set ns - {[]} \<union> fset (fmdom fs)"
  by (induction ns arbitrary: fs) (auto simp: brief_node_def Let_def)

lemma edges_files_dom:
  assumes "\<forall>i n. fmlookup (nodes m) i = Some n \<longrightarrow> n_path n = [] \<or> n_path n |\<in>| fmdom fs"
  shows "fmdom (edges_files (nodes m) fs es) = fmdom fs"
proof -
  have one: "fmdom (brief_endpoint (nodes m) fs' i) = fmdom fs'" if "fmdom fs' = fmdom fs" for fs' i
    using assms that by (auto simp: brief_endpoint_def Let_def split: option.split)
  have "fmdom (edges_files (nodes m) fs' es) = fmdom fs'" if "fmdom fs' = fmdom fs" for fs'
    using that by (induction es arbitrary: fs') (simp_all add: edges_files_def one)
  then show ?thesis by simp
qed

text \<open>
  on an uncancelled call the brief lists exactly the non-empty source paths of
  the stored nodes, in ascending order; each file carries the number of its symbols and of the
  edge endpoints that lie in it (a same-file edge counts twice).
\<close>

theorem brief_stats_counts:
  assumes "store_ok m" "\<not> closed m" "\<forall>k. ctx k = None"
  shows "\<exists>s. mem_brief_stats ctx m top_symbols = Inr s \<and>
    map bf_path (b_files s) = sorted_list_of_set (n_path ` set (map_values (nodes m)) - {[]}) \<and>
    (\<forall>f \<in> set (b_files s).
       bf_symbols f = int (length (filter (\<lambda>n. n_path n = bf_path f) (map_values (nodes m)))) \<and>
       bf_endpoints f = int (length (filter (\<lambda>e. at_path m (bf_path f) (e_from e)) (map_values (edges m)))) +
                        int (length (filter (\<lambda>e. at_path m (bf_path f) (e_to e)) (map_values (edges m))))) \<and>
    (\<forall>t. count_at (b_tier_counts s) t = int (length (filter (\<lambda>e. e_tier e = t) (map_values (edges m)))))"
proof -
  let ?fs = "foldl brief_node fmempty (map_values (nodes m))"
  let ?fs' = "edges_files (nodes m) ?fs (map_values (edges m))"
  let ?file = "\<lambda>p. \<lparr>bf_path = p, bf_symbols = fc_symbols (file_at ?fs' p), bf_endpoints = fc_endpoints (file_at ?fs' p)\<rparr>"
  have dom: "fset (fmdom ?fs) = n_path ` set (map_values (nodes m)) - {[]}" by (simp add: brief_nodes_dom)
  have "\<forall>i n. fmlookup (nodes m) i = Some n \<longrightarrow> n_path n = [] \<or> n_path n |\<in>| fmdom ?fs"
  proof (intro allI impI)
    fix i n
    assume "fmlookup (nodes m) i = Some n"
    then have "n \<in> set (map_values (nodes m))" unfolding set_map_values by (rule fmran'I)
    then show "n_path n = [] \<or> n_path n |\<in>| fmdom ?fs" using dom by blast
  qed
  then have dom': "fmdom ?fs' = fmdom ?fs" by (rule edges_files_dom)
  let ?ps = "sort (sorted_list_of_fset (fmdom ?fs'))"
  have ps: "?ps = sorted_list_of_set (n_path ` set (map_values (nodes m)) - {[]})"
    unfolding dom' sorted_list_of_fset.rep_eq dom by (simp add: sort_key_id_if_sorted)
  have res: "\<exists>top. mem_brief_stats ctx m top_symbols =
      Inr \<lparr>b_total_nodes = int (fcard (fmdom (nodes m))), b_total_edges = int (fcard (fmdom (edges m))),
           b_tier_counts = foldl (\<lambda>c e. bump (e_tier e) c) fmempty (map_values (edges m)),
           b_files = map ?file ?ps, b_top_inbound = top\<rparr>"
    using assms(2,3) by (simp add: mem_brief_stats_def scan_polled_ok brief_edges_eq)
  have counts: "fc_symbols (file_at ?fs' p) = tally (\<lambda>n. n_path n = p) (map_values (nodes m)) \<and>
      fc_endpoints (file_at ?fs' p) = tally (\<lambda>e. at_path m p (e_from e)) (map_values (edges m)) +
        tally (\<lambda>e. at_path m p (e_to e)) (map_values (edges m))" if "p \<in> set ?ps" for p
  proof -
    have "p \<noteq> []" using that unfolding ps by simp
    then show ?thesis by (simp add: edges_files_file brief_nodes_file)
  qed
  obtain top where r: "mem_brief_stats ctx m top_symbols =
      Inr \<lparr>b_total_nodes = int (fcard (fmdom (nodes m))), b_total_edges = int (fcard (fmdom (edges m))),
           b_tier_counts = foldl (\<lambda>c e. bump (e_tier e) c) fmempty (map_values (edges m)),
           b_files = map ?file ?ps, b_top_inbound = top\<rparr>" using res by blast
  have "map bf_path (map ?file ?ps) = ?ps" by (simp add: comp_def)
  then show ?thesis
    unfolding r using counts ps by (simp add: count_at_foldl_bump tally_def)
qed

lemma bucket_step:
  fixes i n k :: int
  assumes "0 \<le> i" "0 < k" "k < n"
  shows "i * k div n \<le> (i + 1) * k div n" "(i + 1) * k div n \<le> i * k div n + 1"
proof -
  show "i * k div n \<le> (i + 1) * k div n"
    by (rule zdiv_mono1) (use assms in \<open>simp_all add: algebra_simps\<close>)
  have "(i + 1) * k \<le> i * k + n" using assms by (simp add: algebra_simps)
  then have "(i + 1) * k div n \<le> (i * k + n) div n" using assms by (intro zdiv_mono1) simp_all
  then show "(i + 1) * k div n \<le> i * k div n + 1" using assms by simp
qed

lemma length_bucket_loop:
  assumes "0 < k" "k < n"
  shows "0 \<le> i \<Longrightarrow> i + int (length cs) = n \<Longrightarrow> cs \<noteq> [] \<Longrightarrow>
     prev = i * k div n \<or> prev + 1 = i * k div n \<Longrightarrow>
     int (length (bucket_loop n k i prev cs)) = (n - 1) * k div n - prev"
proof (induction cs arbitrary: i prev)
  case (Cons c cs)
  let ?b = "i * k div n"
  have step: "int (length (bucket_loop n k i prev (c # cs))) =
      (if ?b = prev then 0 else 1) + int (length (bucket_loop n k (i + 1) ?b cs))"
    by (simp add: Let_def)
  show ?case
  proof (cases "cs = []")
    case True
    then have "i = n - 1" using Cons.prems by simp
    then show ?thesis using True Cons.prems(4) step by auto
  next
    case False
    have "?b = (i + 1) * k div n \<or> ?b + 1 = (i + 1) * k div n"
      using bucket_step [OF Cons.prems(1) assms] by linarith
    then have "int (length (bucket_loop n k (i + 1) ?b cs)) = (n - 1) * k div n - ?b"
      using Cons.prems False by (intro Cons.IH) simp_all
    then show ?thesis using step Cons.prems(4) by auto
  qed
qed simp

lemma bucket_loop_subset: "set (bucket_loop n k i prev cs) \<subseteq> dc_node ` set cs"
  by (induction n k i prev cs rule: bucket_loop.induct) (auto simp: Let_def split: if_splits)

lemma distinct_bucket_loop:
  "distinct (map (\<lambda>c. n_id (dc_node c)) cs) \<Longrightarrow> distinct (map n_id (bucket_loop n k i prev cs))"
proof (induction n k i prev cs rule: bucket_loop.induct)
  case (2 n k i prev c cs)
  have "n_id (dc_node c) \<notin> n_id ` set (bucket_loop n k (i + 1) (i * k div n) cs)"
    using bucket_loop_subset [of n k "i + 1" "i * k div n" cs] "2.prems" by force
  then show ?case using 2 by (auto simp: Let_def)
qed simp

lemma last_bucket: "0 < k \<Longrightarrow> k < n \<Longrightarrow> (n - 1) * k div n = k - (1::int)"
proof -
  assume k: "0 < k" "k < n"
  have "(n - 1) * k = n * (k - 1) + (n - k)" by (simp add: algebra_simps)
  then show "(n - 1) * k div n = k - 1" using k by simp
qed

text \<open>
  the degree sample has exactly \<open>max_symbols\<close> nodes when there are more functions
  and methods than that, and all of them otherwise; it repeats none and invents none.
\<close>

theorem degree_sample_size:
  assumes "store_ok m" "0 < max_symbols"
    and "mem_degree_stratified_symbols None m max_symbols = Inr sample"
    and "callables = filter (\<lambda>n. n_kind n = ''function'' \<or> n_kind n = ''method'') (map_values (nodes m))"
  shows "int (length sample) = min max_symbols (int (length callables)) \<and>
    set sample \<subseteq> set callables \<and> distinct (map n_id sample)"
proof -
  let ?deg = "edge_degrees (map_values (edges m))"
  let ?c = "map (\<lambda>n. \<lparr>dc_node = n, dc_degree = count_at ?deg (n_id n)\<rparr>) callables"
  let ?s = "sort_key (\<lambda>c. (- dc_degree c, n_id (dc_node c))) ?c"
  have sample: "sample = stratify_degree_candidates ?c max_symbols"
  proof -
    have opn: "\<not> closed m"
      using assms(2,3) by (cases "closed m") (simp_all add: mem_degree_stratified_symbols_def)
    have "mem_degree_stratified_symbols None m max_symbols = Inr (stratify_degree_candidates ?c max_symbols)"
      unfolding mem_degree_stratified_symbols_def Let_def assms(4)
      using assms(2) by (simp only: option.case if_not_P [OF opn]) simp
    then show ?thesis using assms(3) by simp
  qed
  have set: "dc_node ` set ?s = set callables" by (force simp: image_iff)
  have "distinct (map n_id callables)"
    unfolding assms(4) by (rule distinct_map_filter [OF distinct_map_values [OF store_ok_keyed(1) [OF assms(1)]]])
  then have "distinct (map (\<lambda>c. n_id (dc_node c)) ?c)" by (simp add: comp_def)
  then have dist: "distinct (map (\<lambda>c. n_id (dc_node c)) ?s)"
    unfolding distinct_map set_sort distinct_sort .
  show ?thesis
  proof (cases "callables = []")
    case True
    then show ?thesis using sample assms(2) by (simp add: stratify_degree_candidates_def)
  next
    case ne: False
    show ?thesis
    proof (cases "int (length callables) \<le> max_symbols")
      case True
      then have "sample = map dc_node ?s"
        using sample ne assms(2) by (simp add: stratify_degree_candidates_def)
      then show ?thesis using True set dist by (simp add: comp_def)
    next
      case False
      let ?n = "int (length callables)"
      have loop: "sample = bucket_loop ?n max_symbols 0 (-1) ?s"
        using False sample ne assms(2) by (simp add: stratify_degree_candidates_def)
      have "int (length sample) = (?n - 1) * max_symbols div ?n - (-1)"
        unfolding loop
        by (rule length_bucket_loop) (use False assms(2) ne in \<open>auto simp flip: length_greater_0_conv\<close>)
      also have "\<dots> = max_symbols" using last_bucket [OF assms(2)] False by simp
      finally have "int (length sample) = min max_symbols ?n" using False by simp
      moreover have "set sample \<subseteq> set callables"
        unfolding loop set [symmetric] by (rule bucket_loop_subset)
      moreover have "distinct (map n_id sample)" unfolding loop by (rule distinct_bucket_loop [OF dist])
      ultimately show ?thesis by blast
    qed
  qed
qed

subsection \<open>Witnesses\<close>

theorem trust_stats_counts_witness:
  "\<exists>s. mem_trust_stats (\<lambda>_. None) (small_store (Finite 1)) 5 = Inr s \<and>
     ts_edges_total s = 1 \<and> count_at (ts_by_kind s) ''calls'' = 1"
  using trust_stats_counts [OF small_store_ok small_store_maps(3), of "\<lambda>_. None" "Finite 1" 5]
  by (auto simp: small_values call_edge_def)

theorem brief_stats_counts_witness:
  "\<exists>s. mem_brief_stats (\<lambda>_. None) (small_store (Finite 1)) 0 = Inr s \<and> map bf_path (b_files s) = [''a.go'']"
proof -
  have "n_path ` {fn_node ''f'', fn_node ''g''} - {[]} = {''a.go''}" by (auto simp: fn_node_def)
  note paths = this
  obtain s where "mem_brief_stats (\<lambda>_. None) (small_store (Finite 1)) 0 = Inr s"
    "map bf_path (b_files s) = sorted_list_of_set {''a.go''}"
    using brief_stats_counts [OF small_store_ok small_store_maps(3), of "\<lambda>_. None" "Finite 1" 0]
    unfolding small_values(2) paths by blast
  then show ?thesis by simp
qed

theorem degree_sample_size_witness:
  "\<exists>sample. mem_degree_stratified_symbols None (small_store (Finite 1)) 1 = Inr sample \<and> length sample = 1"
proof -
  let ?ns = "map_values (nodes (small_store (Finite 1)))"
  let ?calls = "filter (\<lambda>n. n_kind n = ''function'' \<or> n_kind n = ''method'') ?ns"
  obtain sample where s: "mem_degree_stratified_symbols None (small_store (Finite 1)) 1 = Inr sample"
    using small_store_maps(3) by (simp add: mem_degree_stratified_symbols_def Let_def)
  have len: "int (length sample) = min 1 (int (length ?calls))"
    using degree_sample_size [OF small_store_ok _ s refl] by simp
  have "fn_node ''f'' \<in> set ?calls" using small_values(2) by (simp add: fn_node_def)
  then have "0 < length ?calls" by (rule length_pos_if_in_set)
  then have "int (length sample) = 1" unfolding len by linarith
  then show ?thesis using s by simp
qed

end
