(* ===== verification/TrustFacts.thy ===== *)
theory TrustFacts
  imports Aggregates
begin

text \<open>
  The facts of \<open>engine/trust\<close>: the snapshot document (\<open>types.go\<close>), the builders that fold one
  full pass into it, the derivation of the snapshot state (\<open>state.go\<close>), the persisted triple
  and its reader (\<open>serialize.go\<close>, \<open>read.go\<close>).  The canonical JSON text and SHA-256 are
  parameters: \<open>json\<close> and \<open>parse_json\<close> for the encoder and decoder of the document,
  \<open>sha256_hex\<close> for the digest.  Of the freshness report only the fields the package reads are kept.
\<close>

definition snapshot_schema_version :: int where
  "snapshot_schema_version = 1"

definition snapshot_version :: string where
  "snapshot_version = ''trust-v1''"

definition meta_snapshot :: string where
  "meta_snapshot = ''trust.snapshot.v1''"

definition meta_snapshot_digest :: string where
  "meta_snapshot_digest = ''trust.snapshot.digest''"

definition meta_snapshot_generation :: string where
  "meta_snapshot_generation = ''trust.snapshot.generation''"

definition max_parse_paths :: nat where
  "max_parse_paths = 64"

definition max_degraded_units :: nat where
  "max_degraded_units = 64"

definition max_path_length :: nat where
  "max_path_length = 240"

text \<open>The marker starts with U+2026, three bytes of UTF-8.\<close>

definition truncation_marker :: string where
  "truncation_marker = [CHR 0xE2, CHR 0x80, CHR 0xA6] @ ''[truncated]''"

definition truncate_path :: "string \<Rightarrow> string" where
  "truncate_path p =
     (if length p \<le> max_path_length then p
      else take (max_path_length - length truncation_marker) p @ truncation_marker)"

subsection \<open>The snapshot document\<close>

text \<open>States are strings, since a caller may pass one outside the closed set.\<close>

type_synonym snap_state = string

definition state_current :: snap_state where "state_current = ''CURRENT''"
definition state_stale :: snap_state where "state_stale = ''STALE''"
definition state_incomplete :: snap_state where "state_incomplete = ''INCOMPLETE''"
definition state_unavailable :: snap_state where "state_unavailable = ''UNAVAILABLE''"

record generation_ref =
  gr_full_pass :: string
  gr_commit :: string
  gr_branch :: string
  gr_profile :: string

record kind_count =
  kc_kind :: string
  kc_count :: int

record tier_counts =
  tk_confirmed :: int
  tk_derived :: int
  tk_heuristic :: int

record graph_facts =
  gf_nodes :: int
  gf_edges :: int
  gf_by_kind :: "kind_count list"
  gf_by_tier :: tier_counts

record boundary =
  bd_qname :: string
  bd_incident :: int

record external_facts =
  xf_nodes :: int
  xf_edges :: int
  xf_top :: "boundary list"

record link_facts =
  lf_derived :: int
  lf_heuristic :: int
  lf_external :: int
  lf_skipped :: int
  lf_ambiguous :: int

record reason_count =
  rc_reason :: string
  rc_count :: int

record parse_facts =
  pf_skipped :: int
  pf_by_reason :: "reason_count list"
  pf_paths :: "string list"

record degraded_unit =
  du_dir :: string
  du_name :: string
  du_reason :: string
  du_type_errors :: int

record type_resolution_facts =
  tr_units_total :: int
  tr_units_degraded :: int
  tr_type_errors :: int
  tr_skipped_files :: int
  tr_dropped_intents :: int
  tr_confirmed_edges :: int
  tr_degraded_units :: "degraded_unit list"

record trust_snapshot =
  sn_schema :: int
  sn_version :: string
  sn_generation :: generation_ref
  sn_graph :: graph_facts
  sn_external :: external_facts
  sn_link :: link_facts
  sn_parse :: parse_facts
  sn_types :: type_resolution_facts

text \<open>The zero value a reader returns with an error or without a usable snapshot.\<close>

definition zero_snapshot :: trust_snapshot where
  "zero_snapshot =
     \<lparr>sn_schema = 0, sn_version = [],
      sn_generation = \<lparr>gr_full_pass = [], gr_commit = [], gr_branch = [], gr_profile = []\<rparr>,
      sn_graph = \<lparr>gf_nodes = 0, gf_edges = 0, gf_by_kind = [],
                  gf_by_tier = \<lparr>tk_confirmed = 0, tk_derived = 0, tk_heuristic = 0\<rparr>\<rparr>,
      sn_external = \<lparr>xf_nodes = 0, xf_edges = 0, xf_top = []\<rparr>,
      sn_link = \<lparr>lf_derived = 0, lf_heuristic = 0, lf_external = 0, lf_skipped = 0, lf_ambiguous = 0\<rparr>,
      sn_parse = \<lparr>pf_skipped = 0, pf_by_reason = [], pf_paths = []\<rparr>,
      sn_types = \<lparr>tr_units_total = 0, tr_units_degraded = 0, tr_type_errors = 0, tr_skipped_files = 0,
                  tr_dropped_intents = 0, tr_confirmed_edges = 0, tr_degraded_units = []\<rparr>\<rparr>"

subsection \<open>The builders\<close>

text \<open>A counter map as the sorted list of its positive entries.\<close>

definition positive_counts :: "string counts \<Rightarrow> (string \<times> int) list" where
  "positive_counts c =
     sort_key fst (filter (\<lambda>(k, n). n > 0) (map (\<lambda>k. (k, count_at c k)) (sorted_list_of_fset (fmdom c))))"

definition new_graph_facts :: "trust_stats \<Rightarrow> graph_facts" where
  "new_graph_facts s =
     \<lparr>gf_nodes = ts_nodes_total s, gf_edges = ts_edges_total s,
      gf_by_kind = map (\<lambda>(k, n). \<lparr>kc_kind = k, kc_count = n\<rparr>) (positive_counts (ts_by_kind s)),
      gf_by_tier = \<lparr>tk_confirmed = count_at (ts_by_tier s) tier_confirmed,
                    tk_derived = count_at (ts_by_tier s) tier_derived,
                    tk_heuristic = count_at (ts_by_tier s) tier_heuristic\<rparr>\<rparr>"

definition new_external_facts :: "trust_stats \<Rightarrow> external_facts" where
  "new_external_facts s =
     \<lparr>xf_nodes = ts_external_nodes s, xf_edges = ts_external_edges s,
      xf_top = sort_key (\<lambda>b. (- bd_incident b, bd_qname b))
        (map (\<lambda>b. \<lparr>bd_qname = eb_qname b, bd_incident = eb_incident b\<rparr>) (ts_top_boundaries s))\<rparr>"

record link_stats =
  ls_derived :: int
  ls_heuristic :: int
  ls_skipped :: int
  ls_ambiguous :: int
  ls_external :: int

definition new_link_facts :: "link_stats \<Rightarrow> link_facts" where
  "new_link_facts s =
     \<lparr>lf_derived = ls_derived s, lf_heuristic = ls_heuristic s, lf_external = ls_external s,
      lf_skipped = ls_skipped s, lf_ambiguous = ls_ambiguous s\<rparr>"

text \<open>\<open>path.IsAbs\<close>\<close>

fun is_abs :: "string \<Rightarrow> bool" where
  "is_abs [] = False"
| "is_abs (c # cs) = (c = CHR ''/'')"

definition new_parse_facts :: "string list \<Rightarrow> string counts \<Rightarrow> parse_facts" where
  "new_parse_facts paths by_reason =
     (let rel = sort (map truncate_path (filter (\<lambda>p. \<not> is_abs p) paths));
          rel' = (if length rel > max_parse_paths then take max_parse_paths rel else rel)
      in \<lparr>pf_skipped = int (length paths),
          pf_by_reason = map (\<lambda>(r, n). \<lparr>rc_reason = r, rc_count = n\<rparr>) (positive_counts by_reason),
          pf_paths = rel'\<rparr>)"

text \<open>What \<open>NewTypeResolutionFacts\<close> reads of \<open>typeresolve.Result\<close>.\<close>

record unit_result =
  ur_dir :: string
  ur_name :: string
  ur_degraded :: string
  ur_type_errors :: int
  ur_dropped_intents :: int

record resolve_result =
  rr_edges :: "edge list"
  rr_units :: "unit_result list"
  rr_skipped_files :: "string list"
  rr_dropped_intents :: int
  rr_named_skips :: "(string, int) fmap"

definition fold_unit :: "type_resolution_facts \<Rightarrow> unit_result \<Rightarrow> type_resolution_facts" where
  "fold_unit f u =
     (let f' = f\<lparr>tr_type_errors := tr_type_errors f + ur_type_errors u\<rparr>
      in if ur_degraded u \<noteq> []
         then f'\<lparr>tr_units_degraded := tr_units_degraded f' + 1,
                 tr_degraded_units := tr_degraded_units f' @
                   [\<lparr>du_dir = truncate_path (ur_dir u), du_name = truncate_path (ur_name u),
                     du_reason = ur_degraded u, du_type_errors = ur_type_errors u\<rparr>]\<rparr>
         else f')"

definition new_type_resolution_facts :: "resolve_result \<Rightarrow> type_resolution_facts" where
  "new_type_resolution_facts r =
     (let f = foldl fold_unit
            \<lparr>tr_units_total = int (length (rr_units r)), tr_units_degraded = 0, tr_type_errors = 0,
             tr_skipped_files = int (length (rr_skipped_files r)),
             tr_dropped_intents = rr_dropped_intents r,
             tr_confirmed_edges = int (length (rr_edges r)), tr_degraded_units = []\<rparr> (rr_units r);
          us = sort_key (\<lambda>u. (du_dir u, du_name u)) (tr_degraded_units f)
      in f\<lparr>tr_degraded_units := (if length us > max_degraded_units then take max_degraded_units us else us)\<rparr>)"

subsection \<open>The snapshot state\<close>

record freshness_report =
  fr_exists :: bool
  fr_warm_startable :: bool
  fr_full_pass_in_progress :: bool
  fr_lock_held :: bool
  fr_current :: bool

definition graph_facts_equal :: "graph_facts \<Rightarrow> graph_facts \<Rightarrow> bool" where
  "graph_facts_equal a b \<longleftrightarrow>
     gf_nodes a = gf_nodes b \<and> gf_edges a = gf_edges b \<and> gf_by_tier a = gf_by_tier b \<and>
     gf_by_kind a = gf_by_kind b"

definition derive_state ::
  "freshness_report \<Rightarrow> bool \<Rightarrow> string \<Rightarrow> string \<Rightarrow> bool \<Rightarrow> trust_stats \<Rightarrow> trust_snapshot \<Rightarrow> snap_state" where
  "derive_state f snapshot_found snapshot_generation live_generation digest_ok live snap =
     (if \<not> fr_exists f \<or> \<not> snapshot_found \<or> \<not> digest_ok \<or> live_generation = [] then state_unavailable
      else if fr_full_pass_in_progress f \<or> fr_lock_held f \<or> \<not> fr_warm_startable f then state_incomplete
      else if snapshot_generation \<noteq> live_generation \<or>
              gr_full_pass (sn_generation snap) \<noteq> live_generation then state_stale
      else if \<not> fr_current f then state_stale
      else if \<not> graph_facts_equal (sn_graph snap) (new_graph_facts live) \<or>
              xf_nodes (sn_external snap) \<noteq> ts_external_nodes live \<or>
              xf_edges (sn_external snap) \<noteq> ts_external_edges live then state_stale
      else state_current)"

subsection \<open>The persisted triple\<close>

datatype decode_fault = DecodeFailed | ErrSchemaUnsupported int

definition trust_decode ::
  "(string \<Rightarrow> trust_snapshot option) \<Rightarrow> string \<Rightarrow> decode_fault + trust_snapshot" where
  "trust_decode parse_json b =
     (case parse_json b of
        None \<Rightarrow> Inl DecodeFailed
      | Some s \<Rightarrow>
          if sn_schema s \<noteq> snapshot_schema_version then Inl (ErrSchemaUnsupported (sn_schema s))
          else Inr s)"

definition trust_digest :: "(string \<Rightarrow> string) \<Rightarrow> string \<Rightarrow> string" where
  "trust_digest sha256_hex canonical_bytes = ''sha256:'' @ sha256_hex canonical_bytes"

definition fact_digest ::
  "(trust_snapshot \<Rightarrow> string) \<Rightarrow> (string \<Rightarrow> string) \<Rightarrow> trust_snapshot \<Rightarrow> string" where
  "fact_digest json sha256_hex s =
     trust_digest sha256_hex
       (json (s\<lparr>sn_generation := \<lparr>gr_full_pass = [], gr_commit = [], gr_branch = [], gr_profile = []\<rparr>\<rparr>))"

text \<open>The result of \<open>Load\<close>: snapshot, whether bytes were found, whether they verify, the stamp.\<close>

type_synonym load_result = "trust_snapshot \<times> bool \<times> bool \<times> string"

definition trust_load ::
  "(string \<Rightarrow> trust_snapshot option) \<Rightarrow> (string \<Rightarrow> string) \<Rightarrow> (string \<Rightarrow> store_error + string)
     \<Rightarrow> store_error + load_result" where
  "trust_load parse_json sha256_hex metadata_of =
     (case metadata_of meta_snapshot of
        Inl err \<Rightarrow> if err = ErrNotFound then Inr (zero_snapshot, False, False, []) else Inl err
      | Inr raw \<Rightarrow>
          if raw = [] then Inr (zero_snapshot, False, False, [])
          else
            (case (case metadata_of meta_snapshot_generation of
                     Inl err \<Rightarrow> if err = ErrNotFound then Inr [] else Inl err
                   | Inr g \<Rightarrow> Inr g) of
               Inl err \<Rightarrow> Inl err
             | Inr generation \<Rightarrow>
                 (case metadata_of meta_snapshot_digest of
                    Inl err \<Rightarrow>
                      if err = ErrNotFound then Inr (zero_snapshot, True, False, generation) else Inl err
                  | Inr stored \<Rightarrow>
                      if trust_digest sha256_hex raw \<noteq> stored then Inr (zero_snapshot, True, False, generation)
                      else (case trust_decode parse_json raw of
                              Inl e \<Rightarrow> Inr (zero_snapshot, True, False, generation)
                            | Inr s \<Rightarrow> Inr (s, True, True, generation)))))"

text \<open>
  \<open>Evaluate\<close>: \<open>stats_port\<close> is the store's \<open>TrustStats\<close>, \<open>None\<close> when the store does not
  implement the port.
\<close>

definition trust_evaluate ::
  "(string \<Rightarrow> trust_snapshot option) \<Rightarrow> (string \<Rightarrow> string) \<Rightarrow> (string \<Rightarrow> store_error + string)
     \<Rightarrow> (int \<Rightarrow> store_error + trust_stats) option \<Rightarrow> freshness_report \<Rightarrow> string
     \<Rightarrow> trust_snapshot \<times> snap_state \<times> store_error option" where
  "trust_evaluate parse_json sha256_hex metadata_of stats_port f live_generation =
     (case trust_load parse_json sha256_hex metadata_of of
        Inl err \<Rightarrow> (zero_snapshot, state_unavailable, Some err)
      | Inr (snap, found, digest_ok, snap_gen) \<Rightarrow>
          (case stats_port of
             None \<Rightarrow> (snap, state_unavailable, None)
           | Some stats_of \<Rightarrow>
               (case stats_of 0 of
                  Inl err \<Rightarrow> (zero_snapshot, state_unavailable, Some err)
                | Inr stats \<Rightarrow>
                    (snap, derive_state f found snap_gen live_generation digest_ok stats snap, None))))"

subsection \<open>Properties\<close>

lemma states_distinct [simp]:
  "state_current \<noteq> state_stale" "state_current \<noteq> state_incomplete" "state_current \<noteq> state_unavailable"
  "state_stale \<noteq> state_incomplete" "state_stale \<noteq> state_unavailable" "state_incomplete \<noteq> state_unavailable"
  "state_stale \<noteq> state_current" "state_incomplete \<noteq> state_current" "state_unavailable \<noteq> state_current"
  "state_incomplete \<noteq> state_stale" "state_unavailable \<noteq> state_stale" "state_unavailable \<noteq> state_incomplete"
  by (simp_all add: state_current_def state_stale_def state_incomplete_def state_unavailable_def)

lemma derive_current_iff:
  "derive_state f found sgen lgen dok live snap = state_current \<longleftrightarrow>
     found \<and> dok \<and> fr_exists f \<and> fr_warm_startable f \<and> \<not> fr_full_pass_in_progress f \<and> \<not> fr_lock_held f \<and>
     fr_current f \<and> lgen \<noteq> [] \<and> sgen = lgen \<and> gr_full_pass (sn_generation snap) = lgen \<and>
     sn_graph snap = new_graph_facts live \<and>
     xf_nodes (sn_external snap) = ts_external_nodes live \<and> xf_edges (sn_external snap) = ts_external_edges live"
proof -
  have "graph_facts_equal a b \<longleftrightarrow> a = b" for a b
    by (cases a; cases b) (auto simp: graph_facts_equal_def)
  then show ?thesis by (auto simp: derive_state_def)
qed

text \<open>
  the snapshot state is CURRENT exactly when every freshness fact holds, both
  generation bindings match the live graph and the recomputed aggregate equals the recorded one;
  it is always one of the four states, and INCOMPLETE outranks every staleness.
\<close>

theorem derive_state_spec:
  "(derive_state f found sgen lgen dok live snap = state_current \<longleftrightarrow>
     found \<and> dok \<and> fr_exists f \<and> fr_warm_startable f \<and> \<not> fr_full_pass_in_progress f \<and> \<not> fr_lock_held f \<and>
     fr_current f \<and> lgen \<noteq> [] \<and> sgen = lgen \<and> gr_full_pass (sn_generation snap) = lgen \<and>
     sn_graph snap = new_graph_facts live \<and>
     xf_nodes (sn_external snap) = ts_external_nodes live \<and> xf_edges (sn_external snap) = ts_external_edges live) \<and>
   (derive_state f found sgen lgen dok live snap = state_unavailable \<longleftrightarrow>
     \<not> fr_exists f \<or> \<not> found \<or> \<not> dok \<or> lgen = []) \<and>
   (derive_state f found sgen lgen dok live snap = state_incomplete \<longleftrightarrow>
     fr_exists f \<and> found \<and> dok \<and> lgen \<noteq> [] \<and>
     (fr_full_pass_in_progress f \<or> fr_lock_held f \<or> \<not> fr_warm_startable f)) \<and>
   derive_state f found sgen lgen dok live snap
     \<in> {state_current, state_stale, state_incomplete, state_unavailable}"
  unfolding derive_current_iff by (auto simp: derive_state_def)

theorem derive_state_spec_witness:
  "derive_state \<lparr>fr_exists = True, fr_warm_startable = True, fr_full_pass_in_progress = False,
      fr_lock_held = True, fr_current = True\<rparr> True ''g1'' ''g2'' True
      \<lparr>ts_nodes_total = 0, ts_edges_total = 0, ts_by_kind = fmempty, ts_by_tier = fmempty,
       ts_external_nodes = 0, ts_external_edges = 0, ts_top_boundaries = []\<rparr> zero_snapshot = state_incomplete"
  using derive_state_spec [of "\<lparr>fr_exists = True, fr_warm_startable = True, fr_full_pass_in_progress = False,
      fr_lock_held = True, fr_current = True\<rparr>" True "''g1''" "''g2''" True]
  by simp

lemma evaluate_current_facts:
  assumes "trust_evaluate parse_json sha256_hex metadata_of stats_port f live_generation = (snap, state_current, err)"
  shows "err = None \<and> fr_current f \<and> \<not> fr_full_pass_in_progress f \<and> \<not> fr_lock_held f \<and>
    (\<exists>raw. metadata_of meta_snapshot = Inr raw \<and> raw \<noteq> [] \<and>
       metadata_of meta_snapshot_digest = Inr (trust_digest sha256_hex raw) \<and>
       metadata_of meta_snapshot_generation = Inr live_generation \<and>
       parse_json raw = Some snap \<and> sn_schema snap = snapshot_schema_version \<and>
       gr_full_pass (sn_generation snap) = live_generation) \<and>
    (\<exists>stats_of live. stats_port = Some stats_of \<and> stats_of 0 = Inr live \<and> sn_graph snap = new_graph_facts live)"
proof -
  obtain sn found dok gen where load: "trust_load parse_json sha256_hex metadata_of = Inr (sn, found, dok, gen)"
    using assms by (auto simp: trust_evaluate_def split: sum.splits)
  obtain stats_of live where st: "stats_port = Some stats_of" "stats_of 0 = Inr live"
    using assms load by (auto simp: trust_evaluate_def split: option.splits sum.splits)
  have res: "snap = sn" "err = None" "derive_state f found gen live_generation dok live sn = state_current"
    using assms by (auto simp add: trust_evaluate_def load st)
  note cur = res(3) [unfolded derive_current_iff]
  have verified: "metadata_of meta_snapshot = Inr raw \<and> raw \<noteq> [] \<and>
      metadata_of meta_snapshot_digest = Inr (trust_digest sha256_hex raw) \<and>
      metadata_of meta_snapshot_generation = Inr gen \<and> parse_json raw = Some sn \<and>
      sn_schema sn = snapshot_schema_version" if "metadata_of meta_snapshot = Inr raw" for raw
    using load cur that
    by (auto simp: trust_load_def trust_decode_def split: sum.splits if_splits option.splits)
  obtain raw where "metadata_of meta_snapshot = Inr raw"
    using load cur by (auto simp: trust_load_def split: sum.splits if_splits)
  then show ?thesis using verified cur st res by blast
qed

text \<open>
  C22: a reader that reports CURRENT has verified everything: the store holds the bytes,
  their digest and the live generation, the bytes decode to the returned snapshot under the
  supported schema, and the source has not drifted.  A missing or emptied key, a wrong digest or
  another generation can never read CURRENT.
\<close>

theorem evaluate_current_verified:
  assumes "trust_evaluate parse_json sha256_hex metadata_of stats_port f live_generation = (snap, state_current, err)"
  shows "err = None \<and> fr_current f \<and> \<not> fr_full_pass_in_progress f \<and> \<not> fr_lock_held f \<and>
    (\<exists>raw. metadata_of meta_snapshot = Inr raw \<and> raw \<noteq> [] \<and>
       metadata_of meta_snapshot_digest = Inr (trust_digest sha256_hex raw) \<and>
       metadata_of meta_snapshot_generation = Inr live_generation \<and>
       parse_json raw = Some snap \<and> sn_schema snap = snapshot_schema_version \<and>
       gr_full_pass (sn_generation snap) = live_generation) \<and>
    (\<exists>stats_of live. stats_port = Some stats_of \<and> stats_of 0 = Inr live \<and> sn_graph snap = new_graph_facts live)"
  by (rule evaluate_current_facts [OF assms])

subsection \<open>Publishing\<close>

text \<open>The three writes of a publication, the generation last.\<close>

definition publish ::
  "(trust_snapshot \<Rightarrow> string) \<Rightarrow> (string \<Rightarrow> string) \<Rightarrow> mem_store \<Rightarrow> trust_snapshot \<Rightarrow> mem_store" where
  "publish json sha256_hex m s =
     fst (mem_set_metadata None
       (fst (mem_set_metadata None
         (fst (mem_set_metadata None m meta_snapshot (json s)))
         meta_snapshot_digest (trust_digest sha256_hex (json s))))
       meta_snapshot_generation (gr_full_pass (sn_generation s)))"

lemma meta_keys_distinct [simp]:
  "meta_snapshot \<noteq> meta_snapshot_digest" "meta_snapshot \<noteq> meta_snapshot_generation"
  "meta_snapshot_digest \<noteq> meta_snapshot_generation" "meta_snapshot_digest \<noteq> meta_snapshot"
  "meta_snapshot_generation \<noteq> meta_snapshot" "meta_snapshot_generation \<noteq> meta_snapshot_digest"
  by (simp_all add: meta_snapshot_def meta_snapshot_digest_def meta_snapshot_generation_def)

lemma publish_metadata:
  assumes "\<not> closed m"
  shows "mem_metadata None (publish json sha256_hex m s) meta_snapshot = Inr (json s)"
    "mem_metadata None (publish json sha256_hex m s) meta_snapshot_digest = Inr (trust_digest sha256_hex (json s))"
    "mem_metadata None (publish json sha256_hex m s) meta_snapshot_generation = Inr (gr_full_pass (sn_generation s))"
    "nodes (publish json sha256_hex m s) = nodes m" "edges (publish json sha256_hex m s) = edges m"
    "closed (publish json sha256_hex m s) = closed m"
  using assms by (simp_all add: publish_def mem_set_metadata_def mem_metadata_def)

text \<open>
  after a snapshot of the store's own aggregate has been published under the live
  generation, a reader of that store on a fresh and settled index reports CURRENT and returns
  exactly that snapshot; the graph itself is untouched.
\<close>

theorem publish_reads_current:
  assumes "\<not> closed m" "parse_json (json s) = Some s" "json s \<noteq> []"
    and "sn_schema s = snapshot_schema_version" "gr_full_pass (sn_generation s) = live_generation" "live_generation \<noteq> []"
    and "mem_trust_stats (\<lambda>_. None) m 0 = Inr live"
    and "sn_graph s = new_graph_facts live"
    and "xf_nodes (sn_external s) = ts_external_nodes live" "xf_edges (sn_external s) = ts_external_edges live"
    and "fr_exists f" "fr_warm_startable f" "\<not> fr_full_pass_in_progress f" "\<not> fr_lock_held f" "fr_current f"
  shows "trust_evaluate parse_json sha256_hex (mem_metadata None (publish json sha256_hex m s))
           (Some (mem_trust_stats (\<lambda>_. None) (publish json sha256_hex m s))) f live_generation
         = (s, state_current, None) \<and>
         nodes (publish json sha256_hex m s) = nodes m \<and> edges (publish json sha256_hex m s) = edges m"
proof -
  have load: "trust_load parse_json sha256_hex (mem_metadata None (publish json sha256_hex m s)) =
      Inr (s, True, True, live_generation)"
    using assms by (simp add: trust_load_def publish_metadata trust_decode_def)
  have "mem_trust_stats (\<lambda>_. None) (publish json sha256_hex m s) 0 = Inr live"
    using assms(7) unfolding mem_trust_stats_def publish_metadata [OF assms(1)] .
  moreover have "derive_state f True live_generation live_generation True live s = state_current"
    unfolding derive_current_iff using assms by simp
  ultimately show ?thesis
    using assms(1) by (simp add: trust_evaluate_def load publish_metadata)
qed


subsection \<open>The builders\<close>

lemma length_truncate_path: "length (truncate_path p) \<le> max_path_length"
  by (simp add: truncate_path_def max_path_length_def truncation_marker_def)

lemma is_abs_truncate: "is_abs (truncate_path p) = is_abs p"
  by (cases p) (simp_all add: truncate_path_def max_path_length_def truncation_marker_def)

lemma positive_counts_eq:
  "positive_counts c = filter (\<lambda>(k, n). n > 0) (map (\<lambda>k. (k, count_at c k)) (sorted_list_of_fset (fmdom c)))"
proof -
  have "sorted (map fst (filter (\<lambda>(k, n). n > 0) (map (\<lambda>k. (k, count_at c k)) xs)))" if "sorted xs" for xs :: "string list"
    using that by (induction xs) (auto split: if_splits)
  then show ?thesis
    unfolding positive_counts_def by (intro sort_key_id_if_sorted) (simp add: sorted_list_of_fset.rep_eq)
qed

lemma positive_counts_sorted: "ssorted (map fst (positive_counts c))"
proof -
  have "ssorted (map fst (filter (\<lambda>(k, n). n > 0) (map (\<lambda>k. (k, count_at c k)) xs)))" if "ssorted xs" for xs :: "string list"
    using that by (induction xs) auto
  then show ?thesis unfolding positive_counts_eq by (simp add: sorted_list_of_fset.rep_eq)
qed

lemma positive_counts_pos: "(k, n) \<in> set (positive_counts c) \<Longrightarrow> n > 0"
  by (auto simp: positive_counts_def)

text \<open>
  the parse facts count every skip but sample at most 64 paths, sorted, none of
  them absolute and none longer than 240 bytes; the reasons are strictly sorted with positive
  counts.
\<close>

theorem parse_facts_bounded:
  "pf_skipped (new_parse_facts paths by_reason) = int (length paths) \<and>
   length (pf_paths (new_parse_facts paths by_reason)) = min 64 (length (filter (\<lambda>p. \<not> is_abs p) paths)) \<and>
   sorted (pf_paths (new_parse_facts paths by_reason)) \<and>
   list_all (\<lambda>p. \<not> is_abs p \<and> length p \<le> 240) (pf_paths (new_parse_facts paths by_reason)) \<and>
   ssorted (map rc_reason (pf_by_reason (new_parse_facts paths by_reason))) \<and>
   list_all (\<lambda>r. rc_count r > 0) (pf_by_reason (new_parse_facts paths by_reason))"
proof -
  let ?rel = "sort (map truncate_path (filter (\<lambda>p. \<not> is_abs p) paths))"
  have paths: "pf_paths (new_parse_facts paths by_reason) = take 64 ?rel"
    by (simp add: new_parse_facts_def Let_def max_parse_paths_def)
  have reasons: "pf_by_reason (new_parse_facts paths by_reason) =
      map (\<lambda>(r, n). \<lparr>rc_reason = r, rc_count = n\<rparr>) (positive_counts by_reason)"
    by (simp add: new_parse_facts_def Let_def)
  have "list_all (\<lambda>p. \<not> is_abs p \<and> length p \<le> 240) (take 64 ?rel)"
    using length_truncate_path by (auto simp: list_all_iff is_abs_truncate max_path_length_def dest!: in_set_takeD)
  moreover have "sorted (take 64 ?rel)" by (rule sorted_wrt_take) simp
  moreover have "map rc_reason (pf_by_reason (new_parse_facts paths by_reason)) = map fst (positive_counts by_reason)"
    unfolding reasons by (simp add: comp_def split_beta)
  moreover have "list_all (\<lambda>r. rc_count r > 0) (pf_by_reason (new_parse_facts paths by_reason))"
    unfolding reasons using positive_counts_pos [where c = by_reason] by (auto simp: list_all_iff)
  moreover have "length (take 64 ?rel) = min 64 (length (filter (\<lambda>p. \<not> is_abs p) paths))" by simp
  moreover have "pf_skipped (new_parse_facts paths by_reason) = int (length paths)"
    by (simp add: new_parse_facts_def Let_def)
  ultimately show ?thesis
    using positive_counts_sorted [of by_reason] unfolding paths by metis
qed


lemma fold_units_sel:
  "tr_units_total (foldl fold_unit f us) = tr_units_total f"
  "tr_skipped_files (foldl fold_unit f us) = tr_skipped_files f"
  "tr_dropped_intents (foldl fold_unit f us) = tr_dropped_intents f"
  "tr_confirmed_edges (foldl fold_unit f us) = tr_confirmed_edges f"
  "tr_type_errors (foldl fold_unit f us) = tr_type_errors f + sum_list (map ur_type_errors us)"
  "tr_units_degraded (foldl fold_unit f us) = tr_units_degraded f + tally (\<lambda>u. ur_degraded u \<noteq> []) us"
  "tr_degraded_units (foldl fold_unit f us) = tr_degraded_units f @
     map (\<lambda>u. \<lparr>du_dir = truncate_path (ur_dir u), du_name = truncate_path (ur_name u),
                du_reason = ur_degraded u, du_type_errors = ur_type_errors u\<rparr>)
       (filter (\<lambda>u. ur_degraded u \<noteq> []) us)"
  by (induction us arbitrary: f) (auto simp: fold_unit_def Let_def)

text \<open>
  the type-resolution facts count every unit and every degraded one even when the
  sample is cut at 64; the sample is sorted by directory and name, with bounded names.
\<close>

theorem type_facts_bounded:
  "tr_units_total (new_type_resolution_facts r) = int (length (rr_units r)) \<and>
   tr_units_degraded (new_type_resolution_facts r) =
     int (length (filter (\<lambda>u. ur_degraded u \<noteq> []) (rr_units r))) \<and>
   int (length (tr_degraded_units (new_type_resolution_facts r))) =
     min 64 (tr_units_degraded (new_type_resolution_facts r)) \<and>
   sorted (map (\<lambda>u. (du_dir u, du_name u)) (tr_degraded_units (new_type_resolution_facts r))) \<and>
   list_all (\<lambda>u. length (du_dir u) \<le> 240 \<and> length (du_name u) \<le> 240)
     (tr_degraded_units (new_type_resolution_facts r)) \<and>
   tr_type_errors (new_type_resolution_facts r) = sum_list (map ur_type_errors (rr_units r))"
proof -
  let ?mk = "\<lambda>u. \<lparr>du_dir = truncate_path (ur_dir u), du_name = truncate_path (ur_name u),
                du_reason = ur_degraded u, du_type_errors = ur_type_errors u\<rparr>"
  let ?us = "sort_key (\<lambda>u. (du_dir u, du_name u)) (map ?mk (filter (\<lambda>u. ur_degraded u \<noteq> []) (rr_units r)))"
  have us: "tr_degraded_units (new_type_resolution_facts r) = take 64 ?us"
    by (simp add: new_type_resolution_facts_def Let_def fold_units_sel max_degraded_units_def)
  have rest: "tr_units_total (new_type_resolution_facts r) = int (length (rr_units r))"
    "tr_units_degraded (new_type_resolution_facts r) = int (length (filter (\<lambda>u. ur_degraded u \<noteq> []) (rr_units r)))"
    "tr_type_errors (new_type_resolution_facts r) = sum_list (map ur_type_errors (rr_units r))"
    by (simp_all add: new_type_resolution_facts_def Let_def fold_units_sel tally_def)
  have "sorted (map (\<lambda>u. (du_dir u, du_name u)) (take 64 ?us))"
    unfolding take_map [symmetric] by (rule sorted_wrt_take) (rule sorted_sort_key)
  moreover have "list_all (\<lambda>u. length (du_dir u) \<le> 240 \<and> length (du_name u) \<le> 240) (take 64 ?us)"
    using length_truncate_path by (auto simp: list_all_iff max_path_length_def dest!: in_set_takeD)
  moreover have "int (length (take 64 ?us)) = min 64 (int (length (filter (\<lambda>u. ur_degraded u \<noteq> []) (rr_units r))))"
    by simp
  ultimately show ?thesis unfolding us rest by blast
qed

lemma length_eq_sum_tally: "(\<Sum>k \<in> g ` set xs. tally (\<lambda>x. g x = k) xs) = int (length xs)"
proof -
  have "finite S \<Longrightarrow> g ` set xs \<subseteq> S \<Longrightarrow> (\<Sum>k \<in> S. tally (\<lambda>x. g x = k) xs) = int (length xs)" for S
  proof (induction xs)
    case (Cons x xs)
    have "(\<Sum>k \<in> S. tally (\<lambda>y. g y = k) (x # xs)) =
        (\<Sum>k \<in> S. if g x = k then 1 else 0) + (\<Sum>k \<in> S. tally (\<lambda>y. g y = k) xs)"
      by (simp add: sum.distrib)
    then show ?case using Cons by simp
  qed (simp add: tally_def)
  then show ?thesis by blast
qed

text \<open>
  the graph facts of a store's own aggregate are canonical and complete: the kinds
  are strictly sorted with positive counts that add up to the edge total.
\<close>

theorem graph_facts_total:
  assumes "\<not> closed m" "mem_trust_stats (\<lambda>_. None) m top_n = Inr s"
  shows "ssorted (map kc_kind (gf_by_kind (new_graph_facts s))) \<and>
    list_all (\<lambda>k. kc_count k > 0) (gf_by_kind (new_graph_facts s)) \<and>
    sum_list (map kc_count (gf_by_kind (new_graph_facts s))) = gf_edges (new_graph_facts s)"
proof -
  let ?es = "map_values (edges m)"
  let ?c = "foldl (\<lambda>c e. bump (e_kind e) c) fmempty ?es"
  have s: "ts_by_kind s = ?c" "ts_edges_total s = int (length ?es)"
    using assms mem_trust_stats_eq [OF assms(1), of "\<lambda>_. None" top_n] by auto
  have kinds: "gf_by_kind (new_graph_facts s) = map (\<lambda>(k, n). \<lparr>kc_kind = k, kc_count = n\<rparr>) (positive_counts ?c)"
    by (simp add: new_graph_facts_def s)
  have dom: "fset (fmdom ?c) = e_kind ` set ?es" by (simp add: fmdom_foldl_bump)
  have at: "count_at ?c k = tally (\<lambda>e. e_kind e = k) ?es" for k by (simp add: count_at_foldl_bump)
  have pos: "count_at ?c k > 0" if "k \<in> set (sorted_list_of_fset (fmdom ?c))" for k
  proof -
    have "k \<in> e_kind ` set ?es" using that unfolding sorted_list_of_fset_simps dom .
    then obtain e where "e \<in> set ?es" "e_kind e = k" by blast
    then have "0 < length (filter (\<lambda>e. e_kind e = k) ?es)" by (auto simp: filter_empty_conv)
    then show ?thesis by (simp add: at tally_def)
  qed
  then have all: "positive_counts ?c = map (\<lambda>k. (k, count_at ?c k)) (sorted_list_of_fset (fmdom ?c))"
    unfolding positive_counts_eq by (intro filter_True) auto
  have "sum_list (map snd (positive_counts ?c)) = sum_list (map (count_at ?c) (sorted_list_of_fset (fmdom ?c)))"
    unfolding all by (simp add: comp_def)
  also have "\<dots> = (\<Sum>k \<in> e_kind ` set ?es. tally (\<lambda>e. e_kind e = k) ?es)"
    by (subst sum_list_distinct_conv_sum_set) (simp_all add: sorted_list_of_fset.rep_eq dom at)
  also have "\<dots> = int (length ?es)" by (rule length_eq_sum_tally)
  finally have total: "sum_list (map snd (positive_counts ?c)) = int (length ?es)" .
  have fields: "map kc_kind (gf_by_kind (new_graph_facts s)) = map fst (positive_counts ?c)"
    "map kc_count (gf_by_kind (new_graph_facts s)) = map snd (positive_counts ?c)"
    unfolding kinds by (simp_all add: comp_def split_beta)
  have "list_all (\<lambda>k. kc_count k > 0) (gf_by_kind (new_graph_facts s))"
    unfolding kinds using positive_counts_pos [where c = ?c] by (auto simp: list_all_iff)
  then show ?thesis
    unfolding fields using positive_counts_sorted total by (simp add: new_graph_facts_def s)
qed


text \<open>
  a shortened path has exactly the maximal length and ends in the marker, so it
  is never mistaken for a short path; but the marker is not ASCII, whatever the path.
\<close>

theorem truncated_path_marked:
  assumes "length p > max_path_length"
  shows "length (truncate_path p) = max_path_length \<and>
    drop (max_path_length - length truncation_marker) (truncate_path p) = truncation_marker \<and>
    (\<exists>c \<in> set (truncate_path p). (of_char c :: nat) > 127)"
  using assms
  by (simp add: truncate_path_def max_path_length_def truncation_marker_def min_def)

subsection \<open>Witnesses\<close>

theorem truncated_path_marked_witness:
  "length (truncate_path (replicate 300 CHR ''a'')) = max_path_length"
  using truncated_path_marked [of "replicate 300 CHR ''a''"] by (simp add: max_path_length_def)

definition empty_stats :: trust_stats where
  "empty_stats =
     \<lparr>ts_nodes_total = 0, ts_edges_total = 0, ts_by_kind = fmempty, ts_by_tier = fmempty,
      ts_external_nodes = 0, ts_external_edges = 0, ts_top_boundaries = []\<rparr>"

definition empty_snapshot :: trust_snapshot where
  "empty_snapshot = zero_snapshot\<lparr>sn_schema := 1,
     sn_generation := \<lparr>gr_full_pass = ''g1'', gr_commit = [], gr_branch = [], gr_profile = []\<rparr>,
     sn_graph := new_graph_facts empty_stats\<rparr>"

definition settled :: freshness_report where
  "settled = \<lparr>fr_exists = True, fr_warm_startable = True, fr_full_pass_in_progress = False,
     fr_lock_held = False, fr_current = True\<rparr>"

lemma new_store_stats: "mem_trust_stats (\<lambda>_. None) new_mem_store n = Inr empty_stats"
  by (simp add: mem_trust_stats_def new_mem_store_def map_values_def top_boundaries_def empty_stats_def
      sorted_list_of_fset.rep_eq)

theorem graph_facts_total_witness:
  "sum_list (map kc_count (gf_by_kind (new_graph_facts empty_stats))) = gf_edges (new_graph_facts empty_stats)"
  using graph_facts_total [OF _ new_store_stats] by (simp add: new_mem_store_def)

definition one_doc :: "string \<Rightarrow> trust_snapshot option" where
  "one_doc raw = (if raw = ''doc'' then Some empty_snapshot else None)"

theorem publish_reads_current_witness:
  "trust_evaluate one_doc id (mem_metadata None (publish (\<lambda>_. ''doc'') id new_mem_store empty_snapshot))
     (Some (mem_trust_stats (\<lambda>_. None) (publish (\<lambda>_. ''doc'') id new_mem_store empty_snapshot))) settled ''g1''
   = (empty_snapshot, state_current, None)"
  by (rule conjunct1 [OF publish_reads_current [OF _ _ _ _ _ _ new_store_stats]])
     (simp_all add: new_mem_store_def one_doc_def empty_snapshot_def zero_snapshot_def settled_def
       empty_stats_def snapshot_schema_version_def)

definition doc_metadata :: "string \<Rightarrow> store_error + string" where
  "doc_metadata k =
     (if k = meta_snapshot then Inr ''doc''
      else if k = meta_snapshot_digest then Inr ''sha256:doc''
      else if k = meta_snapshot_generation then Inr ''g1'' else Inl ErrNotFound)"

lemma doc_current:
  "trust_evaluate one_doc id doc_metadata (Some (\<lambda>_. Inr empty_stats)) settled ''g1'' =
     (empty_snapshot, state_current, None)"
  by (simp add: trust_evaluate_def trust_load_def doc_metadata_def trust_digest_def trust_decode_def one_doc_def)
     (simp add: derive_current_iff empty_snapshot_def zero_snapshot_def settled_def empty_stats_def
       snapshot_schema_version_def)

theorem evaluate_current_verified_witness:
  "gr_full_pass (sn_generation empty_snapshot) = ''g1''"
  using evaluate_current_verified [OF doc_current] by blast

end
