(* ===== verification/TrustModel.thy ===== *)
theory TrustModel
  imports TrustFacts
begin

text \<open>
  The assessment model of \<open>engine/trust\<close>: verdicts, scopes, findings and their closed registry
  (\<open>assess.go\<close>, \<open>findings.go\<close>), recommendations (\<open>recommend.go\<close>) and limitations
  (\<open>limitations.go\<close>).  Codes, severities, dimensions and scope kinds are strings, as on the
  wire; the zero \<open>Verdict\<close> of an assessment nobody judged is \<open>NoVerdict\<close>.
\<close>

datatype verdict = NoVerdict | Pass | Warn | Fail | Unverified

definition severity_info :: string where "severity_info = ''info''"
definition severity_warning :: string where "severity_warning = ''warning''"
definition severity_error :: string where "severity_error = ''error''"

definition scope_repository :: string where "scope_repository = ''repository''"
definition scope_package :: string where "scope_package = ''package''"
definition scope_file :: string where "scope_file = ''file''"
definition scope_symbol :: string where "scope_symbol = ''symbol''"
definition scope_result_set :: string where "scope_result_set = ''result-set''"

record scope_ref =
  sr_kind :: string
  sr_id :: string
  sr_path :: string
  sr_package :: string
  sr_symbol :: string

record policy_ref =
  pr_id :: string
  pr_name :: string
  pr_version :: int

record finding =
  fd_code :: string
  fd_severity :: string
  fd_dimension :: string
  fd_scope :: scope_ref
  fd_observed :: string
  fd_threshold :: string
  fd_message :: string

record limitation =
  lm_code :: string
  lm_severity :: string
  lm_count :: int
  lm_action :: string

record assessment =
  as_schema :: int
  as_policy :: policy_ref
  as_scope :: scope_ref
  as_state :: snap_state
  as_verdict :: verdict
  as_findings :: "finding list"
  as_limitations :: "limitation list"
  as_recommendations :: "string list"
  as_checks :: "string list"

definition assessment_schema_version :: int where
  "assessment_schema_version = 1"

text \<open>\<open>strconv.Itoa\<close>\<close>

definition digit_char :: "nat \<Rightarrow> char" where
  "digit_char d = ''0123456789'' ! (d mod 10)"

fun nat_digits :: "nat \<Rightarrow> string" where
  "nat_digits n = (if n < 10 then [digit_char n] else nat_digits (n div 10) @ [digit_char n])"

declare nat_digits.simps [simp del]

definition itoa :: "int \<Rightarrow> string" where
  "itoa n = (if n < 0 then CHR ''-'' # nat_digits (nat (- n)) else nat_digits (nat n))"

subsection \<open>Canonical orders\<close>

definition severity_rank :: "string \<Rightarrow> int" where
  "severity_rank s =
     (if s = severity_error then 0 else if s = severity_warning then 1
      else if s = severity_info then 2 else 3)"

definition scope_key :: "scope_ref \<Rightarrow> string \<times> string \<times> string \<times> string \<times> string" where
  "scope_key s = (sr_kind s, sr_id s, sr_path s, sr_package s, sr_symbol s)"

text \<open>
  \<open>compareScopes\<close> and \<open>compareFindings\<close> compare field by field: the lexicographic order of
  these tuples.  The dimension takes no part in it.
\<close>

definition finding_key ::
  "finding \<Rightarrow> int \<times> string \<times> string \<times> (string \<times> string \<times> string \<times> string \<times> string) \<times> string \<times> string \<times> string" where
  "finding_key f =
     (severity_rank (fd_severity f), fd_severity f, fd_code f, scope_key (fd_scope f),
      fd_observed f, fd_threshold f, fd_message f)"

definition sort_findings :: "finding list \<Rightarrow> finding list" where
  "sort_findings fs = sort_key finding_key fs"

definition limitation_key :: "limitation \<Rightarrow> int \<times> string \<times> string \<times> int \<times> string" where
  "limitation_key l =
     (severity_rank (lm_severity l), lm_severity l, lm_code l, lm_count l, lm_action l)"

definition sort_limitations :: "limitation list \<Rightarrow> limitation list" where
  "sort_limitations ls = sort_key limitation_key ls"

text \<open>\<open>EncodeAssessment\<close> up to the JSON text: the document it hands to the encoder.\<close>

definition encode_assessment :: "assessment \<Rightarrow> assessment" where
  "encode_assessment a =
     a\<lparr>as_findings := sort_findings (as_findings a), as_limitations := sort_limitations (as_limitations a)\<rparr>"

subsection \<open>Recommendations\<close>

definition recommend_sync :: string where
  "recommend_sync = ''run ''@[CHR 0x27]@''graphi sync''@[CHR 0x27]"
definition recommend_rebuild :: string where
  "recommend_rebuild = ''run ''@[CHR 0x27]@''graphi rebuild''@[CHR 0x27]"
definition recommend_scoped_target :: string where
  "recommend_scoped_target = ''use --target for a scoped assessment''"
definition recommend_no_automated_change :: string where
  "recommend_no_automated_change = ''do not use the automated-change-v1 policy''"
definition recommend_human_review_boundary :: string where
  "recommend_human_review_boundary = ''human review required at external boundary''"
definition recommend_review_skipped_files :: string where
  "recommend_review_skipped_files = ''review skipped files''"
definition recommend_inspect_degraded_packages :: string where
  "recommend_inspect_degraded_packages = ''inspect degraded packages''"
definition recommend_supplement_evidence :: string where
  "recommend_supplement_evidence = ''supplement with compiler or tests''"
definition recommend_verify_target :: string where
  "recommend_verify_target =
     ''verify the target spelling or run ''@[CHR 0x27]@''graphi sync''@[CHR 0x27]"
definition recommend_disambiguate_target :: string where
  "recommend_disambiguate_target = ''disambiguate the target with a fully qualified name''"

subsection \<open>The finding registry\<close>

definition finding_graph_stale :: string where "finding_graph_stale = ''GRAPH_STALE''"
definition finding_snapshot_missing :: string where "finding_snapshot_missing = ''SNAPSHOT_MISSING''"
definition finding_parse_skipped :: string where
  "finding_parse_skipped = ''PARSE_SKIPPED_IN_SCOPE''"
definition finding_package_degraded :: string where "finding_package_degraded = ''PACKAGE_DEGRADED''"
definition finding_ambiguous_reference :: string where
  "finding_ambiguous_reference = ''AMBIGUOUS_REFERENCE_IN_SCOPE''"
definition finding_unresolved_reference :: string where
  "finding_unresolved_reference = ''UNRESOLVED_REFERENCE_IN_SCOPE''"
definition finding_heuristic_only_path :: string where
  "finding_heuristic_only_path = ''HEURISTIC_ONLY_PATH''"
definition finding_external_boundary :: string where
  "finding_external_boundary = ''EXTERNAL_BOUNDARY_REACHED''"
definition finding_target_not_found :: string where "finding_target_not_found = ''TARGET_NOT_FOUND''"
definition finding_scope_evidence_unavailable :: string where
  "finding_scope_evidence_unavailable = ''SCOPE_EVIDENCE_UNAVAILABLE''"
definition finding_target_ambiguous :: string where "finding_target_ambiguous = ''TARGET_AMBIGUOUS''"
definition finding_graph_unavailable :: string where
  "finding_graph_unavailable = ''GRAPH_UNAVAILABLE''"
definition finding_snapshot_stale :: string where "finding_snapshot_stale = ''SNAPSHOT_STALE''"
definition finding_heuristic_edges_present :: string where
  "finding_heuristic_edges_present = ''HEURISTIC_EDGES_PRESENT''"

record finding_default =
  dflt_severity :: string
  dflt_dimension :: string
  dflt_action :: string

definition dflt :: "string \<Rightarrow> string \<Rightarrow> string \<Rightarrow> finding_default" where
  "dflt s d a = \<lparr>dflt_severity = s, dflt_dimension = d, dflt_action = a\<rparr>"

definition finding_table :: "(string \<times> finding_default) list" where
  "finding_table =
     [(finding_graph_unavailable, dflt severity_error ''freshness'' recommend_rebuild),
      (finding_graph_stale, dflt severity_warning ''freshness'' recommend_sync),
      (finding_snapshot_missing, dflt severity_warning ''snapshot'' recommend_rebuild),
      (finding_snapshot_stale, dflt severity_warning ''snapshot'' recommend_sync),
      (finding_parse_skipped, dflt severity_warning ''coverage'' recommend_review_skipped_files),
      (finding_package_degraded, dflt severity_warning ''coverage'' recommend_inspect_degraded_packages),
      (finding_ambiguous_reference, dflt severity_warning ''resolution'' recommend_scoped_target),
      (finding_unresolved_reference, dflt severity_warning ''resolution'' recommend_supplement_evidence),
      (finding_heuristic_only_path, dflt severity_warning ''evidence'' recommend_supplement_evidence),
      (finding_heuristic_edges_present, dflt severity_info ''evidence'' recommend_scoped_target),
      (finding_external_boundary, dflt severity_info ''boundary'' recommend_human_review_boundary),
      (finding_target_not_found, dflt severity_error ''target'' recommend_verify_target),
      (finding_target_ambiguous, dflt severity_error ''target'' recommend_disambiguate_target),
      (finding_scope_evidence_unavailable, dflt severity_warning ''evidence'' recommend_no_automated_change)]"

definition finding_defaults :: "string \<Rightarrow> finding_default option" where
  "finding_defaults code = map_of finding_table code"

datatype trust_error =
    ErrUnknownFindingCode string
  | ErrPolicyUnknown string
  | ErrSelectiveLookupUnavailable
  | ErrStore store_error

definition new_finding ::
  "string \<Rightarrow> scope_ref \<Rightarrow> string \<Rightarrow> string \<Rightarrow> string \<Rightarrow> trust_error + finding" where
  "new_finding code scope observed threshold message =
     (case finding_defaults code of
        None \<Rightarrow> Inl (ErrUnknownFindingCode code)
      | Some d \<Rightarrow>
          Inr \<lparr>fd_code = code, fd_severity = dflt_severity d, fd_dimension = dflt_dimension d,
               fd_scope = scope, fd_observed = observed, fd_threshold = threshold, fd_message = message\<rparr>)"

definition state_recommendation :: "snap_state \<Rightarrow> string option" where
  "state_recommendation st =
     (if st = state_stale then Some recommend_sync
      else if st = state_incomplete then Some recommend_rebuild
      else if st = state_unavailable then Some recommend_rebuild else None)"

text \<open>The closure \<open>add\<close> of \<open>Recommendations\<close>: its list of outputs is also the set of those seen.\<close>

definition add_recommendation :: "string list \<Rightarrow> string \<Rightarrow> string list" where
  "add_recommendation out r = (if r \<in> set out \<or> r = [] then out else out @ [r])"

definition recommendations :: "snap_state \<Rightarrow> finding list \<Rightarrow> string list" where
  "recommendations st fs =
     foldl (\<lambda>out f. case finding_defaults (fd_code f) of
                      None \<Rightarrow> out
                    | Some d \<Rightarrow> add_recommendation out (dflt_action d))
       (case state_recommendation st of None \<Rightarrow> [] | Some r \<Rightarrow> add_recommendation [] r) fs"

subsection \<open>Limitations\<close>

definition mk_limitation :: "string \<Rightarrow> string \<Rightarrow> int \<Rightarrow> string \<Rightarrow> limitation" where
  "mk_limitation code sev n act = \<lparr>lm_code = code, lm_severity = sev, lm_count = n, lm_action = act\<rparr>"

definition limitations_from_snapshot :: "trust_snapshot \<Rightarrow> limitation list" where
  "limitations_from_snapshot s =
     sort_limitations
       ((if pf_skipped (sn_parse s) > 0
         then [mk_limitation ''PARSE_SKIPPED'' severity_warning (pf_skipped (sn_parse s))
                 recommend_review_skipped_files] else []) @
        (if tr_units_degraded (sn_types s) > 0
         then [mk_limitation ''TYPECHECK_DEGRADED'' severity_warning (tr_units_degraded (sn_types s))
                 recommend_inspect_degraded_packages] else []) @
        (if lf_ambiguous (sn_link s) > 0
         then [mk_limitation ''AMBIGUOUS_REFERENCES'' severity_warning (lf_ambiguous (sn_link s))
                 recommend_scoped_target] else []) @
        (if xf_edges (sn_external s) > 0
         then [mk_limitation ''EXTERNAL_NOT_NAVIGABLE'' severity_info (xf_edges (sn_external s))
                 recommend_human_review_boundary] else []) @
        [mk_limitation ''CROSS_REPOSITORY_UNAVAILABLE'' severity_info 0
           ''treat cross-repository references as out of scope'',
         mk_limitation ''DEPENDENCY_INTERNALS_UNKNOWN'' severity_info 0
           ''do not assume dependency internals''])"

subsection \<open>Properties\<close>

lemmas finding_code_defs =
  finding_graph_stale_def finding_snapshot_missing_def finding_parse_skipped_def
  finding_package_degraded_def finding_ambiguous_reference_def finding_unresolved_reference_def
  finding_heuristic_only_path_def finding_external_boundary_def finding_target_not_found_def
  finding_scope_evidence_unavailable_def finding_target_ambiguous_def finding_graph_unavailable_def
  finding_snapshot_stale_def finding_heuristic_edges_present_def

lemmas recommend_defs =
  recommend_sync_def recommend_rebuild_def recommend_scoped_target_def recommend_no_automated_change_def
  recommend_human_review_boundary_def recommend_review_skipped_files_def
  recommend_inspect_degraded_packages_def recommend_supplement_evidence_def recommend_verify_target_def
  recommend_disambiguate_target_def

lemma distinct_finding_codes: "distinct (map fst finding_table)"
  by code_simp

definition registry_code :: "string \<Rightarrow> bool" where
  "registry_code code \<longleftrightarrow> code \<in> set (map fst finding_table)"

lemma finding_defaults_None: "finding_defaults code = None \<longleftrightarrow> \<not> registry_code code"
  by (simp add: finding_defaults_def registry_code_def map_of_eq_None_iff)

lemma registry_codes [simp]:
  "registry_code finding_graph_stale" "registry_code finding_snapshot_missing"
  "registry_code finding_parse_skipped" "registry_code finding_package_degraded"
  "registry_code finding_ambiguous_reference" "registry_code finding_unresolved_reference"
  "registry_code finding_heuristic_only_path" "registry_code finding_external_boundary"
  "registry_code finding_target_not_found" "registry_code finding_scope_evidence_unavailable"
  "registry_code finding_target_ambiguous" "registry_code finding_graph_unavailable"
  "registry_code finding_snapshot_stale" "registry_code finding_heuristic_edges_present"
  by (simp_all add: registry_code_def finding_table_def)

definition fixed_actions :: "string list" where
  "fixed_actions =
     [recommend_sync, recommend_rebuild, recommend_scoped_target, recommend_no_automated_change,
      recommend_human_review_boundary, recommend_review_skipped_files,
      recommend_inspect_degraded_packages, recommend_supplement_evidence, recommend_verify_target,
      recommend_disambiguate_target]"

lemma table_actions: "finding_defaults code = Some d \<Longrightarrow> dflt_action d \<in> set fixed_actions \<and> dflt_action d \<noteq> []"
proof -
  assume "finding_defaults code = Some d"
  then have "(code, d) \<in> set finding_table" unfolding finding_defaults_def by (rule map_of_SomeD)
  moreover have "list_all (\<lambda>(c, d). dflt_action d \<in> set fixed_actions \<and> dflt_action d \<noteq> []) finding_table"
    by code_simp
  ultimately show ?thesis by (auto simp: list_all_iff)
qed

text \<open>The registry, by severity and by dimension.\<close>

definition severity_of_code :: "string \<Rightarrow> string" where
  "severity_of_code code =
     (if code \<in> {''GRAPH_UNAVAILABLE'', ''TARGET_NOT_FOUND'', ''TARGET_AMBIGUOUS''} then severity_error
      else if code \<in> {''HEURISTIC_EDGES_PRESENT'', ''EXTERNAL_BOUNDARY_REACHED''} then severity_info
      else severity_warning)"

definition codes_of_dimension :: "(string \<times> string list) list" where
  "codes_of_dimension =
     [(''freshness'', [''GRAPH_UNAVAILABLE'', ''GRAPH_STALE'']),
      (''snapshot'', [''SNAPSHOT_MISSING'', ''SNAPSHOT_STALE'']),
      (''coverage'', [''PARSE_SKIPPED_IN_SCOPE'', ''PACKAGE_DEGRADED'']),
      (''resolution'', [''AMBIGUOUS_REFERENCE_IN_SCOPE'', ''UNRESOLVED_REFERENCE_IN_SCOPE'']),
      (''evidence'', [''HEURISTIC_ONLY_PATH'', ''HEURISTIC_EDGES_PRESENT'', ''SCOPE_EVIDENCE_UNAVAILABLE'']),
      (''boundary'', [''EXTERNAL_BOUNDARY_REACHED'']),
      (''target'', [''TARGET_NOT_FOUND'', ''TARGET_AMBIGUOUS''])]"

lemma table_by_dimension:
  "map_of finding_table code = Some d \<Longrightarrow>
     dflt_severity d = severity_of_code code \<and>
     (\<exists>cs. (dflt_dimension d, cs) \<in> set codes_of_dimension \<and> code \<in> set cs)"
proof -
  assume "map_of finding_table code = Some d"
  then have "(code, d) \<in> set finding_table" by (rule map_of_SomeD)
  moreover have "list_all (\<lambda>(c, d). dflt_severity d = severity_of_code c \<and>
      list_ex (\<lambda>(dim, cs). dim = dflt_dimension d \<and> c \<in> set cs) codes_of_dimension) finding_table" by code_simp
  ultimately show ?thesis by (fastforce simp: list_all_iff list_ex_iff)
qed

lemma finding_by_registry:
  "(case new_finding code sc ob th ms of
      Inl e \<Rightarrow> e = ErrUnknownFindingCode code \<and> (\<forall>(dim, cs) \<in> set codes_of_dimension. code \<notin> set cs)
    | Inr f \<Rightarrow> fd_code f = code \<and> fd_severity f = severity_of_code code \<and>
        (\<exists>cs. (fd_dimension f, cs) \<in> set codes_of_dimension \<and> code \<in> set cs) \<and>
        fd_scope f = sc \<and> fd_observed f = ob \<and> fd_threshold f = th \<and> fd_message f = ms)"
proof (cases "map_of finding_table code")
  case None
  have "list_all (\<lambda>(dim, cs). list_all (\<lambda>c. c \<in> set (map fst finding_table)) cs) codes_of_dimension" by code_simp
  moreover have "code \<notin> set (map fst finding_table)" using None by (simp add: map_of_eq_None_iff)
  ultimately show ?thesis using None by (auto simp: new_finding_def finding_defaults_def list_all_iff)
next
  case (Some d)
  then show ?thesis using table_by_dimension [OF Some] by (simp add: new_finding_def finding_defaults_def)
qed

definition recommend_step :: "string list \<Rightarrow> finding \<Rightarrow> string list" where
  "recommend_step out f =
     (case finding_defaults (fd_code f) of None \<Rightarrow> out | Some d \<Rightarrow> add_recommendation out (dflt_action d))"

lemma recommend_steps:
  assumes "distinct out" "set out \<subseteq> set fixed_actions"
  shows "distinct (foldl recommend_step out fs) \<and> set (foldl recommend_step out fs) \<subseteq> set fixed_actions \<and>
    set (foldl recommend_step out fs) =
      set out \<union> {dflt_action d |f d. f \<in> set fs \<and> finding_defaults (fd_code f) = Some d} \<and>
    (\<exists>rest. foldl recommend_step out fs = out @ rest)"
  using assms
proof (induction fs arbitrary: out)
  case (Cons f fs)
  have step: "distinct (recommend_step out f) \<and> set (recommend_step out f) \<subseteq> set fixed_actions \<and>
      set (recommend_step out f) = set out \<union> {dflt_action d |d. finding_defaults (fd_code f) = Some d} \<and>
      (\<exists>rest. recommend_step out f = out @ rest)"
    using Cons.prems table_actions [of "fd_code f"]
    by (auto simp: recommend_step_def add_recommendation_def split: option.splits)
  show ?case
    using Cons.IH [of "recommend_step out f"] step
  proof -
    let ?o = "recommend_step out f"
    have ih: "distinct (foldl recommend_step ?o fs)" "set (foldl recommend_step ?o fs) \<subseteq> set fixed_actions"
        "set (foldl recommend_step ?o fs) =
           set ?o \<union> {dflt_action d |g d. g \<in> set fs \<and> finding_defaults (fd_code g) = Some d}"
        "\<exists>rest. foldl recommend_step ?o fs = ?o @ rest"
      using Cons.IH [OF step [THEN conjunct1] step [THEN conjunct2, THEN conjunct1]] by blast+
    have "set (foldl recommend_step ?o fs) =
        set out \<union> {dflt_action d |g d. g \<in> set (f # fs) \<and> finding_defaults (fd_code g) = Some d}"
    proof -
      have "set ?o = set out \<union> {dflt_action d |d. finding_defaults (fd_code f) = Some d}"
        using step by blast
      then show ?thesis unfolding ih(3) by (simp only:) auto
    qed
    moreover obtain r1 r2 where "?o = out @ r1" "foldl recommend_step ?o fs = ?o @ r2"
      using ih(4) step by blast
    then have "\<exists>rest. foldl recommend_step ?o fs = out @ rest" by (intro exI [of _ "r1 @ r2"]) simp
    ultimately show ?thesis using ih(1,2) unfolding foldl_Cons by blast
  qed
qed simp

lemma recommendations_eq:
  "recommendations st fs = foldl recommend_step (case state_recommendation st of None \<Rightarrow> [] | Some r \<Rightarrow> [r]) fs"
proof -
  have "(\<lambda>out f. case finding_defaults (fd_code f) of None \<Rightarrow> out
      | Some d \<Rightarrow> add_recommendation out (dflt_action d)) = recommend_step"
    by (intro ext) (simp add: recommend_step_def)
  moreover have "r \<noteq> []" if "state_recommendation st = Some r" for r
    using that by (auto simp: state_recommendation_def recommend_sync_def recommend_rebuild_def split: if_splits)
  ultimately show ?thesis
    by (auto simp: recommendations_def add_recommendation_def split: option.split)
qed

text \<open>
  the recommendations are a duplicate-free selection of the ten fixed strings, the
  state's own first; they contain the action of every registered finding and nothing else, so
  there are never more than ten however many findings there are.
\<close>

theorem recommendations_spec:
  "distinct (recommendations st fs) \<and> length (recommendations st fs) \<le> 10 \<and>
   set (recommendations st fs) =
     set_option (state_recommendation st) \<union>
     {dflt_action d |f d. f \<in> set fs \<and> finding_defaults (fd_code f) = Some d} \<and>
   (\<exists>rest. recommendations st fs =
      (case state_recommendation st of None \<Rightarrow> rest | Some r \<Rightarrow> r # rest))"
proof -
  let ?o = "case state_recommendation st of None \<Rightarrow> [] | Some r \<Rightarrow> [r]"
  have o: "distinct ?o" "set ?o \<subseteq> set fixed_actions"
    by (auto simp: state_recommendation_def fixed_actions_def split: option.splits if_splits)
  note s = recommend_steps [OF o, of fs, folded recommendations_eq]
  have "length (recommendations st fs) = card (set (recommendations st fs))"
    by (rule distinct_card [symmetric]) (use s in blast)
  also have "\<dots> \<le> card (set fixed_actions)" by (rule card_mono [OF finite_set]) (use s in blast)
  also have "\<dots> \<le> 10" using card_length [of fixed_actions] by (simp add: fixed_actions_def)
  finally have len: "length (recommendations st fs) \<le> 10" .
  obtain rest where rest: "recommendations st fs = ?o @ rest" using s by blast
  have "\<exists>rest. recommendations st fs = (case state_recommendation st of None \<Rightarrow> rest | Some r \<Rightarrow> r # rest)"
    using rest by (cases "state_recommendation st") simp_all
  moreover have "set ?o = set_option (state_recommendation st)" by (cases "state_recommendation st") simp_all
  ultimately show ?thesis using s len by (simp only: simp_thms)
qed

text \<open>
  for findings with the registry's dimension the canonical document does
  not depend on the order in which the rules produced them: sorting is a function of the
  multiset, most severe first.
\<close>

theorem sort_findings_canonical:
  assumes "mset fs = mset fs'"
    and "\<forall>f \<in> set fs. \<exists>d. finding_defaults (fd_code f) = Some d \<and> fd_dimension f = dflt_dimension d"
  shows "sort_findings fs = sort_findings fs' \<and>
    sorted (map (\<lambda>f. severity_rank (fd_severity f)) (sort_findings fs))"
proof -
  have "f = g" if f: "f \<in> set fs" "g \<in> set fs" "finding_key f = finding_key g" for f g
  proof -
    have "fd_code f = fd_code g" using f(3) by (simp add: finding_key_def)
    moreover obtain d where "finding_defaults (fd_code f) = Some d" "fd_dimension f = dflt_dimension d"
      using assms(2) f(1) by blast
    moreover obtain d' where "finding_defaults (fd_code g) = Some d'" "fd_dimension g = dflt_dimension d'"
      using assms(2) f(2) by blast
    ultimately have "fd_dimension f = fd_dimension g" by simp
    moreover have "fd_scope f = fd_scope g"
      using f(3) by (cases "fd_scope f"; cases "fd_scope g") (simp add: finding_key_def scope_key_def)
    ultimately show ?thesis using f(3) by (cases f; cases g) (simp add: finding_key_def)
  qed
  then have "inj_on finding_key (set fs)" by (intro inj_onI)
  then have "sort_findings fs = sort_findings fs'"
    unfolding sort_findings_def by (rule sort_key_mset_cong [OF assms(1)])
  moreover have "sorted (map (\<lambda>f. severity_rank (fd_severity f)) (sort_findings fs))"
  proof -
    have "sorted (map finding_key (sort_findings fs))" by (simp add: sort_findings_def)
    then show ?thesis
      unfolding sorted_map by (rule sorted_wrt_mono_rel [rotated]) (auto simp: finding_key_def less_eq_prod_def)
  qed
  ultimately show ?thesis by blast
qed

definition parse_finding :: "string \<Rightarrow> finding" where
  "parse_finding code =
     (case new_finding code \<lparr>sr_kind = scope_repository, sr_id = [], sr_path = [], sr_package = [], sr_symbol = []\<rparr>
        ''1'' ''0'' [] of Inr f \<Rightarrow> f)"

theorem sort_findings_canonical_witness:
  "sort_findings [parse_finding finding_parse_skipped, parse_finding finding_graph_unavailable] =
   sort_findings [parse_finding finding_graph_unavailable, parse_finding finding_parse_skipped] \<and>
   sorted (map (\<lambda>f. severity_rank (fd_severity f))
     (sort_findings [parse_finding finding_parse_skipped, parse_finding finding_graph_unavailable]))"
proof (rule sort_findings_canonical)
  show "mset [parse_finding finding_parse_skipped, parse_finding finding_graph_unavailable] =
      mset [parse_finding finding_graph_unavailable, parse_finding finding_parse_skipped]" by simp
  have "finding_defaults (fd_code (parse_finding c)) = Some d \<and> fd_dimension (parse_finding c) = dflt_dimension d"
    if "finding_defaults c = Some d" for c d
    using that by (simp add: parse_finding_def new_finding_def)
  moreover have "\<exists>d. finding_defaults finding_parse_skipped = Some d" "\<exists>d. finding_defaults finding_graph_unavailable = Some d"
    using finding_defaults_None registry_codes by blast+
  ultimately show "\<forall>f \<in> set [parse_finding finding_parse_skipped, parse_finding finding_graph_unavailable].
      \<exists>d. finding_defaults (fd_code f) = Some d \<and> fd_dimension f = dflt_dimension d" by fastforce
qed

text \<open>
  every assessment carries the two standing limits and at most six in all, the
  counted ones exactly when their count is positive, in canonical order.
\<close>

theorem limitations_spec:
  "2 \<le> length (limitations_from_snapshot s) \<and> length (limitations_from_snapshot s) \<le> 6 \<and>
   sorted (map limitation_key (limitations_from_snapshot s)) \<and>
   lm_code ` set (limitations_from_snapshot s) =
     {''CROSS_REPOSITORY_UNAVAILABLE'', ''DEPENDENCY_INTERNALS_UNKNOWN''} \<union>
     (if pf_skipped (sn_parse s) > 0 then {''PARSE_SKIPPED''} else {}) \<union>
     (if tr_units_degraded (sn_types s) > 0 then {''TYPECHECK_DEGRADED''} else {}) \<union>
     (if lf_ambiguous (sn_link s) > 0 then {''AMBIGUOUS_REFERENCES''} else {}) \<union>
     (if xf_edges (sn_external s) > 0 then {''EXTERNAL_NOT_NAVIGABLE''} else {})"
proof -
  have sorted: "sorted (map limitation_key (limitations_from_snapshot s))"
    by (simp add: limitations_from_snapshot_def sort_limitations_def)
  have len: "2 \<le> length (limitations_from_snapshot s) \<and> length (limitations_from_snapshot s) \<le> 6"
    by (simp add: limitations_from_snapshot_def sort_limitations_def)
  have codes: "lm_code ` set (limitations_from_snapshot s) =
     {''CROSS_REPOSITORY_UNAVAILABLE'', ''DEPENDENCY_INTERNALS_UNKNOWN''} \<union>
     (if pf_skipped (sn_parse s) > 0 then {''PARSE_SKIPPED''} else {}) \<union>
     (if tr_units_degraded (sn_types s) > 0 then {''TYPECHECK_DEGRADED''} else {}) \<union>
     (if lf_ambiguous (sn_link s) > 0 then {''AMBIGUOUS_REFERENCES''} else {}) \<union>
     (if xf_edges (sn_external s) > 0 then {''EXTERNAL_NOT_NAVIGABLE''} else {})"
    by (simp add: limitations_from_snapshot_def sort_limitations_def mk_limitation_def)
  show ?thesis using sorted len codes by blast
qed

end
