(* ===== verification/TrustPolicy.thy ===== *)
theory TrustPolicy
  imports TrustModel
begin

text \<open>
  The policy evaluator of \<open>engine/trust\<close> (\<open>policy.go\<close>, \<open>scopefacts.go\<close>): the evidence rows of a
  target scope, the rule constructors, the three built-in policies, their identifiers, and
  \<open>EvaluateWithScopeFacts\<close>.  A rule's closure is the field \<open>ru_eval\<close>.  The panic of
  \<open>policyFinding\<close> is the value \<open>None\<close>, threaded through the evaluator.
\<close>

definition parse_status_parsed :: string where "parse_status_parsed = ''parsed''"
definition parse_status_skipped :: string where "parse_status_skipped = ''skipped''"
definition package_checked :: string where "package_checked = ''checked''"
definition package_checked_with_errors :: string where
  "package_checked_with_errors = ''checked_with_errors''"
definition package_degraded :: string where "package_degraded = ''degraded''"
definition package_skipped :: string where "package_skipped = ''skipped''"

record scope_file_facts =
  sf_parse_status :: string
  sf_parse_reason :: string
  sf_resolved_derived :: int
  sf_resolved_heuristic :: int
  sf_resolved_external :: int
  sf_skipped :: int
  sf_ambiguous :: int

record scope_package_facts =
  sp_state :: string
  sp_degraded_reason :: string
  sp_type_errors :: int
  sp_dropped_intents :: int
  sp_confirmed_edges :: int
  sp_skipped_files :: int

record scope_facts =
  sc_available :: bool
  sc_file :: scope_file_facts
  sc_package :: scope_package_facts

definition zero_file_facts :: scope_file_facts where
  "zero_file_facts =
     \<lparr>sf_parse_status = [], sf_parse_reason = [], sf_resolved_derived = 0, sf_resolved_heuristic = 0,
      sf_resolved_external = 0, sf_skipped = 0, sf_ambiguous = 0\<rparr>"

definition zero_package_facts :: scope_package_facts where
  "zero_package_facts =
     \<lparr>sp_state = [], sp_degraded_reason = [], sp_type_errors = 0, sp_dropped_intents = 0,
      sp_confirmed_edges = 0, sp_skipped_files = 0\<rparr>"

definition no_scope_facts :: scope_facts where
  "no_scope_facts = \<lparr>sc_available = False, sc_file = zero_file_facts, sc_package = zero_package_facts\<rparr>"

definition well_formed_facts :: "scope_facts \<Rightarrow> bool" where
  "well_formed_facts sf =
     (if \<not> sc_available sf then False
      else
        let file_claim = sf_parse_status (sc_file sf) \<noteq> [];
            package_claim = sp_state (sc_package sf) \<noteq> []
        in if \<not> file_claim \<and> \<not> package_claim then False
           else if file_claim \<and>
             sf_parse_status (sc_file sf) \<notin> {parse_status_parsed, parse_status_skipped} then False
           else if package_claim \<and>
             sp_state (sc_package sf) \<notin>
               {package_checked, package_checked_with_errors, package_degraded, package_skipped} then False
           else True)"

subsection \<open>Rules\<close>

record rule_input =
  ri_snap :: trust_snapshot
  ri_st :: snap_state
  ri_scope :: scope_ref
  ri_resolution :: "finding list"
  ri_facts :: scope_facts

record rule_result =
  rs_passed :: bool
  rs_findings :: "finding list"
  rs_verdict :: verdict

record policy_rule =
  ru_id :: string
  ru_check :: string
  ru_eval :: "rule_input \<Rightarrow> rule_result option"

record policy =
  pl_name :: string
  pl_version :: int
  pl_rules :: "policy_rule list"

fun verdict_rank :: "verdict \<Rightarrow> int" where
  "verdict_rank Fail = 3"
| "verdict_rank Unverified = 2"
| "verdict_rank Warn = 1"
| "verdict_rank v = 0"

definition worse_verdict :: "verdict \<Rightarrow> verdict \<Rightarrow> verdict" where
  "worse_verdict a b = (if verdict_rank b > verdict_rank a then b else a)"

definition policy_finding ::
  "string \<Rightarrow> string \<Rightarrow> scope_ref \<Rightarrow> string \<Rightarrow> string \<Rightarrow> string \<Rightarrow> finding option" where
  "policy_finding code severity scope observed threshold message =
     (case new_finding code scope observed threshold message of
        Inl e \<Rightarrow> None
      | Inr f \<Rightarrow> Some (if severity \<noteq> [] then f\<lparr>fd_severity := severity\<rparr> else f))"

definition rule_passed :: "rule_result option" where
  "rule_passed = Some \<lparr>rs_passed = True, rs_findings = [], rs_verdict = NoVerdict\<rparr>"

definition rule_skipped :: "rule_result option" where
  "rule_skipped = Some \<lparr>rs_passed = False, rs_findings = [], rs_verdict = NoVerdict\<rparr>"

definition rule_silent :: "verdict \<Rightarrow> rule_result option" where
  "rule_silent v = Some \<lparr>rs_passed = False, rs_findings = [], rs_verdict = v\<rparr>"

definition fired_all :: "verdict \<Rightarrow> finding list \<Rightarrow> rule_result option" where
  "fired_all v fs = Some \<lparr>rs_passed = False, rs_findings = fs, rs_verdict = v\<rparr>"

definition fired :: "verdict \<Rightarrow> finding option \<Rightarrow> rule_result option" where
  "fired v f = (case f of None \<Rightarrow> None | Some f' \<Rightarrow> fired_all v [f'])"

definition state_known :: "snap_state \<Rightarrow> bool" where
  "state_known st \<longleftrightarrow> st \<in> {state_current, state_stale, state_incomplete, state_unavailable}"

definition scope_resolved :: "scope_ref \<Rightarrow> bool" where
  "scope_resolved s =
     (if sr_kind s = scope_repository then True
      else if sr_kind s = scope_file then sr_path s \<noteq> []
      else if sr_kind s = scope_symbol then sr_id s \<noteq> []
      else if sr_kind s = scope_package then sr_id s \<noteq> []
      else False)"

definition heuristic_only :: "trust_snapshot \<Rightarrow> bool" where
  "heuristic_only s \<longleftrightarrow>
     tk_confirmed (gf_by_tier (sn_graph s)) = 0 \<and> tk_derived (gf_by_tier (sn_graph s)) = 0 \<and>
     tk_heuristic (gf_by_tier (sn_graph s)) > 0"

definition parse_skip_evidence :: "parse_facts \<Rightarrow> int" where
  "parse_skip_evidence p =
     (let n = pf_skipped p;
          n = (if int (length (pf_paths p)) > n then int (length (pf_paths p)) else n);
          by_reason = foldl (\<lambda>b r. if rc_count r > 0 then b + rc_count r else b) 0 (pf_by_reason p)
      in if by_reason > n then by_reason else n)"

definition degraded_evidence :: "type_resolution_facts \<Rightarrow> int" where
  "degraded_evidence tr =
     (let n = tr_units_degraded tr
      in if int (length (tr_degraded_units tr)) > n then int (length (tr_degraded_units tr)) else n)"

definition resolution_has :: "finding list \<Rightarrow> string \<Rightarrow> bool" where
  "resolution_has fs code \<longleftrightarrow> (\<exists>f \<in> set fs. fd_code f = code)"

definition scope_facts_usable :: "rule_input \<Rightarrow> bool" where
  "scope_facts_usable i \<longleftrightarrow>
     sr_kind (ri_scope i) \<noteq> scope_repository \<and> scope_resolved (ri_scope i) \<and> well_formed_facts (ri_facts i)"

definition repo_facts_usable :: "rule_input \<Rightarrow> bool" where
  "repo_facts_usable i \<longleftrightarrow>
     sr_kind (ri_scope i) = scope_repository \<and> state_known (ri_st i) \<and> ri_st i \<noteq> state_unavailable"

subsection \<open>The state rules\<close>

definition rule_graph_available :: "string \<Rightarrow> policy_rule" where
  "rule_graph_available rid =
     \<lparr>ru_id = rid, ru_check = ''graph available'', ru_eval = (\<lambda>i.
        if ri_st i = state_unavailable then
          fired Unverified (policy_finding finding_graph_unavailable [] (ri_scope i) (ri_st i) state_current
            ''no usable graph or trust snapshot evidence: snapshot state is UNAVAILABLE'')
        else if \<not> state_known (ri_st i) then
          fired Unverified (policy_finding finding_graph_unavailable [] (ri_scope i) (ri_st i) state_current
            ''snapshot state is outside the closed set; no usable evidence (fail closed)'')
        else rule_passed)\<rparr>"

definition rule_graph_not_stale :: "string \<Rightarrow> policy_rule" where
  "rule_graph_not_stale rid =
     \<lparr>ru_id = rid, ru_check = ''graph current'', ru_eval = (\<lambda>i.
        if ri_st i = state_stale then
          fired Warn (policy_finding finding_graph_stale severity_warning (ri_scope i) (ri_st i) state_current
            ''the graph is not current: snapshot state is STALE'')
        else if ri_st i = state_current then rule_passed
        else rule_skipped)\<rparr>"

definition rule_graph_current :: "string \<Rightarrow> policy_rule" where
  "rule_graph_current rid =
     \<lparr>ru_id = rid, ru_check = ''graph current'', ru_eval = (\<lambda>i.
        if ri_st i = state_current then rule_passed
        else if ri_st i = state_unavailable then
          fired Unverified (policy_finding finding_graph_unavailable [] (ri_scope i) (ri_st i) state_current
            ''no usable graph or trust snapshot evidence: snapshot state is UNAVAILABLE'')
        else if ri_st i = state_incomplete then
          fired Unverified (policy_finding finding_graph_stale [] (ri_scope i) (ri_st i) state_current
            ''the graph is not settled: snapshot state is INCOMPLETE (running or aborted ingest)'')
        else if ri_st i = state_stale then
          fired Fail (policy_finding finding_graph_stale severity_error (ri_scope i) (ri_st i) state_current
            ''the graph is not current: snapshot state is STALE'')
        else
          fired Unverified (policy_finding finding_graph_unavailable [] (ri_scope i) (ri_st i) state_current
            ''snapshot state is outside the closed set; no usable evidence (fail closed)''))\<rparr>"

definition rule_snapshot_published :: "string \<Rightarrow> policy_rule" where
  "rule_snapshot_published rid =
     \<lparr>ru_id = rid, ru_check = ''trust snapshot published'', ru_eval = (\<lambda>i.
        if ri_st i = state_current \<or> ri_st i = state_stale then rule_passed
        else if ri_st i = state_unavailable then
          fired Unverified (policy_finding finding_snapshot_missing [] (ri_scope i) (ri_st i) state_current
            ''no usable trust snapshot: snapshot state is UNAVAILABLE'')
        else if ri_st i = state_incomplete then
          fired Unverified (policy_finding finding_snapshot_missing [] (ri_scope i) (ri_st i) state_current
            ''no released trust snapshot: snapshot state is INCOMPLETE (a snapshot is released only after a successful ingest)'')
        else
          fired Unverified (policy_finding finding_snapshot_missing [] (ri_scope i) (ri_st i) state_current
            ''snapshot state is outside the closed set; cannot establish a released trust snapshot (fail closed)''))\<rparr>"

definition rule_snapshot_current :: "string \<Rightarrow> policy_rule" where
  "rule_snapshot_current rid =
     \<lparr>ru_id = rid, ru_check = ''trust snapshot current'', ru_eval = (\<lambda>i.
        if ri_st i = state_stale then
          fired Fail (policy_finding finding_snapshot_stale severity_error (ri_scope i) (ri_st i) state_current
            ''the trust snapshot cannot be considered current: snapshot state is STALE'')
        else ru_eval (rule_snapshot_published rid) i)\<rparr>"

subsection \<open>The target rules\<close>

definition rule_target_resolved :: "string \<Rightarrow> verdict \<Rightarrow> verdict \<Rightarrow> verdict \<Rightarrow> policy_rule" where
  "rule_target_resolved rid not_found ambiguous evidence =
     \<lparr>ru_id = rid, ru_check = ''target resolved'', ru_eval = (\<lambda>i.
        if ri_resolution i = [] then
          (if scope_resolved (ri_scope i) then rule_passed else rule_silent Unverified)
        else
          fired_all
            (foldl (\<lambda>v f. if fd_code f = finding_target_not_found then worse_verdict v not_found
                          else if fd_code f = finding_target_ambiguous then worse_verdict v ambiguous
                          else worse_verdict v evidence) Pass (ri_resolution i))
            (ri_resolution i))\<rparr>"

definition rule_scope_evidence :: "string \<Rightarrow> verdict \<Rightarrow> policy_rule" where
  "rule_scope_evidence rid verdict =
     \<lparr>ru_id = rid, ru_check = ''scope evidence available'', ru_eval = (\<lambda>i.
        if sr_kind (ri_scope i) = scope_repository then
          (if repo_facts_usable i then rule_passed else rule_skipped)
        else if scope_facts_usable i then rule_passed
        else if resolution_has (ri_resolution i) finding_scope_evidence_unavailable then rule_silent verdict
        else
          fired verdict (policy_finding finding_scope_evidence_unavailable [] (ri_scope i)
            (sr_kind (ri_scope i)) scope_repository
            ''scope-level evidence is not collected in v1; only repository-scope facts exist''))\<rparr>"

subsection \<open>The evidence rules\<close>

definition scope_counter_outcome ::
  "rule_input \<Rightarrow> int \<Rightarrow> verdict \<Rightarrow> (int \<Rightarrow> finding option) \<Rightarrow> rule_result option" where
  "scope_counter_outcome i n verdict mk =
     (if n > 0 then fired verdict (mk n)
      else if sf_parse_status (sc_file (ri_facts i)) \<noteq> parse_status_parsed then rule_skipped
      else rule_passed)"

definition scope_degraded_outcome :: "rule_input \<Rightarrow> bool \<Rightarrow> rule_result option" where
  "scope_degraded_outcome i graded =
     (let p = sc_package (ri_facts i)
      in if sp_state p = [] then rule_skipped
         else if sp_state p = package_checked \<or> sp_state p = package_checked_with_errors then rule_passed
         else
           let observed = (if sp_degraded_reason p \<noteq> []
                           then sp_state p @ ''('' @ sp_degraded_reason p @ '')'' else sp_state p)
           in if graded \<and> sp_confirmed_edges p > 0 then
                fired Warn (policy_finding finding_package_degraded severity_warning (ri_scope i)
                  observed package_checked
                  ''the package owning the assessed scope lacks full type-check evidence; partial confirmed coverage remains'')
              else
                fired Fail (policy_finding finding_package_degraded severity_error (ri_scope i)
                  observed package_checked
                  ''the package owning the assessed scope carries no authoritative type-check evidence''))"

definition rule_parse_skips :: "string \<Rightarrow> string \<Rightarrow> verdict \<Rightarrow> policy_rule" where
  "rule_parse_skips rid severity verdict =
     \<lparr>ru_id = rid, ru_check = ''no parse skips in scope'', ru_eval = (\<lambda>i.
        if scope_facts_usable i then
          (let f = sc_file (ri_facts i); p = sc_package (ri_facts i)
           in if sf_parse_status f = parse_status_skipped then
                fired verdict (policy_finding finding_parse_skipped severity (ri_scope i)
                  (if sf_parse_reason f \<noteq> [] then sf_parse_status f @ ''('' @ sf_parse_reason f @ '')''
                   else sf_parse_status f)
                  parse_status_parsed
                  ''the file in the assessed scope was skipped during parsing and is absent from the evidence'')
              else if sf_parse_status f = parse_status_parsed then rule_passed
              else if sp_state p \<noteq> [] then
                (if sp_skipped_files p > 0 then
                   fired verdict (policy_finding finding_parse_skipped severity (ri_scope i)
                     (itoa (sp_skipped_files p)) ''0''
                     ''files in the assessed package were skipped during parsing and are absent from the evidence'')
                 else rule_passed)
              else rule_skipped)
        else if \<not> repo_facts_usable i then rule_skipped
        else
          let n = parse_skip_evidence (sn_parse (ri_snap i))
          in if n > 0 then
               fired verdict (policy_finding finding_parse_skipped severity (ri_scope i) (itoa n) ''0''
                 ''files were skipped during parsing; skipped files are absent from the evidence'')
             else rule_passed)\<rparr>"

definition rule_degraded_graded :: "string \<Rightarrow> policy_rule" where
  "rule_degraded_graded rid =
     \<lparr>ru_id = rid, ru_check = ''no degraded packages in scope'', ru_eval = (\<lambda>i.
        if scope_facts_usable i then scope_degraded_outcome i True
        else if \<not> repo_facts_usable i then rule_skipped
        else
          let tr = sn_types (ri_snap i); n = degraded_evidence tr
          in if n > 0 \<and> n \<ge> tr_units_total tr then
               fired Fail (policy_finding finding_package_degraded severity_error (ri_scope i) (itoa n) ''0''
                 ''every package unit lacks type-check evidence'')
             else if n > 0 then
               fired Warn (policy_finding finding_package_degraded severity_warning (ri_scope i) (itoa n) ''0''
                 ''packages lack type-check evidence in the assessed scope'')
             else rule_passed)\<rparr>"

definition rule_degraded_strict :: "string \<Rightarrow> policy_rule" where
  "rule_degraded_strict rid =
     \<lparr>ru_id = rid, ru_check = ''no degraded packages in scope'', ru_eval = (\<lambda>i.
        if scope_facts_usable i then scope_degraded_outcome i False
        else if \<not> repo_facts_usable i then rule_skipped
        else
          let n = degraded_evidence (sn_types (ri_snap i))
          in if n > 0 then
               fired Fail (policy_finding finding_package_degraded severity_error (ri_scope i) (itoa n) ''0''
                 ''packages lack type-check evidence in the assessed scope'')
             else rule_passed)\<rparr>"

definition rule_ambiguous_refs :: "string \<Rightarrow> string \<Rightarrow> verdict \<Rightarrow> policy_rule" where
  "rule_ambiguous_refs rid severity verdict =
     \<lparr>ru_id = rid, ru_check = ''no ambiguous references in scope'', ru_eval = (\<lambda>i.
        let mk = (\<lambda>n. policy_finding finding_ambiguous_reference severity (ri_scope i) (itoa n) ''0''
                    ''references resolved to more than one candidate in the assessed scope'')
        in if scope_facts_usable i then
             scope_counter_outcome i (sf_ambiguous (sc_file (ri_facts i))) verdict mk
           else if \<not> repo_facts_usable i then rule_skipped
           else if lf_ambiguous (sn_link (ri_snap i)) > 0 then fired verdict (mk (lf_ambiguous (sn_link (ri_snap i))))
           else rule_passed)\<rparr>"

definition rule_unresolved_refs :: "string \<Rightarrow> string \<Rightarrow> verdict \<Rightarrow> policy_rule" where
  "rule_unresolved_refs rid severity verdict =
     \<lparr>ru_id = rid, ru_check = ''no unresolved references in scope'', ru_eval = (\<lambda>i.
        let mk = (\<lambda>n. policy_finding finding_unresolved_reference severity (ri_scope i) (itoa n) ''0''
                    ''references could not be resolved and were skipped in the assessed scope'')
        in if scope_facts_usable i then
             scope_counter_outcome i (sf_skipped (sc_file (ri_facts i))) verdict mk
           else if \<not> repo_facts_usable i then rule_skipped
           else if lf_skipped (sn_link (ri_snap i)) > 0 then fired verdict (mk (lf_skipped (sn_link (ri_snap i))))
           else rule_passed)\<rparr>"

definition rule_heuristic_visible :: "string \<Rightarrow> policy_rule" where
  "rule_heuristic_visible rid =
     \<lparr>ru_id = rid, ru_check = ''no heuristic-tier edges'', ru_eval = (\<lambda>i.
        if \<not> repo_facts_usable i then rule_skipped
        else
          let n = tk_heuristic (gf_by_tier (sn_graph (ri_snap i)))
          in if n > 0 then
               fired Pass (policy_finding finding_heuristic_edges_present [] (ri_scope i) (itoa n) []
                 ''heuristic-tier edges are present; they are allowed for exploration'')
             else rule_passed)\<rparr>"

definition rule_heuristic_only :: "string \<Rightarrow> string \<Rightarrow> verdict \<Rightarrow> policy_rule" where
  "rule_heuristic_only rid severity verdict =
     \<lparr>ru_id = rid, ru_check = ''evidence not purely heuristic'', ru_eval = (\<lambda>i.
        if \<not> repo_facts_usable i then rule_skipped
        else if heuristic_only (ri_snap i) then
          fired verdict (policy_finding finding_heuristic_only_path severity (ri_scope i)
            tier_heuristic tier_derived
            ''the graph carries heuristic-tier edge evidence only (no derived or confirmed edges)'')
        else rule_passed)\<rparr>"

definition rule_external_boundaries :: "string \<Rightarrow> string \<Rightarrow> verdict \<Rightarrow> string \<Rightarrow> policy_rule" where
  "rule_external_boundaries rid severity verdict message =
     \<lparr>ru_id = rid, ru_check = ''no external boundaries in scope'', ru_eval = (\<lambda>i.
        let mk = (\<lambda>n. policy_finding finding_external_boundary severity (ri_scope i) (itoa n) [] message)
        in if scope_facts_usable i then
             scope_counter_outcome i (sf_resolved_external (sc_file (ri_facts i))) verdict mk
           else if \<not> repo_facts_usable i then rule_skipped
           else if xf_edges (sn_external (ri_snap i)) > 0 then fired verdict (mk (xf_edges (sn_external (ri_snap i))))
           else rule_passed)\<rparr>"

subsection \<open>The three policies\<close>

definition policy_name_exploratory :: string where "policy_name_exploratory = ''exploratory''"
definition policy_name_review :: string where "policy_name_review = ''review''"
definition policy_name_automated_change :: string where
  "policy_name_automated_change = ''automated-change''"

definition policy_exploratory :: policy where
  "policy_exploratory =
     \<lparr>pl_name = policy_name_exploratory, pl_version = 1, pl_rules =
       [rule_graph_available ''E1'',
        rule_graph_not_stale ''E2'',
        rule_heuristic_visible ''E3'',
        rule_ambiguous_refs ''E4'' severity_info Pass,
        rule_unresolved_refs ''E4'' severity_info Pass,
        rule_parse_skips ''E5'' severity_warning Warn,
        rule_external_boundaries ''E6'' severity_info Pass
          ''edges terminate at external boundary nodes; structural coverage ends there'',
        rule_snapshot_published ''E7'',
        rule_scope_evidence ''E-scope(v1)'' Warn,
        rule_target_resolved ''E-target(v1)'' Unverified Unverified Warn]\<rparr>"

definition policy_review :: policy where
  "policy_review =
     \<lparr>pl_name = policy_name_review, pl_version = 1, pl_rules =
       [rule_graph_current ''R1'',
        rule_target_resolved ''R2'' Unverified Unverified Unverified,
        rule_parse_skips ''R3'' severity_error Fail,
        rule_degraded_graded ''R4'',
        rule_ambiguous_refs ''R5'' severity_warning Warn,
        rule_heuristic_only ''R6'' severity_warning Warn,
        rule_external_boundaries ''R7'' severity_warning Warn
          ''edges terminate at external boundary nodes; review evidence ends there'',
        rule_scope_evidence ''R8'' Unverified]\<rparr>"

definition policy_automated_change :: policy where
  "policy_automated_change =
     \<lparr>pl_name = policy_name_automated_change, pl_version = 1, pl_rules =
       [rule_graph_current ''A1'',
        rule_snapshot_current ''A2'',
        rule_target_resolved ''A3'' Fail Fail Unverified,
        rule_parse_skips ''A4'' severity_error Fail,
        rule_degraded_strict ''A5'',
        rule_ambiguous_refs ''A6'' severity_error Fail,
        rule_unresolved_refs ''A7'' severity_error Fail,
        rule_heuristic_only ''A8'' severity_error Fail,
        rule_external_boundaries ''A9'' severity_error Fail
          ''external boundaries with possible behavioral dependence require explicit human approval; no approval channel exists in v1'',
        rule_scope_evidence ''A10'' Unverified]\<rparr>"

definition policies :: "policy list" where
  "policies = [policy_exploratory, policy_review, policy_automated_change]"

definition policy_id :: "policy \<Rightarrow> string" where
  "policy_id p = pl_name p @ ''-v'' @ itoa (pl_version p)"

definition policy_ids :: "string list" where
  "policy_ids = map policy_id policies"

definition policy_by_id :: "string \<Rightarrow> trust_error + policy" where
  "policy_by_id pid =
     (case List.find (\<lambda>p. policy_id p = pid) policies of
        Some p \<Rightarrow> Inr p
      | None \<Rightarrow> Inl (ErrPolicyUnknown pid))"

subsection \<open>The evaluator\<close>

text \<open>One turn of the loop over the rules: findings, passed checks and verdict so far.\<close>

definition eval_rule ::
  "rule_input \<Rightarrow> (finding list \<times> string list \<times> verdict) option \<Rightarrow> policy_rule
     \<Rightarrow> (finding list \<times> string list \<times> verdict) option" where
  "eval_rule i acc r =
     (case acc of
        None \<Rightarrow> None
      | Some (fs, cs, v) \<Rightarrow>
          (case ru_eval r i of
             None \<Rightarrow> None
           | Some res \<Rightarrow>
               if rs_passed res then Some (fs, cs @ [ru_check r], v)
               else Some (fs @ rs_findings res, cs, worse_verdict v (rs_verdict res))))"

definition rule_less ::
  "policy \<Rightarrow> scope_ref \<Rightarrow> finding list \<times> string list \<times> verdict
     \<Rightarrow> (finding list \<times> string list \<times> verdict) option" where
  "rule_less p scope acc =
     (case acc of (fs, cs, v) \<Rightarrow>
        if length (pl_rules p) = 0 then
          (case policy_finding finding_scope_evidence_unavailable [] scope ''0'' ''1''
                  ''the policy defines no rules; no check ran and no evidence was judged (fail closed)'' of
             None \<Rightarrow> None
           | Some f \<Rightarrow> Some (fs @ [f], cs, Unverified))
        else Some acc)"

definition evaluate_with_scope_facts ::
  "policy \<Rightarrow> trust_snapshot \<Rightarrow> snap_state \<Rightarrow> scope_ref \<Rightarrow> scope_facts \<Rightarrow> finding list \<Rightarrow> assessment option" where
  "evaluate_with_scope_facts p snap st scope facts resolution =
     (let i = \<lparr>ri_snap = snap, ri_st = st, ri_scope = scope, ri_resolution = resolution, ri_facts = facts\<rparr>
      in case foldl (eval_rule i) (Some ([], [], Pass)) (pl_rules p) of
           None \<Rightarrow> None
         | Some acc \<Rightarrow>
             (case rule_less p scope acc of
                None \<Rightarrow> None
              | Some (fs, cs, v) \<Rightarrow>
                  let sorted_fs = sort_findings fs
                  in Some \<lparr>as_schema = assessment_schema_version,
                           as_policy = \<lparr>pr_id = policy_id p, pr_name = pl_name p, pr_version = pl_version p\<rparr>,
                           as_scope = scope, as_state = st, as_verdict = v, as_findings = sorted_fs,
                           as_limitations = limitations_from_snapshot snap,
                           as_recommendations = recommendations st sorted_fs,
                           as_checks = cs\<rparr>))"

definition policy_evaluate ::
  "policy \<Rightarrow> trust_snapshot \<Rightarrow> snap_state \<Rightarrow> scope_ref \<Rightarrow> finding list \<Rightarrow> assessment option" where
  "policy_evaluate p snap st scope resolution =
     evaluate_with_scope_facts p snap st scope no_scope_facts resolution"

subsection \<open>What a rule contributes\<close>

definition rule_total :: "policy_rule \<Rightarrow> bool" where
  "rule_total r \<longleftrightarrow> (\<forall>i. ru_eval r i \<noteq> None)"

definition contribution :: "rule_input \<Rightarrow> policy_rule \<Rightarrow> verdict" where
  "contribution i r =
     (case ru_eval r i of Some res \<Rightarrow> if rs_passed res then Pass else rs_verdict res | None \<Rightarrow> NoVerdict)"

definition rule_findings :: "rule_input \<Rightarrow> policy_rule \<Rightarrow> finding list" where
  "rule_findings i r =
     (case ru_eval r i of Some res \<Rightarrow> if rs_passed res then [] else rs_findings res | None \<Rightarrow> [])"

definition rule_holds :: "rule_input \<Rightarrow> policy_rule \<Rightarrow> bool" where
  "rule_holds i r = (case ru_eval r i of Some res \<Rightarrow> rs_passed res | None \<Rightarrow> False)"

definition worst :: "verdict list \<Rightarrow> verdict" where
  "worst vs = foldl worse_verdict Pass vs"

definition the_finding :: "string \<Rightarrow> string \<Rightarrow> scope_ref \<Rightarrow> string \<Rightarrow> string \<Rightarrow> string \<Rightarrow> finding" where
  "the_finding code sev scope ob th ms = the (policy_finding code sev scope ob th ms)"

lemma policy_finding_Some [simp]:
  "registry_code code \<Longrightarrow> policy_finding code sev scope ob th ms = Some (the_finding code sev scope ob th ms)"
  using finding_defaults_None [of code]
  by (auto simp: the_finding_def policy_finding_def new_finding_def split: option.split sum.split)

lemma the_finding_parts:
  assumes "registry_code code"
  shows "fd_code (the_finding code sev scope ob th ms) = code"
    and "fd_scope (the_finding code sev scope ob th ms) = scope"
  using finding_defaults_None [of code] assms
  by (auto simp: the_finding_def policy_finding_def new_finding_def split: option.split sum.split)

lemma rank_bounds: "0 \<le> verdict_rank v" "verdict_rank v \<le> 3"
  by (cases v; simp)+

lemma worse_rank: "verdict_rank (worse_verdict a b) = max (verdict_rank a) (verdict_rank b)"
  by (simp add: worse_verdict_def)

lemma foldl_worse_le:
  "verdict_rank (foldl worse_verdict v vs) \<le> k \<longleftrightarrow> verdict_rank v \<le> k \<and> (\<forall>x \<in> set vs. verdict_rank x \<le> k)"
  by (induction vs arbitrary: v) (auto simp: worse_rank)

lemma worst_le: "verdict_rank (worst vs) \<le> k \<longleftrightarrow> 0 \<le> k \<and> (\<forall>x \<in> set vs. verdict_rank x \<le> k)"
  by (simp add: worst_def foldl_worse_le)

lemma foldl_worse_judged: "v \<noteq> NoVerdict \<Longrightarrow> foldl worse_verdict v vs \<noteq> NoVerdict"
proof (induction vs arbitrary: v)
  case (Cons x vs)
  have "worse_verdict v x \<noteq> NoVerdict"
    using Cons.prems rank_bounds(1) [of v] by (cases x) (auto simp: worse_verdict_def)
  then show ?case by (simp add: Cons.IH)
qed simp

lemma worst_judged: "worst vs \<noteq> NoVerdict"
  by (simp add: worst_def foldl_worse_judged)

lemma worst_Pass: "worst vs = Pass \<longleftrightarrow> (\<forall>x \<in> set vs. verdict_rank x \<le> 0)"
proof -
  have "worst vs = Pass \<longleftrightarrow> verdict_rank (worst vs) \<le> 0"
    using worst_judged [of vs] by (cases "worst vs") simp_all
  then show ?thesis by (simp add: worst_le)
qed

lemma worst_mono:
  assumes "\<And>x. x \<in> set vs \<Longrightarrow> verdict_rank x \<le> 0 \<or> (\<exists>y \<in> set ws. verdict_rank x \<le> verdict_rank y)"
  shows "verdict_rank (worst vs) \<le> verdict_rank (worst ws)"
proof -
  have ws: "verdict_rank y \<le> verdict_rank (worst ws)" if "y \<in> set ws" for y
    using worst_le [of ws "verdict_rank (worst ws)"] that by blast
  have "verdict_rank x \<le> verdict_rank (worst ws)" if "x \<in> set vs" for x
    using assms [OF that] ws rank_bounds(1) [of "worst ws"] by force
  then show ?thesis using rank_bounds(1) [of "worst ws"] by (simp add: worst_le)
qed

lemma eval_rules:
  assumes "\<forall>r \<in> set rs. rule_total r"
  shows "foldl (eval_rule i) (Some (fs, cs, v)) rs =
    Some (fs @ concat (map (rule_findings i) rs), cs @ map ru_check (filter (rule_holds i) rs),
          foldl worse_verdict v (map (contribution i) rs))"
  using assms
proof (induction rs arbitrary: fs cs v)
  case (Cons r rs)
  from Cons.prems obtain res where res: "ru_eval r i = Some res" by (simp add: rule_total_def) blast
  have "worse_verdict v Pass = v" using rank_bounds(1) [of v] by (simp add: worse_verdict_def)
  then show ?case
    using res Cons by (simp add: eval_rule_def rule_findings_def rule_holds_def contribution_def)
qed simp

subsection \<open>The rules, each\<close>

lemmas outcome_defs = rule_passed_def rule_skipped_def rule_silent_def fired_def fired_all_def
  scope_counter_outcome_def scope_degraded_outcome_def Let_def

lemmas rule_defs = rule_graph_available_def rule_graph_not_stale_def rule_graph_current_def
  rule_snapshot_published_def rule_snapshot_current_def rule_target_resolved_def
  rule_scope_evidence_def rule_parse_skips_def rule_degraded_graded_def rule_degraded_strict_def
  rule_ambiguous_refs_def rule_unresolved_refs_def rule_heuristic_visible_def
  rule_heuristic_only_def rule_external_boundaries_def

lemma rules_total [simp]:
  "rule_total (rule_graph_available rid)" "rule_total (rule_graph_not_stale rid)"
  "rule_total (rule_graph_current rid)" "rule_total (rule_snapshot_published rid)"
  "rule_total (rule_snapshot_current rid)" "rule_total (rule_target_resolved rid a b c)"
  "rule_total (rule_scope_evidence rid v)" "rule_total (rule_parse_skips rid s v)"
  "rule_total (rule_degraded_graded rid)" "rule_total (rule_degraded_strict rid)"
  "rule_total (rule_ambiguous_refs rid s v)" "rule_total (rule_unresolved_refs rid s v)"
  "rule_total (rule_heuristic_visible rid)" "rule_total (rule_heuristic_only rid s v)"
  "rule_total (rule_external_boundaries rid s v m)"
  by (simp_all add: rule_total_def rule_defs outcome_defs)

lemma graph_available_contribution:
  "contribution i (rule_graph_available rid) =
     (if ri_st i = state_unavailable \<or> \<not> state_known (ri_st i) then Unverified else Pass)"
  by (simp add: contribution_def rule_defs outcome_defs)

lemma graph_not_stale_contribution:
  "contribution i (rule_graph_not_stale rid) =
     (if ri_st i = state_stale then Warn else if ri_st i = state_current then Pass else NoVerdict)"
  by (simp add: contribution_def rule_defs outcome_defs)

lemma graph_current_contribution:
  "contribution i (rule_graph_current rid) =
     (if ri_st i = state_current then Pass else if ri_st i = state_stale then Fail else Unverified)"
  by (simp add: contribution_def rule_defs outcome_defs)

lemma snapshot_published_contribution:
  "contribution i (rule_snapshot_published rid) =
     (if ri_st i = state_current \<or> ri_st i = state_stale then Pass else Unverified)"
  by (simp add: contribution_def rule_defs outcome_defs)

lemma snapshot_current_contribution:
  "contribution i (rule_snapshot_current rid) =
     (if ri_st i = state_current then Pass else if ri_st i = state_stale then Fail else Unverified)"
  by (simp add: contribution_def rule_defs outcome_defs)

definition adopted_verdict :: "verdict \<Rightarrow> verdict \<Rightarrow> verdict \<Rightarrow> finding \<Rightarrow> verdict" where
  "adopted_verdict a b c f =
     (if fd_code f = finding_target_not_found then a
      else if fd_code f = finding_target_ambiguous then b else c)"

lemma target_resolved_contribution:
  "contribution i (rule_target_resolved rid a b c) =
     (if ri_resolution i = [] then (if scope_resolved (ri_scope i) then Pass else Unverified)
      else worst (map (adopted_verdict a b c) (ri_resolution i)))"
proof -
  have "foldl (\<lambda>v f. if fd_code f = finding_target_not_found then worse_verdict v a
      else if fd_code f = finding_target_ambiguous then worse_verdict v b else worse_verdict v c) v fs =
    foldl worse_verdict v (map (adopted_verdict a b c) fs)" for v fs
    by (induction fs arbitrary: v) (simp_all add: adopted_verdict_def)
  then show ?thesis by (simp add: contribution_def rule_defs outcome_defs worst_def)
qed

lemma scope_evidence_contribution:
  "contribution i (rule_scope_evidence rid v) =
     (if sr_kind (ri_scope i) = scope_repository then (if repo_facts_usable i then Pass else NoVerdict)
      else if scope_facts_usable i then Pass else v)"
  by (simp add: contribution_def rule_defs outcome_defs)

definition scope_skip :: "scope_facts \<Rightarrow> bool" where
  "scope_skip sf \<longleftrightarrow>
     sf_parse_status (sc_file sf) = parse_status_skipped \<or>
     sf_parse_status (sc_file sf) \<noteq> parse_status_parsed \<and> sp_state (sc_package sf) \<noteq> [] \<and>
       sp_skipped_files (sc_package sf) > 0"

definition scope_degraded :: "scope_facts \<Rightarrow> bool" where
  "scope_degraded sf \<longleftrightarrow>
     sp_state (sc_package sf) \<notin> {[], package_checked, package_checked_with_errors}"

lemma statuses_distinct [simp]:
  "parse_status_parsed \<noteq> parse_status_skipped" "parse_status_skipped \<noteq> parse_status_parsed"
  "parse_status_parsed \<noteq> []" "parse_status_skipped \<noteq> []" "package_checked \<noteq> []"
  "package_checked_with_errors \<noteq> []"
  by (simp_all add: parse_status_parsed_def parse_status_skipped_def package_checked_def
      package_checked_with_errors_def)

lemma parse_skips_rank:
  "verdict_rank (contribution i (rule_parse_skips rid s v)) =
     (if scope_facts_usable i then (if scope_skip (ri_facts i) then verdict_rank v else 0)
      else if repo_facts_usable i \<and> parse_skip_evidence (sn_parse (ri_snap i)) > 0 then verdict_rank v else 0)"
  by (simp add: contribution_def rule_defs outcome_defs scope_skip_def)

lemma degraded_strict_rank:
  "verdict_rank (contribution i (rule_degraded_strict rid)) =
     (if scope_facts_usable i then (if scope_degraded (ri_facts i) then 3 else 0)
      else if repo_facts_usable i \<and> degraded_evidence (sn_types (ri_snap i)) > 0 then 3 else 0)"
  by (simp add: contribution_def rule_defs outcome_defs scope_degraded_def)

lemma degraded_graded_rank:
  "verdict_rank (contribution i (rule_degraded_graded rid)) \<le>
   verdict_rank (contribution i (rule_degraded_strict rid'))"
  by (simp add: contribution_def rule_defs outcome_defs)

lemma ambiguous_rank:
  "verdict_rank (contribution i (rule_ambiguous_refs rid s v)) =
     (if scope_facts_usable i then (if sf_ambiguous (sc_file (ri_facts i)) > 0 then verdict_rank v else 0)
      else if repo_facts_usable i \<and> lf_ambiguous (sn_link (ri_snap i)) > 0 then verdict_rank v else 0)"
  by (simp add: contribution_def rule_defs outcome_defs)

lemma unresolved_rank:
  "verdict_rank (contribution i (rule_unresolved_refs rid s v)) =
     (if scope_facts_usable i then (if sf_skipped (sc_file (ri_facts i)) > 0 then verdict_rank v else 0)
      else if repo_facts_usable i \<and> lf_skipped (sn_link (ri_snap i)) > 0 then verdict_rank v else 0)"
  by (simp add: contribution_def rule_defs outcome_defs)

lemma heuristic_visible_rank: "verdict_rank (contribution i (rule_heuristic_visible rid)) = 0"
  by (simp add: contribution_def rule_defs outcome_defs)

lemma heuristic_only_rank:
  "verdict_rank (contribution i (rule_heuristic_only rid s v)) =
     (if repo_facts_usable i \<and> heuristic_only (ri_snap i) then verdict_rank v else 0)"
  by (simp add: contribution_def rule_defs outcome_defs)

lemma external_rank:
  "verdict_rank (contribution i (rule_external_boundaries rid s v m)) =
     (if scope_facts_usable i then (if sf_resolved_external (sc_file (ri_facts i)) > 0 then verdict_rank v else 0)
      else if repo_facts_usable i \<and> xf_edges (sn_external (ri_snap i)) > 0 then verdict_rank v else 0)"
  by (simp add: contribution_def rule_defs outcome_defs)

lemmas contribution_facts = graph_available_contribution graph_not_stale_contribution
  graph_current_contribution snapshot_published_contribution snapshot_current_contribution
  target_resolved_contribution scope_evidence_contribution parse_skips_rank degraded_strict_rank
  ambiguous_rank unresolved_rank heuristic_visible_rank heuristic_only_rank external_rank

subsection \<open>The built-in policies\<close>

definition inputs :: "trust_snapshot \<Rightarrow> snap_state \<Rightarrow> scope_ref \<Rightarrow> scope_facts \<Rightarrow> finding list \<Rightarrow> rule_input" where
  "inputs snap st scope facts res =
     \<lparr>ri_snap = snap, ri_st = st, ri_scope = scope, ri_resolution = res, ri_facts = facts\<rparr>"

lemma inputs_simps [simp]:
  "ri_snap (inputs a b c d e) = a" "ri_st (inputs a b c d e) = b" "ri_scope (inputs a b c d e) = c"
  "ri_facts (inputs a b c d e) = d" "ri_resolution (inputs a b c d e) = e"
  by (simp_all add: inputs_def)

lemmas policy_defs = policy_exploratory_def policy_review_def policy_automated_change_def

lemma policies_rules:
  assumes "p \<in> set policies"
  shows "pl_rules p \<noteq> []" "\<forall>r \<in> set (pl_rules p). rule_total r"
  using assms by (auto simp: policies_def policy_defs)

definition judged :: "policy \<Rightarrow> rule_input \<Rightarrow> assessment" where
  "judged p i =
     (let fs = sort_findings (concat (map (rule_findings i) (pl_rules p)))
      in \<lparr>as_schema = assessment_schema_version,
          as_policy = \<lparr>pr_id = policy_id p, pr_name = pl_name p, pr_version = pl_version p\<rparr>,
          as_scope = ri_scope i, as_state = ri_st i,
          as_verdict = worst (map (contribution i) (pl_rules p)), as_findings = fs,
          as_limitations = limitations_from_snapshot (ri_snap i),
          as_recommendations = recommendations (ri_st i) fs,
          as_checks = map ru_check (filter (rule_holds i) (pl_rules p))\<rparr>)"

lemma evaluate_judged:
  assumes "p \<in> set policies"
  shows "evaluate_with_scope_facts p snap st scope facts res = Some (judged p (inputs snap st scope facts res))"
  using policies_rules [OF assms]
  by (simp add: evaluate_with_scope_facts_def eval_rules rule_less_def Let_def judged_def worst_def
      flip: inputs_def)

lemma judged_verdict: "as_verdict (judged p i) = worst (map (contribution i) (pl_rules p))"
  by (simp add: judged_def Let_def)

lemma builtin [simp]:
  "policy_exploratory \<in> set policies" "policy_review \<in> set policies" "policy_automated_change \<in> set policies"
  by (simp_all add: policies_def)

lemma worst_all_le: "(\<And>v. v \<in> set vs \<Longrightarrow> verdict_rank v \<le> k) \<Longrightarrow> 0 \<le> k \<Longrightarrow> verdict_rank (worst vs) \<le> k"
  by (simp add: worst_le)

lemma worst_map_mono:
  assumes "\<And>f. verdict_rank (g f) \<le> verdict_rank (h f)"
  shows "verdict_rank (worst (map g fs)) \<le> verdict_rank (worst (map h fs))"
  by (rule worst_mono) (use assms in auto)

definition dominated :: "rule_input \<Rightarrow> policy_rule list \<Rightarrow> policy_rule \<Rightarrow> bool" where
  "dominated i rs r \<longleftrightarrow>
     verdict_rank (contribution i r) \<le> verdict_rank (worst (map (contribution i) rs))"

lemma dominatedI:
  assumes "r' \<in> set rs" "verdict_rank (contribution i r) \<le> verdict_rank (contribution i r')"
  shows "dominated i rs r"
proof -
  have "verdict_rank (contribution i r') \<le> verdict_rank (worst (map (contribution i) rs))"
    using worst_le [of "map (contribution i) rs"] assms(1) by auto
  then show ?thesis using assms(2) by (simp add: dominated_def)
qed

lemma dominated_0: "verdict_rank (contribution i r) \<le> 0 \<Longrightarrow> dominated i rs r"
  using rank_bounds(1) [of "worst (map (contribution i) rs)"] by (simp add: dominated_def)

lemma all_dominated:
  "(\<And>r. r \<in> set rs \<Longrightarrow> dominated i rs' r) \<Longrightarrow>
   verdict_rank (worst (map (contribution i) rs)) \<le> verdict_rank (worst (map (contribution i) rs'))"
  using rank_bounds(1) [of "worst (map (contribution i) rs')"]
  by (intro worst_all_le) (auto simp: dominated_def)

lemma target_resolved_mono:
  assumes "verdict_rank a \<le> verdict_rank a'" "verdict_rank b \<le> verdict_rank b'" "verdict_rank c \<le> verdict_rank c'"
  shows "verdict_rank (contribution i (rule_target_resolved rid a b c)) \<le>
    verdict_rank (contribution i (rule_target_resolved rid' a' b' c'))"
  unfolding target_resolved_contribution using assms
  by (simp, intro impI worst_map_mono) (simp add: adopted_verdict_def)

lemma review_rules:
  "rule_graph_current ''R1'' \<in> set (pl_rules policy_review)"
  "rule_target_resolved ''R2'' Unverified Unverified Unverified \<in> set (pl_rules policy_review)"
  "rule_parse_skips ''R3'' severity_error Fail \<in> set (pl_rules policy_review)"
  "rule_scope_evidence ''R8'' Unverified \<in> set (pl_rules policy_review)"
  by (simp_all add: policy_review_def)

lemma automated_rules:
  "rule_graph_current ''A1'' \<in> set (pl_rules policy_automated_change)"
  "rule_target_resolved ''A3'' Fail Fail Unverified \<in> set (pl_rules policy_automated_change)"
  "rule_parse_skips ''A4'' severity_error Fail \<in> set (pl_rules policy_automated_change)"
  "rule_degraded_strict ''A5'' \<in> set (pl_rules policy_automated_change)"
  "rule_ambiguous_refs ''A6'' severity_error Fail \<in> set (pl_rules policy_automated_change)"
  "rule_heuristic_only ''A8'' severity_error Fail \<in> set (pl_rules policy_automated_change)"
  "rule_external_boundaries ''A9'' severity_error Fail
     ''external boundaries with possible behavioral dependence require explicit human approval; no approval channel exists in v1''
   \<in> set (pl_rules policy_automated_change)"
  "rule_scope_evidence ''A10'' Unverified \<in> set (pl_rules policy_automated_change)"
  by (simp_all add: policy_automated_change_def)

lemma exploratory_below_review:
  "verdict_rank (as_verdict (judged policy_exploratory i)) \<le> verdict_rank (as_verdict (judged policy_review i))"
proof -
  let ?d = "dominated i (pl_rules policy_review)"
  have d1: "?d (rule_graph_available rid)" for rid
    by (rule dominatedI [OF review_rules(1)]) (auto simp: contribution_facts state_known_def)
  have d2: "?d (rule_graph_not_stale rid)" for rid
    by (rule dominatedI [OF review_rules(1)]) (simp add: contribution_facts)
  have d3: "?d (rule_heuristic_visible rid)" for rid by (rule dominated_0) (simp add: contribution_facts)
  have d4: "?d (rule_ambiguous_refs rid s Pass)" for rid s by (rule dominated_0) (simp add: contribution_facts)
  have d5: "?d (rule_unresolved_refs rid s Pass)" for rid s by (rule dominated_0) (simp add: contribution_facts)
  have d6: "?d (rule_parse_skips rid s Warn)" for rid s
    by (rule dominatedI [OF review_rules(3)]) (simp add: contribution_facts)
  have d7: "?d (rule_external_boundaries rid s Pass m)" for rid s m
    by (rule dominated_0) (simp add: contribution_facts)
  have d8: "?d (rule_snapshot_published rid)" for rid
    by (rule dominatedI [OF review_rules(1)]) (simp add: contribution_facts)
  have d9: "?d (rule_scope_evidence rid Warn)" for rid
    by (rule dominatedI [OF review_rules(4)]) (simp add: contribution_facts)
  have d10: "?d (rule_target_resolved rid Unverified Unverified Warn)" for rid
    by (rule dominatedI [OF review_rules(2)]) (rule target_resolved_mono; simp)
  show ?thesis unfolding judged_verdict
  proof (rule all_dominated)
    fix r assume "r \<in> set (pl_rules policy_exploratory)"
    then show "?d r" unfolding policy_exploratory_def using d1 d2 d3 d4 d5 d6 d7 d8 d9 d10 by auto
  qed
qed

lemma review_below_automated:
  "verdict_rank (as_verdict (judged policy_review i)) \<le>
   verdict_rank (as_verdict (judged policy_automated_change i))"
proof -
  let ?d = "dominated i (pl_rules policy_automated_change)"
  have d1: "?d (rule_graph_current rid)" for rid
    by (rule dominatedI [OF automated_rules(1)]) (simp add: contribution_facts)
  have d2: "?d (rule_target_resolved rid Unverified Unverified Unverified)" for rid
    by (rule dominatedI [OF automated_rules(2)]) (rule target_resolved_mono; simp)
  have d3: "?d (rule_parse_skips rid s Fail)" for rid s
    by (rule dominatedI [OF automated_rules(3)]) (simp add: contribution_facts)
  have d4: "?d (rule_degraded_graded rid)" for rid
    by (rule dominatedI [OF automated_rules(4)]) (rule degraded_graded_rank)
  have d5: "?d (rule_ambiguous_refs rid s Warn)" for rid s
    by (rule dominatedI [OF automated_rules(5)]) (simp add: contribution_facts)
  have d6: "?d (rule_heuristic_only rid s Warn)" for rid s
    by (rule dominatedI [OF automated_rules(6)]) (simp add: contribution_facts)
  have d7: "?d (rule_external_boundaries rid s Warn m)" for rid s m
    by (rule dominatedI [OF automated_rules(7)]) (simp add: contribution_facts)
  have d8: "?d (rule_scope_evidence rid Unverified)" for rid
    by (rule dominatedI [OF automated_rules(8)]) (simp add: contribution_facts)
  show ?thesis unfolding judged_verdict
  proof (rule all_dominated)
    fix r assume "r \<in> set (pl_rules policy_review)"
    then show "?d r" unfolding policy_review_def using d1 d2 d3 d4 d5 d6 d7 d8 by auto
  qed
qed

text \<open>
  the three policies are ordered by strictness on every input: whatever the
  snapshot, state, scope, scope facts and resolver findings, none of them panics, and review is
  never more lenient than exploratory nor automated-change than review.
\<close>

theorem policies_strictness:
  "\<exists>e r a. evaluate_with_scope_facts policy_exploratory snap st scope facts res = Some e \<and>
     evaluate_with_scope_facts policy_review snap st scope facts res = Some r \<and>
     evaluate_with_scope_facts policy_automated_change snap st scope facts res = Some a \<and>
     verdict_rank (as_verdict e) \<le> verdict_rank (as_verdict r) \<and>
     verdict_rank (as_verdict r) \<le> verdict_rank (as_verdict a)"
  using exploratory_below_review review_below_automated by (simp add: evaluate_judged)

subsection \<open>When automated-change passes\<close>

definition repo_clean :: "trust_snapshot \<Rightarrow> bool" where
  "repo_clean s \<longleftrightarrow>
     parse_skip_evidence (sn_parse s) \<le> 0 \<and> degraded_evidence (sn_types s) \<le> 0 \<and>
     lf_ambiguous (sn_link s) \<le> 0 \<and> lf_skipped (sn_link s) \<le> 0 \<and> \<not> heuristic_only s \<and>
     xf_edges (sn_external s) \<le> 0"

definition scope_clean :: "scope_facts \<Rightarrow> bool" where
  "scope_clean sf \<longleftrightarrow>
     \<not> scope_skip sf \<and> \<not> scope_degraded sf \<and> sf_ambiguous (sc_file sf) \<le> 0 \<and>
     sf_skipped (sc_file sf) \<le> 0 \<and> sf_resolved_external (sc_file sf) \<le> 0"

lemma state_known_states [simp]:
  "state_known state_current" "state_known state_stale" "state_known state_incomplete" "state_known state_unavailable"
  by (simp_all add: state_known_def)

lemma worst_adopted_positive:
  assumes "fs \<noteq> []" "0 < verdict_rank a" "0 < verdict_rank b" "0 < verdict_rank c"
  shows "0 < verdict_rank (worst (map (adopted_verdict a b c) fs))"
proof -
  obtain f where f: "f \<in> set fs" using assms(1) by (cases fs) auto
  have "0 < verdict_rank (adopted_verdict a b c f)" using assms by (simp add: adopted_verdict_def)
  moreover have "verdict_rank (adopted_verdict a b c f) \<le> verdict_rank (worst (map (adopted_verdict a b c) fs))"
    using worst_le [of "map (adopted_verdict a b c) fs"] f by auto
  ultimately show ?thesis by linarith
qed

lemma target_resolved_passes:
  assumes "0 < verdict_rank a" "0 < verdict_rank b" "0 < verdict_rank c"
  shows "verdict_rank (contribution i (rule_target_resolved rid a b c)) \<le> 0 \<longleftrightarrow>
    ri_resolution i = [] \<and> scope_resolved (ri_scope i)"
  using worst_adopted_positive [OF _ assms, of "ri_resolution i"]
  by (cases "ri_resolution i = []") (auto simp: target_resolved_contribution)

lemma automated_passes:
  "as_verdict (judged policy_automated_change i) = Pass \<longleftrightarrow>
     ri_st i = state_current \<and> ri_resolution i = [] \<and>
     (if sr_kind (ri_scope i) = scope_repository then repo_clean (ri_snap i)
      else scope_resolved (ri_scope i) \<and> well_formed_facts (ri_facts i) \<and> scope_clean (ri_facts i))"
proof (cases "ri_st i = state_current \<and> ri_resolution i = [] \<and> scope_resolved (ri_scope i)")
  case False
  then have "\<not> (verdict_rank (contribution i (rule_graph_current ''A1'')) \<le> 0 \<and>
      verdict_rank (contribution i (rule_target_resolved ''A3'' Fail Fail Unverified)) \<le> 0)"
    by (auto simp: target_resolved_passes graph_current_contribution)
  then have "as_verdict (judged policy_automated_change i) \<noteq> Pass"
    using automated_rules(1,2) unfolding judged_verdict worst_Pass by auto
  moreover have "scope_resolved s" if "sr_kind s = scope_repository" for s
    using that by (simp add: scope_resolved_def)
  ultimately show ?thesis using False by auto
next
  case True
  then have head: "verdict_rank (contribution i (rule_graph_current a)) \<le> 0"
      "verdict_rank (contribution i (rule_snapshot_current b)) \<le> 0"
      "verdict_rank (contribution i (rule_target_resolved c Fail Fail Unverified)) \<le> 0" for a b c
    by (simp_all add: target_resolved_passes graph_current_contribution snapshot_current_contribution)
  show ?thesis
  proof (cases "sr_kind (ri_scope i) = scope_repository")
    case repo: True
    have u: "repo_facts_usable i" "\<not> scope_facts_usable i"
      using True repo by (simp_all add: repo_facts_usable_def scope_facts_usable_def)
    show ?thesis unfolding judged_verdict worst_Pass policy_automated_change_def
      using True repo u head by (simp add: contribution_facts repo_clean_def linorder_not_less)
  next
    case scoped: False
    have u: "\<not> repo_facts_usable i" "scope_facts_usable i \<longleftrightarrow> well_formed_facts (ri_facts i)"
      using True scoped by (simp_all add: repo_facts_usable_def scope_facts_usable_def)
    show ?thesis unfolding judged_verdict worst_Pass policy_automated_change_def
      using True scoped u head
      by (cases "well_formed_facts (ri_facts i)")
        (simp_all add: contribution_facts scope_clean_def linorder_not_less)
  qed
qed

text \<open>
  C2: the automated-change gate passes exactly in these situations: the snapshot is
  CURRENT, the resolver reported nothing, and either the scope is the repository and the snapshot
  documents no skip, degraded unit, ambiguous or unresolved reference, external boundary nor
  heuristic-only graph, or the scope is resolved and its well-formed evidence row is clean.
\<close>

theorem automated_change_pass_iff:
  "map_option as_verdict (evaluate_with_scope_facts policy_automated_change snap st scope facts res) = Some Pass \<longleftrightarrow>
     st = state_current \<and> res = [] \<and>
     (if sr_kind scope = scope_repository then repo_clean snap
      else scope_resolved scope \<and> well_formed_facts facts \<and> scope_clean facts)"
  by (simp add: evaluate_judged automated_passes)

text \<open>
  a package scope whose row says nothing of references passes automated-change
  against every CURRENT snapshot, with the checks for ambiguous, unresolved and external
  references neither passed nor fired.
\<close>

theorem checked_package_passes:
  "\<exists>a. evaluate_with_scope_facts policy_automated_change snap state_current
      \<lparr>sr_kind = scope_package, sr_id = ''core/model'', sr_path = [], sr_package = ''core/model'', sr_symbol = []\<rparr>
      \<lparr>sc_available = True, sc_file = zero_file_facts, sc_package = zero_package_facts\<lparr>sp_state := package_checked\<rparr>\<rparr> [] = Some a \<and>
    as_verdict a = Pass \<and> as_findings a = [] \<and>
    as_checks a = [''graph current'', ''trust snapshot current'', ''target resolved'',
      ''no parse skips in scope'', ''no degraded packages in scope'', ''scope evidence available'']"
proof -
  let ?s = "\<lparr>sr_kind = scope_package, sr_id = ''core/model'', sr_path = [], sr_package = ''core/model'', sr_symbol = []\<rparr>"
  let ?f = "\<lparr>sc_available = True, sc_file = zero_file_facts, sc_package = zero_package_facts\<lparr>sp_state := package_checked\<rparr>\<rparr>"
  let ?i = "inputs snap state_current ?s ?f []"
  have kinds: "scope_package \<noteq> scope_repository" "scope_package \<noteq> scope_file" "scope_package \<noteq> scope_symbol"
    by (simp_all add: scope_package_def scope_repository_def scope_file_def scope_symbol_def)
  have wf: "scope_resolved ?s" "well_formed_facts ?f" "scope_clean ?f"
    using kinds by (simp_all add: scope_resolved_def well_formed_facts_def zero_file_facts_def
        zero_package_facts_def Let_def scope_clean_def scope_skip_def scope_degraded_def
        parse_status_skipped_def)
  have pass: "as_verdict (judged policy_automated_change ?i) = Pass"
    unfolding automated_passes using kinds wf by simp
  have use: "scope_facts_usable ?i" "\<not> repo_facts_usable ?i"
    using kinds wf by (simp_all add: scope_facts_usable_def repo_facts_usable_def)
  have rest: "as_findings (judged policy_automated_change ?i) = [] \<and>
      as_checks (judged policy_automated_change ?i) = [''graph current'', ''trust snapshot current'', ''target resolved'',
      ''no parse skips in scope'', ''no degraded packages in scope'', ''scope evidence available'']"
    using use wf kinds
    by (simp add: judged_def Let_def policy_automated_change_def rule_findings_def rule_holds_def rule_defs
        outcome_defs zero_file_facts_def zero_package_facts_def parse_status_skipped_def
        parse_status_parsed_def sort_findings_def)
  show ?thesis using pass rest by (simp add: evaluate_judged)
qed

subsection \<open>Every verdict is explained\<close>

definition finding_justified :: "rule_input \<Rightarrow> finding \<Rightarrow> bool" where
  "finding_justified i f \<longleftrightarrow>
     f \<in> set (ri_resolution i) \<or> registry_code (fd_code f) \<and> fd_scope f = ri_scope i"

definition rule_justified :: "rule_input \<Rightarrow> policy_rule \<Rightarrow> bool" where
  "rule_justified i r \<longleftrightarrow>
     (\<forall>f \<in> set (rule_findings i r). finding_justified i f) \<and>
     (verdict_rank (contribution i r) > 0 \<longrightarrow> rule_findings i r \<noteq> [])"

lemma the_finding_justified [simp]:
  "registry_code code \<Longrightarrow> finding_justified i (the_finding code sev (ri_scope i) ob th ms)"
  by (simp add: finding_justified_def the_finding_parts)

lemma rules_justified [simp]:
  "rule_justified i (rule_graph_available rid)" "rule_justified i (rule_graph_not_stale rid)"
  "rule_justified i (rule_graph_current rid)" "rule_justified i (rule_snapshot_published rid)"
  "rule_justified i (rule_snapshot_current rid)"
  "rule_justified i (rule_parse_skips rid s v)"
  "rule_justified i (rule_degraded_graded rid)" "rule_justified i (rule_degraded_strict rid)"
  "rule_justified i (rule_ambiguous_refs rid s v)" "rule_justified i (rule_unresolved_refs rid s v)"
  "rule_justified i (rule_heuristic_visible rid)" "rule_justified i (rule_heuristic_only rid s v)"
  "rule_justified i (rule_external_boundaries rid s v m)"
  by (simp_all add: rule_justified_def rule_findings_def contribution_def rule_defs outcome_defs)

lemma target_findings:
  "rule_findings i (rule_target_resolved rid a b c) = ri_resolution i"
  by (simp add: rule_findings_def rule_defs outcome_defs)

lemma scope_evidence_findings:
  "rule_findings i (rule_scope_evidence rid v) \<noteq> [] \<longleftrightarrow>
     sr_kind (ri_scope i) \<noteq> scope_repository \<and> \<not> scope_facts_usable i \<and>
     \<not> resolution_has (ri_resolution i) finding_scope_evidence_unavailable"
  "\<forall>f \<in> set (rule_findings i (rule_scope_evidence rid v)). finding_justified i f"
  by (simp_all add: rule_findings_def rule_defs outcome_defs)

definition policy_explained :: "policy_rule list \<Rightarrow> bool" where
  "policy_explained rs \<longleftrightarrow>
     (\<forall>i. \<exists>a b c x v y. rule_target_resolved x a b c \<in> set rs \<and> rule_scope_evidence y v \<in> set rs \<and>
        (\<forall>r \<in> set rs. rule_justified i r \<or> r = rule_target_resolved x a b c \<or> r = rule_scope_evidence y v))"

lemma builtin_explained:
  assumes "p \<in> set policies"
  shows "policy_explained (pl_rules p)"
proof -
  have "policy_explained (pl_rules policy_exploratory)" unfolding policy_explained_def
    by (rule allI, rule exI [of _ Unverified], rule exI [of _ Unverified], rule exI [of _ Warn],
        rule exI [of _ "''E-target(v1)''"], rule exI [of _ Warn], rule exI [of _ "''E-scope(v1)''"])
      (simp add: policy_exploratory_def)
  moreover have "policy_explained (pl_rules policy_review)" unfolding policy_explained_def
    by (rule allI, rule exI [of _ Unverified], rule exI [of _ Unverified], rule exI [of _ Unverified],
        rule exI [of _ "''R2''"], rule exI [of _ Unverified], rule exI [of _ "''R8''"])
      (simp add: policy_review_def)
  moreover have "policy_explained (pl_rules policy_automated_change)" unfolding policy_explained_def
    by (rule allI, rule exI [of _ Fail], rule exI [of _ Fail], rule exI [of _ Unverified],
        rule exI [of _ "''A3''"], rule exI [of _ Unverified], rule exI [of _ "''A10''"])
      (simp add: policy_automated_change_def)
  ultimately show ?thesis using assms unfolding policies_def by auto
qed

lemma judged_findings: "set (as_findings (judged p i)) = (\<Union>r \<in> set (pl_rules p). set (rule_findings i r))"
  by (simp add: judged_def Let_def sort_findings_def)

lemma judged_explained:
  assumes "p \<in> set policies"
  shows "\<forall>f \<in> set (as_findings (judged p i)). finding_justified i f"
    and "set (ri_resolution i) \<subseteq> set (as_findings (judged p i))"
    and "as_verdict (judged p i) \<noteq> Pass \<Longrightarrow> as_findings (judged p i) \<noteq> []"
proof -
  obtain a b c x v y where t: "rule_target_resolved x a b c \<in> set (pl_rules p)"
    and e: "rule_scope_evidence y v \<in> set (pl_rules p)"
    and rest: "\<And>r. r \<in> set (pl_rules p) \<Longrightarrow>
      rule_justified i r \<or> r = rule_target_resolved x a b c \<or> r = rule_scope_evidence y v"
    using builtin_explained [OF assms] unfolding policy_explained_def by blast
  have adopted: "finding_justified i f" if "f \<in> set (ri_resolution i)" for f
    using that by (simp add: finding_justified_def)
  show "\<forall>f \<in> set (as_findings (judged p i)). finding_justified i f"
  proof
    fix f assume "f \<in> set (as_findings (judged p i))"
    then obtain r where r: "r \<in> set (pl_rules p)" "f \<in> set (rule_findings i r)"
      unfolding judged_findings by blast
    from rest [OF r(1)] show "finding_justified i f"
    proof (elim disjE)
      assume "rule_justified i r"
      then show ?thesis using r(2) unfolding rule_justified_def by blast
    next
      assume "r = rule_target_resolved x a b c"
      then show ?thesis using r(2) adopted by (simp only: target_findings)
    next
      assume "r = rule_scope_evidence y v"
      then show ?thesis using r(2) scope_evidence_findings(2) by blast
    qed
  qed
  show sub: "set (ri_resolution i) \<subseteq> set (as_findings (judged p i))"
    using UN_upper [OF t, of "\<lambda>r. set (rule_findings i r)"] by (simp only: target_findings judged_findings)
  assume "as_verdict (judged p i) \<noteq> Pass"
  then obtain r where r: "r \<in> set (pl_rules p)" "0 < verdict_rank (contribution i r)"
    unfolding judged_verdict worst_Pass by (auto simp: linorder_not_le)
  have "\<exists>r' \<in> set (pl_rules p). rule_findings i r' \<noteq> []"
  proof (cases "rule_justified i r")
    case True
    then show ?thesis using r unfolding rule_justified_def by blast
  next
    case False
    show ?thesis
    proof (cases "ri_resolution i = []")
      case True
      have "sr_kind (ri_scope i) \<noteq> scope_repository \<and> \<not> scope_facts_usable i"
        using rest [OF r(1)] False r(2) True
        by (auto simp: target_resolved_contribution scope_evidence_contribution scope_resolved_def
            scope_facts_usable_def split: if_splits)
      then have "rule_findings i (rule_scope_evidence y v) \<noteq> []"
        using True by (simp add: scope_evidence_findings resolution_has_def)
      then show ?thesis using e by blast
    next
      case False
      then show ?thesis using t target_findings by metis
    qed
  qed
  then show "as_findings (judged p i) \<noteq> []"
    using judged_findings [of p i] by (metis UN_iff empty_iff list.set(1) list.set_sel(1))
qed

lemma builtin_cases:
  assumes "p \<in> set policies"
  obtains "p = policy_exploratory" | "p = policy_review" | "p = policy_automated_change"
  using assms unfolding policies_def by auto

lemma state_rules_hold:
  "verdict_rank (contribution i (rule_graph_available rid)) \<le> 0 \<Longrightarrow> rule_holds i (rule_graph_available rid)"
  "verdict_rank (contribution i (rule_graph_current rid)) \<le> 0 \<Longrightarrow> rule_holds i (rule_graph_current rid)"
  by (simp_all add: contribution_def rule_holds_def rule_defs outcome_defs split: if_splits)

lemma judged_checks:
  assumes "p \<in> set policies" "as_verdict (judged p i) = Pass"
  shows "as_checks (judged p i) \<noteq> []"
proof -
  have *: "as_checks (judged p i) \<noteq> []" if "r \<in> set (pl_rules p)" "rule_holds i r" for r
    using that by (auto simp: judged_def Let_def filter_empty_conv)
  have pass: "verdict_rank (contribution i r) \<le> 0" if "r \<in> set (pl_rules p)" for r
    using that assms(2) unfolding judged_verdict worst_Pass by auto
  consider "rule_graph_available ''E1'' \<in> set (pl_rules p)" | "rule_graph_current ''R1'' \<in> set (pl_rules p)"
    | "rule_graph_current ''A1'' \<in> set (pl_rules p)"
    using assms(1) by (elim builtin_cases) (simp_all add: policy_defs)
  then show ?thesis
  proof cases
    case 1
    show ?thesis by (rule * [OF 1 state_rules_hold(1) [OF pass [OF 1]]])
  next
    case 2
    show ?thesis by (rule * [OF 2 state_rules_hold(2) [OF pass [OF 2]]])
  next
    case 3
    show ?thesis by (rule * [OF 3 state_rules_hold(2) [OF pass [OF 3]]])
  qed
qed

text \<open>
  no built-in policy returns an unexplained verdict: on every input it is one of
  the four closed values; every finding is the resolver's own, adopted unchanged, or carries a
  registered code and the assessed scope; none of the resolver's is dropped; anything but PASS
  has a finding and PASS lists a check that held.
\<close>

theorem verdicts_are_explained:
  assumes "p \<in> set policies"
  shows "\<exists>a. evaluate_with_scope_facts p snap st scope facts res = Some a \<and>
    as_verdict a \<noteq> NoVerdict \<and> set res \<subseteq> set (as_findings a) \<and>
    (\<forall>f \<in> set (as_findings a). f \<in> set res \<or> fd_code f \<in> set (map fst finding_table) \<and> fd_scope f = scope) \<and>
    (if as_verdict a = Pass then as_checks a \<noteq> [] else as_findings a \<noteq> [])"
  using judged_explained [OF assms, of "inputs snap st scope facts res"] worst_judged
    judged_checks [OF assms, of "inputs snap st scope facts res"]
  by (simp add: evaluate_judged [OF assms] finding_justified_def registry_code_def)
    (simp add: judged_verdict)

theorem verdicts_are_explained_witness:
  "\<exists>a. evaluate_with_scope_facts policy_review zero_snapshot ''BROKEN''
      \<lparr>sr_kind = scope_symbol, sr_id = [], sr_path = [], sr_package = [], sr_symbol = ''f''\<rparr> no_scope_facts [] = Some a \<and>
    as_verdict a \<noteq> NoVerdict \<and> (as_verdict a = Pass \<longrightarrow> as_checks a \<noteq> []) \<and> (as_verdict a \<noteq> Pass \<longrightarrow> as_findings a \<noteq> [])"
  using verdicts_are_explained [of policy_review zero_snapshot "''BROKEN''"
      "\<lparr>sr_kind = scope_symbol, sr_id = [], sr_path = [], sr_package = [], sr_symbol = ''f''\<rparr>" no_scope_facts "[]"]
  by (auto split: if_splits)

subsection \<open>Every finding passed the registry\<close>

definition gated :: "rule_input \<Rightarrow> finding \<Rightarrow> bool" where
  "gated i f \<longleftrightarrow> f \<in> set (ri_resolution i) \<or>
     (\<exists>d sev. new_finding (fd_code f) (ri_scope i) (fd_observed f) (fd_threshold f) (fd_message f) = Inr d \<and>
        sev \<in> {severity_error, severity_warning, severity_info} \<and> f = d\<lparr>fd_severity := sev\<rparr>)"

lemma the_finding_gated:
  assumes "registry_code code" "sev \<in> {[], severity_error, severity_warning, severity_info}"
  shows "gated i (the_finding code sev (ri_scope i) ob th ms)"
proof -
  obtain d where d: "new_finding code (ri_scope i) ob th ms = Inr d"
    using assms(1) finding_defaults_None [of code] by (auto simp: new_finding_def split: option.split)
  have parts: "fd_code d = code" "fd_severity d = severity_of_code code" "fd_observed d = ob" "fd_threshold d = th"
    "fd_message d = ms"
    using finding_by_registry [of code "ri_scope i" ob th ms] by (simp_all add: d)
  define e where "e = (if sev \<noteq> [] then sev else severity_of_code code)"
  have f: "the_finding code sev (ri_scope i) ob th ms = d\<lparr>fd_severity := e\<rparr>"
    using parts(2) by (cases d) (simp add: the_finding_def policy_finding_def d e_def)
  have "e \<in> {severity_error, severity_warning, severity_info}"
    using assms(2) by (auto simp: severity_of_code_def e_def)
  moreover have "new_finding (fd_code (d\<lparr>fd_severity := e\<rparr>)) (ri_scope i) (fd_observed (d\<lparr>fd_severity := e\<rparr>))
      (fd_threshold (d\<lparr>fd_severity := e\<rparr>)) (fd_message (d\<lparr>fd_severity := e\<rparr>)) = Inr d"
    by (simp add: parts(1,3-5) d)
  ultimately show ?thesis unfolding gated_def f by blast
qed

definition rule_gated :: "rule_input \<Rightarrow> policy_rule \<Rightarrow> bool" where
  "rule_gated i r \<longleftrightarrow> (\<forall>f \<in> set (rule_findings i r). gated i f)"

lemma rules_gated:
  "rule_gated i (rule_graph_available rid)" "rule_gated i (rule_graph_not_stale rid)"
  "rule_gated i (rule_graph_current rid)" "rule_gated i (rule_snapshot_published rid)"
  "rule_gated i (rule_snapshot_current rid)" "rule_gated i (rule_degraded_graded rid)"
  "rule_gated i (rule_degraded_strict rid)" "rule_gated i (rule_heuristic_visible rid)"
  "rule_gated i (rule_scope_evidence rid v)"
  by (simp_all add: rule_gated_def rule_findings_def rule_defs outcome_defs the_finding_gated)

lemma target_rule_gated: "rule_gated i (rule_target_resolved rid a b c)"
  by (simp add: rule_gated_def target_findings gated_def)

lemma severity_rules_gated:
  assumes "sev \<in> {severity_error, severity_warning, severity_info}"
  shows "rule_gated i (rule_parse_skips rid sev v)" "rule_gated i (rule_ambiguous_refs rid sev v)"
    "rule_gated i (rule_unresolved_refs rid sev v)" "rule_gated i (rule_heuristic_only rid sev v)"
    "rule_gated i (rule_external_boundaries rid sev v m)"
  using assms by (simp_all add: rule_gated_def rule_findings_def rule_defs outcome_defs the_finding_gated)

text \<open>
  C38: no finding bypasses the registry.  The constructor accepts exactly its codes, and the finding
  carries the severity and the dimension the registry has for the code; and every finding of a
  built-in policy's assessment is the resolver's own or is what the constructor builds for its
  code in the assessed scope, except that a rule may set another of the three severities.
\<close>

theorem findings_carry_registry:
  assumes "p \<in> set policies"
  shows "(case new_finding code sc ob th ms of
      Inl e \<Rightarrow> e = ErrUnknownFindingCode code \<and> (\<forall>(dim, cs) \<in> set codes_of_dimension. code \<notin> set cs)
    | Inr f \<Rightarrow> fd_code f = code \<and> fd_severity f = severity_of_code code \<and>
        (\<exists>cs. (fd_dimension f, cs) \<in> set codes_of_dimension \<and> code \<in> set cs) \<and>
        fd_scope f = sc \<and> fd_observed f = ob \<and> fd_threshold f = th \<and> fd_message f = ms) \<and>
   (\<exists>a. evaluate_with_scope_facts p snap st scope facts res = Some a \<and>
      (\<forall>f \<in> set (as_findings a). f \<in> set res \<or>
         (\<exists>d sev. new_finding (fd_code f) scope (fd_observed f) (fd_threshold f) (fd_message f) = Inr d \<and>
            sev \<in> {severity_error, severity_warning, severity_info} \<and> f = d\<lparr>fd_severity := sev\<rparr>)))"
proof -
  let ?i = "inputs snap st scope facts res"
  have "\<forall>r \<in> set (pl_rules p). rule_gated ?i r"
    using assms by (elim builtin_cases) (simp_all add: policy_defs rules_gated target_rule_gated severity_rules_gated)
  then have "\<forall>f \<in> set (as_findings (judged p ?i)). gated ?i f"
    by (auto simp: judged_findings rule_gated_def)
  then show ?thesis
    by (intro conjI finding_by_registry) (simp add: evaluate_judged [OF assms] gated_def)
qed

theorem findings_carry_registry_witness:
  "\<exists>a. evaluate_with_scope_facts policy_automated_change zero_snapshot state_stale
      \<lparr>sr_kind = scope_repository, sr_id = [], sr_path = [], sr_package = [], sr_symbol = []\<rparr> no_scope_facts [] = Some a \<and>
    as_findings a \<noteq> [] \<and>
    (\<forall>f \<in> set (as_findings a). fd_severity f \<in> {severity_error, severity_warning, severity_info})"
proof -
  let ?s = "\<lparr>sr_kind = scope_repository, sr_id = [], sr_path = [], sr_package = [], sr_symbol = []\<rparr> :: scope_ref"
  let ?i = "inputs zero_snapshot state_stale ?s no_scope_facts []"
  have p: "policy_automated_change \<in> set policies" by simp
  have "state_stale \<noteq> state_current" by (simp add: state_stale_def state_current_def)
  then have "as_verdict (judged policy_automated_change ?i) \<noteq> Pass" unfolding automated_passes by simp
  then have "as_findings (judged policy_automated_change ?i) \<noteq> []" by (rule judged_explained(3) [OF p])
  moreover from findings_carry_registry [OF p, THEN conjunct2, of zero_snapshot state_stale ?s no_scope_facts "[]"]
  have "\<forall>f \<in> set (as_findings (judged policy_automated_change ?i)).
      fd_severity f \<in> {severity_error, severity_warning, severity_info}"
    by (auto simp: evaluate_judged [OF p])
  ultimately show ?thesis by (simp add: evaluate_judged [OF p])
qed

subsection \<open>Evidence that is no evidence\<close>

lemma rules_ignore_facts:
  assumes "\<not> scope_facts_usable i" "\<not> scope_facts_usable j"
    and "ri_snap i = ri_snap j" "ri_st i = ri_st j" "ri_scope i = ri_scope j" "ri_resolution i = ri_resolution j"
  shows "ru_eval (rule_graph_available rid) i = ru_eval (rule_graph_available rid) j"
    "ru_eval (rule_graph_not_stale rid) i = ru_eval (rule_graph_not_stale rid) j"
    "ru_eval (rule_graph_current rid) i = ru_eval (rule_graph_current rid) j"
    "ru_eval (rule_snapshot_published rid) i = ru_eval (rule_snapshot_published rid) j"
    "ru_eval (rule_snapshot_current rid) i = ru_eval (rule_snapshot_current rid) j"
    "ru_eval (rule_target_resolved rid a b c) i = ru_eval (rule_target_resolved rid a b c) j"
    "ru_eval (rule_scope_evidence rid v) i = ru_eval (rule_scope_evidence rid v) j"
    "ru_eval (rule_parse_skips rid s v) i = ru_eval (rule_parse_skips rid s v) j"
    "ru_eval (rule_degraded_graded rid) i = ru_eval (rule_degraded_graded rid) j"
    "ru_eval (rule_degraded_strict rid) i = ru_eval (rule_degraded_strict rid) j"
    "ru_eval (rule_ambiguous_refs rid s v) i = ru_eval (rule_ambiguous_refs rid s v) j"
    "ru_eval (rule_unresolved_refs rid s v) i = ru_eval (rule_unresolved_refs rid s v) j"
    "ru_eval (rule_heuristic_visible rid) i = ru_eval (rule_heuristic_visible rid) j"
    "ru_eval (rule_heuristic_only rid s v) i = ru_eval (rule_heuristic_only rid s v) j"
    "ru_eval (rule_external_boundaries rid s v m) i = ru_eval (rule_external_boundaries rid s v m) j"
  using assms by (simp_all add: rule_defs outcome_defs repo_facts_usable_def)

lemma judged_cong:
  assumes "\<And>r. r \<in> set (pl_rules p) \<Longrightarrow> ru_eval r i = ru_eval r j"
    and "ri_snap i = ri_snap j" "ri_st i = ri_st j" "ri_scope i = ri_scope j"
  shows "judged p i = judged p j"
proof -
  have "map (rule_findings i) (pl_rules p) = map (rule_findings j) (pl_rules p)"
    "map (contribution i) (pl_rules p) = map (contribution j) (pl_rules p)"
    "filter (rule_holds i) (pl_rules p) = filter (rule_holds j) (pl_rules p)"
    using assms(1) by (auto simp: rule_findings_def contribution_def rule_holds_def intro: filter_cong)
  then show ?thesis using assms(2-4) unfolding judged_def by (simp only:)
qed

text \<open>
  facts that are not available, claim nothing or leave their closed vocabularies, and
  any facts at repository scope or for an unresolved target, change nothing: the assessment is the
  factless one, field for field.
\<close>

theorem unusable_facts_are_ignored:
  assumes "p \<in> set policies"
    and "sr_kind scope = scope_repository \<or> \<not> scope_resolved scope \<or> \<not> well_formed_facts facts"
  shows "evaluate_with_scope_facts p snap st scope facts res = policy_evaluate p snap st scope res"
proof -
  let ?i = "inputs snap st scope facts res" and ?j = "inputs snap st scope no_scope_facts res"
  have u: "\<not> scope_facts_usable ?i" "\<not> scope_facts_usable ?j"
    using assms(2) by (auto simp: scope_facts_usable_def well_formed_facts_def no_scope_facts_def)
  have "judged p ?i = judged p ?j"
  proof (rule judged_cong)
    fix r assume "r \<in> set (pl_rules p)"
    then show "ru_eval r ?i = ru_eval r ?j"
      using assms(1) rules_ignore_facts [OF u] unfolding policies_def policy_defs by auto
  qed simp_all
  then show ?thesis by (simp add: policy_evaluate_def evaluate_judged [OF assms(1)])
qed

theorem unusable_facts_are_ignored_witness:
  "evaluate_with_scope_facts policy_review zero_snapshot state_current
     \<lparr>sr_kind = scope_file, sr_id = [], sr_path = ''a.go'', sr_package = [], sr_symbol = []\<rparr>
     \<lparr>sc_available = True, sc_file = zero_file_facts\<lparr>sf_parse_status := ''clean''\<rparr>, sc_package = zero_package_facts\<rparr> [] =
   policy_evaluate policy_review zero_snapshot state_current
     \<lparr>sr_kind = scope_file, sr_id = [], sr_path = ''a.go'', sr_package = [], sr_symbol = []\<rparr> []"
  by (rule unusable_facts_are_ignored)
    (simp_all add: well_formed_facts_def zero_file_facts_def Let_def parse_status_parsed_def parse_status_skipped_def)

lemma state_floor:
  assumes "p \<in> set policies" "st \<noteq> state_current"
  shows "\<exists>a. evaluate_with_scope_facts p snap st scope facts res = Some a \<and>
    (if st \<noteq> state_stale then verdict_rank (as_verdict a) \<ge> verdict_rank Unverified
     else if p = policy_exploratory then verdict_rank (as_verdict a) \<ge> verdict_rank Warn
     else as_verdict a = Fail)"
proof -
  let ?i = "inputs snap st scope facts res"
  have le: "verdict_rank (contribution ?i r) \<le> verdict_rank (as_verdict (judged p ?i))" if "r \<in> set (pl_rules p)" for r
    using that worst_le [of "map (contribution ?i) (pl_rules p)"] unfolding judged_verdict by auto
  have fail: "v = Fail" if "3 \<le> verdict_rank v" for v using that by (cases v) simp_all
  consider "p = policy_exploratory" | "rule_graph_current ''R1'' \<in> set (pl_rules p)"
    | "rule_graph_current ''A1'' \<in> set (pl_rules p)"
    using assms(1) by (elim builtin_cases) (simp_all add: policy_defs)
  then show ?thesis
  proof cases
    case 1
    have "rule_snapshot_published ''E7'' \<in> set (pl_rules p)" "rule_graph_not_stale ''E2'' \<in> set (pl_rules p)"
      unfolding 1 policy_exploratory_def by simp_all
    from le [OF this(1)] le [OF this(2)] show ?thesis using assms 1
      by (simp add: evaluate_judged snapshot_published_contribution graph_not_stale_contribution split: if_splits)
  next
    case 2
    from le [OF 2] fail show ?thesis using assms
      by (simp add: evaluate_judged graph_current_contribution split: if_splits) (auto dest: sym)
  next
    case 3
    from le [OF 3] fail show ?thesis using assms
      by (simp add: evaluate_judged graph_current_contribution split: if_splits) (auto dest: sym)
  qed
qed

text \<open>
  the state alone bounds the verdict from below, whatever the evidence: without a
  settled snapshot (UNAVAILABLE, INCOMPLETE or any string outside the closed set) no policy says
  better than UNVERIFIED; a STALE one is at best WARN for exploratory and FAIL for the others.
\<close>

theorem state_floors:
  assumes "p \<in> set policies" "st \<noteq> state_current"
  shows "\<exists>a. evaluate_with_scope_facts p snap st scope facts res = Some a \<and>
    (if st \<noteq> state_stale then verdict_rank (as_verdict a) \<ge> verdict_rank Unverified
     else if p = policy_exploratory then verdict_rank (as_verdict a) \<ge> verdict_rank Warn
     else as_verdict a = Fail)"
  by (rule state_floor [OF assms])

theorem state_floors_witness:
  "\<exists>a. evaluate_with_scope_facts policy_automated_change zero_snapshot state_stale
      \<lparr>sr_kind = scope_symbol, sr_id = [], sr_path = [], sr_package = [], sr_symbol = ''f''\<rparr> no_scope_facts [] = Some a \<and>
     as_verdict a = Fail"
proof -
  have "policy_automated_change \<noteq> policy_exploratory"
    by (simp add: policy_automated_change_def policy_exploratory_def policy_name_automated_change_def
        policy_name_exploratory_def)
  then show ?thesis
    using state_floors [of policy_automated_change state_stale zero_snapshot "\<lparr>sr_kind = scope_symbol, sr_id = [], sr_path = [], sr_package = [], sr_symbol = ''f''\<rparr>"
        no_scope_facts "[]"] by simp
qed

text \<open>
  the surfaces' tokens are the three derived identifiers, resolved exactly: each
  names its policy and every other string is the typed error.
\<close>

theorem policy_by_id_exact:
  "policy_ids = [''exploratory-v1'', ''review-v1'', ''automated-change-v1''] \<and>
   policy_by_id pid =
     (if pid = ''exploratory-v1'' then Inr policy_exploratory
      else if pid = ''review-v1'' then Inr policy_review
      else if pid = ''automated-change-v1'' then Inr policy_automated_change
      else Inl (ErrPolicyUnknown pid))"
proof -
  have "itoa 1 = ''1''" by code_simp
  then have ids: "policy_id policy_exploratory = ''exploratory-v1''" "policy_id policy_review = ''review-v1''"
      "policy_id policy_automated_change = ''automated-change-v1''"
    by (simp_all add: policy_id_def policy_defs policy_name_exploratory_def policy_name_review_def
        policy_name_automated_change_def)
  then show ?thesis by (simp add: policy_ids_def policy_by_id_def policies_def)
qed

end
