(* ===== verification/TrustScope.thy ===== *)
theory TrustScope
  imports TrustPolicy
begin

text \<open>
  Target resolution (\<open>engine/trust/scope.go\<close>) over the store's selective lookups, and the
  capability matrix (\<open>capability.go\<close>).  The lookups are an interface, the locale
  \<open>symbol_lookup\<close>, interpreted on the in-memory store.  \<open>quote\<close> is \<open>fmt\<close>'s \<open>%q\<close>; the package
  port is a list of optional lookups, as the variadic argument has it.
\<close>

subsection \<open>Resolution\<close>

definition max_target_candidates :: nat where
  "max_target_candidates = 5"

type_synonym node_lookup = "string \<Rightarrow> store_error + node list"
type_synonym package_lookup = "string \<Rightarrow> store_error + bool"

definition mk_scope :: "string \<Rightarrow> string \<Rightarrow> string \<Rightarrow> string \<Rightarrow> string \<Rightarrow> scope_ref" where
  "mk_scope kind i path pkg symb =
     \<lparr>sr_kind = kind, sr_id = i, sr_path = path, sr_package = pkg, sr_symbol = symb\<rparr>"

fun join_with :: "string \<Rightarrow> string list \<Rightarrow> string" where
  "join_with sep [] = []"
| "join_with sep [x] = x"
| "join_with sep (x # y # ys) = x @ sep @ join_with sep (y # ys)"

definition candidates :: "node list \<Rightarrow> string list" where
  "candidates ns =
     (let cands = sort (map (\<lambda>n. n_kind n @ '' '' @ n_path n) ns)
      in if length cands > max_target_candidates then take max_target_candidates cands else cands)"

definition ambiguous_target_message :: "(string \<Rightarrow> string) \<Rightarrow> string \<Rightarrow> node list \<Rightarrow> string" where
  "ambiguous_target_message quote raw ns =
     (let listed = join_with '', '' (candidates ns) @
            (if length ns > max_target_candidates then '', ...'' else [])
      in ''target '' @ quote raw @ '' matches '' @ itoa (int (length ns)) @ '' symbols; candidates: '' @ listed)"

definition confirm_package :: "string \<Rightarrow> package_lookup option list \<Rightarrow> bool" where
  "confirm_package k pkg =
     (case pkg of
        [] \<Rightarrow> False
      | port # rest \<Rightarrow>
          (case port of
             None \<Rightarrow> False
           | Some lookup_package \<Rightarrow>
               if k = [] then False
               else (case lookup_package k of Inl e \<Rightarrow> False | Inr ok \<Rightarrow> ok)))"

definition not_found_scope ::
  "(string \<Rightarrow> string) \<Rightarrow> string \<Rightarrow> package_lookup option list \<Rightarrow> trust_error + scope_ref \<times> finding list" where
  "not_found_scope quote raw pkg =
     (if confirm_package raw pkg then Inr (mk_scope scope_package raw [] raw [], [])
      else
        let package_looking = contains_str raw ''/'';
            scope = (if package_looking then mk_scope scope_package [] [] raw []
                     else mk_scope scope_symbol [] [] [] raw)
        in case new_finding finding_target_not_found scope ''0'' ''1''
               (''target '' @ quote raw @ '' matches no symbol qualified name and no indexed file path'') of
             Inl e \<Rightarrow> Inl e
           | Inr not_found \<Rightarrow>
               if package_looking then
                 (case new_finding finding_scope_evidence_unavailable scope [] []
                     (''package scope resolution is not available in v1; package-looking target '' @ quote raw @
                      '' resolves as not-found'') of
                    Inl e \<Rightarrow> Inl e
                  | Inr unavailable \<Rightarrow> Inr (scope, [not_found, unavailable]))
               else Inr (scope, [not_found]))"

definition resolve_scope ::
  "(string \<Rightarrow> string) \<Rightarrow> (node_lookup \<times> node_lookup) option \<Rightarrow> string \<Rightarrow> package_lookup option list
     \<Rightarrow> trust_error + scope_ref \<times> finding list" where
  "resolve_scope quote port raw0 pkg =
     (let raw = trim_space raw0
      in if raw = [] then Inr (mk_scope scope_repository [] [] [] [], [])
         else (case port of
           None \<Rightarrow> Inl ErrSelectiveLookupUnavailable
         | Some (qualified_name, source_path) \<Rightarrow>
             (case qualified_name raw of
                Inl err \<Rightarrow> Inl (ErrStore err)
              | Inr ns \<Rightarrow>
                  if length ns = 1 then
                    let n = ns ! 0
                    in Inr (mk_scope scope_symbol (n_id n) (n_path n) [] (n_qname n), [])
                  else if length ns > 1 then
                    (let scope = mk_scope scope_symbol [] [] [] raw
                     in case new_finding finding_target_ambiguous scope (itoa (int (length ns))) ''1''
                            (ambiguous_target_message quote raw ns) of
                          Inl e \<Rightarrow> Inl e
                        | Inr f \<Rightarrow> Inr (scope, [f]))
                  else
                    let normalized = normalize_path raw
                    in case source_path normalized of
                         Inl err \<Rightarrow> Inl (ErrStore err)
                       | Inr files \<Rightarrow>
                           if length files > 0 then Inr (mk_scope scope_file [] normalized [] [], [])
                           else not_found_scope quote raw pkg)))"

subsection \<open>Capabilities\<close>

datatype capability_level = TypedConfirmed | CrossFileHeuristic | IntraFileOnly | ParseOnly

record capability =
  cb_language :: string
  cb_level :: capability_level

record capability_inputs =
  ci_languages :: "string list"
  ci_type_checked :: "string list"
  ci_cross_file_linked :: "string list"
  ci_symbol_extraction :: "(string, bool) fmap"

definition grade :: "capability_inputs \<Rightarrow> string \<Rightarrow> capability_level option" where
  "grade ci lang =
     (if lang \<in> set (ci_type_checked ci) then Some TypedConfirmed
      else if lang \<in> set (ci_cross_file_linked ci) then Some CrossFileHeuristic
      else (case fmlookup (ci_symbol_extraction ci) lang of
              None \<Rightarrow> None
            | Some extracts \<Rightarrow> Some (if extracts then IntraFileOnly else ParseOnly)))"

fun capability_loop :: "capability_inputs \<Rightarrow> string fset \<Rightarrow> string list \<Rightarrow> capability list" where
  "capability_loop ci seen [] = []"
| "capability_loop ci seen (lang # ls) =
     (if lang = [] then capability_loop ci seen ls
      else if lang |\<in>| seen then capability_loop ci seen ls
      else (case grade ci lang of
              None \<Rightarrow> capability_loop ci (finsert lang seen) ls
            | Some level \<Rightarrow>
                \<lparr>cb_language = lang, cb_level = level\<rparr> # capability_loop ci (finsert lang seen) ls))"

definition capabilities :: "capability_inputs \<Rightarrow> capability list" where
  "capabilities ci = sort_key cb_language (capability_loop ci {||} (ci_languages ci))"

subsection \<open>Properties: capabilities\<close>

lemma capability_loop_spec:
  "distinct (map cb_language (capability_loop ci seen ls)) \<and>
   set (capability_loop ci seen ls) =
     {c. cb_language c \<in> set ls \<and> cb_language c \<noteq> [] \<and> cb_language c |\<notin>| seen \<and>
         grade ci (cb_language c) = Some (cb_level c)}"
proof (induction ls arbitrary: seen)
  case (Cons lang ls)
  show ?case
  proof (cases "lang = [] \<or> lang |\<in>| seen")
    case True
    then show ?thesis using Cons.IH [of seen] by auto
  next
    case False
    have ih: "distinct (map cb_language (capability_loop ci (finsert lang seen) ls))"
      "set (capability_loop ci (finsert lang seen) ls) =
         {c. cb_language c \<in> set ls \<and> cb_language c \<noteq> [] \<and> cb_language c |\<notin>| finsert lang seen \<and>
             grade ci (cb_language c) = Some (cb_level c)}"
      using Cons.IH [of "finsert lang seen"] by blast+
    have here: "{c. cb_language c = lang \<and> grade ci lang = Some (cb_level c)} =
        (case grade ci lang of None \<Rightarrow> {} | Some l \<Rightarrow> {\<lparr>cb_language = lang, cb_level = l\<rparr>})"
      by (auto split: option.split intro: capability.equality)
    define rest where "rest = capability_loop ci (finsert lang seen) ls"
    have rows: "{c. cb_language c \<in> set (lang # ls) \<and> cb_language c \<noteq> [] \<and> cb_language c |\<notin>| seen \<and>
         grade ci (cb_language c) = Some (cb_level c)} =
        {c. cb_language c = lang \<and> grade ci lang = Some (cb_level c)} \<union> set rest"
      unfolding rest_def ih(2) using False by auto
    have new: "lang \<notin> cb_language ` set rest" unfolding rest_def ih(2) by auto
    have d: "distinct (map cb_language rest)" unfolding rest_def by (rule ih(1))
    show ?thesis
    proof (cases "grade ci lang")
      case None
      then have "capability_loop ci seen (lang # ls) = rest" using False by (simp add: rest_def)
      then show ?thesis using d rows unfolding here by (simp del: capability_loop.simps add: None)
    next
      case (Some l)
      then have "capability_loop ci seen (lang # ls) = \<lparr>cb_language = lang, cb_level = l\<rparr> # rest"
        using False by (simp add: rest_def)
      then show ?thesis using d new rows unfolding here by (simp del: capability_loop.simps add: Some)
    qed
  qed
qed simp

text \<open>
  the matrix has one row for each named language that something is known of, in
  strictly ascending order, graded by the strongest evidence; a language whose parser declared
  nothing has a row only if it is type-checked or linked.
\<close>

theorem capabilities_matrix:
  "ssorted (map cb_language (capabilities ci)) \<and>
   set (capabilities ci) =
     {c. cb_language c \<in> set (ci_languages ci) \<and> cb_language c \<noteq> [] \<and>
         grade ci (cb_language c) = Some (cb_level c)}"
proof -
  note s = capability_loop_spec [of ci "{||}" "ci_languages ci"]
  have "sorted (map cb_language (capabilities ci))" by (simp add: capabilities_def)
  moreover have "distinct (map cb_language (capabilities ci))"
    using s [THEN conjunct1] by (simp add: capabilities_def distinct_map)
  ultimately show ?thesis using s by (simp add: strict_sorted_iff capabilities_def)
qed

subsection \<open>The lookups as an interface\<close>

text \<open>
  What resolution relies on: for a sound state, a lookup by name or by path lists the stored
  nodes with that attribute, and stored identities are not empty.
\<close>

locale symbol_lookup =
  fixes sound :: "'s \<Rightarrow> bool"
    and stored :: "'s \<Rightarrow> node list"
    and by_name :: "'s \<Rightarrow> string \<Rightarrow> store_error + node list"
    and by_file :: "'s \<Rightarrow> string \<Rightarrow> store_error + node list"
  assumes by_name_spec: "sound s \<Longrightarrow> by_name s q = Inr (filter (\<lambda>n. n_qname n = q) (stored s))"
    and by_file_spec: "sound s \<Longrightarrow> by_file s p = Inr (filter (\<lambda>n. n_path n = p) (stored s))"
begin

definition named :: "'s \<Rightarrow> string \<Rightarrow> node list" where
  "named s q = filter (\<lambda>n. n_qname n = q) (stored s)"

definition resolution :: "'s \<Rightarrow> (string \<Rightarrow> string) \<Rightarrow> string \<Rightarrow> package_lookup option list \<Rightarrow> scope_ref \<times> finding list" where
  "resolution s quote raw pkg =
     (case resolve_scope quote (Some (by_name s, by_file s)) raw pkg of Inr r \<Rightarrow> r)"

lemma not_found_Inr:
  "\<exists>sc fs. not_found_scope quote raw pkg = Inr (sc, fs) \<and>
     (if confirm_package raw pkg then sc = mk_scope scope_package raw [] raw [] \<and> fs = []
      else sr_id sc = [] \<and> sr_kind sc \<in> {scope_package, scope_symbol} \<and> fs \<noteq> [] \<and>
        fd_code (hd fs) = finding_target_not_found)"
  by (auto simp: not_found_scope_def new_finding_def Let_def mk_scope_def finding_defaults_def
      finding_table_def finding_code_defs split: option.split)

lemma resolve_cases:
  assumes "sound s"
  obtains (repository) "trim_space raw = []"
      "resolve_scope quote (Some (by_name s, by_file s)) raw pkg = Inr (mk_scope scope_repository [] [] [] [], [])"
    | (symbol) n where "trim_space raw \<noteq> []" "named s (trim_space raw) = [n]"
      "resolve_scope quote (Some (by_name s, by_file s)) raw pkg =
         Inr (mk_scope scope_symbol (n_id n) (n_path n) [] (n_qname n), [])"
    | (ambiguous) f where "trim_space raw \<noteq> []" "length (named s (trim_space raw)) > 1"
      "resolve_scope quote (Some (by_name s, by_file s)) raw pkg =
         Inr (mk_scope scope_symbol [] [] [] (trim_space raw), [f])" "fd_code f = finding_target_ambiguous"
    | (path) "trim_space raw \<noteq> []" "named s (trim_space raw) = []"
      "\<exists>n \<in> set (stored s). n_path n = normalize_path (trim_space raw)"
      "resolve_scope quote (Some (by_name s, by_file s)) raw pkg =
         Inr (mk_scope scope_file [] (normalize_path (trim_space raw)) [] [], [])"
    | (missing) "trim_space raw \<noteq> []" "named s (trim_space raw) = []"
      "\<forall>n \<in> set (stored s). n_path n \<noteq> normalize_path (trim_space raw)"
      "resolve_scope quote (Some (by_name s, by_file s)) raw pkg = not_found_scope quote (trim_space raw) pkg"
proof -
  let ?raw = "trim_space raw" and ?r = "resolve_scope quote (Some (by_name s, by_file s)) raw pkg"
  consider "?raw = []" | n where "?raw \<noteq> []" "named s ?raw = [n]" | "?raw \<noteq> []" "length (named s ?raw) > 1"
    | "?raw \<noteq> []" "named s ?raw = []"
    by (cases "named s ?raw" rule: remdups_adj.cases) auto
  then show thesis
  proof cases
    case 1
    then show thesis by (intro repository) (simp_all add: resolve_scope_def)
  next
    case 2
    then show thesis
      by (intro symbol [of n]) (simp_all add: resolve_scope_def by_name_spec [OF assms] flip: named_def)
  next
    case 3
    obtain f where "new_finding finding_target_ambiguous (mk_scope scope_symbol [] [] [] ?raw)
        (itoa (int (length (named s ?raw)))) ''1'' (ambiguous_target_message quote ?raw (named s ?raw)) = Inr f"
        "fd_code f = finding_target_ambiguous"
      by (simp add: new_finding_def finding_defaults_def finding_table_def finding_code_defs)
    with 3 show thesis
      by (intro ambiguous [of f]) (simp_all add: resolve_scope_def by_name_spec [OF assms] Let_def flip: named_def)
  next
    case 4
    show thesis
    proof (cases "\<exists>n \<in> set (stored s). n_path n = normalize_path ?raw")
      case True
      then have "filter (\<lambda>n. n_path n = normalize_path ?raw) (stored s) \<noteq> []" by (auto simp: filter_empty_conv)
      with 4 True show thesis
        by (intro path) (simp_all add: resolve_scope_def by_name_spec [OF assms] by_file_spec [OF assms]
            Let_def flip: named_def)
    next
      case False
      then have "filter (\<lambda>n. n_path n = normalize_path ?raw) (stored s) = []" by (auto simp: filter_empty_conv)
      with 4 False show thesis
        by (intro missing) (simp_all add: resolve_scope_def by_name_spec [OF assms] by_file_spec [OF assms]
            Let_def flip: named_def)
    qed
  qed
qed

lemma resolution_exact:
  assumes "sound s" "\<forall>n \<in> set (stored s). n_id n \<noteq> []"
  shows "\<exists>sc fs. resolve_scope quote (Some (by_name s, by_file s)) raw pkg = Inr (sc, fs) \<and>
    (fs = [] \<longleftrightarrow> scope_resolved sc \<or> sr_kind sc = scope_file \<and> sr_path sc = []) \<and>
    (let q = trim_space raw
     in if q = [] then sc = mk_scope scope_repository [] [] [] [] \<and> fs = []
        else if length (named s q) = 1 then
          sc = mk_scope scope_symbol (n_id (hd (named s q))) (n_path (hd (named s q))) [] q \<and> fs = []
        else if named s q \<noteq> [] then
          sc = mk_scope scope_symbol [] [] [] q \<and> map fd_code fs = [finding_target_ambiguous]
        else if \<exists>n \<in> set (stored s). n_path n = normalize_path q then
          sc = mk_scope scope_file [] (normalize_path q) [] [] \<and> fs = []
        else if confirm_package q pkg then sc = mk_scope scope_package q [] q [] \<and> fs = []
        else sr_id sc = [] \<and> fs \<noteq> [] \<and> fd_code (hd fs) = finding_target_not_found)"
proof (cases rule: resolve_cases
    [OF assms(1), of raw quote pkg, case_names repository symbol ambiguous path missing])
  case repository
  then show ?thesis by (simp add: scope_resolved_def mk_scope_def)
next
  case (symbol n)
  have "n \<in> set (named s (trim_space raw))" using symbol by simp
  then have "n_qname n = trim_space raw" "n_id n \<noteq> []" using assms(2) by (simp_all add: named_def)
  then show ?thesis using symbol
    by (simp add: scope_resolved_def mk_scope_def scope_symbol_def scope_file_def scope_repository_def scope_package_def Let_def)
next
  case (ambiguous f)
  then show ?thesis
    by (cases "named s (trim_space raw)")
      (simp_all add: scope_resolved_def mk_scope_def scope_symbol_def scope_file_def scope_repository_def
        scope_package_def Let_def)
next
  case path
  then show ?thesis
    by (simp add: scope_resolved_def mk_scope_def scope_symbol_def scope_file_def scope_repository_def
        scope_package_def Let_def)
next
  case missing
  obtain sc fs where r: "not_found_scope quote (trim_space raw) pkg = Inr (sc, fs)"
    and e: "if confirm_package (trim_space raw) pkg
      then sc = mk_scope scope_package (trim_space raw) [] (trim_space raw) [] \<and> fs = []
      else sr_id sc = [] \<and> sr_kind sc \<in> {scope_package, scope_symbol} \<and> fs \<noteq> [] \<and>
        fd_code (hd fs) = finding_target_not_found"
    using not_found_Inr by blast
  have kinds: "scope_package \<noteq> scope_repository" "scope_package \<noteq> scope_file" "scope_symbol \<noteq> scope_repository"
      "scope_symbol \<noteq> scope_file" "scope_package \<noteq> scope_symbol" "scope_symbol \<noteq> scope_package"
    by (simp_all add: scope_symbol_def scope_file_def scope_repository_def scope_package_def)
  show ?thesis
  proof (cases "confirm_package (trim_space raw) pkg")
    case True
    then show ?thesis using missing r e kinds
      by (auto simp: scope_resolved_def mk_scope_def Let_def)
  next
    case False
    have "\<not> scope_resolved sc \<and> sr_kind sc \<noteq> scope_file"
      using e False kinds by (auto simp: scope_resolved_def)
    then show ?thesis using missing r e False by (simp add: Let_def)
  qed
qed

text \<open>A target that several stored nodes carry, or nothing, is reported and keeps no identity.\<close>

lemma unresolved_reported:
  assumes "sound s" "trim_space raw \<noteq> []"
    and "length (named s (trim_space raw)) > 1 \<or>
      named s (trim_space raw) = [] \<and> (\<forall>n \<in> set (stored s). n_path n \<noteq> normalize_path (trim_space raw)) \<and>
        \<not> confirm_package (trim_space raw) pkg"
  shows "\<exists>sc fs. resolve_scope quote (Some (by_name s, by_file s)) raw pkg = Inr (sc, fs) \<and> sr_id sc = [] \<and> fs \<noteq> []"
proof (cases rule: resolve_cases
    [OF assms(1), of raw quote pkg, case_names repository symbol ambiguous path missing])
  case missing
  obtain sc fs where "not_found_scope quote (trim_space raw) pkg = Inr (sc, fs)"
    "if confirm_package (trim_space raw) pkg then sc = mk_scope scope_package (trim_space raw) [] (trim_space raw) [] \<and> fs = []
     else sr_id sc = [] \<and> sr_kind sc \<in> {scope_package, scope_symbol} \<and> fs \<noteq> [] \<and> fd_code (hd fs) = finding_target_not_found"
    using not_found_Inr by blast
  moreover have "\<not> confirm_package (trim_space raw) pkg" using assms(3) missing(2) by simp
  ultimately show ?thesis using missing(4) by simp
qed (use assms(2,3) in \<open>auto simp: mk_scope_def\<close>)

end

text \<open>The in-memory store provides it.\<close>

lemma mem_lookups:
  assumes "store_ok m" "\<not> closed m"
  shows "mem_qualified_name None m q = Inr (filter (\<lambda>n. n_qname n = q) (map_values (nodes m)))"
    and "mem_source_path None m q = Inr (filter (\<lambda>n. n_path n = q) (map_values (nodes m)))"
proof -
  have ix: "keyed n_id (nodes m)" "set_index_rel (by_qn m) = pairs n_qname (nodes m)"
    "set_index_rel (by_path m) = pairs n_path (nodes m)"
    using assms(1) by (simp_all add: store_ok_def nodes_indexed_def)
  show "mem_qualified_name None m q = Inr (filter (\<lambda>n. n_qname n = q) (map_values (nodes m)))"
    "mem_source_path None m q = Inr (filter (\<lambda>n. n_path n = q) (map_values (nodes m)))"
    using nodes_found [OF ix(1) fset_set_at [OF ix(2)]] nodes_found [OF ix(1) fset_set_at [OF ix(3)]] assms(2)
    by (simp_all add: mem_qualified_name_def mem_source_path_def lookup_nodes_def hits_def)
qed

interpretation ms: symbol_lookup "\<lambda>m. store_ok m \<and> \<not> closed m" "\<lambda>m. map_values (nodes m)"
    "mem_qualified_name None" "mem_source_path None"
  by unfold_locales (simp_all add: mem_lookups)

text \<open>
  resolution against a sound store decides by the stored nodes alone: the only node of
  that name, else several are reported as ambiguous and none is picked, else a stored path,
  else a confirmed package, else not found.  It reports findings exactly on the scopes that the
  policies treat as unresolved, a path-less file scope excepted.
\<close>

theorem resolution_decides_by_catalog:
  assumes "store_ok m" "\<not> closed m" "\<forall>n \<in> set (map_values (nodes m)). n_id n \<noteq> []"
  shows "\<exists>sc fs. resolve_scope quote (Some (mem_qualified_name None m, mem_source_path None m)) raw pkg = Inr (sc, fs) \<and>
    (fs = [] \<longleftrightarrow> scope_resolved sc \<or> sr_kind sc = scope_file \<and> sr_path sc = []) \<and>
    (let q = trim_space raw; hits = filter (\<lambda>n. n_qname n = q) (map_values (nodes m))
     in if q = [] then sc = mk_scope scope_repository [] [] [] [] \<and> fs = []
        else if length hits = 1 then
          sc = mk_scope scope_symbol (n_id (hd hits)) (n_path (hd hits)) [] q \<and> fs = []
        else if hits \<noteq> [] then
          sc = mk_scope scope_symbol [] [] [] q \<and> map fd_code fs = [finding_target_ambiguous]
        else if \<exists>n \<in> set (map_values (nodes m)). n_path n = normalize_path q then
          sc = mk_scope scope_file [] (normalize_path q) [] [] \<and> fs = []
        else if confirm_package q pkg then sc = mk_scope scope_package q [] q [] \<and> fs = []
        else sr_id sc = [] \<and> fs \<noteq> [] \<and> fd_code (hd fs) = finding_target_not_found)"
  unfolding Let_def
  by (rule ms.resolution_exact [unfolded ms.named_def Let_def]) (use assms in simp_all)

subsection \<open>Unresolved targets and the policies\<close>

lemma reported_findings:
  assumes "resolve_scope quote port raw pkg = Inr (sc, fs)" "fs \<noteq> []"
  shows "\<exists>f \<in> set fs. fd_code f = finding_target_not_found \<or> fd_code f = finding_target_ambiguous"
proof -
  have nf: "\<exists>f \<in> set fs. fd_code f = finding_target_not_found"
    if "not_found_scope quote q pkg = Inr (sc, fs)" "fs \<noteq> []" for q sc fs
    using that by (auto simp: not_found_scope_def new_finding_def Let_def split: if_splits option.splits sum.splits)
  show ?thesis
  proof (cases "\<exists>q. not_found_scope quote q pkg = Inr (sc, fs)")
    case True
    then show ?thesis using nf assms(2) by blast
  next
    case False
    then show ?thesis using assms
      by (auto simp: resolve_scope_def new_finding_def Let_def split: if_splits option.splits sum.splits prod.splits)
  qed
qed

lemma target_rule_reported:
  assumes "f \<in> set (ri_resolution i)" "fd_code f = finding_target_not_found \<or> fd_code f = finding_target_ambiguous"
    "rule_target_resolved x a b c \<in> set (pl_rules p)" "k \<le> verdict_rank a" "k \<le> verdict_rank b"
  shows "k \<le> verdict_rank (as_verdict (judged p i))"
proof -
  have "k \<le> verdict_rank (adopted_verdict a b c f)" using assms(2,4,5) by (auto simp: adopted_verdict_def)
  also have "\<dots> \<le> verdict_rank (worst (map (adopted_verdict a b c) (ri_resolution i)))"
    using worst_le [of "map (adopted_verdict a b c) (ri_resolution i)"] assms(1) by auto
  also have "\<dots> = verdict_rank (contribution i (rule_target_resolved x a b c))"
    using assms(1) by (cases "ri_resolution i") (simp_all add: target_resolved_contribution)
  also have "\<dots> \<le> verdict_rank (as_verdict (judged p i))"
    using worst_le [of "map (contribution i) (pl_rules p)"] assms(3) unfolding judged_verdict by auto
  finally show ?thesis .
qed

lemma reported_never_pass:
  assumes "resolve_scope quote port raw pkg = Inr (sc, fs)" "fs \<noteq> []" "p \<in> set policies"
  shows "\<exists>a. evaluate_with_scope_facts p snap st sc facts fs = Some a \<and>
    (if p = policy_automated_change then as_verdict a = Fail
     else verdict_rank (as_verdict a) \<ge> verdict_rank Unverified)"
proof -
  let ?i = "inputs snap st sc facts fs"
  obtain f where f: "f \<in> set (ri_resolution ?i)"
      "fd_code f = finding_target_not_found \<or> fd_code f = finding_target_ambiguous"
    using reported_findings [OF assms(1,2)] by auto
  note low = target_rule_reported [OF f]
  have fail: "v = Fail" if "3 \<le> verdict_rank v" for v using that by (cases v) simp_all
  have "if p = policy_automated_change then as_verdict (judged p ?i) = Fail
     else verdict_rank (as_verdict (judged p ?i)) \<ge> verdict_rank Unverified"
    using assms(3)
  proof (cases rule: builtin_cases)
    case 1
    have "2 \<le> verdict_rank (as_verdict (judged p ?i))"
      by (rule low [of "''E-target(v1)''" Unverified Unverified Warn]) (simp_all add: 1 policy_exploratory_def)
    then show ?thesis using fail by (auto simp: 1 policy_defs policy_name_exploratory_def policy_name_automated_change_def)
  next
    case 2
    have "2 \<le> verdict_rank (as_verdict (judged p ?i))"
      by (rule low [of "''R2''" Unverified Unverified Unverified]) (simp_all add: 2 policy_review_def)
    then show ?thesis by (auto simp: 2 policy_defs policy_name_review_def policy_name_automated_change_def)
  next
    case 3
    have "3 \<le> verdict_rank (as_verdict (judged p ?i))"
      by (rule low [of "''A3''" Fail Fail Unverified]) (simp_all add: 3 policy_automated_change_def)
    then show ?thesis using fail by (simp add: 3)
  qed
  then show ?thesis by (simp add: evaluate_judged [OF assms(3)])
qed

text \<open>
  C36: resolver and policies together: a target that several stored nodes are named like, or that is
  no stored name, no stored path and no confirmed package, gets a scope without identity - no
  candidate is picked - and never a usable verdict: at best UNVERIFIED, and FAIL for
  automated-change, whatever snapshot, state and scope facts are claimed for it.
\<close>

theorem unresolved_targets_never_pass:
  assumes store: "store_ok m" "\<not> closed m"
    and q: "q = trim_space raw" "q \<noteq> []"
    and unresolved: "length (filter (\<lambda>n. n_qname n = q) (map_values (nodes m))) > 1 \<or>
      (\<forall>n \<in> set (map_values (nodes m)). n_qname n \<noteq> q \<and> n_path n \<noteq> normalize_path q) \<and> \<not> confirm_package q pkg"
    and p: "p \<in> set policies"
  shows "\<exists>sc fs a. resolve_scope quote (Some (mem_qualified_name None m, mem_source_path None m)) raw pkg = Inr (sc, fs) \<and>
    sr_id sc = [] \<and> evaluate_with_scope_facts p snap st sc facts fs = Some a \<and>
    (if p = policy_automated_change then as_verdict a = Fail
     else verdict_rank (as_verdict a) \<ge> verdict_rank Unverified)"
proof -
  have "length (ms.named m q) > 1 \<or>
      ms.named m q = [] \<and> (\<forall>n \<in> set (map_values (nodes m)). n_path n \<noteq> normalize_path q) \<and> \<not> confirm_package q pkg"
    using unresolved by (auto simp: ms.named_def filter_empty_conv)
  then obtain sc fs where
    r: "resolve_scope quote (Some (mem_qualified_name None m, mem_source_path None m)) raw pkg = Inr (sc, fs)"
      "sr_id sc = []" "fs \<noteq> []"
    using ms.unresolved_reported [of m raw pkg quote] store q by blast
  then show ?thesis using reported_never_pass [OF r(1,3) p] by blast
qed

subsection \<open>Witnesses\<close>

lemma filter_single: "distinct xs \<Longrightarrow> {x \<in> set xs. P x} = {a} \<Longrightarrow> filter P xs = [a]"
  by (metis distinct.simps(2) distinct_filter empty_iff insert_iff list.exhaust list.set(1) list.set_intros(1)
      list.set_intros(2) set_filter)

lemma fn_node_ids: "n_id (fn_node ''f'') \<noteq> []" "n_id (fn_node ''g'') \<noteq> []"
  by code_simp+

lemma fn_qname: "n_qname (fn_node q) = q"
  by (simp add: fn_node_def)

theorem resolution_decides_by_catalog_witness:
  "\<exists>sc fs. resolve_scope (\<lambda>s. s) (Some (mem_qualified_name None (small_store (Finite 1)),
        mem_source_path None (small_store (Finite 1)))) '' f '' [] = Inr (sc, fs) \<and>
     sr_kind sc = scope_symbol \<and> sr_id sc = n_id (fn_node ''f'') \<and> fs = []"
proof -
  have trim: "trim_space '' f '' = ''f''" by code_simp
  have ids: "\<forall>n \<in> set (map_values (nodes (small_store (Finite 1)))). n_id n \<noteq> []"
    using fn_node_ids by (simp add: small_values(2))
  have hits: "filter (\<lambda>n. n_qname n = ''f'') (map_values (nodes (small_store (Finite 1)))) = [fn_node ''f'']"
  proof (rule filter_single)
    show "distinct (map_values (nodes (small_store (Finite 1))))"
      using ssorted_distinct [OF ssorted_values [OF store_ok_keyed(1) [OF small_store_ok]]] by (simp add: distinct_map)
    show "{n \<in> set (map_values (nodes (small_store (Finite 1)))). n_qname n = ''f''} = {fn_node ''f''}"
      unfolding small_values(2) by (auto simp: fn_qname)
  qed
  obtain sc fs where r: "resolve_scope (\<lambda>s. s) (Some (mem_qualified_name None (small_store (Finite 1)),
        mem_source_path None (small_store (Finite 1)))) '' f '' [] = Inr (sc, fs)"
      "sc = mk_scope scope_symbol (n_id (fn_node ''f'')) (n_path (fn_node ''f'')) [] ''f'' \<and> fs = []"
    using resolution_decides_by_catalog [OF small_store_ok small_store_maps(3) ids, of "\<lambda>s. s" "'' f ''" "[]",
        unfolded trim Let_def hits list.sel list.size list.distinct simp_thms if_True if_False add_0 One_nat_def]
    by (elim exE conjE) (simp (no_asm_use) only: list.distinct if_False, blast)
  show ?thesis unfolding r(1) using r(2) by (simp add: mk_scope_def)
qed

text \<open>Two functions of one name in different files.\<close>

definition twin_node :: node where
  "twin_node = (fn_node ''f'')\<lparr>n_id := derive_id sum_hash node_id_domain_tag [''function'', ''f'', ''b.go''], n_path := ''b.go''\<rparr>"

definition twin_store :: mem_store where
  "twin_store = fst (mem_put_node None (fst (mem_put_node None new_mem_store (fn_node ''f''))) twin_node)"

lemma twin_ids: "n_id (fn_node ''f'') \<noteq> n_id twin_node"
  by code_simp

lemma twin_store_ok: "store_ok twin_store"
proof -
  have a: "addressed {fn_node ''f'', twin_node} {}" using twin_ids by (auto simp: addressed_def)
  have "mem_reach {fn_node ''f'', twin_node} {} twin_store"
    unfolding twin_store_def
    by (rule mem_reach.step [OF _ mem_step.put_node],
        rule mem_reach.step [OF mem_reach.start mem_step.put_node]) simp_all
  then show ?thesis using reach_drawn a by blast
qed

lemma twin_store_fields:
  "nodes twin_store = fmupd (n_id twin_node) twin_node (fmupd (n_id (fn_node ''f'')) (fn_node ''f'') fmempty)"
  "\<not> closed twin_store"
  by (simp_all add: twin_store_def put_node_eq) (simp_all add: new_mem_store_def)

theorem unresolved_targets_never_pass_witness:
  "\<exists>sc fs a. resolve_scope (\<lambda>s. s) (Some (mem_qualified_name None twin_store, mem_source_path None twin_store)) '' f ''
       [] = Inr (sc, fs) \<and> sr_id sc = [] \<and>
     evaluate_with_scope_facts policy_automated_change zero_snapshot state_current sc no_scope_facts fs = Some a \<and>
     as_verdict a = Fail"
proof -
  let ?hits = "filter (\<lambda>n. n_qname n = ''f'') (map_values (nodes twin_store))"
  have "fn_node ''f'' \<noteq> twin_node" using twin_ids by metis
  moreover have "set (map_values (nodes twin_store)) = {fn_node ''f'', twin_node}"
    using twin_ids by (auto simp: set_map_values twin_store_fields fmran'_def ran_def split: if_splits)
  then have "{fn_node ''f'', twin_node} \<subseteq> set ?hits" by (simp add: fn_qname twin_node_def)
  ultimately have several: "length ?hits > 1"
    using card_mono [of "set ?hits" "{fn_node ''f'', twin_node}"] card_length [of ?hits] by simp
  have q: "''f'' = trim_space '' f ''" by code_simp
  have ne: "''f'' \<noteq> []" by simp
  show ?thesis
    using unresolved_targets_never_pass [where quote = "\<lambda>s. s" and snap = zero_snapshot and st = state_current
        and facts = no_scope_facts and pkg = "[]", OF twin_store_ok twin_store_fields(2) q ne disjI1 [OF several] builtin(3)]
    by simp
qed

end
