(* ===== verification/Evidence.thy ===== *)
theory Evidence
  imports TrustScope
begin

text \<open>
  The detail evidence of an ingest pass (\<open>engine/ingest\<close>: \<open>trust_evidence.go\<close>,
  \<open>trust_fold.go\<close>, the signal fields of \<open>ingester.go\<close>): the pass-scoped signals, their fold
  into rows, the sidecar tables as maps from their primary keys, the two writers and the
  generation-checked readers.  A transaction commits whole or not at all: \<open>fault\<close> is the
  error that rolls it back.
\<close>

subsection \<open>The signals of a pass\<close>

record skip_diagnostic =
  sd_path :: string
  sd_reason :: string
  sd_size :: int

record file_evidence =
  fe_generation :: string
  fe_path :: string
  fe_language :: string
  fe_parse_status :: string
  fe_parse_reason :: string
  fe_resolved_derived :: int
  fe_resolved_heuristic :: int
  fe_resolved_external :: int
  fe_skipped :: int
  fe_ambiguous :: int

record package_evidence =
  pe_generation :: string
  pe_language :: string
  pe_key :: string
  pe_state :: string
  pe_degraded_reason :: string
  pe_type_errors :: int
  pe_dropped_intents :: int
  pe_confirmed_edges :: int
  pe_skipped_files :: int
  pe_languages :: "string list"
  pe_named_skips :: "(string, int) fmap"
  pe_skips_available :: bool

definition zero_package :: package_evidence where
  "zero_package =
     \<lparr>pe_generation = [], pe_language = [], pe_key = [], pe_state = [], pe_degraded_reason = [],
      pe_type_errors = 0, pe_dropped_intents = 0, pe_confirmed_edges = 0, pe_skipped_files = 0,
      pe_languages = [], pe_named_skips = fmempty, pe_skips_available = False\<rparr>"

record semantic_run =
  sm_facts :: type_resolution_facts
  sm_evidence :: "package_evidence list"
  sm_skips :: "(string, int) fmap"

record ingester =
  ig_link_stats :: link_stats
  ig_runs :: "(string, semantic_run) fmap"
  ig_read_failure :: bool
  ig_file_link :: "(string, link_stats) fmap"
  ig_skipped :: "skip_diagnostic list"
  ig_profile :: string

definition zero_link_stats :: link_stats where
  "zero_link_stats = \<lparr>ls_derived = 0, ls_heuristic = 0, ls_skipped = 0, ls_ambiguous = 0, ls_external = 0\<rparr>"

definition skipped_diagnostics :: "ingester \<Rightarrow> skip_diagnostic list" where
  "skipped_diagnostics i = sort_key (\<lambda>d. (sd_path d, sd_reason d)) (ig_skipped i)"

definition record_skip :: "ingester \<Rightarrow> skip_diagnostic \<Rightarrow> ingester" where
  "record_skip i d = i\<lparr>ig_skipped := ig_skipped i @ [d]\<rparr>"

definition reset_skips :: "ingester \<Rightarrow> ingester" where
  "reset_skips i = i\<lparr>ig_skipped := []\<rparr>"

definition reset_trust_signals :: "ingester \<Rightarrow> ingester" where
  "reset_trust_signals i =
     i\<lparr>ig_link_stats := zero_link_stats, ig_file_link := fmempty, ig_runs := fmempty, ig_read_failure := False\<rparr>"

definition record_semantic_run :: "ingester \<Rightarrow> string \<Rightarrow> semantic_run \<Rightarrow> ingester" where
  "record_semantic_run i lang run = i\<lparr>ig_runs := fmupd lang run (ig_runs i)\<rparr>"

definition semantic_languages :: "ingester \<Rightarrow> string list" where
  "semantic_languages i = sorted_list_of_fset (fmdom (ig_runs i))"

definition run_of :: "ingester \<Rightarrow> string \<Rightarrow> semantic_run" where
  "run_of i l = the (fmlookup (ig_runs i) l)"

definition add_type_facts :: "type_resolution_facts \<Rightarrow> type_resolution_facts \<Rightarrow> type_resolution_facts" where
  "add_type_facts out f =
     \<lparr>tr_units_total = tr_units_total out + tr_units_total f,
      tr_units_degraded = tr_units_degraded out + tr_units_degraded f,
      tr_type_errors = tr_type_errors out + tr_type_errors f,
      tr_skipped_files = tr_skipped_files out + tr_skipped_files f,
      tr_dropped_intents = tr_dropped_intents out + tr_dropped_intents f,
      tr_confirmed_edges = tr_confirmed_edges out + tr_confirmed_edges f,
      tr_degraded_units = tr_degraded_units out @ tr_degraded_units f\<rparr>"

definition zero_type_facts :: type_resolution_facts where
  "zero_type_facts =
     \<lparr>tr_units_total = 0, tr_units_degraded = 0, tr_type_errors = 0, tr_skipped_files = 0,
      tr_dropped_intents = 0, tr_confirmed_edges = 0, tr_degraded_units = []\<rparr>"

definition combined_type_resolution_facts :: "ingester \<Rightarrow> type_resolution_facts" where
  "combined_type_resolution_facts i =
     (case semantic_languages i of
        [] \<Rightarrow> zero_type_facts
      | [l] \<Rightarrow> sm_facts (run_of i l)
      | langs \<Rightarrow>
          let out = foldl (\<lambda>out l. add_type_facts out (sm_facts (run_of i l))) zero_type_facts langs;
              us = sort_key (\<lambda>u. (du_dir u, du_name u)) (tr_degraded_units out)
          in out\<lparr>tr_degraded_units := (if length us > max_degraded_units then take max_degraded_units us else us)\<rparr>)"

definition combined_package_evidence :: "ingester \<Rightarrow> package_evidence list" where
  "combined_package_evidence i =
     (let langs = semantic_languages i
      in if length langs = 1 then sm_evidence (run_of i (langs ! 0))
         else concat (map (\<lambda>l. sm_evidence (run_of i l)) langs))"

definition combined_language_skips :: "ingester \<Rightarrow> (string, (string, int) fmap) fmap" where
  "combined_language_skips i =
     foldl (\<lambda>out l. let s = sm_skips (run_of i l) in if fmdom s = {||} then out else fmupd l s out)
       fmempty (semantic_languages i)"

definition semantic_evidence_ready :: "ingester \<Rightarrow> bool" where
  "semantic_evidence_ready i \<longleftrightarrow> fcard (fmdom (ig_runs i)) > 0 \<and> \<not> ig_read_failure i"

subsection \<open>From results to rows\<close>

text \<open>\<open>path.Dir\<close>: the part up to the last slash, cleaned.\<close>

definition path_dir :: "string \<Rightarrow> string" where
  "path_dir p = path_clean (rev (dropWhile (\<lambda>c. c \<noteq> CHR ''/'') (rev p)))"

definition fold_package_unit ::
  "string \<Rightarrow> (string, package_evidence) fmap \<Rightarrow> unit_result \<Rightarrow> (string, package_evidence) fmap" where
  "fold_package_unit lang by_key u =
     (let r = (case fmlookup by_key (ur_dir u) of
                 None \<Rightarrow> zero_package\<lparr>pe_language := lang, pe_key := ur_dir u\<rparr>
               | Some r \<Rightarrow> r);
          r' = r\<lparr>pe_type_errors := pe_type_errors r + ur_type_errors u,
                 pe_dropped_intents := pe_dropped_intents r + ur_dropped_intents u\<rparr>
      in fmupd (ur_dir u)
           (if ur_degraded u \<noteq> [] \<and> pe_degraded_reason r' = [] then r'\<lparr>pe_degraded_reason := ur_degraded u\<rparr> else r')
           by_key)"

definition fold_package_edge ::
  "(node_id \<Rightarrow> string) \<Rightarrow> (string, package_evidence) fmap \<Rightarrow> edge \<Rightarrow> (string, package_evidence) fmap" where
  "fold_package_edge dir_of by_key e =
     (case fmlookup by_key (dir_of (e_from e)) of
        None \<Rightarrow> by_key
      | Some r \<Rightarrow> fmupd (dir_of (e_from e)) (r\<lparr>pe_confirmed_edges := pe_confirmed_edges r + 1\<rparr>) by_key)"

definition fold_package_skip ::
  "(string, package_evidence) fmap \<Rightarrow> string \<Rightarrow> (string, package_evidence) fmap" where
  "fold_package_skip by_key path =
     (case fmlookup by_key (path_dir path) of
        None \<Rightarrow> by_key
      | Some r \<Rightarrow> fmupd (path_dir path) (r\<lparr>pe_skipped_files := pe_skipped_files r + 1\<rparr>) by_key)"

definition derive_package_state :: "package_evidence \<Rightarrow> package_evidence" where
  "derive_package_state r =
     r\<lparr>pe_state :=
         if pe_degraded_reason r \<noteq> [] then package_degraded
         else if pe_type_errors r > 0 then package_checked_with_errors
         else package_checked\<rparr>"

definition package_evidence_from_result ::
  "string \<Rightarrow> resolve_result \<Rightarrow> (node_id \<Rightarrow> string) \<Rightarrow> package_evidence list" where
  "package_evidence_from_result lang res dir_of =
     (let by_units = foldl (fold_package_unit lang) fmempty (rr_units res);
          by_edges = foldl (fold_package_edge dir_of) by_units (rr_edges res);
          by_key = foldl fold_package_skip by_edges (rr_skipped_files res)
      in sort_key pe_key (map derive_package_state (map_values by_key)))"

definition parsed_row :: "string \<Rightarrow> string \<Rightarrow> file_evidence" where
  "parsed_row path lang =
     \<lparr>fe_generation = [], fe_path = path, fe_language = lang, fe_parse_status = parse_status_parsed,
      fe_parse_reason = [], fe_resolved_derived = 0, fe_resolved_heuristic = 0,
      fe_resolved_external = 0, fe_skipped = 0, fe_ambiguous = 0\<rparr>"

definition skipped_row :: "skip_diagnostic \<Rightarrow> file_evidence" where
  "skipped_row d =
     (parsed_row (sd_path d) [])\<lparr>fe_parse_status := parse_status_skipped, fe_parse_reason := sd_reason d\<rparr>"

definition with_link_stats :: "ingester \<Rightarrow> string \<Rightarrow> file_evidence \<Rightarrow> file_evidence" where
  "with_link_stats i p fe =
     (let st = (case fmlookup (ig_file_link i) (normalize_path p) of None \<Rightarrow> zero_link_stats | Some st \<Rightarrow> st)
      in fe\<lparr>fe_resolved_derived := ls_derived st, fe_resolved_heuristic := ls_heuristic st,
            fe_resolved_external := ls_external st, fe_skipped := ls_skipped st, fe_ambiguous := ls_ambiguous st\<rparr>)"

definition file_evidence_rows :: "ingester \<Rightarrow> (string, string) fmap \<Rightarrow> file_evidence list" where
  "file_evidence_rows i parsed_langs =
     (let parsed = fmap_of_list (map (\<lambda>p. (p, parsed_row p (the (fmlookup parsed_langs p))))
            (sorted_list_of_fset (fmdom parsed_langs)));
          by_path = foldl (\<lambda>m d. fmupd (sd_path d) (skipped_row d) m) parsed (skipped_diagnostics i)
      in sort_key fe_path (map (\<lambda>p. with_link_stats i p (the (fmlookup by_path p)))
           (sorted_list_of_fset (fmdom by_path))))"

text \<open>What \<open>fullPassParsedLanguages\<close> reads of a parsed file: skipped, and the result's language.\<close>

record parsed_file =
  pl_skipped :: bool
  pl_result :: "string option"

definition full_pass_parsed_languages :: "string list \<Rightarrow> parsed_file option list \<Rightarrow> (string, string) fmap" where
  "full_pass_parsed_languages units parsed =
     foldl (\<lambda>langs (rel, pf). case pf of
              None \<Rightarrow> langs
            | Some f \<Rightarrow>
                if pl_skipped f then langs
                else (case pl_result f of None \<Rightarrow> langs | Some lang \<Rightarrow> fmupd rel lang langs))
       fmempty (zip units parsed)"

subsection \<open>The sidecar tables and their writers\<close>

record sidecar =
  sd_version :: int
  sd_files :: "(string \<times> string, file_evidence) fmap"
  sd_packages :: "(string \<times> string \<times> string, package_evidence) fmap"
  sd_skips :: "(string \<times> string \<times> string, int) fmap"
  sd_provenance :: "(string \<times> string) fset"

definition insert_file_evidence :: "string \<Rightarrow> file_evidence list \<Rightarrow> sidecar \<Rightarrow> sidecar" where
  "insert_file_evidence g rows s =
     foldl (\<lambda>s r. s\<lparr>sd_files := fmupd (g, fe_path r) r (sd_files s)\<rparr>) s rows"

definition insert_package_evidence :: "string \<Rightarrow> package_evidence list \<Rightarrow> sidecar \<Rightarrow> sidecar" where
  "insert_package_evidence g rows s =
     foldl (\<lambda>s r. if pe_language r = [] then s
                  else s\<lparr>sd_packages := fmupd (g, pe_language r, pe_key r) r (sd_packages s)\<rparr>) s rows"

definition insert_language_skips :: "string \<Rightarrow> (string, (string, int) fmap) fmap \<Rightarrow> sidecar \<Rightarrow> sidecar" where
  "insert_language_skips g skips s =
     foldl (\<lambda>s lang.
         let counts = the (fmlookup skips lang)
         in foldl (\<lambda>s name.
              let n = the (fmlookup counts name)
              in if n \<le> 0 then s else s\<lparr>sd_skips := fmupd (g, lang, name) n (sd_skips s)\<rparr>)
            s (sorted_list_of_fset (fmdom counts)))
       s (sorted_list_of_fset (fmdom skips))"

definition insert_skip_provenance :: "string \<Rightarrow> string list \<Rightarrow> sidecar \<Rightarrow> sidecar" where
  "insert_skip_provenance g langs s =
     foldl (\<lambda>s lang. if lang = [] then s else s\<lparr>sd_provenance := finsert (g, lang) (sd_provenance s)\<rparr>)
       (s\<lparr>sd_provenance := finsert (g, []) (sd_provenance s)\<rparr>) langs"

definition meta_tx :: "store_error option \<Rightarrow> (sidecar \<Rightarrow> sidecar) \<Rightarrow> sidecar \<Rightarrow> sidecar \<times> store_error option" where
  "meta_tx fault body s = (case fault of Some err \<Rightarrow> (s, Some err) | None \<Rightarrow> (body s, None))"

definition replace_semantic_rows :: "ingester \<Rightarrow> string \<Rightarrow> sidecar \<Rightarrow> sidecar" where
  "replace_semantic_rows i g s =
     insert_skip_provenance g (semantic_languages i)
       (insert_language_skips g (combined_language_skips i)
         (insert_package_evidence g (combined_package_evidence i) s))"

definition persist_trust_evidence_full ::
  "store_error option \<Rightarrow> ingester \<Rightarrow> string \<Rightarrow> string list \<Rightarrow> parsed_file option list \<Rightarrow> sidecar
     \<Rightarrow> sidecar \<times> store_error option" where
  "persist_trust_evidence_full fault i g units parsed s =
     (let rows = file_evidence_rows i (full_pass_parsed_languages units parsed)
      in meta_tx fault
           (\<lambda>s. replace_semantic_rows i g
              (insert_file_evidence g rows
                (s\<lparr>sd_files := fmempty, sd_packages := fmempty, sd_skips := fmempty, sd_provenance := {||}\<rparr>))) s)"

definition graph_full_pass_generation_key :: string where
  "graph_full_pass_generation_key = ''index.full_ingest_generation''"

definition persist_trust_evidence_live ::
  "store_error option \<Rightarrow> (string \<Rightarrow> store_error + string) \<Rightarrow> ingester \<Rightarrow> string list \<Rightarrow> (string, string) fmap
     \<Rightarrow> string list \<Rightarrow> sidecar \<Rightarrow> sidecar \<times> store_error option" where
  "persist_trust_evidence_live fault metadata_of i touched parsed_langs removed s =
     (case metadata_of graph_full_pass_generation_key of
        Inl err \<Rightarrow> (if err = ErrNotFound then (s, None) else (s, Some err))
      | Inr g \<Rightarrow>
          if g = [] then (s, None)
          else
            let rows = file_evidence_rows i parsed_langs; cleared = sort (touched @ removed)
            in meta_tx fault
                 (\<lambda>s. let s1 = foldl (\<lambda>s p. s\<lparr>sd_files := fmfilter (\<lambda>(h, q). q \<noteq> p) (sd_files s)\<rparr>) s cleared;
                          s2 = insert_file_evidence g rows s1
                      in if \<not> semantic_evidence_ready i then s2
                         else replace_semantic_rows i g
                           (s2\<lparr>sd_packages := fmempty, sd_skips := fmempty, sd_provenance := {||}\<rparr>)) s)"

subsection \<open>The readers\<close>

definition trust_evidence_schema_version :: int where "trust_evidence_schema_version = 3"
definition package_evidence_schema_version :: int where "package_evidence_schema_version = 4"
definition language_skips_schema_version :: int where "language_skips_schema_version = 5"
definition skip_provenance_schema_version :: int where "skip_provenance_schema_version = 6"

datatype evidence_error =
    ErrEvidenceUnavailable int
  | ErrSkipProvenanceMissing string
  | ErrEvidenceNotFound
  | ErrListLimit int

text \<open>\<open>errors.Is(err, ErrTrustEvidenceUnavailable)\<close>: the provenance error wraps it.\<close>

fun is_unavailable :: "evidence_error \<Rightarrow> bool" where
  "is_unavailable (ErrEvidenceUnavailable v) = True"
| "is_unavailable (ErrSkipProvenanceMissing g) = True"
| "is_unavailable e = False"

definition evidence_ready_at :: "sidecar \<Rightarrow> int \<Rightarrow> evidence_error option" where
  "evidence_ready_at s v = (if sd_version s < v then Some (ErrEvidenceUnavailable (sd_version s)) else None)"

definition read_file_evidence :: "sidecar \<Rightarrow> string \<Rightarrow> string \<Rightarrow> evidence_error + file_evidence" where
  "read_file_evidence s g path =
     (case evidence_ready_at s trust_evidence_schema_version of
        Some e \<Rightarrow> Inl e
      | None \<Rightarrow>
          if g = [] then Inl ErrEvidenceNotFound
          else (case fmlookup (sd_files s) (g, path) of
                  None \<Rightarrow> Inl ErrEvidenceNotFound
                | Some r \<Rightarrow> Inr (r\<lparr>fe_generation := g, fe_path := path\<rparr>)))"

definition skip_provenance :: "sidecar \<Rightarrow> string \<Rightarrow> evidence_error + string list" where
  "skip_provenance s g =
     (case evidence_ready_at s skip_provenance_schema_version of
        Some e \<Rightarrow> Inl e
      | None \<Rightarrow>
          if g = [] then Inl ErrEvidenceNotFound
          else
            let langs = sorted_list_of_fset (snd |`| ffilter (\<lambda>(h, l). h = g) (sd_provenance s))
            in if [] \<in> set langs then Inr (filter (\<lambda>l. l \<noteq> []) langs)
               else Inl (ErrSkipProvenanceMissing g))"

definition language_skips_for :: "sidecar \<Rightarrow> string \<Rightarrow> string list \<Rightarrow> evidence_error + (string, int) fmap" where
  "language_skips_for s g langs =
     (case evidence_ready_at s language_skips_schema_version of
        Some e \<Rightarrow> Inl e
      | None \<Rightarrow>
          (case skip_provenance s g of
             Inl e \<Rightarrow> Inl e
           | Inr registrants \<Rightarrow>
               Inr (foldl (\<lambda>out lang.
                   foldl (\<lambda>out name.
                       fmupd name ((case fmlookup out name of None \<Rightarrow> 0 | Some n \<Rightarrow> n) +
                                   the (fmlookup (sd_skips s) (g, lang, name))) out)
                     out (sorted_list_of_fset ((snd \<circ> snd) |`| ffilter (\<lambda>(h, l, nm). h = g \<and> l = lang) (fmdom (sd_skips s)))))
                 fmempty langs)))"

definition language_skips :: "sidecar \<Rightarrow> string \<Rightarrow> evidence_error + (string \<times> string, int) fmap" where
  "language_skips s g =
     (case evidence_ready_at s language_skips_schema_version of
        Some e \<Rightarrow> Inl e
      | None \<Rightarrow>
          if g = [] then Inl ErrEvidenceNotFound
          else (case skip_provenance s g of
             Inl e \<Rightarrow> Inl e
           | Inr registrants \<Rightarrow>
               Inr (fmap_of_list (map (\<lambda>(h, lang, name). ((lang, name), the (fmlookup (sd_skips s) (h, lang, name))))
                      (sorted_list_of_fset (ffilter (\<lambda>(h, l, nm). h = g) (fmdom (sd_skips s))))))))"

text \<open>One further row of the fold over a package's languages.\<close>

definition fold_language_row :: "package_evidence \<Rightarrow> package_evidence \<Rightarrow> package_evidence" where
  "fold_language_row pe r =
     pe\<lparr>pe_language := [],
        pe_type_errors := pe_type_errors pe + pe_type_errors r,
        pe_dropped_intents := pe_dropped_intents pe + pe_dropped_intents r,
        pe_confirmed_edges := pe_confirmed_edges pe + pe_confirmed_edges r,
        pe_skipped_files := pe_skipped_files pe + pe_skipped_files r,
        pe_state :=
          if pe_state r = package_degraded \<or>
             pe_state r = package_checked_with_errors \<and> pe_state pe = package_checked
          then pe_state r else pe_state pe\<rparr>"

text \<open>The rows the query scans: its columns, every other field zero.\<close>

definition package_rows :: "sidecar \<Rightarrow> string \<Rightarrow> string \<Rightarrow> package_evidence list" where
  "package_rows s g k =
     map (\<lambda>l. (the (fmlookup (sd_packages s) (g, l, k)))\<lparr>pe_generation := [], pe_language := l, pe_key := [],
            pe_languages := [], pe_named_skips := fmempty, pe_skips_available := False\<rparr>)
       (sorted_list_of_fset ((fst \<circ> snd) |`| ffilter (\<lambda>(h, l, q). h = g \<and> q = k) (fmdom (sd_packages s))))"

definition read_package_evidence :: "sidecar \<Rightarrow> string \<Rightarrow> string \<Rightarrow> evidence_error + package_evidence" where
  "read_package_evidence s g k =
     (case evidence_ready_at s package_evidence_schema_version of
        Some e \<Rightarrow> Inl e
      | None \<Rightarrow>
          if g = [] then Inl ErrEvidenceNotFound
          else (case package_rows s g k of
             [] \<Rightarrow> Inl ErrEvidenceNotFound
           | r # rs \<Rightarrow>
               let reasons = filter (\<lambda>x. x \<noteq> []) (map pe_degraded_reason (r # rs));
                   pe = foldl fold_language_row (r\<lparr>pe_generation := g, pe_key := k\<rparr>) rs;
                   pe1 = (if rs \<noteq> [] then pe\<lparr>pe_degraded_reason := join_with ''; '' reasons\<rparr> else pe);
                   langs = sort (map pe_language (r # rs));
                   pe2 = pe1\<lparr>pe_languages := langs\<rparr>
               in (case language_skips_for s g langs of
                     Inl e \<Rightarrow> if is_unavailable e then Inr pe2 else Inl e
                   | Inr skips \<Rightarrow> Inr (pe2\<lparr>pe_skips_available := True, pe_named_skips := skips\<rparr>))))"

definition package_registrants :: "sidecar \<Rightarrow> string \<Rightarrow> string list \<Rightarrow> evidence_error + (string, string list) fmap" where
  "package_registrants s g ks =
     (case evidence_ready_at s package_evidence_schema_version of
        Some e \<Rightarrow> Inl e
      | None \<Rightarrow>
          if g = [] then Inl ErrEvidenceNotFound
          else if length ks = 0 then Inr fmempty
          else Inr (fmap_of_list (map (\<lambda>k. (k, map pe_language (package_rows s g k)))
                 (filter (\<lambda>k. package_rows s g k \<noteq> []) ks))))"

definition list_file_evidence :: "sidecar \<Rightarrow> string \<Rightarrow> int \<Rightarrow> evidence_error + file_evidence list" where
  "list_file_evidence s g limit =
     (case evidence_ready_at s trust_evidence_schema_version of
        Some e \<Rightarrow> Inl e
      | None \<Rightarrow>
          if limit \<le> 0 then Inl (ErrListLimit limit)
          else if g = [] then Inl ErrEvidenceNotFound
          else
            let out = take (nat limit) (map (\<lambda>p. (the (fmlookup (sd_files s) (g, p)))\<lparr>fe_generation := g, fe_path := p\<rparr>)
                  (sorted_list_of_fset (snd |`| ffilter (\<lambda>(h, p). h = g) (fmdom (sd_files s)))))
            in if length out = 0 then Inl ErrEvidenceNotFound else Inr out)"

subsection \<open>Lookups after a loop of upserts\<close>

lemma fmlookup_upserts:
  assumes "inj_on f {x \<in> set xs. P x}"
  shows "fmlookup (foldl (\<lambda>m x. if P x then fmupd (f x) (v x) m else m) m xs) k =
    (if \<exists>x \<in> set xs. P x \<and> f x = k then Some (v (THE x. x \<in> set xs \<and> P x \<and> f x = k)) else fmlookup m k)"
  using assms
proof (induction xs rule: rev_induct)
  case (snoc x xs)
  have inj: "inj_on f {x \<in> set xs. P x}" by (rule inj_on_subset [OF snoc.prems]) auto
  show ?case
  proof (cases "P x \<and> f x = k")
    case True
    have "(THE y. y \<in> set (xs @ [x]) \<and> P y \<and> f y = k) = x"
      using True inj_onD [OF snoc.prems, of _ x] by (intro the_equality) auto
    then show ?thesis using True by auto
  next
    case False
    have "(THE y. y \<in> set (xs @ [x]) \<and> P y \<and> f y = k) = (THE y. y \<in> set xs \<and> P y \<and> f y = k)"
      using False by (intro arg_cong [where f = The] ext) auto
    then show ?thesis using False snoc.IH [OF inj] by auto
  qed
qed simp

lemma fmlookup_upserts_hit:
  assumes "inj_on f {x \<in> set xs. P x}" "x \<in> set xs" "P x" "f x = k"
  shows "fmlookup (foldl (\<lambda>m x. if P x then fmupd (f x) (v x) m else m) m xs) k = Some (v x)"
proof -
  have "(THE y. y \<in> set xs \<and> P y \<and> f y = k) = x"
  proof (rule the_equality)
    fix y assume "y \<in> set xs \<and> P y \<and> f y = k"
    then show "y = x" using assms(2-4) inj_onD [OF assms(1), of y x] by simp
  qed (use assms(2-4) in blast)
  moreover have "\<exists>x \<in> set xs. P x \<and> f x = k" using assms(2-4) by blast
  ultimately show ?thesis unfolding fmlookup_upserts [OF assms(1)] by simp
qed

lemma fmlookup_upserts_miss:
  assumes "inj_on f {x \<in> set xs. P x}" "\<not> (\<exists>x \<in> set xs. P x \<and> f x = k)"
  shows "fmlookup (foldl (\<lambda>m x. if P x then fmupd (f x) (v x) m else m) m xs) k = fmlookup m k"
  unfolding fmlookup_upserts [OF assms(1)] using assms(2) by (rule if_not_P)

lemma foldl_keeps: "(\<And>s x. fld (step s x) = fld s) \<Longrightarrow> fld (foldl step s xs) = fld s"
  by (induction xs arbitrary: s) simp_all

lemma foldl_field:
  assumes "\<And>s x. fld (step s x) = g (fld s) x"
  shows "fld (foldl step s xs) = foldl g (fld s) xs"
  using assms by (induction xs arbitrary: s) simp_all

subsection \<open>File rows\<close>

definition last_skip :: "ingester \<Rightarrow> string \<Rightarrow> skip_diagnostic option" where
  "last_skip i p = List.find (\<lambda>d. sd_path d = p) (rev (skipped_diagnostics i))"

lemma foldl_skips:
  "fmlookup (foldl (\<lambda>m d. fmupd (sd_path d) (skipped_row d) m) m ds) p =
     (case List.find (\<lambda>d. sd_path d = p) (rev ds) of Some d \<Rightarrow> Some (skipped_row d) | None \<Rightarrow> fmlookup m p)"
  by (induction ds rule: rev_induct) simp_all

lemma find_None: "List.find P xs = None \<longleftrightarrow> (\<forall>x \<in> set xs. \<not> P x)"
  by (induction xs) auto

lemma find_SomeD: "List.find P xs = Some x \<Longrightarrow> x \<in> set xs \<and> P x"
  by (induction xs) (auto split: if_splits)

lemma last_skip_None: "last_skip i p = None \<longleftrightarrow> p \<notin> sd_path ` set (ig_skipped i)"
  by (auto simp: last_skip_def find_None skipped_diagnostics_def)

lemma last_skip_Some: "last_skip i p = Some d \<Longrightarrow> d \<in> set (ig_skipped i) \<and> sd_path d = p"
  unfolding last_skip_def by (drule find_SomeD) (simp add: skipped_diagnostics_def)

definition row_of :: "ingester \<Rightarrow> (string, string) fmap \<Rightarrow> string \<Rightarrow> file_evidence option" where
  "row_of i langs p =
     map_option (with_link_stats i p)
       (case last_skip i p of
          Some d \<Rightarrow> Some (skipped_row d)
        | None \<Rightarrow> map_option (parsed_row p) (fmlookup langs p))"

lemma parsed_lookup:
  "fmlookup (fmap_of_list (map (\<lambda>p. (p, parsed_row p (the (fmlookup langs p)))) (sorted_list_of_fset (fmdom langs)))) p =
     map_option (parsed_row p) (fmlookup langs p)"
proof (cases "fmlookup langs p")
  case None
  then have "p \<notin> set (sorted_list_of_fset (fmdom langs))" by (simp add: fmlookup_dom_iff)
  then show ?thesis using None by (simp add: fmlookup_of_list map_of_eq_None_iff image_image)
next
  case (Some l)
  then have "p \<in> set (sorted_list_of_fset (fmdom langs))" by (simp add: fmlookup_dom_iff)
  then show ?thesis using Some by (simp add: fmlookup_of_list map_of_map_keys map_of_map_restrict)
qed

lemma row_path: "row_of i langs p = Some r \<Longrightarrow> fe_path r = p"
  using last_skip_Some [of i p]
  by (auto simp: row_of_def with_link_stats_def skipped_row_def parsed_row_def Let_def split: option.splits)

definition rows_map :: "ingester \<Rightarrow> (string, string) fmap \<Rightarrow> (string, file_evidence) fmap" where
  "rows_map i langs =
     foldl (\<lambda>m d. fmupd (sd_path d) (skipped_row d) m)
       (fmap_of_list (map (\<lambda>p. (p, parsed_row p (the (fmlookup langs p)))) (sorted_list_of_fset (fmdom langs))))
       (skipped_diagnostics i)"

lemma rows_map_lookup: "map_option (with_link_stats i p) (fmlookup (rows_map i langs) p) = row_of i langs p"
  by (simp add: rows_map_def foldl_skips parsed_lookup row_of_def last_skip_def split: option.split)

lemma file_evidence_rows_eq:
  "file_evidence_rows i langs =
     sort_key fe_path (map (\<lambda>p. the (row_of i langs p)) (sorted_list_of_fset (fmdom (rows_map i langs))))"
proof -
  have "with_link_stats i p (the (fmlookup (rows_map i langs) p)) = the (row_of i langs p)"
    if "p |\<in>| fmdom (rows_map i langs)" for p
    using that rows_map_lookup [of i p langs, symmetric] by (auto simp: fmlookup_dom_iff)
  then have "map (\<lambda>p. with_link_stats i p (the (fmlookup (rows_map i langs) p))) (sorted_list_of_fset (fmdom (rows_map i langs))) =
      map (\<lambda>p. the (row_of i langs p)) (sorted_list_of_fset (fmdom (rows_map i langs)))"
    by (intro map_cong) simp_all
  then show ?thesis unfolding file_evidence_rows_def Let_def rows_map_def [symmetric] by (simp only:)
qed

lemma rows_map_dom: "p |\<in>| fmdom (rows_map i langs) \<longleftrightarrow> row_of i langs p \<noteq> None"
  using rows_map_lookup [of i p langs, symmetric] by (cases "fmlookup (rows_map i langs) p") (auto simp: fmlookup_dom_iff)

lemma rows_dom_set: "fset (fmdom (rows_map i langs)) = {p. row_of i langs p \<noteq> None}"
  using rows_map_dom by auto

lemma set_file_evidence_rows: "set (file_evidence_rows i langs) = {r. \<exists>p. row_of i langs p = Some r}"
proof -
  have "set (file_evidence_rows i langs) = (\<lambda>p. the (row_of i langs p)) ` {p. row_of i langs p \<noteq> None}"
    unfolding file_evidence_rows_eq by (simp add: rows_dom_set)
  then show ?thesis by force
qed

lemma file_rows_inj: "inj_on (\<lambda>r. (g, fe_path r)) {r \<in> set (file_evidence_rows i langs). True}"
proof (rule inj_onI)
  fix x y
  assume "x \<in> {r \<in> set (file_evidence_rows i langs). True}" "y \<in> {r \<in> set (file_evidence_rows i langs). True}"
    and e: "(g, fe_path x) = (g, fe_path y)"
  then obtain p q where "row_of i langs p = Some x" "row_of i langs q = Some y"
    unfolding set_file_evidence_rows by blast
  moreover from this have "p = q" using row_path e by simp
  ultimately show "x = y" by simp
qed

lemma insert_file_fields [simp]:
  "sd_version (insert_file_evidence g rows s) = sd_version s"
  "sd_packages (insert_file_evidence g rows s) = sd_packages s"
  "sd_skips (insert_file_evidence g rows s) = sd_skips s"
  "sd_provenance (insert_file_evidence g rows s) = sd_provenance s"
  unfolding insert_file_evidence_def by (rule foldl_keeps, simp)+

lemma insert_file_files:
  "sd_files (insert_file_evidence g rows s) = foldl (\<lambda>m r. fmupd (g, fe_path r) r m) (sd_files s) rows"
  unfolding insert_file_evidence_def by (rule foldl_field) simp

lemma insert_file_lookup:
  "fmlookup (sd_files (insert_file_evidence g (file_evidence_rows i langs) s)) (h, p) =
     (case row_of i langs p of
        Some r \<Rightarrow> if h = g then Some r else fmlookup (sd_files s) (h, p)
      | None \<Rightarrow> fmlookup (sd_files s) (h, p))"
proof (cases "h = g \<and> row_of i langs p \<noteq> None")
  case True
  then obtain r where r: "row_of i langs p = Some r" by blast
  have "fmlookup (foldl (\<lambda>m r. if True then fmupd (g, fe_path r) r m else m) (sd_files s) (file_evidence_rows i langs)) (h, p) = Some r"
    by (rule fmlookup_upserts_hit [OF file_rows_inj])
      (use r True row_path [OF r] in \<open>auto simp: set_file_evidence_rows\<close>)
  then show ?thesis using r True by (simp add: insert_file_files)
next
  case False
  have "fmlookup (foldl (\<lambda>m r. if True then fmupd (g, fe_path r) r m else m) (sd_files s) (file_evidence_rows i langs)) (h, p) =
      fmlookup (sd_files s) (h, p)"
    by (rule fmlookup_upserts_miss [OF file_rows_inj])
      (use False row_path in \<open>auto simp: set_file_evidence_rows\<close>)
  then show ?thesis using False by (auto simp: insert_file_files split: option.split)
qed

lemma insert_package_fields [simp]:
  "sd_version (insert_package_evidence g rs s) = sd_version s"
  "sd_files (insert_package_evidence g rs s) = sd_files s"
  "sd_skips (insert_package_evidence g rs s) = sd_skips s"
  "sd_provenance (insert_package_evidence g rs s) = sd_provenance s"
  unfolding insert_package_evidence_def by (rule foldl_keeps, simp)+

definition insert_counts :: "string \<Rightarrow> string \<Rightarrow> (string, int) fmap \<Rightarrow> sidecar \<Rightarrow> sidecar" where
  "insert_counts g lang counts s =
     foldl (\<lambda>s name.
        let n = the (fmlookup counts name)
        in if n \<le> 0 then s else s\<lparr>sd_skips := fmupd (g, lang, name) n (sd_skips s)\<rparr>)
       s (sorted_list_of_fset (fmdom counts))"

lemma insert_language_skips_eq:
  "insert_language_skips g skips s =
     foldl (\<lambda>s lang. insert_counts g lang (the (fmlookup skips lang)) s) s (sorted_list_of_fset (fmdom skips))"
  by (simp add: insert_language_skips_def insert_counts_def Let_def)

lemma insert_counts_fields [simp]:
  "sd_version (insert_counts g l c s) = sd_version s" "sd_files (insert_counts g l c s) = sd_files s"
  "sd_packages (insert_counts g l c s) = sd_packages s" "sd_provenance (insert_counts g l c s) = sd_provenance s"
  unfolding insert_counts_def by (rule foldl_keeps, simp add: Let_def)+

lemma insert_skips_fields [simp]:
  "sd_version (insert_language_skips g k s) = sd_version s" "sd_files (insert_language_skips g k s) = sd_files s"
  "sd_packages (insert_language_skips g k s) = sd_packages s" "sd_provenance (insert_language_skips g k s) = sd_provenance s"
  unfolding insert_language_skips_eq by (rule foldl_keeps, simp)+

lemma insert_provenance_fields [simp]:
  "sd_version (insert_skip_provenance g ls s) = sd_version s" "sd_files (insert_skip_provenance g ls s) = sd_files s"
  "sd_packages (insert_skip_provenance g ls s) = sd_packages s" "sd_skips (insert_skip_provenance g ls s) = sd_skips s"
  unfolding insert_skip_provenance_def by (rule foldl_keeps [THEN trans], simp, simp)+

lemma insert_provenance_set:
  "fset (sd_provenance (insert_skip_provenance g ls s)) =
     fset (sd_provenance s) \<union> {(g, [])} \<union> {(g, l) |l. l \<in> set ls \<and> l \<noteq> []}"
proof -
  have "fset (sd_provenance (foldl (\<lambda>s lang. if lang = [] then s
      else s\<lparr>sd_provenance := finsert (g, lang) (sd_provenance s)\<rparr>) s ls)) =
    fset (sd_provenance s) \<union> {(g, l) |l. l \<in> set ls \<and> l \<noteq> []}" for s
    by (induction ls arbitrary: s) auto
  from this [of "s\<lparr>sd_provenance := finsert (g, []) (sd_provenance s)\<rparr>"]
  show ?thesis unfolding insert_skip_provenance_def by simp
qed

lemma replace_semantic_fields [simp]:
  "sd_version (replace_semantic_rows i g s) = sd_version s" "sd_files (replace_semantic_rows i g s) = sd_files s"
  by (simp_all add: replace_semantic_rows_def)


lemma status_rows:
  assumes "row_of i langs p = Some r"
  shows "fe_parse_status r = (if p \<in> sd_path ` set (ig_skipped i) then parse_status_skipped else parse_status_parsed)"
  using assms last_skip_None [of i p]
  by (auto simp: row_of_def with_link_stats_def skipped_row_def parsed_row_def Let_def split: option.splits)

lemma row_of_None: "row_of i langs p = None \<longleftrightarrow> p \<notin> sd_path ` set (ig_skipped i) \<and> fmlookup langs p = None"
  using last_skip_None [of i p] by (auto simp: row_of_def split: option.splits)

lemma full_pass_files:
  "fmlookup (sd_files (fst (persist_trust_evidence_full None i g units parsed s))) (h, p) =
     (if h = g then row_of i (full_pass_parsed_languages units parsed) p else None)"
  by (simp add: persist_trust_evidence_full_def meta_tx_def Let_def insert_file_lookup split: option.split)

lemma full_pass_version [simp]:
  "sd_version (fst (persist_trust_evidence_full fault i g units parsed s)) = sd_version s"
  by (simp add: persist_trust_evidence_full_def meta_tx_def Let_def split: option.split)

definition link_of :: "ingester \<Rightarrow> string \<Rightarrow> link_stats" where
  "link_of i p = (case fmlookup (ig_file_link i) (normalize_path p) of None \<Rightarrow> zero_link_stats | Some st \<Rightarrow> st)"

lemma row_of_stats:
  assumes "row_of i langs p = Some r"
  shows "fe_ambiguous r = ls_ambiguous (link_of i p)" "fe_skipped r = ls_skipped (link_of i p)"
    "fe_resolved_external r = ls_external (link_of i p)"
  using assms by (auto simp: row_of_def with_link_stats_def Let_def link_of_def split: option.splits)

text \<open>
  after a full pass a file's row reads back under that pass's generation exactly
  when the file committed a parse or was skipped, a skip winning, with the file's own linker
  counters; under any other generation, whatever was stored before, nothing is found; a sidecar
  older than the tables answers unavailable; a rolled-back transaction changes nothing.
\<close>

theorem file_evidence_of_full_pass:
  assumes "persist_trust_evidence_full fault i g units parsed s = (s', err)"
  shows "err = fault \<and> (fault \<noteq> None \<longrightarrow> s' = s) \<and>
    (fault = None \<longrightarrow>
      read_file_evidence s' h p =
        (if sd_version s < 3 then Inl (ErrEvidenceUnavailable (sd_version s))
         else if h = [] \<or> h \<noteq> g \<or>
           p \<notin> sd_path ` set (ig_skipped i) \<and> fmlookup (full_pass_parsed_languages units parsed) p = None
         then Inl ErrEvidenceNotFound
         else Inr (the (row_of i (full_pass_parsed_languages units parsed) p)\<lparr>fe_generation := g\<rparr>)) \<and>
      (\<forall>r. row_of i (full_pass_parsed_languages units parsed) p = Some r \<longrightarrow>
         fe_parse_status r =
           (if p \<in> sd_path ` set (ig_skipped i) then parse_status_skipped else parse_status_parsed) \<and>
         fe_ambiguous r = ls_ambiguous (link_of i p) \<and> fe_skipped r = ls_skipped (link_of i p) \<and>
         fe_resolved_external r = ls_external (link_of i p)))"
proof -
  have same: "r\<lparr>fe_generation := g, fe_path := p\<rparr> = r\<lparr>fe_generation := g\<rparr>"
    if "row_of i (full_pass_parsed_languages units parsed) p = Some r" for r
    using row_path [OF that] by (cases r) simp
  have "read_file_evidence s' h p =
        (if sd_version s < 3 then Inl (ErrEvidenceUnavailable (sd_version s))
         else if h = [] \<or> h \<noteq> g \<or>
           p \<notin> sd_path ` set (ig_skipped i) \<and> fmlookup (full_pass_parsed_languages units parsed) p = None
         then Inl ErrEvidenceNotFound
         else Inr (the (row_of i (full_pass_parsed_languages units parsed) p)\<lparr>fe_generation := g\<rparr>))"
    if "fault = None"
  proof -
    have s': "s' = fst (persist_trust_evidence_full None i g units parsed s)" using assms that by simp
    show ?thesis
    proof (cases "row_of i (full_pass_parsed_languages units parsed) p")
      case None
      moreover have "p \<notin> sd_path ` set (ig_skipped i) \<and> fmlookup (full_pass_parsed_languages units parsed) p = None"
        using None row_of_None by blast
      ultimately show ?thesis unfolding s'
        by (simp add: read_file_evidence_def evidence_ready_at_def trust_evidence_schema_version_def full_pass_files)
    next
      case (Some r)
      then have "\<not> (p \<notin> sd_path ` set (ig_skipped i) \<and> fmlookup (full_pass_parsed_languages units parsed) p = None)"
        unfolding row_of_None [symmetric] by simp
      then show ?thesis using Some same [OF Some] unfolding s'
        by (auto simp: read_file_evidence_def evidence_ready_at_def trust_evidence_schema_version_def full_pass_files)
    qed
  qed
  moreover have "err = fault \<and> (fault \<noteq> None \<longrightarrow> s' = s)"
    using assms by (cases fault) (auto simp: persist_trust_evidence_full_def meta_tx_def Let_def)
  ultimately show ?thesis using status_rows row_of_stats by blast
qed

subsection \<open>The abstention record\<close>

lemma insert_counts_lookup:
  "fmlookup (sd_skips (insert_counts g l c s)) (h, m, n) =
     (if h = g \<and> m = l \<and> (\<exists>v. fmlookup c n = Some v \<and> v > 0) then fmlookup c n
      else fmlookup (sd_skips s) (h, m, n))"
proof -
  let ?ns = "sorted_list_of_fset (fmdom c)"
  let ?P = "\<lambda>name. \<not> the (fmlookup c name) \<le> 0"
  let ?m = "foldl (\<lambda>t name. if ?P name then fmupd (g, l, name) (the (fmlookup c name)) t else t) (sd_skips s) ?ns"
  have fields: "sd_skips (insert_counts g l c s) = ?m"
    unfolding insert_counts_def by (rule foldl_field) (simp add: Let_def)
  have inj: "inj_on (\<lambda>name. (g, l, name)) {x \<in> set ?ns. ?P x}" by (simp add: inj_on_def)
  show ?thesis
  proof (cases "h = g \<and> m = l \<and> (\<exists>v. fmlookup c n = Some v \<and> v > 0)")
    case True
    then obtain v where v: "fmlookup c n = Some v" "v > 0" by blast
    then have "n \<in> set ?ns" "?P n" by (auto simp: fmlookup_dom_iff)
    then have "fmlookup ?m (h, m, n) = Some (the (fmlookup c n))"
      using True by (intro fmlookup_upserts_hit [OF inj]) auto
    then show ?thesis using True v fields by simp
  next
    case False
    have "fmlookup ?m (h, m, n) = fmlookup (sd_skips s) (h, m, n)"
      by (rule fmlookup_upserts_miss [OF inj]) (use False in \<open>auto simp: fmlookup_dom_iff\<close>)
    then show ?thesis unfolding fields if_not_P [OF False] .
  qed
qed

lemma insert_skips_lookup:
  "fmlookup (sd_skips (insert_language_skips g k s)) (h, m, n) =
     (case fmlookup k m of
        Some c \<Rightarrow> if h = g \<and> (\<exists>v. fmlookup c n = Some v \<and> v > 0) then fmlookup c n
                  else fmlookup (sd_skips s) (h, m, n)
      | None \<Rightarrow> fmlookup (sd_skips s) (h, m, n))"
proof -
  have "fmlookup (sd_skips (foldl (\<lambda>s l. insert_counts g l (the (fmlookup k l)) s) s ls)) (h, m, n) =
      (if m \<in> set ls \<and> h = g \<and> (\<exists>v. fmlookup (the (fmlookup k m)) n = Some v \<and> v > 0)
       then fmlookup (the (fmlookup k m)) n else fmlookup (sd_skips s) (h, m, n))" for ls s
    by (induction ls arbitrary: s) (auto simp: insert_counts_lookup)
  then show ?thesis
    by (auto simp: insert_language_skips_eq fmlookup_dom_iff split: option.split)
qed

lemma combined_skips_lookup:
  "fmlookup (combined_language_skips i) l =
     (case fmlookup (ig_runs i) l of
        Some r \<Rightarrow> if fmdom (sm_skips r) = {||} then None else Some (sm_skips r)
      | None \<Rightarrow> None)"
proof -
  have "fmlookup (foldl (\<lambda>out l. let s = sm_skips (run_of i l) in if fmdom s = {||} then out else fmupd l s out) m ls) l =
      (if l \<in> set ls \<and> fmdom (sm_skips (run_of i l)) \<noteq> {||} then Some (sm_skips (run_of i l)) else fmlookup m l)" for m ls
    by (induction ls arbitrary: m) (auto simp: Let_def)
  then show ?thesis
    by (auto simp: combined_language_skips_def semantic_languages_def run_of_def fmlookup_dom_iff
        split: option.split)
qed

definition abstained :: "ingester \<Rightarrow> string \<Rightarrow> string \<Rightarrow> int option" where
  "abstained i l n =
     (case fmlookup (ig_runs i) l of
        None \<Rightarrow> None
      | Some r \<Rightarrow> (case fmlookup (sm_skips r) n of None \<Rightarrow> None | Some v \<Rightarrow> if v > 0 then Some v else None))"

lemma full_pass_skips:
  "fmlookup (sd_skips (fst (persist_trust_evidence_full None i g units parsed s))) (h, l, n) =
     (if h = g then abstained i l n else None)"
  by (auto simp: persist_trust_evidence_full_def meta_tx_def Let_def replace_semantic_rows_def
      insert_skips_lookup combined_skips_lookup abstained_def split: option.split dest: fmdomI)

lemma full_pass_provenance:
  "fset (sd_provenance (fst (persist_trust_evidence_full None i g units parsed s))) =
     {(g, [])} \<union> {(g, l) |l. l \<in> set (semantic_languages i) \<and> l \<noteq> []}"
  by (simp add: persist_trust_evidence_full_def meta_tx_def Let_def replace_semantic_rows_def insert_provenance_set)


lemma skip_provenance_full_pass:
  assumes "6 \<le> sd_version s"
  shows "skip_provenance (fst (persist_trust_evidence_full None i g units parsed s)) h =
    (if h = [] then Inl ErrEvidenceNotFound
     else if h \<noteq> g then Inl (ErrSkipProvenanceMissing h)
     else Inr (filter (\<lambda>l. l \<noteq> []) (semantic_languages i)))"
proof -
  let ?s = "fst (persist_trust_evidence_full None i g units parsed s)"
  let ?L = "snd |`| ffilter (\<lambda>(k, l). k = h) (sd_provenance ?s)"
  have L: "fset ?L = (if h = g then insert [] {l \<in> set (semantic_languages i). l \<noteq> []} else {})"
    by (force simp: full_pass_provenance image_iff)
  have sorted: "ssorted (sorted_list_of_fset ?L)" "ssorted (filter (\<lambda>l. l \<noteq> []) (semantic_languages i))"
    by (simp_all add: sorted_list_of_fset.rep_eq semantic_languages_def sorted_wrt_filter)
  have "filter (\<lambda>l. l \<noteq> []) (sorted_list_of_fset ?L) = filter (\<lambda>l. l \<noteq> []) (semantic_languages i)" if "h = g"
  proof (rule ssorted_unique [OF sorted_wrt_filter [OF sorted(1)] sorted(2)])
    have "set (filter (\<lambda>l. l \<noteq> []) (sorted_list_of_fset ?L)) = {l \<in> fset ?L. l \<noteq> []}" by simp
    then show "set (filter (\<lambda>l. l \<noteq> []) (sorted_list_of_fset ?L)) = set (filter (\<lambda>l. l \<noteq> []) (semantic_languages i))"
      unfolding L using that by auto
  qed
  moreover have "[] \<in> set (sorted_list_of_fset ?L) \<longleftrightarrow> h = g" using L by simp
  ultimately show ?thesis using assms
    by (simp add: skip_provenance_def evidence_ready_at_def skip_provenance_schema_version_def Let_def)
qed

lemma flat_lookup:
  "fmlookup (fmap_of_list (map (\<lambda>(k, lang, name). ((lang, name), the (fmlookup m (k, lang, name))))
      (sorted_list_of_fset (ffilter (\<lambda>(k, l, nm). k = h) (fmdom m))))) (l, n) = fmlookup m (h, l, n)"
proof -
  let ?K = "sorted_list_of_fset (ffilter (\<lambda>(k, l, nm). k = h) (fmdom m))"
  let ?f = "\<lambda>(k, lang, name). ((lang, name), the (fmlookup m (k, lang, name)))"
  show ?thesis
  proof (cases "fmlookup m (h, l, n)")
    case None
    then have "(l, n) \<notin> fst ` set (map ?f ?K)" by (auto simp: fmlookup_dom_iff)
    then show ?thesis using None by (simp add: fmlookup_of_list map_of_eq_None_iff)
  next
    case (Some v)
    have e: "map fst (map ?f ?K) = map snd ?K" by (simp add: case_prod_beta)
    have "inj_on snd (set ?K)" by (auto simp: inj_on_def)
    moreover have "distinct ?K" by (simp add: sorted_list_of_fset.rep_eq)
    ultimately have d: "distinct (map fst (map ?f ?K))" unfolding e distinct_map by blast
    have "(h, l, n) \<in> set ?K" using Some by (simp add: fmlookup_dom_iff)
    then have "((l, n), v) \<in> set (map ?f ?K)" using Some by (force simp: image_iff)
    from map_of_is_SomeI [OF d this] show ?thesis using Some by (simp add: fmlookup_of_list)
  qed
qed

text \<open>
  C37: an abstention answer is never a false all-clear: the counters of a generation are
  served only if a pass recorded that very generation, and are then exactly its positive named
  counters; every other generation, and every sidecar below schema 6, answers with an error that
  readers treat as unavailable.
\<close>

theorem abstention_record_fails_closed:
  assumes "h \<noteq> []"
  shows "(sd_version s < 6 \<longrightarrow>
      language_skips (fst (persist_trust_evidence_full None i g units parsed s)) h =
        Inl (ErrEvidenceUnavailable (sd_version s))) \<and>
   (6 \<le> sd_version s \<and> h \<noteq> g \<longrightarrow>
      language_skips (fst (persist_trust_evidence_full None i g units parsed s)) h =
        Inl (ErrSkipProvenanceMissing h)) \<and>
   (6 \<le> sd_version s \<and> h = g \<longrightarrow>
      (\<exists>m. language_skips (fst (persist_trust_evidence_full None i g units parsed s)) h = Inr m \<and>
         (\<forall>l n. fmlookup m (l, n) = abstained i l n)))"
proof -
  let ?s = "fst (persist_trust_evidence_full None i g units parsed s)"
  let ?K = "sorted_list_of_fset (ffilter (\<lambda>(k, l, nm). k = h) (fmdom (sd_skips ?s)))"
  have low: "language_skips ?s h = Inl (ErrEvidenceUnavailable (sd_version s))" if "sd_version s < 6"
    using that assms
    by (simp add: language_skips_def skip_provenance_def evidence_ready_at_def
        language_skips_schema_version_def skip_provenance_schema_version_def)
  have other: "language_skips ?s h = Inl (ErrSkipProvenanceMissing h)" if "6 \<le> sd_version s" "h \<noteq> g"
    using that assms skip_provenance_full_pass [OF that(1)]
    by (simp add: language_skips_def evidence_ready_at_def language_skips_schema_version_def)
  have own: "\<exists>m. language_skips ?s h = Inr m \<and> (\<forall>l n. fmlookup m (l, n) = abstained i l n)"
    if "6 \<le> sd_version s" "h = g"
  proof -
    let ?m = "fmap_of_list (map (\<lambda>(k, lang, name). ((lang, name), the (fmlookup (sd_skips ?s) (k, lang, name)))) ?K)"
    have "language_skips ?s h = Inr ?m"
      using that assms skip_provenance_full_pass [OF that(1)]
      by (simp add: language_skips_def evidence_ready_at_def language_skips_schema_version_def)
    moreover have "fmlookup ?m (l, n) = abstained i l n" for l n
      unfolding flat_lookup by (simp add: full_pass_skips that(2))
    ultimately show ?thesis by blast
  qed
  show ?thesis using low other own by blast
qed

subsection \<open>Package rows\<close>

definition units_in :: "string \<Rightarrow> unit_result list \<Rightarrow> unit_result list" where
  "units_in d us = filter (\<lambda>u. ur_dir u = d) us"

definition first_reason :: "unit_result list \<Rightarrow> string" where
  "first_reason us = (case filter (\<lambda>x. x \<noteq> []) (map ur_degraded us) of [] \<Rightarrow> [] | x # xs \<Rightarrow> x)"

definition unit_row :: "string \<Rightarrow> string \<Rightarrow> unit_result list \<Rightarrow> package_evidence" where
  "unit_row lang d us =
     zero_package\<lparr>pe_language := lang, pe_key := d, pe_degraded_reason := first_reason (units_in d us),
       pe_type_errors := sum_list (map ur_type_errors (units_in d us)),
       pe_dropped_intents := sum_list (map ur_dropped_intents (units_in d us))\<rparr>"

lemma first_reason_snoc:
  "first_reason (us @ [u]) = (if first_reason us = [] then ur_degraded u else first_reason us)"
proof (cases "filter (\<lambda>x. x \<noteq> []) (map ur_degraded us)")
  case Nil
  then show ?thesis by (simp add: first_reason_def)
next
  case (Cons x xs)
  then have "x \<in> set (filter (\<lambda>x. x \<noteq> []) (map ur_degraded us))" by (simp only: list.set_intros)
  then have "x \<noteq> []" by simp
  with Cons show ?thesis by (simp add: first_reason_def)
qed

lemma first_reason_Nil: "first_reason us = [] \<longleftrightarrow> (\<forall>u \<in> set us. ur_degraded u = [])"
  by (induction us rule: rev_induct) (auto simp: first_reason_snoc, simp add: first_reason_def)

definition absorb_unit :: "package_evidence \<Rightarrow> unit_result \<Rightarrow> package_evidence" where
  "absorb_unit r u =
     (let r' = r\<lparr>pe_type_errors := pe_type_errors r + ur_type_errors u,
                 pe_dropped_intents := pe_dropped_intents r + ur_dropped_intents u\<rparr>
      in if ur_degraded u \<noteq> [] \<and> pe_degraded_reason r' = [] then r'\<lparr>pe_degraded_reason := ur_degraded u\<rparr> else r')"

lemma fold_package_unit_eq:
  "fold_package_unit lang m u =
     fmupd (ur_dir u) (absorb_unit (case fmlookup m (ur_dir u) of
         None \<Rightarrow> zero_package\<lparr>pe_language := lang, pe_key := ur_dir u\<rparr> | Some r \<Rightarrow> r) u) m"
  unfolding fold_package_unit_def absorb_unit_def Let_def by (rule refl)

lemma unit_row_snoc:
  "unit_row lang d (us @ [u]) = (if ur_dir u = d then absorb_unit (unit_row lang d us) u else unit_row lang d us)"
  by (simp add: unit_row_def units_in_def first_reason_snoc absorb_unit_def Let_def zero_package_def)

lemma unit_rows:
  "fmlookup (foldl (fold_package_unit lang) fmempty us) d =
     (if units_in d us = [] then None else Some (unit_row lang d us))"
proof (induction us arbitrary: d rule: rev_induct)
  case Nil
  then show ?case by (simp add: units_in_def)
next
  case (snoc u us)
  let ?m = "foldl (fold_package_unit lang) fmempty us"
  have base: "(case fmlookup ?m (ur_dir u) of
      None \<Rightarrow> zero_package\<lparr>pe_language := lang, pe_key := ur_dir u\<rparr> | Some r \<Rightarrow> r) = unit_row lang (ur_dir u) us"
    by (simp add: snoc.IH unit_row_def zero_package_def first_reason_def)
  have step: "fmlookup (foldl (fold_package_unit lang) fmempty (us @ [u])) d =
      (if ur_dir u = d then Some (absorb_unit (unit_row lang (ur_dir u) us) u) else fmlookup ?m d)"
    unfolding foldl_append foldl_Cons foldl_Nil fold_package_unit_eq base by simp
  show ?case unfolding step snoc.IH using unit_row_snoc [of lang d us u] by (auto simp: units_in_def)
qed

lemma edge_rows:
  "fmlookup (foldl (fold_package_edge dir_of) m es) d =
     map_option (\<lambda>r. r\<lparr>pe_confirmed_edges :=
        pe_confirmed_edges r + int (length (filter (\<lambda>e. dir_of (e_from e) = d) es))\<rparr>) (fmlookup m d)"
proof (induction es arbitrary: m)
  case Nil
  then show ?case by (cases "fmlookup m d") simp_all
next
  case (Cons e es)
  show ?case unfolding foldl_Cons Cons.IH
    by (cases "dir_of (e_from e) = d"; cases "fmlookup m (dir_of (e_from e))"; cases "fmlookup m d")
      (simp_all add: fold_package_edge_def)
qed

lemma skip_rows:
  "fmlookup (foldl fold_package_skip m ps) d =
     map_option (\<lambda>r. r\<lparr>pe_skipped_files :=
        pe_skipped_files r + int (length (filter (\<lambda>p. path_dir p = d) ps))\<rparr>) (fmlookup m d)"
proof (induction ps arbitrary: m)
  case Nil
  then show ?case by (cases "fmlookup m d") simp_all
next
  case (Cons p ps)
  show ?case unfolding foldl_Cons Cons.IH
    by (cases "path_dir p = d"; cases "fmlookup m (path_dir p)"; cases "fmlookup m d")
      (simp_all add: fold_package_skip_def)
qed

definition result_row :: "string \<Rightarrow> resolve_result \<Rightarrow> (node_id \<Rightarrow> string) \<Rightarrow> string \<Rightarrow> package_evidence" where
  "result_row lang res dir_of d =
     derive_package_state
       ((unit_row lang d (rr_units res))\<lparr>
          pe_confirmed_edges := int (length (filter (\<lambda>e. dir_of (e_from e) = d) (rr_edges res))),
          pe_skipped_files := int (length (filter (\<lambda>p. path_dir p = d) (rr_skipped_files res)))\<rparr>)"

lemma package_rows_set:
  "set (package_evidence_from_result lang res dir_of) = result_row lang res dir_of ` ur_dir ` set (rr_units res)"
proof -
  let ?m = "foldl fold_package_skip (foldl (fold_package_edge dir_of)
      (foldl (fold_package_unit lang) fmempty (rr_units res)) (rr_edges res)) (rr_skipped_files res)"
  let ?row = "\<lambda>d. (unit_row lang d (rr_units res))\<lparr>
          pe_confirmed_edges := int (length (filter (\<lambda>e. dir_of (e_from e) = d) (rr_edges res))),
          pe_skipped_files := int (length (filter (\<lambda>p. path_dir p = d) (rr_skipped_files res)))\<rparr>"
  have look: "fmlookup ?m d = (if d \<in> ur_dir ` set (rr_units res) then Some (?row d) else None)" for d
  proof -
    have "units_in d (rr_units res) = [] \<longleftrightarrow> d \<notin> ur_dir ` set (rr_units res)"
      by (auto simp: units_in_def filter_empty_conv)
    then show ?thesis
      by (simp add: skip_rows edge_rows unit_rows) (simp add: unit_row_def zero_package_def)
  qed
  have "set (map_values ?m) = ?row ` ur_dir ` set (rr_units res)"
  proof -
    have "fmran' ?m = {v. \<exists>k. fmlookup ?m k = Some v}" by (auto elim!: fmran'E intro: fmran'I)
    also have "\<dots> = ?row ` ur_dir ` set (rr_units res)" unfolding look by (auto split: if_splits)
    finally show ?thesis unfolding set_map_values .
  qed
  then show ?thesis
    by (simp add: package_evidence_from_result_def Let_def result_row_def image_image)
qed


lemma distinct_map_sort_key: "distinct (map f (sort_key g xs)) = distinct (map f xs)"
  by (rule mset_eq_imp_distinct_iff) simp

text \<open>
  the package rows of a result: one per unit directory, ascending; a package is
  degraded only for a recorded reason of one of its units, never for its error count alone; its
  errors, confirmed edges and skipped files are those attributed to its directory.
\<close>

theorem package_rows_of_result:
  "ssorted (map pe_key (package_evidence_from_result lang res dir_of)) \<and>
   pe_key ` set (package_evidence_from_result lang res dir_of) = ur_dir ` set (rr_units res) \<and>
   (\<forall>r \<in> set (package_evidence_from_result lang res dir_of).
      (pe_state r = package_degraded \<longleftrightarrow>
         (\<exists>u \<in> set (rr_units res). ur_dir u = pe_key r \<and> ur_degraded u \<noteq> [])) \<and>
      pe_state r \<in> {package_checked, package_checked_with_errors, package_degraded} \<and>
      pe_type_errors r = sum_list (map ur_type_errors (units_in (pe_key r) (rr_units res))) \<and>
      pe_confirmed_edges r = int (length (filter (\<lambda>e. dir_of (e_from e) = pe_key r) (rr_edges res))) \<and>
      pe_skipped_files r = int (length (filter (\<lambda>p. path_dir p = pe_key r) (rr_skipped_files res))))"
proof -
  have key: "pe_key (result_row lang res dir_of d) = d" for d
    by (simp add: result_row_def derive_package_state_def unit_row_def)
  have states: "package_degraded \<noteq> package_checked" "package_degraded \<noteq> package_checked_with_errors"
    by (simp_all add: package_degraded_def package_checked_def package_checked_with_errors_def)
  have reason: "first_reason (units_in d (rr_units res)) \<noteq> [] \<longleftrightarrow>
      (\<exists>u \<in> set (rr_units res). ur_dir u = d \<and> ur_degraded u \<noteq> [])" for d
    by (auto simp: first_reason_Nil units_in_def)
  have row: "(pe_state r = package_degraded \<longleftrightarrow>
         (\<exists>u \<in> set (rr_units res). ur_dir u = pe_key r \<and> ur_degraded u \<noteq> [])) \<and>
      pe_state r \<in> {package_checked, package_checked_with_errors, package_degraded} \<and>
      pe_type_errors r = sum_list (map ur_type_errors (units_in (pe_key r) (rr_units res))) \<and>
      pe_confirmed_edges r = int (length (filter (\<lambda>e. dir_of (e_from e) = pe_key r) (rr_edges res))) \<and>
      pe_skipped_files r = int (length (filter (\<lambda>p. path_dir p = pe_key r) (rr_skipped_files res)))"
    if r: "r = result_row lang res dir_of d" for r d
  proof -
    let ?e = "sum_list (map ur_type_errors (units_in d (rr_units res)))"
    have k: "pe_key r = d" unfolding r by (rule key)
    have "pe_state r = (if first_reason (units_in d (rr_units res)) \<noteq> [] then package_degraded
        else if ?e > 0 then package_checked_with_errors else package_checked)"
      unfolding r by (simp add: result_row_def derive_package_state_def unit_row_def)
    moreover have "pe_type_errors r = ?e"
      "pe_confirmed_edges r = int (length (filter (\<lambda>e. dir_of (e_from e) = d) (rr_edges res)))"
      "pe_skipped_files r = int (length (filter (\<lambda>p. path_dir p = d) (rr_skipped_files res)))"
      unfolding r by (simp_all add: result_row_def derive_package_state_def unit_row_def)
    ultimately show ?thesis unfolding k using reason [of d] states by simp
  qed
  have keys: "pe_key ` set (package_evidence_from_result lang res dir_of) = ur_dir ` set (rr_units res)"
    unfolding package_rows_set by (simp add: image_image key)
  have "ssorted (map pe_key (package_evidence_from_result lang res dir_of))"
  proof -
    let ?m = "foldl fold_package_skip (foldl (fold_package_edge dir_of)
      (foldl (fold_package_unit lang) fmempty (rr_units res)) (rr_edges res)) (rr_skipped_files res)"
    have "keyed pe_key ?m"
      unfolding keyed_def by (auto simp: skip_rows edge_rows unit_rows unit_row_def split: if_splits)
    then have "distinct (map pe_key (map_values ?m))" by (rule ssorted_distinct [OF ssorted_values])
    moreover have "map pe_key (map_values ?m) = map pe_key (map derive_package_state (map_values ?m))"
      by (simp add: derive_package_state_def)
    ultimately have "distinct (map pe_key (package_evidence_from_result lang res dir_of))"
      by (simp only: package_evidence_from_result_def Let_def distinct_map_sort_key)
    then show ?thesis by (simp add: strict_sorted_iff package_evidence_from_result_def)
  qed
  then show ?thesis using keys row unfolding package_rows_set by blast
qed

subsection \<open>The fold across languages\<close>

definition closed_states :: "string set" where
  "closed_states = {package_checked, package_checked_with_errors, package_degraded}"

lemma states_distinct' [simp]:
  "package_degraded \<noteq> package_checked" "package_degraded \<noteq> package_checked_with_errors"
  "package_checked \<noteq> package_degraded" "package_checked_with_errors \<noteq> package_degraded"
  "package_checked \<noteq> package_checked_with_errors" "package_checked_with_errors \<noteq> package_checked"
  by (simp_all add: package_degraded_def package_checked_def package_checked_with_errors_def)

lemma fold_language_rows:
  assumes "pe_state pe \<in> closed_states" "\<forall>r \<in> set rs. pe_state r \<in> closed_states"
  shows "pe_state (foldl fold_language_row pe rs) \<in> closed_states \<and>
    (pe_state (foldl fold_language_row pe rs) = package_degraded \<longleftrightarrow>
       (\<exists>r \<in> set (pe # rs). pe_state r = package_degraded)) \<and>
    (pe_state (foldl fold_language_row pe rs) = package_checked \<longleftrightarrow>
       (\<forall>r \<in> set (pe # rs). pe_state r = package_checked)) \<and>
    pe_skipped_files (foldl fold_language_row pe rs) = sum_list (map pe_skipped_files (pe # rs)) \<and>
    pe_type_errors (foldl fold_language_row pe rs) = sum_list (map pe_type_errors (pe # rs)) \<and>
    pe_confirmed_edges (foldl fold_language_row pe rs) = sum_list (map pe_confirmed_edges (pe # rs)) \<and>
    pe_generation (foldl fold_language_row pe rs) = pe_generation pe \<and>
    pe_key (foldl fold_language_row pe rs) = pe_key pe"
  using assms
proof (induction rs arbitrary: pe)
  case Nil
  then show ?case by simp
next
  case (Cons r rs)
  let ?pe = "fold_language_row pe r"
  have st: "pe_state ?pe = (if pe_state r = package_degraded \<or>
        pe_state r = package_checked_with_errors \<and> pe_state pe = package_checked then pe_state r else pe_state pe)"
    and parts: "pe_skipped_files ?pe = pe_skipped_files pe + pe_skipped_files r"
      "pe_type_errors ?pe = pe_type_errors pe + pe_type_errors r"
      "pe_confirmed_edges ?pe = pe_confirmed_edges pe + pe_confirmed_edges r"
      "pe_generation ?pe = pe_generation pe" "pe_key ?pe = pe_key pe"
    by (simp_all add: fold_language_row_def)
  have closed: "pe_state ?pe \<in> closed_states" using Cons.prems st by auto
  have deg: "pe_state ?pe = package_degraded \<longleftrightarrow> pe_state pe = package_degraded \<or> pe_state r = package_degraded"
    using Cons.prems unfolding st closed_states_def by auto
  have chk: "pe_state ?pe = package_checked \<longleftrightarrow> pe_state pe = package_checked \<and> pe_state r = package_checked"
    using Cons.prems unfolding st closed_states_def by auto
  have rest: "\<forall>r \<in> set rs. pe_state r \<in> closed_states" using Cons.prems by simp
  note ih = Cons.IH [OF closed rest]
  show ?case unfolding foldl_Cons using ih by (simp add: deg chk parts conj_assoc disj_assoc)
qed

text \<open>
  a package read folds its languages' rows: found under that generation and key
  only, degraded exactly when some language's row is, checked only when all are, with summed
  counters; and its skip counters are marked available only if that generation's record exists.
\<close>

theorem package_evidence_fold:
  assumes "\<forall>r \<in> set (package_rows s g k). pe_state r \<in> closed_states"
    and "read_package_evidence s g k = Inr pe"
  shows "package_rows s g k \<noteq> [] \<and> pe_generation pe = g \<and> pe_key pe = k \<and>
    (pe_state pe = package_degraded \<longleftrightarrow> (\<exists>r \<in> set (package_rows s g k). pe_state r = package_degraded)) \<and>
    (pe_state pe = package_checked \<longleftrightarrow> (\<forall>r \<in> set (package_rows s g k). pe_state r = package_checked)) \<and>
    pe_skipped_files pe = sum_list (map pe_skipped_files (package_rows s g k)) \<and>
    pe_type_errors pe = sum_list (map pe_type_errors (package_rows s g k)) \<and>
    pe_languages pe = map pe_language (package_rows s g k) \<and>
    (pe_skips_available pe \<longleftrightarrow> (\<exists>ls. skip_provenance s g = Inr ls))"
proof -
  obtain r rs where rows: "package_rows s g k = r # rs" and g: "g \<noteq> []" and v: "\<not> sd_version s < 4"
    using assms(2)
    by (cases "package_rows s g k")
      (auto simp: read_package_evidence_def evidence_ready_at_def package_evidence_schema_version_def
        split: if_splits)
  let ?r = "r\<lparr>pe_generation := g, pe_key := k\<rparr>"
  let ?pe = "foldl fold_language_row ?r rs"
  let ?pe1 = "if rs \<noteq> [] then ?pe\<lparr>pe_degraded_reason :=
      join_with ''; '' (filter (\<lambda>x. x \<noteq> []) (map pe_degraded_reason (r # rs)))\<rparr> else ?pe"
  let ?langs = "sort (map pe_language (r # rs))"
  let ?pe2 = "?pe1\<lparr>pe_languages := ?langs\<rparr>"
  have cl: "pe_state ?r \<in> closed_states" "\<forall>r \<in> set rs. pe_state r \<in> closed_states"
    using assms(1) unfolding rows by simp_all
  note f = fold_language_rows [OF cl]
  have "pe = (case language_skips_for s g ?langs of Inl e \<Rightarrow> ?pe2
      | Inr skips \<Rightarrow> ?pe2\<lparr>pe_skips_available := True, pe_named_skips := skips\<rparr>)"
    using assms(2) g v unfolding read_package_evidence_def rows
    by (simp add: evidence_ready_at_def package_evidence_schema_version_def Let_def
        split: sum.splits if_splits)
  moreover have "\<not> pe_skips_available ?pe"
  proof -
    have "pe_skips_available ?pe = pe_skips_available ?r"
      by (rule foldl_keeps) (simp add: fold_language_row_def)
    moreover have "r \<in> set (package_rows s g k)" using rows by simp
    ultimately show ?thesis by (auto simp: package_rows_def)
  qed
  moreover have "?langs = map pe_language (r # rs)"
  proof -
    have "map pe_language (package_rows s g k) =
        sorted_list_of_fset ((fst \<circ> snd) |`| ffilter (\<lambda>(h, l, q). h = g \<and> q = k) (fmdom (sd_packages s)))"
      by (simp add: package_rows_def o_def)
    then have "sorted (map pe_language (package_rows s g k))" by (simp add: sorted_list_of_fset.rep_eq)
    then show ?thesis unfolding rows by (rule sorted_sort_id)
  qed
  moreover have "\<not> pe_skips_available ?pe1" using calculation(2) by (cases "rs = []") simp_all
  ultimately have pe: "pe = (case language_skips_for s g ?langs of Inl e \<Rightarrow> ?pe2
      | Inr skips \<Rightarrow> ?pe2\<lparr>pe_skips_available := True, pe_named_skips := skips\<rparr>)"
    and na: "\<not> pe_skips_available ?pe1" and langs: "?langs = map pe_language (r # rs)" by blast+
  have two: "pe_generation ?pe2 = pe_generation ?pe" "pe_key ?pe2 = pe_key ?pe" "pe_state ?pe2 = pe_state ?pe"
    "pe_skipped_files ?pe2 = pe_skipped_files ?pe" "pe_type_errors ?pe2 = pe_type_errors ?pe"
    "pe_languages ?pe2 = ?langs" "pe_skips_available ?pe2 = pe_skips_available ?pe1"
    by (cases "rs \<noteq> []"; simp)+
  have parts: "pe_generation pe = pe_generation ?pe2" "pe_key pe = pe_key ?pe2" "pe_state pe = pe_state ?pe2"
    "pe_skipped_files pe = pe_skipped_files ?pe2" "pe_type_errors pe = pe_type_errors ?pe2"
    "pe_languages pe = pe_languages ?pe2"
    unfolding pe by (cases "language_skips_for s g ?langs"; simp)+
  have sk: "pe_skips_available pe \<longleftrightarrow> (\<exists>m. language_skips_for s g ?langs = Inr m)"
  proof (cases "language_skips_for s g ?langs")
    case (Inl e)
    then have "pe = ?pe2" using pe by simp
    then show ?thesis using Inl na two(7) by simp
  next
    case (Inr m)
    then have "pe = ?pe2\<lparr>pe_skips_available := True, pe_named_skips := m\<rparr>" using pe by simp
    then show ?thesis using Inr by simp
  qed
  have avail: "(\<exists>m. language_skips_for s g ?langs = Inr m) \<longleftrightarrow> (\<exists>ls. skip_provenance s g = Inr ls)"
    by (auto simp: language_skips_for_def evidence_ready_at_def skip_provenance_def language_skips_schema_version_def
        skip_provenance_schema_version_def split: sum.splits if_splits)
  show ?thesis unfolding sk avail unfolding parts two langs rows using f by simp
qed


subsection \<open>Witnesses\<close>

definition one_run :: ingester where
  "one_run =
     \<lparr>ig_link_stats = zero_link_stats,
      ig_runs = fmupd ''java'' \<lparr>sm_facts = zero_type_facts,
          sm_evidence = [zero_package\<lparr>pe_language := ''java'', pe_key := ''src'', pe_state := package_checked\<rparr>],
          sm_skips = fmupd ''java_overload'' 2 fmempty\<rparr> fmempty,
      ig_read_failure = False, ig_file_link = fmempty,
      ig_skipped = [\<lparr>sd_path = ''big.go'', sd_reason = ''oversize'', sd_size = 9\<rparr>], ig_profile = []\<rparr>"

definition empty_sidecar :: sidecar where
  "empty_sidecar = \<lparr>sd_version = 6, sd_files = fmempty, sd_packages = fmempty, sd_skips = fmempty, sd_provenance = {||}\<rparr>"

definition one_pass :: sidecar where
  "one_pass = fst (persist_trust_evidence_full None one_run ''g1'' [''a.go'']
     [Some \<lparr>pl_skipped = False, pl_result = Some ''go''\<rparr>] empty_sidecar)"

lemma one_pass_version: "sd_version empty_sidecar = 6"
  by (simp add: empty_sidecar_def)


lemma one_pass_eq: "persist_trust_evidence_full None one_run ''g1'' [''a.go'']
     [Some \<lparr>pl_skipped = False, pl_result = Some ''go''\<rparr>] empty_sidecar = (one_pass, None)"
  by (simp add: one_pass_def persist_trust_evidence_full_def meta_tx_def Let_def)

theorem file_evidence_of_full_pass_witness:
  "(\<exists>r. read_file_evidence one_pass ''g1'' ''big.go'' = Inr r) \<and>
   read_file_evidence one_pass ''g0'' ''big.go'' = Inl ErrEvidenceNotFound"
proof -
  have sk: "''big.go'' \<in> sd_path ` set (ig_skipped one_run)" by (simp add: one_run_def)
  show ?thesis
    using file_evidence_of_full_pass [OF one_pass_eq, of "''g1''" "''big.go''"]
      file_evidence_of_full_pass [OF one_pass_eq, of "''g0''" "''big.go''"] sk
    unfolding one_pass_version by auto
qed

definition two_rows :: sidecar where
  "two_rows = empty_sidecar\<lparr>sd_packages :=
     fmupd (''g1'', ''java'', ''src'') (zero_package\<lparr>pe_state := package_degraded\<rparr>)
       (fmupd (''g1'', ''go'', ''src'') (zero_package\<lparr>pe_state := package_checked\<rparr>) fmempty)\<rparr>"

theorem package_evidence_fold_witness:
  "\<exists>pe. read_package_evidence two_rows ''g1'' ''src'' = Inr pe \<and> pe_state pe = package_degraded \<and>
     \<not> pe_skips_available pe"
proof -
  have rows: "set (package_rows two_rows ''g1'' ''src'') =
      {zero_package\<lparr>pe_language := ''java'', pe_state := package_degraded\<rparr>,
       zero_package\<lparr>pe_language := ''go'', pe_state := package_checked\<rparr>}"
    by (simp add: package_rows_def two_rows_def zero_package_def) 
  have np: "\<not> (\<exists>ls. skip_provenance two_rows ''g1'' = Inr ls)"
    by (simp add: skip_provenance_def two_rows_def empty_sidecar_def evidence_ready_at_def)
  have ne: "package_rows two_rows ''g1'' ''src'' \<noteq> []" using rows by auto
  have sk: "language_skips_for two_rows ''g1'' ls = Inl (ErrSkipProvenanceMissing ''g1'')" for ls
    by (simp add: language_skips_for_def two_rows_def empty_sidecar_def evidence_ready_at_def
        skip_provenance_def language_skips_schema_version_def skip_provenance_schema_version_def)
  have rd: "evidence_ready_at two_rows 4 = None" by (simp add: two_rows_def empty_sidecar_def evidence_ready_at_def)
  have "\<exists>pe. read_package_evidence two_rows ''g1'' ''src'' = Inr pe"
    using ne by (cases "package_rows two_rows ''g1'' ''src''")
      (simp_all add: read_package_evidence_def sk Let_def rd package_evidence_schema_version_def)
  then obtain pe where pe: "read_package_evidence two_rows ''g1'' ''src'' = Inr pe" by blast
  have "\<forall>r \<in> set (package_rows two_rows ''g1'' ''src''). pe_state r \<in> closed_states"
    unfolding rows by (simp add: closed_states_def)
  from package_evidence_fold [OF this pe] show ?thesis using pe np unfolding rows by auto
qed

theorem abstention_record_fails_closed_witness:
  "language_skips one_pass ''g0'' = Inl (ErrSkipProvenanceMissing ''g0'') \<and>
   (\<exists>m. language_skips one_pass ''g1'' = Inr m \<and> fmlookup m (''java'', ''java_overload'') = Some 2)"
proof -
  have a: "abstained one_run ''java'' ''java_overload'' = Some 2" by (simp add: abstained_def one_run_def)
  show ?thesis
    using abstention_record_fails_closed [where s = empty_sidecar and i = one_run and g = "''g1''" and units = "[''a.go'']"
        and parsed = "[Some \<lparr>pl_skipped = False, pl_result = Some ''go''\<rparr>]" and h = "''g0''"]
      abstention_record_fails_closed [where s = empty_sidecar and i = one_run and g = "''g1''" and units = "[''a.go'']"
        and parsed = "[Some \<lparr>pl_skipped = False, pl_result = Some ''go''\<rparr>]" and h = "''g1''"] a
    unfolding one_pass_def [symmetric] one_pass_version by auto
qed

theorem package_rows_of_result_witness:
  "\<exists>r \<in> set (package_evidence_from_result ''go''
      \<lparr>rr_edges = [], rr_units = [\<lparr>ur_dir = ''a'', ur_name = ''a'', ur_degraded = [], ur_type_errors = 3, ur_dropped_intents = 0\<rparr>],
       rr_skipped_files = [], rr_dropped_intents = 0, rr_named_skips = fmempty\<rparr> (\<lambda>n. [])).
     pe_key r = ''a'' \<and> pe_state r \<noteq> package_degraded"
proof -
  let ?res = "\<lparr>rr_edges = [], rr_units = [\<lparr>ur_dir = ''a'', ur_name = ''a'', ur_degraded = [], ur_type_errors = 3, ur_dropped_intents = 0\<rparr>],
       rr_skipped_files = [], rr_dropped_intents = 0, rr_named_skips = fmempty\<rparr>"
  note p = package_rows_of_result [of "''go''" ?res "\<lambda>n. []"]
  have "''a'' \<in> pe_key ` set (package_evidence_from_result ''go'' ?res (\<lambda>n. []))" using p by simp
  then obtain r where r: "r \<in> set (package_evidence_from_result ''go'' ?res (\<lambda>n. []))" "pe_key r = ''a''" by auto
  then have "pe_state r \<noteq> package_degraded" using p by auto
  then show ?thesis using r by blast
qed

end
