(* ===== verification/TrustReport.thy ===== *)
theory TrustReport
  imports Evidence
begin

text \<open>
  The shared trust report (\<open>surfaces/client\<close>: \<open>trust_report.go\<close>, \<open>abstention.go\<close>): probe, store,
  resolver, evidence sidecar and policy composed into one document, and the reader of the
  abstention record.  The SQLite store is the record of the three reads that the report makes;
  opening it or the sidecar may fail (\<open>None\<close>).  The text of the document is \<open>encoding/json\<close>.
\<close>

subsection \<open>The inputs\<close>

record probe_report = freshness_report +
  pb_files_cached :: int
  pb_profile :: string
  pb_last_commit :: string
  pb_added :: int
  pb_changed :: int
  pb_removed :: int
  pb_recommendation :: string

abbreviation freshness_of :: "probe_report \<Rightarrow> freshness_report" where
  "freshness_of \<equiv> freshness_report.truncate"

record graph_reader =
  gs_metadata :: "string \<Rightarrow> store_error + string"
  gs_stats :: "(int \<Rightarrow> store_error + trust_stats) option"
  gs_lookup :: "(node_lookup \<times> node_lookup) option"

record report_options =
  ro_target :: string
  ro_policy :: string
  ro_details :: bool
  ro_limit :: int

datatype report_error =
    ReportPolicy trust_error
  | ReportProbe string
  | ReportGeneration store_error
  | ReportSnapshot store_error
  | ReportTarget trust_error
  | ReportRegistryPanic

definition live_generation_key :: string where
  "live_generation_key = ''index.full_ingest_generation''"

definition live_generation :: "graph_reader \<Rightarrow> store_error + string" where
  "live_generation store =
     (case gs_metadata store live_generation_key of
        Inl err \<Rightarrow> if err = ErrNotFound then Inr [] else Inl err
      | Inr gen \<Rightarrow> Inr gen)"

subsection \<open>The evidence of a scope\<close>

definition scope_evidence_path :: "scope_ref \<Rightarrow> string" where
  "scope_evidence_path s =
     (if sr_kind s = scope_file then sr_path s
      else if sr_kind s = scope_symbol then (if sr_id s \<noteq> [] then sr_path s else [])
      else [])"

definition scope_evidence_facts :: "sidecar option \<Rightarrow> string \<Rightarrow> scope_ref \<Rightarrow> scope_facts" where
  "scope_evidence_facts handle g scope =
     (case handle of
        None \<Rightarrow> no_scope_facts
      | Some s \<Rightarrow>
          if g = [] then no_scope_facts
          else if sr_kind scope = scope_package then
            (if sr_id scope = [] then no_scope_facts
             else (case read_package_evidence s g (sr_id scope) of
                Inl e \<Rightarrow> no_scope_facts
              | Inr pe \<Rightarrow>
                  \<lparr>sc_available = True, sc_file = zero_file_facts,
                   sc_package = \<lparr>sp_state = pe_state pe, sp_degraded_reason = pe_degraded_reason pe,
                     sp_type_errors = pe_type_errors pe, sp_dropped_intents = pe_dropped_intents pe,
                     sp_confirmed_edges = pe_confirmed_edges pe, sp_skipped_files = pe_skipped_files pe\<rparr>\<rparr>))
          else
            let path = scope_evidence_path scope
            in if path = [] then no_scope_facts
               else (case read_file_evidence s g path of
                  Inl e \<Rightarrow> no_scope_facts
                | Inr fe \<Rightarrow>
                    \<lparr>sc_available = True,
                     sc_file = \<lparr>sf_parse_status = fe_parse_status fe, sf_parse_reason = fe_parse_reason fe,
                       sf_resolved_derived = fe_resolved_derived fe,
                       sf_resolved_heuristic = fe_resolved_heuristic fe,
                       sf_resolved_external = fe_resolved_external fe,
                       sf_skipped = fe_skipped fe, sf_ambiguous = fe_ambiguous fe\<rparr>,
                     sc_package = zero_package_facts\<rparr>))"

definition sidecar_lookup_package :: "sidecar \<Rightarrow> string \<Rightarrow> package_lookup" where
  "sidecar_lookup_package s g k =
     (if g = [] then Inr False
      else (case read_package_evidence s g k of Inl e \<Rightarrow> Inr False | Inr pe \<Rightarrow> Inr True))"

definition unresolved_scope :: "string \<Rightarrow> scope_ref" where
  "unresolved_scope target0 =
     (let target = trim_space target0
      in if target = [] then mk_scope scope_repository [] [] [] []
         else if contains_str target ''/'' then mk_scope scope_package [] [] target []
         else mk_scope scope_symbol [] [] [] target)"

record report_facts =
  tf_snap :: trust_snapshot
  tf_state :: snap_state
  tf_scope :: scope_ref
  tf_resolution :: "finding list"
  tf_scope_facts :: scope_facts
  tf_generation :: string

definition unavailable_facts :: "string \<Rightarrow> report_facts" where
  "unavailable_facts target =
     \<lparr>tf_snap = zero_snapshot, tf_state = state_unavailable, tf_scope = unresolved_scope target,
      tf_resolution = [], tf_scope_facts = no_scope_facts, tf_generation = []\<rparr>"

definition read_trust_facts ::
  "(string \<Rightarrow> trust_snapshot option) \<Rightarrow> (string \<Rightarrow> string) \<Rightarrow> (string \<Rightarrow> string) \<Rightarrow> probe_report
     \<Rightarrow> graph_reader option \<Rightarrow> sidecar option \<Rightarrow> string \<Rightarrow> report_error + report_facts" where
  "read_trust_facts parse_json sha256_hex quote f opened handle target =
     (if \<not> fr_exists f then Inr (unavailable_facts target)
      else (case opened of
        None \<Rightarrow> Inr (unavailable_facts target)
      | Some store \<Rightarrow>
          (case live_generation store of
             Inl err \<Rightarrow> Inl (ReportGeneration err)
           | Inr generation \<Rightarrow>
               (case trust_evaluate parse_json sha256_hex (gs_metadata store) (gs_stats store)
                       (freshness_of f) generation of
                  (snap, st, Some err) \<Rightarrow> Inl (ReportSnapshot err)
                | (snap, st, None) \<Rightarrow>
                    let facts = (unavailable_facts target)
                          \<lparr>tf_snap := snap, tf_state := st, tf_generation := generation\<rparr>
                    in if trim_space target = [] then Inr facts
                       else
                         let g = gr_full_pass (sn_generation snap);
                             lookups = (case handle of
                                 None \<Rightarrow> []
                               | Some s \<Rightarrow> if g \<noteq> [] then [Some (sidecar_lookup_package s g)] else [])
                         in (case resolve_scope quote (gs_lookup store) target lookups of
                               Inl err \<Rightarrow> Inl (ReportTarget err)
                             | Inr (scope, resolution) \<Rightarrow>
                                 Inr (facts\<lparr>tf_scope := scope, tf_resolution := resolution,
                                   tf_scope_facts := scope_evidence_facts handle g scope\<rparr>))))))"

subsection \<open>The abstention record\<close>

record abstention_skip =
  ak_name :: string
  ak_count :: int

record abstention_language =
  al_language :: string
  al_total :: int
  al_skips :: "abstention_skip list"

record abstention_facts =
  ab_available :: bool
  ab_reason :: string
  ab_registrants :: "string list"
  ab_languages :: "abstention_language list"

record evidence_handle =
  eh_store :: graph_reader
  eh_sidecar :: sidecar
  eh_gen :: string

definition open_evidence :: "bool \<Rightarrow> graph_reader option \<Rightarrow> sidecar option \<Rightarrow> string + evidence_handle" where
  "open_evidence resolved opened handle =
     (if \<not> resolved then Inl ''no repository state directory could be resolved for this root''
      else (case opened of
        None \<Rightarrow> Inl ''the graph store could not be opened read-only (the repository may not be indexed)''
      | Some store \<Rightarrow>
          (case live_generation store of
             Inl err \<Rightarrow> Inl ''the graph store's full-pass generation could not be read''
           | Inr gen \<Rightarrow>
               if gen = []
               then Inl ''no full pass has certified this store, so no generation-bound evidence exists''
               else (case handle of
                 None \<Rightarrow> Inl ''the ingest evidence sidecar could not be opened''
               | Some s \<Rightarrow> Inr \<lparr>eh_store = store, eh_sidecar = s, eh_gen = gen\<rparr>))))"

definition em_dash :: string where
  "em_dash = [CHR 0xE2, CHR 0x80, CHR 0x94]"

fun unavailable_reason_for :: "evidence_error \<Rightarrow> string" where
  "unavailable_reason_for (ErrSkipProvenanceMissing g) =
     ''this graph generation carries no abstention record '' @ em_dash @
     '' it was indexed before the record existed (or by a build that never wrote one), '' @
     ''and migrating the sidecar creates the table without re-running the binders, '' @
     ''so only a full re-index (`graphi rebuild`) can record it''"
| "unavailable_reason_for (ErrEvidenceUnavailable v) =
     ''this store's evidence sidecar predates the abstention record and never migrates when observed read-only''"
| "unavailable_reason_for e = ''the abstention record could not be read from the evidence sidecar''"

definition sorted_skips :: "(string, int) fmap \<Rightarrow> abstention_skip list" where
  "sorted_skips m =
     map (\<lambda>k. \<lparr>ak_name = k, ak_count = the (fmlookup m k)\<rparr>)
       (filter (\<lambda>k. the (fmlookup m k) > 0) (sorted_list_of_fset (fmdom m)))"

text \<open>The counters of one language out of the record's rows, and the languages that have rows.\<close>

definition skips_of :: "(string \<times> string, int) fmap \<Rightarrow> string \<Rightarrow> (string, int) fmap" where
  "skips_of m l =
     fmap_of_list (map (\<lambda>k. (snd k, the (fmlookup m k))) (filter (\<lambda>k. fst k = l) (sorted_list_of_fset (fmdom m))))"

definition skip_languages :: "(string \<times> string, int) fmap \<Rightarrow> string list" where
  "skip_languages m = sorted_list_of_fset (fst |`| fmdom m)"

definition abstention_entry :: "(string \<times> string, int) fmap \<Rightarrow> string \<Rightarrow> abstention_language" where
  "abstention_entry m l =
     (let skips = sorted_skips (skips_of m l)
      in \<lparr>al_language = l, al_total = sum_list (map ak_count skips), al_skips = skips\<rparr>)"

definition no_abstention :: abstention_facts where
  "no_abstention = \<lparr>ab_available = False, ab_reason = [], ab_registrants = [], ab_languages = []\<rparr>"

definition read_abstention_facts :: "bool \<Rightarrow> graph_reader option \<Rightarrow> sidecar option \<Rightarrow> abstention_facts" where
  "read_abstention_facts resolved opened handle =
     (case open_evidence resolved opened handle of
        Inl reason \<Rightarrow> no_abstention\<lparr>ab_reason := reason\<rparr>
      | Inr h \<Rightarrow>
          (case skip_provenance (eh_sidecar h) (eh_gen h) of
             Inl e \<Rightarrow> no_abstention\<lparr>ab_reason := unavailable_reason_for e\<rparr>
           | Inr registrants \<Rightarrow>
               (case language_skips (eh_sidecar h) (eh_gen h) of
                  Inl e \<Rightarrow> no_abstention\<lparr>ab_reason := unavailable_reason_for e\<rparr>
                | Inr by_lang \<Rightarrow>
                    no_abstention\<lparr>ab_available := True, ab_registrants := registrants,
                      ab_languages := map (abstention_entry by_lang) (skip_languages by_lang)\<rparr>)))"

text \<open>The gate of a strict query: only the packages that its result covers, the anchor's own included.\<close>

record package_abstention =
  pa_skips :: "abstention_skip list"
  pa_total :: int
  pa_packages :: "string list"
  pa_registrants :: "string list"
  pa_unclaimed :: "string list"
  pa_reason :: string

definition no_package_abstention :: package_abstention where
  "no_package_abstention =
     \<lparr>pa_skips = [], pa_total = 0, pa_packages = [], pa_registrants = [], pa_unclaimed = [], pa_reason = []\<rparr>"

definition add_package_key :: "string list \<Rightarrow> string \<Rightarrow> string list" where
  "add_package_key ks k = (if k \<in> set ks then ks else sort (ks @ [k]))"

definition add_skips :: "(string, int) fmap \<Rightarrow> (string, int) fmap \<Rightarrow> (string, int) fmap" where
  "add_skips m n =
     foldl (\<lambda>acc k. fmupd k (count_at acc k + the (fmlookup n k)) acc) m (sorted_list_of_fset (fmdom n))"

text \<open>One covered package: unclaimed, claimed without abstention, or one that abstained.\<close>

definition package_turn ::
  "(string, string list) fmap \<Rightarrow> (string \<times> string, int) fmap
     \<Rightarrow> string list \<times> string list \<times> string fset \<Rightarrow> string \<Rightarrow> string list \<times> string list \<times> string fset" where
  "package_turn claimed by_lang = (\<lambda>(unclaimed, packages, covered) k.
     (case fmlookup claimed k of
        None \<Rightarrow> (unclaimed @ [k], packages, covered)
      | Some langs \<Rightarrow>
          if list_ex (\<lambda>l. skips_of by_lang l \<noteq> fmempty) langs
          then (unclaimed, packages @ [k], covered |\<union>| fset_of_list langs)
          else (unclaimed, packages, covered)))"

definition read_package_abstention ::
  "bool \<Rightarrow> graph_reader option \<Rightarrow> sidecar option \<Rightarrow> (node_id \<Rightarrow> store_error + node) \<Rightarrow> string list \<Rightarrow> node_id
     \<Rightarrow> package_abstention" where
  "read_package_abstention resolved opened handle get_node keys0 anchor =
     (if length keys0 = 0 \<and> anchor = [] then no_package_abstention
      else (case open_evidence resolved opened handle of
        Inl reason \<Rightarrow> no_package_abstention\<lparr>pa_reason := reason\<rparr>
      | Inr h \<Rightarrow>
          let ks = (if anchor \<noteq> [] then
                      (case get_node anchor of
                         Inl e \<Rightarrow> keys0
                       | Inr n \<Rightarrow> if n_path n \<noteq> [] then add_package_key keys0 (path_dir (n_path n)) else keys0)
                    else keys0)
          in if length ks = 0 then no_package_abstention
             else (case skip_provenance (eh_sidecar h) (eh_gen h) of
               Inl e \<Rightarrow> no_package_abstention\<lparr>pa_reason := unavailable_reason_for e\<rparr>
             | Inr registrants \<Rightarrow>
                 (case language_skips (eh_sidecar h) (eh_gen h) of
                    Inl e \<Rightarrow> no_package_abstention\<lparr>pa_reason := unavailable_reason_for e\<rparr>
                  | Inr by_lang \<Rightarrow>
                      (case package_registrants (eh_sidecar h) (eh_gen h) ks of
                         Inl e \<Rightarrow> no_package_abstention\<lparr>pa_reason :=
                             ''this store's evidence sidecar cannot serve package evidence''\<rparr>
                       | Inr claimed \<Rightarrow>
                           (case foldl (package_turn claimed by_lang) ([], [], {||}) ks of
                              (unclaimed, packages, covered) \<Rightarrow>
                                let base = no_package_abstention\<lparr>pa_registrants := registrants,
                                             pa_unclaimed := sort unclaimed\<rparr>
                                in if length packages = 0 then base
                                   else
                                     let union = foldl (\<lambda>m l. add_skips m (skips_of by_lang l)) fmempty
                                                   (sorted_list_of_fset covered);
                                         skips = sorted_skips union
                                     in base\<lparr>pa_skips := skips, pa_total := sum_list (map ak_count skips),
                                              pa_packages := sort packages\<rparr>))))))"

subsection \<open>The document\<close>

definition scope_wire_id :: "scope_ref \<Rightarrow> string" where
  "scope_wire_id s = (if sr_id s \<noteq> [] then sr_id s else sr_path s)"

record report_boundary =
  rb_code :: string
  rb_severity :: string
  rb_count :: int

definition boundary_codes :: "string list" where
  "boundary_codes =
     [''EXTERNAL_NOT_NAVIGABLE'', ''CROSS_REPOSITORY_UNAVAILABLE'', ''DEPENDENCY_INTERNALS_UNKNOWN'',
      ''DYNAMIC_RUNTIME_UNKNOWN'']"

fun split_boundaries :: "limitation list \<Rightarrow> report_boundary list \<times> limitation list" where
  "split_boundaries [] = ([], [])"
| "split_boundaries (l # ls) =
     (case split_boundaries ls of (bounds, rest) \<Rightarrow>
        if lm_code l \<in> set boundary_codes
        then (\<lparr>rb_code = lm_code l, rb_severity = lm_severity l, rb_count = lm_count l\<rparr> # bounds, rest)
        else (bounds, l # rest))"

definition cap_list :: "'a list \<Rightarrow> int \<Rightarrow> 'a list" where
  "cap_list xs limit = (if limit > 0 \<and> int (length xs) > limit then take (nat limit) xs else xs)"

record report_details =
  dt_parse_paths :: "string list"
  dt_degraded_units :: "degraded_unit list"
  dt_top_boundaries :: "boundary list"

definition details_block :: "trust_snapshot \<Rightarrow> report_options \<Rightarrow> report_details" where
  "details_block snap opts =
     (if \<not> ro_details opts then \<lparr>dt_parse_paths = [], dt_degraded_units = [], dt_top_boundaries = []\<rparr>
      else \<lparr>dt_parse_paths = cap_list (pf_paths (sn_parse snap)) (ro_limit opts),
            dt_degraded_units = cap_list (tr_degraded_units (sn_types snap)) (ro_limit opts),
            dt_top_boundaries = cap_list (xf_top (sn_external snap)) (ro_limit opts)\<rparr>)"

record report_doc =
  rd_schema :: int
  rd_snapshot_version :: string
  rd_state :: snap_state
  rd_generation :: string
  rd_source_commit :: string
  rd_profile :: string
  rd_binary_commit :: string
  rd_current :: bool
  rd_drift :: "int \<times> int \<times> int"
  rd_scope :: "string \<times> string"
  rd_files_discovered :: int
  rd_files_indexed :: int
  rd_files_skipped :: int
  rd_packages_total :: int
  rd_packages_degraded :: int
  rd_edge_evidence :: tier_counts
  rd_resolved_external :: int
  rd_skipped :: int
  rd_ambiguous :: int
  rd_dropped_intents :: int
  rd_boundaries :: "report_boundary list"
  rd_policy :: "string \<times> string \<times> int \<times> verdict"
  rd_limitations :: "limitation list"
  rd_findings :: "finding list"
  rd_checks_passed :: "string list"
  rd_details :: report_details
  rd_scope_evidence :: scope_facts
  rd_capabilities :: "capability list"
  rd_abstention :: abstention_facts

definition trust_report_schema_version :: int where
  "trust_report_schema_version = 1"

text \<open>
  \<open>probe\<close> is the result of the freshness probe, \<open>opened\<close> and \<open>handle\<close> those of opening the store and
  the sidecar, \<open>again\<close> those of resolving and opening them for the abstention block, \<open>binary_commit\<close> and \<open>registries\<close> what the running binary says of itself.
\<close>

definition compose_trust_report ::
  "(string \<Rightarrow> trust_snapshot option) \<Rightarrow> (string \<Rightarrow> string) \<Rightarrow> (string \<Rightarrow> string) \<Rightarrow> string
     \<Rightarrow> capability_inputs \<Rightarrow> string + probe_report \<Rightarrow> graph_reader option \<Rightarrow> sidecar option
     \<Rightarrow> bool \<times> graph_reader option \<times> sidecar option \<Rightarrow> report_options \<Rightarrow> report_error + report_doc \<times> verdict \<times> snap_state" where
  "compose_trust_report parse_json sha256_hex quote binary_commit registries probe opened handle again opts =
     (case (if ro_policy opts \<noteq> [] then (case policy_by_id (ro_policy opts) of Inl e \<Rightarrow> Inl e | Inr p \<Rightarrow> Inr (Some p))
           else Inr None) of
        Inl e \<Rightarrow> Inl (ReportPolicy e)
      | Inr pol \<Rightarrow>
        (case probe of
           Inl e \<Rightarrow> Inl (ReportProbe e)
         | Inr f \<Rightarrow>
           (case read_trust_facts parse_json sha256_hex quote f opened handle (ro_target opts) of
              Inl e \<Rightarrow> Inl e
            | Inr facts \<Rightarrow>
              (case (case pol of
                       None \<Rightarrow> Some (NoVerdict, ([], [], 0, NoVerdict), sort_findings (tf_resolution facts), [])
                     | Some p \<Rightarrow>
                         map_option (\<lambda>a. (as_verdict a,
                             (pr_id (as_policy a), pr_name (as_policy a), pr_version (as_policy a), as_verdict a),
                             as_findings a, as_checks a))
                           (evaluate_with_scope_facts p (tf_snap facts) (tf_state facts) (tf_scope facts)
                             (tf_scope_facts facts) (tf_resolution facts))) of
                 None \<Rightarrow> Inl ReportRegistryPanic
               | Some (verdict, policy_ref, findings, checks) \<Rightarrow>
                 (case split_boundaries (limitations_from_snapshot (tf_snap facts)) of
                    (boundaries, limitations) \<Rightarrow>
                  Inr (\<lparr>rd_schema = trust_report_schema_version, rd_snapshot_version = snapshot_version,
                     rd_state = tf_state facts, rd_generation = tf_generation facts,
                     rd_source_commit = pb_last_commit f, rd_profile = pb_profile f,
                     rd_binary_commit = binary_commit, rd_current = fr_current f,
                     rd_drift = (pb_added f, pb_changed f, pb_removed f),
                     rd_scope = (sr_kind (tf_scope facts), scope_wire_id (tf_scope facts)),
                     rd_files_discovered = pb_files_cached f + pf_skipped (sn_parse (tf_snap facts)),
                     rd_files_indexed = pb_files_cached f,
                     rd_files_skipped = pf_skipped (sn_parse (tf_snap facts)),
                     rd_packages_total = tr_units_total (sn_types (tf_snap facts)),
                     rd_packages_degraded = tr_units_degraded (sn_types (tf_snap facts)),
                     rd_edge_evidence = gf_by_tier (sn_graph (tf_snap facts)),
                     rd_resolved_external = lf_external (sn_link (tf_snap facts)),
                     rd_skipped = lf_skipped (sn_link (tf_snap facts)),
                     rd_ambiguous = lf_ambiguous (sn_link (tf_snap facts)),
                     rd_dropped_intents = tr_dropped_intents (sn_types (tf_snap facts)),
                     rd_boundaries = boundaries, rd_policy = policy_ref, rd_limitations = limitations,
                     rd_findings = findings, rd_checks_passed = checks,
                     rd_details = details_block (tf_snap facts) opts,
                     rd_scope_evidence = tf_scope_facts facts,
                     rd_capabilities = capabilities registries,
                     rd_abstention = (case again of (resolved, st, sc) \<Rightarrow> read_abstention_facts resolved st sc)\<rparr>, verdict, tf_state facts))))))"

subsection \<open>From the verdict back to the stored bytes\<close>

lemma resolved_kind:
  assumes "resolve_scope quote port raw pkg = Inr (sc, fs)" "trim_space raw \<noteq> []"
  shows "sr_kind sc \<noteq> scope_repository"
proof -
  have kinds: "scope_package \<noteq> scope_repository" "scope_file \<noteq> scope_repository" "scope_symbol \<noteq> scope_repository"
    by (simp_all add: scope_package_def scope_repository_def scope_file_def scope_symbol_def)
  have nf: "sr_kind sc \<noteq> scope_repository" if "not_found_scope quote r pkg = Inr (sc, fs)" for r
    using that kinds by (auto simp: not_found_scope_def mk_scope_def Let_def split: if_splits sum.splits)
  show ?thesis
    using assms kinds nf by (auto simp: resolve_scope_def Let_def mk_scope_def split: if_splits sum.splits option.splits)
qed

lemma scope_evidence_clean:
  assumes "well_formed_facts (scope_evidence_facts handle g scope)"
    and "scope_clean (scope_evidence_facts handle g scope)"
  obtains s where "handle = Some s" "g \<noteq> []"
    "if sr_kind scope = scope_package then
       \<exists>pe. read_package_evidence s g (sr_id scope) = Inr pe \<and>
         pe_state pe \<in> {package_checked, package_checked_with_errors} \<and> pe_skipped_files pe \<le> 0
     else \<exists>fe. read_file_evidence s g (scope_evidence_path scope) = Inr fe \<and>
         fe_parse_status fe = parse_status_parsed \<and> fe_ambiguous fe \<le> 0 \<and> fe_skipped fe \<le> 0 \<and>
         fe_resolved_external fe \<le> 0"
proof -
  have av: "sc_available (scope_evidence_facts handle g scope)"
    using assms(1) by (auto simp: well_formed_facts_def split: if_splits)
  then obtain s where s: "handle = Some s" "g \<noteq> []"
    by (auto simp: scope_evidence_facts_def no_scope_facts_def split: option.splits if_splits)
  show ?thesis
  proof (rule that [OF s])
    show "if sr_kind scope = scope_package then
       \<exists>pe. read_package_evidence s g (sr_id scope) = Inr pe \<and>
         pe_state pe \<in> {package_checked, package_checked_with_errors} \<and> pe_skipped_files pe \<le> 0
     else \<exists>fe. read_file_evidence s g (scope_evidence_path scope) = Inr fe \<and>
         fe_parse_status fe = parse_status_parsed \<and> fe_ambiguous fe \<le> 0 \<and> fe_skipped fe \<le> 0 \<and>
         fe_resolved_external fe \<le> 0"
    proof (cases "sr_kind scope = scope_package")
      case True
      with av obtain pe where pe: "read_package_evidence s g (sr_id scope) = Inr pe"
        by (auto simp: scope_evidence_facts_def no_scope_facts_def s split: sum.splits if_splits)
      have facts: "sp_state (sc_package (scope_evidence_facts handle g scope)) = pe_state pe"
        "sp_skipped_files (sc_package (scope_evidence_facts handle g scope)) = pe_skipped_files pe"
        "sf_parse_status (sc_file (scope_evidence_facts handle g scope)) = []"
        using av True pe by (auto simp: scope_evidence_facts_def no_scope_facts_def s zero_file_facts_def split: if_splits)
      show ?thesis
        using assms True pe by (auto simp: well_formed_facts_def scope_clean_def scope_skip_def
            scope_degraded_def facts Let_def not_sym [OF statuses_distinct(3)] split: if_splits)
    next
      case False
      with av obtain fe where fe: "read_file_evidence s g (scope_evidence_path scope) = Inr fe"
        by (auto simp: scope_evidence_facts_def no_scope_facts_def s Let_def split: sum.splits if_splits)
      have p: "scope_evidence_path scope \<noteq> []"
        using av False by (auto simp: scope_evidence_facts_def no_scope_facts_def s Let_def split: if_splits)
      have facts: "sf_parse_status (sc_file (scope_evidence_facts handle g scope)) = fe_parse_status fe"
        "sf_ambiguous (sc_file (scope_evidence_facts handle g scope)) = fe_ambiguous fe"
        "sf_skipped (sc_file (scope_evidence_facts handle g scope)) = fe_skipped fe"
        "sf_resolved_external (sc_file (scope_evidence_facts handle g scope)) = fe_resolved_external fe"
        "sp_state (sc_package (scope_evidence_facts handle g scope)) = []"
        using p False fe s by (auto simp: scope_evidence_facts_def Let_def zero_package_facts_def)
      show ?thesis
        using assms False fe by (auto simp: well_formed_facts_def scope_clean_def scope_skip_def facts Let_def split: if_splits)
    qed
  qed
qed

lemma read_facts_current:
  assumes "read_trust_facts pj sha quote f opened handle target = Inr facts" "tf_state facts = state_current"
  obtains store raw where "opened = Some store" "live_generation store = Inr (tf_generation facts)"
    "fr_current f" "\<not> fr_full_pass_in_progress f" "\<not> fr_lock_held f"
    "gs_metadata store meta_snapshot = Inr raw"
    "gs_metadata store meta_snapshot_digest = Inr (trust_digest sha raw)"
    "gs_metadata store meta_snapshot_generation = Inr (tf_generation facts)"
    "pj raw = Some (tf_snap facts)" "gr_full_pass (sn_generation (tf_snap facts)) = tf_generation facts"
    "if trim_space target = [] then
       tf_scope facts = mk_scope scope_repository [] [] [] [] \<and> tf_resolution facts = []
     else \<exists>lookups. resolve_scope quote (gs_lookup store) target lookups = Inr (tf_scope facts, tf_resolution facts) \<and>
       tf_scope_facts facts = scope_evidence_facts handle (tf_generation facts) (tf_scope facts)"
proof -
  have "fr_exists f" using assms by (auto simp: read_trust_facts_def unavailable_facts_def split: if_splits)
  then obtain store where st: "opened = Some store"
    using assms by (auto simp: read_trust_facts_def unavailable_facts_def split: option.splits)
  obtain gen where g: "live_generation store = Inr gen"
    using assms \<open>fr_exists f\<close> st by (auto simp: read_trust_facts_def split: sum.splits)
  obtain snap sta err where ev: "trust_evaluate pj sha (gs_metadata store) (gs_stats store) (freshness_of f) gen = (snap, sta, err)"
    by (metis prod_cases3)
  have err: "err = None"
    using assms \<open>fr_exists f\<close> st g ev by (cases err) (simp_all add: read_trust_facts_def)
  let ?facts = "(unavailable_facts target)\<lparr>tf_snap := snap, tf_state := sta, tf_generation := gen\<rparr>"
  let ?g = "gr_full_pass (sn_generation snap)"
  let ?lookups = "case handle of None \<Rightarrow> []
      | Some s \<Rightarrow> if ?g \<noteq> [] then [Some (sidecar_lookup_package s ?g)] else []"
  have eq: "(if trim_space target = [] then Inr ?facts
      else (case resolve_scope quote (gs_lookup store) target ?lookups of
              Inl err \<Rightarrow> Inl (ReportTarget err)
            | Inr (scope, resolution) \<Rightarrow> Inr (?facts\<lparr>tf_scope := scope, tf_resolution := resolution,
                tf_scope_facts := scope_evidence_facts handle ?g scope\<rparr>))) = Inr facts"
    using assms(1) \<open>fr_exists f\<close> st g ev err unfolding read_trust_facts_def Let_def by simp
  have base: "tf_snap facts = snap" "tf_state facts = sta" "tf_generation facts = gen"
    using eq by (auto split: if_splits sum.splits)
  have cur: "trust_evaluate pj sha (gs_metadata store) (gs_stats store) (freshness_of f) gen = (snap, state_current, None)"
    using ev err base assms(2) by simp
  note v = evaluate_current_facts [OF cur]
  then obtain raw where raw: "gs_metadata store meta_snapshot = Inr raw"
      "gs_metadata store meta_snapshot_digest = Inr (trust_digest sha raw)"
      "gs_metadata store meta_snapshot_generation = Inr gen" "pj raw = Some snap" "?g = gen"
    by blast
  have fr: "fr_current f" "\<not> fr_full_pass_in_progress f" "\<not> fr_lock_held f"
    using v by (simp_all add: freshness_report.truncate_def)
  have scope: "if trim_space target = [] then
       tf_scope facts = mk_scope scope_repository [] [] [] [] \<and> tf_resolution facts = []
     else \<exists>lookups. resolve_scope quote (gs_lookup store) target lookups = Inr (tf_scope facts, tf_resolution facts) \<and>
       tf_scope_facts facts = scope_evidence_facts handle (tf_generation facts) (tf_scope facts)"
  proof (cases "trim_space target = []")
    case True
    then have "facts = ?facts" using eq by simp
    then show ?thesis using True by (simp add: unavailable_facts_def unresolved_scope_def)
  next
    case False
    then obtain sc fs where r: "resolve_scope quote (gs_lookup store) target ?lookups = Inr (sc, fs)"
        "facts = ?facts\<lparr>tf_scope := sc, tf_resolution := fs, tf_scope_facts := scope_evidence_facts handle ?g sc\<rparr>"
      using eq by (auto split: sum.splits)
    have "tf_scope facts = sc" "tf_resolution facts = fs" "tf_scope_facts facts = scope_evidence_facts handle gen sc"
      using r(2) raw(5) by simp_all
    then show ?thesis using False r(1) base(3) by auto
  qed
  show ?thesis using that [OF st _ fr raw(1,2) _ _ _ scope] g raw(3,4,5) base by simp
qed

lemma compose_cases:
  assumes "compose_trust_report pj sha quote bc reg probe opened handle again opts = Inr (doc, v, st)"
    and "ro_policy opts \<noteq> []"
  obtains p f facts a where "policy_by_id (ro_policy opts) = Inr p" "probe = Inr f"
    "read_trust_facts pj sha quote f opened handle (ro_target opts) = Inr facts"
    "evaluate_with_scope_facts p (tf_snap facts) (tf_state facts) (tf_scope facts) (tf_scope_facts facts)
       (tf_resolution facts) = Some a"
    "v = as_verdict a" "st = tf_state facts" "rd_generation doc = tf_generation facts" "rd_state doc = st"
    "rd_findings doc = as_findings a" "rd_scope_evidence doc = tf_scope_facts facts"
proof -
  obtain p where p: "policy_by_id (ro_policy opts) = Inr p"
    using assms by (auto simp: compose_trust_report_def split: sum.splits)
  obtain f where f: "probe = Inr f"
    using assms p by (auto simp: compose_trust_report_def split: sum.splits)
  obtain facts where r: "read_trust_facts pj sha quote f opened handle (ro_target opts) = Inr facts"
    using assms p f by (auto simp: compose_trust_report_def split: sum.splits)
  obtain a where a: "evaluate_with_scope_facts p (tf_snap facts) (tf_state facts) (tf_scope facts) (tf_scope_facts facts)
       (tf_resolution facts) = Some a"
    using assms p f r by (auto simp: compose_trust_report_def split: option.splits)
  obtain bs ls where b: "split_boundaries (limitations_from_snapshot (tf_snap facts)) = (bs, ls)"
    by fastforce
  show ?thesis
    using assms by (intro that [OF p f r a]) (auto simp: compose_trust_report_def p f r a b)
qed

text \<open>
  C23: an automated-change PASS of the whole report, traced back: the stored bytes match
  their stored digest and decode to the judged snapshot, snapshot, stamp and graph carry one
  generation, nothing has drifted, and either the repository is clean or the target resolved
  without a finding and its own evidence row of that generation is clean.
\<close>

theorem report_pass_is_grounded:
  assumes "compose_trust_report pj sha quote bc reg probe opened handle again opts = Inr (doc, Pass, st)"
    and "ro_policy opts = ''automated-change-v1''"
  shows "\<exists>f store raw snap. probe = Inr f \<and> opened = Some store \<and> st = state_current \<and>
    fr_current f \<and> \<not> fr_full_pass_in_progress f \<and> \<not> fr_lock_held f \<and>
    live_generation store = Inr (rd_generation doc) \<and>
    gs_metadata store meta_snapshot = Inr raw \<and>
    gs_metadata store meta_snapshot_digest = Inr (trust_digest sha raw) \<and>
    gs_metadata store meta_snapshot_generation = Inr (rd_generation doc) \<and>
    pj raw = Some snap \<and> gr_full_pass (sn_generation snap) = rd_generation doc \<and>
    (if trim_space (ro_target opts) = [] then repo_clean snap
     else \<exists>s lookups scope. handle = Some s \<and>
       resolve_scope quote (gs_lookup store) (ro_target opts) lookups = Inr (scope, []) \<and> scope_resolved scope \<and>
       (if sr_kind scope = scope_package then
          \<exists>pe. read_package_evidence s (rd_generation doc) (sr_id scope) = Inr pe \<and>
            pe_state pe \<in> {package_checked, package_checked_with_errors} \<and> pe_skipped_files pe \<le> 0
        else \<exists>fe. read_file_evidence s (rd_generation doc) (scope_evidence_path scope) = Inr fe \<and>
            fe_parse_status fe = parse_status_parsed \<and> fe_ambiguous fe \<le> 0 \<and> fe_skipped fe \<le> 0 \<and>
            fe_resolved_external fe \<le> 0))"
proof -
  have ne: "ro_policy opts \<noteq> []" using assms(2) by simp
  obtain p f facts a where c: "policy_by_id (ro_policy opts) = Inr p" "probe = Inr f"
      "read_trust_facts pj sha quote f opened handle (ro_target opts) = Inr facts"
      "evaluate_with_scope_facts p (tf_snap facts) (tf_state facts) (tf_scope facts) (tf_scope_facts facts)
         (tf_resolution facts) = Some a"
      "Pass = as_verdict a" "st = tf_state facts" "rd_generation doc = tf_generation facts"
    using compose_cases [OF assms(1) ne] by metis
  have p: "p = policy_automated_change" using c(1) assms(2) policy_by_id_exact [of "''automated-change-v1''"] by simp
  have j: "a = judged policy_automated_change
      (inputs (tf_snap facts) (tf_state facts) (tf_scope facts) (tf_scope_facts facts) (tf_resolution facts))"
    using c(4) by (simp add: p evaluate_judged)
  note pass = c(5) [symmetric, unfolded j automated_passes, simplified]
  obtain store raw where r: "opened = Some store" "live_generation store = Inr (tf_generation facts)"
    "fr_current f" "\<not> fr_full_pass_in_progress f" "\<not> fr_lock_held f"
    "gs_metadata store meta_snapshot = Inr raw"
    "gs_metadata store meta_snapshot_digest = Inr (trust_digest sha raw)"
    "gs_metadata store meta_snapshot_generation = Inr (tf_generation facts)"
    "pj raw = Some (tf_snap facts)" "gr_full_pass (sn_generation (tf_snap facts)) = tf_generation facts"
    "if trim_space (ro_target opts) = [] then
       tf_scope facts = mk_scope scope_repository [] [] [] [] \<and> tf_resolution facts = []
     else \<exists>lookups. resolve_scope quote (gs_lookup store) (ro_target opts) lookups = Inr (tf_scope facts, tf_resolution facts) \<and>
       tf_scope_facts facts = scope_evidence_facts handle (tf_generation facts) (tf_scope facts)"
    using pass by (elim conjE) (rule read_facts_current [OF c(3)])
  have scope: "if trim_space (ro_target opts) = [] then repo_clean (tf_snap facts)
     else \<exists>s lookups scope. handle = Some s \<and>
       resolve_scope quote (gs_lookup store) (ro_target opts) lookups = Inr (scope, []) \<and> scope_resolved scope \<and>
       (if sr_kind scope = scope_package then
          \<exists>pe. read_package_evidence s (tf_generation facts) (sr_id scope) = Inr pe \<and>
            pe_state pe \<in> {package_checked, package_checked_with_errors} \<and> pe_skipped_files pe \<le> 0
        else \<exists>fe. read_file_evidence s (tf_generation facts) (scope_evidence_path scope) = Inr fe \<and>
            fe_parse_status fe = parse_status_parsed \<and> fe_ambiguous fe \<le> 0 \<and> fe_skipped fe \<le> 0 \<and>
            fe_resolved_external fe \<le> 0)"
  proof (cases "trim_space (ro_target opts) = []")
    case True
    then show ?thesis using r(11) pass by (simp add: mk_scope_def)
  next
    case False
    then obtain lookups where l: "resolve_scope quote (gs_lookup store) (ro_target opts) lookups = Inr (tf_scope facts, [])"
        "tf_scope_facts facts = scope_evidence_facts handle (tf_generation facts) (tf_scope facts)"
      using r(11) pass by auto
    have cl: "scope_resolved (tf_scope facts)" "well_formed_facts (tf_scope_facts facts)" "scope_clean (tf_scope_facts facts)"
      using pass resolved_kind [OF l(1) False] by simp_all
    obtain s where "handle = Some s" "if sr_kind (tf_scope facts) = scope_package then
          \<exists>pe. read_package_evidence s (tf_generation facts) (sr_id (tf_scope facts)) = Inr pe \<and>
            pe_state pe \<in> {package_checked, package_checked_with_errors} \<and> pe_skipped_files pe \<le> 0
        else \<exists>fe. read_file_evidence s (tf_generation facts) (scope_evidence_path (tf_scope facts)) = Inr fe \<and>
            fe_parse_status fe = parse_status_parsed \<and> fe_ambiguous fe \<le> 0 \<and> fe_skipped fe \<le> 0 \<and>
            fe_resolved_external fe \<le> 0"
      using scope_evidence_clean [OF cl(2,3) [unfolded l(2)]] by blast
    then show ?thesis unfolding if_not_P [OF False] using l(1) cl(1) by blast
  qed
  show ?thesis unfolding c(7) using r(1-10) scope pass c(2,6) by blast
qed

subsection \<open>Failing closed\<close>

lemma read_facts_unavailable:
  assumes "\<not> fr_exists f \<or> opened = None"
  shows "read_trust_facts pj sha quote f opened handle target = Inr (unavailable_facts target)"
  using assms by (auto simp: read_trust_facts_def)

text \<open>
  the report fails closed: an unknown policy is refused whatever the graph's
  condition, and a repository without a readable store still gets a document, UNAVAILABLE, without
  generation or evidence, whose requested policy says at best UNVERIFIED and explains itself.
\<close>

theorem report_fails_closed:
  "(ro_policy opts \<notin> {[], ''exploratory-v1'', ''review-v1'', ''automated-change-v1''} \<longrightarrow>
      compose_trust_report pj sha quote bc reg probe opened handle again opts =
        Inl (ReportPolicy (ErrPolicyUnknown (ro_policy opts)))) \<and>
   (ro_policy opts \<in> {[], ''exploratory-v1'', ''review-v1'', ''automated-change-v1''} \<and> probe = Inr f \<and>
      (\<not> fr_exists f \<or> opened = None) \<longrightarrow>
    (\<exists>doc v. compose_trust_report pj sha quote bc reg probe opened handle again opts = Inr (doc, v, state_unavailable) \<and>
       rd_state doc = state_unavailable \<and> rd_generation doc = [] \<and> rd_scope_evidence doc = no_scope_facts \<and>
       (if ro_policy opts = [] then v = NoVerdict \<and> rd_findings doc = []
        else verdict_rank v \<ge> verdict_rank Unverified \<and> rd_findings doc \<noteq> [])))"
proof (intro conjI impI)
  assume "ro_policy opts \<notin> {[], ''exploratory-v1'', ''review-v1'', ''automated-change-v1''}"
  then show "compose_trust_report pj sha quote bc reg probe opened handle again opts =
        Inl (ReportPolicy (ErrPolicyUnknown (ro_policy opts)))"
    using policy_by_id_exact [of "ro_policy opts"] by (simp add: compose_trust_report_def)
next
  assume a: "ro_policy opts \<in> {[], ''exploratory-v1'', ''review-v1'', ''automated-change-v1''} \<and> probe = Inr f \<and>
      (\<not> fr_exists f \<or> opened = None)"
  then have r: "read_trust_facts pj sha quote f opened handle (ro_target opts) = Inr (unavailable_facts (ro_target opts))"
    and pr: "probe = Inr f" by (simp_all add: read_facts_unavailable)
  let ?u = "unavailable_facts (ro_target opts)"
  obtain bs ls where b: "split_boundaries (limitations_from_snapshot (tf_snap ?u)) = (bs, ls)" by fastforce
  have u: "tf_state ?u = state_unavailable" "tf_generation ?u = []" "tf_scope_facts ?u = no_scope_facts"
    "tf_resolution ?u = []" by (simp_all add: unavailable_facts_def)
  show "\<exists>doc v. compose_trust_report pj sha quote bc reg probe opened handle again opts = Inr (doc, v, state_unavailable) \<and>
       rd_state doc = state_unavailable \<and> rd_generation doc = [] \<and> rd_scope_evidence doc = no_scope_facts \<and>
       (if ro_policy opts = [] then v = NoVerdict \<and> rd_findings doc = []
        else verdict_rank v \<ge> verdict_rank Unverified \<and> rd_findings doc \<noteq> [])"
  proof (cases "ro_policy opts = []")
    case True
    then show ?thesis by (simp add: compose_trust_report_def pr r b u sort_findings_def)
  next
    case False
    then obtain p where p: "policy_by_id (ro_policy opts) = Inr p" "p \<in> set policies"
      using a policy_by_id_exact [of "ro_policy opts"] by auto
    let ?i = "inputs (tf_snap ?u) state_unavailable (tf_scope ?u) no_scope_facts []"
    have ev: "evaluate_with_scope_facts p (tf_snap ?u) (tf_state ?u) (tf_scope ?u) (tf_scope_facts ?u) (tf_resolution ?u)
        = Some (judged p ?i)"
      unfolding u by (rule evaluate_judged [OF p(2)])
    have "state_unavailable \<noteq> state_current" by simp
    then have v: "verdict_rank (as_verdict (judged p ?i)) \<ge> verdict_rank Unverified"
      using state_floor [OF p(2), of state_unavailable "tf_snap ?u" "tf_scope ?u" no_scope_facts "[]"]
      by (simp add: evaluate_judged [OF p(2)])
    then have "as_verdict (judged p ?i) \<noteq> Pass" by auto
    then have "as_findings (judged p ?i) \<noteq> []" by (rule judged_explained(3) [OF p(2)])
    with False v show ?thesis by (simp add: compose_trust_report_def pr r b ev p(1)) (simp add: u)
  qed
qed

subsection \<open>The abstention block\<close>

lemma sorted_skips_set:
  "s \<in> set (sorted_skips m) \<longleftrightarrow> fmlookup m (ak_name s) = Some (ak_count s) \<and> ak_count s > 0"
proof -
  have "s \<in> set (sorted_skips m) \<longleftrightarrow>
      (\<exists>k. k |\<in>| fmdom m \<and> the (fmlookup m k) > 0 \<and> s = \<lparr>ak_name = k, ak_count = the (fmlookup m k)\<rparr>)"
    unfolding sorted_skips_def by auto
  also have "\<dots> \<longleftrightarrow> fmlookup m (ak_name s) = Some (ak_count s) \<and> ak_count s > 0"
  proof
    assume "\<exists>k. k |\<in>| fmdom m \<and> the (fmlookup m k) > 0 \<and> s = \<lparr>ak_name = k, ak_count = the (fmlookup m k)\<rparr>"
    then show "fmlookup m (ak_name s) = Some (ak_count s) \<and> ak_count s > 0" by (auto elim: fmdomE)
  next
    assume "fmlookup m (ak_name s) = Some (ak_count s) \<and> ak_count s > 0"
    then show "\<exists>k. k |\<in>| fmdom m \<and> the (fmlookup m k) > 0 \<and> s = \<lparr>ak_name = k, ak_count = the (fmlookup m k)\<rparr>"
      by (intro exI [of _ "ak_name s"]) (auto intro: fmdomI)
  qed
  finally show ?thesis .
qed

lemma sorted_skips_ascending: "ssorted (map ak_name (sorted_skips m))"
proof -
  have "map ak_name (sorted_skips m) = filter (\<lambda>k. the (fmlookup m k) > 0) (sorted_list_of_fset (fmdom m))"
    unfolding sorted_skips_def by (simp add: o_def)
  moreover have "ssorted (sorted_list_of_fset (fmdom m))" by (simp add: sorted_list_of_fset.rep_eq)
  ultimately show ?thesis by (simp add: sorted_wrt_filter)
qed

lemma skips_of_lookup: "fmlookup (skips_of m l) n = fmlookup m (l, n)"
proof -
  let ?ks = "filter (\<lambda>k. fst k = l) (sorted_list_of_fset (fmdom m))"
  have d: "distinct (map fst (map (\<lambda>k. (snd k, the (fmlookup m k))) ?ks))"
  proof -
    have "inj_on snd (set ?ks)" by (auto simp: inj_on_def prod_eq_iff)
    moreover have "distinct ?ks" by (simp add: sorted_list_of_fset.rep_eq)
    ultimately show ?thesis by (simp add: o_def distinct_map)
  qed
  show ?thesis
  proof (cases "fmlookup m (l, n)")
    case None
    then have "n \<notin> fst ` set (map (\<lambda>k. (snd k, the (fmlookup m k))) ?ks)"
      by (auto elim!: fmdomE)
    then show ?thesis using None by (simp add: skips_of_def fmlookup_of_list map_of_eq_None_iff)
  next
    case (Some c)
    then have "(n, c) \<in> set (map (\<lambda>k. (snd k, the (fmlookup m k))) ?ks)"
      by (auto simp: image_iff intro!: bexI [of _ "(l, n)"] fmdomI)
    then show ?thesis using Some d by (simp add: skips_of_def fmlookup_of_list map_of_eq_Some_iff del: map_map)
  qed
qed

lemma language_skips_lookup:
  "language_skips s g = Inr m \<Longrightarrow> fmlookup m (l, n) = fmlookup (sd_skips s) (g, l, n)"
  by (auto simp: language_skips_def flat_lookup split: option.splits if_splits sum.splits)

lemma open_evidence_gen: "open_evidence resolved opened handle = Inr h \<Longrightarrow> eh_gen h \<noteq> []"
  by (auto simp: open_evidence_def split: if_splits option.splits sum.splits)

lemma provenance_served:
  assumes "g \<noteq> []"
  shows "(\<exists>rs. skip_provenance s g = Inr rs) \<longleftrightarrow> 6 \<le> sd_version s \<and> (g, []) |\<in>| sd_provenance s"
    and "skip_provenance s g = Inr rs \<Longrightarrow> set rs = {l. l \<noteq> [] \<and> (g, l) |\<in>| sd_provenance s}"
proof -
  let ?L = "sorted_list_of_fset (snd |`| ffilter (\<lambda>(h, l). h = g) (sd_provenance s))"
  have L: "set ?L = {l. (g, l) |\<in>| sd_provenance s}" by force
  then have e: "[] \<in> set ?L \<longleftrightarrow> (g, []) |\<in>| sd_provenance s" by blast
  show "(\<exists>rs. skip_provenance s g = Inr rs) \<longleftrightarrow> 6 \<le> sd_version s \<and> (g, []) |\<in>| sd_provenance s"
    using assms e by (simp add: skip_provenance_def evidence_ready_at_def skip_provenance_schema_version_def Let_def)
  assume "skip_provenance s g = Inr rs"
  then have "rs = filter (\<lambda>l. l \<noteq> []) ?L"
    using assms by (auto simp: skip_provenance_def evidence_ready_at_def Let_def split: if_splits)
  then show "set rs = {l. l \<noteq> [] \<and> (g, l) |\<in>| sd_provenance s}" using L by auto
qed

lemma skips_served:
  assumes "g \<noteq> []" "skip_provenance s g = Inr rs"
  obtains m where "language_skips s g = Inr m"
proof -
  have "6 \<le> sd_version s" using assms provenance_served(1) by blast
  then show ?thesis using assms that
    by (simp add: language_skips_def evidence_ready_at_def language_skips_schema_version_def)
qed

lemma entry_fields [simp]:
  "al_language (abstention_entry m l) = l" "al_skips (abstention_entry m l) = sorted_skips (skips_of m l)"
  "al_total (abstention_entry m l) = sum_list (map ak_count (sorted_skips (skips_of m l)))"
  by (simp_all add: abstention_entry_def Let_def)

text \<open>
  the abstention block over an opened store: it is available exactly when a pass
  recorded the live generation, it then names exactly that pass's registrants and every positive
  counter under its language and name, in order and with the right totals; otherwise it carries
  a reason and no number at all.
\<close>

theorem abstention_block_spec:
  assumes "open_evidence resolved opened handle = Inr h"
  shows "(ab_available (read_abstention_facts resolved opened handle) \<longleftrightarrow>
      6 \<le> sd_version (eh_sidecar h) \<and> (eh_gen h, []) |\<in>| sd_provenance (eh_sidecar h)) \<and>
    (\<not> ab_available (read_abstention_facts resolved opened handle) \<longrightarrow>
      ab_reason (read_abstention_facts resolved opened handle) \<noteq> [] \<and>
      ab_registrants (read_abstention_facts resolved opened handle) = [] \<and>
      ab_languages (read_abstention_facts resolved opened handle) = []) \<and>
    (ab_available (read_abstention_facts resolved opened handle) \<longrightarrow>
      set (ab_registrants (read_abstention_facts resolved opened handle)) =
        {l. l \<noteq> [] \<and> (eh_gen h, l) |\<in>| sd_provenance (eh_sidecar h)} \<and>
      ssorted (map al_language (ab_languages (read_abstention_facts resolved opened handle))) \<and>
      (\<forall>e \<in> set (ab_languages (read_abstention_facts resolved opened handle)).
         al_total e = sum_list (map ak_count (al_skips e)) \<and> ssorted (map ak_name (al_skips e))) \<and>
      (\<forall>l n c. (\<exists>e \<in> set (ab_languages (read_abstention_facts resolved opened handle)).
           al_language e = l \<and> \<lparr>ak_name = n, ak_count = c\<rparr> \<in> set (al_skips e)) \<longleftrightarrow>
         fmlookup (sd_skips (eh_sidecar h)) (eh_gen h, l, n) = Some c \<and> c > 0))"
proof -
  let ?b = "read_abstention_facts resolved opened handle"
  let ?s = "eh_sidecar h" and ?g = "eh_gen h"
  note g = open_evidence_gen [OF assms]
  show ?thesis
  proof (cases "skip_provenance ?s ?g")
    case (Inl e)
    then have b: "?b = no_abstention\<lparr>ab_reason := unavailable_reason_for e\<rparr>"
      by (simp add: read_abstention_facts_def assms)
    have na: "\<not> ab_available ?b" "ab_registrants ?b = []" "ab_languages ?b = []"
      by (simp_all add: b no_abstention_def)
    have "ab_reason ?b \<noteq> []" by (cases e) (simp_all add: b no_abstention_def)
    then show ?thesis using na provenance_served(1) [OF g, of ?s] Inl by simp
  next
    case (Inr rs)
    obtain m where m: "language_skips ?s ?g = Inr m" by (rule skips_served [OF g Inr])
    have b: "?b = no_abstention\<lparr>ab_available := True, ab_registrants := rs,
                      ab_languages := map (abstention_entry m) (skip_languages m)\<rparr>"
      by (simp add: read_abstention_facts_def assms Inr m)
    have f: "ab_available ?b" "ab_registrants ?b = rs" "ab_languages ?b = map (abstention_entry m) (skip_languages m)"
      by (simp_all add: b no_abstention_def)
    have "map al_language (ab_languages ?b) = skip_languages m" unfolding f by (simp add: o_def)
    then have sl: "ssorted (map al_language (ab_languages ?b))"
      by (simp add: skip_languages_def sorted_list_of_fset.rep_eq)
    have te: "\<forall>e \<in> set (ab_languages ?b). al_total e = sum_list (map ak_count (al_skips e)) \<and> ssorted (map ak_name (al_skips e))"
      unfolding f by (auto simp: sorted_skips_ascending)
    have cnt: "(\<exists>e \<in> set (ab_languages ?b). al_language e = l \<and> \<lparr>ak_name = n, ak_count = c\<rparr> \<in> set (al_skips e)) \<longleftrightarrow>
         fmlookup (sd_skips ?s) (?g, l, n) = Some c \<and> c > 0" for l n c
    proof -
      have "(\<exists>e \<in> set (ab_languages ?b). al_language e = l \<and> \<lparr>ak_name = n, ak_count = c\<rparr> \<in> set (al_skips e)) \<longleftrightarrow>
          l \<in> set (skip_languages m) \<and> fmlookup m (l, n) = Some c \<and> c > 0"
        unfolding f by (auto simp: sorted_skips_set skips_of_lookup)
      moreover have "l \<in> set (skip_languages m)" if "fmlookup m (l, n) = Some c"
        using fmdomI [OF that] by (force simp: skip_languages_def)
      ultimately show ?thesis using language_skips_lookup [OF m] by auto
    qed
    show ?thesis
      using f provenance_served [OF g, of ?s] Inr sl te cnt by simp
  qed
qed

subsection \<open>The limitation split\<close>

text \<open>
  the limitation list reaches the document undivided: every entry lands in exactly one of
  the two wire lists, in the builder's order, the boundary codes in the first and all others,
  unchanged, in the second; each report carries the two standing boundaries.
\<close>

theorem limitations_split_without_loss:
  "split_boundaries (limitations_from_snapshot snap) =
     (map (\<lambda>l. \<lparr>rb_code = lm_code l, rb_severity = lm_severity l, rb_count = lm_count l\<rparr>)
        (filter (\<lambda>l. lm_code l \<in> set boundary_codes) (limitations_from_snapshot snap)),
      filter (\<lambda>l. lm_code l \<notin> set boundary_codes) (limitations_from_snapshot snap))"
proof -
  have "split_boundaries ls =
     (map (\<lambda>l. \<lparr>rb_code = lm_code l, rb_severity = lm_severity l, rb_count = lm_count l\<rparr>)
        (filter (\<lambda>l. lm_code l \<in> set boundary_codes) ls), filter (\<lambda>l. lm_code l \<notin> set boundary_codes) ls)" for ls
    by (induction ls) simp_all
  then show ?thesis .
qed

subsection \<open>Witnesses\<close>

definition one_reader :: graph_reader where
  "one_reader = \<lparr>gs_metadata = (\<lambda>k. if k = live_generation_key then Inr ''g1'' else doc_metadata k),
     gs_stats = Some (\<lambda>_. Inr empty_stats),
     gs_lookup = Some (\<lambda>q. Inr [], \<lambda>p. Inr [])\<rparr>"

definition one_probe :: probe_report where
  "one_probe = freshness_report.extend settled
     \<lparr>pb_files_cached = 1, pb_profile = [], pb_last_commit = [], pb_added = 0, pb_changed = 0, pb_removed = 0, pb_recommendation = []\<rparr>"

theorem abstention_block_spec_witness:
  "ab_available (read_abstention_facts True (Some one_reader) (Some one_pass)) \<and>
   set (ab_registrants (read_abstention_facts True (Some one_reader) (Some one_pass))) = {''java''}"
proof -
  let ?h = "\<lparr>eh_store = one_reader, eh_sidecar = one_pass, eh_gen = ''g1''\<rparr>"
  have o: "open_evidence True (Some one_reader) (Some one_pass) = Inr ?h"
    by (simp add: open_evidence_def live_generation_def one_reader_def)
  have langs: "set (semantic_languages one_run) = {''java''}"
    by (simp add: semantic_languages_def one_run_def)
  have p: "fset (sd_provenance one_pass) = {(''g1'', []), (''g1'', ''java'')}"
    unfolding one_pass_def full_pass_provenance langs by auto
  have "sd_version one_pass = 6"
    unfolding one_pass_def by (simp add: one_pass_version)
  moreover have "(''g1'', []) |\<in>| sd_provenance one_pass" using p by simp
  ultimately have av: "ab_available (read_abstention_facts True (Some one_reader) (Some one_pass))"
    using abstention_block_spec [OF o] by simp
  moreover have "{l. l \<noteq> [] \<and> (''g1'', l) |\<in>| sd_provenance one_pass} = {''java''}" using p by auto
  ultimately show ?thesis using abstention_block_spec [OF o] by simp
qed

definition no_registries :: capability_inputs where
  "no_registries = \<lparr>ci_languages = [], ci_type_checked = [], ci_cross_file_linked = [], ci_symbol_extraction = fmempty\<rparr>"

definition gate_options :: report_options where
  "gate_options = \<lparr>ro_target = [], ro_policy = ''automated-change-v1'', ro_details = False, ro_limit = 0\<rparr>"

lemma one_report_current:
  "trust_evaluate one_doc id (gs_metadata one_reader) (gs_stats one_reader) settled ''g1'' =
     (empty_snapshot, state_current, None)"
  by (simp add: trust_evaluate_def trust_load_def doc_metadata_def trust_digest_def trust_decode_def one_doc_def
      one_reader_def live_generation_key_def meta_snapshot_def meta_snapshot_digest_def meta_snapshot_generation_def)
    (simp add: derive_current_iff empty_snapshot_def zero_snapshot_def settled_def empty_stats_def
       snapshot_schema_version_def)

lemma one_report_passes:
  "\<exists>doc. compose_trust_report one_doc id id [] reg (Inr one_probe) (Some one_reader) None (False, None, None)
     gate_options = Inr (doc, Pass, state_current)"
proof -
  have t: "trim_space [] = []" by code_simp
  let ?facts = "(unavailable_facts [])\<lparr>tf_snap := empty_snapshot, tf_state := state_current, tf_generation := ''g1''\<rparr>"
  have f: "freshness_of one_probe = settled" "fr_exists one_probe"
    by (simp_all add: one_probe_def freshness_report.defs settled_def)
  have l: "live_generation one_reader = Inr ''g1''" by (simp add: live_generation_def one_reader_def)
  have r: "read_trust_facts one_doc id id one_probe (Some one_reader) None [] = Inr ?facts"
    by (simp add: read_trust_facts_def f l one_report_current t)
  have p: "policy_by_id ''automated-change-v1'' = Inr policy_automated_change"
    using policy_by_id_exact [of "''automated-change-v1''"] by simp
  have clean: "repo_clean empty_snapshot"
    by (simp add: repo_clean_def empty_snapshot_def zero_snapshot_def heuristic_only_def parse_skip_evidence_def
        degraded_evidence_def new_graph_facts_def empty_stats_def count_at_def Let_def)
  have s: "tf_scope ?facts = mk_scope scope_repository [] [] [] []" "tf_resolution ?facts = []"
    by (simp_all add: unavailable_facts_def unresolved_scope_def t)
  let ?a = "judged policy_automated_change (inputs (tf_snap ?facts) (tf_state ?facts) (tf_scope ?facts)
      (tf_scope_facts ?facts) (tf_resolution ?facts))"
  have pass: "as_verdict ?a = Pass"
    unfolding automated_passes s using clean by (simp add: mk_scope_def)
  obtain bs ls where b: "split_boundaries (limitations_from_snapshot (tf_snap ?facts)) = (bs, ls)" by fastforce
  have ev: "evaluate_with_scope_facts policy_automated_change (tf_snap ?facts) (tf_state ?facts) (tf_scope ?facts)
      (tf_scope_facts ?facts) (tf_resolution ?facts) = Some ?a"
    by (rule evaluate_judged) simp
  have "policy_by_id (ro_policy gate_options) = Inr policy_automated_change" "ro_policy gate_options \<noteq> []"
    "ro_target gate_options = []" using p by (simp_all add: gate_options_def)
  then show ?thesis unfolding compose_trust_report_def
    by (simp only: r ev b pass if_True if_False sum.case option.case prod.case option.map not_False_eq_True) simp
qed

theorem report_pass_is_grounded_witness:
  "\<exists>doc. compose_trust_report one_doc id id [] no_registries
     (Inr one_probe) (Some one_reader) None (False, None, None) gate_options = Inr (doc, Pass, state_current) \<and>
     rd_generation doc = ''g1''"
proof -
  obtain doc where d: "compose_trust_report one_doc id id [] no_registries
     (Inr one_probe) (Some one_reader) None (False, None, None) gate_options = Inr (doc, Pass, state_current)"
    using one_report_passes by blast
  have "ro_policy gate_options = ''automated-change-v1''" by (simp add: gate_options_def)
  from report_pass_is_grounded [OF d this]
  have "live_generation one_reader = Inr (rd_generation doc)" by auto
  then show ?thesis using d by (auto simp: live_generation_def one_reader_def)
qed

theorem report_fails_closed_witness:
  "compose_trust_report one_doc id id [] no_registries
     (Inr one_probe) None None (False, None, None) (gate_options\<lparr>ro_policy := ''review''\<rparr>) =
     Inl (ReportPolicy (ErrPolicyUnknown ''review'')) \<and>
   (\<exists>doc. compose_trust_report one_doc id id [] no_registries
     (Inr one_probe) None None (False, None, None) (gate_options\<lparr>ro_policy := []\<rparr>) = Inr (doc, NoVerdict, state_unavailable))"
  using report_fails_closed [of "gate_options\<lparr>ro_policy := ''review''\<rparr>" one_doc id id "[]"
      no_registries "Inr one_probe" None None "(False, None, None)" one_probe]
    report_fails_closed [of "gate_options\<lparr>ro_policy := []\<rparr>" one_doc id id "[]"
      no_registries "Inr one_probe" None None "(False, None, None)" one_probe]
  by simp blast

end
