(* ===== verification/WarmStart.thy ===== *)
theory WarmStart
  imports TrustReport
begin

text \<open>
  The passes of the ingester as protocols over two databases (\<open>engine/ingest\<close>: \<open>warmstart.go\<close>,
  \<open>trust_persist.go\<close>, the order of writes of \<open>ingest.go\<close>; \<open>internal/freshness\<close> with its probe).  A pass
  is a program of durable writes; each write is one SQLite transaction and happens whole or not at
  all.  A crash and a write that fails both stop the program before a write, so one bound on the
  number of writes ranges over every failure of a pass.  What a batch writes into the graph, and
  what parsing and linking report, are inputs of the pass.  A read of the metadata of an open store
  fails only with \<open>ErrNotFound\<close>.
\<close>

subsection \<open>The two databases\<close>

record 'g disk =
  dk_graph :: 'g
  dk_meta :: "(string, string) fmap"
  dk_sem :: "(string, string) fmap"
  dk_cache :: "(string, string) fmap"
  dk_dirty :: "string fset"
  dk_evidence :: sidecar

datatype ('g, 'a) prog =
    Ret 'a
  | Get "'g disk \<Rightarrow> ('g, 'a) prog"
  | Put "'g disk \<Rightarrow> 'g disk" "('g, 'a) prog"

primrec bind_prog :: "('g, 'a) prog \<Rightarrow> ('a \<Rightarrow> ('g, 'b) prog) \<Rightarrow> ('g, 'b) prog" where
  "bind_prog (Ret a) k = k a"
| "bind_prog (Get f) k = Get (\<lambda>d. bind_prog (f d) k)"
| "bind_prog (Put w p) k = Put w (bind_prog p k)"

text \<open>Runs at most \<open>n\<close> writes: the disk, and the result with the writes left over if it returned.\<close>

primrec run :: "('g, 'a) prog \<Rightarrow> nat \<Rightarrow> 'g disk \<Rightarrow> 'g disk \<times> ('a \<times> nat) option" where
  "run (Ret a) = (\<lambda>n d. (d, Some (a, n)))"
| "run (Get f) = (\<lambda>n d. run (f d) n d)"
| "run (Put w p) = (\<lambda>n d. case n of 0 \<Rightarrow> (d, None) | Suc k \<Rightarrow> run p k (w d))"

definition after :: "('g, 'a) prog \<Rightarrow> nat \<Rightarrow> 'g disk \<Rightarrow> 'g disk" where
  "after p n d = fst (run p n d)"

datatype ingest_error =
    ErrIngestStore store_error
  | ErrStamp string
  | ErrPrepare string
  | ErrBatch string
  | ErrTaint string
  | ErrEncode
  | ErrMarkerChanged
  | ErrReprocessedParse
  | ErrDrift string

type_synonym 'g pass = "('g, ingest_error + unit) prog"

text \<open>Sequencing that stops at the first error, as \<open>if err != nil { return err }\<close> does.\<close>

definition bind_ok :: "'g pass \<Rightarrow> 'g pass \<Rightarrow> 'g pass" where
  "bind_ok m k = bind_prog m (\<lambda>r. case r of Inl e \<Rightarrow> Ret (Inl e) | Inr u \<Rightarrow> k)"

primrec steps :: "'g pass list \<Rightarrow> 'g pass" where
  "steps [] = Ret (Inr ())"
| "steps (m # ms) = bind_ok m (steps ms)"

abbreviation put :: "('g disk \<Rightarrow> 'g disk) \<Rightarrow> 'g pass" where
  "put w \<equiv> Put w (Ret (Inr ()))"

definition set_meta :: "string \<Rightarrow> string \<Rightarrow> 'g disk \<Rightarrow> 'g disk" where
  "set_meta k v d = d\<lparr>dk_meta := fmupd k v (dk_meta d)\<rparr>"

definition set_sem :: "string \<Rightarrow> string \<Rightarrow> 'g disk \<Rightarrow> 'g disk" where
  "set_sem k v d = d\<lparr>dk_sem := fmupd k v (dk_sem d)\<rparr>"

definition meta_of :: "'g disk \<Rightarrow> string \<Rightarrow> store_error + string" where
  "meta_of d k = (case fmlookup (dk_meta d) k of None \<Rightarrow> Inl ErrNotFound | Some v \<Rightarrow> Inr v)"

subsection \<open>The sync stamp\<close>

definition meta_sync_time :: string where "meta_sync_time = ''sync.last_time''"
definition meta_sync_branch :: string where "meta_sync_branch = ''sync.branch''"
definition meta_sync_commit :: string where "meta_sync_commit = ''sync.commit''"

text \<open>\<open>parse_time\<close> is \<open>time.Parse(time.RFC3339, \<cdot>)\<close>: \<open>None\<close> stands for \<open>ok = false\<close>.\<close>

definition last_sync ::
  "(string \<Rightarrow> 't option) \<Rightarrow> (string \<Rightarrow> store_error + string) \<Rightarrow> ('t \<times> string \<times> string) option" where
  "last_sync parse_time metadata_of =
     (case metadata_of meta_sync_time of
        Inl e \<Rightarrow> None
      | Inr raw \<Rightarrow>
          (case parse_time raw of
             None \<Rightarrow> None
           | Some t \<Rightarrow>
               let read = (\<lambda>k. case metadata_of k of
                     Inl e \<Rightarrow> if e = ErrNotFound then Some [] else None
                   | Inr v \<Rightarrow> Some v)
               in (case read meta_sync_branch of
                     None \<Rightarrow> None
                   | Some branch \<Rightarrow>
                       (case read meta_sync_commit of
                          None \<Rightarrow> None
                        | Some commit \<Rightarrow> Some (t, branch, commit)))))"

subsection \<open>Publishing the trust snapshot\<close>

definition trust_boundary_top_n :: int where
  "trust_boundary_top_n = 16"

definition index_profile_key :: string where
  "index_profile_key = ''index.profile''"

text \<open>
  What the collector and the publisher take from outside: the store's aggregate (\<open>None\<close> without the
  port), \<open>time.Parse\<close>, the JSON encoder and SHA-256.
\<close>

record ('g, 't) trust_env =
  te_aggregate :: "(int \<Rightarrow> 'g \<Rightarrow> store_error + trust_stats) option"
  te_parse_time :: "string \<Rightarrow> 't option"
  te_encode :: "trust_snapshot \<Rightarrow> string option"
  te_sha256 :: "string \<Rightarrow> string"

definition collect_trust_snapshot ::
  "('g, 't) trust_env \<Rightarrow> ingester \<Rightarrow> string \<Rightarrow> 'g disk \<Rightarrow> store_error + trust_snapshot option" where
  "collect_trust_snapshot env i generation d =
     (case te_aggregate env of
        None \<Rightarrow> Inr None
      | Some agg \<Rightarrow>
          (case agg trust_boundary_top_n (dk_graph d) of
             Inl e \<Rightarrow> Inl e
           | Inr stats \<Rightarrow>
               let skips = skipped_diagnostics i;
                   paths = map sd_path skips;
                   by_reason = foldl (\<lambda>m s. bump (sd_reason s) m) fmempty skips;
                   (branch, commit) = (case last_sync (te_parse_time env) (meta_of d) of
                       None \<Rightarrow> ([], []) | Some (t, b, c) \<Rightarrow> (b, c));
                   prof = (if ig_profile i \<noteq> [] then ig_profile i
                           else (case meta_of d index_profile_key of Inl e \<Rightarrow> [] | Inr p \<Rightarrow> p))
               in Inr (Some
                    \<lparr>sn_schema = snapshot_schema_version, sn_version = snapshot_version,
                     sn_generation = \<lparr>gr_full_pass = generation, gr_commit = commit, gr_branch = branch,
                                      gr_profile = prof\<rparr>,
                     sn_graph = new_graph_facts stats, sn_external = new_external_facts stats,
                     sn_link = new_link_facts (ig_link_stats i), sn_parse = new_parse_facts paths by_reason,
                     sn_types = combined_type_resolution_facts i\<rparr>)))"

definition clear_trust_snapshot :: "'g pass" where
  "clear_trust_snapshot =
     bind_ok (put (set_meta meta_snapshot []))
       (bind_ok (put (set_meta meta_snapshot_digest [])) (put (set_meta meta_snapshot_generation [])))"

definition persist_trust_snapshot :: "('g, 't) trust_env \<Rightarrow> ingester \<Rightarrow> string \<Rightarrow> 'g pass" where
  "persist_trust_snapshot env i generation =
     Get (\<lambda>d. case collect_trust_snapshot env i generation d of
        Inl e \<Rightarrow> Ret (Inl (ErrIngestStore e))
      | Inr None \<Rightarrow> clear_trust_snapshot
      | Inr (Some snap) \<Rightarrow>
          (case te_encode env snap of
             None \<Rightarrow> Ret (Inl ErrEncode)
           | Some b \<Rightarrow>
               bind_ok (put (set_meta meta_snapshot b))
                 (bind_ok (put (set_meta meta_snapshot_digest (trust_digest (te_sha256 env) b)))
                   (put (set_meta meta_snapshot_generation generation)))))"

definition persist_trust_snapshot_live :: "('g, 't) trust_env \<Rightarrow> ingester \<Rightarrow> 'g pass" where
  "persist_trust_snapshot_live env i =
     Get (\<lambda>d. case meta_of d graph_full_pass_generation_key of
        Inl e \<Rightarrow> if e = ErrNotFound then Ret (Inr ()) else Ret (Inl (ErrIngestStore e))
      | Inr generation \<Rightarrow>
          if generation = [] then Ret (Inr ()) else persist_trust_snapshot env i generation)"

subsection \<open>The full-pass marker and the warm start\<close>

definition semantics_version_key :: string where "semantics_version_key = ''semantics_version''"
definition full_pass_in_progress_key :: string where "full_pass_in_progress_key = ''full_pass_in_progress''"
definition full_pass_generation_key :: string where "full_pass_generation_key = ''full_pass_generation''"
definition graph_commit_generation_key :: string where "graph_commit_generation_key = ''index.commit_generation''"

definition bump_commit_generation :: "string \<Rightarrow> 'g pass" where
  "bump_commit_generation fresh = put (set_meta graph_commit_generation_key fresh)"

definition can_warm_start :: "string + string \<Rightarrow> 'g disk \<Rightarrow> ingest_error + int \<times> bool" where
  "can_warm_start stamp d =
     (let files = int (fcard (fmdom (dk_cache d)))
      in if files = 0 then Inr (0, False)
         else if fmlookup (dk_sem d) full_pass_in_progress_key \<noteq> None then Inr (files, False)
         else (case fmlookup (dk_sem d) full_pass_generation_key of
            None \<Rightarrow> Inr (files, False)
          | Some meta_generation \<Rightarrow>
              if meta_generation = [] then Inr (files, False)
              else (case meta_of d graph_full_pass_generation_key of
                 Inl e \<Rightarrow> if e = ErrNotFound then Inr (files, False) else Inl (ErrIngestStore e)
               | Inr graph_generation \<Rightarrow>
                   if graph_generation = [] \<or> graph_generation \<noteq> meta_generation then Inr (files, False)
                   else (case fmlookup (dk_sem d) semantics_version_key of
                      None \<Rightarrow> Inr (files, False)
                    | Some v \<Rightarrow>
                        (case stamp of
                           Inl e \<Rightarrow> Inl (ErrStamp e)
                         | Inr st \<Rightarrow> Inr (files, v = st))))))"

definition begin_full_pass :: "string \<Rightarrow> 'g pass" where
  "begin_full_pass generation =
     bind_ok (put (set_sem full_pass_in_progress_key generation))
       (put (set_meta graph_full_pass_generation_key generation))"

definition finish_full_pass :: "string \<Rightarrow> string \<Rightarrow> 'g pass" where
  "finish_full_pass fresh generation =
     bind_ok (bump_commit_generation fresh)
       (Get (\<lambda>d. if fmlookup (dk_sem d) full_pass_in_progress_key = Some generation
          then put (\<lambda>d. d\<lparr>dk_sem := fmdrop full_pass_in_progress_key
                              (fmupd full_pass_generation_key generation (dk_sem d))\<rparr>)
          else Ret (Inl ErrMarkerChanged)))"

definition full_pass_in_progress :: "'g disk \<Rightarrow> bool" where
  "full_pass_in_progress d \<longleftrightarrow> fmlookup (dk_sem d) full_pass_in_progress_key \<noteq> None"

definition ingest_semantics_version :: string where
  "ingest_semantics_version = ''12''"

text \<open>The fingerprints of the ignore scope and of the taint configuration, or the error reading them.\<close>

definition semantics_stamp :: "string + string \<Rightarrow> string + string \<Rightarrow> string + string" where
  "semantics_stamp ignore_fp taint_hash =
     (case ignore_fp of
        Inl e \<Rightarrow> Inl e
      | Inr fp \<Rightarrow>
          let stamp = ingest_semantics_version @ (if fp \<noteq> [] then ''+ig:'' @ fp else [])
          in (case taint_hash of
                Inl e \<Rightarrow> Inl e
              | Inr h \<Rightarrow> Inr (stamp @ (if h \<noteq> [] then ''+taint:'' @ h else []))))"

subsection \<open>The full pass\<close>

record 'g full_input =
  fi_stamp_before :: "string + string"
  fi_prepare :: "string option"
  fi_generation :: string
  fi_commit_generation :: string
  fi_node_batch :: "'g \<Rightarrow> string + 'g"
  fi_link_batch :: "'g \<Rightarrow> string + 'g"
  fi_semantic_batch :: "'g \<Rightarrow> string + 'g"
  fi_cache :: "(string, string) fmap"
  fi_stamp_after :: "string + string"
  fi_taint :: "string + string"
  fi_profile :: string
  fi_units :: "string list"
  fi_parsed :: "parsed_file option list"
  fi_signals :: ingester

definition intraproc_taint_key :: string where
  "intraproc_taint_key = ''analysis.intraproc_taint.v1''"

text \<open>One batched write session: computed from the committed graph, committed as a whole.\<close>

definition batch_commit :: "('g \<Rightarrow> string + 'g) \<Rightarrow> 'g pass" where
  "batch_commit b =
     Get (\<lambda>d. case b (dk_graph d) of
        Inl e \<Rightarrow> Ret (Inl (ErrBatch e))
      | Inr g \<Rightarrow> put (\<lambda>d. d\<lparr>dk_graph := g\<rparr>))"

text \<open>The sidecar's own transaction; it commits after the three graph batches.\<close>

definition stamp_and_cache :: "'g full_input \<Rightarrow> 'g pass" where
  "stamp_and_cache inp =
     (case fi_stamp_after inp of
        Inl e \<Rightarrow> Ret (Inl (ErrStamp e))
      | Inr stamp \<Rightarrow>
          put (\<lambda>d. d\<lparr>dk_cache := fi_cache inp, dk_dirty := {||},
                     dk_sem := fmupd semantics_version_key stamp (dk_sem d)\<rparr>))"

definition persist_taint :: "string + string \<Rightarrow> 'g pass" where
  "persist_taint t =
     (case t of Inl e \<Rightarrow> Ret (Inl (ErrTaint e)) | Inr enc \<Rightarrow> put (set_meta intraproc_taint_key enc))"

definition profile_balanced :: string where
  "profile_balanced = ''balanced''"

definition ingest_all :: "('g, 't) trust_env \<Rightarrow> 'g full_input \<Rightarrow> 'g pass" where
  "ingest_all env inp =
     (case fi_stamp_before inp of
        Inl e \<Rightarrow> Ret (Inl (ErrStamp e))
      | Inr st \<Rightarrow>
     (case fi_prepare inp of
        Some e \<Rightarrow> Ret (Inl (ErrPrepare e))
      | None \<Rightarrow>
          steps
            [begin_full_pass (fi_generation inp),
             batch_commit (fi_node_batch inp),
             batch_commit (fi_link_batch inp),
             batch_commit (fi_semantic_batch inp),
             stamp_and_cache inp,
             persist_taint (fi_taint inp),
             put (set_meta index_profile_key (if fi_profile inp = [] then profile_balanced else fi_profile inp)),
             persist_trust_snapshot env (fi_signals inp) (fi_generation inp),
             put (\<lambda>d. d\<lparr>dk_evidence := fst (persist_trust_evidence_full None (fi_signals inp)
                    (fi_generation inp) (fi_units inp) (fi_parsed inp) (dk_evidence d))\<rparr>),
             finish_full_pass (fi_commit_generation inp) (fi_generation inp)]))"

subsection \<open>The incremental pass\<close>

record 'g inc_input =
  ii_prepare :: "string option"
  ii_dirty :: "string fset"
  ii_commit_generation :: string
  ii_node_batch :: "'g \<Rightarrow> string + 'g"
  ii_purge_batch :: "('g \<Rightarrow> string + 'g) option"
  ii_link_batch :: "'g \<Rightarrow> string + 'g"
  ii_sweep :: "'g \<Rightarrow> string + 'g"
  ii_reprocessed_parse_error :: bool
  ii_semantic_batch :: "('g \<Rightarrow> string + 'g) option"
  ii_upserts :: "(string, string) fmap"
  ii_removed :: "string list"
  ii_taint :: "string + string"
  ii_touched :: "string list"
  ii_languages :: "(string, string) fmap"
  ii_signals :: ingester

definition optional_batch :: "('g \<Rightarrow> string + 'g) option \<Rightarrow> 'g pass" where
  "optional_batch b = (case b of None \<Rightarrow> Ret (Inr ()) | Some f \<Rightarrow> batch_commit f)"

text \<open>The second transaction: the rows of the processed and the vanished files, and their dirty flags.\<close>

definition phase_two :: "'g inc_input \<Rightarrow> 'g disk \<Rightarrow> 'g disk" where
  "phase_two inp d =
     d\<lparr>dk_cache := fmdrop_fset (fset_of_list (ii_removed inp)) (dk_cache d ++\<^sub>f ii_upserts inp),
       dk_dirty := dk_dirty d |-| fmdom (ii_upserts inp) |-| fset_of_list (ii_removed inp)\<rparr>"

definition ingest_changed :: "('g, 't) trust_env \<Rightarrow> 'g inc_input \<Rightarrow> 'g pass" where
  "ingest_changed env inp =
     (case ii_prepare inp of
        Some e \<Rightarrow> Ret (Inl (ErrPrepare e))
      | None \<Rightarrow>
          steps
            [put (\<lambda>d. d\<lparr>dk_dirty := dk_dirty d |\<union>| ii_dirty inp\<rparr>),
             bump_commit_generation (ii_commit_generation inp),
             batch_commit (ii_node_batch inp),
             optional_batch (ii_purge_batch inp),
             batch_commit (ii_link_batch inp),
             batch_commit (ii_sweep inp),
             if ii_reprocessed_parse_error inp then Ret (Inl ErrReprocessedParse) else Ret (Inr ()),
             optional_batch (ii_semantic_batch inp),
             put (phase_two inp),
             persist_taint (ii_taint inp),
             persist_trust_snapshot_live env (ii_signals inp),
             Get (\<lambda>d. case persist_trust_evidence_live None (meta_of d) (ii_signals inp) (ii_touched inp)
                    (ii_languages inp) (ii_removed inp) (dk_evidence d) of
                 (s, Some e) \<Rightarrow> Ret (Inl (ErrIngestStore e))
               | (s, None) \<Rightarrow> put (\<lambda>d. d\<lparr>dk_evidence := s\<rparr>))])"

subsection \<open>Drift and the freshness probe\<close>

record drift =
  dr_added :: "string list"
  dr_modified :: "string list"
  dr_deleted :: "string list"

definition drift_total :: "drift \<Rightarrow> int" where
  "drift_total d = int (length (dr_added d) + length (dr_modified d) + length (dr_deleted d))"

text \<open>\<open>units\<close> are the walked paths with the hashes of their contents.\<close>

definition drift_detail :: "(string \<times> string) list \<Rightarrow> 'g disk \<Rightarrow> drift" where
  "drift_detail units d =
     \<lparr>dr_added = sort (map fst (filter (\<lambda>(p, h). fmlookup (dk_cache d) p = None) units)),
      dr_modified = sort (map fst (filter (\<lambda>(p, h).
          case fmlookup (dk_cache d) p of None \<Rightarrow> False | Some c \<Rightarrow> c \<noteq> h) units)),
      dr_deleted = sort (filter (\<lambda>p. p \<notin> fst ` set units) (sorted_list_of_fset (fmdom (dk_cache d))))\<rparr>"

definition drift_set :: "(string \<times> string) list \<Rightarrow> 'g disk \<Rightarrow> string list \<times> string list" where
  "drift_set units d =
     (let dr = drift_detail units d in (sort (dr_added dr @ dr_modified dr), dr_deleted dr))"

text \<open>
  The probe.  \<open>opened\<close> and \<open>observed\<close> say whether the store and the sidecar could be opened,
  \<open>lock_held\<close> what the ingest lock showed (\<open>None\<close>: it could not be asked), \<open>walked\<close> is the walk.
\<close>

definition compute_probe ::
  "(string \<Rightarrow> 't option) \<Rightarrow> bool \<Rightarrow> bool \<Rightarrow> string + string \<Rightarrow> bool option \<Rightarrow> string + (string \<times> string) list
     \<Rightarrow> 'g disk \<Rightarrow> string + probe_report" where
  "compute_probe parse_time opened observed stamp lock_held walked d =
     (let r0 = \<lparr>fr_exists = False, fr_warm_startable = False, fr_full_pass_in_progress = False,
                fr_lock_held = False, fr_current = False, pb_files_cached = 0, pb_profile = [],
                pb_last_commit = [], pb_added = 0, pb_changed = 0, pb_removed = 0, pb_recommendation = []\<rparr>
      in if \<not> opened then Inr (r0\<lparr>pb_recommendation := ''run 'graphi sync' to build the graph''\<rparr>)
         else
           let r1 = r0\<lparr>fr_exists := True,
                 pb_profile := (case meta_of d index_profile_key of Inl e \<Rightarrow> [] | Inr p \<Rightarrow> p),
                 pb_last_commit := (case last_sync parse_time (meta_of d) of
                     None \<Rightarrow> [] | Some (t, b, c) \<Rightarrow> c)\<rparr>
           in if \<not> observed then Inr (r1\<lparr>pb_recommendation := ''run 'graphi sync' to build the graph''\<rparr>)
              else
                let (files, warm) = (case can_warm_start stamp d of
                      Inl e \<Rightarrow> (int (fcard (fmdom (dk_cache d))), False) | Inr res \<Rightarrow> res);
                    r2 = r1\<lparr>pb_files_cached := files\<rparr>
                in if \<not> warm then
                     let r3 = r2\<lparr>fr_full_pass_in_progress := full_pass_in_progress d,
                           fr_lock_held := (case lock_held of None \<Rightarrow> False | Some h \<Rightarrow> h)\<rparr>
                     in Inr (r3\<lparr>pb_recommendation :=
                          (if fr_full_pass_in_progress r3 \<and> fr_lock_held r3 then
                             ''wait for the running index to finish '' @ em_dash @
                             '' another graphi process is building it''
                           else if fr_full_pass_in_progress r3 then
                             ''run 'graphi index' to rebuild now with visible progress (the previous index did not complete)''
                           else ''run 'graphi rebuild' to re-certify the graph'')\<rparr>)
                   else (case walked of
                      Inl e \<Rightarrow> Inl e
                    | Inr units \<Rightarrow>
                        let r3 = r2\<lparr>fr_warm_startable := True\<rparr>; dr = drift_detail units d;
                            r4 = r3\<lparr>pb_added := int (length (dr_added dr)),
                                    pb_changed := int (length (dr_modified dr)),
                                    pb_removed := int (length (dr_deleted dr))\<rparr>
                        in Inr (if drift_total dr = 0 then r4\<lparr>fr_current := True\<rparr>
                             else r4\<lparr>pb_recommendation := ''run 'graphi sync' to update the graph''\<rparr>)))"

subsection \<open>Reasoning about every failure point\<close>

text \<open>
  \<open>wp p I Q d\<close>: wherever \<open>p\<close> stops on \<open>d\<close> the disk satisfies \<open>I\<close>, and if it returns, its result and the
  disk satisfy \<open>Q\<close>.
\<close>

primrec wp :: "('g, 'a) prog \<Rightarrow> ('g disk \<Rightarrow> bool) \<Rightarrow> ('a \<Rightarrow> 'g disk \<Rightarrow> bool) \<Rightarrow> 'g disk \<Rightarrow> bool" where
  "wp (Ret a) = (\<lambda>I Q d. Q a d)"
| "wp (Get f) = (\<lambda>I Q d. wp (f d) I Q d)"
| "wp (Put w p) = (\<lambda>I Q d. I d \<and> wp p I Q (w d))"

primrec writes :: "('g, 'a) prog \<Rightarrow> 'g disk \<Rightarrow> nat" where
  "writes (Ret a) = (\<lambda>d. 0)"
| "writes (Get f) = (\<lambda>d. writes (f d) d)"
| "writes (Put w p) = (\<lambda>d. Suc (writes p (w d)))"

lemma wp_run:
  "wp p I Q d \<longleftrightarrow> (\<forall>n. case run p n d of (d', None) \<Rightarrow> I d' | (d', Some (a, k)) \<Rightarrow> Q a d')"
proof (induction p arbitrary: d)
  case (Put w p)
  show ?case
  proof
    assume wp: "wp (Put w p) I Q d"
    show "\<forall>n. case run (Put w p) n d of (d', None) \<Rightarrow> I d' | (d', Some (a, k)) \<Rightarrow> Q a d'"
    proof
      fix n show "case run (Put w p) n d of (d', None) \<Rightarrow> I d' | (d', Some (a, k)) \<Rightarrow> Q a d'"
        using wp Put.IH [of "w d"] by (cases n) simp_all
    qed
  next
    assume r: "\<forall>n. case run (Put w p) n d of (d', None) \<Rightarrow> I d' | (d', Some (a, k)) \<Rightarrow> Q a d'"
    have "I d" using spec [OF r, of 0] by simp
    moreover have "case run p k (w d) of (d', None) \<Rightarrow> I d' | (d', Some (a, k)) \<Rightarrow> Q a d'" for k
      using spec [OF r, of "Suc k"] by simp
    ultimately show "wp (Put w p) I Q d" using Put.IH [of "w d"] by simp
  qed
qed simp_all

primrec final :: "('g, 'a) prog \<Rightarrow> 'g disk \<Rightarrow> 'a \<times> 'g disk" where
  "final (Ret a) = (\<lambda>d. (a, d))"
| "final (Get f) = (\<lambda>d. final (f d) d)"
| "final (Put w p) = (\<lambda>d. final p (w d))"

lemma run_final:
  "writes p d \<le> n \<Longrightarrow> run p n d = (snd (final p d), Some (fst (final p d), n - writes p d))"
proof (induction p arbitrary: n d)
  case (Put w p)
  then show ?case by (cases n) simp_all
qed simp_all

lemma run_short: "n < writes p d \<Longrightarrow> snd (run p n d) = None"
proof (induction p arbitrary: n d)
  case (Put w p)
  then show ?case by (cases n) simp_all
qed simp_all

lemma run_returns_iff: "(\<exists>d' a k. run p n d = (d', Some (a, k))) \<longleftrightarrow> writes p d \<le> n"
  using run_final [of p d n] run_short [of n p d] by (cases "writes p d \<le> n") auto

lemma wp_bind: "wp (bind_prog m k) I Q d = wp m I (\<lambda>a. wp (k a) I Q) d"
  by (induction m arbitrary: d) simp_all

lemma wp_bind_ok:
  "wp (bind_ok m k) I Q d =
     wp m I (\<lambda>r d'. case r of Inl e \<Rightarrow> Q (Inl e) d' | Inr u \<Rightarrow> wp k I Q d') d"
  unfolding bind_ok_def wp_bind by (rule arg_cong [where f = "\<lambda>x. wp m I x d"]) (auto split: sum.split)

lemma wp_mono:
  "wp p I Q d \<Longrightarrow> (\<And>d. I d \<Longrightarrow> I' d) \<Longrightarrow> (\<And>a d. Q a d \<Longrightarrow> Q' a d) \<Longrightarrow> wp p I' Q' d"
  by (induction p arbitrary: d) auto

lemma wp_after:
  assumes "wp p I Q d" "\<And>d. I d \<Longrightarrow> R d" "\<And>a d. Q a d \<Longrightarrow> R d"
  shows "R (after p n d)"
proof -
  have w: "\<forall>n. case run p n d of (d', None) \<Rightarrow> I d' | (d', Some (a, k)) \<Rightarrow> Q a d'"
    using assms(1) by (rule iffD1 [OF wp_run])
  show ?thesis using spec [OF w, of n] assms(2,3) by (auto simp: after_def split: prod.splits option.splits)
qed

lemma wp_result:
  "wp p I Q d \<Longrightarrow> run p n d = (d', Some (a, k)) \<Longrightarrow> Q a d'"
  by (drule iffD1 [OF wp_run], drule spec [of _ n]) simp

definition preserves :: "('g disk \<Rightarrow> bool) \<Rightarrow> 'g pass \<Rightarrow> bool" where
  "preserves P p \<longleftrightarrow> (\<forall>d. P d \<longrightarrow> wp p P (\<lambda>r. P) d)"

lemma preserves_Ret [intro, simp]: "preserves P (Ret a)"
  by (simp add: preserves_def)

lemma preserves_put [intro]: "(\<And>d. P d \<Longrightarrow> P (w d)) \<Longrightarrow> preserves P (put w)"
  by (simp add: preserves_def)

lemma preserves_Get [intro]: "(\<And>d. P d \<Longrightarrow> preserves P (f d)) \<Longrightarrow> preserves P (Get f)"
  by (simp add: preserves_def)

lemma preserves_bind_ok [intro]:
  assumes "preserves P m" "preserves P k"
  shows "preserves P (bind_ok m k)"
proof -
  have "wp m P (\<lambda>r d'. case r of Inl e \<Rightarrow> P d' | Inr u \<Rightarrow> wp k P (\<lambda>r. P) d') d" if "P d" for d
  proof (rule wp_mono)
    show "wp m P (\<lambda>r. P) d" using assms(1) that by (simp add: preserves_def)
    show "case r of Inl e \<Rightarrow> P d' | Inr u \<Rightarrow> wp k P (\<lambda>r. P) d'" if "P d'" for r d'
      using that assms(2) by (cases r) (simp_all add: preserves_def)
  qed simp
  then show ?thesis by (simp add: preserves_def wp_bind_ok)
qed

lemma preserves_steps: "(\<And>m. m \<in> set ms \<Longrightarrow> preserves P m) \<Longrightarrow> preserves P (steps ms)"
  by (induction ms) auto

lemma wp_step:
  assumes "preserves P m" "P d" "\<And>d. P d \<Longrightarrow> I d" "\<And>e d. P d \<Longrightarrow> Q (Inl e) d"
    and "\<And>d. P d \<Longrightarrow> wp (steps ms) I Q d"
  shows "wp (steps (m # ms)) I Q d"
  unfolding steps.simps wp_bind_ok
proof (rule wp_mono)
  show "wp m P (\<lambda>r. P) d" using assms(1,2) by (simp add: preserves_def)
  show "case r of Inl e \<Rightarrow> Q (Inl e) d' | Inr u \<Rightarrow> wp (steps ms) I Q d'" if "P d'" for r d'
    using that assms(4,5) by (cases r) auto
qed (rule assms(3))

subsection \<open>The open marker guards the pass\<close>

abbreviation marker_of :: "'g disk \<Rightarrow> string option" where
  "marker_of d \<equiv> fmlookup (dk_sem d) full_pass_in_progress_key"

abbreviation sealed_of :: "'g disk \<Rightarrow> string option" where
  "sealed_of d \<equiv> fmlookup (dk_sem d) full_pass_generation_key"

abbreviation graph_generation_of :: "'g disk \<Rightarrow> string option" where
  "graph_generation_of d \<equiv> fmlookup (dk_meta d) graph_full_pass_generation_key"

lemma meta_keys_differ [simp]:
  "meta_snapshot \<noteq> graph_full_pass_generation_key" "meta_snapshot_digest \<noteq> graph_full_pass_generation_key"
  "meta_snapshot_generation \<noteq> graph_full_pass_generation_key" "intraproc_taint_key \<noteq> graph_full_pass_generation_key"
  "index_profile_key \<noteq> graph_full_pass_generation_key" "graph_commit_generation_key \<noteq> graph_full_pass_generation_key"
  "meta_snapshot \<noteq> meta_snapshot_digest" "meta_snapshot \<noteq> meta_snapshot_generation"
  "meta_snapshot_digest \<noteq> meta_snapshot_generation" "graph_commit_generation_key \<noteq> meta_snapshot"
  "graph_commit_generation_key \<noteq> meta_snapshot_digest" "graph_commit_generation_key \<noteq> meta_snapshot_generation"
  by (simp_all add: meta_snapshot_def meta_snapshot_digest_def meta_snapshot_generation_def
      graph_full_pass_generation_key_def intraproc_taint_key_def index_profile_key_def graph_commit_generation_key_def)

lemmas meta_keys_differ' [simp] = meta_keys_differ [symmetric]

lemma sem_keys_differ [simp]:
  "full_pass_in_progress_key \<noteq> full_pass_generation_key" "full_pass_in_progress_key \<noteq> semantics_version_key"
  "full_pass_generation_key \<noteq> semantics_version_key" "full_pass_generation_key \<noteq> full_pass_in_progress_key"
  "semantics_version_key \<noteq> full_pass_in_progress_key" "semantics_version_key \<noteq> full_pass_generation_key"
  by (simp_all add: full_pass_in_progress_key_def full_pass_generation_key_def semantics_version_key_def)

lemma set_meta_fields [simp]:
  "dk_graph (set_meta k v d) = dk_graph d" "dk_sem (set_meta k v d) = dk_sem d" "dk_cache (set_meta k v d) = dk_cache d"
  "dk_evidence (set_meta k v d) = dk_evidence d" "dk_dirty (set_meta k v d) = dk_dirty d"
  "dk_meta (set_meta k v d) = fmupd k v (dk_meta d)"
  by (simp_all add: set_meta_def)

lemma set_sem_fields [simp]:
  "dk_graph (set_sem k v d) = dk_graph d" "dk_meta (set_sem k v d) = dk_meta d" "dk_cache (set_sem k v d) = dk_cache d"
  "dk_evidence (set_sem k v d) = dk_evidence d" "dk_dirty (set_sem k v d) = dk_dirty d"
  "dk_sem (set_sem k v d) = fmupd k v (dk_sem d)"
  by (simp_all add: set_sem_def)

definition guarded :: "string \<Rightarrow> 'g disk \<Rightarrow> bool" where
  "guarded gen d \<longleftrightarrow> marker_of d = Some gen \<and> graph_generation_of d = Some gen"

text \<open>A property of the two generations and the marker only, which batches and other keys keep.\<close>

definition binding :: "(string, string) fmap \<Rightarrow> (string, string) fmap
    \<Rightarrow> string option \<times> string option \<times> string option" where
  "binding sem meta = (fmlookup sem full_pass_in_progress_key, fmlookup sem full_pass_generation_key,
     fmlookup meta graph_full_pass_generation_key)"

definition bound :: "'g disk \<Rightarrow> string option \<times> string option \<times> string option" where
  "bound d = binding (dk_sem d) (dk_meta d)"

lemma batch_keeps [keeps]: "preserves (\<lambda>d. P (bound d)) (batch_commit b)"
  unfolding batch_commit_def
  by (rule preserves_Get) (auto simp: bound_def split: sum.split)

lemma optional_batch_keeps [keeps]: "preserves (\<lambda>d. P (bound d)) (optional_batch b)"
  unfolding optional_batch_def by (cases b) (auto intro: batch_keeps)

lemma put_meta_keeps [keeps]:
  "k \<noteq> graph_full_pass_generation_key \<Longrightarrow> preserves (\<lambda>d. P (bound d)) (put (set_meta k v))"
  by (rule preserves_put) (simp add: bound_def binding_def)

lemma taint_keeps [keeps]: "preserves (\<lambda>d. P (bound d)) (persist_taint t)"
  unfolding persist_taint_def by (cases t) (auto intro!: put_meta_keeps)

lemma bump_keeps [keeps]: "preserves (\<lambda>d. P (bound d)) (bump_commit_generation c)"
  unfolding bump_commit_generation_def by (rule put_meta_keeps) simp

lemma persist_snapshot_keeps [keeps]: "preserves (\<lambda>d. P (bound d)) (persist_trust_snapshot env i g)"
  unfolding persist_trust_snapshot_def clear_trust_snapshot_def
  by (rule preserves_Get) (auto split: sum.split option.split intro!: preserves_bind_ok put_meta_keeps)

lemma persist_snapshot_live_keeps [keeps]: "preserves (\<lambda>d. P (bound d)) (persist_trust_snapshot_live env i)"
  unfolding persist_trust_snapshot_live_def
  by (rule preserves_Get) (auto split: sum.split intro: persist_snapshot_keeps)

lemma stamp_and_cache_keeps [keeps]: "preserves (\<lambda>d. P (bound d)) (stamp_and_cache inp)"
  unfolding stamp_and_cache_def
  by (cases "fi_stamp_after inp") (auto intro!: preserves_put simp: bound_def binding_def)

lemma put_other_keeps [keeps]:
  "(\<And>d. dk_sem (w d) = dk_sem d \<and> dk_meta (w d) = dk_meta d) \<Longrightarrow> preserves (\<lambda>d. P (bound d)) (put w)"
  by (rule preserves_put) (simp add: bound_def)

lemma ingest_changed_keeps: "preserves (\<lambda>d. P (bound d)) (ingest_changed env inp)"
proof (cases "ii_prepare inp")
  case None
  have live: "preserves (\<lambda>d. P (bound d))
      (Get (\<lambda>d. case persist_trust_evidence_live None (meta_of d) (ii_signals inp) (ii_touched inp)
                    (ii_languages inp) (ii_removed inp) (dk_evidence d) of
                 (s, Some e) \<Rightarrow> Ret (Inl (ErrIngestStore e))
               | (s, None) \<Rightarrow> put (\<lambda>d. d\<lparr>dk_evidence := s\<rparr>)))"
    by (rule preserves_Get) (auto split: prod.split option.split intro!: put_other_keeps)
  show ?thesis unfolding ingest_changed_def None option.case
    by (rule preserves_steps) (auto intro!: keeps live simp: phase_two_def)
qed (simp add: ingest_changed_def)

lemma ingest_changed_bound: "bound (after (ingest_changed env inp) n d) = bound d"
proof -
  have "wp (ingest_changed env inp) (\<lambda>d'. bound d' = bound d) (\<lambda>r d'. bound d' = bound d) d"
    using ingest_changed_keeps [of "\<lambda>b. b = bound d" env inp] by (simp add: preserves_def)
  then show ?thesis by (rule wp_after)
qed

lemma guarded_bound: "guarded gen d = (\<lambda>(m, s, g). m = Some gen \<and> g = Some gen) (bound d)"
  by (simp add: guarded_def bound_def binding_def)

lemma wp_begin:
  assumes "I d" "I (set_sem full_pass_in_progress_key gen d)"
    and "wp (steps ms) I Q (set_meta graph_full_pass_generation_key gen (set_sem full_pass_in_progress_key gen d))"
  shows "wp (steps (begin_full_pass gen # ms)) I Q d"
  using assms by (simp add: wp_bind_ok begin_full_pass_def)

text \<open>Every failure point of a full pass, and its result.\<close>

lemma ingest_all_wp:
  "wp (ingest_all env inp)
     (\<lambda>d'. d' = d \<or> marker_of d' \<noteq> None)
     (\<lambda>r d'. case r of Inl e \<Rightarrow> d' = d \<or> marker_of d' \<noteq> None
        | Inr u \<Rightarrow> marker_of d' = None \<and> sealed_of d' = Some (fi_generation inp) \<and>
            graph_generation_of d' = Some (fi_generation inp)) d"
proof (cases "fi_stamp_before inp")
  case (Inl e)
  then show ?thesis by (simp add: ingest_all_def)
next
  case (Inr st)
  let ?gen = "fi_generation inp"
  let ?I = "\<lambda>d'. d' = d \<or> marker_of d' \<noteq> None"
  let ?Q = "\<lambda>r d'. case r of Inl e \<Rightarrow> d' = d \<or> marker_of d' \<noteq> None
        | Inr u \<Rightarrow> marker_of d' = None \<and> sealed_of d' = Some ?gen \<and> graph_generation_of d' = Some ?gen"
  show ?thesis
  proof (cases "fi_prepare inp")
    case None
    have g: "\<And>m. preserves (\<lambda>d. (\<lambda>(m, s, g). m = Some ?gen \<and> g = Some ?gen) (bound d)) m \<Longrightarrow> preserves (guarded ?gen) m"
      by (simp add: guarded_bound [abs_def])
    have last: "wp (steps [finish_full_pass (fi_commit_generation inp) ?gen]) ?I ?Q d'" if "guarded ?gen d'" for d'
      using that by (simp add: wp_bind_ok finish_full_pass_def bump_commit_generation_def guarded_def)
    have step: "wp (steps (m # ms)) ?I ?Q d'"
      if m: "preserves (guarded ?gen) m" and ms: "\<And>d'. guarded ?gen d' \<Longrightarrow> wp (steps ms) ?I ?Q d'"
        and d: "guarded ?gen d'" for m ms d'
      by (rule wp_step [OF m d _ _ ms]) (simp_all add: guarded_def)
    have ev: "preserves (guarded ?gen) (put (\<lambda>d. d\<lparr>dk_evidence := fst (persist_trust_evidence_full None
        (fi_signals inp) (fi_generation inp) (fi_units inp) (fi_parsed inp) (dk_evidence d))\<rparr>))"
      by (rule g, rule put_other_keeps) simp
    let ?rest = "[batch_commit (fi_node_batch inp), batch_commit (fi_link_batch inp),
       batch_commit (fi_semantic_batch inp), stamp_and_cache inp, persist_taint (fi_taint inp),
       put (set_meta index_profile_key (if fi_profile inp = [] then profile_balanced else fi_profile inp)),
       persist_trust_snapshot env (fi_signals inp) ?gen,
       put (\<lambda>d. d\<lparr>dk_evidence := fst (persist_trust_evidence_full None
         (fi_signals inp) (fi_generation inp) (fi_units inp) (fi_parsed inp) (dk_evidence d))\<rparr>),
       finish_full_pass (fi_commit_generation inp) ?gen]"
    have rest: "wp (steps ?rest) ?I ?Q d'" if "guarded ?gen d'" for d'
      by (intro step g keeps ev last that meta_keys_differ)
    have "guarded ?gen (set_meta graph_full_pass_generation_key ?gen (set_sem full_pass_in_progress_key ?gen d))"
      by (simp add: guarded_def)
    then have "wp (steps (begin_full_pass ?gen # ?rest)) ?I ?Q d"
      by (intro wp_begin rest) simp_all
    then show ?thesis unfolding ingest_all_def Inr None by (simp only: sum.case option.case)
  qed (simp add: ingest_all_def Inr)
qed

subsection \<open>Reachable disks\<close>

text \<open>
  A disk is certified when a full pass completed on it and only incremental passes, each of them
  whole or cut off anywhere, and sync stamps came after.
\<close>

inductive certified :: "('g, 't) trust_env \<Rightarrow> string \<Rightarrow> 'g disk \<Rightarrow> bool" for env where
  full_pass: "run (ingest_all env inp) n d = (d', Some (Inr (), k)) \<Longrightarrow> certified env (fi_generation inp) d'"
| increment: "certified env g d \<Longrightarrow> certified env g (after (ingest_changed env inp) n d)"
| stamped: "certified env g d \<Longrightarrow> k \<in> {meta_sync_time, meta_sync_branch, meta_sync_commit} \<Longrightarrow>
    certified env g (set_meta k v d)"

inductive reachable :: "('g, 't) trust_env \<Rightarrow> 'g disk \<Rightarrow> bool" for env where
  fresh: "dk_sem d = fmempty \<Longrightarrow> reachable env d"
| full_pass: "reachable env d \<Longrightarrow> reachable env (after (ingest_all env inp) n d)"
| increment: "reachable env d \<Longrightarrow> reachable env (after (ingest_changed env inp) n d)"
| stamped: "reachable env d \<Longrightarrow> k \<in> {meta_sync_time, meta_sync_branch, meta_sync_commit} \<Longrightarrow>
    reachable env (set_meta k v d)"

inductive_cases certified_cases: "certified env g d"

lemma sync_keys_differ:
  "k \<in> {meta_sync_time, meta_sync_branch, meta_sync_commit} \<Longrightarrow> k \<noteq> graph_full_pass_generation_key"
  by (auto simp: meta_sync_time_def meta_sync_branch_def meta_sync_commit_def graph_full_pass_generation_key_def)

lemma sync_stamp_bound: "k \<in> {meta_sync_time, meta_sync_branch, meta_sync_commit} \<Longrightarrow> bound (set_meta k v d) = bound d"
  using sync_keys_differ [of k] by (simp add: bound_def binding_def)

definition sealed_ok :: "('g, 't) trust_env \<Rightarrow> 'g disk \<Rightarrow> bool" where
  "sealed_ok env d \<longleftrightarrow> (\<forall>g. marker_of d = None \<and> sealed_of d = Some g \<longrightarrow>
     graph_generation_of d = Some g \<and> certified env g d)"

lemma bound_parts:
  "bound d = bound d' \<Longrightarrow> marker_of d = marker_of d' \<and> sealed_of d = sealed_of d' \<and>
     graph_generation_of d = graph_generation_of d'"
  by (simp add: bound_def binding_def)

lemma reachable_sealed: "reachable env d \<Longrightarrow> sealed_ok env d"
proof (induction rule: reachable.induct)
  case (fresh d)
  then show ?case by (simp add: sealed_ok_def)
next
  case (full_pass d inp n)
  show ?case
  proof (cases "run (ingest_all env inp) n d")
    case (Pair d' r)
    then have d': "after (ingest_all env inp) n d = d'" by (simp add: after_def)
    note w = ingest_all_wp [of env inp d]
    have early: ?thesis if "d' = d \<or> marker_of d' \<noteq> None"
      using that full_pass.IH unfolding d' by (auto simp: sealed_ok_def)
    show ?thesis
    proof (cases r)
      case None
      have "case run (ingest_all env inp) n d of (d', None) \<Rightarrow> d' = d \<or> marker_of d' \<noteq> None
          | (d', Some (a, k)) \<Rightarrow> (case a of Inl e \<Rightarrow> d' = d \<or> marker_of d' \<noteq> None
             | Inr u \<Rightarrow> marker_of d' = None \<and> sealed_of d' = Some (fi_generation inp) \<and>
                 graph_generation_of d' = Some (fi_generation inp))"
        using iffD1 [OF wp_run w] by (rule spec)
      then show ?thesis unfolding Pair None by (intro early) simp
    next
      case (Some ak)
      obtain a k where ak: "ak = (a, k)" by (cases ak)
      have run: "run (ingest_all env inp) n d = (d', Some (a, k))" using Pair Some ak by simp
      note q = wp_result [OF w run]
      show ?thesis
      proof (cases a)
        case (Inl e)
        then show ?thesis using q by (intro early) simp
      next
        case (Inr u)
        have "certified env (fi_generation inp) d'"
          using certified.full_pass [of env inp n d d' k] run Inr by simp
        then show ?thesis using q Inr unfolding d' by (simp add: sealed_ok_def)
      qed
    qed
  qed
next
  case (increment d inp n)
  then show ?case
    using bound_parts [OF ingest_changed_bound [of env inp n d]] by (auto simp: sealed_ok_def intro: certified.increment)
next
  case (stamped d k v)
  then show ?case
    using bound_parts [OF sync_stamp_bound [OF stamped.hyps(2), of v d]]
    by (auto simp: sealed_ok_def intro: certified.stamped)
qed

lemma warm_start_facts:
  assumes "can_warm_start stamp d = Inr (files, True)"
  obtains g st where "marker_of d = None" "sealed_of d = Some g" "g \<noteq> []" "graph_generation_of d = Some g"
    "stamp = Inr st" "fmlookup (dk_sem d) semantics_version_key = Some st"
    "files = int (fcard (fmdom (dk_cache d)))" "files \<noteq> 0"
  using assms by (auto simp: can_warm_start_def Let_def meta_of_def split: if_splits option.splits sum.splits)

text \<open>
  What an incremental pass leaves in the sidecar, wherever it stops: nothing happened; or the graph may
  be half written, and the cache rows are the old ones with the files of the pass marked dirty; or
  the second transaction happened, with the new rows and the marks of the processed files gone.
\<close>

definition books :: "'g disk \<Rightarrow> (string, string) fmap \<times> string fset" where
  "books d = (dk_cache d, dk_dirty d)"

lemma put_meta_books: "preserves (\<lambda>d. P (books d)) (put (set_meta k v))"
  by (rule preserves_put) (simp add: books_def)

lemma batch_books: "preserves (\<lambda>d. P (books d)) (batch_commit b)"
  unfolding batch_commit_def by (rule preserves_Get) (auto simp: books_def split: sum.split)

lemma optional_batch_books: "preserves (\<lambda>d. P (books d)) (optional_batch b)"
  unfolding optional_batch_def by (cases b) (auto intro: batch_books)

lemma snapshot_live_books: "preserves (\<lambda>d. P (books d)) (persist_trust_snapshot_live env i)"
  unfolding persist_trust_snapshot_live_def persist_trust_snapshot_def clear_trust_snapshot_def
  by (rule preserves_Get)
    (auto split: sum.split option.split intro!: preserves_Get preserves_bind_ok put_meta_books)

lemma evidence_live_books:
  "preserves (\<lambda>d. P (books d))
      (Get (\<lambda>d. case persist_trust_evidence_live None (meta_of d) (ii_signals inp) (ii_touched inp)
                    (ii_languages inp) (ii_removed inp) (dk_evidence d) of
                 (s, Some e) \<Rightarrow> Ret (Inl (ErrIngestStore e))
               | (s, None) \<Rightarrow> put (\<lambda>d. d\<lparr>dk_evidence := s\<rparr>)))"
  by (rule preserves_Get) (auto split: prod.split option.split intro!: preserves_put simp: books_def)

lemmas books_kept = put_meta_books batch_books optional_batch_books snapshot_live_books evidence_live_books

lemma increment_bookkeeping:
  "let d' = after (ingest_changed env inp) n d; marked = dk_dirty d |\<union>| ii_dirty inp
   in d' = d \<or> books d' = (dk_cache d, marked) \<or> books d' = books (phase_two inp (d\<lparr>dk_dirty := marked\<rparr>))"
proof (cases "ii_prepare inp")
  case None
  let ?marked = "dk_dirty d |\<union>| ii_dirty inp"
  let ?Q1 = "\<lambda>d'. books d' = (dk_cache d, ?marked)"
    and ?Q2 = "\<lambda>d'. books d' = books (phase_two inp (d\<lparr>dk_dirty := ?marked\<rparr>))"
  let ?R = "\<lambda>d'. d' = d \<or> ?Q1 d' \<or> ?Q2 d'"
  let ?late = "[persist_taint (ii_taint inp), persist_trust_snapshot_live env (ii_signals inp),
      Get (\<lambda>d. case persist_trust_evidence_live None (meta_of d) (ii_signals inp) (ii_touched inp)
                    (ii_languages inp) (ii_removed inp) (dk_evidence d) of
                 (s, Some e) \<Rightarrow> Ret (Inl (ErrIngestStore e))
               | (s, None) \<Rightarrow> put (\<lambda>d. d\<lparr>dk_evidence := s\<rparr>))]"
  have taint: "preserves ?Q2 (persist_taint (ii_taint inp))"
    unfolding persist_taint_def by (cases "ii_taint inp") (auto intro: put_meta_books)
  have late: "preserves ?Q2 (steps ?late)"
    by (rule preserves_steps) (auto intro: books_kept taint)
  have two: "wp (steps (put (phase_two inp) # ?late)) ?R (\<lambda>r. ?R) d'" if "?Q1 d'" for d'
  proof -
    have "?Q2 (phase_two inp d')" using that by (simp add: books_def phase_two_def)
    then have "wp (steps ?late) ?Q2 (\<lambda>r. ?Q2) (phase_two inp d')" using late by (simp add: preserves_def)
    then have "wp (steps ?late) ?R (\<lambda>r. ?R) (phase_two inp d')" by (rule wp_mono) simp_all
    then show ?thesis using that by (simp add: wp_bind_ok)
  qed
  have step: "wp (steps (m # ms)) ?R (\<lambda>r. ?R) d'"
    if "preserves ?Q1 m" "\<And>d'. ?Q1 d' \<Longrightarrow> wp (steps ms) ?R (\<lambda>r. ?R) d'" "?Q1 d'" for m ms d'
    by (rule wp_step [OF that(1,3) _ _ that(2)]) simp_all
  have bump: "preserves ?Q1 (bump_commit_generation (ii_commit_generation inp))"
    unfolding bump_commit_generation_def by (rule put_meta_books)
  have parse: "preserves ?Q1 (if ii_reprocessed_parse_error inp then Ret (Inl ErrReprocessedParse) else Ret (Inr ()))"
    by simp
  have rest: "wp (steps (bump_commit_generation (ii_commit_generation inp) # batch_commit (ii_node_batch inp) #
      optional_batch (ii_purge_batch inp) # batch_commit (ii_link_batch inp) # batch_commit (ii_sweep inp) #
      (if ii_reprocessed_parse_error inp then Ret (Inl ErrReprocessedParse) else Ret (Inr ())) #
      optional_batch (ii_semantic_batch inp) # put (phase_two inp) # ?late)) ?R (\<lambda>r. ?R) d'" if "?Q1 d'" for d'
    by (intro step books_kept bump parse two that)
  have "wp (ingest_changed env inp) ?R (\<lambda>r. ?R) d"
    unfolding ingest_changed_def None option.case steps.simps(2) [of "put w" for w]
    using rest by (simp add: wp_bind_ok books_def)
  from wp_after [where R = ?R, OF this] show ?thesis by (simp add: Let_def)
qed (simp add: ingest_changed_def after_def)

text \<open>
  C5: whatever sequence of full passes, incremental passes and sync stamps ran before, each
  cut off at any write by an error or a crash, a warm start is granted only when the sidecar's stamp is
  the current one, its cache is not empty, graph and sidecar carry the generation of one full
  pass, and both descend from that pass having run to its end, with nothing written by another
  full pass since.  The incremental passes since may have been cut off: a warm start does not say that
  they finished (lemma \<open>increment_bookkeeping\<close> says what such a pass leaves marked).
\<close>

theorem warm_start_is_certified:
  assumes "reachable env d" "can_warm_start stamp d = Inr (files, True)"
  shows "\<exists>g st. g \<noteq> [] \<and> stamp = Inr st \<and> fmlookup (dk_sem d) semantics_version_key = Some st \<and>
    sealed_of d = Some g \<and> graph_generation_of d = Some g \<and> certified env g d \<and> files > 0"
proof -
  obtain g st where w: "marker_of d = None" "sealed_of d = Some g" "g \<noteq> []" "graph_generation_of d = Some g"
    "stamp = Inr st" "fmlookup (dk_sem d) semantics_version_key = Some st"
    "files = int (fcard (fmdom (dk_cache d)))" "files \<noteq> 0"
    using assms(2) by (rule warm_start_facts)
  have "certified env g d" using reachable_sealed [OF assms(1)] w(1,2) by (simp add: sealed_ok_def)
  then show ?thesis using w by auto
qed

subsection \<open>Length and result of a pass\<close>

lemma writes_bind_ok:
  "writes (bind_ok m k) d = writes m d + (case final m d of (Inl e, d') \<Rightarrow> 0 | (Inr u, d') \<Rightarrow> writes k d')"
  unfolding bind_ok_def by (induction m arbitrary: d) (simp_all split: sum.split)

lemma final_bind_ok:
  "final (bind_ok m k) d = (case final m d of (Inl e, d') \<Rightarrow> (Inl e, d') | (Inr u, d') \<Rightarrow> final k d')"
  unfolding bind_ok_def by (induction m arbitrary: d) (simp_all split: sum.split)

definition at_most :: "nat \<Rightarrow> 'g pass \<Rightarrow> bool" where
  "at_most n p \<longleftrightarrow> (\<forall>d. writes p d \<le> n)"

lemma at_most_bind_ok: "at_most a m \<Longrightarrow> at_most b k \<Longrightarrow> at_most (a + b) (bind_ok m k)"
  unfolding at_most_def writes_bind_ok
  by (intro allI add_mono) (auto split: prod.split sum.split)

lemma at_most_steps: "list_all2 at_most ns ms \<Longrightarrow> at_most (sum_list ns) (steps ms)"
proof (induction rule: list_all2_induct)
  case Nil
  then show ?case by (simp add: at_most_def)
next
  case (Cons n ns m ms)
  then show ?case by (simp add: at_most_bind_ok)
qed

lemma at_most_parts:
  "at_most 0 (Ret r)" "at_most 1 (put w)" "at_most 1 (batch_commit b)" "at_most 1 (optional_batch ob)"
  "at_most 1 (stamp_and_cache inp)" "at_most 1 (persist_taint t)" "at_most 1 (bump_commit_generation c)"
  "at_most 2 (begin_full_pass g)" "at_most 2 (finish_full_pass c g)"
  "at_most 3 (persist_trust_snapshot env i g)" "at_most 3 (persist_trust_snapshot_live env i)"
  by (auto simp: at_most_def batch_commit_def optional_batch_def stamp_and_cache_def persist_taint_def
      bump_commit_generation_def begin_full_pass_def finish_full_pass_def persist_trust_snapshot_def
      clear_trust_snapshot_def persist_trust_snapshot_live_def writes_bind_ok split: sum.split option.split)

lemma full_at_most: "at_most 14 (ingest_all env inp)"
proof (cases "fi_stamp_before inp"; cases "fi_prepare inp")
  fix st assume i: "fi_stamp_before inp = Inr st" "fi_prepare inp = None"
  have "list_all2 at_most [2, 1, 1, 1, 1, 1, 1, 3, 1, 2]
      [begin_full_pass (fi_generation inp), batch_commit (fi_node_batch inp), batch_commit (fi_link_batch inp),
       batch_commit (fi_semantic_batch inp), stamp_and_cache inp, persist_taint (fi_taint inp),
       put (set_meta index_profile_key (if fi_profile inp = [] then profile_balanced else fi_profile inp)),
       persist_trust_snapshot env (fi_signals inp) (fi_generation inp),
       put (\<lambda>d. d\<lparr>dk_evidence := fst (persist_trust_evidence_full None (fi_signals inp)
              (fi_generation inp) (fi_units inp) (fi_parsed inp) (dk_evidence d))\<rparr>),
       finish_full_pass (fi_commit_generation inp) (fi_generation inp)]"
    by (simp del: One_nat_def add: at_most_parts)
  from at_most_steps [OF this] show ?thesis unfolding ingest_all_def i sum.case option.case by simp
qed (simp_all add: ingest_all_def at_most_def)

lemma inc_at_most: "at_most 13 (ingest_changed env inc)"
proof (cases "ii_prepare inc")
  case None
  have ev: "at_most 1 (Get (\<lambda>d. case persist_trust_evidence_live None (meta_of d) (ii_signals inc) (ii_touched inc)
                  (ii_languages inc) (ii_removed inc) (dk_evidence d) of
               (s, Some e) \<Rightarrow> Ret (Inl (ErrIngestStore e))
             | (s, None) \<Rightarrow> put (\<lambda>d. d\<lparr>dk_evidence := s\<rparr>)))"
    by (auto simp: at_most_def split: prod.split option.split)
  have "list_all2 at_most [1, 1, 1, 1, 1, 1, 0, 1, 1, 1, 3, 1]
      [put (\<lambda>d. d\<lparr>dk_dirty := dk_dirty d |\<union>| ii_dirty inc\<rparr>), bump_commit_generation (ii_commit_generation inc),
       batch_commit (ii_node_batch inc), optional_batch (ii_purge_batch inc), batch_commit (ii_link_batch inc),
       batch_commit (ii_sweep inc),
       if ii_reprocessed_parse_error inc then Ret (Inl ErrReprocessedParse) else Ret (Inr ()),
       optional_batch (ii_semantic_batch inc), put (phase_two inc), persist_taint (ii_taint inc),
       persist_trust_snapshot_live env (ii_signals inc),
       Get (\<lambda>d. case persist_trust_evidence_live None (meta_of d) (ii_signals inc) (ii_touched inc)
                  (ii_languages inc) (ii_removed inc) (dk_evidence d) of
               (s, Some e) \<Rightarrow> Ret (Inl (ErrIngestStore e))
             | (s, None) \<Rightarrow> put (\<lambda>d. d\<lparr>dk_evidence := s\<rparr>))]"
    by (simp del: One_nat_def add: at_most_parts ev)
  from at_most_steps [OF this] show ?thesis unfolding ingest_changed_def None option.case by simp
qed (simp add: ingest_changed_def at_most_def)

text \<open>
  every pass ends: whatever it is given and whatever is on the disk, a full pass
  returns after at most 14 durable writes and an incremental pass after at most 13, with a result
  or an error.
\<close>

theorem passes_terminate:
  "(\<exists>n \<le> 14. \<exists>d' r. run (ingest_all env inp) n d = (d', Some (r, 0))) \<and>
   (\<exists>n \<le> 13. \<exists>d' r. run (ingest_changed env inc) n d = (d', Some (r, 0)))"
proof -
  have ret: "\<exists>d' r. run p (writes p d) d = (d', Some (r, 0))" for p :: "'a pass"
    using run_final [of p d "writes p d"] by simp
  show ?thesis using full_at_most [of env inp] inc_at_most [of env inc] ret unfolding at_most_def by blast
qed

end
