(* ===== verification/Recovery.thy ===== *)
theory Recovery
  imports WarmStart
begin

text \<open>
  What the passes of \<open>WarmStart\<close> leave behind: the disk after an uninterrupted full pass, drift
  against a tree, the publish of the trust snapshot under crashes, and the one window in which an
  interrupted incremental pass leaves an outdated snapshot CURRENT.
\<close>

subsection \<open>Recovery\<close>

lemma final_steps: "final m d = (Inr u, d') \<Longrightarrow> final (steps (m # ms)) d = final (steps ms) d'"
  by (simp add: final_bind_ok)

lemma final_parts:
  "final (begin_full_pass g) d = (Inr (), set_meta graph_full_pass_generation_key g (set_sem full_pass_in_progress_key g d))"
  "b (dk_graph d) = Inr gr \<Longrightarrow> final (batch_commit b) d = (Inr (), d\<lparr>dk_graph := gr\<rparr>)"
  "fi_stamp_after inp = Inr st \<Longrightarrow> final (stamp_and_cache inp) d =
     (Inr (), d\<lparr>dk_cache := fi_cache inp, dk_dirty := {||}, dk_sem := fmupd semantics_version_key st (dk_sem d)\<rparr>)"
  "final (persist_taint (Inr t)) d = (Inr (), set_meta intraproc_taint_key t d)"
  "final (put w) d = (Inr (), w d)"
  by (simp_all add: begin_full_pass_def batch_commit_def stamp_and_cache_def persist_taint_def final_bind_ok)

definition publish_triple :: "('g, 't) trust_env \<Rightarrow> string \<Rightarrow> string \<Rightarrow> 'g disk \<Rightarrow> 'g disk" where
  "publish_triple env b g d =
     set_meta meta_snapshot_generation g
       (set_meta meta_snapshot_digest (trust_digest (te_sha256 env) b) (set_meta meta_snapshot b d))"

lemma final_snapshot:
  "collect_trust_snapshot env i g d = Inr (Some snap) \<Longrightarrow> te_encode env snap = Some b \<Longrightarrow>
     final (persist_trust_snapshot env i g) d = (Inr (), publish_triple env b g d)"
  by (simp add: persist_trust_snapshot_def final_bind_ok publish_triple_def)

lemma final_finish:
  "marker_of d = Some g \<Longrightarrow> final (finish_full_pass c g) d =
     (Inr (), (set_meta graph_commit_generation_key c d)
        \<lparr>dk_sem := fmdrop full_pass_in_progress_key (fmupd full_pass_generation_key g (dk_sem d))\<rparr>)"
  by (simp add: finish_full_pass_def bump_commit_generation_def final_bind_ok)

text \<open>What the collector reads of the disk.\<close>

lemma collect_cong:
  assumes "dk_graph d = dk_graph d'"
    and "\<And>k. k \<in> {meta_sync_time, meta_sync_branch, meta_sync_commit, index_profile_key} \<Longrightarrow> meta_of d k = meta_of d' k"
  shows "collect_trust_snapshot env i g d = collect_trust_snapshot env i g d'"
proof -
  have e: "meta_of d meta_sync_time = meta_of d' meta_sync_time" "meta_of d meta_sync_branch = meta_of d' meta_sync_branch"
    "meta_of d meta_sync_commit = meta_of d' meta_sync_commit" "meta_of d index_profile_key = meta_of d' index_profile_key"
    using assms(2) by blast+
  have l: "last_sync (te_parse_time env) (meta_of d) = last_sync (te_parse_time env) (meta_of d')"
    unfolding last_sync_def Let_def e ..
  show ?thesis unfolding collect_trust_snapshot_def assms(1) l e ..
qed

lemma meta_of_set_meta: "meta_of (set_meta k v d) q = (if q = k then Inr v else meta_of d q)"
  by (simp add: meta_of_def)

definition disk_after_full_pass :: "('g, 't) trust_env \<Rightarrow> 'g full_input \<Rightarrow> 'g \<Rightarrow> string \<Rightarrow> string \<Rightarrow> string \<Rightarrow> 'g disk \<Rightarrow> 'g disk" where
  "disk_after_full_pass env inp g3 st t b d =
     (let gen = fi_generation inp;
          d1 = set_meta graph_full_pass_generation_key gen (set_sem full_pass_in_progress_key gen d);
          d2 = d1\<lparr>dk_graph := g3, dk_cache := fi_cache inp, dk_dirty := {||},
                  dk_sem := fmupd semantics_version_key st (dk_sem d1)\<rparr>;
          d3 = set_meta index_profile_key (if fi_profile inp = [] then profile_balanced else fi_profile inp)
                 (set_meta intraproc_taint_key t d2);
          d4 = publish_triple env b gen d3;
          d5 = d4\<lparr>dk_evidence := fst (persist_trust_evidence_full None (fi_signals inp) gen (fi_units inp)
                  (fi_parsed inp) (dk_evidence d4))\<rparr>
      in (set_meta graph_commit_generation_key (fi_commit_generation inp) d5)
           \<lparr>dk_sem := fmdrop full_pass_in_progress_key (fmupd full_pass_generation_key gen (dk_sem d5))\<rparr>)"

lemma full_pass_final:
  assumes "fi_stamp_before inp = Inr s0" "fi_prepare inp = None"
    and "fi_node_batch inp (dk_graph d) = Inr g1" "fi_link_batch inp g1 = Inr g2" "fi_semantic_batch inp g2 = Inr g3"
    and "fi_stamp_after inp = Inr st" "fi_taint inp = Inr t"
    and snap: "collect_trust_snapshot env (fi_signals inp) (fi_generation inp)
        (set_meta index_profile_key (if fi_profile inp = [] then profile_balanced else fi_profile inp)
          (d\<lparr>dk_graph := g3\<rparr>)) = Inr (Some snap)"
    and "te_encode env snap = Some b"
  shows "final (ingest_all env inp) d = (Inr (), disk_after_full_pass env inp g3 st t b d)"
proof -
  let ?gen = "fi_generation inp"
  let ?d1 = "set_meta graph_full_pass_generation_key ?gen (set_sem full_pass_in_progress_key ?gen d)"
  let ?d2 = "?d1\<lparr>dk_graph := g3, dk_cache := fi_cache inp, dk_dirty := {||},
                  dk_sem := fmupd semantics_version_key st (dk_sem ?d1)\<rparr>"
  let ?d3 = "set_meta index_profile_key (if fi_profile inp = [] then profile_balanced else fi_profile inp)
                 (set_meta intraproc_taint_key t ?d2)"
  have keys: "meta_sync_time \<noteq> graph_full_pass_generation_key" "meta_sync_branch \<noteq> graph_full_pass_generation_key"
    "meta_sync_commit \<noteq> graph_full_pass_generation_key" "meta_sync_time \<noteq> intraproc_taint_key"
    "meta_sync_branch \<noteq> intraproc_taint_key" "meta_sync_commit \<noteq> intraproc_taint_key"
    by (simp_all add: meta_sync_time_def meta_sync_branch_def meta_sync_commit_def graph_full_pass_generation_key_def
        intraproc_taint_key_def)
  have "collect_trust_snapshot env (fi_signals inp) ?gen ?d3 = Inr (Some snap)"
    unfolding snap [symmetric]
  proof (rule collect_cong)
    show "dk_graph ?d3 = dk_graph (set_meta index_profile_key
        (if fi_profile inp = [] then profile_balanced else fi_profile inp) (d\<lparr>dk_graph := g3\<rparr>))" by simp
    fix k assume "k \<in> {meta_sync_time, meta_sync_branch, meta_sync_commit, index_profile_key}"
    then show "meta_of ?d3 k = meta_of (set_meta index_profile_key
        (if fi_profile inp = [] then profile_balanced else fi_profile inp) (d\<lparr>dk_graph := g3\<rparr>)) k"
      using keys by (auto simp: meta_of_def)
  qed
  note pub = final_snapshot [OF this assms(9)]
  let ?d4 = "publish_triple env b ?gen ?d3"
  let ?d5 = "?d4\<lparr>dk_evidence := fst (persist_trust_evidence_full None (fi_signals inp) ?gen (fi_units inp)
                  (fi_parsed inp) (dk_evidence ?d4))\<rparr>"
  have m: "marker_of ?d5 = Some ?gen" by (simp add: publish_triple_def)
  let ?ev = "put (\<lambda>d. d\<lparr>dk_evidence := fst (persist_trust_evidence_full None (fi_signals inp)
                    ?gen (fi_units inp) (fi_parsed inp) (dk_evidence d))\<rparr>)"
  let ?prof = "put (set_meta index_profile_key (if fi_profile inp = [] then profile_balanced else fi_profile inp))"
  let ?pub = "persist_trust_snapshot env (fi_signals inp) ?gen"
  let ?fin = "finish_full_pass (fi_commit_generation inp) ?gen"
  let ?R = "(Inr (), disk_after_full_pass env inp g3 st t b d)"
  have "final (steps [?fin]) ?d5 = ?R"
    unfolding final_steps [OF final_finish [OF m]] by (simp only: steps.simps final.simps disk_after_full_pass_def Let_def)
  then have "final (steps [?ev, ?fin]) ?d4 = ?R" by (simp only: final_steps [OF final_parts(5)])
  then have "final (steps [?pub, ?ev, ?fin]) ?d3 = ?R" by (simp only: final_steps [OF pub])
  then have "final (steps [?prof, ?pub, ?ev, ?fin]) (set_meta intraproc_taint_key t ?d2) = ?R"
    by (simp only: final_steps [OF final_parts(5)])
  then have "final (steps [persist_taint (Inr t), ?prof, ?pub, ?ev, ?fin]) ?d2 = ?R"
    by (simp only: final_steps [OF final_parts(4)])
  moreover have "?d2 = (?d1\<lparr>dk_graph := g3\<rparr>)\<lparr>dk_cache := fi_cache inp, dk_dirty := {||},
      dk_sem := fmupd semantics_version_key st (dk_sem (?d1\<lparr>dk_graph := g3\<rparr>))\<rparr>" by simp
  ultimately have "final (steps [stamp_and_cache inp, persist_taint (Inr t), ?prof, ?pub, ?ev, ?fin]) (?d1\<lparr>dk_graph := g3\<rparr>) = ?R"
    by (simp only: final_steps [OF final_parts(3) [OF assms(6)]])
  moreover have g: "dk_graph ?d1 = dk_graph d" "dk_graph (?d1\<lparr>dk_graph := g1\<rparr>) = g1" "dk_graph (?d1\<lparr>dk_graph := g2\<rparr>) = g2"
    "?d1\<lparr>dk_graph := g1\<rparr>\<lparr>dk_graph := g2\<rparr> = ?d1\<lparr>dk_graph := g2\<rparr>"
    "?d1\<lparr>dk_graph := g2\<rparr>\<lparr>dk_graph := g3\<rparr> = ?d1\<lparr>dk_graph := g3\<rparr>" by simp_all
  note b3 = final_parts(2) [of "fi_semantic_batch inp" "?d1\<lparr>dk_graph := g2\<rparr>" g3, unfolded g, OF assms(5)]
    and b2 = final_parts(2) [of "fi_link_batch inp" "?d1\<lparr>dk_graph := g1\<rparr>" g2, unfolded g, OF assms(4)]
    and b1 = final_parts(2) [of "fi_node_batch inp" ?d1 g1, unfolded g, OF assms(3)]
  ultimately have "final (steps [begin_full_pass ?gen, batch_commit (fi_node_batch inp), batch_commit (fi_link_batch inp),
      batch_commit (fi_semantic_batch inp), stamp_and_cache inp, persist_taint (Inr t), ?prof, ?pub, ?ev, ?fin]) d = ?R"
    by (simp only: final_steps [OF final_parts(1)] final_steps [OF b1] final_steps [OF b2] final_steps [OF b3])
  then show ?thesis unfolding ingest_all_def assms(1,2,7) by (simp only: sum.case option.case)
qed

lemma disk_after_fields:
  "dk_graph (disk_after_full_pass env inp g3 st t b d) = g3"
  "dk_cache (disk_after_full_pass env inp g3 st t b d) = fi_cache inp"
  "dk_dirty (disk_after_full_pass env inp g3 st t b d) = {||}"
  "marker_of (disk_after_full_pass env inp g3 st t b d) = None"
  "sealed_of (disk_after_full_pass env inp g3 st t b d) = Some (fi_generation inp)"
  "fmlookup (dk_sem (disk_after_full_pass env inp g3 st t b d)) semantics_version_key = Some st"
  "meta_of (disk_after_full_pass env inp g3 st t b d) graph_full_pass_generation_key = Inr (fi_generation inp)"
  "meta_of (disk_after_full_pass env inp g3 st t b d) meta_snapshot = Inr b"
  "meta_of (disk_after_full_pass env inp g3 st t b d) meta_snapshot_digest = Inr (trust_digest (te_sha256 env) b)"
  "meta_of (disk_after_full_pass env inp g3 st t b d) meta_snapshot_generation = Inr (fi_generation inp)"
proof -
  have k: "index_profile_key \<noteq> graph_full_pass_generation_key" by simp
  show "dk_graph (disk_after_full_pass env inp g3 st t b d) = g3"
    "dk_cache (disk_after_full_pass env inp g3 st t b d) = fi_cache inp"
    "dk_dirty (disk_after_full_pass env inp g3 st t b d) = {||}"
    "marker_of (disk_after_full_pass env inp g3 st t b d) = None"
    "sealed_of (disk_after_full_pass env inp g3 st t b d) = Some (fi_generation inp)"
    "fmlookup (dk_sem (disk_after_full_pass env inp g3 st t b d)) semantics_version_key = Some st"
    "meta_of (disk_after_full_pass env inp g3 st t b d) graph_full_pass_generation_key = Inr (fi_generation inp)"
    "meta_of (disk_after_full_pass env inp g3 st t b d) meta_snapshot = Inr b"
    "meta_of (disk_after_full_pass env inp g3 st t b d) meta_snapshot_digest = Inr (trust_digest (te_sha256 env) b)"
    "meta_of (disk_after_full_pass env inp g3 st t b d) meta_snapshot_generation = Inr (fi_generation inp)"
    by (simp_all add: disk_after_full_pass_def Let_def publish_triple_def meta_of_def)
qed

lemma warm_probe:
  assumes "can_warm_start stamp d = Inr (files, True)" "drift_total (drift_detail units d) = 0"
    and "compute_probe pt True True stamp lock (Inr units) d = Inr f"
  shows "fr_exists f \<and> fr_warm_startable f \<and> \<not> fr_full_pass_in_progress f \<and> \<not> fr_lock_held f \<and> fr_current f"
  using assms by (auto simp: compute_probe_def Let_def)

lemma collected_facts:
  assumes "collect_trust_snapshot env i g d = Inr (Some snap)"
  obtains agg stats where "te_aggregate env = Some agg" "agg trust_boundary_top_n (dk_graph d) = Inr stats"
    "sn_graph snap = new_graph_facts stats" "sn_external snap = new_external_facts stats"
    "sn_schema snap = snapshot_schema_version" "gr_full_pass (sn_generation snap) = g"
    "sn_link snap = new_link_facts (ig_link_stats i)"
  using assms
  by (auto simp: collect_trust_snapshot_def Let_def split: option.splits sum.splits prod.splits)

text \<open>
  C21: a full pass heals every disk, whatever crashes left on it: uninterrupted it returns
  within 14 writes, and then the graph is the batches' product, the sidecar is that pass's, a warm
  start is granted, and a reader over an unchanged tree gets exactly the collected snapshot, CURRENT.
\<close>

theorem full_pass_recovers:
  assumes "fi_stamp_before inp = Inr s0" "fi_prepare inp = None"
    and "fi_node_batch inp (dk_graph d) = Inr g1" "fi_link_batch inp g1 = Inr g2" "fi_semantic_batch inp g2 = Inr g3"
    and "fi_stamp_after inp = Inr st" "fi_taint inp = Inr t" "fi_generation inp \<noteq> []" "fi_cache inp \<noteq> fmempty"
    and "collect_trust_snapshot env (fi_signals inp) (fi_generation inp)
        (set_meta index_profile_key (if fi_profile inp = [] then profile_balanced else fi_profile inp)
          (d\<lparr>dk_graph := g3\<rparr>)) = Inr (Some snap)"
    and "te_encode env snap = Some b" "b \<noteq> []" "parse_json b = Some snap"
    and "te_aggregate env = Some agg" "agg 0 g3 = Inr live"
    and "\<And>stats. agg trust_boundary_top_n g3 = Inr stats \<Longrightarrow> new_graph_facts stats = new_graph_facts live \<and>
        ts_external_nodes stats = ts_external_nodes live \<and> ts_external_edges stats = ts_external_edges live"
  shows "\<exists>n \<le> 14. \<exists>d'. run (ingest_all env inp) n d = (d', Some (Inr (), 0)) \<and>
    dk_graph d' = g3 \<and> dk_cache d' = fi_cache inp \<and> dk_dirty d' = {||} \<and>
    can_warm_start (Inr st) d' = Inr (int (fcard (fmdom (fi_cache inp))), True) \<and>
    (\<forall>units f. drift_total (drift_detail units d') = 0 \<longrightarrow>
       compute_probe (te_parse_time env) True True (Inr st) lock (Inr units) d' = Inr f \<longrightarrow>
       trust_evaluate parse_json (te_sha256 env) (meta_of d') (Some (\<lambda>n. agg n (dk_graph d'))) (freshness_of f)
         (fi_generation inp) = (snap, state_current, None))"
proof -
  let ?d = "disk_after_full_pass env inp g3 st t b d"
  have fin: "final (ingest_all env inp) d = (Inr (), ?d)"
    by (rule full_pass_final [OF assms(1-7,10,11)])
  obtain n where "n \<le> 14" "\<exists>d' r. run (ingest_all env inp) n d = (d', Some (r, 0))"
    using full_at_most [of env inp] run_final [of "ingest_all env inp" d "writes (ingest_all env inp) d"]
    by (auto simp: at_most_def)
  then have run: "run (ingest_all env inp) n d = (?d, Some (Inr (), 0))"
    using run_final [of "ingest_all env inp" d n] run_short [of n "ingest_all env inp" d] fin
    by (cases "writes (ingest_all env inp) d \<le> n") auto
  have "fcard (fmdom (fi_cache inp)) \<noteq> 0" using assms(9) by (metis fcard_0_eq fmrestrict_fset_dom fmrestrict_fset_null)
  then have warm: "can_warm_start (Inr st) ?d = Inr (int (fcard (fmdom (fi_cache inp))), True)"
    using assms(8) by (simp add: can_warm_start_def disk_after_fields)
  have g3: "dk_graph (set_meta index_profile_key
      (if fi_profile inp = [] then profile_balanced else fi_profile inp) (d\<lparr>dk_graph := g3\<rparr>)) = g3" by simp
  obtain agg' stats where c: "te_aggregate env = Some agg'" "agg' trust_boundary_top_n g3 = Inr stats"
    "sn_graph snap = new_graph_facts stats" "sn_external snap = new_external_facts stats"
    "sn_schema snap = snapshot_schema_version" "gr_full_pass (sn_generation snap) = fi_generation inp"
    by (rule collected_facts [OF assms(10), unfolded g3])
  have st: "new_graph_facts stats = new_graph_facts live" "ts_external_nodes stats = ts_external_nodes live"
    "ts_external_edges stats = ts_external_edges live"
    using assms(16) [of stats] c(1,2) assms(14) by simp_all
  have load: "trust_load parse_json (te_sha256 env) (meta_of ?d) = Inr (snap, True, True, fi_generation inp)"
    using assms(12,13) c(5) by (simp add: trust_load_def disk_after_fields trust_decode_def)
  have cur: "trust_evaluate parse_json (te_sha256 env) (meta_of ?d) (Some (\<lambda>n. agg n (dk_graph ?d))) (freshness_of f)
         (fi_generation inp) = (snap, state_current, None)"
    if "drift_total (drift_detail units ?d) = 0"
      "compute_probe (te_parse_time env) True True (Inr st) lock (Inr units) ?d = Inr f" for units f
  proof -
    note fr = warm_probe [OF warm that]
    have "derive_state (freshness_of f) True (fi_generation inp) (fi_generation inp) True live snap = state_current"
      unfolding derive_current_iff using fr c assms(8) st
      by (simp add: freshness_report.truncate_def new_external_facts_def)
    then show ?thesis by (simp add: trust_evaluate_def load disk_after_fields assms(15))
  qed
  show ?thesis using \<open>n \<le> 14\<close> run warm cur by (intro exI [of _ n] conjI exI [of _ ?d]) (simp_all add: disk_after_fields)
qed

subsection \<open>Drift\<close>

text \<open>
  the drift classes partition the differences between the walked tree and the content
  cache, and nothing has drifted exactly when the cache is the tree's map from paths to hashes.
\<close>

theorem drift_detail_exact:
  assumes "distinct (map fst units)"
  shows "set (dr_added (drift_detail units d)) = {p. map_of units p \<noteq> None \<and> fmlookup (dk_cache d) p = None} \<and>
    set (dr_modified (drift_detail units d)) = {p. \<exists>h c. map_of units p = Some h \<and> fmlookup (dk_cache d) p = Some c \<and> c \<noteq> h} \<and>
    set (dr_deleted (drift_detail units d)) = {p. map_of units p = None \<and> fmlookup (dk_cache d) p \<noteq> None} \<and>
    (drift_total (drift_detail units d) = 0 \<longleftrightarrow> fmlookup (dk_cache d) = map_of units)"
proof -
  have mem: "(p, h) \<in> set units \<longleftrightarrow> map_of units p = Some h" for p h using assms by simp
  have dom: "p \<in> fst ` set units \<longleftrightarrow> map_of units p \<noteq> None" for p by (simp add: map_of_eq_None_iff)
  have a: "set (dr_added (drift_detail units d)) = {p. map_of units p \<noteq> None \<and> fmlookup (dk_cache d) p = None}"
    unfolding drift_detail_def by (auto simp: image_iff mem)
  have m: "set (dr_modified (drift_detail units d)) =
      {p. \<exists>h c. map_of units p = Some h \<and> fmlookup (dk_cache d) p = Some c \<and> c \<noteq> h}"
  proof (rule set_eqI)
    fix p
    have "p \<in> set (dr_modified (drift_detail units d)) \<longleftrightarrow>
        (\<exists>h. (p, h) \<in> set units \<and> (case fmlookup (dk_cache d) p of None \<Rightarrow> False | Some c \<Rightarrow> c \<noteq> h))"
      by (auto simp: drift_detail_def image_iff)
    also have "\<dots> \<longleftrightarrow> (\<exists>h c. map_of units p = Some h \<and> fmlookup (dk_cache d) p = Some c \<and> c \<noteq> h)"
      unfolding mem by (cases "fmlookup (dk_cache d) p") auto
    finally show "p \<in> set (dr_modified (drift_detail units d)) \<longleftrightarrow>
        p \<in> {p. \<exists>h c. map_of units p = Some h \<and> fmlookup (dk_cache d) p = Some c \<and> c \<noteq> h}" by simp
  qed
  have e: "set (dr_deleted (drift_detail units d)) = {p. map_of units p = None \<and> fmlookup (dk_cache d) p \<noteq> None}"
    unfolding drift_detail_def drift.select_convs set_sort set_filter dom by (auto simp: fmlookup_dom_iff)
  have "drift_total (drift_detail units d) = 0 \<longleftrightarrow>
      set (dr_added (drift_detail units d)) = {} \<and> set (dr_modified (drift_detail units d)) = {} \<and>
      set (dr_deleted (drift_detail units d)) = {}"
    by (simp add: drift_total_def del: of_nat_add)
  also have "\<dots> \<longleftrightarrow> fmlookup (dk_cache d) = map_of units"
    unfolding a m e
  proof
    assume h: "{p. map_of units p \<noteq> None \<and> fmlookup (dk_cache d) p = None} = {} \<and>
      {p. \<exists>h c. map_of units p = Some h \<and> fmlookup (dk_cache d) p = Some c \<and> c \<noteq> h} = {} \<and>
      {p. map_of units p = None \<and> fmlookup (dk_cache d) p \<noteq> None} = {}"
    note h' = h [unfolded Collect_empty_eq]
    have h1: "\<And>p. map_of units p \<noteq> None \<Longrightarrow> fmlookup (dk_cache d) p \<noteq> None"
      and h2: "\<And>p h c. map_of units p = Some h \<Longrightarrow> fmlookup (dk_cache d) p = Some c \<Longrightarrow> c = h"
      and h3: "\<And>p. map_of units p = None \<Longrightarrow> fmlookup (dk_cache d) p = None" using h' by metis+
    show "fmlookup (dk_cache d) = map_of units"
    proof
      fix p
      show "fmlookup (dk_cache d) p = map_of units p"
      proof (cases "map_of units p")
        case None
        then show ?thesis using h3 by simp
      next
        case (Some h)
        then obtain c where "fmlookup (dk_cache d) p = Some c" using h1 [of p] by auto
        then show ?thesis using h2 [OF Some] Some by simp
      qed
    qed
  qed auto
  finally show ?thesis using a m e by blast
qed

subsection \<open>The window after the second transaction\<close>

lemma run_bind_ok:
  "final m d = (Inr u, d1) \<Longrightarrow> writes m d \<le> n \<Longrightarrow> run (bind_ok m k) n d = run k (n - writes m d) d1"
  unfolding bind_ok_def
proof (induction m arbitrary: n d)
  case (Put w p)
  then show ?case by (cases n) simp_all
qed simp_all

lemma after_none: "after p 0 d = d"
  unfolding after_def by (induction p arbitrary: d) simp_all

lemma after_steps:
  "final m d = (Inr u, d1) \<Longrightarrow> writes m d \<le> n \<Longrightarrow> after (steps (m # ms)) n d = after (steps ms) (n - writes m d) d1"
  by (simp add: after_def run_bind_ok)

lemma after_put: "n > 0 \<Longrightarrow> after (steps (put w # ms)) n d = after (steps ms) (n - 1) (w d)"
  by (subst after_steps [OF final_parts(5)]) auto

lemma after_batch: "b (dk_graph d) = Inr g \<Longrightarrow> n > 0 \<Longrightarrow>
    after (steps (batch_commit b # ms)) n d = after (steps ms) (n - 1) (d\<lparr>dk_graph := g\<rparr>)"
  by (subst after_steps [OF final_parts(2)]) (auto simp: batch_commit_def)

lemma after_skip: "after (steps (Ret (Inr ()) # ms)) n d = after (steps ms) n d"
  by (subst after_steps [of _ _ "()" d]) auto

definition through :: "('g \<Rightarrow> string + 'g) option \<Rightarrow> 'g \<Rightarrow> string + 'g" where
  "through b g = (case b of None \<Rightarrow> Inr g | Some f \<Rightarrow> f g)"

lemma after_batch_case: "n > 0 \<Longrightarrow>
    after (steps (batch_commit b # ms)) n d =
      (case b (dk_graph d) of Inl e \<Rightarrow> d | Inr g \<Rightarrow> after (steps ms) (n - 1) (d\<lparr>dk_graph := g\<rparr>))"
  using after_batch [of b d _ n ms]
  by (cases "b (dk_graph d)") (simp_all add: after_def batch_commit_def bind_ok_def)

text \<open>
  The writes of an incremental pass up to its second transaction: the dirty marks, the commit
  generation, three batches, the transaction, and the batches that only some passes have (files
  that are gone, and changes that trigger a semantic resolver).
\<close>

definition writes_to_phase_two :: "'g inc_input \<Rightarrow> nat" where
  "writes_to_phase_two inp =
     6 + (case ii_semantic_batch inp of None \<Rightarrow> 0 | Some f \<Rightarrow> 1) + (case ii_purge_batch inp of None \<Rightarrow> 0 | Some f \<Rightarrow> 1)"

definition reaches_phase_two :: "'g inc_input \<Rightarrow> 'g \<Rightarrow> 'g \<Rightarrow> bool" where
  "reaches_phase_two inp g g' \<longleftrightarrow> ii_prepare inp = None \<and> \<not> ii_reprocessed_parse_error inp \<and>
     (\<exists>g1 g2 g3 g4. ii_node_batch inp g = Inr g1 \<and> through (ii_purge_batch inp) g1 = Inr g2 \<and>
        ii_link_batch inp g2 = Inr g3 \<and> ii_sweep inp g3 = Inr g4 \<and> through (ii_semantic_batch inp) g4 = Inr g')"

text \<open>The disk when an incremental pass stops right after its second transaction.\<close>

lemma increment_cut:
  assumes "reaches_phase_two inp (dk_graph d) g'"
  shows "after (ingest_changed env inp) (writes_to_phase_two inp) d =
    phase_two inp ((set_meta graph_commit_generation_key (ii_commit_generation inp)
      (d\<lparr>dk_dirty := dk_dirty d |\<union>| ii_dirty inp\<rparr>))\<lparr>dk_graph := g'\<rparr>)"
proof -
  obtain g1 g2 g3 g4 where p: "ii_prepare inp = None" "\<not> ii_reprocessed_parse_error inp"
    and g: "ii_node_batch inp (dk_graph d) = Inr g1" "through (ii_purge_batch inp) g1 = Inr g2"
      "ii_link_batch inp g2 = Inr g3" "ii_sweep inp g3 = Inr g4" "through (ii_semantic_batch inp) g4 = Inr g'"
    using assms unfolding reaches_phase_two_def by blast
  show ?thesis
    using g unfolding ingest_changed_def p(1) option.case if_not_P [OF p(2)] writes_to_phase_two_def
    by (cases "ii_purge_batch inp"; cases "ii_semantic_batch inp")
      (simp_all del: steps.simps add: after_put after_batch_case after_skip after_none through_def
        optional_batch_def bump_commit_generation_def)
qed

text \<open>
  C34: the snapshot can outlive the source it describes.  Let a warm start be granted and a reader say
  CURRENT, and let an incremental pass, whatever it writes, purges, links and resolves, stop right
  after its second transaction, before the snapshot is rebound.  If its graph has the counts of the
  old one and the content cache is not empty, the processed files are clean, a warm start is
  granted, and as long as the tree matches the cache readers get the old snapshot as CURRENT,
  whatever the pass had to report.
\<close>

theorem interrupted_increment_reads_current:
  assumes "can_warm_start stamp d = Inr (files, True)"
    and "trust_evaluate parse_json (te_sha256 env) (meta_of d) (Some (\<lambda>n. agg n (dk_graph d))) f0 g =
      (snap, state_current, None)"
    and "reaches_phase_two inp (dk_graph d) g'" "agg 0 g' = agg 0 (dk_graph d)"
    and "d' = after (ingest_changed env inp) (writes_to_phase_two inp) d" "dk_cache d' \<noteq> fmempty"
  shows "dk_graph d' = g' \<and>
    dk_cache d' = fmdrop_fset (fset_of_list (ii_removed inp)) (dk_cache d ++\<^sub>f ii_upserts inp) \<and>
    dk_dirty d' = (dk_dirty d |\<union>| ii_dirty inp) |-| fmdom (ii_upserts inp) |-| fset_of_list (ii_removed inp) \<and>
    (\<exists>files'. can_warm_start stamp d' = Inr (files', True)) \<and>
    (\<forall>units f. drift_total (drift_detail units d') = 0 \<longrightarrow>
       compute_probe (te_parse_time env) True True stamp lock (Inr units) d' = Inr f \<longrightarrow>
       trust_evaluate parse_json (te_sha256 env) (meta_of d') (Some (\<lambda>n. agg n (dk_graph d'))) (freshness_of f) g =
         (snap, state_current, None))"
proof -
  note cut = increment_cut [OF assms(3), of env, folded assms(5)]
  have fields: "dk_graph d' = g'" "dk_sem d' = dk_sem d"
    "dk_cache d' = fmdrop_fset (fset_of_list (ii_removed inp)) (dk_cache d ++\<^sub>f ii_upserts inp)"
    "dk_dirty d' = (dk_dirty d |\<union>| ii_dirty inp) |-| fmdom (ii_upserts inp) |-| fset_of_list (ii_removed inp)"
    by (simp_all add: cut phase_two_def)
  have meta: "meta_of d' k = meta_of d k" if "k \<noteq> graph_commit_generation_key" for k
    using that by (simp add: cut phase_two_def meta_of_def)
  have "fcard (fmdom (dk_cache d')) \<noteq> 0"
    using assms(6) by (metis fcard_0_eq fmrestrict_fset_dom fmrestrict_fset_null)
  moreover obtain h st where w: "marker_of d = None" "sealed_of d = Some h" "h \<noteq> []" "graph_generation_of d = Some h"
    "stamp = Inr st" "fmlookup (dk_sem d) semantics_version_key = Some st"
    using assms(1) by (rule warm_start_facts)
  moreover have "meta_of d' graph_full_pass_generation_key = Inr h"
    using w(4) meta [of graph_full_pass_generation_key] by (simp add: meta_of_def)
  ultimately have warm: "can_warm_start stamp d' = Inr (int (fcard (fmdom (dk_cache d'))), True)"
    by (simp add: can_warm_start_def fields(2))
  have triple: "trust_load parse_json (te_sha256 env) (meta_of d') = trust_load parse_json (te_sha256 env) (meta_of d)"
    unfolding trust_load_def by (simp only: meta meta_keys_differ' not_False_eq_True)
  have cur: "trust_evaluate parse_json (te_sha256 env) (meta_of d') (Some (\<lambda>n. agg n (dk_graph d'))) (freshness_of f) g =
         (snap, state_current, None)"
    if "drift_total (drift_detail units d') = 0"
      "compute_probe (te_parse_time env) True True stamp lock (Inr units) d' = Inr f" for units f
  proof -
    note fr = warm_probe [OF warm that]
    obtain sn found dok gen live where ld: "trust_load parse_json (te_sha256 env) (meta_of d) = Inr (sn, found, dok, gen)"
      "agg 0 (dk_graph d) = Inr live"
      using assms(2) by (auto simp: trust_evaluate_def split: sum.splits)
    have "sn = snap" and "derive_state f0 found gen g dok live sn = state_current"
      using assms(2) by (auto simp: trust_evaluate_def ld)
    then have "derive_state (freshness_of f) found gen g dok live snap = state_current"
      using fr unfolding derive_current_iff by (simp add: freshness_report.truncate_def)
    then show ?thesis using \<open>sn = snap\<close> by (simp add: trust_evaluate_def triple ld fields assms(4))
  qed
  show ?thesis using fields warm cur by blast
qed

subsection \<open>Witnesses\<close>

definition quiet_run :: ingester where
  "quiet_run = \<lparr>ig_link_stats = zero_link_stats, ig_runs = fmempty, ig_read_failure = False,
     ig_file_link = fmempty, ig_skipped = [], ig_profile = []\<rparr>"

definition one_env :: "(unit, unit) trust_env" where
  "one_env = \<lparr>te_aggregate = Some (\<lambda>n g. Inr empty_stats), te_parse_time = (\<lambda>r. None),
     te_encode = (\<lambda>s. Some ''doc''), te_sha256 = id\<rparr>"

definition one_full :: "unit full_input" where
  "one_full = \<lparr>fi_stamp_before = Inr ''12'', fi_prepare = None, fi_generation = ''g1'', fi_commit_generation = ''c1'',
     fi_node_batch = Inr, fi_link_batch = Inr, fi_semantic_batch = Inr,
     fi_cache = fmupd ''a.go'' ''h1'' fmempty, fi_stamp_after = Inr ''12'', fi_taint = Inr ''[]'', fi_profile = [],
     fi_units = [''a.go''], fi_parsed = [Some \<lparr>pl_skipped = False, pl_result = Some ''go''\<rparr>], fi_signals = quiet_run\<rparr>"

definition no_disk :: "unit disk" where
  "no_disk = \<lparr>dk_graph = (), dk_meta = fmempty, dk_sem = fmempty, dk_cache = fmempty, dk_dirty = {||},
     dk_evidence = empty_sidecar\<rparr>"

definition one_snapshot :: trust_snapshot where
  "one_snapshot = (case collect_trust_snapshot one_env quiet_run ''g1'' (set_meta index_profile_key profile_balanced no_disk) of
     Inr (Some s) \<Rightarrow> s | _ \<Rightarrow> zero_snapshot)"

lemma one_collected:
  "collect_trust_snapshot one_env quiet_run ''g1'' (set_meta index_profile_key profile_balanced no_disk) = Inr (Some one_snapshot)"
  by (simp add: one_snapshot_def collect_trust_snapshot_def one_env_def Let_def split: prod.split)

lemma one_parts [simp]:
  "fi_stamp_before one_full = Inr ''12''" "fi_prepare one_full = None" "fi_generation one_full = ''g1''"
  "fi_node_batch one_full = Inr" "fi_link_batch one_full = Inr" "fi_semantic_batch one_full = Inr"
  "fi_stamp_after one_full = Inr ''12''" "fi_taint one_full = Inr ''[]''" "fi_profile one_full = []"
  "fi_signals one_full = quiet_run" "fi_cache one_full = fmupd ''a.go'' ''h1'' fmempty"
  "te_encode one_env s = Some ''doc''" "te_aggregate one_env = Some (\<lambda>n g. Inr empty_stats)"
  "dk_graph no_disk = ()" "no_disk\<lparr>dk_graph := ()\<rparr> = no_disk" "te_sha256 one_env = id"
  by (simp_all add: one_full_def one_env_def no_disk_def)

definition one_disk :: "unit disk" where
  "one_disk = disk_after_full_pass one_env one_full () ''12'' ''[]'' ''doc'' no_disk"

lemma one_final: "final (ingest_all one_env one_full) no_disk = (Inr (), one_disk)"
  unfolding one_disk_def by (rule full_pass_final [of _ _ _ "()" "()" _ _ _ _ one_snapshot]) (simp_all add: one_collected)

lemma one_run_full:
  "run (ingest_all one_env one_full) (writes (ingest_all one_env one_full) no_disk) no_disk = (one_disk, Some (Inr (), 0))"
  using run_final [of "ingest_all one_env one_full" no_disk, OF order_refl] by (simp add: one_final)

lemma one_warm: "can_warm_start (Inr ''12'') one_disk = Inr (1, True)"
  unfolding one_disk_def by (simp add: can_warm_start_def disk_after_fields fcard_finsert_if)

theorem full_pass_recovers_witness:
  "\<exists>n \<le> 14. \<exists>d'. run (ingest_all one_env one_full) n no_disk = (d', Some (Inr (), 0)) \<and>
     can_warm_start (Inr ''12'') d' = Inr (1, True)"
proof -
  have a: "collect_trust_snapshot one_env (fi_signals one_full) (fi_generation one_full)
     (set_meta index_profile_key (if fi_profile one_full = [] then profile_balanced else fi_profile one_full)
       (no_disk\<lparr>dk_graph := ()\<rparr>)) = Inr (Some one_snapshot)"
    by (simp add: one_collected)
  show ?thesis
    using full_pass_recovers [where inp = one_full and env = one_env and d = no_disk and ?g1.0 = "()" and ?g2.0 = "()" and ?g3.0 = "()"
        and snap = one_snapshot and parse_json = "\<lambda>b. Some one_snapshot" and b = "''doc''" and live = empty_stats
        and lock = None and st = "''12''" and t = "''[]''" and ?s0.0 = "''12''" and agg = "\<lambda>n g. Inr empty_stats", OF _ _ _ _ _ _ _ _ _ a]
    by (auto simp: fcard_finsert_if)
qed

theorem warm_start_is_certified_witness:
  "can_warm_start (Inr ''12'') one_disk = Inr (1, True) \<and> (\<exists>g. g \<noteq> [] \<and> certified one_env g one_disk)"
proof -
  have "dk_sem no_disk = fmempty" by (simp add: no_disk_def)
  then have "reachable one_env (after (ingest_all one_env one_full) (writes (ingest_all one_env one_full) no_disk) no_disk)"
    by (intro reachable.full_pass reachable.fresh)
  then have "reachable one_env one_disk" by (simp add: after_def one_run_full)
  from warm_start_is_certified [OF this one_warm] show ?thesis using one_warm by blast
qed

theorem drift_detail_exact_witness:
  "set (dr_modified (drift_detail [(''a.go'', ''h2''), (''b.go'', ''h3'')] one_disk)) = {''a.go''} \<and>
   set (dr_added (drift_detail [(''a.go'', ''h2''), (''b.go'', ''h3'')] one_disk)) = {''b.go''}"
  using drift_detail_exact [of "[(''a.go'', ''h2''), (''b.go'', ''h3'')]" one_disk]
  by (simp add: one_disk_def disk_after_fields)

definition one_edit :: "unit inc_input" where
  "one_edit = \<lparr>ii_prepare = None, ii_dirty = {|''a.go''|}, ii_commit_generation = ''c2'', ii_node_batch = Inr,
     ii_purge_batch = None, ii_link_batch = Inr, ii_sweep = Inr, ii_reprocessed_parse_error = False,
     ii_semantic_batch = Some Inr, ii_upserts = fmupd ''a.go'' ''h2'' fmempty, ii_removed = [], ii_taint = Inr ''[]'',
     ii_touched = [''a.go''], ii_languages = fmupd ''a.go'' ''go'' fmempty,
     ii_signals = quiet_run\<lparr>ig_link_stats := zero_link_stats\<lparr>ls_ambiguous := 1\<rparr>\<rparr>\<rparr>"

lemma one_edit_parts [simp]:
  "ii_removed one_edit = []" "ii_upserts one_edit = fmupd ''a.go'' ''h2'' fmempty" "ii_dirty one_edit = {|''a.go''|}"
  "reaches_phase_two one_edit () ()" "writes_to_phase_two one_edit = 7"
  by (simp_all add: one_edit_def reaches_phase_two_def through_def writes_to_phase_two_def)

lemma one_current:
  "trust_evaluate (\<lambda>b. Some one_snapshot) (te_sha256 one_env) (meta_of one_disk)
     (Some (\<lambda>n. Inr empty_stats)) settled ''g1'' = (one_snapshot, state_current, None)"
proof -
  have s: "sn_schema one_snapshot = 1" "gr_full_pass (sn_generation one_snapshot) = ''g1''"
    "sn_graph one_snapshot = new_graph_facts empty_stats" "sn_external one_snapshot = new_external_facts empty_stats"
    by (simp_all add: one_snapshot_def collect_trust_snapshot_def Let_def snapshot_schema_version_def split: prod.split)
  have "trust_load (\<lambda>b. Some one_snapshot) (te_sha256 one_env) (meta_of one_disk) = Inr (one_snapshot, True, True, ''g1'')"
    by (simp add: trust_load_def one_disk_def disk_after_fields trust_decode_def s snapshot_schema_version_def)
  moreover have "derive_state settled True ''g1'' ''g1'' True empty_stats one_snapshot = state_current"
    unfolding derive_current_iff by (simp add: settled_def s new_external_facts_def)
  ultimately show ?thesis by (simp add: trust_evaluate_def)
qed

theorem interrupted_increment_reads_current_witness:
  "let d' = after (ingest_changed one_env one_edit) (writes_to_phase_two one_edit) one_disk
   in dk_dirty d' = {||} \<and> (\<exists>n. can_warm_start (Inr ''12'') d' = Inr (n, True)) \<and>
      fmlookup (dk_cache d') ''a.go'' = Some ''h2'' \<and> lf_ambiguous (sn_link one_snapshot) = 0 \<and>
      (\<exists>snap. collect_trust_snapshot one_env (ii_signals one_edit) ''g1'' d' = Inr (Some snap) \<and> lf_ambiguous (sn_link snap) = 1)"
proof -
  have cur: "trust_evaluate (\<lambda>b. Some one_snapshot) (te_sha256 one_env) (meta_of one_disk)
     (Some (\<lambda>n. (\<lambda>n g. Inr empty_stats) n (dk_graph one_disk))) settled ''g1'' = (one_snapshot, state_current, None)"
    using one_current by simp
  have c: "dk_cache one_disk = fmupd ''a.go'' ''h1'' fmempty" "dk_dirty one_disk = {||}"
    by (simp_all add: one_disk_def disk_after_fields)
  have reach: "reaches_phase_two one_edit (dk_graph one_disk) ()" by simp
  have "fmlookup (dk_cache (after (ingest_changed one_env one_edit) (writes_to_phase_two one_edit) one_disk)) ''a.go'' = Some ''h2''"
    by (simp only: increment_cut [OF reach]) (simp add: phase_two_def c)
  then have ne: "dk_cache (after (ingest_changed one_env one_edit) (writes_to_phase_two one_edit) one_disk) \<noteq> fmempty" by force
  note w = interrupted_increment_reads_current [where lock = None, OF one_warm cur reach _ refl ne]
  have l: "lf_ambiguous (sn_link one_snapshot) = 0"
    by (simp add: one_snapshot_def collect_trust_snapshot_def Let_def quiet_run_def zero_link_stats_def
        new_link_facts_def split: prod.split)
  have s: "\<exists>snap. collect_trust_snapshot one_env (ii_signals one_edit) ''g1'' d = Inr (Some snap) \<and> lf_ambiguous (sn_link snap) = 1" for d
    by (simp add: collect_trust_snapshot_def Let_def one_edit_def quiet_run_def zero_link_stats_def new_link_facts_def split: prod.split)
  show ?thesis using w l s c by (simp add: Let_def)
qed

subsection \<open>Publishing under crashes\<close>

lemma after_Get: "after (Get f) n d = after (f d) n d"
  by (simp add: after_def)

lemma after_puts:
  "after (bind_ok (put u) (bind_ok (put v) (put w))) n d =
     (if n = 0 then d else if n = 1 then u d else if n = 2 then v (u d) else w (v (u d)))"
proof -
  consider "n = 0" | "n = 1" | "n = 2" | k where "n = Suc (Suc (Suc k))"
    by (metis One_nat_def Suc_1 not0_implies_Suc)
  then show ?thesis by cases (simp_all add: after_def bind_ok_def numeral_2_eq_2)
qed

text \<open>
  C32: the three writes of a publish never show a torn snapshot: wherever they stop, a reader gets
  what it got before, or bytes that do not verify, or exactly the new snapshot, complete and with the
  old or the new generation stamp; a clear that got as far as its first write already reads absent.
\<close>

theorem publish_never_torn:
  assumes "collect_trust_snapshot env i g d = Inr (Some snap)" "te_encode env snap = Some b" "b \<noteq> []"
    and "parse_json b = Some snap"
  shows "(\<exists>gen. meta_of d meta_snapshot_generation \<in> {Inr gen, Inl ErrNotFound} \<and>
      trust_load parse_json (te_sha256 env) (meta_of (after (persist_trust_snapshot env i g) n d)) \<in>
        {trust_load parse_json (te_sha256 env) (meta_of d), Inr (zero_snapshot, True, False, gen),
         Inr (snap, True, True, gen), Inr (snap, True, True, g)}) \<and>
   (n \<ge> 3 \<longrightarrow> trust_load parse_json (te_sha256 env) (meta_of (after (persist_trust_snapshot env i g) n d)) =
     Inr (snap, True, True, g)) \<and>
   (n \<ge> 1 \<longrightarrow> trust_load parse_json (te_sha256 env) (meta_of (after clear_trust_snapshot n d)) =
     Inr (zero_snapshot, False, False, []))"
proof -
  have schema: "sn_schema snap = snapshot_schema_version" using collected_facts [OF assms(1)] by metis
  let ?u = "set_meta meta_snapshot b" and ?v = "set_meta meta_snapshot_digest (trust_digest (te_sha256 env) b)"
    and ?w = "set_meta meta_snapshot_generation g"
  let ?load = "\<lambda>d. trust_load parse_json (te_sha256 env) (meta_of d)"
  have after: "after (persist_trust_snapshot env i g) n d =
      (if n = 0 then d else if n = 1 then ?u d else if n = 2 then ?v (?u d) else ?w (?v (?u d)))"
    by (simp add: persist_trust_snapshot_def after_Get assms(1,2) after_puts)
  obtain gen where gen: "meta_of d meta_snapshot_generation \<in> {Inr gen, Inl ErrNotFound}"
    "(case meta_of d meta_snapshot_generation of Inl err \<Rightarrow> if err = ErrNotFound then Inr [] else Inl err | Inr g \<Rightarrow> Inr g) = Inr gen"
    by (cases "fmlookup (dk_meta d) meta_snapshot_generation") (auto simp: meta_of_def)
  have one: "?load (?u d) \<in> {Inr (zero_snapshot, True, False, gen), Inr (snap, True, True, gen)}"
    using gen(2) assms(3,4) schema
    by (cases "fmlookup (dk_meta d) meta_snapshot_digest")
      (auto simp: trust_load_def meta_of_def trust_decode_def)
  have two: "?load (?v (?u d)) = Inr (snap, True, True, gen)"
    using gen(2) assms(3,4) schema by (simp add: trust_load_def meta_of_def trust_decode_def)
  have three: "?load (?w (?v (?u d))) = Inr (snap, True, True, g)"
    using assms(3,4) schema by (simp add: trust_load_def meta_of_def trust_decode_def)
  have clear: "?load (after clear_trust_snapshot n d) = Inr (zero_snapshot, False, False, [])" if "n \<ge> 1"
    using that unfolding clear_trust_snapshot_def after_puts by (simp add: trust_load_def meta_of_def)
  have any: "?load (after (persist_trust_snapshot env i g) n d) \<in>
     {?load d, Inr (zero_snapshot, True, False, gen), Inr (snap, True, True, gen), Inr (snap, True, True, g)}"
    unfolding after using one two three by auto
  have full: "?load (after (persist_trust_snapshot env i g) n d) = Inr (snap, True, True, g)" if "n \<ge> 3"
  proof -
    have "after (persist_trust_snapshot env i g) n d = ?w (?v (?u d))" unfolding after using that by simp
    then show ?thesis using three by simp
  qed
  show ?thesis
    by (intro conjI exI [of _ gen] impI gen(1) any full clear)
qed

theorem publish_never_torn_witness:
  "trust_load (\<lambda>b. Some one_snapshot) id (meta_of (after (persist_trust_snapshot one_env quiet_run ''g1'') 3
     (set_meta index_profile_key profile_balanced no_disk))) = Inr (one_snapshot, True, True, ''g1'')"
  using publish_never_torn [OF one_collected, of "''doc''" "\<lambda>b. Some one_snapshot" 3] by simp

end
