(* ===== verification/EditPlan.thy ===== *)
theory EditPlan
  imports Model "HOL-Library.Multiset"
begin

text \<open>
  The byte level of \<open>engine/edit\<close>: spans and their application (\<open>edit.go\<close>,
  \<open>refactor.go\<close>), the planner that turns a rename into spans (\<open>planner.go\<close>) and the path
  rule (\<open>resolvePath\<close>).  A file's content is a byte string.  \<open>sort.Slice\<close> is not stable, so a
  sorted slice is any permutation in order: a parameter \<open>srt\<close> that \<open>sorts_ops\<close>.  Offsets are Go
  \<open>int\<close>s that are compared with lengths and never computed with, so they are integers.
\<close>

subsection \<open>Operations and errors\<close>

record span =
  sp_start :: int
  sp_end :: int

record edit_op =
  eo_target :: string
  eo_file :: string
  eo_span :: span
  eo_replacement :: string

text \<open>The typed errors; \<open>ErrRollback\<close> carries the fault that was being compensated.\<close>

datatype edit_error =
    ErrInvalidOp
  | ErrWriteFailed
  | ErrReindex
  | ErrInconsistent
  | ErrNotImplemented
  | ErrMint
  | ErrRecord
  | ErrRollback edit_error

subsection \<open>Spans\<close>

definition apply_span :: "string \<Rightarrow> span \<Rightarrow> string \<Rightarrow> edit_error + string" where
  "apply_span src sp repl =
     (if sp_start sp < 0 \<or> sp_end sp < 0 \<or> sp_start sp > sp_end sp then Inl ErrInvalidOp
      else if sp_end sp > int (length src) then Inl ErrInvalidOp
      else Inr (take (nat (sp_start sp)) src @ repl @ drop (nat (sp_end sp)) src))"

definition sorts_ops :: "(edit_op list \<Rightarrow> edit_op list) \<Rightarrow> bool" where
  "sorts_ops srt \<longleftrightarrow>
     (\<forall>ops. mset (srt ops) = mset ops \<and> sorted_wrt (\<lambda>a b. sp_start (eo_span a) \<ge> sp_start (eo_span b)) (srt ops))"

fun overlapping :: "edit_op list \<Rightarrow> bool" where
  "overlapping (a # b # ops) = (sp_end (eo_span b) > sp_start (eo_span a) \<or> overlapping (b # ops))"
| "overlapping ops = False"

fun apply_each :: "string \<Rightarrow> edit_op list \<Rightarrow> edit_error + string" where
  "apply_each out [] = Inr out"
| "apply_each out (op # ops) =
     (case apply_span out (eo_span op) (eo_replacement op) of Inl e \<Rightarrow> Inl e | Inr out' \<Rightarrow> apply_each out' ops)"

definition apply_spans :: "(edit_op list \<Rightarrow> edit_op list) \<Rightarrow> string \<Rightarrow> edit_op list \<Rightarrow> edit_error + string" where
  "apply_spans srt src ops =
     (case ops of
        [op] \<Rightarrow> apply_span src (eo_span op) (eo_replacement op)
      | _ \<Rightarrow> (let sorted = srt ops in
              if overlapping sorted then Inl ErrInvalidOp else apply_each src sorted))"

subsection \<open>Identifier occurrences\<close>

definition is_ident_byte :: "char \<Rightarrow> bool" where
  "is_ident_byte b \<longleftrightarrow> b = CHR ''_'' \<or> (CHR ''a'' \<le> b \<and> b \<le> CHR ''z'') \<or> (CHR ''A'' \<le> b \<and> b \<le> CHR ''Z'') \<or>
     (CHR ''0'' \<le> b \<and> b \<le> CHR ''9'')"

definition boundary_byte :: "string \<Rightarrow> int \<Rightarrow> char" where
  "boundary_byte src idx = (if idx < 0 \<or> idx \<ge> int (length src) then CHR 0x00 else src ! nat idx)"

text \<open>\<open>bytes.Index\<close>: the offset of the first occurrence.\<close>

fun index_of :: "string \<Rightarrow> string \<Rightarrow> nat option" where
  "index_of needle [] = (if needle = [] then Some 0 else None)"
| "index_of needle (c # s) =
     (if has_prefix (c # s) needle then Some 0 else map_option Suc (index_of needle s))"

text \<open>The scanning loop; it does not return for an empty needle.\<close>

partial_function (option) span_loop :: "string \<Rightarrow> string \<Rightarrow> nat \<Rightarrow> span list \<Rightarrow> span list option" where
  "span_loop src needle from spans =
     (case index_of needle (drop from src) of
        None \<Rightarrow> Some spans
      | Some i \<Rightarrow>
          span_loop src needle (from + i + length needle)
            (if \<not> is_ident_byte (boundary_byte src (int (from + i) - 1)) \<and>
                \<not> is_ident_byte (boundary_byte src (int (from + i + length needle)))
             then spans @ [\<lparr>sp_start = int (from + i), sp_end = int (from + i + length needle)\<rparr>]
             else spans))"

definition identifier_spans :: "string \<Rightarrow> string \<Rightarrow> span list option" where
  "identifier_spans src needle = span_loop src needle 0 []"

subsection \<open>Planning a rename\<close>

text \<open>What reading a file of the blast radius gave.\<close>

datatype read_result = Content string | NotExist | ReadError

fun plan_files :: "(string \<Rightarrow> read_result) \<Rightarrow> string \<Rightarrow> string \<Rightarrow> string list \<Rightarrow> (edit_error + edit_op list) option" where
  "plan_files read old_name new_name [] = Some (Inr [])"
| "plan_files read old_name new_name (rel # rels) =
     (case read rel of
        NotExist \<Rightarrow> plan_files read old_name new_name rels
      | ReadError \<Rightarrow> Some (Inl ErrInvalidOp)
      | Content c \<Rightarrow>
          (case identifier_spans c old_name of
             None \<Rightarrow> None
           | Some sps \<Rightarrow>
               (case plan_files read old_name new_name rels of
                  None \<Rightarrow> None
                | Some (Inl e) \<Rightarrow> Some (Inl e)
                | Some (Inr ops) \<Rightarrow>
                    Some (Inr (map (\<lambda>sp. \<lparr>eo_target = [], eo_file = rel, eo_span = sp,
                                        eo_replacement = new_name\<rparr>) sps @ ops)))))"

definition plan_name_rewrite ::
  "(string \<Rightarrow> read_result) \<Rightarrow> string list \<Rightarrow> string \<Rightarrow> string \<Rightarrow> (edit_error + edit_op list) option" where
  "plan_name_rewrite read files old_name new_name =
     (if old_name = [] then Some (Inl ErrInvalidOp)
      else if old_name = new_name then Some (Inl ErrInvalidOp)
      else (case plan_files read old_name new_name (sort files) of
              Some (Inr []) \<Rightarrow> Some (Inl ErrInvalidOp)
            | r \<Rightarrow> r))"

subsection \<open>Refactor requests\<close>

definition refactor_rename :: string where "refactor_rename = ''rename''"
definition refactor_extract :: string where "refactor_extract = ''extract''"
definition refactor_move :: string where "refactor_move = ''move''"
definition refactor_signature_change :: string where "refactor_signature_change = ''signature_change''"

record refactor_op =
  rf_kind :: string
  rf_target :: string
  rf_old_name :: string
  rf_new_name :: string
  rf_destination :: string
  rf_dry_run :: bool

definition validate_refactor_op :: "refactor_op \<Rightarrow> edit_error option" where
  "validate_refactor_op op =
     (if blank (rf_target op) then Some ErrInvalidOp
      else if rf_kind op = refactor_rename \<or> rf_kind op = refactor_signature_change then
        (if blank (rf_old_name op) then Some ErrInvalidOp
         else if blank (rf_new_name op) then Some ErrInvalidOp else None)
      else if rf_kind op = refactor_extract \<or> rf_kind op = refactor_move then Some ErrNotImplemented
      else Some ErrInvalidOp)"

definition plan_refactor ::
  "(string \<Rightarrow> read_result) \<Rightarrow> refactor_op \<Rightarrow> string list \<Rightarrow> (edit_error + edit_op list) option" where
  "plan_refactor read op files =
     (if rf_kind op = refactor_rename \<or> rf_kind op = refactor_signature_change then
        plan_name_rewrite read files (rf_old_name op) (rf_new_name op)
      else if rf_kind op = refactor_extract \<or> rf_kind op = refactor_move then Some (Inl ErrNotImplemented)
      else Some (Inl ErrInvalidOp))"

text \<open>\<open>opTypeForRefactorKind\<close>: the provenance label of a kind.\<close>

definition op_type_for_refactor_kind :: "string \<Rightarrow> edit_error + string" where
  "op_type_for_refactor_kind k =
     (if k = refactor_rename then Inr ''rename''
      else if k = refactor_signature_change then Inr ''signature_change''
      else if k = refactor_extract \<or> k = refactor_move then Inl ErrNotImplemented
      else Inl ErrInvalidOp)"

subsection \<open>Paths\<close>

text \<open>
  \<open>filepath.Join\<close> and \<open>filepath.Rel\<close> on a Unix system, where \<open>FromSlash\<close> and \<open>ToSlash\<close> are the
  identity; \<open>Rel\<close> on two cleaned absolute paths.
\<close>

definition filepath_join :: "string \<Rightarrow> string \<Rightarrow> string" where
  "filepath_join dir p =
     (if dir = [] then (if p = [] then [] else path_clean p)
      else if p = [] then path_clean dir else path_clean (dir @ CHR ''/'' # p))"

definition segments :: "string \<Rightarrow> string list" where
  "segments p = filter (\<lambda>seg. seg \<noteq> []) (split_slash p)"

fun rel_segments :: "string list \<Rightarrow> string list \<Rightarrow> string list" where
  "rel_segments (b # bs) (t # ts) =
     (if b = t then rel_segments bs ts else replicate (length (b # bs)) ''..'' @ t # ts)"
| "rel_segments bs ts = replicate (length bs) ''..'' @ ts"

definition filepath_rel :: "string \<Rightarrow> string \<Rightarrow> string" where
  "filepath_rel base targ =
     (let r = join_slash (rel_segments (segments base) (segments targ)) in if r = [] then ''.'' else r)"

definition resolve_path :: "string \<Rightarrow> string \<Rightarrow> edit_error + string \<times> string" where
  "resolve_path dir p =
     (if blank p then Inl ErrInvalidOp
      else let abs = (if has_prefix p ''/'' then path_clean p else filepath_join dir p);
               rel = path_clean (filepath_rel dir abs)
           in if rel = ''..'' \<or> has_prefix rel ''../'' then Inl ErrInvalidOp else Inr (rel, abs))"

subsection \<open>Tokens\<close>

text \<open>
  The reference for renaming: a source is a sequence of maximal runs of identifier bytes and of
  single other bytes, and a rename replaces the runs that are the old name.
\<close>

fun tokens :: "string \<Rightarrow> string list" where
  "tokens [] = []"
| "tokens (c # s) =
     (case tokens s of
        [] \<Rightarrow> [[c]]
      | t # ts \<Rightarrow> if is_ident_byte c \<and> is_ident_byte (hd t) then (c # t) # ts else [c] # t # ts)"

definition rename_token :: "string \<Rightarrow> string \<Rightarrow> string \<Rightarrow> string" where
  "rename_token old new t = (if t = old then new else t)"

definition rename_source :: "string \<Rightarrow> string \<Rightarrow> string \<Rightarrow> string" where
  "rename_source old new s = concat (map (rename_token old new) (tokens s))"

abbreviation ident :: "string \<Rightarrow> bool" where
  "ident t \<equiv> t \<noteq> [] \<and> list_all is_ident_byte t"

definition single :: "string \<Rightarrow> bool" where
  "single t \<longleftrightarrow> (\<exists>c. t = [c] \<and> \<not> is_ident_byte c)"

fun tokenized :: "string list \<Rightarrow> bool" where
  "tokenized [] = True"
| "tokenized [t] = (ident t \<or> single t)"
| "tokenized (t # u # ts) = ((ident t \<and> \<not> is_ident_byte (hd u) \<or> single t) \<and> tokenized (u # ts))"

lemma concat_tokens: "concat (tokens s) = s"
  by (induction s) (auto split: list.split)

lemma tokens_Nil_iff: "tokens s = [] \<longleftrightarrow> s = []"
  by (cases s) (auto split: list.splits)

lemma single_not_ident: "single t \<Longrightarrow> \<not> is_ident_byte (hd t) \<and> \<not> list_all is_ident_byte t"
  by (auto simp: single_def)

lemma tokenized_tl: "tokenized (t # ts) \<Longrightarrow> tokenized ts"
  by (cases ts) auto

lemma tokenized_hd: "tokenized (t # ts) \<Longrightarrow> ident t \<or> single t"
  by (cases ts) auto

lemma tokenized_grow:
  "is_ident_byte c \<Longrightarrow> is_ident_byte (hd t) \<Longrightarrow> tokenized (t # ts) \<Longrightarrow> tokenized ((c # t) # ts)"
  by (cases ts) (auto dest: single_not_ident)

lemma tokenized_Cons_single: "\<not> (is_ident_byte c \<and> is_ident_byte (hd t)) \<Longrightarrow> tokenized (t # ts) \<Longrightarrow> tokenized ([c] # t # ts)"
  by (auto simp: single_def)

lemma tokenized_tokens: "tokenized (tokens s)"
proof (induction s)
  case (Cons c s)
  show ?case
  proof (cases "tokens s")
    case Nil
    then show ?thesis by (auto simp: single_def)
  next
    case (Cons t ts)
    then show ?thesis using Cons.IH tokenized_grow [of c t ts] tokenized_Cons_single [of c t ts] by (simp del: tokenized.simps)
  qed
qed simp

lemma tokens_grow:
  assumes "ident t" "tokens s = ts" "case ts of [] \<Rightarrow> True | u # us \<Rightarrow> \<not> is_ident_byte (hd u)"
  shows "tokens (t @ s) = t # ts"
  using assms(1)
proof (induction t)
  case (Cons c t)
  show ?case
  proof (cases t)
    case Nil
    then show ?thesis using assms(2,3) by (cases ts) auto
  next
    case (Cons d w)
    then show ?thesis using Cons.IH Cons.prems by simp
  qed
qed simp

lemma tokens_concat: "tokenized ts \<Longrightarrow> tokens (concat ts) = ts"
proof (induction ts rule: tokenized.induct)
  case (2 t)
  then show ?case using tokens_grow [of t "[]" "[]"] by (auto simp: single_def)
next
  case (3 t u ts)
  then have tl: "tokens (concat (u # ts)) = u # ts" by simp
  from "3.prems" consider "ident t" "\<not> is_ident_byte (hd u)" | "single t" by auto
  then show ?case
  proof cases
    case 1
    then show ?thesis using tokens_grow [OF 1(1) tl] by simp
  next
    case 2
    then obtain c where "t = [c]" "\<not> is_ident_byte c" by (auto simp: single_def)
    then show ?thesis using tl by simp
  qed
qed simp

lemma tokenized_rename:
  assumes "tokenized ts" "ident new" "ident old"
  shows "tokenized (map (rename_token old new) ts)"
  using assms(1)
proof (induction ts rule: tokenized.induct)
  case (3 t u ts)
  have "u \<noteq> []" using tokenized_hd [OF tokenized_tl [OF "3.prems"]] by (auto simp: single_def)
  then have "\<not> is_ident_byte (hd u) \<Longrightarrow> rename_token old new u = u"
    using assms(3) by (cases u) (auto simp: rename_token_def)
  moreover have "single t \<Longrightarrow> rename_token old new t = t"
    using assms(3) single_not_ident by (auto simp: rename_token_def)
  moreover have "ident t \<Longrightarrow> ident (rename_token old new t)" using assms(2) by (auto simp: rename_token_def)
  ultimately show ?case using 3 by auto
next
  case (2 t)
  then show ?case using assms(2) by (auto simp: rename_token_def)
qed simp

text \<open>Renaming is invertible when the new name is not in use.\<close>

lemma rename_back:
  assumes "ident old" "ident new" "new \<notin> set (tokens s)"
  shows "rename_source new old (rename_source old new s) = s"
proof -
  have "tokens (rename_source old new s) = map (rename_token old new) (tokens s)"
    unfolding rename_source_def by (rule tokens_concat) (rule tokenized_rename [OF tokenized_tokens assms(2,1)])
  then have "rename_source new old (rename_source old new s) =
      concat (map (rename_token new old \<circ> rename_token old new) (tokens s))"
    by (simp add: rename_source_def)
  also have "map (rename_token new old \<circ> rename_token old new) (tokens s) = map id (tokens s)"
    using assms(3) by (intro map_cong) (auto simp: rename_token_def)
  finally show ?thesis by (simp add: concat_tokens)
qed

subsection \<open>Occurrences\<close>

text \<open>A whole occurrence, and the offsets of the old name among the tokens.\<close>

definition whole_at :: "string \<Rightarrow> string \<Rightarrow> nat \<Rightarrow> bool" where
  "whole_at src needle i \<longleftrightarrow> has_prefix (drop i src) needle \<and>
     \<not> is_ident_byte (boundary_byte src (int i - 1)) \<and> \<not> is_ident_byte (boundary_byte src (int (i + length needle)))"

fun offsets :: "string \<Rightarrow> nat \<Rightarrow> string list \<Rightarrow> nat list" where
  "offsets old off [] = []"
| "offsets old off (t # ts) = (if t = old then [off] else []) @ offsets old (off + length t) ts"

lemma has_prefix_iff: "has_prefix s p \<longleftrightarrow> (\<exists>r. s = p @ r)"
  by (induction s p rule: has_prefix.induct) auto

lemma no_null_ident [simp]: "\<not> is_ident_byte (CHR 0x00)"
  by code_simp

lemma boundary_before: "boundary_byte (pre @ s) (int (length pre) - 1) = (if pre = [] then CHR 0x00 else last pre)"
  by (cases pre rule: rev_cases) (auto simp: boundary_byte_def nth_append)

lemma boundary_after: "boundary_byte (pre @ t @ s) (int (length pre + length t)) = (if s = [] then CHR 0x00 else hd s)"
  by (cases s) (auto simp: boundary_byte_def nth_append)

lemma span_loop_none: "index_of needle (drop from src) = None \<Longrightarrow> span_loop src needle from acc = Some acc"
  by (subst span_loop.simps) simp

lemma index_of_None: "needle \<noteq> [] \<Longrightarrow> index_of needle s = None \<Longrightarrow> \<not> has_prefix (drop i s) needle"
  by (induction s arbitrary: i) (auto simp: drop_Cons' split: if_splits elim: has_prefix.elims)

lemma index_of_Some:
  "index_of needle s = Some i \<Longrightarrow> has_prefix (drop i s) needle \<and> (\<forall>j < i. \<not> has_prefix (drop j s) needle)"
proof (induction s arbitrary: i)
  case (Cons c s)
  then show ?case by (auto simp: less_Suc_eq_0_disj split: if_splits)
qed (auto split: if_splits)

lemma whole_at_split:
  "whole_at (pre @ s) needle (length pre) \<longleftrightarrow> (\<exists>r. s = needle @ r \<and>
     (pre = [] \<or> \<not> is_ident_byte (last pre)) \<and> (r = [] \<or> \<not> is_ident_byte (hd r)))"
proof (cases "\<exists>r. s = needle @ r")
  case True
  then obtain r where r: "s = needle @ r" by blast
  have "has_prefix (drop (length pre) (pre @ needle @ r)) needle" by (auto simp: has_prefix_iff)
  then show ?thesis unfolding whole_at_def r boundary_before boundary_after by auto
next
  case False
  then show ?thesis by (auto simp: whole_at_def has_prefix_iff)
qed

lemma hd_ident: "ident t \<Longrightarrow> is_ident_byte (hd t)"
  by (cases t) auto

lemma run_prefix:
  assumes "ident t" "s = [] \<or> \<not> is_ident_byte (hd s)" "ident old" "t @ s = old @ r" "r = [] \<or> \<not> is_ident_byte (hd r)"
  shows "t = old"
proof (rule ccontr)
  assume "t \<noteq> old"
  with assms(4) obtain u where u: "u \<noteq> []" "t @ u = old \<and> s = u @ r \<or> t = old @ u \<and> u @ s = r"
    by (auto simp: append_eq_append_conv2)
  from u(2) show False
  proof
    assume a: "t @ u = old \<and> s = u @ r"
    then have "s \<noteq> []" "hd s = hd u" using u(1) by auto
    moreover have "is_ident_byte (hd u)" using a assms(3) u(1) by (cases u) auto
    ultimately show False using assms(2) by simp
  next
    assume a: "t = old @ u \<and> u @ s = r"
    then have "r \<noteq> []" "hd r = hd u" using u(1) by auto
    moreover have "is_ident_byte (hd u)" using a assms(1) u(1) by (cases u) auto
    ultimately show False using assms(5) by simp
  qed
qed

lemma concat_hd: "tokenized (u # us) \<Longrightarrow> hd (concat (u # us)) = hd u"
  using tokenized_hd [of u us] by (auto simp: single_def)

lemma last_ident: "ident t \<Longrightarrow> is_ident_byte (last t)"
  by (metis last_in_set list_all_iff)

lemma offsets_ge: "i \<in> set (offsets old off ts) \<Longrightarrow> off \<le> i"
  by (induction ts arbitrary: off) (fastforce split: if_splits)+

lemma offsets_whole:
  assumes "tokenized ts" "ident old"
    and "pre = [] \<or> \<not> is_ident_byte (last pre) \<or> (case ts of [] \<Rightarrow> True | t # us \<Rightarrow> single t)"
  shows "length pre \<le> i \<and> whole_at (pre @ concat ts) old i \<longleftrightarrow> i \<in> set (offsets old (length pre) ts)"
  using assms(1,3)
proof (induction ts arbitrary: pre)
  case Nil
  then show ?case using assms(2) by (auto simp: whole_at_def has_prefix_iff)
next
  case (Cons t ts)
  note tok = tokenized_hd [OF Cons.prems(1)]
  have next_pre: "pre @ t = [] \<or> \<not> is_ident_byte (last (pre @ t)) \<or> (case ts of [] \<Rightarrow> True | t # us \<Rightarrow> single t)"
  proof (cases ts)
    case (Cons u us)
    then show ?thesis using Cons.prems(1) tokenized_hd [of u us] tok single_not_ident [of t] hd_ident [of u]
      by (cases "single t") (auto simp: single_def)
  qed simp
  have after: "concat ts = [] \<or> \<not> is_ident_byte (hd (concat ts))" if "ident t"
  proof (cases ts)
    case (Cons u us)
    then have "tokenized (u # us)" "\<not> is_ident_byte (hd u)"
      using Cons.prems(1) that single_not_ident [of t] by auto
    then show ?thesis using Cons concat_hd by simp
  qed simp
  have IH: "length (pre @ t) \<le> i \<and> whole_at (pre @ concat (t # ts)) old i \<longleftrightarrow> i \<in> set (offsets old (length (pre @ t)) ts)"
    using Cons.IH [OF tokenized_tl [OF Cons.prems(1)] next_pre] by simp
  have first: "whole_at (pre @ concat (t # ts)) old (length pre) \<longleftrightarrow> t = old"
  proof
    assume "whole_at (pre @ concat (t # ts)) old (length pre)"
    then obtain r where r: "t @ concat ts = old @ r" "r = [] \<or> \<not> is_ident_byte (hd r)"
      using whole_at_split by auto
    then have "is_ident_byte (hd t)" using assms(2) tok by (cases old; cases t) (auto simp: single_def)
    then have t: "ident t" using tok single_not_ident by blast
    show "t = old" by (rule run_prefix [OF t after [OF t] assms(2) r])
  next
    assume t: "t = old"
    then have "pre = [] \<or> \<not> is_ident_byte (last pre)" using Cons.prems(2) assms(2) single_not_ident by auto
    moreover have "concat ts = [] \<or> \<not> is_ident_byte (hd (concat ts))" using after t assms(2) by simp
    ultimately show "whole_at (pre @ concat (t # ts)) old (length pre)" using t by (simp add: whole_at_split)
  qed
  have inside: "\<not> whole_at (pre @ concat (t # ts)) old i" if i: "length pre < i" "i < length (pre @ t)"
  proof -
    have "\<not> single t" using i by (auto simp: single_def)
    then have t: "ident t" using tok by blast
    let ?k = "i - length pre"
    have k: "0 < ?k" "?k \<le> length t" using i by auto
    have "boundary_byte (pre @ concat (t # ts)) (int i - 1) = t ! (?k - 1)"
      using i by (auto simp: boundary_byte_def nth_append nat_diff_distrib)
    moreover have "is_ident_byte (t ! (?k - 1))" using t k by (auto simp: list_all_length)
    ultimately show ?thesis by (simp add: whole_at_def)
  qed
  consider "i < length pre" | "i = length pre" | "length pre < i" "i < length (pre @ t)" | "length (pre @ t) \<le> i"
    by linarith
  then show ?case
  proof cases
    case 1
    then show ?thesis using offsets_ge [of i old "length pre + length t" ts] by auto
  next
    case 2
    moreover have "t \<noteq> []" using tok by (auto simp: single_def)
    ultimately show ?thesis using first offsets_ge [of i old "length pre + length t" ts] by auto
  next
    case 3
    then show ?thesis using inside offsets_ge [of i old "length pre + length t" ts] by auto
  next
    case 4
    moreover have "t \<noteq> []" using tok by (auto simp: single_def)
    ultimately show ?thesis using IH by auto
  qed
qed

lemma sorted_offsets: "tokenized ts \<Longrightarrow> sorted_wrt (<) (offsets old off ts)"
proof (induction ts arbitrary: off)
  case (Cons t ts)
  have "t \<noteq> []" using tokenized_hd [OF Cons.prems] by (auto simp: single_def)
  have "\<forall>i \<in> set (offsets old (off + length t) ts). off < i"
  proof
    fix i assume "i \<in> set (offsets old (off + length t) ts)"
    then have "off + length t \<le> i" by (rule offsets_ge)
    then show "off < i" using \<open>t \<noteq> []\<close> by (cases t) auto
  qed
  then show ?case using Cons.IH [OF tokenized_tl [OF Cons.prems]] by simp
qed simp

text \<open>The scan finds exactly the whole occurrences, when the name consists of identifier bytes.\<close>

definition span_of :: "string \<Rightarrow> nat \<Rightarrow> span" where
  "span_of old i = \<lparr>sp_start = int i, sp_end = int (i + length old)\<rparr>"

lemma span_loop_eq:
  assumes "ident old"
  shows "span_loop src old from acc =
    Some (acc @ map (span_of old) (filter (whole_at src old) [from..<Suc (length src)]))"
proof (induction "Suc (length src) - from" arbitrary: "from" acc rule: less_induct)
  case less
  have ne: "old \<noteq> []" using assms by simp
  show ?case
  proof (cases "index_of old (drop from src)")
    case None
    have "\<not> whole_at src old i" if "from \<le> i" for i
    proof -
      have "i = (i - from) + from" using that by simp
      then show ?thesis using index_of_None [OF ne None, of "i - from"] by (simp add: whole_at_def)
    qed
    then have "filter (whole_at src old) [from..<Suc (length src)] = []" by (auto simp: filter_empty_conv)
    then show ?thesis using None by (simp add: span_loop_none)
  next
    case (Some k)
    let ?i = "from + k"
    note ix = index_of_Some [OF Some]
    have hp: "has_prefix (drop ?i src) old" using ix by (simp add: add.commute)
    then have len: "?i + length old \<le> length src" 
    proof -
      obtain r where "drop ?i src = old @ r" using hp by (auto simp: has_prefix_iff)
      then have "length src - ?i = length old + length r" by (metis length_append length_drop)
      then show ?thesis using ne by (cases old) auto
    qed
    have before: "\<not> whole_at src old j" if "from \<le> j" "j < ?i" for j
    proof -
      have "j - from < k" "(j - from) + from = j" using that by simp_all
      then show ?thesis using ix by (metis drop_drop whole_at_def)
    qed
    have inside: "\<not> whole_at src old j" if "?i < j" "j < ?i + length old" for j
    proof -
      obtain r where r: "drop ?i src = old @ r" using hp by (auto simp: has_prefix_iff)
      have "src ! (j - 1) = drop ?i src ! (j - 1 - ?i)" using that len by simp
      also have "\<dots> = old ! (j - 1 - ?i)" 
      proof -
        have "j - 1 - ?i < length old" using that by linarith
        then show ?thesis unfolding r by (simp add: nth_append)
      qed
      finally have "is_ident_byte (src ! (j - 1))" using assms that by (auto simp: list_all_length)
      then have "is_ident_byte (boundary_byte src (int j - 1))" using that len by (simp add: boundary_byte_def nat_diff_distrib)
      then show ?thesis by (simp add: whole_at_def)
    qed
    have "[from..<Suc (length src)] = [from..<?i] @ ?i # [Suc ?i..<?i + length old] @ [?i + length old..<Suc (length src)]"
    proof -
      have "[from..<Suc (length src)] = [from..<?i] @ [?i..<Suc (length src)]"
        using len by (metis le_SucI le_add1 le_trans upt_add_eq_append le_add_diff_inverse)
      also have "[?i..<Suc (length src)] = [?i..<?i + length old] @ [?i + length old..<Suc (length src)]"
        using len by (metis le_SucI le_add1 upt_add_eq_append le_add_diff_inverse)
      also have "[?i..<?i + length old] = ?i # [Suc ?i..<?i + length old]"
        using ne by (simp add: upt_conv_Cons)
      finally show ?thesis by simp
    qed
    moreover have "filter (whole_at src old) [from..<?i] = []" using before by (auto simp: filter_empty_conv)
    moreover have "filter (whole_at src old) [Suc ?i..<?i + length old] = []"
      using inside by (auto simp: filter_empty_conv)
    ultimately have f: "filter (whole_at src old) [from..<Suc (length src)] =
        (if whole_at src old ?i then [?i] else []) @ filter (whole_at src old) [?i + length old..<Suc (length src)]"
      by simp
    have w: "whole_at src old ?i \<longleftrightarrow> \<not> is_ident_byte (boundary_byte src (int ?i - 1)) \<and>
        \<not> is_ident_byte (boundary_byte src (int (?i + length old)))"
      using hp by (simp add: whole_at_def)
    have "Suc (length src) - (?i + length old) < Suc (length src) - from" using len ne by (cases old) auto
    note IH = less [OF this]
    show ?thesis
    proof -
      have "span_loop src old from acc = span_loop src old (?i + length old)
          (if whole_at src old ?i then acc @ [span_of old ?i] else acc)"
        by (subst span_loop.simps) (simp only: Some option.case w span_of_def)
      then show ?thesis unfolding IH f by (simp del: upt_Suc)
    qed
  qed
qed

lemma identifier_spans_eq:
  assumes "ident old"
  shows "identifier_spans src old = Some (map (span_of old) (offsets old 0 (tokens src)))"
proof -
  have w: "whole_at src old i \<longleftrightarrow> i \<in> set (offsets old 0 (tokens src))" for i
    using offsets_whole [OF tokenized_tokens assms, of "[]" src i] by (simp add: concat_tokens)
  have "i \<le> length src" if "whole_at src old i" for i
    using that assms by (rule_tac ccontr) (auto simp: whole_at_def has_prefix_iff)
  then have "set (filter (whole_at src old) [0..<Suc (length src)]) = set (offsets old 0 (tokens src))"
    using w by (auto simp: less_Suc_eq_le simp del: upt_Suc)
  moreover have "sorted_wrt (<) (filter (whole_at src old) [0..<Suc (length src)])"
    by (intro sorted_wrt_filter) (simp del: upt_Suc)
  ultimately have "filter (whole_at src old) [0..<Suc (length src)] = offsets old 0 (tokens src)"
    using sorted_offsets [OF tokenized_tokens] by (intro ssorted_unique) auto
  then show ?thesis by (simp add: identifier_spans_def span_loop_eq [OF assms] del: upt_Suc)
qed

subsection \<open>Applying the planned spans\<close>

definition op_at :: "string \<Rightarrow> string \<Rightarrow> string \<Rightarrow> nat \<Rightarrow> edit_op" where
  "op_at rel old new i = \<lparr>eo_target = [], eo_file = rel, eo_span = span_of old i, eo_replacement = new\<rparr>"

lemma apply_each_append:
  "apply_each out (a @ b) = (case apply_each out a of Inl e \<Rightarrow> Inl e | Inr out' \<Rightarrow> apply_each out' b)"
  by (induction a arbitrary: out) (auto split: sum.split)

lemma apply_span_at:
  "apply_span (pre @ t @ s) (span_of t (length pre)) new = Inr (pre @ new @ s)"
  by (simp add: apply_span_def span_of_def)

lemma apply_offsets:
  "apply_each (pre @ concat ts) (map (op_at rel old new) (rev (offsets old (length pre) ts))) =
     Inr (pre @ concat (map (rename_token old new) ts))"
proof (induction ts arbitrary: pre)
  case (Cons t ts)
  have IH: "apply_each (pre @ t @ concat ts) (map (op_at rel old new) (rev (offsets old (length pre + length t) ts))) =
      Inr (pre @ t @ concat (map (rename_token old new) ts))"
    using Cons [of "pre @ t"] by simp
  have "apply_span (pre @ t @ s) (span_of old (length pre)) new = Inr (pre @ new @ s)" if "t = old" for s
    using apply_span_at [of pre old s new] that by simp
  then have "apply_each (pre @ t @ s) (map (op_at rel old new) (rev (if t = old then [length pre] else []))) =
      Inr (pre @ rename_token old new t @ s)" for s
    by (simp add: op_at_def rename_token_def)
  then show ?case by (simp add: apply_each_append IH)
qed simp

text \<open>There is only one order for operations with different starts.\<close>

lemma sorts_distinct:
  assumes "sorts_ops srt" "sorted_wrt (\<lambda>a b. sp_start (eo_span a) > sp_start (eo_span b)) ops'" "mset ops = mset ops'"
  shows "srt ops = ops'"
proof -
  let ?f = "\<lambda>op. - sp_start (eo_span op)"
  have s: "sorted (map ?f (srt ops))" "mset (srt ops) = mset ops"
    using assms(1) by (auto simp: sorts_ops_def sorted_map)
  have s': "sorted_wrt (\<lambda>a b. ?f a < ?f b) ops'" using assms(2) by simp
  then have d: "distinct (map ?f ops')" "sorted (map ?f ops')"
  proof -
    have "sorted_wrt (<) (map ?f ops')" unfolding sorted_wrt_map using s' .
    then show "distinct (map ?f ops')" "sorted (map ?f ops')" by (simp_all only: strict_sorted_iff)
  qed
  have m: "mset (srt ops) = mset ops'" using s(2) assms(3) by simp
  then have "map ?f (srt ops) = map ?f ops'"
    by (metis d(2) mset_map properties_for_sort s(1) sort_key_id_if_sorted sorted_sort_id)
  moreover have "inj_on ?f (set (srt ops) \<union> set ops')"
    using d(1) mset_eq_setD [OF m] by (simp add: distinct_map)
  ultimately show ?thesis by (metis map_inj_on)
qed

lemma offsets_apart: "tokenized ts \<Longrightarrow> ident old \<Longrightarrow>
   sorted_wrt (\<lambda>i j. i + length old \<le> j) (offsets old off ts)"
proof (induction ts arbitrary: off)
  case (Cons t ts)
  have "\<forall>i \<in> set (offsets old (off + length t) ts). off + length t \<le> i" using offsets_ge by blast
  then show ?case using Cons.IH [OF tokenized_tl [OF Cons.prems(1)] Cons.prems(2)] by auto
qed simp

lemma overlapping_rev:
  assumes "sorted_wrt (\<lambda>i j. i + length old \<le> j) is"
  shows "\<not> overlapping (map (op_at rel old new) (rev is))"
proof -
  have "sorted_wrt (\<lambda>i j. j + length old \<le> i) (rev is)" using assms by (simp add: sorted_wrt_rev)
  then show ?thesis
  proof (induction "rev is" arbitrary: "is")
    case (Cons j js)
    then have "sorted_wrt (\<lambda>i j. j + length old \<le> i) (j # js)" by simp
    moreover have "\<not> overlapping (map (op_at rel old new) js)"
      using Cons.hyps(1) [of "rev js"] Cons.prems Cons.hyps(2) by (metis rev_rev_ident sorted_wrt.simps(2))
    ultimately show ?case unfolding Cons.hyps(2) [symmetric] by (cases js) (auto simp: op_at_def span_of_def)
  qed simp
qed

lemma apply_planned:
  assumes "sorts_ops srt" "ident old"
  shows "apply_spans srt src (map (op_at rel old new) (offsets old 0 (tokens src))) = Inr (rename_source old new src)"
proof -
  let ?is = "offsets old 0 (tokens src)"
  have each: "apply_each src (map (op_at rel old new) (rev ?is)) = Inr (rename_source old new src)"
    using apply_offsets [of "[]" "tokens src"] by (simp add: concat_tokens rename_source_def)
  have desc: "sorted_wrt (\<lambda>a b. sp_start (eo_span a) > sp_start (eo_span b)) (map (op_at rel old new) (rev ?is))"
    using sorted_offsets [OF tokenized_tokens, of old 0 src]
    by (simp add: sorted_wrt_map sorted_wrt_rev op_at_def span_of_def)
  have srt: "srt (map (op_at rel old new) ?is) = map (op_at rel old new) (rev ?is)"
    by (rule sorts_distinct [OF assms(1) desc]) simp
  note ov = overlapping_rev [OF offsets_apart [OF tokenized_tokens assms(2)], of rel new 0 src]
  show ?thesis
  proof (cases ?is)
    case (Cons i "is'")
    show ?thesis
    proof (cases "is'")
      case Nil
      then show ?thesis using each Cons by (auto simp: apply_spans_def split: sum.splits)
    next
      case (Cons j js)
      then show ?thesis using each srt ov \<open>?is = i # is'\<close> by (simp add: apply_spans_def)
    qed
  next
    case Nil
    then show ?thesis using each srt ov by (simp add: apply_spans_def)
  qed
qed

subsection \<open>The planner\<close>

definition file_ops :: "(string \<Rightarrow> read_result) \<Rightarrow> string \<Rightarrow> string \<Rightarrow> string \<Rightarrow> edit_op list" where
  "file_ops read old new rel =
     (case read rel of Content c \<Rightarrow> map (op_at rel old new) (offsets old 0 (tokens c)) | _ \<Rightarrow> [])"

lemma offsets_empty: "offsets old off ts = [] \<longleftrightarrow> old \<notin> set ts"
  by (induction ts arbitrary: off) auto

lemma file_ops_file: "op \<in> set (file_ops read old new rel) \<Longrightarrow> eo_file op = rel"
  by (auto simp: file_ops_def op_at_def split: read_result.splits)

lemma file_ops_simps:
  "read rel = Content c \<Longrightarrow> file_ops read old new rel = map (op_at rel old new) (offsets old 0 (tokens c))"
  "read rel = NotExist \<Longrightarrow> file_ops read old new rel = []"
  by (simp_all add: file_ops_def)

lemma plan_files_eq:
  assumes "ident old"
  shows "plan_files read old new rels = Some
     (if \<exists>rel \<in> set rels. read rel = ReadError then Inl ErrInvalidOp
      else Inr (concat (map (file_ops read old new) rels)))"
proof (induction rels)
  case (Cons rel rels)
  show ?case
    by (cases "read rel")
      (simp_all add: Cons identifier_spans_eq [OF assms] file_ops_simps op_at_def o_def)
qed simp

lemma plan_rewrite_eq:
  assumes "ident old" "all = concat (map (file_ops read old new) (sort files))"
  shows "plan_name_rewrite read files old new = Some
     (if old = new \<or> (\<exists>rel \<in> set files. read rel = ReadError) \<or> all = [] then Inl ErrInvalidOp else Inr all)"
proof -
  have "old \<noteq> []" using assms(1) by simp
  then show ?thesis
    unfolding plan_name_rewrite_def plan_files_eq [OF assms(1)] assms(2) [symmetric]
    by (cases all) (simp_all del: concat_eq_Nil_conv)
qed

lemma filter_concat_files:
  assumes "distinct rels" "rel \<in> set rels" "\<And>r op. op \<in> set (g r) \<Longrightarrow> eo_file op = r"
  shows "filter (\<lambda>op. eo_file op = rel) (concat (map g rels)) = g rel"
  using assms(1,2)
proof (induction rels)
  case (Cons r rels)
  have none: "filter (\<lambda>op. eo_file op = rel) (concat (map g rs)) = []" if "rel \<notin> set rs" for rs
    using that assms(3) by (auto simp: filter_empty_conv)
  have "filter (\<lambda>op. eo_file op = rel) (g r) = (if r = rel then g r else [])"
    using assms(3) by (auto simp: filter_id_conv filter_empty_conv)
  then show ?case using Cons none by auto
qed simp

subsection \<open>Properties\<close>

text \<open>
  planning a rename of an identifier always returns: an error exactly when the names are
  equal, a file cannot be read, or the name occurs in no file of the blast radius; otherwise one
  operation for each whole occurrence, files ascending and offsets ascending.
\<close>

theorem rename_plan_returns:
  assumes "ident old"
  shows "plan_name_rewrite read files old new = Some
     (if old = new \<or> (\<exists>rel \<in> set files. read rel = ReadError) \<or>
         \<not> (\<exists>rel \<in> set files. \<exists>c. read rel = Content c \<and> old \<in> set (tokens c))
      then Inl ErrInvalidOp
      else Inr (concat (map (\<lambda>rel. case read rel of
          Content c \<Rightarrow> map (\<lambda>i. \<lparr>eo_target = [], eo_file = rel,
             eo_span = \<lparr>sp_start = int i, sp_end = int (i + length old)\<rparr>, eo_replacement = new\<rparr>) (offsets old 0 (tokens c))
        | _ \<Rightarrow> []) (sort files))))"
proof -
  let ?all = "concat (map (file_ops read old new) (sort files))"
  have "?all = [] \<longleftrightarrow> \<not> (\<exists>rel \<in> set files. \<exists>c. read rel = Content c \<and> old \<in> set (tokens c))"
    by (auto simp: file_ops_def offsets_empty split: read_result.splits)
  moreover have "?all = concat (map (\<lambda>rel. case read rel of
          Content c \<Rightarrow> map (\<lambda>i. \<lparr>eo_target = [], eo_file = rel,
             eo_span = \<lparr>sp_start = int i, sp_end = int (i + length old)\<rparr>, eo_replacement = new\<rparr>) (offsets old 0 (tokens c))
        | _ \<Rightarrow> []) (sort files))"
    unfolding file_ops_def op_at_def span_of_def ..
  ultimately show ?thesis unfolding plan_rewrite_eq [OF assms refl] by simp
qed

text \<open>
  C27: applying the planned operations to a file, in whatever order an unstable sort leaves
  them, replaces exactly the identifiers that are the old name and nothing else.
\<close>

theorem rename_plan_exact:
  assumes "ident old" "distinct files" "sorts_ops srt"
    and "plan_name_rewrite read files old new = Some (Inr ops)"
    and "rel \<in> set files" "read rel = Content c"
  shows "apply_spans srt c (filter (\<lambda>op. eo_file op = rel) ops) =
    Inr (concat (map (\<lambda>t. if t = old then new else t) (tokens c)))"
proof -
  have "ops = concat (map (file_ops read old new) (sort files))"
    using assms(4) unfolding plan_rewrite_eq [OF assms(1) refl] by (auto split: if_splits)
  then have "filter (\<lambda>op. eo_file op = rel) ops = file_ops read old new rel"
    using filter_concat_files [of "sort files" rel "file_ops read old new"] assms(2,5) file_ops_file by auto
  then have "apply_spans srt c (filter (\<lambda>op. eo_file op = rel) ops) = Inr (rename_source old new c)"
    using apply_planned [OF assms(3,1)] assms(6) by (simp add: file_ops_def)
  then show ?thesis unfolding rename_source_def rename_token_def .
qed

text \<open>
  C28: a rename to an identifier that the file does not use is undone by the rename back: both
  plans exist and applying them one after the other restores the bytes.
\<close>

theorem rename_roundtrip:
  assumes "ident old" "ident new" "old \<noteq> new" "sorts_ops srt"
    and "old \<in> set (tokens c)" "new \<notin> set (tokens c)"
  shows "\<exists>ops c' ops'. plan_name_rewrite (\<lambda>_. Content c) [rel] old new = Some (Inr ops) \<and>
    apply_spans srt c ops = Inr c' \<and>
    plan_name_rewrite (\<lambda>_. Content c') [rel] new old = Some (Inr ops') \<and> apply_spans srt c' ops' = Inr c"
proof -
  let ?c = "rename_source old new c"
  have t: "tokens ?c = map (rename_token old new) (tokens c)"
    unfolding rename_source_def by (rule tokens_concat) (rule tokenized_rename [OF tokenized_tokens assms(2,1)])
  have n: "new \<in> set (tokens ?c)" unfolding t using assms(5) by (force simp: rename_token_def)
  have p: "plan_name_rewrite (\<lambda>_. Content d) [rel] a b = Some (Inr (map (op_at rel a b) (offsets a 0 (tokens d))))"
    if "ident a" "a \<noteq> b" "a \<in> set (tokens d)" for a b d
  proof -
    have "map (op_at rel a b) (offsets a 0 (tokens d)) \<noteq> []" using that(3) by (simp add: offsets_empty)
    then show ?thesis using that(2) by (simp add: plan_rewrite_eq [OF that(1) refl] file_ops_def)
  qed
  show ?thesis
    using p [OF assms(1,3,5)] apply_planned [OF assms(4,1)] p [OF assms(2) assms(3) [symmetric] n]
      apply_planned [OF assms(4,2), of ?c rel old] rename_back [OF assms(1,2,6)]
    by metis
qed

subsection \<open>Witnesses\<close>

definition stable_ops :: "edit_op list \<Rightarrow> edit_op list" where
  "stable_ops ops = sort_key (\<lambda>op. - sp_start (eo_span op)) ops"

lemma stable_sorts: "sorts_ops stable_ops"
  unfolding sorts_ops_def stable_ops_def
  by (metis (mono_tags, lifting) mset_sort neg_le_iff_le sorted_map sorted_sort_key sorted_wrt_mono_rel)

lemma small_tokens: "tokens ''f(fx,f)'' = [''f'', ''('', ''fx'', '','', ''f'', '')'']"
  by code_simp

lemma small_ident: "ident ''f'' \<and> ident ''g''"
  by code_simp

theorem rename_plan_returns_witness:
  "plan_name_rewrite (\<lambda>_. Content ''f(fx,f)'') [''a.go''] ''f'' ''g'' = Some (Inr
     [\<lparr>eo_target = [], eo_file = ''a.go'', eo_span = \<lparr>sp_start = 0, sp_end = 1\<rparr>, eo_replacement = ''g''\<rparr>,
      \<lparr>eo_target = [], eo_file = ''a.go'', eo_span = \<lparr>sp_start = 5, sp_end = 6\<rparr>, eo_replacement = ''g''\<rparr>])"
  using rename_plan_returns [of "''f''" "\<lambda>_. Content ''f(fx,f)''" "[''a.go'']" "''g''"] small_ident
  by (simp add: small_tokens del: tokens.simps)

theorem rename_plan_exact_witness:
  "\<exists>ops. plan_name_rewrite (\<lambda>_. Content ''f(fx,f)'') [''a.go''] ''f'' ''g'' = Some (Inr ops) \<and>
     apply_spans stable_ops ''f(fx,f)'' (filter (\<lambda>op. eo_file op = ''a.go'') ops) = Inr ''g(fx,g)''"
proof -
  have f: "ident ''f''" using small_ident by blast
  have "concat (map (file_ops (\<lambda>_. Content ''f(fx,f)'') ''f'' ''g'') (sort [''a.go''])) \<noteq> []"
    by (simp add: file_ops_def small_tokens del: tokens.simps)
  then obtain ops where o: "plan_name_rewrite (\<lambda>_. Content ''f(fx,f)'') [''a.go''] ''f'' ''g'' = Some (Inr ops)"
    by (simp add: plan_rewrite_eq [OF f refl])
  have "apply_spans stable_ops ''f(fx,f)'' (filter (\<lambda>op. eo_file op = ''a.go'') ops) =
      Inr (concat (map (\<lambda>t. if t = ''f'' then ''g'' else t) (tokens ''f(fx,f)'')))"
    by (rule rename_plan_exact [OF f _ stable_sorts o]) simp_all
  then show ?thesis using o by (simp add: small_tokens del: tokens.simps)
qed

theorem rename_roundtrip_witness:
  "\<exists>ops c' ops'. plan_name_rewrite (\<lambda>_. Content ''f(fx,f)'') [''a.go''] ''f'' ''g'' = Some (Inr ops) \<and>
    apply_spans stable_ops ''f(fx,f)'' ops = Inr c' \<and>
    plan_name_rewrite (\<lambda>_. Content c') [''a.go''] ''g'' ''f'' = Some (Inr ops') \<and>
    apply_spans stable_ops c' ops' = Inr ''f(fx,f)''"
  by (rule rename_roundtrip [OF _ _ _ stable_sorts]) (use small_ident in \<open>simp_all add: small_tokens del: tokens.simps\<close>)

end
