(* ===== verification/EditSaga.thy ===== *)
theory EditSaga
  imports EditPlan MemReads
begin

text \<open>
  The edit sagas of \<open>engine/edit\<close>: \<open>Apply\<close> (\<open>edit.go\<close>), \<open>applyBatch\<close> (\<open>refactor.go\<close>),
  \<open>Undo\<close> (\<open>undo.go\<close>) with the change records of \<open>audit.go\<close>, and the consistency checker
  (\<open>consistency.go\<close>), over the in-memory store.

  A world holds the source files by absolute path, the store, the ingester's own state \<open>'m\<close>, the
  snapshot files, the armed test faults and the number of atomic writes tried so far.  The
  environment says what the outside did: which of the atomic writes succeed (a failed one leaves its
  file as it was: temporary file and rename), whether directories can be made and identifiers
  minted, what the context answers at the snapshot and at a compensating load, and the ingester and
  the checker, which are functions of the whole world.
\<close>

subsection \<open>World and environment\<close>

datatype fault_stage = FaultNone | FaultAfterSourceWrite | FaultDuringReindex | FaultConsistencyCheck

record 'm world =
  wd_files :: "(string, string) fmap"
  wd_store :: mem_store
  wd_meta :: 'm
  wd_snaps :: disk
  wd_ticks :: nat
  wd_fault :: fault_stage
  wd_batch_fail_k :: int

record 'm saga_env =
  se_root :: string
  se_hash :: hash64
  se_resolve :: "string \<Rightarrow> string option"
  se_snap_path :: string
  se_mkdir :: bool
  se_write :: "nat \<Rightarrow> bool"
  se_snap_io :: "store_error option"
  se_snap_ctx :: "store_error option"
  se_load_ctx :: "store_error option"
  se_edit_id :: "string option"
  se_ingest :: "string list \<Rightarrow> (string, string) fmap \<Rightarrow> mem_store \<times> 'm \<Rightarrow> (mem_store \<times> 'm) \<times> bool"
  se_check :: "(string, string) fmap \<Rightarrow> mem_store \<times> 'm \<Rightarrow> bool"
  se_sort :: "edit_op list \<Rightarrow> edit_op list"

record edit_result =
  er_outcome :: string
  er_target :: string
  er_touched :: "string list"
  er_edit_id :: string
  er_undo_token :: string

definition outcome_applied :: string where "outcome_applied = ''applied''"
definition outcome_rolled_back :: string where "outcome_rolled_back = ''rolled_back''"

definition rolled_back :: "string \<Rightarrow> edit_result" where
  "rolled_back target =
     \<lparr>er_outcome = outcome_rolled_back, er_target = target, er_touched = [], er_edit_id = [], er_undo_token = []\<rparr>"

definition write_file_atomic :: "'m saga_env \<Rightarrow> string \<Rightarrow> string \<Rightarrow> 'm world \<Rightarrow> 'm world \<times> bool" where
  "write_file_atomic env path data w =
     (let ok = se_write env (wd_ticks w);
          w' = w\<lparr>wd_ticks := Suc (wd_ticks w)\<rparr>
      in if ok then (w'\<lparr>wd_files := fmupd path data (wd_files w)\<rparr>, True) else (w', False))"

subsection \<open>The consistency checker\<close>

text \<open>
  \<open>digest\<close> is SHA-256 of the printed document; \<open>full\<close> is the store
  that a full re-index of the sources builds, with the error it may end in.
\<close>

definition graph_digest ::
  "(string \<Rightarrow> string) \<Rightarrow> (graph_wire \<Rightarrow> string) \<Rightarrow> mem_store \<Rightarrow> edit_error + string" where
  "graph_digest lower digest m =
     (case mem_nodes lower None m any_query of
        Inl err \<Rightarrow> Inl ErrInconsistent
      | Inr ns \<Rightarrow>
          (case mem_edges lower None m any_query of
             Inl err \<Rightarrow> Inl ErrInconsistent
           | Inr es \<Rightarrow>
               (case marshal (new_graph ns es) of Inl err \<Rightarrow> Inl ErrInconsistent | Inr doc \<Rightarrow> Inr (digest doc))))"

definition parser_check ::
  "(string \<Rightarrow> string) \<Rightarrow> (graph_wire \<Rightarrow> string) \<Rightarrow> ((string, string) fmap \<Rightarrow> mem_store option)
     \<Rightarrow> (string, string) fmap \<Rightarrow> mem_store \<times> 'm \<Rightarrow> bool" where
  "parser_check lower digest full files live =
     (case full files of
        None \<Rightarrow> False
      | Some full_store \<Rightarrow>
          (case graph_digest lower digest (fst live) of
             Inl e \<Rightarrow> False
           | Inr live_digest \<Rightarrow>
               (case graph_digest lower digest full_store of
                  Inl e \<Rightarrow> False
                | Inr full_digest \<Rightarrow> live_digest = full_digest)))"

subsection \<open>Compensation\<close>

fun restore_files :: "'m saga_env \<Rightarrow> (string \<times> string) list \<Rightarrow> 'm world \<Rightarrow> 'm world \<times> bool" where
  "restore_files env [] w = (w, True)"
| "restore_files env ((path, original) # rest) w =
     (case write_file_atomic env path original w of
        (w1, ok) \<Rightarrow> (case restore_files env rest w1 of (w2, oks) \<Rightarrow> (w2, ok \<and> oks)))"

definition compensate ::
  "'m saga_env \<Rightarrow> (string \<times> string) list \<Rightarrow> string \<Rightarrow> edit_error \<Rightarrow> 'm world \<Rightarrow> 'm world \<times> edit_error" where
  "compensate env originals snap cause w =
     (case restore_files env originals w of
        (w1, ok) \<Rightarrow>
          (case mem_load (se_hash env) (se_resolve env) (se_load_ctx env) (wd_store w1) snap (wd_snaps w1) of
             (m', err) \<Rightarrow>
               (w1\<lparr>wd_store := m'\<rparr>, if \<not> ok \<or> err \<noteq> None then ErrRollback cause else cause)))"

definition remove_snapshot :: "'m saga_env \<Rightarrow> string \<Rightarrow> 'm world \<Rightarrow> 'm world" where
  "remove_snapshot env snap w =
     w\<lparr>wd_snaps := (case se_resolve env snap of None \<Rightarrow> wd_snaps w | Some safe \<Rightarrow> fmdrop safe (wd_snaps w))\<rparr>"

text \<open>
  The re-index and the gate shared by the sagas: the world after them, whether the pass had returned
  (the result then carries the touched files and the edit), and the error, if any.
\<close>

definition reindex_and_check ::
  "'m saga_env \<Rightarrow> string list \<Rightarrow> 'm world \<Rightarrow> 'm world \<times> bool \<times> edit_error option" where
  "reindex_and_check env rels w =
     (if wd_fault w = FaultDuringReindex then (w\<lparr>wd_fault := FaultNone\<rparr>, False, Some ErrReindex)
      else case se_edit_id env of
        None \<Rightarrow> (w, False, Some ErrMint)
      | Some i \<Rightarrow>
          (case se_ingest env rels (wd_files w) (wd_store w, wd_meta w) of
             ((m', meta'), ok) \<Rightarrow>
               let w' = w\<lparr>wd_store := m', wd_meta := meta'\<rparr> in
               if \<not> ok then (w', False, Some ErrReindex)
               else if wd_fault w' = FaultConsistencyCheck then (w'\<lparr>wd_fault := FaultNone\<rparr>, True, Some ErrInconsistent)
               else if \<not> se_check env (wd_files w') (wd_store w', wd_meta w') then (w', True, Some ErrInconsistent)
               else (w', True, None)))"

definition reindexed :: "'m saga_env \<Rightarrow> string list \<Rightarrow> bool \<Rightarrow> edit_result \<Rightarrow> edit_result" where
  "reindexed env rels done res =
     (if done then res\<lparr>er_touched := rels, er_edit_id := (case se_edit_id env of None \<Rightarrow> [] | Some i \<Rightarrow> i)\<rparr> else res)"

subsection \<open>One file: \<open>Apply\<close>\<close>

definition take_fault :: "'m world \<Rightarrow> 'm world \<times> fault_stage" where
  "take_fault w =
     (if wd_fault w = FaultAfterSourceWrite then w\<lparr>wd_fault := FaultNone\<rparr> else w, wd_fault w)"

definition apply_edit :: "'m saga_env \<Rightarrow> edit_op \<Rightarrow> 'm world \<Rightarrow> 'm world \<times> edit_result \<times> edit_error option" where
  "apply_edit env op w =
     (let res = rolled_back (eo_target op); snap = se_snap_path env in
      case resolve_path (se_root env) (eo_file op) of
        Inl e \<Rightarrow> (w, res, Some e)
      | Inr (rel, apath) \<Rightarrow>
          (case fmlookup (wd_files w) apath of
             None \<Rightarrow> (w, res, Some ErrInvalidOp)
           | Some original \<Rightarrow>
               (case apply_span original (eo_span op) (eo_replacement op) of
                  Inl e \<Rightarrow> (w, res, Some e)
                | Inr new_content \<Rightarrow>
                    if \<not> se_mkdir env then (w, res, Some ErrWriteFailed)
                    else (case mem_snapshot (se_resolve env) (se_snap_io env) (se_snap_ctx env) (wd_store w) snap (wd_snaps w) of
                      (snaps', Some err) \<Rightarrow> (remove_snapshot env snap (w\<lparr>wd_snaps := snaps'\<rparr>), res, Some ErrWriteFailed)
                    | (snaps', None) \<Rightarrow>
                        (case write_file_atomic env apath new_content (w\<lparr>wd_snaps := snaps'\<rparr>) of
                           (w1, False) \<Rightarrow> (remove_snapshot env snap w1, res, Some ErrWriteFailed)
                         | (w1, True) \<Rightarrow>
                             (case take_fault w1 of
                                (w2, stage) \<Rightarrow>
                                  (case (if stage = FaultAfterSourceWrite then (w2, False, Some ErrWriteFailed)
                                         else reindex_and_check env [rel] w2) of
                                     (w3, done, Some cause) \<Rightarrow>
                                       (case compensate env [(apath, original)] snap cause w3 of
                                          (w4, e) \<Rightarrow> (remove_snapshot env snap w4, reindexed env [rel] done res, Some e))
                                   | (w3, done, None) \<Rightarrow>
                                       (remove_snapshot env snap w3,
                                        (reindexed env [rel] done res)\<lparr>er_outcome := outcome_applied\<rparr>, None))))))))"

subsection \<open>Many files: \<open>applyBatch\<close>\<close>

record file_edit =
  fe_abs :: string
  fe_rel :: string
  fe_ops :: "edit_op list"

fun add_op :: "string \<Rightarrow> string \<Rightarrow> edit_op \<Rightarrow> file_edit list \<Rightarrow> file_edit list" where
  "add_op rel apath op [] = [\<lparr>fe_abs = apath, fe_rel = rel, fe_ops = [op]\<rparr>]"
| "add_op rel apath op (fe # fes) =
     (if fe_rel fe = rel then fe\<lparr>fe_ops := fe_ops fe @ [op]\<rparr> # fes else fe # add_op rel apath op fes)"

fun group_ops :: "string \<Rightarrow> edit_op list \<Rightarrow> file_edit list \<Rightarrow> edit_error + file_edit list" where
  "group_ops dir [] fes = Inr fes"
| "group_ops dir (op # ops) fes =
     (case resolve_path dir (eo_file op) of
        Inl e \<Rightarrow> Inl e
      | Inr (rel, apath) \<Rightarrow> group_ops dir ops (add_op rel apath op fes))"

text \<open>A planned file: its path, its original bytes and its new bytes.\<close>

record planned_file =
  pf_abs :: string
  pf_rel :: string
  pf_original :: string
  pf_content :: string

fun plan_contents ::
  "(edit_op list \<Rightarrow> edit_op list) \<Rightarrow> (string, string) fmap \<Rightarrow> file_edit list \<Rightarrow> edit_error + planned_file list" where
  "plan_contents srt files [] = Inr []"
| "plan_contents srt files (fe # fes) =
     (case fmlookup files (fe_abs fe) of
        None \<Rightarrow> Inl ErrInvalidOp
      | Some original \<Rightarrow>
          (case apply_spans srt original (fe_ops fe) of
             Inl e \<Rightarrow> Inl e
           | Inr content \<Rightarrow>
               (case plan_contents srt files fes of
                  Inl e \<Rightarrow> Inl e
                | Inr pfs \<Rightarrow>
                    Inr (\<lparr>pf_abs = fe_abs fe, pf_rel = fe_rel fe, pf_original = original, pf_content = content\<rparr> # pfs))))"

text \<open>
  Step 4, with the index of the file being written and the files written so far; the armed fault
  fires before its file is written.
\<close>

fun write_all ::
  "'m saga_env \<Rightarrow> nat \<Rightarrow> planned_file list \<Rightarrow> planned_file list \<Rightarrow> 'm world
     \<Rightarrow> 'm world \<times> planned_file list \<times> edit_error option" where
  "write_all env idx written [] w = (w, written, None)"
| "write_all env idx written (pf # pfs) w =
     (if wd_batch_fail_k w > 0 \<and> int idx + 1 = wd_batch_fail_k w
      then (w\<lparr>wd_batch_fail_k := 0\<rparr>, written, Some ErrWriteFailed)
      else (case write_file_atomic env (pf_abs pf) (pf_content pf) w of
              (w1, False) \<Rightarrow> (w1, written @ [pf], Some ErrWriteFailed)
            | (w1, True) \<Rightarrow> write_all env (Suc idx) (written @ [pf]) pfs w1))"

record saga_artifacts =
  sa_snap :: string
  sa_originals :: "(string \<times> string) list"

definition apply_batch ::
  "'m saga_env \<Rightarrow> edit_op list \<Rightarrow> 'm world \<Rightarrow> 'm world \<times> edit_result \<times> saga_artifacts option \<times> edit_error option" where
  "apply_batch env ops w =
     (let res = rolled_back []; snap = se_snap_path env in
      if ops = [] then (w, res, None, Some ErrInvalidOp)
      else case group_ops (se_root env) ops [] of
        Inl e \<Rightarrow> (w, res, None, Some e)
      | Inr fes \<Rightarrow>
          (case plan_contents (se_sort env) (wd_files w) (sort_key fe_rel fes) of
             Inl e \<Rightarrow> (w, res, None, Some e)
           | Inr pfs \<Rightarrow>
               if \<not> se_mkdir env then (w, res, None, Some ErrWriteFailed)
               else (case mem_snapshot (se_resolve env) (se_snap_io env) (se_snap_ctx env) (wd_store w) snap (wd_snaps w) of
                 (snaps', Some err) \<Rightarrow> (remove_snapshot env snap (w\<lparr>wd_snaps := snaps'\<rparr>), res, None, Some ErrWriteFailed)
               | (snaps', None) \<Rightarrow>
                   (case (case write_all env 0 [] pfs (w\<lparr>wd_snaps := snaps'\<rparr>) of
                            (w1, written, Some e) \<Rightarrow> (w1, written, False, Some e)
                          | (w1, written, None) \<Rightarrow>
                              (case reindex_and_check env (map pf_rel pfs) w1 of (w2, done, err) \<Rightarrow> (w2, written, done, err))) of
                      (w2, written, done, Some cause) \<Rightarrow>
                        (case compensate env (map (\<lambda>pf. (pf_abs pf, pf_original pf)) written) snap cause w2 of
                           (w3, e) \<Rightarrow> (remove_snapshot env snap w3, reindexed env (map pf_rel pfs) done res, None, Some e))
                    | (w2, written, done, None) \<Rightarrow>
                        (w2, (reindexed env (map pf_rel pfs) done res)\<lparr>er_outcome := outcome_applied\<rparr>,
                         Some \<lparr>sa_snap = snap, sa_originals = map (\<lambda>pf. (pf_rel pf, pf_original pf)) pfs\<rparr>, None)))))"


subsection \<open>Compensation restores what the snapshot saw\<close>

text \<open>
  The store before an edit: well indexed, open, and of values that the constructors build and a
  snapshot carries unchanged (no NaN confidence, no path that looks drive-prefixed, UTF-8 strings).
\<close>

definition sound_world :: "'m saga_env \<Rightarrow> 'm world \<Rightarrow> bool" where
  "sound_world env w \<longleftrightarrow>
     store_ok (wd_store w) \<and> \<not> closed (wd_store w) \<and>
     (\<forall>n \<in> fmran' (nodes (wd_store w)). built_node (se_hash env) n \<and> \<not> drive_prefixed (n_path n) \<and> utf8_node n) \<and>
     (\<forall>e \<in> fmran' (edges (wd_store w)). built_edge (se_hash env) e \<and> e_conf e \<noteq> NaN \<and> utf8_edge e)"

definition keeps_open :: "'m saga_env \<Rightarrow> bool" where
  "keeps_open env \<longleftrightarrow>
     (\<forall>rels files m meta. \<not> closed m \<longrightarrow> \<not> closed (fst (fst (se_ingest env rels files (m, meta)))))"

definition same_graph :: "mem_store \<Rightarrow> mem_store \<Rightarrow> bool" where
  "same_graph m m' \<longleftrightarrow> nodes m' = nodes m \<and> edges m' = edges m \<and> store_ok m'"

definition all_writes :: "'m saga_env \<Rightarrow> nat \<Rightarrow> nat \<Rightarrow> bool" where
  "all_writes env from_tick k \<longleftrightarrow> (\<forall>i < k. se_write env (from_tick + i))"

lemma all_writes_Suc: "all_writes env t (Suc k) \<longleftrightarrow> se_write env t \<and> all_writes env (Suc t) k"
  unfolding all_writes_def by (auto simp: less_Suc_eq_0_disj)

lemma write_file_atomic_eq:
  "write_file_atomic env path data w =
     (w\<lparr>wd_ticks := Suc (wd_ticks w),
        wd_files := (if se_write env (wd_ticks w) then fmupd path data (wd_files w) else wd_files w)\<rparr>,
      se_write env (wd_ticks w))"
  by (simp add: write_file_atomic_def Let_def)

fun put_all :: "('k \<times> 'v) list \<Rightarrow> ('k, 'v) fmap \<Rightarrow> ('k, 'v) fmap" where
  "put_all [] f = f"
| "put_all ((k, v) # kvs) f = put_all kvs (fmupd k v f)"

lemma restore_files_spec:
  assumes "restore_files env os w = (w', ok)"
  shows "wd_store w' = wd_store w \<and> wd_snaps w' = wd_snaps w \<and> wd_meta w' = wd_meta w \<and>
    (ok \<longleftrightarrow> all_writes env (wd_ticks w) (length os)) \<and> (ok \<longrightarrow> wd_files w' = put_all os (wd_files w))"
  using assms
proof (induction os arbitrary: w w' ok)
  case Nil
  then show ?case by (simp add: all_writes_def)
next
  case (Cons x os)
  obtain path c where x: "x = (path, c)" by fastforce
  let ?w1 = "fst (write_file_atomic env path c w)"
  obtain w2 oks where r: "restore_files env os ?w1 = (w2, oks)" by fastforce
  have e: "w' = w2" "ok = (se_write env (wd_ticks w) \<and> oks)"
    using Cons.prems r by (auto simp: x write_file_atomic_eq)
  show ?case using Cons.IH [OF r] unfolding e by (auto simp: x write_file_atomic_eq all_writes_Suc)
qed

lemma put_all_lookup:
  "fmlookup (put_all kvs f) k = (case map_of (rev kvs) k of None \<Rightarrow> fmlookup f k | Some v \<Rightarrow> Some v)"
  by (induction kvs f rule: put_all.induct) (auto simp: map_add_def split: option.splits)

lemma put_all_restores:
  assumes "\<And>k v. (k, v) \<in> set kvs \<Longrightarrow> fmlookup f0 k = Some v"
    and "\<And>k. k \<notin> fst ` set kvs \<Longrightarrow> fmlookup f k = fmlookup f0 k"
  shows "put_all kvs f = f0"
proof (rule fmap_ext)
  fix k
  show "fmlookup (put_all kvs f) k = fmlookup f0 k"
  proof (cases "map_of (rev kvs) k")
    case None
    then have "k \<notin> fst ` set kvs" by (simp add: map_of_eq_None_iff)
    then show ?thesis using assms(2) None by (simp add: put_all_lookup)
  next
    case (Some v)
    then have "(k, v) \<in> set kvs" using map_of_SomeD by fastforce
    then show ?thesis using assms(1) Some by (simp add: put_all_lookup)
  qed
qed

lemma snapshot_safe:
  "mem_snapshot resolve io ctx m path files = (files', None) \<Longrightarrow>
     \<exists>safe. safe_snapshot_path resolve path = Inr safe \<and> resolve path = Some safe \<and> io = None \<and> ctx = None"
  by (auto simp: mem_snapshot_def safe_snapshot_path_def split: option.splits if_splits sum.splits)

lemma snapshot_only_adds:
  assumes "mem_snapshot resolve io ctx m path files = (files', err)"
  shows "files' = files \<or> (\<exists>safe v. resolve path = Some safe \<and> files' = fmupd safe v files)"
  using assms by (auto simp: mem_snapshot_def safe_snapshot_path_def split: option.splits if_splits sum.splits)

lemma snapshot_removed:
  assumes "mem_snapshot (se_resolve env) io ctx m snap (wd_snaps w) = (snaps', err)"
    and "wd_snaps w' = snaps'"
    and "\<forall>safe. se_resolve env snap = Some safe \<longrightarrow> safe |\<notin>| fmdom (wd_snaps w)"
  shows "wd_snaps (remove_snapshot env snap w') = wd_snaps w"
proof -
  have "fmdrop safe (wd_snaps w) = wd_snaps w" "fmdrop safe (fmupd safe v (wd_snaps w)) = wd_snaps w"
    if "se_resolve env snap = Some safe" for safe v
    using assms(3) that by (auto intro!: fmap_ext simp: fmdom_notD)
  then show ?thesis
    using snapshot_only_adds [OF assms(1)] assms(2) by (auto simp: remove_snapshot_def split: option.splits)
qed

lemma compensate_restores:
  assumes sound: "sound_world env w"
    and snap: "mem_snapshot (se_resolve env) (se_snap_io env) (se_snap_ctx env) (wd_store w) snap (wd_snaps w) = (snaps', None)"
    and w1: "wd_snaps w1 = snaps'" "\<not> closed (wd_store w1)"
    and files: "\<And>k v. (k, v) \<in> set os \<Longrightarrow> fmlookup (wd_files w) k = Some v"
      "\<And>k. k \<notin> fst ` set os \<Longrightarrow> fmlookup (wd_files w1) k = fmlookup (wd_files w) k"
    and run: "compensate env os snap cause w1 = (w2, e)"
  shows "wd_snaps w2 = snaps' \<and> wd_meta w2 = wd_meta w1 \<and>
    (if se_load_ctx env = None \<and> all_writes env (wd_ticks w1) (length os)
     then e = cause \<and> wd_files w2 = wd_files w \<and> same_graph (wd_store w) (wd_store w2)
     else e = ErrRollback cause) \<and>
    (se_load_ctx env \<noteq> None \<longrightarrow> wd_store w2 = wd_store w1)"
proof -
  obtain w3 ok where r: "restore_files env os w1 = (w3, ok)" by fastforce
  note rf = restore_files_spec [OF r]
  obtain safe where safe: "safe_snapshot_path (se_resolve env) snap = Inr safe"
    "se_snap_io env = None" "se_snap_ctx env = None"
    using snapshot_safe [OF snap] by blast
  have c: "w2 = w3\<lparr>wd_store := fst (mem_load (se_hash env) (se_resolve env) (se_load_ctx env) (wd_store w1) snap snaps')\<rparr>"
    "e = (if \<not> ok \<or> snd (mem_load (se_hash env) (se_resolve env) (se_load_ctx env) (wd_store w1) snap snaps') \<noteq> None
          then ErrRollback cause else cause)"
    using run r rf w1(1) by (auto simp: compensate_def split: prod.splits)
  show ?thesis
  proof (cases "se_load_ctx env")
    case (Some err)
    then show ?thesis using rf w1(1) unfolding c by (simp add: mem_load_def)
  next
    case None
    note s = sound [unfolded sound_world_def]
    obtain m' where m': "mem_load (se_hash env) (se_resolve env) None (wd_store w1) snap snaps' = (m', None)"
      "nodes m' = nodes (wd_store w)" "edges m' = edges (wd_store w)" "store_ok m'"
      using snapshot_then_load [of "wd_store w" "wd_store w1" "se_hash env" "se_resolve env" snap safe
          "wd_snaps w" snaps' None] s w1(2) safe(1) snap [unfolded safe(2,3)] by blast
    have "put_all os (wd_files w1) = wd_files w" by (rule put_all_restores) (fact files)+
    then show ?thesis using rf m' w1(1) None unfolding c by (simp add: same_graph_def)
  qed
qed


fun is_rollback :: "edit_error \<Rightarrow> bool" where
  "is_rollback (ErrRollback c) = True"
| "is_rollback e = False"

lemma reindex_and_check_spec:
  assumes "reindex_and_check env rels w = (w', did, err)" "keeps_open env" "\<not> closed (wd_store w)"
  shows "wd_files w' = wd_files w \<and> wd_snaps w' = wd_snaps w \<and> wd_ticks w' = wd_ticks w \<and>
    \<not> closed (wd_store w') \<and> (\<forall>e. err = Some e \<longrightarrow> \<not> is_rollback e) \<and>
    (err = None \<longrightarrow> did \<and> se_edit_id env \<noteq> None \<and>
       se_ingest env rels (wd_files w) (wd_store w, wd_meta w) = ((wd_store w', wd_meta w'), True) \<and>
       se_check env (wd_files w) (wd_store w', wd_meta w'))"
proof -
  obtain m' meta' ok where i: "se_ingest env rels (wd_files w) (wd_store w, wd_meta w) = ((m', meta'), ok)"
    by (metis surj_pair)
  then have "\<not> closed m'" using assms(2,3) unfolding keeps_open_def by (metis fst_conv)
  then show ?thesis
    using assms(1,3) i by (auto simp: reindex_and_check_def Let_def split: if_splits option.splits)
qed

text \<open>What a saga that failed leaves, given whether its compensation could go through.\<close>

definition untouched :: "'m world \<Rightarrow> 'm world \<Rightarrow> bool" where
  "untouched w w' \<longleftrightarrow> wd_files w' = wd_files w \<and> same_graph (wd_store w) (wd_store w')"

lemma untouched_refl: "sound_world env w \<Longrightarrow> wd_files w' = wd_files w \<Longrightarrow> wd_store w' = wd_store w \<Longrightarrow> untouched w w'"
  by (simp add: untouched_def same_graph_def sound_world_def)

lemma resolve_path_err: "resolve_path dir p = Inl e \<Longrightarrow> \<not> is_rollback e"
  by (auto simp: resolve_path_def Let_def split: if_splits option.splits)

lemma apply_span_err: "apply_span src sp repl = Inl e \<Longrightarrow> \<not> is_rollback e"
  by (auto simp: apply_span_def split: if_splits)

lemma remove_snapshot_fields [simp]:
  "wd_files (remove_snapshot env snap w) = wd_files w" "wd_store (remove_snapshot env snap w) = wd_store w"
  "wd_meta (remove_snapshot env snap w) = wd_meta w" "wd_ticks (remove_snapshot env snap w) = wd_ticks w"
  by (simp_all add: remove_snapshot_def)

lemma reindexed_fields [simp]:
  "er_outcome (reindexed env rels did res) = er_outcome res" "er_target (reindexed env rels did res) = er_target res"
  by (simp_all add: reindexed_def)

lemma rolled_back_fields [simp]:
  "er_outcome (rolled_back t) = outcome_rolled_back" "er_target (rolled_back t) = t"
  by (simp_all add: rolled_back_def)


subsection \<open>An edit lands or leaves nothing behind\<close>

definition indexed :: "'m saga_env \<Rightarrow> string list \<Rightarrow> 'm world \<Rightarrow> 'm world \<Rightarrow> edit_result \<Rightarrow> bool" where
  "indexed env rels w w' res \<longleftrightarrow>
     se_ingest env rels (wd_files w') (wd_store w, wd_meta w) = ((wd_store w', wd_meta w'), True) \<and>
     se_check env (wd_files w') (wd_store w', wd_meta w') \<and>
     er_outcome res = outcome_applied \<and> er_touched res = rels \<and> se_edit_id env = Some (er_edit_id res)"

lemma indexed_finish:
  assumes "reindex_and_check env rels w1 = (w2, did, None)" "keeps_open env" "\<not> closed (wd_store w1)"
    and "wd_store w1 = wd_store w" "wd_meta w1 = wd_meta w"
    and "wd_files w' = wd_files w2" "wd_store w' = wd_store w2" "wd_meta w' = wd_meta w2"
  shows "indexed env rels w w' ((reindexed env rels did res)\<lparr>er_outcome := outcome_applied\<rparr>)"
  using reindex_and_check_spec [OF assms(1-3)] assms(4-)
  by (auto simp: indexed_def reindexed_def)

lemma edit_after_write:
  assumes sound: "sound_world env w" and open_env: "keeps_open env"
    and orig: "fmlookup (wd_files w) apath = Some original"
    and snap: "mem_snapshot (se_resolve env) (se_snap_io env) (se_snap_ctx env) (wd_store w) snap (wd_snaps w) = (snaps', None)"
    and w1: "wd_files w1 = fmupd apath content (wd_files w)" "wd_store w1 = wd_store w"
      "wd_meta w1 = wd_meta w" "wd_snaps w1 = snaps'" "wd_ticks w1 = Suc (wd_ticks w)"
    and step: "(if stage = FaultAfterSourceWrite then (w1, False, Some ErrWriteFailed)
                else reindex_and_check env [rel] w1) = (w2, did, err)"
    and comp: "err = Some cause \<Longrightarrow> compensate env [(apath, original)] snap cause w2 = (w3, e)"
  shows "wd_snaps w2 = snaps' \<and> wd_files w2 = fmupd apath content (wd_files w) \<and>
    (err = Some cause \<longrightarrow> wd_snaps w3 = snaps' \<and> \<not> is_rollback cause \<and>
       (if is_rollback e then se_load_ctx env \<noteq> None \<or> \<not> se_write env (Suc (wd_ticks w)) else untouched w w3)) \<and>
    (err = None \<longrightarrow> reindex_and_check env [rel] w1 = (w2, did, None))"
proof -
  have opn: "\<not> closed (wd_store w1)" using sound w1(2) by (simp add: sound_world_def)
  have w2: "wd_files w2 = wd_files w1" "wd_snaps w2 = wd_snaps w1" "wd_ticks w2 = wd_ticks w1"
    "\<not> closed (wd_store w2)" "\<And>e. err = Some e \<Longrightarrow> \<not> is_rollback e"
    using step opn reindex_and_check_spec [OF _ open_env opn]
    by (auto split: if_splits)
  have "wd_snaps w3 = snaps' \<and> \<not> is_rollback cause \<and>
       (if is_rollback e then se_load_ctx env \<noteq> None \<or> \<not> se_write env (Suc (wd_ticks w)) else untouched w w3)"
    if c: "err = Some cause"
  proof -
    note r = compensate_restores [OF sound snap w2(2) [unfolded w1(4)] w2(4) _ _ comp [OF c]]
    have "all_writes env (wd_ticks w2) (length [(apath, original)]) \<longleftrightarrow> se_write env (Suc (wd_ticks w))"
      by (simp add: all_writes_def w2(3) w1(5))
    then show ?thesis
      using r [unfolded w2(1) w1(1)] w2(5) [OF c] orig
      by (auto simp: untouched_def split: if_splits)
  qed
  then show ?thesis using w2(1,2) w1(1,4) step by (auto split: if_splits)
qed

text \<open>
  C6: over a store whose values a snapshot carries unchanged, a single-file edit either lands - the file holds its content with the span replaced,
  the graph is what the ingester made of the new sources from the old graph, and the consistency
  check passed on exactly that - or it reports \<open>rolled_back\<close>, and then the files, the nodes and the
  edges are those before the edit, unless the error says that the compensation failed, which
  happens only when the restoring write fails or the caller's context is done.  No snapshot is left
  behind in any case.
\<close>

theorem edit_is_atomic:
  assumes sound: "sound_world env w" and open_env: "keeps_open env"
    and fresh: "\<forall>safe. se_resolve env (se_snap_path env) = Some safe \<longrightarrow> safe |\<notin>| fmdom (wd_snaps w)"
    and run: "apply_edit env op w = (w', res, err)"
  shows "wd_snaps w' = wd_snaps w \<and> er_target res = eo_target op \<and>
    (case err of
       None \<Rightarrow>
         \<exists>rel apath original content.
           resolve_path (se_root env) (eo_file op) = Inr (rel, apath) \<and>
           fmlookup (wd_files w) apath = Some original \<and>
           apply_span original (eo_span op) (eo_replacement op) = Inr content \<and>
           wd_files w' = fmupd apath content (wd_files w) \<and> indexed env [rel] w w' res
     | Some e \<Rightarrow>
         er_outcome res = outcome_rolled_back \<and>
         (if is_rollback e then se_load_ctx env \<noteq> None \<or> \<not> se_write env (Suc (wd_ticks w))
          else untouched w w'))"
proof (cases "resolve_path (se_root env) (eo_file op)")
  case (Inl e)
  then show ?thesis using run sound resolve_path_err [OF Inl] by (auto simp: apply_edit_def intro: untouched_refl)
next
  case (Inr r)
  obtain rel apath where r: "r = (rel, apath)" by fastforce
  note path = Inr [unfolded r]
  show ?thesis
  proof (cases "\<exists>original content. fmlookup (wd_files w) apath = Some original \<and>
      apply_span original (eo_span op) (eo_replacement op) = Inr content \<and> se_mkdir env")
    case False
    then have "w' = w \<and> res = rolled_back (eo_target op) \<and> (\<exists>e. err = Some e \<and> \<not> is_rollback e)"
    proof (cases "fmlookup (wd_files w) apath")
      case None
      then show ?thesis using run by (simp add: apply_edit_def path Let_def) auto
    next
      case (Some original)
      then show ?thesis using run False apply_span_err [of original "eo_span op" "eo_replacement op"]
        by (cases "apply_span original (eo_span op) (eo_replacement op)")
           (auto simp: apply_edit_def path Let_def)
    qed
    then show ?thesis using sound by (auto intro: untouched_refl)
  next
    case True
    then obtain original content where oc: "fmlookup (wd_files w) apath = Some original"
      "apply_span original (eo_span op) (eo_replacement op) = Inr content" "se_mkdir env" by blast
    let ?snap = "se_snap_path env"
    obtain snaps' serr where snap: "mem_snapshot (se_resolve env) (se_snap_io env) (se_snap_ctx env) (wd_store w)
        ?snap (wd_snaps w) = (snaps', serr)" by fastforce
    note clean = snapshot_removed [OF snap _ fresh]
    show ?thesis
    proof (cases "serr = None \<and> se_write env (wd_ticks w)")
      case False
      then have "\<exists>w1. w' = remove_snapshot env ?snap w1 \<and> wd_snaps w1 = snaps' \<and> wd_files w1 = wd_files w \<and>
          wd_store w1 = wd_store w \<and> res = rolled_back (eo_target op) \<and> err = Some ErrWriteFailed"
        using run by (auto simp: apply_edit_def path oc snap write_file_atomic_eq Let_def split: option.splits)
      then show ?thesis using clean untouched_refl [OF sound, of w'] by auto
    next
      case True
      then have serr: "serr = None" and wr: "se_write env (wd_ticks w)" by auto
      let ?w0 = "w\<lparr>wd_snaps := snaps', wd_ticks := Suc (wd_ticks w), wd_files := fmupd apath content (wd_files w)\<rparr>"
      obtain w1 stage where t: "take_fault ?w0 = (w1, stage)" by fastforce
      have w1: "wd_files w1 = fmupd apath content (wd_files w)" "wd_store w1 = wd_store w"
        "wd_meta w1 = wd_meta w" "wd_snaps w1 = snaps'" "wd_ticks w1 = Suc (wd_ticks w)"
        using t by (auto simp: take_fault_def split: if_splits)
      obtain w2 did cerr where step: "(if stage = FaultAfterSourceWrite then (w1, False, Some ErrWriteFailed)
                else reindex_and_check env [rel] w1) = (w2, did, cerr)" by (metis surj_pair)
      note after = edit_after_write [OF sound open_env oc(1) snap [unfolded serr] w1 step]
      have run': "(w', res, err) =
          (case cerr of
             Some cause \<Rightarrow> (case compensate env [(apath, original)] ?snap cause w2 of
                 (w3, e) \<Rightarrow> (remove_snapshot env ?snap w3, reindexed env [rel] did (rolled_back (eo_target op)), Some e))
           | None \<Rightarrow> (remove_snapshot env ?snap w2,
                 (reindexed env [rel] did (rolled_back (eo_target op)))\<lparr>er_outcome := outcome_applied\<rparr>, None))"
        unfolding run [symmetric] apply_edit_def
        by (simp add: path oc snap serr write_file_atomic_eq wr t step Let_def split: option.splits)
      show ?thesis
      proof (cases cerr)
        case None
        note a = after [OF _ , of undefined undefined undefined]
        have c: "wd_snaps w2 = snaps'" "wd_files w2 = fmupd apath content (wd_files w)"
          "reindex_and_check env [rel] w1 = (w2, did, None)"
          using a None by auto
        have e: "w' = remove_snapshot env ?snap w2" "err = None"
          "res = (reindexed env [rel] did (rolled_back (eo_target op)))\<lparr>er_outcome := outcome_applied\<rparr>"
          using run' None by auto
        have "indexed env [rel] w w' res"
          unfolding e(3) by (rule indexed_finish [OF c(3) open_env _ w1(2,3)])
            (use sound w1(2) in \<open>simp_all add: sound_world_def e(1)\<close>)
        then show ?thesis using clean c(1,2) path oc(1,2) by (simp add: e(1,2)) (simp add: e(3))
      next
        case (Some cause)
        obtain w3 e where comp: "compensate env [(apath, original)] ?snap cause w2 = (w3, e)" by fastforce
        have c: "wd_snaps w3 = snaps'"
          "if is_rollback e then se_load_ctx env \<noteq> None \<or> \<not> se_write env (Suc (wd_ticks w)) else untouched w w3"
          using after [OF comp] Some by auto
        then show ?thesis using clean run' comp Some by (simp add: untouched_def split: if_splits)
      qed
    qed
  qed
qed


subsection \<open>A batch lands or leaves nothing behind\<close>

definition op_in :: "string \<Rightarrow> string \<Rightarrow> edit_op \<Rightarrow> bool" where
  "op_in dir rel op \<longleftrightarrow> (\<exists>apath. resolve_path dir (eo_file op) = Inr (rel, apath))"

definition groups :: "string \<Rightarrow> edit_op list \<Rightarrow> file_edit list \<Rightarrow> bool" where
  "groups dir ops fes \<longleftrightarrow>
     distinct (map fe_rel fes) \<and>
     (\<forall>op \<in> set ops. \<exists>fe \<in> set fes. op_in dir (fe_rel fe) op) \<and>
     (\<forall>fe \<in> set fes. fe_ops fe = filter (op_in dir (fe_rel fe)) ops \<and>
        (\<exists>op \<in> set ops. resolve_path dir (eo_file op) = Inr (fe_rel fe, fe_abs fe)))"

lemma add_op_rels: "fe_rel ` set (add_op rel apath op fes) = insert rel (fe_rel ` set fes)"
  by (induction fes) auto

lemma add_op_distinct: "distinct (map fe_rel fes) \<Longrightarrow> distinct (map fe_rel (add_op rel apath op fes))"
  by (induction fes) (auto simp: add_op_rels)

lemma add_op_mem:
  assumes "fe \<in> set (add_op rel apath op fes)" "distinct (map fe_rel fes)"
  shows "(fe \<in> set fes \<and> fe_rel fe \<noteq> rel) \<or>
    (\<exists>fe0 \<in> set fes. fe_rel fe0 = rel \<and> fe = fe0\<lparr>fe_ops := fe_ops fe0 @ [op]\<rparr>) \<or>
    (rel \<notin> set (map fe_rel fes) \<and> fe = \<lparr>fe_abs = apath, fe_rel = rel, fe_ops = [op]\<rparr>)"
  using assms by (induction fes) (auto split: if_splits, metis image_eqI)

lemma groups_add:
  assumes g: "groups dir ops fes" and r: "resolve_path dir (eo_file op) = Inr (rel, apath)"
  shows "groups dir (ops @ [op]) (add_op rel apath op fes)"
proof -
  note g' = g [unfolded groups_def]
  have here: "op_in dir rl op \<longleftrightarrow> rl = rel" for rl using r by (auto simp: op_in_def)
  have rels: "\<exists>fe \<in> set (add_op rel apath op fes). op_in dir (fe_rel fe) o'"
    if "o' \<in> set (ops @ [op])" for o'
  proof -
    have "\<exists>rl \<in> set (map fe_rel (add_op rel apath op fes)). op_in dir rl o'"
      unfolding set_map add_op_rels using that g' here by auto
    then show ?thesis by auto
  qed
  have "fe_ops fe = filter (op_in dir (fe_rel fe)) (ops @ [op]) \<and>
      (\<exists>o' \<in> set (ops @ [op]). resolve_path dir (eo_file o') = Inr (fe_rel fe, fe_abs fe))"
    if fe: "fe \<in> set (add_op rel apath op fes)" for fe
    using add_op_mem [OF fe conjunct1 [OF g']]
  proof (elim disjE conjE bexE)
    assume "rel \<notin> set (map fe_rel fes)" and n: "fe = \<lparr>fe_abs = apath, fe_rel = rel, fe_ops = [op]\<rparr>"
    moreover have "\<exists>rl \<in> set (map fe_rel fes). op_in dir rl o'" if "o' \<in> set ops" for o'
      using g' that by auto
    ultimately have "\<not> op_in dir rel o'" if "o' \<in> set ops" for o'
      using that by (auto simp: op_in_def) (metis Inr_inject Pair_inject image_eqI)
    then show ?thesis using n r here by (auto simp: filter_empty_conv)
  next
    assume "fe \<in> set fes" "fe_rel fe \<noteq> rel"
    then show ?thesis using g' here by auto
  next
    fix fe0 assume "fe0 \<in> set fes" "fe_rel fe0 = rel" "fe = fe0\<lparr>fe_ops := fe_ops fe0 @ [op]\<rparr>"
    then show ?thesis using g' here by auto
  qed
  then show ?thesis unfolding groups_def using add_op_distinct [OF conjunct1 [OF g']] rels by blast
qed

lemma group_ops_groups:
  "group_ops dir ops fes = Inr fes' \<Longrightarrow> groups dir done fes \<Longrightarrow> groups dir (done @ ops) fes'"
proof (induction ops arbitrary: fes "done")
  case Nil
  then show ?case by simp
next
  case (Cons op ops)
  then obtain rel apath where r: "resolve_path dir (eo_file op) = Inr (rel, apath)"
    by (auto split: sum.splits)
  then show ?case using Cons.IH [OF _ groups_add [OF Cons.prems(2) r]] Cons.prems(1) by simp
qed

lemma groups_sorted: "groups dir ops fes \<Longrightarrow> groups dir ops (sort_key f fes)"
  unfolding groups_def by (auto simp: distinct_map) 

lemma group_ops_err: "group_ops dir ops fes = Inl e \<Longrightarrow> \<not> is_rollback e"
  by (induction dir ops fes rule: group_ops.induct) (auto split: sum.splits dest: resolve_path_err)


definition plans :: "(edit_op list \<Rightarrow> edit_op list) \<Rightarrow> (string, string) fmap \<Rightarrow> file_edit \<Rightarrow> planned_file \<Rightarrow> bool" where
  "plans srt files fe pf \<longleftrightarrow>
     pf_abs pf = fe_abs fe \<and> pf_rel pf = fe_rel fe \<and> fmlookup files (pf_abs pf) = Some (pf_original pf) \<and>
     apply_spans srt (pf_original pf) (fe_ops fe) = Inr (pf_content pf)"

lemma plan_contents_plans: "plan_contents srt files fes = Inr pfs \<Longrightarrow> list_all2 (plans srt files) fes pfs"
  by (induction fes arbitrary: pfs) (auto simp: plans_def split: option.splits sum.splits)

lemma apply_each_err: "apply_each out ops = Inl e \<Longrightarrow> \<not> is_rollback e"
  by (induction out ops rule: apply_each.induct) (auto split: sum.splits dest: apply_span_err)

lemma apply_spans_err: "apply_spans srt src ops = Inl e \<Longrightarrow> \<not> is_rollback e"
  by (auto simp: apply_spans_def Let_def split: if_splits list.splits
        dest: apply_span_err apply_each_err)

lemma plan_contents_err: "plan_contents srt files fes = Inl e \<Longrightarrow> \<not> is_rollback e"
  by (induction srt files fes rule: plan_contents.induct)
    (auto split: option.splits sum.splits dest: apply_spans_err)

lemma write_all_spec:
  assumes "write_all env idx written pfs w = (w', written', err)"
  shows "wd_store w' = wd_store w \<and> wd_meta w' = wd_meta w \<and> wd_snaps w' = wd_snaps w \<and>
    wd_ticks w' + length written = wd_ticks w + length written' \<and>
    length written \<le> length written' \<and> length written' \<le> length written + length pfs \<and>
    set written \<subseteq> set written' \<and> set written' \<subseteq> set written \<union> set pfs \<and>
    (\<forall>k. k \<notin> pf_abs ` set written' \<longrightarrow> fmlookup (wd_files w') k = fmlookup (wd_files w) k) \<and>
    (case err of
       None \<Rightarrow> written' = written @ pfs \<and>
         wd_files w' = put_all (map (\<lambda>pf. (pf_abs pf, pf_content pf)) pfs) (wd_files w)
     | Some e \<Rightarrow> e = ErrWriteFailed)"
  using assms
proof (induction pfs arbitrary: idx written w)
  case Nil
  then show ?case by auto
next
  case (Cons pf pfs)
  let ?fault = "wd_batch_fail_k w > 0 \<and> int idx + 1 = wd_batch_fail_k w"
  show ?case
  proof (cases "\<not> ?fault \<and> se_write env (wd_ticks w)")
    case False
    then show ?thesis using Cons.prems by (auto simp: write_file_atomic_eq split: if_splits)
  next
    case True
    let ?w1 = "w\<lparr>wd_ticks := Suc (wd_ticks w), wd_files := fmupd (pf_abs pf) (pf_content pf) (wd_files w)\<rparr>"
    have "write_all env (Suc idx) (written @ [pf]) pfs ?w1 = (w', written', err)"
      using Cons.prems True by (auto simp: write_file_atomic_eq)
    note r = Cons.IH [OF this]
    then show ?thesis by (fastforce split: option.splits)
  qed
qed


lemma batch_body:
  assumes step: "(case write_all env 0 [] pfs w0 of
        (w1, written, Some e) \<Rightarrow> (w1, written, False, Some e)
      | (w1, written, None) \<Rightarrow>
          (case reindex_and_check env rels w1 of (w2, did, err) \<Rightarrow> (w2, written, did, err))) = (w2, written, did, err)"
    and open_env: "keeps_open env" and opn: "\<not> closed (wd_store w0)"
  shows "wd_snaps w2 = wd_snaps w0 \<and> \<not> closed (wd_store w2) \<and>
    wd_ticks w2 = wd_ticks w0 + length written \<and> length written \<le> length pfs \<and> set written \<subseteq> set pfs \<and>
    (\<forall>k. k \<notin> pf_abs ` set written \<longrightarrow> fmlookup (wd_files w2) k = fmlookup (wd_files w0) k) \<and>
    (\<forall>e. err = Some e \<longrightarrow> \<not> is_rollback e) \<and>
    (err = None \<longrightarrow>
       wd_files w2 = put_all (map (\<lambda>pf. (pf_abs pf, pf_content pf)) pfs) (wd_files w0) \<and>
       (\<exists>w1. reindex_and_check env rels w1 = (w2, did, None) \<and> \<not> closed (wd_store w1) \<and>
          wd_store w1 = wd_store w0 \<and> wd_meta w1 = wd_meta w0))"
proof -
  obtain w1 written1 err1 where wa: "write_all env 0 [] pfs w0 = (w1, written1, err1)" by (metis surj_pair)
  note s = write_all_spec [OF wa]
  show ?thesis
  proof (cases err1)
    case (Some e)
    then show ?thesis using step wa s opn by auto
  next
    case None
    then have "reindex_and_check env rels w1 = (w2, did, err)" "written = written1"
      using step wa by (auto split: prod.splits)
    note r = reindex_and_check_spec [OF this(1) open_env] this
    show ?thesis using r s None opn by auto
  qed
qed

text \<open>The spliced files of a batch: each file with the operations that name it, in their order.\<close>

definition spliced :: "'m saga_env \<Rightarrow> edit_op list \<Rightarrow> (string, string) fmap \<Rightarrow> planned_file list \<Rightarrow> bool" where
  "spliced env ops files pfs \<longleftrightarrow>
     sorted (map pf_rel pfs) \<and> distinct (map pf_rel pfs) \<and>
     (\<forall>op \<in> set ops. \<exists>pf \<in> set pfs. op_in (se_root env) (pf_rel pf) op) \<and>
     (\<forall>pf \<in> set pfs.
        (\<exists>op \<in> set ops. resolve_path (se_root env) (eo_file op) = Inr (pf_rel pf, pf_abs pf)) \<and>
        fmlookup files (pf_abs pf) = Some (pf_original pf) \<and>
        apply_spans (se_sort env) (pf_original pf) (filter (op_in (se_root env) (pf_rel pf)) ops) = Inr (pf_content pf))"

lemma planned_spliced:
  assumes "group_ops (se_root env) ops [] = Inr fes"
    and "plan_contents (se_sort env) files (sort_key fe_rel fes) = Inr pfs"
  shows "spliced env ops files pfs"
proof -
  have "groups (se_root env) ops fes"
    using group_ops_groups [OF assms(1), of "[]"] by (simp add: groups_def)
  note g = groups_sorted [OF this, of fe_rel, unfolded groups_def]
  note g1 = g [THEN conjunct1] and g2 = g [THEN conjunct2, THEN conjunct1] and g3 = g [THEN conjunct2, THEN conjunct2]
  note p = plan_contents_plans [OF assms(2)]
  have rels: "map pf_rel pfs = map fe_rel (sort_key fe_rel fes)"
    using p by (induction rule: list_all2_induct) (simp_all add: plans_def)
  have src: "\<exists>fe \<in> set (sort_key fe_rel fes). plans (se_sort env) files fe pf" if "pf \<in> set pfs" for pf
    using p that by (metis in_set_conv_nth list_all2_conv_all_nth)
  have tgt: "\<exists>pf \<in> set pfs. plans (se_sort env) files fe pf" if "fe \<in> set (sort_key fe_rel fes)" for fe
    using p that by (metis in_set_conv_nth list_all2_conv_all_nth)
  have "sorted (map pf_rel pfs)" "distinct (map pf_rel pfs)"
    unfolding rels using g1 by simp_all
  moreover have "\<exists>pf \<in> set pfs. op_in (se_root env) (pf_rel pf) op" if op: "op \<in> set ops" for op
  proof -
    obtain fe where fe: "fe \<in> set (sort_key fe_rel fes)" "op_in (se_root env) (fe_rel fe) op"
      using bspec [OF g2 op] by blast
    then show ?thesis using tgt [OF fe(1)] by (metis plans_def)
  qed
  moreover have "(\<exists>op \<in> set ops. resolve_path (se_root env) (eo_file op) = Inr (pf_rel pf, pf_abs pf)) \<and>
        fmlookup files (pf_abs pf) = Some (pf_original pf) \<and>
        apply_spans (se_sort env) (pf_original pf) (filter (op_in (se_root env) (pf_rel pf)) ops) = Inr (pf_content pf)"
    if pf: "pf \<in> set pfs" for pf
  proof -
    obtain fe where fe: "fe \<in> set (sort_key fe_rel fes)" "plans (se_sort env) files fe pf"
      using src [OF pf] by blast
    then show ?thesis using bspec [OF g3 fe(1)] by (auto simp: plans_def)
  qed
  ultimately show ?thesis unfolding spliced_def by blast
qed

text \<open>
  C7: over a store whose values a snapshot carries unchanged, a batch of operations over many
  files is all or nothing, unless its compensation fails.  Either every file it names is
  spliced with all of its operations, the graph is what one ingestion of those files made of it and
  passed the check, and the caller holds the pre-edit snapshot and sources; or the batch reports
  \<open>rolled_back\<close> without artifacts and without a snapshot left behind, and the files, nodes and edges are
  those before it, unless the error is \<open>ErrRollback\<close>, which says that the compensation failed: then a
  restoring write failed or the caller's context was done, and nothing is claimed of files or graph.
\<close>

theorem batch_is_atomic:
  assumes sound: "sound_world env w" and open_env: "keeps_open env"
    and fresh: "\<forall>safe. se_resolve env (se_snap_path env) = Some safe \<longrightarrow> safe |\<notin>| fmdom (wd_snaps w)"
    and run: "apply_batch env ops w = (w', res, arts, err)"
  shows "case err of
      None \<Rightarrow>
        \<exists>pfs. spliced env ops (wd_files w) pfs \<and>
          wd_files w' = put_all (map (\<lambda>pf. (pf_abs pf, pf_content pf)) pfs) (wd_files w) \<and>
          indexed env (map pf_rel pfs) w w' res \<and>
          arts = Some \<lparr>sa_snap = se_snap_path env, sa_originals = map (\<lambda>pf. (pf_rel pf, pf_original pf)) pfs\<rparr> \<and>
          mem_snapshot (se_resolve env) None None (wd_store w) (se_snap_path env) (wd_snaps w) = (wd_snaps w', None)
    | Some e \<Rightarrow>
        er_outcome res = outcome_rolled_back \<and> arts = None \<and> wd_snaps w' = wd_snaps w \<and>
        (if is_rollback e then se_load_ctx env \<noteq> None \<or> (\<exists>n. \<exists>i < n. \<not> se_write env (wd_ticks w + n + i))
         else untouched w w')"
proof (cases "ops \<noteq> [] \<and> (\<exists>fes pfs. group_ops (se_root env) ops [] = Inr fes \<and>
    plan_contents (se_sort env) (wd_files w) (sort_key fe_rel fes) = Inr pfs) \<and> se_mkdir env")
  case False
  have "w' = w \<and> er_outcome res = outcome_rolled_back \<and> arts = None \<and> (\<exists>e. err = Some e \<and> \<not> is_rollback e)"
  proof (cases "group_ops (se_root env) ops []")
    case (Inl e)
    then show ?thesis using run group_ops_err [OF Inl] by (auto simp: apply_batch_def Let_def split: if_splits)
  next
    case (Inr fes)
    show ?thesis
    proof (cases "plan_contents (se_sort env) (wd_files w) (sort_key fe_rel fes)")
      case pl: (Inl e)
      show ?thesis
        using run [unfolded apply_batch_def Let_def Inr sum.case pl] plan_contents_err [OF pl]
        by (auto split: if_splits)
    next
      case pl: (Inr pfs)
      then have "ops = [] \<or> \<not> se_mkdir env" using False Inr by blast
      then show ?thesis
        using run [unfolded apply_batch_def Let_def Inr sum.case pl] by (auto split: if_splits)
    qed
  qed
  then show ?thesis using untouched_refl [OF sound, of w'] by auto
next
  case True
  then obtain fes pfs where plan: "ops \<noteq> []" "group_ops (se_root env) ops [] = Inr fes"
    "plan_contents (se_sort env) (wd_files w) (sort_key fe_rel fes) = Inr pfs" "se_mkdir env" by blast
  let ?snap = "se_snap_path env" let ?res = "rolled_back []"
  note spl = planned_spliced [OF plan(2,3)]
  obtain snaps' serr where snap: "mem_snapshot (se_resolve env) (se_snap_io env) (se_snap_ctx env) (wd_store w)
      ?snap (wd_snaps w) = (snaps', serr)" by fastforce
  note clean = snapshot_removed [OF snap _ fresh]
  show ?thesis
  proof (cases serr)
    case (Some e)
    then have "w' = remove_snapshot env ?snap (w\<lparr>wd_snaps := snaps'\<rparr>)" "res = ?res" "arts = None"
      "err = Some ErrWriteFailed"
      using run plan snap by (auto simp: apply_batch_def Let_def)
    then show ?thesis using clean untouched_refl [OF sound, of w'] by auto
  next
    case None
    let ?w0 = "w\<lparr>wd_snaps := snaps'\<rparr>"
    obtain w2 written did cerr where step: "(case write_all env 0 [] pfs ?w0 of
        (w1, written, Some e) \<Rightarrow> (w1, written, False, Some e)
      | (w1, written, None) \<Rightarrow>
          (case reindex_and_check env (map pf_rel pfs) w1 of (w2, did, err) \<Rightarrow> (w2, written, did, err)))
        = (w2, written, did, cerr)" by (rule prod_cases4)
    have run': "(w', res, arts, err) =
        (case cerr of
           Some cause \<Rightarrow> (case compensate env (map (\<lambda>pf. (pf_abs pf, pf_original pf)) written) ?snap cause w2 of
               (w3, e) \<Rightarrow> (remove_snapshot env ?snap w3, reindexed env (map pf_rel pfs) did ?res, None, Some e))
         | None \<Rightarrow> (w2, (reindexed env (map pf_rel pfs) did ?res)\<lparr>er_outcome := outcome_applied\<rparr>,
             Some \<lparr>sa_snap = ?snap, sa_originals = map (\<lambda>pf. (pf_rel pf, pf_original pf)) pfs\<rparr>, None))"
      unfolding run [symmetric] apply_batch_def
      by (simp add: plan snap None step Let_def split: option.splits)
    have "\<not> closed (wd_store ?w0)" using sound by (simp add: sound_world_def)
    note body = batch_body [OF step open_env this]
    show ?thesis
    proof (cases cerr)
      case cnone: None
      then obtain w1 where w1: "reindex_and_check env (map pf_rel pfs) w1 = (w2, did, None)"
        "\<not> closed (wd_store w1)" "wd_store w1 = wd_store w" "wd_meta w1 = wd_meta w" using body by auto
      have e: "w' = w2" "res = (reindexed env (map pf_rel pfs) did ?res)\<lparr>er_outcome := outcome_applied\<rparr>"
        using run' cnone by simp_all
      have "indexed env (map pf_rel pfs) w w' res"
        unfolding e by (rule indexed_finish [OF w1(1) open_env w1(2-4)]) simp_all
      moreover have "se_snap_io env = None" "se_snap_ctx env = None"
        using snapshot_safe [OF snap [unfolded None]] by blast+
      ultimately show ?thesis using run' cnone spl body snap None by auto
    next
      case (Some cause)
      obtain w3 e where comp: "compensate env (map (\<lambda>pf. (pf_abs pf, pf_original pf)) written) ?snap cause w2 = (w3, e)"
        by fastforce
      have orig: "fmlookup (wd_files w) k = Some v"
        if "(k, v) \<in> set (map (\<lambda>pf. (pf_abs pf, pf_original pf)) written)" for k v
        using that body spl by (auto simp: spliced_def)
      have others: "fmlookup (wd_files w2) k = fmlookup (wd_files w) k"
        if "k \<notin> fst ` set (map (\<lambda>pf. (pf_abs pf, pf_original pf)) written)" for k
      proof -
        have "k \<notin> pf_abs ` set written" using that by force
        then show ?thesis using body by auto
      qed
      have b: "wd_snaps w2 = snaps'" "\<not> closed (wd_store w2)" "\<not> is_rollback cause"
        "wd_ticks w2 = wd_ticks w + length written"
        using body Some by auto
      note r = compensate_restores [OF sound snap [unfolded None] b(1,2) orig others comp]
      note r3 = r [THEN conjunct2, THEN conjunct2, THEN conjunct1]
      have out: "w' = remove_snapshot env ?snap w3" "res = reindexed env (map pf_rel pfs) did ?res" "arts = None" "err = Some e"
        using run' Some comp by simp_all
      have "if is_rollback e then se_load_ctx env \<noteq> None \<or> (\<exists>n. \<exists>i < n. \<not> se_write env (wd_ticks w + n + i))
          else untouched w w'"
      proof (cases "se_load_ctx env = None \<and> all_writes env (wd_ticks w2) (length (map (\<lambda>pf. (pf_abs pf, pf_original pf)) written))")
        case True
        then have "e = cause" "untouched w w'" using r3 [unfolded if_P [OF True]] by (simp_all add: untouched_def out(1))
        then show ?thesis using b(3) by simp
      next
        case False
        have "e = ErrRollback cause" using r3 [unfolded if_not_P [OF False]] .
        moreover have "se_load_ctx env \<noteq> None \<or> (\<exists>n. \<exists>i < n. \<not> se_write env (wd_ticks w + n + i))"
        proof (cases "se_load_ctx env = None")
          case True
          then have "\<exists>i < length written. \<not> se_write env (wd_ticks w + length written + i)"
            using False [unfolded all_writes_def b(4) length_map] by simp
          then show ?thesis by (rule disjI2 [OF exI [of _ "length written"]])
        qed simp
        ultimately show ?thesis by simp
      qed
      then show ?thesis using clean [of w3] r [THEN conjunct1] unfolding out by simp
    qed
  qed
qed


text \<open>
  the compensation runs under the caller's context.  When that context is done - the usual
  reason for a re-index to fail halfway - the sources are restored but the graph is not: the store
  stays as the failed re-index left it, so it no longer describes the files.
\<close>

theorem cancelled_edit_leaves_index:
  assumes path: "resolve_path (se_root env) (eo_file op) = Inr (rel, apath)"
    and orig: "fmlookup (wd_files w) apath = Some original"
    and new: "apply_span original (eo_span op) (eo_replacement op) = Inr content"
    and dir: "se_mkdir env" and writes: "\<forall>t. se_write env t"
    and snap: "mem_snapshot (se_resolve env) (se_snap_io env) (se_snap_ctx env) (wd_store w) (se_snap_path env) (wd_snaps w) =
       (snaps', None)"
    and nofault: "wd_fault w = FaultNone" and minted: "se_edit_id env = Some i"
    and failed: "se_ingest env [rel] (fmupd apath content (wd_files w)) (wd_store w, wd_meta w) = ((m', meta'), False)"
    and cancelled: "se_load_ctx env = Some c"
    and run: "apply_edit env op w = (w', res, err)"
  shows "err = Some (ErrRollback ErrReindex) \<and> wd_files w' = wd_files w \<and> wd_store w' = m' \<and> wd_meta w' = meta'"
proof -
  have "fmupd apath original (fmupd apath content (wd_files w)) = wd_files w"
    by (rule fmap_ext) (auto simp: orig)
  then show ?thesis
    using run
    by (auto simp: apply_edit_def Let_def path orig new dir writes snap write_file_atomic_eq take_fault_def nofault
        reindex_and_check_def minted failed compensate_def mem_load_def cancelled)
qed

subsection \<open>Witnesses\<close>

text \<open>An ingester that drops a node and a checker that always objects.\<close>

definition demo_saga :: "store_error option \<Rightarrow> bool \<Rightarrow> unit saga_env" where
  "demo_saga load_ctx ingested =
     \<lparr>se_root = ''/r'', se_hash = sum_hash, se_resolve = same_path, se_snap_path = ''s.json'', se_mkdir = True,
      se_write = (\<lambda>t. True), se_snap_io = None, se_snap_ctx = None, se_load_ctx = load_ctx,
      se_edit_id = Some ''ed'',
      se_ingest = (\<lambda>rels files (m, meta). ((fst (mem_delete_node None m (n_id (fn_node ''f''))), meta), ingested)),
      se_check = (\<lambda>files live. False), se_sort = rev\<rparr>"

definition demo_world :: "unit world" where
  "demo_world =
     \<lparr>wd_files = fmupd ''/r/a'' ''xyz'' (fmupd ''/r/b'' ''pq'' fmempty), wd_store = small_store (Finite 1), wd_meta = (),
      wd_snaps = fmempty, wd_ticks = 0, wd_fault = FaultNone, wd_batch_fail_k = 0\<rparr>"

definition demo_op :: "string \<Rightarrow> edit_op" where
  "demo_op file =
     \<lparr>eo_target = ''t'', eo_file = file, eo_span = \<lparr>sp_start = 0, sp_end = 1\<rparr>, eo_replacement = ''w''\<rparr>"

lemma demo_sound: "sound_world (demo_saga c b) demo_world"
  using small_store_ok [of "Finite 1"] small_store_maps(3) [of "Finite 1"] small_snapshot
  by (simp add: sound_world_def demo_saga_def demo_world_def)

lemma demo_open: "keeps_open (demo_saga c b)"
  by (auto simp: keeps_open_def demo_saga_def mem_delete_node_def Let_def split: option.splits)

theorem edit_is_atomic_witness:
  "untouched demo_world (fst (apply_edit (demo_saga None True) (demo_op ''a'') demo_world))"
  using edit_is_atomic [OF demo_sound demo_open, of None True "demo_op ''a''"]
  by (cases "apply_edit (demo_saga None True) (demo_op ''a'') demo_world")
    (auto simp: demo_saga_def demo_world_def indexed_def split: option.splits if_splits)

theorem batch_is_atomic_witness:
  "untouched demo_world (fst (apply_batch (demo_saga None True) [demo_op ''a'', demo_op ''b''] demo_world))"
  using batch_is_atomic [OF demo_sound demo_open, of None True "[demo_op ''a'', demo_op ''b'']"]
  by (cases "apply_batch (demo_saga None True) [demo_op ''a'', demo_op ''b''] demo_world")
    (auto simp: demo_saga_def demo_world_def indexed_def split: option.splits if_splits)


lemma demo_path: "resolve_path ''/r'' ''a'' = Inr (''a'', ''/r/a'')"
  by code_simp

lemma demo_span:
  "apply_span ''xyz'' (eo_span (demo_op f)) (eo_replacement (demo_op f)) = Inr ''wyz''"
  by (simp add: apply_span_def demo_op_def)

lemma demo_snapshot:
  "\<exists>snaps'. mem_snapshot same_path None None (small_store (Finite 1)) ''s.json'' fmempty = (snaps', None)"
proof -
  obtain snaps' err where s: "mem_snapshot same_path None None (small_store (Finite 1)) ''s.json'' fmempty = (snaps', err)"
    by fastforce
  moreover have "\<not> closed new_mem_store" by (simp add: new_mem_store_def)
  ultimately show ?thesis
    using snapshot_then_load [OF small_store_ok small_store_maps(3) _ small_snapshot safe_same_path s] by blast
qed

theorem cancelled_edit_leaves_index_witness:
  "fmlookup (nodes (wd_store (fst (apply_edit (demo_saga (Some (ErrCtx ''canceled'')) False) (demo_op ''a'') demo_world))))
     (n_id (fn_node ''f'')) = None"
proof -
  let ?env = "demo_saga (Some (ErrCtx ''canceled'')) False"
  let ?m = "fst (mem_delete_node None (small_store (Finite 1)) (n_id (fn_node ''f'')))"
  obtain snaps' where snap: "mem_snapshot same_path None None (small_store (Finite 1)) ''s.json'' fmempty = (snaps', None)"
    using demo_snapshot by blast
  obtain w' res err where run: "apply_edit ?env (demo_op ''a'') demo_world = (w', res, err)" by (rule prod_cases3)
  have "wd_store w' = ?m"
    using cancelled_edit_leaves_index [where env = ?env and op = "demo_op ''a''" and rel = "''a''" and apath = "''/r/a''"
        and original = "''xyz''" and content = "''wyz''" and snaps' = snaps' and i = "''ed''" and m' = ?m
        and c = "ErrCtx ''canceled''", OF _ _ demo_span _ _ _ _ _ _ _ run]
    by (simp add: demo_saga_def demo_world_def demo_path snap) (simp add: demo_op_def demo_path)
  moreover have "fmlookup (nodes ?m) (n_id (fn_node ''f'')) = None"
    using delete_node_maps(1) [OF small_store_ok small_store_maps(3)] by simp
  ultimately show ?thesis by (simp add: run)
qed

end
