(* ===== verification/Query.thy ===== *)
theory Query
  imports MemReads "HOL-Library.Product_Lexorder"
begin

text \<open>
  The structural query service, \<open>engine/query\<close> (\<open>service.go\<close>, \<open>result.go\<close>,
  \<open>compare.go\<close>, \<open>dispatch.go\<close>, \<open>serialize.go\<close>).  The service reads through
  the selective port (\<open>graphstore.GraphLookup\<close>), a record of its read functions;
  \<open>graph_lookup\<close> is its contract, given by the in-memory store.  The queries only read, so
  one value of the port stands for the whole query.  A slice filled by ranging over a map is
  written in key order; \<open>json\<close> stands for the encoder of \<open>encoding/json\<close>.
\<close>

subsection \<open>Results\<close>

record lookup_port =
  lp_get_node :: "node_id \<Rightarrow> store_error + node"
  lp_nodes_by_id :: "node_id list \<Rightarrow> store_error + node list"
  lp_incoming :: "node_id \<Rightarrow> string list \<Rightarrow> store_error + edge list"
  lp_outgoing :: "node_id \<Rightarrow> string list \<Rightarrow> store_error + edge list"

record result_node =
  rn_id :: node_id
  rn_kind :: string
  rn_qname :: string
  rn_path :: string
  rn_line :: int
  rn_col :: int
  rn_parent_kind :: string
  rn_parent_name :: string

record result_edge =
  re_id :: edge_id
  re_from :: node_id
  re_to :: node_id
  re_kind :: string
  re_tier :: string
  re_conf :: float64
  re_reason :: string
  re_evidence :: "string list"

record query_result =
  qr_operation :: string
  qr_symbol :: node_id
  qr_outcome :: string
  qr_depth :: "int option"
  qr_nodes :: "result_node list"
  qr_edges :: "result_edge list"

datatype query_error =
    ErrSelectiveLookupUnavailable
  | ErrQueryRead store_error
  | ErrUnknownOperation string
  | ErrMarshalResult

definition outcome_found :: string where "outcome_found = ''found''"
definition outcome_empty :: string where "outcome_empty = ''empty''"
definition outcome_not_found :: string where "outcome_not_found = ''not_found''"

definition node_to_result :: "node \<Rightarrow> result_node" where
  "node_to_result n =
     \<lparr>rn_id = n_id n, rn_kind = n_kind n, rn_qname = n_qname n, rn_path = n_path n,
      rn_line = n_line n, rn_col = n_col n, rn_parent_kind = [], rn_parent_name = []\<rparr>"

definition edge_to_result :: "edge \<Rightarrow> result_edge" where
  "edge_to_result e =
     \<lparr>re_id = e_id e, re_from = e_from e, re_to = e_to e, re_kind = e_kind e, re_tier = e_tier e,
      re_conf = e_conf e, re_reason = e_reason e, re_evidence = e_evidence e\<rparr>"

definition result_found :: "query_result \<Rightarrow> bool" where
  "result_found r \<longleftrightarrow> qr_outcome r \<noteq> outcome_not_found"

subsection \<open>The canonical order\<close>

definition tier_rank :: "string \<Rightarrow> int" where
  "tier_rank t =
     (if t = ''confirmed'' then 0 else if t = ''derived'' then 1 else if t = ''heuristic'' then 2 else 3)"

definition sort_nodes :: "result_node list \<Rightarrow> result_node list" where
  "sort_nodes ns = sort_key rn_id ns"

definition result_edge_key :: "result_edge \<Rightarrow> int \<times> string \<times> string \<times> string \<times> string" where
  "result_edge_key e = (tier_rank (re_tier e), re_from e, re_to e, re_kind e, re_id e)"

definition sort_edges :: "result_edge list \<Rightarrow> result_edge list" where
  "sort_edges es = sort_key result_edge_key es"

subsection \<open>Shared steps of the queries\<close>

definition kind_package_node :: string where "kind_package_node = ''package''"
definition kind_external_node :: string where "kind_external_node = ''external''"

definition resolve_symbol :: "lookup_port option \<Rightarrow> node_id \<Rightarrow> query_error + node option" where
  "resolve_symbol lookup i =
     (case lookup of
        None \<Rightarrow> Inl ErrSelectiveLookupUnavailable
      | Some p \<Rightarrow>
          (case lp_nodes_by_id p [i] of
             Inl err \<Rightarrow> Inl (ErrQueryRead err)
           | Inr [] \<Rightarrow> Inr None
           | Inr (n # ns) \<Rightarrow> Inr (Some n)))"

definition not_found_result :: "string \<Rightarrow> node_id \<Rightarrow> query_result" where
  "not_found_result operation i =
     \<lparr>qr_operation = operation, qr_symbol = i, qr_outcome = outcome_not_found, qr_depth = None,
      qr_nodes = [], qr_edges = []\<rparr>"

definition finalize ::
  "string \<Rightarrow> node_id \<Rightarrow> int option \<Rightarrow> result_node list \<Rightarrow> result_edge list \<Rightarrow> query_result" where
  "finalize operation i depth ns es =
     \<lparr>qr_operation = operation, qr_symbol = i,
      qr_outcome = (if ns = [] \<and> es = [] then outcome_empty else outcome_found),
      qr_depth = depth, qr_nodes = sort_nodes ns, qr_edges = sort_edges es\<rparr>"

definition external_ids :: "result_node list \<Rightarrow> node_id fset" where
  "external_ids ns = fset_of_list (map rn_id (filter (\<lambda>n. rn_kind n = kind_external_node) ns))"

definition drop_external_nodes :: "result_node list \<Rightarrow> node_id fset \<Rightarrow> result_node list" where
  "drop_external_nodes ns external =
     (if external = {||} then ns else filter (\<lambda>n. rn_id n |\<notin>| external) ns)"

definition collect_nodes :: "lookup_port \<Rightarrow> node_id fset \<Rightarrow> query_error + result_node list" where
  "collect_nodes p ids =
     (if ids = {||} then Inr []
      else case lp_nodes_by_id p (sorted_list_of_fset ids) of
        Inl err \<Rightarrow> Inl (ErrQueryRead err)
      | Inr ns \<Rightarrow> Inr (map node_to_result ns))"

subsection \<open>Directed lookups\<close>

text \<open>What both lookups do once the edges are read.\<close>

definition endpoint_of :: "bool \<Rightarrow> edge \<Rightarrow> node_id" where
  "endpoint_of inbound e = (if inbound then e_from e else e_to e)"

definition attach_endpoints ::
  "lookup_port \<Rightarrow> string \<Rightarrow> node_id \<Rightarrow> bool \<Rightarrow> edge list \<Rightarrow> query_error + query_result" where
  "attach_endpoints p operation i inbound es =
     (let pairs = map (\<lambda>e. (edge_to_result e, endpoint_of inbound e)) es in
      case collect_nodes p (fset_of_list (map snd pairs)) of
        Inl err \<Rightarrow> Inl err
      | Inr ns \<Rightarrow>
          (let external = external_ids ns in
           Inr (finalize operation i None (drop_external_nodes ns external)
                  (map fst (filter (\<lambda>(e, endpoint). endpoint |\<notin>| external) pairs)))))"

definition multi_kind_lookup ::
  "lookup_port option \<Rightarrow> string \<Rightarrow> node_id \<Rightarrow> string list \<Rightarrow> bool \<Rightarrow> query_error + query_result" where
  "multi_kind_lookup lookup operation i kinds inbound =
     (case resolve_symbol lookup i of
        Inl err \<Rightarrow> Inl err
      | Inr None \<Rightarrow> Inr (not_found_result operation i)
      | Inr (Some seed) \<Rightarrow>
          (case (if inbound then lp_incoming (the lookup) i kinds else lp_outgoing (the lookup) i kinds) of
             Inl err \<Rightarrow> Inl (ErrQueryRead err)
           | Inr es \<Rightarrow> attach_endpoints (the lookup) operation i inbound es))"

definition directed_lookup ::
  "lookup_port option \<Rightarrow> string \<Rightarrow> node_id \<Rightarrow> string \<Rightarrow> bool \<Rightarrow> query_error + query_result" where
  "directed_lookup lookup operation i kind inbound =
     (case resolve_symbol lookup i of
        Inl err \<Rightarrow> Inl err
      | Inr None \<Rightarrow> Inr (not_found_result operation i)
      | Inr (Some seed) \<Rightarrow>
          (case (if inbound then lp_incoming (the lookup) i [kind] else lp_outgoing (the lookup) i [kind]) of
             Inl err \<Rightarrow> Inl (ErrQueryRead err)
           | Inr es \<Rightarrow> attach_endpoints (the lookup) operation i inbound es))"

definition callers :: "lookup_port option \<Rightarrow> node_id \<Rightarrow> query_error + query_result" where
  "callers lookup i = directed_lookup lookup ''callers'' i ''calls'' True"

definition callees :: "lookup_port option \<Rightarrow> node_id \<Rightarrow> query_error + query_result" where
  "callees lookup i = directed_lookup lookup ''callees'' i ''calls'' False"

definition references :: "lookup_port option \<Rightarrow> node_id \<Rightarrow> query_error + query_result" where
  "references lookup i = directed_lookup lookup ''references'' i ''references'' True"

definition definition_of :: "lookup_port option \<Rightarrow> node_id \<Rightarrow> query_error + query_result" where
  "definition_of lookup i = directed_lookup lookup ''definition'' i ''defines'' True"

definition implementers :: "lookup_port option \<Rightarrow> node_id \<Rightarrow> query_error + query_result" where
  "implementers lookup i = directed_lookup lookup ''implementers'' i ''implements'' True"

definition implements_of :: "lookup_port option \<Rightarrow> node_id \<Rightarrow> query_error + query_result" where
  "implements_of lookup i = directed_lookup lookup ''implements'' i ''implements'' False"

definition overrides :: "lookup_port option \<Rightarrow> node_id \<Rightarrow> query_error + query_result" where
  "overrides lookup i = directed_lookup lookup ''overrides'' i ''overrides'' True"

definition subtypes :: "lookup_port option \<Rightarrow> node_id \<Rightarrow> query_error + query_result" where
  "subtypes lookup i = multi_kind_lookup lookup ''subtypes'' i [''inherits'', ''implements''] True"

definition supertypes :: "lookup_port option \<Rightarrow> node_id \<Rightarrow> query_error + query_result" where
  "supertypes lookup i = multi_kind_lookup lookup ''supertypes'' i [''inherits'', ''implements''] False"

subsection \<open>Neighborhoods\<close>

definition max_neighborhood_depth :: int where
  "max_neighborhood_depth = 5"

record walk =
  wk_visited :: "(node_id, node) fmap"
  wk_edges :: "(edge_id, edge) fmap"
  wk_frontier :: "node_id list"
  wk_expanded :: "node_id fset"

definition other_end :: "node_id \<Rightarrow> edge \<Rightarrow> node_id" where
  "other_end cur e = (if e_from e = cur then e_to e else e_from e)"

text \<open>The frontier loop: the nodes expanded so far, the candidates and the unseen endpoints.\<close>

type_synonym gathered = "node_id fset \<times> (edge \<times> node_id) list \<times> node_id fset"

fun gather ::
  "lookup_port \<Rightarrow> (node_id, node) fmap \<Rightarrow> gathered \<Rightarrow> node_id list \<Rightarrow> query_error + gathered" where
  "gather p visited acc [] = Inr acc"
| "gather p visited (expanded, cands, unseen) (cur # rest) =
     (if cur |\<in>| expanded then gather p visited (expanded, cands, unseen) rest
      else case lp_incoming p cur [] of
        Inl err \<Rightarrow> Inl (ErrQueryRead err)
      | Inr inc \<Rightarrow>
          (case lp_outgoing p cur [] of
             Inl err \<Rightarrow> Inl (ErrQueryRead err)
           | Inr out \<Rightarrow>
               gather p visited
                 (finsert cur expanded,
                  cands @ map (\<lambda>e. (e, other_end cur e)) (inc @ out),
                  unseen |\<union>| fset_of_list (filter (\<lambda>i. i |\<notin>| fmdom visited) (map (other_end cur) (inc @ out))))
                 rest))"

definition hydrate :: "lookup_port \<Rightarrow> node_id fset \<Rightarrow> query_error + (node_id, node) fmap" where
  "hydrate p unseen =
     (if unseen = {||} then Inr fmempty
      else case lp_nodes_by_id p (sorted_list_of_fset unseen) of
        Inl err \<Rightarrow> Inl (ErrQueryRead err)
      | Inr ns \<Rightarrow> Inr (fold (\<lambda>n f. fmupd (n_id n) n f) ns fmempty))"

text \<open>The candidate loop, over the visited nodes, the collected edges and the next frontier.\<close>

type_synonym settled = "(node_id, node) fmap \<times> (edge_id, edge) fmap \<times> node_id list"

definition settle :: "(node_id, node) fmap \<Rightarrow> edge \<times> node_id \<Rightarrow> settled \<Rightarrow> settled" where
  "settle fetched c s =
     (case (c, s) of ((e, i), visited, collected, next_ids) \<Rightarrow>
        (case (case fmlookup visited i of Some n \<Rightarrow> Some n | None \<Rightarrow> fmlookup fetched i) of
           None \<Rightarrow> s
         | Some n \<Rightarrow>
             if n_kind n = kind_package_node then s
             else if n_kind n = kind_external_node then s
             else if i |\<in>| fmdom visited then (visited, fmupd (e_id e) e collected, next_ids)
             else (fmupd i n visited, fmupd (e_id e) e collected, next_ids @ [i])))"

definition hop :: "lookup_port \<Rightarrow> walk \<Rightarrow> query_error + walk" where
  "hop p w =
     (case gather p (wk_visited w) (wk_expanded w, [], {||}) (wk_frontier w) of
        Inl err \<Rightarrow> Inl err
      | Inr (expanded, cands, unseen) \<Rightarrow>
          (case hydrate p unseen of
             Inl err \<Rightarrow> Inl err
           | Inr fetched \<Rightarrow>
               (case fold (settle fetched) cands (wk_visited w, wk_edges w, []) of
                  (visited, collected, next_ids) \<Rightarrow>
                    Inr \<lparr>wk_visited = visited, wk_edges = collected, wk_frontier = next_ids,
                         wk_expanded = expanded\<rparr>)))"

fun hops :: "lookup_port \<Rightarrow> nat \<Rightarrow> walk \<Rightarrow> query_error + walk" where
  "hops p 0 w = Inr w"
| "hops p (Suc k) w =
     (if wk_frontier w = [] then Inr w
      else case hop p w of Inl err \<Rightarrow> Inl err | Inr w' \<Rightarrow> hops p k w')"

definition clamp_depth :: "int \<Rightarrow> int" where
  "clamp_depth d =
     (let d0 = (if d < 0 then 0 else d) in
      if d0 > max_neighborhood_depth then max_neighborhood_depth else d0)"

definition neighborhood :: "lookup_port option \<Rightarrow> node_id \<Rightarrow> int \<Rightarrow> query_error + query_result" where
  "neighborhood lookup i depth_n =
     (case resolve_symbol lookup i of
        Inl err \<Rightarrow> Inl err
      | Inr None \<Rightarrow> Inr (not_found_result ''neighborhood'' i)
      | Inr (Some seed) \<Rightarrow>
          (let depth = clamp_depth depth_n in
           case hops (the lookup) (nat depth)
                  \<lparr>wk_visited = fmupd (n_id seed) seed fmempty, wk_edges = fmempty,
                   wk_frontier = [i], wk_expanded = {||}\<rparr> of
             Inl err \<Rightarrow> Inl err
           | Inr w \<Rightarrow>
               Inr (finalize ''neighborhood'' i (Some depth)
                      (map node_to_result (map_values (wk_visited w)))
                      (map edge_to_result (map_values (wk_edges w))))))"

subsection \<open>Dispatch and serialization\<close>

definition operations :: "string list" where
  "operations = [''callers'', ''callees'', ''references'', ''definition'', ''neighborhood'', ''implementers'',
     ''implements'', ''overrides'', ''subtypes'', ''supertypes'']"

definition dispatch :: "lookup_port option \<Rightarrow> string \<Rightarrow> node_id \<Rightarrow> int \<Rightarrow> query_error + query_result" where
  "dispatch lookup operation i depth =
     (if operation = ''callers'' then callers lookup i
      else if operation = ''callees'' then callees lookup i
      else if operation = ''references'' then references lookup i
      else if operation = ''definition'' then definition_of lookup i
      else if operation = ''neighborhood'' then neighborhood lookup i depth
      else if operation = ''implementers'' then implementers lookup i
      else if operation = ''implements'' then implements_of lookup i
      else if operation = ''overrides'' then overrides lookup i
      else if operation = ''subtypes'' then subtypes lookup i
      else if operation = ''supertypes'' then supertypes lookup i
      else Inl (ErrUnknownOperation operation))"

definition marshal_result :: "(query_result \<Rightarrow> string option) \<Rightarrow> query_result \<Rightarrow> query_error + string" where
  "marshal_result json r =
     (case json (r\<lparr>qr_nodes := sort_nodes (qr_nodes r), qr_edges := sort_edges (qr_edges r)\<rparr>) of
        None \<Rightarrow> Inl ErrMarshalResult
      | Some bytes \<Rightarrow> Inr bytes)"

subsection \<open>The port as an interface\<close>

lemma result_fields [simp]:
  "rn_id (node_to_result n) = n_id n" "rn_kind (node_to_result n) = n_kind n"
  "re_id (edge_to_result e) = e_id e" "re_from (edge_to_result e) = e_from e" "re_to (edge_to_result e) = e_to e"
  "re_kind (edge_to_result e) = e_kind e" "re_tier (edge_to_result e) = e_tier e"
  by (simp_all add: node_to_result_def edge_to_result_def)

lemma in_external_ids:
  "j |\<in>| external_ids (map node_to_result ns) \<longleftrightarrow> (\<exists>n \<in> set ns. n_id n = j \<and> n_kind n = kind_external_node)"
  by (auto simp: external_ids_def fset_of_list_elem filter_map o_def)

text \<open>
  What the queries rely on: the reads answer from one set of nodes and one set of edges, each in
  identity order without duplicates.  The endpoints of an edge need not be stored.
\<close>

locale graph_lookup =
  fixes sound :: "'s \<Rightarrow> bool"
    and stored_nodes :: "'s \<Rightarrow> node list"
    and stored_edges :: "'s \<Rightarrow> edge list"
    and port :: "'s \<Rightarrow> lookup_port"
  assumes by_id: "sound s \<Longrightarrow> lp_nodes_by_id (port s) is = Inr (filter (\<lambda>n. n_id n \<in> set is) (stored_nodes s))"
    and into: "sound s \<Longrightarrow> lp_incoming (port s) i kinds =
      Inr (filter (\<lambda>e. e_to e = i \<and> (kinds = [] \<or> e_kind e \<in> set kinds)) (stored_edges s))"
    and out_of: "sound s \<Longrightarrow> lp_outgoing (port s) i kinds =
      Inr (filter (\<lambda>e. e_from e = i \<and> (kinds = [] \<or> e_kind e \<in> set kinds)) (stored_edges s))"
    and nodes_once: "sound s \<Longrightarrow> ssorted (map n_id (stored_nodes s))"
    and edges_once: "sound s \<Longrightarrow> ssorted (map e_id (stored_edges s))"
begin

lemma resolve_eq:
  assumes "sound s"
  shows "resolve_symbol (Some (port s)) i = Inr (find (\<lambda>n. n_id n = i) (stored_nodes s))"
proof -
  have "(case filter (\<lambda>n. n_id n = i) ns of [] \<Rightarrow> Inr None | n # ms \<Rightarrow> Inr (Some n)) =
      (Inr (find (\<lambda>n. n_id n = i) ns) :: query_error + node option)" for ns
    by (induction ns) simp_all
  then show ?thesis by (simp add: resolve_symbol_def by_id [OF assms])
qed

lemma same_node:
  assumes "sound s" "n \<in> set (stored_nodes s)" "m \<in> set (stored_nodes s)" "n_id n = n_id m"
  shows "n = m"
  using ssorted_distinct [OF nodes_once [OF assms(1)]] assms(2-4) by (metis distinct_map inj_onD)

lemma same_edge:
  assumes "sound s" "e \<in> set (stored_edges s)" "f \<in> set (stored_edges s)" "e_id e = e_id f"
  shows "e = f"
  using ssorted_distinct [OF edges_once [OF assms(1)]] assms(2-4) by (metis distinct_map inj_onD)

lemma resolve_found:
  assumes "sound s" "n \<in> set (stored_nodes s)"
  shows "resolve_symbol (Some (port s)) (n_id n) = Inr (Some n)"
proof -
  have "find (\<lambda>m. n_id m = n_id n) (stored_nodes s) \<noteq> None"
    using assms(2) by (auto simp: find_None_iff)
  then obtain m where m: "find (\<lambda>m. n_id m = n_id n) (stored_nodes s) = Some m" by blast
  then have "m \<in> set (stored_nodes s)" "n_id m = n_id n" by (auto simp: find_Some_iff)
  then show ?thesis using m same_node [OF assms(1)] assms(2) by (simp add: resolve_eq [OF assms(1)])
qed

lemma resolve_missing:
  "sound s \<Longrightarrow> i \<notin> n_id ` set (stored_nodes s) \<Longrightarrow> resolve_symbol (Some (port s)) i = Inr None"
  by (auto simp: resolve_eq find_None_iff)

text \<open>An identity is hidden when the stored node under it is of the external kind.\<close>

definition hidden :: "'s \<Rightarrow> node_id \<Rightarrow> bool" where
  "hidden s i \<longleftrightarrow> (\<exists>n \<in> set (stored_nodes s). n_id n = i \<and> n_kind n = kind_external_node)"

lemma collect_eq:
  assumes "sound s"
  shows "collect_nodes (port s) ids = Inr (map node_to_result (filter (\<lambda>n. n_id n |\<in>| ids) (stored_nodes s)))"
  by (simp add: collect_nodes_def by_id [OF assms])

lemma attach_eq:
  assumes "sound s"
  shows "attach_endpoints (port s) op i inbound es = Inr (finalize op i None
      (map node_to_result (filter (\<lambda>n. n_id n \<in> endpoint_of inbound ` set es \<and> n_kind n \<noteq> kind_external_node) (stored_nodes s)))
      (map edge_to_result (filter (\<lambda>e. \<not> hidden s (endpoint_of inbound e)) es)))"
proof -
  let ?ids = "fset_of_list (map (endpoint_of inbound) es)"
  let ?ns = "filter (\<lambda>n. n_id n |\<in>| ?ids) (stored_nodes s)"
  let ?x = "external_ids (map node_to_result ?ns)"
  have x: "j |\<in>| ?x \<longleftrightarrow> j \<in> endpoint_of inbound ` set es \<and> hidden s j" for j
    by (auto simp: in_external_ids hidden_def fset_of_list_elem)
  have "drop_external_nodes (map node_to_result ?ns) ?x =
      map node_to_result (filter (\<lambda>n. n_id n |\<notin>| ?x) ?ns)"
  proof (cases "?x = {||}")
    case True
    then show ?thesis by (simp add: drop_external_nodes_def)
  next
    case False
    then show ?thesis by (simp add: drop_external_nodes_def filter_map o_def)
  qed
  also have "filter (\<lambda>n. n_id n |\<notin>| ?x) ?ns =
      filter (\<lambda>n. n_id n \<in> endpoint_of inbound ` set es \<and> n_kind n \<noteq> kind_external_node) (stored_nodes s)"
    unfolding filter_filter
    by (rule filter_cong [OF refl], subst x) (auto simp: hidden_def fset_of_list_elem dest: same_node [OF assms])
  finally have nodes: "drop_external_nodes (map node_to_result ?ns) ?x = map node_to_result
      (filter (\<lambda>n. n_id n \<in> endpoint_of inbound ` set es \<and> n_kind n \<noteq> kind_external_node) (stored_nodes s))" .
  have "map fst (filter (\<lambda>(e, endpoint). endpoint |\<notin>| ?x) (map (\<lambda>e. (edge_to_result e, endpoint_of inbound e)) es)) =
      map edge_to_result (filter (\<lambda>e. endpoint_of inbound e |\<notin>| ?x) es)"
    by (simp add: filter_map o_def)
  also have "filter (\<lambda>e. endpoint_of inbound e |\<notin>| ?x) es = filter (\<lambda>e. \<not> hidden s (endpoint_of inbound e)) es"
    by (rule filter_cong [OF refl], subst x) auto
  finally have edges: "map fst (filter (\<lambda>(e, endpoint). endpoint |\<notin>| ?x)
        (map (\<lambda>e. (edge_to_result e, endpoint_of inbound e)) es)) =
      map edge_to_result (filter (\<lambda>e. \<not> hidden s (endpoint_of inbound e)) es)" .
  have ids: "map snd (map (\<lambda>e. (edge_to_result e, endpoint_of inbound e)) es) = map (endpoint_of inbound) es"
    by simp
  show ?thesis
    unfolding attach_endpoints_def Let_def ids collect_eq [OF assms] sum.case nodes edges ..
qed

text \<open>The edges of the kinds at the far side of the symbol.\<close>

definition far_edges :: "'s \<Rightarrow> node_id \<Rightarrow> string list \<Rightarrow> bool \<Rightarrow> edge list" where
  "far_edges s i kinds inbound =
     filter (\<lambda>e. endpoint_of (\<not> inbound) e = i \<and> (kinds = [] \<or> e_kind e \<in> set kinds)) (stored_edges s)"

lemma multi_eq:
  assumes "sound s"
  shows "multi_kind_lookup (Some (port s)) op i kinds inbound =
     (if i \<notin> n_id ` set (stored_nodes s) then Inr (not_found_result op i)
      else Inr (finalize op i None
        (map node_to_result (filter (\<lambda>n. n_id n \<in> endpoint_of inbound ` set (far_edges s i kinds inbound) \<and>
           n_kind n \<noteq> kind_external_node) (stored_nodes s)))
        (map edge_to_result (filter (\<lambda>e. \<not> hidden s (endpoint_of inbound e)) (far_edges s i kinds inbound)))))"
proof (cases "i \<in> n_id ` set (stored_nodes s)")
  case True
  then obtain n where "n \<in> set (stored_nodes s)" "i = n_id n" by blast
  note r = resolve_found [OF assms this(1), folded this(2)]
  have "(if inbound then lp_incoming (port s) i kinds else lp_outgoing (port s) i kinds) =
      Inr (far_edges s i kinds inbound)"
    by (simp add: far_edges_def endpoint_of_def into [OF assms] out_of [OF assms])
  then show ?thesis using True by (cases inbound) (simp_all add: multi_kind_lookup_def r attach_eq [OF assms])
next
  case False
  then show ?thesis by (simp add: multi_kind_lookup_def resolve_missing [OF assms])
qed

end

lemma directed_is_multi: "directed_lookup lookup op i k inbound = multi_kind_lookup lookup op i [k] inbound"
  by (simp add: directed_lookup_def multi_kind_lookup_def)

text \<open>The in-memory store provides the port.\<close>

definition mem_port :: "store_error option \<Rightarrow> mem_store \<Rightarrow> lookup_port" where
  "mem_port ctx m =
     \<lparr>lp_get_node = mem_get_node ctx m, lp_nodes_by_id = mem_nodes_by_id ctx m, lp_incoming = mem_incoming ctx m, lp_outgoing = mem_outgoing ctx m\<rparr>"

lemma mem_by_id:
  assumes "store_ok m" "\<not> closed m"
  shows "mem_nodes_by_id None m is = Inr (filter (\<lambda>n. n_id n \<in> set is) (map_values (nodes m)))"
proof -
  let ?U = "unique_loop {||} [] is"
  have k: "keyed n_id (nodes m)" using assms(1) by (simp add: store_ok_def nodes_indexed_def)
  have "distinct (map n_id (hits (nodes m) ?U))"
    unfolding map_hits [OF k] by (simp add: distinct_unique_loop)
  moreover have "set (hits (nodes m) ?U) = {n \<in> fmran' (nodes m). n_id n \<in> set is}"
    using keyedD [OF k] by (auto simp: set_hits set_unique_loop elim!: fmran'E intro: fmran'I)
  ultimately show ?thesis
    using assms(2) by (simp add: mem_nodes_by_id_def nodes_by_id_loop_eq sort_key_eq_values [OF k])
qed

lemma store_keys: "store_ok m \<Longrightarrow> keyed n_id (nodes m) \<and> keyed e_id (edges m)"
  by (simp add: store_ok_def nodes_indexed_def edges_indexed_def)

interpretation mg: graph_lookup "\<lambda>m. store_ok m \<and> \<not> closed m" "\<lambda>m. map_values (nodes m)"
    "\<lambda>m. map_values (edges m)" "mem_port None"
  by unfold_locales
    (simp_all add: mem_port_def mem_by_id incoming_eq outgoing_eq edges_at_def kind_matches_iff
      ssorted_values store_keys)

end
