(* ===== verification/Neighborhood.thy ===== *)
theory Neighborhood
  imports Query
begin

text \<open>
  The bounded traversal of \<open>engine/query/service.go\<close> against its reference: the inductive
  distance \<open>near\<close>, the loops of a hop in closed form, and the state after each hop.
\<close>

subsection \<open>Distance\<close>

text \<open>
  The reference for neighborhoods: \<open>near N E s k y\<close> says that \<open>k\<close> undirected steps over the
  edges \<open>E\<close> lead from \<open>s\<close> to \<open>y\<close>, each onto a stored node that is neither a package nor external.
\<close>

definition navigable :: "node set \<Rightarrow> node_id \<Rightarrow> bool" where
  "navigable N i \<longleftrightarrow> (\<exists>n \<in> N. n_id n = i \<and> n_kind n \<noteq> ''package'' \<and> n_kind n \<noteq> ''external'')"

definition joins :: "edge \<Rightarrow> node_id \<Rightarrow> node_id \<Rightarrow> bool" where
  "joins e x y \<longleftrightarrow> e_from e = x \<and> e_to e = y \<or> e_to e = x \<and> e_from e = y"

inductive near :: "node set \<Rightarrow> edge set \<Rightarrow> node_id \<Rightarrow> nat \<Rightarrow> node_id \<Rightarrow> bool" for N E s where
  here: "near N E s k s"
| step: "near N E s k x \<Longrightarrow> e \<in> E \<Longrightarrow> joins e x y \<Longrightarrow> navigable N y \<Longrightarrow> near N E s (Suc k) y"

inductive_simps near_0: "near N E s 0 y"
inductive_cases near_SucE: "near N E s (Suc k) y"

lemma near_mono1: "near N E s k y \<Longrightarrow> near N E s (Suc k) y"
  by (induction rule: near.induct) (auto intro: near.intros)

lemma near_Suc: "near N E s (Suc k) y \<longleftrightarrow>
    near N E s k y \<or> (\<exists>x e. near N E s k x \<and> e \<in> E \<and> joins e x y \<and> navigable N y)"
  by (auto elim: near_SucE intro: near.intros near_mono1)

lemma near_mono: "near N E s k y \<Longrightarrow> k \<le> l \<Longrightarrow> near N E s l y"
  by (induction l) (auto simp: le_Suc_eq intro: near_mono1)

lemma near_settles:
  assumes "near N E s (Suc j) = near N E s j"
  shows "near N E s (j + k) = near N E s j"
proof (induction k)
  case (Suc k)
  have "near N E s (Suc (j + k)) y \<longleftrightarrow> near N E s (Suc j) y" for y
    unfolding near_Suc [of _ _ _ "j + k"] near_Suc [of _ _ _ j] Suc ..
  then show ?case using assms by auto
qed simp

lemma other_end_iff: "(e_from e = x \<or> e_to e = x) \<and> other_end x e = y \<longleftrightarrow> joins e x y"
  by (auto simp: other_end_def joins_def)

text \<open>Strictly before the last hop: the nodes that \<open>j\<close> hops have expanded.\<close>

fun before :: "node set \<Rightarrow> edge set \<Rightarrow> node_id \<Rightarrow> nat \<Rightarrow> node_id \<Rightarrow> bool" where
  "before N E s 0 y = False"
| "before N E s (Suc j) y = near N E s j y"

lemma before_near: "before N E s j y \<Longrightarrow> near N E s j y"
  by (cases j) (auto intro: near_mono1)

subsection \<open>The walk\<close>

text \<open>What the settle loop computes, for candidates among edges that identities determine.\<close>

definition seen_node :: "(node_id, node) fmap \<Rightarrow> (node_id, node) fmap \<Rightarrow> node_id \<Rightarrow> node option" where
  "seen_node visited fetched i = (case fmlookup visited i of Some n \<Rightarrow> Some n | None \<Rightarrow> fmlookup fetched i)"

definition enters :: "node option \<Rightarrow> bool" where
  "enters n = (case n of None \<Rightarrow> False | Some n \<Rightarrow> n_kind n \<noteq> kind_package_node \<and> n_kind n \<noteq> kind_external_node)"

lemma settle_eq:
  "settle fetched (e, i) (V, C, nx) =
     (if \<not> enters (seen_node V fetched i) then (V, C, nx)
      else (if i |\<in>| fmdom V then V else fmupd i (the (seen_node V fetched i)) V,
            fmupd (e_id e) e C, if i |\<in>| fmdom V then nx else nx @ [i]))"
  by (simp add: settle_def seen_node_def enters_def split: option.split)

lemma seen_node_upd:
  "seen_node (if i |\<in>| fmdom V then V else fmupd i (the (seen_node V fetched i)) V) fetched =
     seen_node V fetched" if "seen_node V fetched i \<noteq> None"
  using that by (auto simp: seen_node_def fun_eq_iff split: option.splits)

lemma settle_loop:
  assumes "fold (settle fetched) cs (V, C, nx) = (V', C', nx')"
    and "inj_on e_id (fst ` set cs)"
    and "\<forall>e \<in> fst ` set cs. \<forall>f. fmlookup C (e_id e) = Some f \<longrightarrow> f = e"
  shows "(\<forall>i. fmlookup V' i =
        (if \<exists>e. (e, i) \<in> set cs \<and> enters (seen_node V fetched i) then seen_node V fetched i else fmlookup V i)) \<and>
     (\<forall>k e. fmlookup C' k = Some e \<longleftrightarrow> fmlookup C k = Some e \<or>
        (\<exists>i. (e, i) \<in> set cs \<and> enters (seen_node V fetched i) \<and> e_id e = k)) \<and>
     set nx' = set nx \<union> {i. (\<exists>e. (e, i) \<in> set cs) \<and> enters (seen_node V fetched i) \<and> i |\<notin>| fmdom V}"
  using assms
proof (induction cs arbitrary: V C nx)
  case (Cons c cs)
  obtain f j where c: "c = (f, j)" by fastforce
  have d: "inj_on e_id (fst ` set cs)" using Cons.prems(2) by (rule inj_on_subset) auto
  show ?case
  proof (cases "enters (seen_node V fetched j)")
    case False
    then have f: "fold (settle fetched) cs (V, C, nx) = (V', C', nx')"
      using Cons.prems(1) by (simp add: c settle_eq)
    have g: "\<forall>e \<in> fst ` set cs. \<forall>f. fmlookup C (e_id e) = Some f \<longrightarrow> f = e"
      using Cons.prems(3) by simp
    show ?thesis using Cons.IH [OF f d g] False by (auto simp: c)
  next
    case True
    let ?V = "if j |\<in>| fmdom V then V else fmupd j (the (seen_node V fetched j)) V"
    let ?C = "fmupd (e_id f) f C"
    have nn: "seen_node V fetched j \<noteq> None" using True by (auto simp: enters_def split: option.splits)
    have f: "fold (settle fetched) cs (?V, ?C, if j |\<in>| fmdom V then nx else nx @ [j]) = (V', C', nx')"
      using Cons.prems(1) True by (simp add: c settle_eq)
    have g: "\<forall>e \<in> fst ` set cs. \<forall>f'. fmlookup ?C (e_id e) = Some f' \<longrightarrow> f' = e"
    proof (intro ballI allI impI)
      fix e f' assume e: "e \<in> fst ` set cs" and l: "fmlookup ?C (e_id e) = Some f'"
      show "f' = e"
      proof (cases "e_id e = e_id f")
        case True
        then have "e = f" using inj_onD [OF Cons.prems(2)] e by (simp add: c)
        then show ?thesis using l by simp
      next
        case False
        then have "fmlookup C (e_id e) = Some f'" using l by simp
        moreover have "e \<in> fst ` set (c # cs)" using e by simp
        ultimately show ?thesis using Cons.prems(3) by blast
      qed
    qed
    have vj: "fmlookup ?V j = seen_node V fetched j"
      using nn by (auto simp: seen_node_def fmlookup_dom_iff split: option.splits)
    have vi: "i \<noteq> j \<Longrightarrow> fmlookup ?V i = fmlookup V i" for i by auto
    note IH = Cons.IH [OF f d g, unfolded seen_node_upd [OF nn]]
    have 1: "fmlookup V' i = (if \<exists>e. (e, i) \<in> set (c # cs) \<and> enters (seen_node V fetched i)
        then seen_node V fetched i else fmlookup V i)" for i
      using IH True vj vi by (cases "i = j") (auto simp: c)
    have u: "fmlookup C (e_id f) = Some h \<Longrightarrow> h = f" for h using Cons.prems(3) by (simp add: c)
    have 2: "fmlookup C' k = Some e \<longleftrightarrow> fmlookup C k = Some e \<or>
       (\<exists>i. (e, i) \<in> set (c # cs) \<and> enters (seen_node V fetched i) \<and> e_id e = k)" for k e
    proof -
      have "fmlookup C' k = Some e \<longleftrightarrow> fmlookup ?C k = Some e \<or>
          (\<exists>i. (e, i) \<in> set cs \<and> enters (seen_node V fetched i) \<and> e_id e = k)"
        using IH by blast
      moreover have "fmlookup ?C k = Some e \<or> fmlookup C k = Some e \<longleftrightarrow> fmlookup C k = Some e \<or> e = f \<and> e_id f = k"
        using u by auto
      moreover have "fmlookup ?C k = Some e \<Longrightarrow> fmlookup C k = Some e \<or> e = f \<and> e_id f = k"
        by (auto split: if_splits)
      moreover have "fmlookup C k = Some e \<Longrightarrow> fmlookup ?C k = Some e" using u by auto
      ultimately show ?thesis using True by (auto simp: c)
    qed
    have 3: "set nx' = set nx \<union> {i. (\<exists>e. (e, i) \<in> set (c # cs)) \<and> enters (seen_node V fetched i) \<and> i |\<notin>| fmdom V}"
      using IH True by (auto simp: c split: if_splits)
    from 1 2 3 show ?thesis by (intro conjI allI)
  qed
qed auto

lemma hydrate_loop:
  assumes "inj_on n_id (set ns)"
  shows "fmlookup (fold (\<lambda>n f. fmupd (n_id n) n f) ns f0) i = Some n \<longleftrightarrow>
    n \<in> set ns \<and> n_id n = i \<or> i \<notin> n_id ` set ns \<and> fmlookup f0 i = Some n"
  using assms
proof (induction ns arbitrary: f0)
  case (Cons m ns)
  then show ?case by (cases "m \<in> set ns") (auto simp: insert_absorb inj_on_def)
qed simp

context graph_lookup begin

abbreviation N where "N s \<equiv> set (stored_nodes s)"
abbreviation E where "E s \<equiv> set (stored_edges s)"

lemma hydrate_eq:
  assumes "sound s"
  shows "\<exists>f. hydrate (port s) unseen = Inr f \<and> (\<forall>i n. fmlookup f i = Some n \<longleftrightarrow> n \<in> N s \<and> n_id n = i \<and> i |\<in>| unseen)"
proof (cases "unseen = {||}")
  case False
  let ?ns = "filter (\<lambda>n. n_id n |\<in>| unseen) (stored_nodes s)"
  have "inj_on n_id (set ?ns)" by (auto intro!: inj_onI dest: same_node [OF assms])
  then show ?thesis using False by (auto simp: hydrate_def by_id [OF assms] hydrate_loop)
qed (simp add: hydrate_def)

lemma gather_eq:
  assumes "sound s"
  shows "\<exists>c' u'. gather (port s) V (ex, c, u) F = Inr (ex |\<union>| fset_of_list F, c', u') \<and>
    set c' = set c \<union> {(e, y). e \<in> E s \<and> (\<exists>x \<in> set F - fset ex. joins e x y)} \<and>
    fset u' = fset u \<union> {y. y |\<notin>| fmdom V \<and> (\<exists>e \<in> E s. \<exists>x \<in> set F - fset ex. joins e x y)}"
proof (induction F arbitrary: ex c u)
  case (Cons x F)
  show ?case
  proof (cases "x |\<in>| ex")
    case True
    then have "finsert x (ex |\<union>| fset_of_list F) = ex |\<union>| fset_of_list F" by auto
    then show ?thesis using Cons [of ex c u] True by (simp add: insert_Diff_if)
  next
    case False
    let ?es = "filter (\<lambda>e. e_to e = x) (stored_edges s) @ filter (\<lambda>e. e_from e = x) (stored_edges s)"
    let ?c = "c @ map (\<lambda>e. (e, other_end x e)) ?es"
    let ?u = "u |\<union>| fset_of_list (filter (\<lambda>i. i |\<notin>| fmdom V) (map (other_end x) ?es))"
    have g: "gather (port s) V (ex, c, u) (x # F) = gather (port s) V (finsert x ex, ?c, ?u) F"
      using False by (simp add: into [OF assms] out_of [OF assms])
    have es: "e \<in> set ?es \<and> other_end x e = y \<longleftrightarrow> e \<in> E s \<and> joins e x y" for e y
      using other_end_iff [of e x y] by auto
    have sc: "set ?c = set c \<union> {(e, y). e \<in> E s \<and> joins e x y}"
    proof -
      have "set ?c = set c \<union> {(e, y). e \<in> set ?es \<and> other_end x e = y}" by (auto simp: image_iff)
      then show ?thesis unfolding es .
    qed
    have su: "fset ?u = fset u \<union> {y. y |\<notin>| fmdom V \<and> (\<exists>e \<in> E s. joins e x y)}"
    proof -
      have "fset ?u = fset u \<union> {y. y |\<notin>| fmdom V \<and> (\<exists>e. e \<in> set ?es \<and> other_end x e = y)}"
        by (auto simp: fset_of_list_elem image_iff)
      then show ?thesis unfolding es by blast
    qed
    have sets: "(\<exists>z \<in> set (x # F) - fset ex. joins e z y) \<longleftrightarrow>
        joins e x y \<or> (\<exists>z \<in> set F - fset (finsert x ex). joins e z y)" for e y
      using False by auto
    have "finsert x ex |\<union>| fset_of_list F = ex |\<union>| fset_of_list (x # F)" by simp
    then show ?thesis
      unfolding g sets using Cons [of "finsert x ex" ?c ?u] unfolding sc su by (auto 0 3)
  qed
qed simp

text \<open>The state after \<open>j\<close> hops.\<close>

definition walked :: "'s \<Rightarrow> node_id \<Rightarrow> nat \<Rightarrow> walk \<Rightarrow> bool" where
  "walked s i j w \<longleftrightarrow>
     (\<forall>y n. fmlookup (wk_visited w) y = Some n \<longleftrightarrow> n \<in> N s \<and> n_id n = y \<and> near (N s) (E s) i j y) \<and>
     (\<forall>k e. fmlookup (wk_edges w) k = Some e \<longleftrightarrow> e \<in> E s \<and> e_id e = k \<and>
        (\<exists>x y. before (N s) (E s) i j x \<and> joins e x y \<and> navigable (N s) y)) \<and>
     set (wk_frontier w) = {y. near (N s) (E s) i j y \<and> \<not> before (N s) (E s) i j y} \<and>
     fset (wk_expanded w) = {y. before (N s) (E s) i j y}"

lemma near_stored:
  assumes "i \<in> n_id ` N s" "near (N s) (E s) i j y"
  shows "y \<in> n_id ` N s"
  using assms(2,1) by induction (auto simp: navigable_def)

lemma navigable_of:
  assumes "sound s" "n \<in> N s"
  shows "navigable (N s) (n_id n) \<longleftrightarrow> n_kind n \<noteq> ''package'' \<and> n_kind n \<noteq> ''external''"
  unfolding navigable_def using assms same_node [OF assms(1)] by metis

lemma hop_walked:
  assumes "sound s" "i \<in> n_id ` N s" "walked s i j w"
  shows "\<exists>w'. hop (port s) w = Inr w' \<and> walked s i (Suc j) w'"
proof -
  let ?near = "near (N s) (E s) i" and ?before = "before (N s) (E s) i"
  let ?V = "wk_visited w" and ?C = "wk_edges w"
  note w = assms(3) [unfolded walked_def]
  have fr: "set (wk_frontier w) - fset (wk_expanded w) = {y. ?near j y \<and> \<not> ?before j y}"
    using w by auto
  have domV: "y |\<in>| fmdom ?V \<longleftrightarrow> ?near j y" for y
    using w near_stored [OF assms(2)] by (fastforce simp: fmlookup_dom_iff)
  obtain cs u where g: "gather (port s) ?V (wk_expanded w, [], {||}) (wk_frontier w) =
      Inr (wk_expanded w |\<union>| fset_of_list (wk_frontier w), cs, u)"
    and cs: "set cs = {(e, y). e \<in> E s \<and> (\<exists>x. ?near j x \<and> \<not> ?before j x \<and> joins e x y)}"
    and u: "fset u = {y. \<not> ?near j y \<and> (\<exists>e \<in> E s. \<exists>x. ?near j x \<and> \<not> ?before j x \<and> joins e x y)}"
    using gather_eq [OF assms(1), of ?V "wk_expanded w" "[]" "{||}" "wk_frontier w"] unfolding fr
    by (auto simp: domV)
  obtain f where h: "hydrate (port s) u = Inr f"
    and f: "\<And>y n. fmlookup f y = Some n \<longleftrightarrow> n \<in> N s \<and> n_id n = y \<and> y |\<in>| u"
    using hydrate_eq [OF assms(1), of u] by blast
  obtain V' C' nx where l: "fold (settle f) cs (?V, ?C, []) = (V', C', nx)" by (metis prod_cases3)
  have sn: "seen_node ?V f y = Some n \<longleftrightarrow> n \<in> N s \<and> n_id n = y" if "(e, y) \<in> set cs" for e y n
  proof (cases "?near j y")
    case True
    then obtain m where m: "fmlookup ?V y = Some m" using domV by (auto simp: fmlookup_dom_iff)
    then have "m \<in> N s" "n_id m = y" using w by blast+
    then show ?thesis using m same_node [OF assms(1)] by (auto simp: seen_node_def)
  next
    case False
    then have "fmlookup ?V y = None" using domV by (meson fmdomI not_None_eq)
    moreover have "y |\<in>| u" using that False unfolding u cs by auto
    ultimately show ?thesis using f by (simp add: seen_node_def)
  qed
  have en: "enters (seen_node ?V f y) \<longleftrightarrow> navigable (N s) y" if "(e, y) \<in> set cs" for e y
  proof (cases "seen_node ?V f y")
    case None
    then have "\<not> navigable (N s) y" using sn [OF that] by (auto simp: navigable_def)
    then show ?thesis using None by (simp add: enters_def)
  next
    case (Some n)
    then have "n \<in> N s" "n_id n = y" using sn [OF that] by blast+
    then have "navigable (N s) y \<longleftrightarrow> n_kind n \<noteq> ''package'' \<and> n_kind n \<noteq> ''external''"
      using navigable_of [OF assms(1)] by blast
    then show ?thesis by (simp add: Some enters_def kind_package_node_def kind_external_node_def)
  qed
  have in_E: "fst ` set cs \<subseteq> E s" unfolding cs by auto
  then have d1: "inj_on e_id (fst ` set cs)" by (meson inj_onI same_edge [OF assms(1)] subsetD)
  have d2: "\<forall>e \<in> fst ` set cs. \<forall>f. fmlookup ?C (e_id e) = Some f \<longrightarrow> f = e"
    using in_E w same_edge [OF assms(1)] by (meson subsetD)
  note L = settle_loop [OF l d1 d2]
  let ?w = "\<lparr>wk_visited = V', wk_edges = C', wk_frontier = nx, wk_expanded = wk_expanded w |\<union>| fset_of_list (wk_frontier w)\<rparr>"
  have reach: "?near (Suc j) y \<longleftrightarrow> ?near j y \<or> (\<exists>e. (e, y) \<in> set cs \<and> navigable (N s) y)" for y
  proof -
    have "?near j y" if "?before j x" "e \<in> E s" "joins e x y" "navigable (N s) y" for x e
      using that by (cases j) (auto intro: near.step)
    then show ?thesis unfolding near_Suc cs by blast
  qed
  have V: "fmlookup V' y = Some n \<longleftrightarrow> n \<in> N s \<and> n_id n = y \<and> ?near (Suc j) y" for y n
  proof (cases "\<exists>e. (e, y) \<in> set cs \<and> navigable (N s) y")
    case True
    then obtain e where e: "(e, y) \<in> set cs" "navigable (N s) y" by blast
    then have "fmlookup V' y = seen_node ?V f y" using L en by (metis (no_types, lifting))
    then show ?thesis using sn [OF e(1)] reach True by simp
  next
    case False
    then have "fmlookup V' y = fmlookup ?V y" using L en by (metis (no_types, lifting))
    moreover have "?near (Suc j) y \<longleftrightarrow> ?near j y" using reach [of y] False by blast
    ultimately show ?thesis using w by metis
  qed
  have C: "fmlookup C' k = Some e \<longleftrightarrow> e \<in> E s \<and> e_id e = k \<and>
      (\<exists>x y. ?before (Suc j) x \<and> joins e x y \<and> navigable (N s) y)" for k e
  proof -
    have "fmlookup C' k = Some e \<longleftrightarrow> fmlookup ?C k = Some e \<or> (\<exists>i. (e, i) \<in> set cs \<and> navigable (N s) i \<and> e_id e = k)"
    proof -
      note L2 = conjunct1 [OF conjunct2 [OF L], rule_format]
      have "(\<exists>i. (e, i) \<in> set cs \<and> enters (seen_node ?V f i) \<and> e_id e = k) \<longleftrightarrow>
          (\<exists>i. (e, i) \<in> set cs \<and> navigable (N s) i \<and> e_id e = k)"
        using en by blast
      then show ?thesis unfolding L2 by simp
    qed
    also have "\<dots> \<longleftrightarrow> e \<in> E s \<and> e_id e = k \<and> (\<exists>x y. ?near j x \<and> joins e x y \<and> navigable (N s) y)"
    proof -
      have "fmlookup ?C k = Some e \<longleftrightarrow> e \<in> E s \<and> e_id e = k \<and> (\<exists>x y. ?before j x \<and> joins e x y \<and> navigable (N s) y)"
        using w by blast
      moreover have "(\<exists>x y. ?near j x \<and> joins e x y \<and> navigable (N s) y) \<longleftrightarrow>
          (\<exists>x y. ?before j x \<and> joins e x y \<and> navigable (N s) y) \<or>
          (\<exists>y. (\<exists>x. ?near j x \<and> \<not> ?before j x \<and> joins e x y) \<and> navigable (N s) y)"
        using before_near [of "N s" "E s" i j] by blast
      moreover have "(\<exists>y. (e, y) \<in> set cs \<and> navigable (N s) y \<and> e_id e = k) \<longleftrightarrow> e \<in> E s \<and> e_id e = k \<and>
          (\<exists>y. (\<exists>x. ?near j x \<and> \<not> ?before j x \<and> joins e x y) \<and> navigable (N s) y)"
        unfolding cs by blast
      ultimately show ?thesis by (simp only:) blast
    qed
    finally show ?thesis by simp
  qed
  have F: "set nx = {y. ?near (Suc j) y \<and> \<not> ?before (Suc j) y}"
    using conjunct2 [OF conjunct2 [OF L]] en domV unfolding reach before.simps by auto
  have X: "fset (wk_expanded w |\<union>| fset_of_list (wk_frontier w)) = {y. ?before (Suc j) y}"
    using w before_near by (auto simp: fset_of_list_elem)
  have "walked s i (Suc j) ?w" unfolding walked_def walk.select_convs using V C F X by blast
  moreover have "hop (port s) w = Inr ?w" by (simp add: hop_def g h l)
  ultimately show ?thesis by blast
qed

lemma hops_walked:
  assumes "sound s" "i \<in> n_id ` N s" "walked s i j w"
  shows "\<exists>w'. hops (port s) k w = Inr w' \<and> walked s i (j + k) w'"
  using assms(3)
proof (induction k arbitrary: j w)
  case (Suc k)
  show ?case
  proof (cases "wk_frontier w = []")
    case True
    have fr: "near (N s) (E s) i j y \<Longrightarrow> before (N s) (E s) i j y" for y
      using Suc.prems True unfolding walked_def by auto
    then obtain l where j: "j = Suc l" by (cases j) (auto intro: near.here)
    have "near (N s) (E s) i (Suc l) = near (N s) (E s) i l"
      using fr before_near [of "N s" "E s" i j] unfolding j by (auto intro: near_mono1)
    note st = near_settles [OF this]
    have "near (N s) (E s) i (j + Suc k) = near (N s) (E s) i j" "before (N s) (E s) i (j + Suc k) = before (N s) (E s) i j"
      using st [of "Suc (Suc k)"] st [of 1] st [of "Suc k"] by (auto simp: j fun_eq_iff)
    then show ?thesis using True Suc.prems unfolding walked_def by simp
  next
    case False
    obtain w' where "hop (port s) w = Inr w'" "walked s i (Suc j) w'"
      using hop_walked [OF assms(1,2) Suc.prems] by blast
    then show ?thesis using False Suc.IH [of "Suc j" w'] by simp
  qed
qed simp

lemma neighborhood_eq:
  assumes "sound s" "n0 \<in> N s"
  shows "\<exists>w. neighborhood (Some (port s)) (n_id n0) d =
      Inr (finalize ''neighborhood'' (n_id n0) (Some (clamp_depth d))
        (map node_to_result (map_values (wk_visited w))) (map edge_to_result (map_values (wk_edges w)))) \<and>
    walked s (n_id n0) (nat (clamp_depth d)) w"
proof -
  let ?w = "\<lparr>wk_visited = fmupd (n_id n0) n0 fmempty, wk_edges = fmempty, wk_frontier = [n_id n0], wk_expanded = {||}\<rparr>"
  have "walked s (n_id n0) 0 ?w"
    using assms(2) by (auto simp: walked_def near_0 dest: same_node [OF assms(1)])
  from hops_walked [OF assms(1) _ this, of "nat (clamp_depth d)"] assms(2)
  obtain w where "hops (port s) (nat (clamp_depth d)) ?w = Inr w" "walked s (n_id n0) (nat (clamp_depth d)) w"
    by auto
  then show ?thesis
    by (auto simp: neighborhood_def resolve_found [OF assms])
qed

end

end
