(* ===== verification/QueryProps.thy ===== *)
theory QueryProps
  imports Neighborhood
begin

text \<open>
  What the structural queries promise: canonical results, the table of the directed operations,
  and the properties of dispatch, neighborhoods and the serializer.
\<close>

subsection \<open>Results are canonical\<close>

definition canonical :: "query_result \<Rightarrow> bool" where
  "canonical r \<longleftrightarrow> ssorted (map rn_id (qr_nodes r)) \<and> ssorted (map result_edge_key (qr_edges r))"

lemma distinct_result_edge_key: "distinct (map re_id es) \<Longrightarrow> distinct (map result_edge_key es)"
  by (induction es) (auto simp: result_edge_key_def)

lemma finalize_canonical:
  "distinct (map rn_id ns) \<Longrightarrow> distinct (map re_id es) \<Longrightarrow> canonical (finalize op i d ns es)"
  by (simp add: canonical_def finalize_def sort_nodes_def sort_edges_def ssorted_map_sort_key distinct_result_edge_key del: distinct_map)

lemma canonical_not_found [simp]: "canonical (not_found_result op i)"
  by (simp add: canonical_def not_found_result_def)

lemma finalize_fields [simp]:
  "set (qr_nodes (finalize op i d ns es)) = set ns" "set (qr_edges (finalize op i d ns es)) = set es"
  "qr_depth (finalize op i d ns es) = d" "qr_operation (finalize op i d ns es) = op"
  "qr_symbol (finalize op i d ns es) = i"
  "qr_outcome (finalize op i d ns es) = (if ns = [] \<and> es = [] then ''empty'' else ''found'')"
  by (simp_all add: finalize_def sort_nodes_def sort_edges_def outcome_empty_def outcome_found_def)

lemma result_ids [simp]:
  "rn_id \<circ> node_to_result = n_id" "re_id \<circ> edge_to_result = e_id"
  by (auto simp: fun_eq_iff)

text \<open>Two listings of the same elements sort to the same list, once an attribute tells them apart.\<close>

lemma sort_key_determined:
  assumes "distinct (map f xs)" "mset ys = mset xs"
  shows "sort_key f ys = sort_key f xs"
proof (rule sorted_map_unique [where f = f])
  have "distinct (map f ys)" using assms by (metis mset_eq_imp_distinct_iff mset_map)
  then show "ssorted (map f (sort_key f ys))" by (rule ssorted_map_sort_key)
  show "ssorted (map f (sort_key f xs))" using assms(1) by (rule ssorted_map_sort_key)
  show "set (sort_key f ys) = set (sort_key f xs)" using assms(2) by (metis set_mset_mset set_sort)
qed

context graph_lookup begin

lemma multi_canonical:
  assumes "sound s" "multi_kind_lookup (Some (port s)) op i kinds inbound = Inr r"
  shows "canonical r"
proof -
  have n: "distinct (map n_id (filter P (stored_nodes s)))" for P
    using nodes_once [OF assms(1)] by (intro distinct_map_filter ssorted_distinct)
  have e: "distinct (map e_id (filter P (far_edges s i kinds inbound)))" for P
    unfolding far_edges_def filter_filter using edges_once [OF assms(1)] by (intro distinct_map_filter ssorted_distinct)
  show ?thesis
    using assms(2) n e by (auto simp: multi_eq [OF assms(1)] simp del: distinct_map intro!: finalize_canonical split: if_splits)
qed

lemma walked_visited:
  assumes "walked s i j w"
  shows "set (map_values (wk_visited w)) = {n \<in> N s. near (N s) (E s) i j (n_id n)}"
    and "set (map_values (wk_edges w)) = {e \<in> E s. \<exists>x y. before (N s) (E s) i j x \<and> joins e x y \<and> navigable (N s) y}"
proof -
  note w = assms [unfolded walked_def]
  have "n \<in> fmran' (wk_visited w) \<longleftrightarrow> n \<in> N s \<and> near (N s) (E s) i j (n_id n)" for n
    using conjunct1 [OF w] by (auto elim!: fmran'E intro: fmran'I)
  then show "set (map_values (wk_visited w)) = {n \<in> N s. near (N s) (E s) i j (n_id n)}"
    by (auto simp: set_map_values)
  have "e \<in> fmran' (wk_edges w) \<longleftrightarrow> (\<exists>k. fmlookup (wk_edges w) k = Some e)" for e
    by (auto elim!: fmran'E intro: fmran'I)
  then show "set (map_values (wk_edges w)) =
      {e \<in> E s. \<exists>x y. before (N s) (E s) i j x \<and> joins e x y \<and> navigable (N s) y}"
    using conjunct1 [OF conjunct2 [OF w]] by (auto simp: set_map_values)
qed

lemma walked_keyed:
  assumes "walked s i j w"
  shows "keyed n_id (wk_visited w)" "keyed e_id (wk_edges w)"
  using assms unfolding walked_def keyed_def by blast+

lemma neighborhood_cases:
  assumes "sound s"
  shows "i \<notin> n_id ` N s \<Longrightarrow> neighborhood (Some (port s)) i d = Inr (not_found_result ''neighborhood'' i)"
    and "i \<in> n_id ` N s \<Longrightarrow> \<exists>r. neighborhood (Some (port s)) i d = Inr r \<and> canonical r \<and>
      qr_depth r = Some (clamp_depth d) \<and> qr_outcome r = ''found'' \<and>
      set (qr_nodes r) = node_to_result ` {n \<in> N s. near (N s) (E s) i (nat (clamp_depth d)) (n_id n)} \<and>
      set (qr_edges r) = edge_to_result `
        {e \<in> E s. \<exists>x y. before (N s) (E s) i (nat (clamp_depth d)) x \<and> joins e x y \<and> navigable (N s) y}"
proof -
  assume "i \<in> n_id ` N s"
  then obtain n0 where n0: "n0 \<in> N s" "i = n_id n0" by blast
  obtain w where w: "neighborhood (Some (port s)) i d = Inr (finalize ''neighborhood'' i (Some (clamp_depth d))
        (map node_to_result (map_values (wk_visited w))) (map edge_to_result (map_values (wk_edges w))))"
      "walked s i (nat (clamp_depth d)) w"
    using neighborhood_eq [OF assms n0(1), of d] n0(2) by blast
  note vs = walked_visited [OF w(2)]
  have "n0 \<in> set (map_values (wk_visited w))" unfolding vs using n0 by (simp add: near.here)
  then have ne: "map_values (wk_visited w) \<noteq> []" by (metis list.set_cases list.distinct(1))
  have "canonical (finalize ''neighborhood'' i (Some (clamp_depth d))
        (map node_to_result (map_values (wk_visited w))) (map edge_to_result (map_values (wk_edges w))))"
    by (rule finalize_canonical)
      (simp_all only: map_map result_ids ssorted_distinct [OF ssorted_values [OF walked_keyed(1) [OF w(2)]]]
        ssorted_distinct [OF ssorted_values [OF walked_keyed(2) [OF w(2)]]])
  then show "\<exists>r. neighborhood (Some (port s)) i d = Inr r \<and> canonical r \<and>
      qr_depth r = Some (clamp_depth d) \<and> qr_outcome r = ''found'' \<and>
      set (qr_nodes r) = node_to_result ` {n \<in> N s. near (N s) (E s) i (nat (clamp_depth d)) (n_id n)} \<and>
      set (qr_edges r) = edge_to_result `
        {e \<in> E s. \<exists>x y. before (N s) (E s) i (nat (clamp_depth d)) x \<and> joins e x y \<and> navigable (N s) y}"
    using w(1) ne by (simp add: vs)
qed (simp add: neighborhood_def resolve_missing [OF assms])

end

text \<open>The table behind the directed operations: the edge kinds read and the side.\<close>

definition lookup_table :: "(string \<times> string list \<times> bool) list" where
  "lookup_table =
     [(''callers'', [''calls''], True), (''callees'', [''calls''], False), (''references'', [''references''], True),
      (''definition'', [''defines''], True), (''implementers'', [''implements''], True),
      (''implements'', [''implements''], False), (''overrides'', [''overrides''], True),
      (''subtypes'', [''inherits'', ''implements''], True), (''supertypes'', [''inherits'', ''implements''], False)]"

lemmas operation_defs = callers_def callees_def references_def definition_of_def implementers_def
  implements_of_def overrides_def subtypes_def supertypes_def directed_is_multi

lemma dispatch_rows:
  "list_all (\<lambda>(op, kinds, inbound). kinds \<noteq> [] \<and>
     dispatch lookup op i d = multi_kind_lookup lookup op i kinds inbound) lookup_table"
  by (simp add: lookup_table_def dispatch_def operation_defs)

lemma dispatch_table:
  "(op, kinds, inbound) \<in> set lookup_table \<Longrightarrow>
     kinds \<noteq> [] \<and> dispatch lookup op i d = multi_kind_lookup lookup op i kinds inbound"
  using dispatch_rows [of lookup i d] by (auto simp only: list_all_iff split: prod.splits)

lemma dispatch_neighborhood: "dispatch lookup ''neighborhood'' i d = neighborhood lookup i d"
  by (simp add: dispatch_def)

lemma operation_rows:
  "list_all (\<lambda>op. op = ''neighborhood'' \<or> list_ex (\<lambda>row. fst row = op) lookup_table) operations"
  by (simp add: operations_def lookup_table_def)

lemma operation_cases:
  assumes "op \<in> set operations"
  obtains "op = ''neighborhood''" | kinds inbound where "(op, kinds, inbound) \<in> set lookup_table"
proof -
  have "op = ''neighborhood'' \<or> (\<exists>row \<in> set lookup_table. fst row = op)"
    using operation_rows assms by (simp only: list_all_iff list_ex_iff)
  then show ?thesis using that by force
qed

lemma dispatch_unknown: "op \<notin> set operations \<Longrightarrow> dispatch lookup op i d = Inl (ErrUnknownOperation op)"
  by (simp add: operations_def dispatch_def)

lemma stored_ids: "store_ok m \<Longrightarrow> i \<in> n_id ` set (map_values (nodes m)) \<longleftrightarrow> fmlookup (nodes m) i \<noteq> None"
  using keyedD [of n_id "nodes m"] store_keys [of m]
  by (auto simp: set_map_values image_iff elim!: fmran'E intro: fmran'I)

lemma dispatch_canonical:
  assumes "store_ok m" "\<not> closed m" "dispatch (Some (mem_port None m)) op i d = Inr r"
  shows "canonical r"
proof (cases "op \<in> set operations")
  case True
  then show ?thesis
  proof (cases rule: operation_cases)
    case 1
    then show ?thesis using assms mg.neighborhood_cases [of m i d]
      by (cases "i \<in> n_id ` set (map_values (nodes m))") (auto simp: dispatch_neighborhood)
  next
    case 2
    then show ?thesis using assms mg.multi_canonical [of m op i _ _ r] dispatch_table by metis
  qed
next
  case False
  then show ?thesis using assms(3) by (simp add: dispatch_unknown)
qed

subsection \<open>Properties\<close>

lemma sort_key_Nil_iff [simp]: "sort_key f xs = [] \<longleftrightarrow> xs = []"
  by (metis length_0_conv length_sort)

lemma stored_values: "store_ok m \<Longrightarrow> n \<in> set (map_values (nodes m)) \<longleftrightarrow> fmlookup (nodes m) (n_id n) = Some n"
  using store_keys [of m] by (auto simp: set_map_values dest: keyedD elim!: fmran'E intro: fmran'I)

text \<open>
  C24: the nine directed operations against a sound store: a symbol that is not stored is
  answered not found; for a stored one the edges are exactly the stored edges of the operation's
  kinds at the operation's side whose other endpoint is not an external boundary node, the nodes are
  exactly those other endpoints, and the outcome is found or empty accordingly.
\<close>

theorem directed_lookup_exact:
  assumes "store_ok m" "\<not> closed m" "(op, kinds, inbound) \<in> set lookup_table"
  shows "(fmlookup (nodes m) i = None \<longrightarrow>
       dispatch (Some (mem_port None m)) op i d = Inr (not_found_result op i)) \<and>
     (fmlookup (nodes m) i \<noteq> None \<longrightarrow>
       (\<exists>r. dispatch (Some (mem_port None m)) op i d = Inr r \<and>
          set (qr_edges r) = edge_to_result ` {e \<in> fmran' (edges m). e_kind e \<in> set kinds \<and>
             (if inbound then e_to e else e_from e) = i \<and>
             (\<exists>n. fmlookup (nodes m) (if inbound then e_from e else e_to e) = Some n \<and> n_kind n \<noteq> ''external'')} \<and>
          set (qr_nodes r) = node_to_result ` {n. n_kind n \<noteq> ''external'' \<and> (\<exists>e \<in> fmran' (edges m). e_kind e \<in> set kinds \<and>
             (if inbound then e_to e else e_from e) = i \<and>
             fmlookup (nodes m) (if inbound then e_from e else e_to e) = Some n)} \<and>
          qr_outcome r = (if qr_edges r = [] then ''empty'' else ''found'')))"
proof (intro conjI impI)
  note s = conjI [OF assms(1,2)]
  note d = conjunct2 [OF dispatch_table [OF assms(3)]]
  show "dispatch (Some (mem_port None m)) op i d = Inr (not_found_result op i)" if "fmlookup (nodes m) i = None"
    using mg.multi_eq [OF s, of op i kinds inbound] stored_ids [OF assms(1), of i] that unfolding d by simp
  assume "fmlookup (nodes m) i \<noteq> None"
  define es where "es = mg.far_edges m i kinds inbound"
  define ns where "ns = filter (\<lambda>n. n_id n \<in> endpoint_of inbound ` set es \<and> n_kind n \<noteq> kind_external_node)
    (map_values (nodes m))"
  define fs where "fs = filter (\<lambda>e. \<not> mg.hidden m (endpoint_of inbound e)) es"
  let ?r = "finalize op i None (map node_to_result ns) (map edge_to_result fs)"
  have r: "dispatch (Some (mem_port None m)) op i d = Inr ?r"
    using mg.multi_eq [OF s, of op i kinds inbound] stored_ids [OF assms(1), of i] \<open>fmlookup (nodes m) i \<noteq> None\<close>
    unfolding d by (simp add: es_def ns_def fs_def)
  let ?hit = "\<lambda>e. e \<in> fmran' (edges m) \<and> e_kind e \<in> set kinds \<and> (if inbound then e_to e else e_from e) = i"
  let ?far = "\<lambda>e. if inbound then e_from e else e_to e"
  have far: "endpoint_of inbound e = ?far e" for e by (simp add: endpoint_of_def)
  have es: "set es = {e. ?hit e}"
    using conjunct1 [OF dispatch_table [OF assms(3)]]
    by (auto simp: es_def mg.far_edges_def endpoint_of_def set_map_values)
  have nk: "n \<in> set (map_values (nodes m)) \<longleftrightarrow> fmlookup (nodes m) (n_id n) = Some n" for n
    by (rule stored_values [OF assms(1)])
  have keyed: "fmlookup (nodes m) j = Some n \<Longrightarrow> n_id n = j" for j n
    using store_keys [OF assms(1)] by (auto dest: keyedD)
  have stored: "\<exists>n. fmlookup (nodes m) (?far e) = Some n" if "?hit e" for e
    using that assms(1) unfolding store_ok_def endpoints_stored_def
    by (auto simp: fmlookup_dom_iff elim!: fmran'E split: if_splits)
  have hid: "\<not> mg.hidden m (?far e) \<longleftrightarrow> (\<exists>n. fmlookup (nodes m) (?far e) = Some n \<and> n_kind n \<noteq> ''external'')" if hit: "?hit e" for e
  proof -
    obtain n where n: "fmlookup (nodes m) (?far e) = Some n" using stored [OF hit] by blast
    have "n' \<in> set (map_values (nodes m)) \<and> n_id n' = ?far e \<longleftrightarrow> n' = n" for n'
      using nk [of n'] keyed [OF n] n by auto
    then have "mg.hidden m (?far e) \<longleftrightarrow> n_kind n = ''external''"
      unfolding mg.hidden_def kind_external_node_def by (metis (lifting))
    then show ?thesis using n by simp
  qed
  have edges: "set fs = {e \<in> fmran' (edges m). e_kind e \<in> set kinds \<and> (if inbound then e_to e else e_from e) = i \<and>
      (\<exists>n. fmlookup (nodes m) (?far e) = Some n \<and> n_kind n \<noteq> ''external'')}"
    unfolding fs_def set_filter es far using hid by blast
  have nodes: "set ns = {n. n_kind n \<noteq> ''external'' \<and> (\<exists>e \<in> fmran' (edges m). e_kind e \<in> set kinds \<and>
      (if inbound then e_to e else e_from e) = i \<and> fmlookup (nodes m) (?far e) = Some n)}"
    unfolding ns_def set_filter es far kind_external_node_def nk using keyed by (auto 0 4)
  have "(\<exists>n. n \<in> set ns) \<longleftrightarrow> (\<exists>e. e \<in> set fs)"
    unfolding edges nodes mem_Collect_eq by blast
  then have "ns = [] \<longleftrightarrow> fs = []" by (cases ns; cases fs) auto
  then have "qr_outcome ?r = (if qr_edges ?r = [] then ''empty'' else ''found'')"
    by (simp add: finalize_def sort_edges_def outcome_empty_def outcome_found_def)
  then show "\<exists>r. dispatch (Some (mem_port None m)) op i d = Inr r \<and>
      set (qr_edges r) = edge_to_result ` {e \<in> fmran' (edges m). e_kind e \<in> set kinds \<and>
         (if inbound then e_to e else e_from e) = i \<and>
         (\<exists>n. fmlookup (nodes m) (?far e) = Some n \<and> n_kind n \<noteq> ''external'')} \<and>
      set (qr_nodes r) = node_to_result ` {n. n_kind n \<noteq> ''external'' \<and> (\<exists>e \<in> fmran' (edges m). e_kind e \<in> set kinds \<and>
         (if inbound then e_to e else e_from e) = i \<and> fmlookup (nodes m) (?far e) = Some n)} \<and>
      qr_outcome r = (if qr_edges r = [] then ''empty'' else ''found'')"
    using r edges nodes by (intro exI [of _ ?r]) simp
qed

text \<open>
  C4: a neighborhood is the ball around the symbol: with the depth clamped to 0..5, the nodes
  are exactly the stored nodes that many undirected steps reach without entering a package or
  external node, and the edges exactly those that a node one step inside the ball sends to such a
  node; the depth traversed is reported.
\<close>

theorem neighborhood_exact:
  assumes "store_ok m" "\<not> closed m" "fmlookup (nodes m) i \<noteq> None"
  shows "\<exists>r. dispatch (Some (mem_port None m)) ''neighborhood'' i d = Inr r \<and>
     qr_depth r = Some (min 5 (max 0 d)) \<and> qr_outcome r = ''found'' \<and>
     set (qr_nodes r) = node_to_result `
       {n \<in> fmran' (nodes m). near (fmran' (nodes m)) (fmran' (edges m)) i (nat (min 5 (max 0 d))) (n_id n)} \<and>
     set (qr_edges r) = edge_to_result `
       {e \<in> fmran' (edges m). \<exists>k x y. k < nat (min 5 (max 0 d)) \<and>
          near (fmran' (nodes m)) (fmran' (edges m)) i k x \<and> joins e x y \<and> navigable (fmran' (nodes m)) y}"
proof -
  let ?N = "fmran' (nodes m)" and ?E = "fmran' (edges m)"
  have c: "clamp_depth d = min 5 (max 0 d)"
    by (simp add: clamp_depth_def max_neighborhood_depth_def Let_def min_def max_def)
  have b: "before N E i j x \<longleftrightarrow> (\<exists>k<j. near N E i k x)" for N E j x
    by (cases j) (auto simp: less_Suc_eq_le intro: near_mono)
  have "i \<in> n_id ` set (map_values (nodes m))" using stored_ids [OF assms(1)] assms(3) by blast
  from mg.neighborhood_cases(2) [OF conjI [OF assms(1,2)] this, of d]
  obtain r where r: "neighborhood (Some (mem_port None m)) i d = Inr r" "qr_depth r = Some (clamp_depth d)" "qr_outcome r = ''found''"
    "set (qr_nodes r) = node_to_result ` {n \<in> ?N. near ?N ?E i (nat (clamp_depth d)) (n_id n)}"
    "set (qr_edges r) = edge_to_result ` {e \<in> ?E. \<exists>x y. before ?N ?E i (nat (clamp_depth d)) x \<and> joins e x y \<and> navigable ?N y}"
    unfolding set_map_values by blast
  have "{e \<in> ?E. \<exists>x y. before ?N ?E i j x \<and> joins e x y \<and> navigable ?N y} =
      {e \<in> ?E. \<exists>k x y. k < j \<and> near ?N ?E i k x \<and> joins e x y \<and> navigable ?N y}" for j
    unfolding b by blast
  then show ?thesis using r unfolding dispatch_neighborhood c by simp
qed

text \<open>
  C35: what dispatch can answer: an unknown operation is refused, a known one without the
  selective port is refused as unavailable, and against a sound open store every known operation
  returns a result, not found exactly for symbols that are not stored; a cancelled context or a
  closed store is an error, never a partial result.
\<close>

theorem dispatch_answers:
  "(op \<notin> set operations \<longrightarrow> dispatch lookup op i d = Inl (ErrUnknownOperation op)) \<and>
   (op \<in> set operations \<longrightarrow>
      dispatch None op i d = Inl ErrSelectiveLookupUnavailable \<and>
      dispatch (Some (mem_port (Some err) m)) op i d = Inl (ErrQueryRead err) \<and>
      (closed m \<longrightarrow> dispatch (Some (mem_port None m)) op i d = Inl (ErrQueryRead ErrClosed)) \<and>
      (store_ok m \<and> \<not> closed m \<longrightarrow>
         (\<exists>r. dispatch (Some (mem_port None m)) op i d = Inr r \<and>
            (result_found r \<longleftrightarrow> fmlookup (nodes m) i \<noteq> None))))"
proof (intro conjI impI)
  show "op \<notin> set operations \<Longrightarrow> dispatch lookup op i d = Inl (ErrUnknownOperation op)" by (rule dispatch_unknown)
next
  assume op: "op \<in> set operations"
  have ms: "dispatch lookup op i d = Inl e"
    if "resolve_symbol lookup i = Inl e" for lookup e
    using op
  proof (cases rule: operation_cases)
    case 1
    then show ?thesis using that by (simp add: dispatch_neighborhood neighborhood_def)
  next
    case (2 kinds inbound)
    then show ?thesis using that dispatch_table [OF 2] by (simp add: multi_kind_lookup_def)
  qed
  show "dispatch None op i d = Inl ErrSelectiveLookupUnavailable"
    by (rule ms) (simp add: resolve_symbol_def)
  show "dispatch (Some (mem_port (Some err) m)) op i d = Inl (ErrQueryRead err)"
    by (rule ms) (simp add: resolve_symbol_def mem_port_def mem_nodes_by_id_def)
  show "closed m \<Longrightarrow> dispatch (Some (mem_port None m)) op i d = Inl (ErrQueryRead ErrClosed)"
    by (rule ms) (simp add: resolve_symbol_def mem_port_def mem_nodes_by_id_def)
  assume s: "store_ok m \<and> \<not> closed m"
  show "\<exists>r. dispatch (Some (mem_port None m)) op i d = Inr r \<and> (result_found r \<longleftrightarrow> fmlookup (nodes m) i \<noteq> None)"
    using op
  proof (cases rule: operation_cases)
    case 1
    then show ?thesis using mg.neighborhood_cases [OF s, of i d] stored_ids [of m i] s
      by (cases "fmlookup (nodes m) i")
        (auto simp: dispatch_neighborhood result_found_def not_found_result_def outcome_not_found_def)
  next
    case (2 kinds inbound)
    then show ?thesis
      using mg.multi_eq [OF s, of op i kinds inbound] dispatch_table [OF 2] stored_ids [of m i] s
      by (auto simp: result_found_def not_found_result_def outcome_not_found_def)
  qed
qed

text \<open>
  every result of the service is already in canonical order, so the serializer emits it
  as it stands, and a caller that hands in the same nodes and edges in any other order gets the
  same bytes.
\<close>

theorem marshal_is_canonical:
  assumes "store_ok m" "\<not> closed m" "dispatch (Some (mem_port None m)) op i d = Inr r"
    and "mset ns = mset (qr_nodes r)" "mset es = mset (qr_edges r)"
  shows "marshal_result json (r\<lparr>qr_nodes := ns, qr_edges := es\<rparr>) = marshal_result json r \<and>
    marshal_result json r = (case json r of None \<Rightarrow> Inl ErrMarshalResult | Some bytes \<Rightarrow> Inr bytes)"
proof -
  have c: "ssorted (map rn_id (qr_nodes r))" "ssorted (map result_edge_key (qr_edges r))"
    using dispatch_canonical [OF assms(1-3)] by (simp_all add: canonical_def)
  have "sort_nodes ns = sort_nodes (qr_nodes r)" "sort_edges es = sort_edges (qr_edges r)"
    unfolding sort_nodes_def sort_edges_def
    by (rule sort_key_determined [OF ssorted_distinct [OF c(1)] assms(4)],
        rule sort_key_determined [OF ssorted_distinct [OF c(2)] assms(5)])
  moreover have "sort_nodes (qr_nodes r) = qr_nodes r" "sort_edges (qr_edges r) = qr_edges r"
    unfolding sort_nodes_def sort_edges_def
    by (simp_all add: sort_key_id_if_sorted strict_sorted_imp_sorted c)
  ultimately show ?thesis by (simp add: marshal_result_def)
qed

subsection \<open>Witnesses\<close>

theorem directed_lookup_exact_witness:
  "\<exists>r. dispatch (Some (mem_port None (small_store (Finite 1)))) ''callers'' (n_id (fn_node ''g'')) 0 = Inr r \<and>
     set (qr_nodes r) = {node_to_result (fn_node ''f'')} \<and> qr_edges r \<noteq> []"
proof -
  let ?m = "small_store (Finite 1)"
  have ne: "fmlookup (nodes ?m) (n_id (fn_node ''g'')) = Some (fn_node ''g'')"
    "fmlookup (nodes ?m) (n_id (fn_node ''f'')) = Some (fn_node ''f'')"
    using fn_ids by (simp_all add: small_store_maps)
  have e: "fmran' (edges ?m) = {call_edge (Finite 1)}" using small_values(1) [of "Finite 1"] by (metis list.set(1,2) set_map_values)
  have r: "(''callers'', [''calls''], True) \<in> set lookup_table" by (simp add: lookup_table_def)
  have k: "n_kind (fn_node ''f'') \<noteq> ''external''" by (simp add: fn_node_def)
  obtain r where r: "dispatch (Some (mem_port None ?m)) ''callers'' (n_id (fn_node ''g'')) 0 = Inr r"
    "set (qr_edges r) = edge_to_result ` {e \<in> {call_edge (Finite 1)}. e_kind e \<in> set [''calls''] \<and>
       (if True then e_to e else e_from e) = n_id (fn_node ''g'') \<and>
       (\<exists>n. fmlookup (nodes ?m) (if True then e_from e else e_to e) = Some n \<and> n_kind n \<noteq> ''external'')}"
    "set (qr_nodes r) = node_to_result ` {n. n_kind n \<noteq> ''external'' \<and> (\<exists>e \<in> {call_edge (Finite 1)}. e_kind e \<in> set [''calls''] \<and>
       (if True then e_to e else e_from e) = n_id (fn_node ''g'') \<and>
       fmlookup (nodes ?m) (if True then e_from e else e_to e) = Some n)}"
    using directed_lookup_exact [OF small_store_ok small_store_maps(3) r, of "Finite 1" "n_id (fn_node ''g'')" 0] ne
    unfolding e by auto
  have c: "e_kind (call_edge (Finite 1)) = ''calls''" "e_to (call_edge (Finite 1)) = n_id (fn_node ''g'')"
    "e_from (call_edge (Finite 1)) = n_id (fn_node ''f'')"
    by (simp_all add: call_edge_def)
  have "set (qr_nodes r) = {node_to_result (fn_node ''f'')}" unfolding r(3) using k by (auto simp: c ne)
  moreover have "edge_to_result (call_edge (Finite 1)) \<in> set (qr_edges r)"
    unfolding r(2) by (rule imageI) (simp add: c ne k)
  then have "qr_edges r \<noteq> []" by auto
  ultimately show ?thesis using r(1) by blast
qed

theorem neighborhood_exact_witness:
  "\<exists>r. dispatch (Some (mem_port None (small_store (Finite 1)))) ''neighborhood'' (n_id (fn_node ''g'')) 9 = Inr r \<and>
     qr_depth r = Some 5 \<and> node_to_result (fn_node ''f'') \<in> set (qr_nodes r)"
proof -
  let ?m = "small_store (Finite 1)" and ?g = "n_id (fn_node ''g'')" and ?f = "n_id (fn_node ''f'')"
  have ne: "fmlookup (nodes ?m) ?g \<noteq> None" using fn_ids by (simp add: small_store_maps)
  have N: "fmran' (nodes ?m) = {fn_node ''f'', fn_node ''g''}" and E: "fmran' (edges ?m) = {call_edge (Finite 1)}"
    using small_values [of "Finite 1"] by (metis set_map_values, metis list.set(1,2) set_map_values)
  have "near (fmran' (nodes ?m)) (fmran' (edges ?m)) ?g (Suc 0) ?f"
    unfolding N E by (rule near.step [OF near.here, where e = "call_edge (Finite 1)"])
      (auto simp: joins_def call_edge_def navigable_def, simp_all add: fn_node_def)
  then have "near (fmran' (nodes ?m)) (fmran' (edges ?m)) ?g (nat (min 5 (max 0 9))) ?f"
    by (rule near_mono) simp
  then show ?thesis
    using neighborhood_exact [OF small_store_ok small_store_maps(3) ne, of 9] N by auto
qed

theorem marshal_is_canonical_witness:
  "\<exists>r. dispatch (Some (mem_port None (small_store (Finite 1)))) ''neighborhood'' (n_id (fn_node ''g'')) 0 = Inr r \<and>
     marshal_result (\<lambda>r. Some (qr_operation r)) (r\<lparr>qr_nodes := rev (qr_nodes r), qr_edges := rev (qr_edges r)\<rparr>) =
     marshal_result (\<lambda>r. Some (qr_operation r)) r"
proof -
  let ?m = "small_store (Finite 1)"
  have "\<exists>r. neighborhood (Some (mem_port None ?m)) (n_id (fn_node ''g'')) 0 = Inr r"
    using mg.neighborhood_cases [OF conjI [OF small_store_ok small_store_maps(3)], of "n_id (fn_node ''g'')" "Finite 1" 0]
    by (cases "n_id (fn_node ''g'') \<in> n_id ` set (map_values (nodes ?m))") blast+
  then obtain r where r: "dispatch (Some (mem_port None ?m)) ''neighborhood'' (n_id (fn_node ''g'')) 0 = Inr r"
    unfolding dispatch_neighborhood by blast
  show ?thesis
    using r marshal_is_canonical [OF small_store_ok small_store_maps(3) r, of "rev (qr_nodes r)" "rev (qr_edges r)"] by auto
qed

theorem dispatch_answers_witness:
  "dispatch None ''callers'' ''x'' 0 = Inl ErrSelectiveLookupUnavailable \<and>
   dispatch None ''rename'' ''x'' 0 = Inl (ErrUnknownOperation ''rename'')"
proof
  have "''callers'' \<in> set operations" by (simp add: operations_def)
  then show "dispatch None ''callers'' ''x'' 0 = Inl ErrSelectiveLookupUnavailable" using dispatch_answers by blast
  have "''rename'' \<notin> set operations" by (simp add: operations_def)
  then show "dispatch None ''rename'' ''x'' 0 = Inl (ErrUnknownOperation ''rename'')" using dispatch_answers by blast
qed

end
