(* ===== verification/Impact.thy ===== *)
theory Impact
  imports QueryProps
begin

text \<open>
  The impact analyzer of \<open>engine/analysis\<close> (\<open>impact.go\<close>, with the result types of \<open>analyzer.go\<close> and
  the orders of \<open>serialize.go\<close>): a layered traversal through the bounded read port under four budgets.
  The node and edge converters of \<open>serialize.go\<close> are those of \<open>engine/query\<close>.  A map that Go ranges
  over only to sort what it yields is written in key order.
\<close>

subsection \<open>Results and orders\<close>

record reached_node =
  rd_node :: result_node
  rd_via :: result_edge
  rd_depth :: int

record location =
  lo_node :: result_node
  lo_kind :: string
  lo_via :: "result_edge option"
  lo_depth :: int

record analysis =
  an_analyzer :: string
  an_outcome :: string
  an_symbol :: node_id
  an_truncated :: bool
  an_nodes :: "reached_node list"
  an_paths :: "result_edge list list"
  an_locations :: "location list"

definition edge_better :: "result_edge \<Rightarrow> result_edge \<Rightarrow> bool" where
  "edge_better a b \<longleftrightarrow>
     (if tier_rank (re_tier a) \<noteq> tier_rank (re_tier b) then tier_rank (re_tier a) < tier_rank (re_tier b)
      else if re_from a \<noteq> re_from b then re_from a < re_from b
      else if re_to a \<noteq> re_to b then re_to a < re_to b
      else if re_kind a \<noteq> re_kind b then re_kind a < re_kind b
      else re_id a < re_id b)"

lemma edge_better_key: "edge_better a b \<longleftrightarrow> result_edge_key a < result_edge_key b"
  by (auto simp: edge_better_def result_edge_key_def less_prod_def' less_eq_prod_def)

definition sort_reached :: "reached_node list \<Rightarrow> reached_node list" where
  "sort_reached ns = sort_key (\<lambda>r. (tier_rank (re_tier (rd_via r)), rn_id (rd_node r))) ns"

definition not_found_analysis :: "string \<Rightarrow> node_id \<Rightarrow> analysis" where
  "not_found_analysis analyzer i =
     \<lparr>an_analyzer = analyzer, an_outcome = outcome_not_found, an_symbol = i, an_truncated = False,
      an_nodes = [], an_paths = [], an_locations = []\<rparr>"

subsection \<open>The kinds of a request\<close>

text \<open>
  The selector's heap keeps its greatest value at the front; the order of the others is not
  observed, so the heap is the descending list of its values.
\<close>

record kind_selector =
  ks_capacity :: int
  ks_values :: "string list"
  ks_kept :: "string fset"

definition new_kind_selector :: "int \<Rightarrow> kind_selector" where
  "new_kind_selector limit =
     \<lparr>ks_capacity = (if limit \<ge> 0 \<and> limit < max_int then limit + 1 else 0), ks_values = [], ks_kept = {||}\<rparr>"

fun heap_push :: "string \<Rightarrow> string list \<Rightarrow> string list" where
  "heap_push v [] = [v]"
| "heap_push v (w # ws) = (if w \<le> v then v # w # ws else w # heap_push v ws)"

definition selector_add :: "string \<Rightarrow> kind_selector \<Rightarrow> kind_selector" where
  "selector_add v s =
     (if ks_capacity s = 0 then s
      else if v |\<in>| ks_kept s then s
      else if int (length (ks_values s)) < ks_capacity s
      then s\<lparr>ks_values := heap_push v (ks_values s), ks_kept := finsert v (ks_kept s)\<rparr>
      else if v \<ge> hd (ks_values s) then s
      else s\<lparr>ks_values := heap_push v (tl (ks_values s)),
             ks_kept := finsert v (ks_kept s |-| {|hd (ks_values s)|})\<rparr>)"

definition selector_result :: "kind_selector \<Rightarrow> int \<Rightarrow> string list \<times> bool" where
  "selector_result s limit =
     (let out = sort (ks_values s); truncated = (int (length out) > limit)
      in (if truncated then take (nat limit) out else out, truncated))"

definition canonical_impact_kinds :: "string list \<Rightarrow> int \<Rightarrow> string list \<times> bool" where
  "canonical_impact_kinds kinds limit = selector_result (fold selector_add kinds (new_kind_selector limit)) limit"

subsection \<open>Budgets\<close>

definition default_max_nodes :: int where "default_max_nodes = 1024"
definition impact_work_multiplier :: int where "impact_work_multiplier = 8"
definition impact_edge_work_multiplier :: int where "impact_edge_work_multiplier = 16"
definition impact_kind_budget_factor :: int where "impact_kind_budget_factor = 2"
definition impact_max_kinds :: int where "impact_max_kinds = 16"
definition impact_hydration_slack :: int where "impact_hydration_slack = 32"

definition dependency_kinds :: "string list" where
  "dependency_kinds = [''calls'', ''references'']"

record analysis_params =
  ap_symbol :: node_id
  ap_target :: node_id
  ap_concept :: string
  ap_direction :: string
  ap_kinds :: "string list"
  ap_max_nodes :: int
  ap_max_paths :: int

definition max_nodes_of :: "analysis_params \<Rightarrow> int" where
  "max_nodes_of p = (if ap_max_nodes p \<le> 0 then default_max_nodes else ap_max_nodes p)"

definition work_limit :: "int \<Rightarrow> int" where
  "work_limit mx = (if mx \<le> max_int div impact_work_multiplier then mx * impact_work_multiplier else max_int)"

definition edge_work_limit :: "int \<Rightarrow> int" where
  "edge_work_limit mx =
     (if mx \<le> max_int div impact_edge_work_multiplier then mx * impact_edge_work_multiplier else max_int)"

definition kind_limit :: "int \<Rightarrow> int" where
  "kind_limit mx =
     (if mx \<le> max_int div impact_kind_budget_factor \<and> mx * impact_kind_budget_factor < impact_max_kinds
      then mx * impact_kind_budget_factor else impact_max_kinds)"

definition impact_kinds :: "analysis_params \<Rightarrow> string list \<times> bool" where
  "impact_kinds p =
     (if ap_kinds p = [] then (dependency_kinds, False)
      else canonical_impact_kinds (ap_kinds p) (kind_limit (max_nodes_of p)))"

definition forward :: string where "forward = ''forward''"
definition reverse :: string where "reverse = ''reverse''"

definition direction_of :: "analysis_params \<Rightarrow> string" where
  "direction_of p = (if ap_direction p = [] then reverse else ap_direction p)"

subsection \<open>One layer\<close>

record bounded_port =
  bp_incoming :: "node_id \<Rightarrow> int \<Rightarrow> string list \<Rightarrow> store_error + edge list \<times> bool"
  bp_outgoing :: "node_id \<Rightarrow> int \<Rightarrow> string list \<Rightarrow> store_error + edge list \<times> bool"

text \<open>What a request fixes for the whole traversal.\<close>

record impact_job =
  ij_seed :: node_id
  ij_forward :: bool
  ij_kinds :: "string list"
  ij_work :: int
  ij_edge_work :: int

record candidate =
  cd_id :: node_id
  cd_via :: result_edge
  cd_depth :: int

record impact_state =
  im_reached :: "(node_id, reached_node) fmap"
  im_depth :: "(node_id, int) fmap"
  im_expanded :: "node_id fset"
  im_frontier :: "node_id list"
  im_truncated :: bool
  im_examined :: int

definition reached_count :: "impact_state \<Rightarrow> int" where
  "reached_count st = int (fcard (fmdom (im_reached st)))"

type_synonym layer = "(node_id, reached_node) fmap \<times> (node_id, candidate) fmap"

definition consider_edge :: "impact_job \<Rightarrow> int \<Rightarrow> edge \<Rightarrow> layer \<Rightarrow> layer" where
  "consider_edge job depth e l =
     (case l of (reached, cands) \<Rightarrow>
        (let i = (if ij_forward job then e_to e else e_from e); via = edge_to_result e in
         if i = ij_seed job then (reached, cands)
         else case fmlookup reached i of
           Some existing \<Rightarrow>
             (if edge_better via (rd_via existing) then (fmupd i (existing\<lparr>rd_via := via\<rparr>) reached, cands)
              else (reached, cands))
         | None \<Rightarrow>
             (case fmlookup cands i of
                Some previous \<Rightarrow>
                  if edge_better via (cd_via previous)
                  then (reached, fmupd i \<lparr>cd_id = i, cd_via = via, cd_depth = depth\<rparr> cands) else (reached, cands)
              | None \<Rightarrow> (reached, fmupd i \<lparr>cd_id = i, cd_via = via, cd_depth = depth\<rparr> cands))))"

definition depth_at :: "(node_id, int) fmap \<Rightarrow> node_id \<Rightarrow> int" where
  "depth_at d i = (case fmlookup d i of None \<Rightarrow> 0 | Some k \<Rightarrow> k)"

definition bounded_read :: "bounded_port \<Rightarrow> impact_job \<Rightarrow> node_id \<Rightarrow> int \<Rightarrow> store_error + edge list \<times> bool" where
  "bounded_read bp job cur budget =
     (if ij_forward job then bp_outgoing bp cur budget (ij_kinds job) else bp_incoming bp cur budget (ij_kinds job))"

text \<open>The loop over the frontier: the state so far and the candidates of the layer.\<close>

fun expand_frontier ::
  "bounded_port \<Rightarrow> impact_job \<Rightarrow> impact_state \<Rightarrow> (node_id, candidate) fmap \<Rightarrow> node_id list
     \<Rightarrow> query_error + impact_state \<times> (node_id, candidate) fmap" where
  "expand_frontier bp job st cands [] = Inr (st, cands)"
| "expand_frontier bp job st cands (cur # rest) =
     (if cur |\<in>| im_expanded st then expand_frontier bp job st cands rest
      else (let st1 = st\<lparr>im_expanded := finsert cur (im_expanded st)\<rparr>;
                budget = ij_edge_work job - im_examined st1 in
        if budget \<le> 0 then Inr (st1\<lparr>im_truncated := True\<rparr>, cands)
        else case bounded_read bp job cur budget of
          Inl err \<Rightarrow> Inl (ErrQueryRead err)
        | Inr (es, clipped) \<Rightarrow>
            (case fold (consider_edge job (depth_at (im_depth st1) cur + 1)) es (im_reached st1, cands) of
               (reached, cands') \<Rightarrow>
                 (let st2 = st1\<lparr>im_reached := reached, im_examined := im_examined st1 + int (length es),
                                im_truncated := im_truncated st1 \<or> clipped\<rparr>
                  in if clipped then Inr (st2, cands') else expand_frontier bp job st2 cands' rest))))"

definition rank_candidates :: "(node_id, candidate) fmap \<Rightarrow> candidate list" where
  "rank_candidates cands = sort_key (\<lambda>c. (result_edge_key (cd_via c), cd_id c)) (map_values cands)"

definition hydration_limit :: "int \<Rightarrow> int" where
  "hydration_limit budget =
     (if budget \<le> max_int - impact_hydration_slack then budget + impact_hydration_slack else budget)"

text \<open>The loop that accepts the hydrated candidates; \<open>next_ids\<close> is the next frontier.\<close>

fun accept ::
  "impact_job \<Rightarrow> (node_id, node) fmap \<Rightarrow> impact_state \<Rightarrow> node_id list \<Rightarrow> candidate list \<Rightarrow> impact_state" where
  "accept job fetched st next_ids [] = st\<lparr>im_frontier := next_ids\<rparr>"
| "accept job fetched st next_ids (c # cs) =
     (case fmlookup fetched (cd_id c) of
        None \<Rightarrow> accept job fetched st next_ids cs
      | Some n \<Rightarrow>
          if n_kind n = kind_external_node then accept job fetched st next_ids cs
          else if reached_count st \<ge> ij_work job
          then st\<lparr>im_truncated := True, im_frontier := next_ids\<rparr>
          else accept job fetched
                 (st\<lparr>im_depth := fmupd (cd_id c) (cd_depth c) (im_depth st),
                     im_reached := fmupd (cd_id c)
                       \<lparr>rd_node = node_to_result n, rd_via = cd_via c, rd_depth = cd_depth c\<rparr> (im_reached st)\<rparr>)
                 (next_ids @ [cd_id c]) cs)"

definition hydrate_candidates :: "lookup_port \<Rightarrow> candidate list \<Rightarrow> query_error + (node_id, node) fmap" where
  "hydrate_candidates p cs =
     (if cs = [] then Inr fmempty
      else case lp_nodes_by_id p (map cd_id cs) of
        Inl err \<Rightarrow> Inl (ErrQueryRead err)
      | Inr ns \<Rightarrow> Inr (fold (\<lambda>n f. fmupd (n_id n) n f) ns fmempty))"

definition impact_layer :: "lookup_port \<Rightarrow> bounded_port \<Rightarrow> impact_job \<Rightarrow> impact_state \<Rightarrow> query_error + impact_state" where
  "impact_layer p bp job st =
     (case expand_frontier bp job st fmempty (im_frontier st) of
        Inl err \<Rightarrow> Inl err
      | Inr (st1, cands) \<Rightarrow>
          (let ranked = rank_candidates cands;
               window = hydration_limit (ij_work job - reached_count st1);
               clipped = (int (length ranked) > window);
               kept = (if clipped then take (nat window) ranked else ranked);
               st2 = st1\<lparr>im_truncated := im_truncated st1 \<or> clipped\<rparr>
           in case hydrate_candidates p kept of
                Inl err \<Rightarrow> Inl err
              | Inr fetched \<Rightarrow> Inr (accept job fetched st2 [] kept)))"


subsection \<open>The traversal ends\<close>

text \<open>The candidates of a layer are new: keyed by their identity and not reached before.\<close>

definition fresh_cands :: "(node_id, reached_node) fmap \<Rightarrow> (node_id, candidate) fmap \<Rightarrow> bool" where
  "fresh_cands reached cands \<longleftrightarrow>
     (\<forall>i c. fmlookup cands i = Some c \<longrightarrow> cd_id c = i \<and> fmlookup reached i = None)"

definition same_keys :: "('k, 'v) fmap \<Rightarrow> ('k, 'v) fmap \<Rightarrow> bool" where
  "same_keys f g \<longleftrightarrow> (\<forall>i. fmlookup g i = None \<longleftrightarrow> fmlookup f i = None)"

lemma same_keys_refl [simp]: "same_keys f f" by (simp add: same_keys_def)

lemma same_keys_trans: "same_keys f g \<Longrightarrow> same_keys g h \<Longrightarrow> same_keys f h" by (simp add: same_keys_def)

lemma same_keys_dom: "same_keys f g \<Longrightarrow> fmdom g = fmdom f"
  by (auto simp: same_keys_def fmlookup_dom_iff) (metis not_Some_eq)+

lemma consider_shape:
  "consider_edge job d e (r, c) = (r', c') \<Longrightarrow> same_keys r r' \<and> (fresh_cands r c \<longrightarrow> fresh_cands r' c')"
  by (auto simp: consider_edge_def Let_def same_keys_def fresh_cands_def split: option.splits if_splits)

lemma consider_all_shape:
  "fold (consider_edge job d) es (r, c) = (r', c') \<Longrightarrow> same_keys r r' \<and> (fresh_cands r c \<longrightarrow> fresh_cands r' c')"
proof (induction es arbitrary: r c)
  case (Cons e es)
  obtain r1 c1 where "consider_edge job d e (r, c) = (r1, c1)" by fastforce
  then show ?case using Cons.IH [of r1 c1] Cons.prems consider_shape [of job d e r c r1 c1]
    by (auto intro: same_keys_trans)
qed simp

lemma expand_Cons:
  assumes "cur |\<notin>| im_expanded st" "0 < ij_edge_work job - im_examined st"
    and "bounded_read bp job cur (ij_edge_work job - im_examined st) = Inr (es, clipped)"
    and "fold (consider_edge job (depth_at (im_depth st) cur + 1)) es (im_reached st, cands) = (r, c)"
  shows "expand_frontier bp job st cands (cur # rest) =
    (let st2 = st\<lparr>im_expanded := finsert cur (im_expanded st), im_reached := r,
                  im_examined := im_examined st + int (length es), im_truncated := im_truncated st \<or> clipped\<rparr>
     in if clipped then Inr (st2, c) else expand_frontier bp job st2 c rest)"
  using assms by (simp add: Let_def)

lemma expand_shape:
  assumes "expand_frontier bp job st cands F = Inr (st', cands')"
  shows "same_keys (im_reached st) (im_reached st') \<and>
    (fresh_cands (im_reached st) cands \<longrightarrow> fresh_cands (im_reached st') cands')"
  using assms
proof (induction F arbitrary: st cands)
  case (Cons cur rest)
  show ?case
  proof (cases "cur |\<in>| im_expanded st \<or> ij_edge_work job - im_examined st \<le> 0")
    case True
    then show ?thesis using Cons by (auto simp: Let_def split: if_splits)
  next
    case False
    then obtain es clipped where read: "bounded_read bp job cur (ij_edge_work job - im_examined st) = Inr (es, clipped)"
      using Cons.prems by (auto simp: Let_def split: sum.splits)
    obtain r c where f: "fold (consider_edge job (depth_at (im_depth st) cur + 1)) es (im_reached st, cands) = (r, c)"
      by fastforce
    let ?st2 = "st\<lparr>im_expanded := finsert cur (im_expanded st), im_reached := r,
                  im_examined := im_examined st + int (length es), im_truncated := im_truncated st \<or> clipped\<rparr>"
    have u: "cur |\<notin>| im_expanded st" "0 < ij_edge_work job - im_examined st" using False by auto
    have "same_keys r (im_reached st') \<and> (fresh_cands r c \<longrightarrow> fresh_cands (im_reached st') cands')"
      using Cons.prems [unfolded expand_Cons [OF u read f] Let_def] Cons.IH [of ?st2 c]
      by (auto split: if_splits)
    then show ?thesis using consider_all_shape [OF f] by (auto intro: same_keys_trans)
  qed
qed simp


lemma rank_candidates_ids:
  assumes "fresh_cands reached cands"
  shows "set (rank_candidates cands) = fmran' cands" "distinct (map cd_id (rank_candidates cands))"
proof -
  have k: "keyed cd_id cands" using assms by (auto simp: fresh_cands_def keyed_def)
  show "set (rank_candidates cands) = fmran' cands" by (simp add: rank_candidates_def set_map_values)
  have "distinct (map cd_id (map_values cands))" using ssorted_distinct [OF ssorted_values [OF k]] .
  moreover have "mset (map cd_id (rank_candidates cands)) = mset (map cd_id (map_values cands))"
    by (simp add: rank_candidates_def)
  ultimately show "distinct (map cd_id (rank_candidates cands))" by (metis mset_eq_imp_distinct_iff)
qed

definition acceptable :: "(node_id, node) fmap \<Rightarrow> candidate \<Rightarrow> bool" where
  "acceptable fetched c \<longleftrightarrow> (\<exists>n. fmlookup fetched (cd_id c) = Some n \<and> n_kind n \<noteq> kind_external_node)"

definition entry :: "(node_id, node) fmap \<Rightarrow> candidate \<Rightarrow> reached_node" where
  "entry fetched c =
     \<lparr>rd_node = node_to_result (the (fmlookup fetched (cd_id c))), rd_via = cd_via c, rd_depth = cd_depth c\<rparr>"

text \<open>What the accepting loop does: a prefix of the acceptable candidates enters.\<close>

definition entered ::
  "impact_job \<Rightarrow> (node_id, node) fmap \<Rightarrow> impact_state \<Rightarrow> node_id list \<Rightarrow> candidate list \<Rightarrow> impact_state
     \<Rightarrow> candidate list \<Rightarrow> bool" where
  "entered job fetched st nx cs st' acc \<longleftrightarrow>
     (\<exists>m. acc = take m (filter (acceptable fetched) cs)) \<and>
     (\<forall>c \<in> set acc. fmlookup (im_reached st') (cd_id c) = Some (entry fetched c) \<and>
        fmlookup (im_depth st') (cd_id c) = Some (cd_depth c)) \<and>
     (\<forall>i. i \<notin> cd_id ` set acc \<longrightarrow> fmlookup (im_reached st') i = fmlookup (im_reached st) i \<and>
        fmlookup (im_depth st') i = fmlookup (im_depth st) i) \<and>
     im_frontier st' = nx @ map cd_id acc \<and> im_expanded st' = im_expanded st \<and> im_examined st' = im_examined st \<and>
     (im_truncated st' \<longleftrightarrow> im_truncated st \<or> acc \<noteq> filter (acceptable fetched) cs) \<and>
     (reached_count st \<le> ij_work job \<longrightarrow> reached_count st' \<le> ij_work job)"

lemma entered_sub: "entered job fetched st nx cs st' acc \<Longrightarrow> c \<in> set acc \<Longrightarrow> c \<in> set cs \<and> acceptable fetched c"
  unfolding entered_def by (auto dest: in_set_takeD)

lemma accept_spec:
  assumes "accept job fetched st nx cs = st'" "distinct (map cd_id cs)"
    and "\<forall>c \<in> set cs. fmlookup (im_reached st) (cd_id c) = None"
  shows "\<exists>acc. entered job fetched st nx cs st' acc"
  using assms
proof (induction cs arbitrary: st nx)
  case Nil
  then show ?case by (auto simp: entered_def reached_count_def)
next
  case (Cons c cs)
  show ?case
  proof (cases "acceptable fetched c")
    case False
    then have "accept job fetched st nx cs = st'"
      using Cons.prems(1) by (auto simp: acceptable_def split: option.splits)
    from Cons.IH [OF this] Cons.prems(2,3) False show ?thesis by (simp add: entered_def)
  next
    case True
    then obtain n where n: "fmlookup fetched (cd_id c) = Some n" "n_kind n \<noteq> kind_external_node"
      by (auto simp: acceptable_def)
    show ?thesis
    proof (cases "reached_count st \<ge> ij_work job")
      case full: True
      then have "st' = st\<lparr>im_truncated := True, im_frontier := nx\<rparr>" using Cons.prems(1) n by simp
      then have "entered job fetched st nx (c # cs) st' []"
        using True by (auto simp: entered_def reached_count_def intro: exI [of _ 0])
      then show ?thesis by blast
    next
      case room: False
      let ?st1 = "st\<lparr>im_depth := fmupd (cd_id c) (cd_depth c) (im_depth st),
          im_reached := fmupd (cd_id c) (entry fetched c) (im_reached st)\<rparr>"
      have a: "accept job fetched ?st1 (nx @ [cd_id c]) cs = st'"
        using Cons.prems(1) n room by (simp add: entry_def)
      have new: "cd_id c |\<notin>| fmdom (im_reached st)" using Cons.prems(3) by (simp add: fmdom_notI)
      have cnt: "reached_count ?st1 \<le> ij_work job"
        using room new by (simp add: reached_count_def fcard_finsert_disjoint)
      have "\<forall>d \<in> set cs. fmlookup (im_reached ?st1) (cd_id d) = None"
        using Cons.prems(2,3) by auto
      with Cons.IH [OF a] Cons.prems(2) obtain acc where
        h: "entered job fetched ?st1 (nx @ [cd_id c]) cs st' acc" by auto
      have fresh: "cd_id c \<notin> cd_id ` set acc"
        using Cons.prems(2) entered_sub [OF h] by auto
      obtain m where m: "acc = take m (filter (acceptable fetched) cs)" using h by (auto simp: entered_def)
      have "entered job fetched st nx (c # cs) st' (c # acc)"
        unfolding entered_def
      proof (intro conjI)
        show "\<exists>m. c # acc = take m (filter (acceptable fetched) (c # cs))"
          using True m by (intro exI [of _ "Suc m"]) simp
      qed (use h fresh cnt True in \<open>auto simp: entered_def\<close>)
      then show ?thesis by blast
    qed
  qed
qed

lemma layer_parts:
  assumes "impact_layer p bp job st = Inr st'"
  obtains st1 cands kept clipped fetched where
    "expand_frontier bp job st fmempty (im_frontier st) = Inr (st1, cands)"
    "clipped = (int (length (rank_candidates cands)) > hydration_limit (ij_work job - reached_count st1))"
    "kept = (if clipped then take (nat (hydration_limit (ij_work job - reached_count st1))) (rank_candidates cands)
             else rank_candidates cands)"
    "hydrate_candidates p kept = Inr fetched"
    "st' = accept job fetched (st1\<lparr>im_truncated := im_truncated st1 \<or> clipped\<rparr>) [] kept"
  using assms unfolding impact_layer_def Let_def
  by (auto split: sum.splits)

lemma layer_grows:
  assumes "impact_layer p bp job st = Inr st'"
  shows "reached_count st \<le> reached_count st' \<and> (im_frontier st' \<noteq> [] \<longrightarrow> reached_count st < reached_count st') \<and>
    (reached_count st \<le> ij_work job \<longrightarrow> reached_count st' \<le> ij_work job)"
  using assms
proof (rule layer_parts)
  fix st1 cands kept clipped fetched
  assume ex: "expand_frontier bp job st fmempty (im_frontier st) = Inr (st1, cands)"
    and kept: "kept = (if clipped then take (nat (hydration_limit (ij_work job - reached_count st1))) (rank_candidates cands)
             else rank_candidates cands)"
    and acc: "st' = accept job fetched (st1\<lparr>im_truncated := im_truncated st1 \<or> clipped\<rparr>) [] kept"
  have sh: "same_keys (im_reached st) (im_reached st1)" "fresh_cands (im_reached st1) cands"
    using expand_shape [OF ex] by (auto simp: fresh_cands_def)
  have sub: "set kept \<subseteq> set (rank_candidates cands)" "distinct (map cd_id kept)"
    using rank_candidates_ids(2) [OF sh(2)] unfolding kept
    by (auto dest: in_set_takeD simp: take_map [symmetric])
  have new: "\<forall>c \<in> set kept. fmlookup (im_reached st1) (cd_id c) = None"
    using sub(1) sh(2) unfolding rank_candidates_ids(1) [OF sh(2)]
    by (auto simp: fresh_cands_def elim!: fmran'E dest!: subsetD)
  let ?st2 = "st1\<lparr>im_truncated := im_truncated st1 \<or> clipped\<rparr>"
  have c1: "reached_count ?st2 = reached_count st"
    using same_keys_dom [OF sh(1)] by (simp add: reached_count_def)
  obtain acc where e: "entered job fetched ?st2 [] kept st' acc"
    using accept_spec [OF acc [symmetric] sub(2)] new by auto
  have a: "\<forall>c \<in> set acc. fmlookup (im_reached st') (cd_id c) = Some (entry fetched c)"
    "\<forall>i. i \<notin> cd_id ` set acc \<longrightarrow> fmlookup (im_reached st') i = fmlookup (im_reached st1) i"
    "im_frontier st' = map cd_id acc" "reached_count ?st2 \<le> ij_work job \<longrightarrow> reached_count st' \<le> ij_work job"
    using e by (auto simp: entered_def)
  have fin: "fmdom (im_reached st') = fmdom (im_reached st1) |\<union>| fset_of_list (map cd_id acc)"
  proof (rule fset_eqI)
    fix i show "i |\<in>| fmdom (im_reached st') \<longleftrightarrow> i |\<in>| fmdom (im_reached st1) |\<union>| fset_of_list (map cd_id acc)"
      using a(1,2) by (cases "i \<in> cd_id ` set acc") (auto simp: fmlookup_dom_iff fset_of_list_elem)
  qed
  have "fmdom (im_reached st1) |\<subset>| fmdom (im_reached st')" if "acc \<noteq> []"
  proof -
    have "hd acc \<in> set kept" using that entered_sub [OF e] by simp
    then have "cd_id (hd acc) |\<notin>| fmdom (im_reached st1)" using new by (simp add: fmdom_notI)
    moreover have "cd_id (hd acc) |\<in>| fmdom (im_reached st')"
      using that unfolding fin by (simp add: fset_of_list_elem)
    ultimately show ?thesis unfolding fin by auto
  qed
  then have "acc \<noteq> [] \<longrightarrow> reached_count ?st2 < reached_count st'"
    by (simp add: reached_count_def pfsubset_fcard_mono)
  moreover have "reached_count ?st2 \<le> reached_count st'"
    unfolding reached_count_def fin by (simp add: fcard_mono)
  ultimately show ?thesis using a(3,4) unfolding c1 by auto
qed

subsection \<open>The analyzer\<close>

text \<open>The loop over the layers; every layer that goes on reaches something new.\<close>

function impact_loop :: "lookup_port \<Rightarrow> bounded_port \<Rightarrow> impact_job \<Rightarrow> impact_state \<Rightarrow> query_error + impact_state" where
  "impact_loop p bp job st =
     (if im_frontier st \<noteq> [] \<and> reached_count st < ij_work job
      then (case impact_layer p bp job st of
              Inl err \<Rightarrow> Inl err
            | Inr st' \<Rightarrow> if im_truncated st' then Inr st' else impact_loop p bp job st')
      else Inr st)"
  by pat_completeness auto
termination
proof (relation "measures [\<lambda>(p, bp, job, st). nat (ij_work job - reached_count st),
    \<lambda>(p, bp, job, st). if im_frontier st = [] then 0 else 1]")
  fix p bp job st st'
  assume "im_frontier st \<noteq> [] \<and> reached_count st < ij_work job" and l: "impact_layer p bp job st = Inr st'"
  with layer_grows [OF l] show "((p, bp, job, st'), p, bp, job, st) \<in>
      measures [\<lambda>(p, bp, job, st). nat (ij_work job - reached_count st),
        \<lambda>(p, bp, job, st). if im_frontier st = [] then 0 else 1]"
    by (cases "im_frontier st' = []") auto
qed simp

declare impact_loop.simps [simp del]

definition job_of :: "analysis_params \<Rightarrow> impact_job" where
  "job_of p =
     \<lparr>ij_seed = ap_symbol p, ij_forward = (direction_of p = forward), ij_kinds = fst (impact_kinds p),
      ij_work = work_limit (max_nodes_of p), ij_edge_work = edge_work_limit (max_nodes_of p)\<rparr>"

definition impact_start :: "analysis_params \<Rightarrow> impact_state" where
  "impact_start p =
     \<lparr>im_reached = fmempty, im_depth = fmupd (ap_symbol p) 0 fmempty, im_expanded = {||},
      im_frontier = [ap_symbol p], im_truncated = snd (impact_kinds p), im_examined = 0\<rparr>"

definition finish_impact :: "analysis_params \<Rightarrow> impact_state \<Rightarrow> analysis" where
  "finish_impact p st =
     (let work_truncated = (im_truncated st \<or> im_frontier st \<noteq> [] \<and> reached_count st \<ge> ij_work (job_of p));
          ns = sort_reached (map_values (im_reached st));
          over = (int (length ns) > max_nodes_of p)
      in \<lparr>an_analyzer = ''impact'',
          an_outcome = (if reached_count st = 0 then outcome_empty else outcome_found),
          an_symbol = ap_symbol p, an_truncated = (work_truncated \<or> over),
          an_nodes = (if over then take (nat (max_nodes_of p)) ns else ns), an_paths = [], an_locations = []\<rparr>)"

definition impact_analyze ::
  "lookup_port option \<Rightarrow> bounded_port option \<Rightarrow> analysis_params \<Rightarrow> query_error + analysis" where
  "impact_analyze lookup bounded p =
     (case lookup of
        None \<Rightarrow> Inl ErrSelectiveLookupUnavailable
      | Some lp \<Rightarrow>
          (case bounded of
             None \<Rightarrow> Inl ErrSelectiveLookupUnavailable
           | Some bp \<Rightarrow>
               (case lp_nodes_by_id lp [ap_symbol p] of
                  Inl err \<Rightarrow> Inl (ErrQueryRead err)
                | Inr seed \<Rightarrow>
                    if seed = [] then Inr (not_found_analysis ''impact'' (ap_symbol p))
                    else (case impact_loop lp bp (job_of p) (impact_start p) of
                            Inl err \<Rightarrow> Inl err
                          | Inr st \<Rightarrow> Inr (finish_impact p st)))))"


subsection \<open>The kinds kept\<close>

lemma set_heap_push [simp]: "set (heap_push v ws) = insert v (set ws)"
  by (induction ws) auto

lemma length_heap_push [simp]: "length (heap_push v ws) = Suc (length ws)"
  by (induction ws) auto

lemma fset_heap_push: "fset_of_list (heap_push v ws) = finsert v (fset_of_list ws)"
  by (induction ws) (auto simp: finsert_commute)

lemma heap_push_desc: "sorted_wrt (>) ws \<Longrightarrow> v \<notin> set ws \<Longrightarrow> sorted_wrt (>) (heap_push v ws)"
  by (induction ws) (auto simp: not_le)

text \<open>\<open>least_of A S\<close>: \<open>A\<close> holds the least elements of \<open>S\<close>.\<close>

definition least_of :: "string set \<Rightarrow> string set \<Rightarrow> bool" where
  "least_of A S \<longleftrightarrow> A \<subseteq> S \<and> (\<forall>a \<in> A. \<forall>x \<in> S - A. a < x)"

lemma least_of_take:
  assumes "least_of A S" "finite S"
  shows "sorted_list_of_set S = sorted_list_of_set A @ sorted_list_of_set (S - A)"
proof (rule sorted_distinct_set_unique)
  have f: "finite A" "A \<subseteq> S" using assms by (auto simp: least_of_def intro: finite_subset)
  show "sorted (sorted_list_of_set A @ sorted_list_of_set (S - A))"
    "distinct (sorted_list_of_set A @ sorted_list_of_set (S - A))"
    using assms f by (auto simp: sorted_append least_of_def intro: less_imp_le)
  show "set (sorted_list_of_set S) = set (sorted_list_of_set A @ sorted_list_of_set (S - A))"
    using assms f by auto
qed simp_all

definition selects :: "nat \<Rightarrow> string set \<Rightarrow> kind_selector \<Rightarrow> bool" where
  "selects c S s \<longleftrightarrow>
     ks_capacity s = int c \<and> sorted_wrt (>) (ks_values s) \<and> ks_kept s = fset_of_list (ks_values s) \<and>
     length (ks_values s) = min c (card S) \<and> least_of (set (ks_values s)) S"

lemma desc_distinct: "sorted_wrt (>) (ws :: string list) \<Longrightarrow> distinct ws"
  by (induction ws) auto

lemma desc_hd: "sorted_wrt (>) (ws :: string list) \<Longrightarrow> w \<in> set ws \<Longrightarrow> w \<le> hd ws"
  by (cases ws) (auto intro: less_imp_le)

lemma least_of_all: "least_of A S \<Longrightarrow> finite S \<Longrightarrow> card A = card S \<Longrightarrow> A = S"
  unfolding least_of_def by (metis card_subset_eq)

lemma selects_add:
  assumes s: "selects c S s" and fin: "finite S" and c: "0 < c"
  shows "selects c (insert v S) (selector_add v s)"
proof -
  let ?V = "ks_values s"
  have cap: "ks_capacity s = int c" and desc: "sorted_wrt (>) ?V" and kept: "ks_kept s = fset_of_list ?V"
    and len: "length ?V = min c (card S)" and least: "least_of (set ?V) S"
    using s by (auto simp: selects_def)
  have card: "card (set ?V) = length ?V" by (rule distinct_card [OF desc_distinct [OF desc]])
  consider "v \<in> set ?V" | "v \<notin> set ?V" "length ?V < c" | "v \<notin> set ?V" "length ?V = c" "hd ?V \<le> v"
    | "v \<notin> set ?V" "length ?V = c" "v < hd ?V"
    using len by fastforce
  then show ?thesis
  proof cases
    case 1
    then have "insert v S = S" using least by (auto simp: least_of_def)
    then show ?thesis using 1 s kept c cap by (simp add: selector_add_def fset_of_list_elem)
  next
    case 2
    then have "set ?V = S" using least_of_all [OF least fin] len card by simp
    moreover have "selector_add v s = s\<lparr>ks_values := heap_push v ?V, ks_kept := finsert v (ks_kept s)\<rparr>"
      using 2 kept c cap by (simp add: selector_add_def fset_of_list_elem)
    ultimately show ?thesis
      using 2 kept cap heap_push_desc [OF desc 2(1)] fin len
      by (simp add: selects_def fset_heap_push least_of_def)
  next
    case 3
    then have V: "hd ?V \<in> set ?V" using c by (cases ?V) auto
    then have "hd ?V < v" using 3 by (metis order_le_imp_less_or_eq)
    then have lt: "a < v" if "a \<in> set ?V" for a using desc_hd [OF desc that] by simp
    have "min c (card (insert v S)) = c"
      using 3 len card_mono [OF _ subset_insertI [of S v]] fin by simp
    moreover have "selector_add v s = s"
      using 3 kept c cap by (simp add: selector_add_def fset_of_list_elem)
    moreover have "least_of (set ?V) (insert v S)" using least lt by (auto simp: least_of_def)
    ultimately show ?thesis using 3 desc kept cap by (simp add: selects_def)
  next
    case 4
    then obtain w W where W: "?V = w # W" using c by (cases ?V) auto
    have desc': "sorted_wrt (>) W" "\<forall>u \<in> set W. u < w" using desc W by auto
    have vS: "v \<notin> S"
    proof
      assume "v \<in> S"
      then have "w < v" using least 4(1) W by (simp add: least_of_def)
      then show False using 4(3) W by simp
    qed
    have lessW: "u < x" if "u \<in> set W" "x \<in> insert v S" "x \<notin> insert v (set W)" for u x
      using that W least desc'(2) by (cases "x = w") (auto simp: least_of_def)
    have lessv: "v < x" if "x \<in> insert v S" "x \<notin> insert v (set W)" for x
    proof (cases "x = w")
      case False
      then have "w < x" using that W least by (auto simp: least_of_def)
      then show ?thesis using 4 W by simp
    qed (use 4 W in simp)
    have "least_of (insert v (set W)) (insert v S)"
      using lessW lessv least W by (auto simp: least_of_def)
    moreover have "sorted_wrt (>) (heap_push v W)" by (rule heap_push_desc) (use 4 W desc' in auto)
    moreover have "min c (card (insert v S)) = c" using vS fin len 4 by simp
    moreover have "fset_of_list (w # W) |-| {|w|} = fset_of_list W" using desc' by (auto simp: fset_of_list_elem)
    moreover have "selector_add v s = s\<lparr>ks_values := heap_push v W,
        ks_kept := finsert v (fset_of_list (w # W) |-| {|w|})\<rparr>"
      using 4 kept c cap W by (simp add: selector_add_def fset_of_list_elem)
    ultimately show ?thesis using 4 cap W by (simp add: selects_def fset_heap_push)
  qed
qed

lemma selects_fold:
  "selects c S s \<Longrightarrow> finite S \<Longrightarrow> 0 < c \<Longrightarrow> selects c (S \<union> set ks) (fold selector_add ks s)"
proof (induction ks arbitrary: S s)
  case (Cons k ks)
  then show ?case using Cons.IH [OF selects_add [OF Cons.prems]] by (simp add: insert_commute)
qed simp

lemma canonical_kinds_eq:
  assumes "0 \<le> limit" "limit < max_int"
  shows "canonical_impact_kinds kinds limit =
      (take (nat limit) (sorted_list_of_set (set kinds)), int (card (set kinds)) > limit) \<and>
    int (length (ks_values (fold selector_add kinds (new_kind_selector limit)))) \<le> limit + 1"
proof -
  let ?s = "fold selector_add kinds (new_kind_selector limit)" let ?c = "nat (limit + 1)"
  have "selects ?c {} (new_kind_selector limit)"
    using assms by (simp add: selects_def new_kind_selector_def least_of_def)
  from selects_fold [OF this, of kinds] assms have s: "selects ?c (set kinds) ?s" by simp
  let ?V = "ks_values ?s"
  have V: "sorted_wrt (>) ?V" "length ?V = min ?c (card (set kinds))" "least_of (set ?V) (set kinds)"
    using s by (auto simp: selects_def)
  have sort: "sort ?V = sorted_list_of_set (set ?V)"
    by (simp add: sorted_list_of_set_sort_remdups distinct_remdups_id [OF desc_distinct [OF V(1)]])
  note all = least_of_take [OF V(3) finite_set]
  have len: "length (sorted_list_of_set (set ?V)) = length ?V"
    by (simp add: distinct_card [OF desc_distinct [OF V(1)]])
  show ?thesis
  proof (cases "int (card (set kinds)) > limit")
    case True
    then have "length ?V = ?c" using V(2) by simp
    then show ?thesis
      using True assms distinct_card [OF desc_distinct [OF V(1)]]
      by (simp add: canonical_impact_kinds_def selector_result_def Let_def sort all)
  next
    case False
    then have "length ?V = card (set kinds)" using V(2) by simp
    moreover from this have "set ?V = set kinds"
      using least_of_all [OF V(3)] distinct_card [OF desc_distinct [OF V(1)]] by simp
    ultimately show ?thesis
      using False assms by (simp add: canonical_impact_kinds_def selector_result_def Let_def sort)
  qed
qed

text \<open>
  C33: the kind selector, whose heap never holds more than \<open>limit + 1\<close> values, returns the
  \<open>limit\<close> least distinct kinds of an input of any length in order, and says exactly whether it
  dropped one.
\<close>

theorem canonical_kinds_exact:
  assumes "0 \<le> limit" "limit < max_int"
  shows "canonical_impact_kinds kinds limit =
      (take (nat limit) (sorted_list_of_set (set kinds)), int (card (set kinds)) > limit) \<and>
    int (length (ks_values (fold selector_add kinds (new_kind_selector limit)))) \<le> limit + 1"
  using canonical_kinds_eq [OF assms] .

theorem canonical_kinds_exact_witness:
  "canonical_impact_kinds [''references'', ''calls'', ''defines'', ''calls''] 2 = ([''calls'', ''defines''], True)"
proof -
  have "set [''references'', ''calls'', ''defines'', ''calls''] = {''calls'', ''defines'', ''references''}" by auto
  then show ?thesis using canonical_kinds_exact [of 2 "[''references'', ''calls'', ''defines'', ''calls'']"]
    by (simp add: max_int_def)
qed

end
