(* ===== verification/ImpactProps.thy ===== *)
theory ImpactProps
  imports Impact
begin

text \<open>
  The impact traversal against its reference: the balls of directed distance around the seed.
\<close>

subsection \<open>Distance along the edges of the kinds\<close>

definition near_end :: "bool \<Rightarrow> edge \<Rightarrow> node_id" where "near_end fwd e = (if fwd then e_from e else e_to e)"
definition far_end :: "bool \<Rightarrow> edge \<Rightarrow> node_id" where "far_end fwd e = (if fwd then e_to e else e_from e)"

definition counted :: "node set \<Rightarrow> node_id \<Rightarrow> bool" where
  "counted N i \<longleftrightarrow> (\<exists>n \<in> N. n_id n = i \<and> n_kind n \<noteq> ''external'')"

fun ball :: "node set \<Rightarrow> edge set \<Rightarrow> bool \<Rightarrow> string set \<Rightarrow> node_id \<Rightarrow> nat \<Rightarrow> node_id set" where
  "ball N E fwd K s 0 = {s}"
| "ball N E fwd K s (Suc k) = ball N E fwd K s k \<union>
     {y. counted N y \<and> (\<exists>e \<in> E. e_kind e \<in> K \<and> near_end fwd e \<in> ball N E fwd K s k \<and> far_end fwd e = y)}"

fun inner :: "node set \<Rightarrow> edge set \<Rightarrow> bool \<Rightarrow> string set \<Rightarrow> node_id \<Rightarrow> nat \<Rightarrow> node_id set" where
  "inner N E fwd K s 0 = {}"
| "inner N E fwd K s (Suc k) = ball N E fwd K s k"

definition distance_is :: "node set \<Rightarrow> edge set \<Rightarrow> bool \<Rightarrow> string set \<Rightarrow> node_id \<Rightarrow> nat \<Rightarrow> node_id \<Rightarrow> bool" where
  "distance_is N E fwd K s k i \<longleftrightarrow> i \<in> ball N E fwd K s k \<and> (\<forall>j < k. i \<notin> ball N E fwd K s j)"

lemma ball_mono: "j \<le> k \<Longrightarrow> ball N E fwd K s j \<subseteq> ball N E fwd K s k"
  by (induction k) (auto simp: le_Suc_eq)

lemma inner_ball: "inner N E fwd K s k \<subseteq> ball N E fwd K s k"
  by (cases k) auto

lemma seed_in_ball: "s \<in> ball N E fwd K s k"
  using ball_mono [of 0 k N E fwd K s] by auto

lemma distance_new: "i \<in> ball N E fwd K s (Suc k) \<Longrightarrow> i \<notin> ball N E fwd K s k \<Longrightarrow> distance_is N E fwd K s (Suc k) i"
  unfolding distance_is_def using ball_mono [of _ k N E fwd K s] by (auto simp: less_Suc_eq_le)

lemma ball_settles:
  assumes "ball N E fwd K s (Suc k) = ball N E fwd K s k"
  shows "(\<Union>j. ball N E fwd K s j) = ball N E fwd K s k"
proof -
  have "ball N E fwd K s (k + j) = ball N E fwd K s k" for j
  proof (induction j)
    case (Suc j)
    then have "ball N E fwd K s (Suc (k + j)) = ball N E fwd K s (Suc k)" by simp
    then show ?case using assms by simp
  qed simp
  then have "ball N E fwd K s j \<subseteq> ball N E fwd K s k" for j
    using ball_mono [of j "k + j" N E fwd K s] by auto
  then show ?thesis by auto
qed

subsection \<open>The best edge\<close>

definition best_edge :: "edge set \<Rightarrow> result_edge \<Rightarrow> bool" where
  "best_edge S v \<longleftrightarrow> (\<exists>e \<in> S. v = edge_to_result e) \<and> (\<forall>e \<in> S. \<not> edge_better (edge_to_result e) v)"

lemma best_edge_keep: "best_edge S v \<Longrightarrow> \<not> edge_better (edge_to_result e) v \<Longrightarrow> best_edge (insert e S) v"
  by (auto simp: best_edge_def)

lemma best_edge_replace: "best_edge S v \<Longrightarrow> edge_better (edge_to_result e) v \<Longrightarrow> best_edge (insert e S) (edge_to_result e)"
  by (auto simp: best_edge_def edge_better_key dest: order_less_trans)

lemma best_edge_single: "best_edge {e} (edge_to_result e)"
  by (simp add: best_edge_def edge_better_key)

definition into_end :: "bool \<Rightarrow> edge set \<Rightarrow> node_id \<Rightarrow> edge set" where
  "into_end fwd X i = {e \<in> X. far_end fwd e = i}"

lemma into_end_insert:
  "into_end fwd (insert e X) i = (if i = far_end fwd e then insert e (into_end fwd X i) else into_end fwd X i)"
  by (auto simp: into_end_def)

subsection \<open>A layer\<close>

text \<open>
  What the reached nodes are while the layer after \<open>k\<close> is expanded, having examined the edges \<open>X\<close>, and
  what its candidates are.
\<close>

definition reached_ok ::
  "node set \<Rightarrow> edge set \<Rightarrow> bool \<Rightarrow> string set \<Rightarrow> node_id \<Rightarrow> nat \<Rightarrow> edge set \<Rightarrow> node_id \<Rightarrow> reached_node \<Rightarrow> bool" where
  "reached_ok N E fwd K s k X i r \<longleftrightarrow>
     i \<noteq> s \<and> (\<exists>d \<le> k. rd_depth r = int d \<and> distance_is N E fwd K s d i) \<and>
     (\<exists>n \<in> N. n_id n = i \<and> n_kind n \<noteq> ''external'' \<and> rd_node r = node_to_result n) \<and>
     best_edge (into_end fwd X i) (rd_via r)"

lemma reached_ok_Suc: "reached_ok N E fwd K s k X i r \<Longrightarrow> reached_ok N E fwd K s (Suc k) X i r"
  unfolding reached_ok_def by (auto intro: le_SucI)

lemma reached_ok_ball: "reached_ok N E fwd K s k X i r \<Longrightarrow> i \<in> ball N E fwd K s k - {s}"
  unfolding reached_ok_def distance_is_def using ball_mono [of _ k N E fwd K s] by auto

definition layer_ok ::
  "node set \<Rightarrow> edge set \<Rightarrow> bool \<Rightarrow> string set \<Rightarrow> node_id \<Rightarrow> nat \<Rightarrow> layer \<Rightarrow> edge set \<Rightarrow> bool" where
  "layer_ok N E fwd K s k l X \<longleftrightarrow>
     X \<subseteq> {e \<in> E. e_kind e \<in> K \<and> near_end fwd e \<in> ball N E fwd K s k} \<and>
     (\<forall>i. fmlookup (fst l) i \<noteq> None \<longleftrightarrow> i \<in> ball N E fwd K s k - {s}) \<and>
     (\<forall>i r. fmlookup (fst l) i = Some r \<longrightarrow> reached_ok N E fwd K s k X i r) \<and>
     (\<forall>i c. fmlookup (snd l) i = Some c \<longrightarrow> cd_id c = i \<and> i \<noteq> s \<and> i \<notin> ball N E fwd K s k \<and>
        cd_depth c = int (Suc k) \<and> (counted N i \<longrightarrow> best_edge (into_end fwd X i) (cd_via c))) \<and>
     (\<forall>e \<in> X. counted N (far_end fwd e) \<and> far_end fwd e \<noteq> s \<longrightarrow>
        fmlookup (fst l) (far_end fwd e) \<noteq> None \<or> fmlookup (snd l) (far_end fwd e) \<noteq> None)"

lemma layer_okI:
  assumes "X \<subseteq> {e \<in> E. e_kind e \<in> K \<and> near_end fwd e \<in> ball N E fwd K s k}"
    and "\<And>i. fmlookup r i \<noteq> None \<longleftrightarrow> i \<in> ball N E fwd K s k - {s}"
    and "\<And>i x. fmlookup r i = Some x \<Longrightarrow> reached_ok N E fwd K s k X i x"
    and "\<And>i x. fmlookup c i = Some x \<Longrightarrow> cd_id x = i \<and> i \<noteq> s \<and> i \<notin> ball N E fwd K s k \<and>
        cd_depth x = int (Suc k) \<and> (counted N i \<longrightarrow> best_edge (into_end fwd X i) (cd_via x))"
    and "\<And>e. e \<in> X \<Longrightarrow> counted N (far_end fwd e) \<Longrightarrow> far_end fwd e \<noteq> s \<Longrightarrow>
        fmlookup r (far_end fwd e) \<noteq> None \<or> fmlookup c (far_end fwd e) \<noteq> None"
  shows "layer_ok N E fwd K s k (r, c) X"
  unfolding layer_ok_def fst_conv snd_conv using assms by blast

lemma consider_layer:
  assumes l: "layer_ok N E (ij_forward job) K (ij_seed job) k (r, c) X"
    and e: "e \<in> E" "e_kind e \<in> K" "near_end (ij_forward job) e \<in> ball N E (ij_forward job) K (ij_seed job) k"
  shows "layer_ok N E (ij_forward job) K (ij_seed job) k (consider_edge job (int k + 1) e (r, c)) (insert e X)"
proof -
  let ?f = "ij_forward job" and ?s = "ij_seed job" let ?y = "far_end ?f e"
  have y: "(if ?f then e_to e else e_from e) = ?y" by (simp add: far_end_def)
  note l' = l [unfolded layer_ok_def fst_conv snd_conv]
  have l1: "X \<subseteq> {e \<in> E. e_kind e \<in> K \<and> near_end ?f e \<in> ball N E ?f K ?s k}"
    and l2: "\<And>i. fmlookup r i \<noteq> None \<longleftrightarrow> i \<in> ball N E ?f K ?s k - {?s}"
    and l3: "\<And>i x. fmlookup r i = Some x \<Longrightarrow> reached_ok N E ?f K ?s k X i x"
    and l4: "\<And>i x. fmlookup c i = Some x \<Longrightarrow> cd_id x = i \<and> i \<noteq> ?s \<and> i \<notin> ball N E ?f K ?s k \<and>
        cd_depth x = int (Suc k) \<and> (counted N i \<longrightarrow> best_edge (into_end ?f X i) (cd_via x))"
    and l5: "\<And>e. e \<in> X \<Longrightarrow> counted N (far_end ?f e) \<Longrightarrow> far_end ?f e \<noteq> ?s \<Longrightarrow>
        fmlookup r (far_end ?f e) \<noteq> None \<or> fmlookup c (far_end ?f e) \<noteq> None"
    using l' by blast+
  have l1': "insert e X \<subseteq> {e \<in> E. e_kind e \<in> K \<and> near_end ?f e \<in> ball N E ?f K ?s k}" using l1 e by simp
  have keep3: "reached_ok N E ?f K ?s k (insert e X) i x" if "fmlookup r i = Some x" "i \<noteq> ?y" for i x
    using l3 [OF that(1)] that(2) by (simp add: reached_ok_def into_end_insert)
  have keep4: "cd_id x = i \<and> i \<noteq> ?s \<and> i \<notin> ball N E ?f K ?s k \<and>
        cd_depth x = int (Suc k) \<and> (counted N i \<longrightarrow> best_edge (into_end ?f (insert e X) i) (cd_via x))"
    if "fmlookup c i = Some x" "i \<noteq> ?y" for i x
    using l4 [OF that(1)] that(2) by (simp add: into_end_insert)
  show ?thesis
  proof (cases "?y = ?s")
    case True
    then have "consider_edge job (int k + 1) e (r, c) = (r, c)" by (simp add: consider_edge_def y Let_def)
    moreover have "layer_ok N E ?f K ?s k (r, c) (insert e X)"
    proof (rule layer_okI [OF l1' l2])
      show "reached_ok N E ?f K ?s k (insert e X) i x" if "fmlookup r i = Some x" for i x
        using keep3 [OF that] l2 [of i] that True by auto
      show "cd_id x = i \<and> i \<noteq> ?s \<and> i \<notin> ball N E ?f K ?s k \<and> cd_depth x = int (Suc k) \<and>
          (counted N i \<longrightarrow> best_edge (into_end ?f (insert e X) i) (cd_via x))" if "fmlookup c i = Some x" for i x
        using keep4 [OF that] l4 [OF that] True by auto
    qed (use l5 True in auto)
    ultimately show ?thesis by simp
  next
    case ns: False
    show ?thesis
    proof (cases "fmlookup r ?y")
      case (Some x)
      have yball: "fmlookup c ?y = None" using l2 [of ?y] l4 Some by (metis DiffD1 option.exhaust option.simps(3))
      have ok: "reached_ok N E ?f K ?s k X ?y x" by (rule l3 [OF Some])
      let ?r = "if edge_better (edge_to_result e) (rd_via x) then fmupd ?y (x\<lparr>rd_via := edge_to_result e\<rparr>) r else r"
      have eq: "consider_edge job (int k + 1) e (r, c) = (?r, c)"
        using Some ns by (simp add: consider_edge_def y Let_def)
      have "reached_ok N E ?f K ?s k (insert e X) i z" if "fmlookup ?r i = Some z" for i z
      proof (cases "i = ?y")
        case True
        then show ?thesis
          using that ok Some by (auto simp: reached_ok_def into_end_insert best_edge_keep best_edge_replace split: if_splits)
      next
        case False
        then show ?thesis using that keep3 by (auto split: if_splits)
      qed
      note r3 = this
      have "layer_ok N E ?f K ?s k (?r, c) (insert e X)"
      proof (rule layer_okI [OF l1' _ r3])
        show "fmlookup ?r i \<noteq> None \<longleftrightarrow> i \<in> ball N E ?f K ?s k - {?s}" for i using Some l2 [of i] by auto
        show "cd_id x = i \<and> i \<noteq> ?s \<and> i \<notin> ball N E ?f K ?s k \<and> cd_depth x = int (Suc k) \<and>
            (counted N i \<longrightarrow> best_edge (into_end ?f (insert e X) i) (cd_via x))" if "fmlookup c i = Some x" for i x
        proof -
          have "i \<noteq> ?y" using that yball by auto
          then show ?thesis by (rule keep4 [OF that])
        qed
        show "fmlookup ?r (far_end ?f g) \<noteq> None \<or> fmlookup c (far_end ?f g) \<noteq> None"
          if "g \<in> insert e X" "counted N (far_end ?f g)" "far_end ?f g \<noteq> ?s" for g
          using that l5 [of g] Some by auto
      qed
      then show ?thesis unfolding eq .
    next
      case None
      then have yb: "?y \<notin> ball N E ?f K ?s k" using l2 [of ?y] ns by auto
      let ?new = "\<lparr>cd_id = ?y, cd_via = edge_to_result e, cd_depth = int k + 1\<rparr>"
      obtain c' where eq: "consider_edge job (int k + 1) e (r, c) = (r, c')"
        and c': "c' = c \<and> (\<exists>z. fmlookup c ?y = Some z \<and> \<not> edge_better (edge_to_result e) (cd_via z)) \<or>
          c' = fmupd ?y ?new c \<and> (\<forall>z. fmlookup c ?y = Some z \<longrightarrow> edge_better (edge_to_result e) (cd_via z))"
        using None ns that
        by (cases "fmlookup c ?y"; cases "edge_better (edge_to_result e) (cd_via (the (fmlookup c ?y)))")
          (auto simp: consider_edge_def y Let_def)
      have cy: "fmlookup c' ?y \<noteq> None" using c' by auto
      have other: "fmlookup c' i = fmlookup c i" if "i \<noteq> ?y" for i using c' that by auto
      have no_edge: "into_end ?f X ?y = {}" if "fmlookup c ?y = None" "counted N ?y"
        using l5 None that ns by (fastforce simp: into_end_def)
      have new: "cd_id z = ?y \<and> cd_depth z = int (Suc k) \<and>
          (counted N ?y \<longrightarrow> best_edge (into_end ?f (insert e X) ?y) (cd_via z))" if z: "fmlookup c' ?y = Some z" for z
        using c'
      proof
        assume "c' = c \<and> (\<exists>z. fmlookup c ?y = Some z \<and> \<not> edge_better (edge_to_result e) (cd_via z))"
        then show ?thesis using l4 [of ?y z] z by (auto simp: into_end_insert intro: best_edge_keep)
      next
        assume u: "c' = fmupd ?y ?new c \<and> (\<forall>z. fmlookup c ?y = Some z \<longrightarrow> edge_better (edge_to_result e) (cd_via z))"
        then have "z = ?new" using z by simp
        then show ?thesis
        proof (cases "fmlookup c ?y")
          case cn: None
          have "best_edge (insert e (into_end ?f X ?y)) (edge_to_result e)" if cy: "counted N ?y"
          proof -
            have n: "into_end ?f X ?y = {}" by (rule no_edge [OF cn cy])
            have "insert e (into_end ?f X ?y) = {e}" unfolding n ..
            then show ?thesis using best_edge_single [of e] by (rule ssubst)
          qed
          then show ?thesis using \<open>z = ?new\<close> by (simp add: into_end_insert)
        next
          case (Some z0)
          then show ?thesis
            using u l4 [OF Some] \<open>z = ?new\<close> by (auto simp: into_end_insert intro: best_edge_replace)
        qed
      qed
      have c4: "cd_id z = i \<and> i \<noteq> ?s \<and> i \<notin> ball N E ?f K ?s k \<and> cd_depth z = int (Suc k) \<and>
          (counted N i \<longrightarrow> best_edge (into_end ?f (insert e X) i) (cd_via z))" if "fmlookup c' i = Some z" for i z
        using that new [of z] keep4 [of i z] ns yb by (cases "i = ?y") (auto simp: other)
      have "layer_ok N E ?f K ?s k (r, c') (insert e X)"
      proof (rule layer_okI [OF l1' l2 _ c4])
        show "reached_ok N E ?f K ?s k (insert e X) i x" if "fmlookup r i = Some x" for i x
        proof -
          have "i \<noteq> ?y" using that None by auto
          then show ?thesis by (rule keep3 [OF that])
        qed
        show "fmlookup r (far_end ?f g) \<noteq> None \<or> fmlookup c' (far_end ?f g) \<noteq> None"
          if "g \<in> insert e X" "counted N (far_end ?f g)" "far_end ?f g \<noteq> ?s" for g
          using that l5 [of g] cy other [of "far_end ?f g"] by (cases "far_end ?f g = ?y") auto
      qed
      then show ?thesis unfolding eq .
    qed
  qed
qed


lemma consider_all_layer:
  assumes "layer_ok N E (ij_forward job) K (ij_seed job) k l X"
    and "\<forall>e \<in> set es. e \<in> E \<and> e_kind e \<in> K \<and> near_end (ij_forward job) e \<in> ball N E (ij_forward job) K (ij_seed job) k"
  shows "layer_ok N E (ij_forward job) K (ij_seed job) k (fold (consider_edge job (int k + 1)) es l) (X \<union> set es)"
  using assms
proof (induction es arbitrary: l X)
  case (Cons e es)
  obtain r c where l: "l = (r, c)" by fastforce
  have "layer_ok N E (ij_forward job) K (ij_seed job) k (consider_edge job (int k + 1) e l) (insert e X)"
    unfolding l by (rule consider_layer) (use Cons.prems in \<open>auto simp: l\<close>)
  from Cons.IH [OF this] Cons.prems(2) show ?case by simp
qed simp

subsection \<open>The traversal over a sound port\<close>

declare expand_frontier.simps(2) [simp del]

locale bounded_lookup = graph_lookup +
  fixes bport :: "'a \<Rightarrow> bounded_port"
  assumes into_bounded: "sound s \<Longrightarrow> 0 < limit \<Longrightarrow> limit \<le> max_int \<Longrightarrow> kinds \<noteq> [] \<Longrightarrow>
      bp_incoming (bport s) i limit kinds =
        (let F = filter (\<lambda>e. e_to e = i \<and> e_kind e \<in> set kinds) (stored_edges s)
         in Inr (take (nat limit) F, int (length F) > limit))"
    and out_of_bounded: "sound s \<Longrightarrow> 0 < limit \<Longrightarrow> limit \<le> max_int \<Longrightarrow> kinds \<noteq> [] \<Longrightarrow>
      bp_outgoing (bport s) i limit kinds =
        (let F = filter (\<lambda>e. e_from e = i \<and> e_kind e \<in> set kinds) (stored_edges s)
         in Inr (take (nat limit) F, int (length F) > limit))"
begin

lemma bounded_read_eq:
  assumes "sound s" "0 < b" "b \<le> max_int" "ij_kinds job \<noteq> []"
  shows "bounded_read (bport s) job cur b =
    (let F = filter (\<lambda>e. near_end (ij_forward job) e = cur \<and> e_kind e \<in> set (ij_kinds job)) (stored_edges s)
     in Inr (take (nat b) F, int (length F) > b))"
  using into_bounded [OF assms] out_of_bounded [OF assms]
  by (simp add: bounded_read_def near_end_def)

abbreviation job_ball where
  "job_ball s job \<equiv> ball (set (stored_nodes s)) (set (stored_edges s)) (ij_forward job) (set (ij_kinds job)) (ij_seed job)"

abbreviation job_layer where
  "job_layer s job \<equiv>
     layer_ok (set (stored_nodes s)) (set (stored_edges s)) (ij_forward job) (set (ij_kinds job)) (ij_seed job)"

definition examined_at :: "'a \<Rightarrow> impact_job \<Rightarrow> node_id set \<Rightarrow> edge set" where
  "examined_at s job P = {e \<in> set (stored_edges s). e_kind e \<in> set (ij_kinds job) \<and> near_end (ij_forward job) e \<in> P}"

lemma expand_layer:
  assumes sound: "sound s" and job: "ij_kinds job \<noteq> []" "ij_edge_work job \<le> max_int"
    and layer: "job_layer s job k (im_reached st, cands) X"
    and F: "set F \<subseteq> job_ball s job k" "\<forall>i \<in> set F. depth_at (im_depth st) i = int k"
    and ex: "0 \<le> im_examined st" "im_examined st \<le> ij_edge_work job"
  shows "\<exists>st' cands' X'. expand_frontier (bport s) job st cands F = Inr (st', cands') \<and>
    job_layer s job k (im_reached st', cands') X' \<and> im_depth st' = im_depth st \<and>
    0 \<le> im_examined st' \<and> im_examined st' \<le> ij_edge_work job \<and>
    (im_truncated st \<longrightarrow> im_truncated st') \<and>
    (\<not> im_truncated st' \<longrightarrow> im_expanded st' = im_expanded st |\<union>| fset_of_list F \<and>
       X' = X \<union> examined_at s job (set F - fset (im_expanded st)))"
  using layer F(1,2) ex
proof (induction F arbitrary: st cands X)
  case Nil
  then show ?case by (auto simp: examined_at_def)
next
  case (Cons cur rest)
  consider "cur |\<in>| im_expanded st" | "cur |\<notin>| im_expanded st" "ij_edge_work job - im_examined st \<le> 0"
    | "cur |\<notin>| im_expanded st" "0 < ij_edge_work job - im_examined st" by linarith
  then show ?case
  proof cases
    case 1
    have "im_expanded st |\<union>| fset_of_list (cur # rest) = im_expanded st |\<union>| fset_of_list rest"
      "set (cur # rest) - fset (im_expanded st) = set rest - fset (im_expanded st)" using 1 by auto
    then show ?thesis using Cons.IH [OF Cons.prems(1)] Cons.prems 1 by (simp add: expand_frontier.simps(2))
  next
    case 2
    then show ?thesis using Cons.prems by (auto simp: Let_def expand_frontier.simps(2))
  next
    case 3
    let ?b = "ij_edge_work job - im_examined st"
    let ?F = "filter (\<lambda>e. near_end (ij_forward job) e = cur \<and> e_kind e \<in> set (ij_kinds job)) (stored_edges s)"
    let ?es = "take (nat ?b) ?F" and ?clipped = "int (length ?F) > ?b"
    have read: "bounded_read (bport s) job cur ?b = Inr (?es, ?clipped)"
      using bounded_read_eq [OF sound 3(2) _ job(1)] job(2) Cons.prems(4) by (simp add: Let_def)
    obtain r c where f: "fold (consider_edge job (depth_at (im_depth st) cur + 1)) ?es (im_reached st, cands) = (r, c)"
      by fastforce
    have d: "depth_at (im_depth st) cur = int k" using Cons.prems(3) by simp
    have es: "\<forall>e \<in> set ?es. e \<in> set (stored_edges s) \<and> e_kind e \<in> set (ij_kinds job) \<and>
        near_end (ij_forward job) e \<in> job_ball s job k"
      using Cons.prems(2) by (auto dest: in_set_takeD)
    have layer: "job_layer s job k (r, c) (X \<union> set ?es)"
      using consider_all_layer [OF Cons.prems(1) es] f unfolding d by simp
    let ?st2 = "st\<lparr>im_expanded := finsert cur (im_expanded st), im_reached := r,
                  im_examined := im_examined st + int (length ?es), im_truncated := im_truncated st \<or> ?clipped\<rparr>"
    have ex: "0 \<le> im_examined ?st2" "im_examined ?st2 \<le> ij_edge_work job"
      using Cons.prems(4,5) 3(2) by auto
    note step = expand_Cons [OF 3 read f, of rest, unfolded Let_def]
    show ?thesis
    proof (cases ?clipped)
      case True
      then show ?thesis
        using layer ex by (intro exI [of _ ?st2] exI [of _ c] exI [of _ "X \<union> set ?es"]) (simp add: step [simplified])
    next
      case False
      then have all: "set ?es = examined_at s job {cur}" by (auto simp: examined_at_def)
      obtain st' cands' X' where ih: "expand_frontier (bport s) job ?st2 c rest = Inr (st', cands')"
        "job_layer s job k (im_reached st', cands') X'" "im_depth st' = im_depth st"
        "0 \<le> im_examined st'" "im_examined st' \<le> ij_edge_work job" "im_truncated ?st2 \<longrightarrow> im_truncated st'"
        "\<not> im_truncated st' \<longrightarrow> im_expanded st' = im_expanded ?st2 |\<union>| fset_of_list rest \<and>
           X' = (X \<union> set ?es) \<union> examined_at s job (set rest - fset (im_expanded ?st2))"
        using Cons.IH [of ?st2 c "X \<union> set ?es"] layer Cons.prems(2,3) ex by auto
      have "examined_at s job {cur} \<union> examined_at s job (set rest - fset (im_expanded ?st2)) =
          examined_at s job (set (cur # rest) - fset (im_expanded st))"
        using 3(1) by (auto simp: examined_at_def)
      note ex = this
      have run: "expand_frontier (bport s) job st cands (cur # rest) = Inr (st', cands')"
        unfolding step if_not_P [OF False] by (rule ih(1))
      have fin: "im_expanded st' = im_expanded st |\<union>| fset_of_list (cur # rest) \<and>
          X' = X \<union> examined_at s job (set (cur # rest) - fset (im_expanded st))" if "\<not> im_truncated st'"
      proof -
        note h = ih(7) [rule_format, OF that]
        have "im_expanded st' = im_expanded st |\<union>| fset_of_list (cur # rest)" unfolding conjunct1 [OF h] by simp
        moreover have "X' = X \<union> examined_at s job (set (cur # rest) - fset (im_expanded st))"
          unfolding conjunct2 [OF h] all Un_assoc ex ..
        ultimately show ?thesis ..
      qed
      have "im_truncated st \<longrightarrow> im_truncated st'" using ih(6) by simp
      then show ?thesis using run ih(2-5) fin by blast
    qed
  qed
qed


text \<open>Between two layers, when nothing has been cut.\<close>

definition job_inner :: "'a \<Rightarrow> impact_job \<Rightarrow> nat \<Rightarrow> node_id set" where
  "job_inner s job k =
     inner (set (stored_nodes s)) (set (stored_edges s)) (ij_forward job) (set (ij_kinds job)) (ij_seed job) k"

definition between :: "'a \<Rightarrow> impact_job \<Rightarrow> nat \<Rightarrow> impact_state \<Rightarrow> bool" where
  "between s job k st \<longleftrightarrow>
     job_layer s job k (im_reached st, fmempty) (examined_at s job (job_inner s job k)) \<and>
     set (im_frontier st) = job_ball s job k - job_inner s job k \<and>
     fset (im_expanded st) = job_inner s job k \<and>
     (\<forall>i \<in> set (im_frontier st). depth_at (im_depth st) i = int k) \<and>
     0 \<le> im_examined st \<and> im_examined st \<le> ij_edge_work job"

text \<open>What holds of the reached nodes whatever was cut.\<close>

definition partly_reached :: "'a \<Rightarrow> impact_job \<Rightarrow> nat \<Rightarrow> impact_state \<Rightarrow> bool" where
  "partly_reached s job k st \<longleftrightarrow>
     (\<exists>X. X \<subseteq> set (stored_edges s) \<and> (\<forall>e \<in> X. e_kind e \<in> set (ij_kinds job)) \<and>
       (\<forall>i r. fmlookup (im_reached st) i = Some r \<longrightarrow>
          reached_ok (set (stored_nodes s)) (set (stored_edges s)) (ij_forward job) (set (ij_kinds job)) (ij_seed job) k X i r))"

lemma hydrated:
  assumes "sound s"
  shows "\<exists>f. hydrate_candidates (port s) cs = Inr f \<and>
    (\<forall>i n. fmlookup f i = Some n \<longleftrightarrow> n \<in> set (stored_nodes s) \<and> n_id n = i \<and> i \<in> cd_id ` set cs)"
proof (cases "cs = []")
  case False
  let ?ns = "filter (\<lambda>n. n_id n \<in> cd_id ` set cs) (stored_nodes s)"
  have "inj_on n_id (set ?ns)" by (auto intro!: inj_onI dest: same_node [OF assms])
  then show ?thesis using False by (auto simp: hydrate_candidates_def by_id [OF assms] hydrate_loop)
qed (simp add: hydrate_candidates_def)

lemma layer_fresh: "job_layer s job k (r, c) X \<Longrightarrow> fresh_cands r c"
proof -
  assume l: "job_layer s job k (r, c) X"
  have "cd_id x = i \<and> fmlookup r i = None" if "fmlookup c i = Some x" for i x
  proof -
    have "cd_id x = i" "i \<notin> job_ball s job k" using l that unfolding layer_ok_def snd_conv by blast+
    moreover have "fmlookup r i \<noteq> None \<longleftrightarrow> i \<in> job_ball s job k - {ij_seed job}"
      using l unfolding layer_ok_def fst_conv by blast
    ultimately show ?thesis by blast
  qed
  then show "fresh_cands r c" by (simp add: fresh_cands_def)
qed

lemma layer_step:
  assumes sound: "sound s" and job: "ij_kinds job \<noteq> []" "ij_edge_work job \<le> max_int"
    and st: "between s job k st"
  shows "\<exists>st'. impact_layer (port s) (bport s) job st = Inr st' \<and> partly_reached s job (Suc k) st' \<and>
    0 \<le> im_examined st' \<and> im_examined st' \<le> ij_edge_work job \<and>
    (im_truncated st \<longrightarrow> im_truncated st') \<and>
    (\<not> im_truncated st' \<longrightarrow> between s job (Suc k) st')"
proof -
  let ?N = "set (stored_nodes s)" and ?E = "set (stored_edges s)" and ?f = "ij_forward job"
    and ?K = "set (ij_kinds job)" and ?s = "ij_seed job"
  let ?B = "job_ball s job" and ?I = "job_inner s job"
  note st' = st [unfolded between_def]
  obtain st1 cands X where ex: "expand_frontier (bport s) job st fmempty (im_frontier st) = Inr (st1, cands)"
    and layer: "job_layer s job k (im_reached st1, cands) X"
    and depth1: "im_depth st1 = im_depth st"
    and exam: "0 \<le> im_examined st1" "im_examined st1 \<le> ij_edge_work job"
    and tr: "im_truncated st \<longrightarrow> im_truncated st1"
    and full: "\<not> im_truncated st1 \<longrightarrow> im_expanded st1 = im_expanded st |\<union>| fset_of_list (im_frontier st) \<and>
       X = examined_at s job (?I k) \<union> examined_at s job (set (im_frontier st) - fset (im_expanded st))"
    using expand_layer [OF sound job, of k st fmempty "examined_at s job (?I k)" "im_frontier st"] st' by blast
  let ?ranked = "rank_candidates cands"
  let ?window = "hydration_limit (ij_work job - reached_count st1)"
  define clipped where "clipped = (int (length ?ranked) > ?window)"
  define kept where "kept = (if clipped then take (nat ?window) ?ranked else ?ranked)"
  let ?st2 = "st1\<lparr>im_truncated := im_truncated st1 \<or> clipped\<rparr>"
  obtain f where hyd: "hydrate_candidates (port s) kept = Inr f"
    and f: "\<And>i n. fmlookup f i = Some n \<longleftrightarrow> n \<in> ?N \<and> n_id n = i \<and> i \<in> cd_id ` set kept"
    using hydrated [OF sound, of kept] by blast
  note fr = layer_fresh [OF layer]
  note ranked = rank_candidates_ids [OF fr]
  have kept_sub: "set kept \<subseteq> fmran' cands"
    unfolding kept_def ranked(1) [symmetric] by (auto dest: in_set_takeD)
  have kept_dist: "distinct (map cd_id kept)"
    using ranked(2) unfolding kept_def by (auto simp: take_map [symmetric])
  have cand: "fmlookup cands (cd_id c) = Some c" if "c \<in> set kept" for c
    using that kept_sub fr by (auto simp: fresh_cands_def elim!: fmran'E dest!: subsetD)
  have new: "\<forall>c \<in> set kept. fmlookup (im_reached ?st2) (cd_id c) = None"
    using cand fr by (auto simp: fresh_cands_def)
  obtain st3 acc where acc: "accept job f ?st2 [] kept = st3" "entered job f ?st2 [] kept st3 acc"
    using accept_spec [OF refl kept_dist new] by blast
  have run: "impact_layer (port s) (bport s) job st = Inr st3"
    unfolding impact_layer_def ex sum.case prod.case Let_def
    using hyd acc(1) by (simp add: kept_def clipped_def)
  note ac = acc(2) [unfolded entered_def]
  have accE: "c \<in> set kept" "acceptable f c" if "c \<in> set acc" for c
    using entered_sub [OF acc(2) that] by auto
  have X: "X \<subseteq> {e \<in> ?E. e_kind e \<in> ?K \<and> near_end ?f e \<in> ?B k}"
    and r1: "\<And>i. fmlookup (im_reached st1) i \<noteq> None \<longleftrightarrow> i \<in> ?B k - {?s}"
    and r2: "\<And>i r. fmlookup (im_reached st1) i = Some r \<Longrightarrow> reached_ok ?N ?E ?f ?K ?s k X i r"
    and c1: "\<And>i c. fmlookup cands i = Some c \<Longrightarrow> i \<noteq> ?s \<and> i \<notin> ?B k \<and> cd_depth c = int (Suc k) \<and>
        (counted ?N i \<longrightarrow> best_edge (into_end ?f X i) (cd_via c))"
    and seen: "\<And>e. e \<in> X \<Longrightarrow> counted ?N (far_end ?f e) \<Longrightarrow> far_end ?f e \<noteq> ?s \<Longrightarrow>
        fmlookup (im_reached st1) (far_end ?f e) \<noteq> None \<or> fmlookup cands (far_end ?f e) \<noteq> None"
    using layer unfolding layer_ok_def fst_conv snd_conv by blast+
  have entry_ok: "reached_ok ?N ?E ?f ?K ?s (Suc k) X (cd_id c) (entry f c)" if ca: "c \<in> set acc" for c
  proof -
    obtain n where n: "fmlookup f (cd_id c) = Some n" "n_kind n \<noteq> ''external''"
      using accE(2) [OF ca] by (auto simp: acceptable_def kind_external_node_def)
    then have nN: "n \<in> ?N" "n_id n = cd_id c" using f by blast+
    have cnt: "counted ?N (cd_id c)" using n nN by (auto simp: counted_def)
    have cc: "cd_id c \<noteq> ?s" "cd_id c \<notin> ?B k" "cd_depth c = int (Suc k)" "best_edge (into_end ?f X (cd_id c)) (cd_via c)"
      using c1 [OF cand [OF accE(1) [OF ca]]] cnt by blast+
    then obtain e where "e \<in> X" "far_end ?f e = cd_id c" by (auto simp: best_edge_def into_end_def)
    then have "cd_id c \<in> ?B (Suc k)" using X cnt by auto
    then have "distance_is ?N ?E ?f ?K ?s (Suc k) (cd_id c)" using cc(2) by (rule distance_new)
    then show ?thesis
      unfolding reached_ok_def using cc n nN by (auto simp: entry_def intro!: exI [of _ "Suc k"])
  qed
  have r3: "reached_ok ?N ?E ?f ?K ?s (Suc k) X i r" if "fmlookup (im_reached st3) i = Some r" for i r
  proof (cases "i \<in> cd_id ` set acc")
    case True
    then obtain c where "c \<in> set acc" "i = cd_id c" by blast
    then show ?thesis using that ac entry_ok by auto
  next
    case False
    then have "fmlookup (im_reached st1) i = Some r" using that ac by auto
    then show ?thesis by (rule reached_ok_Suc [OF r2])
  qed
  have part: "partly_reached s job (Suc k) st3"
    unfolding partly_reached_def using X r3 by (intro exI [of _ X]) auto
  have fin: "between s job (Suc k) st3" if nt: "\<not> im_truncated st3"
  proof -
    have nt1: "\<not> im_truncated st1" "\<not> clipped" "acc = filter (acceptable f) kept" using ac nt by auto
    then have kept: "set kept = fmran' cands" by (simp add: kept_def ranked(1))
    have exd: "im_expanded st1 = im_expanded st |\<union>| fset_of_list (im_frontier st)"
      "X = examined_at s job (?I k) \<union> examined_at s job (set (im_frontier st) - fset (im_expanded st))"
      using full nt1(1) by blast+
    have IB: "?I k \<subseteq> ?B k" unfolding job_inner_def by (rule inner_ball)
    have B: "?I (Suc k) = ?B k" by (simp add: job_inner_def)
    have XB: "X = examined_at s job (?I (Suc k))"
      unfolding exd(2) B using st' IB by (auto simp: examined_at_def)
    have in_cands: "i \<in> cd_id ` set acc" if i: "counted ?N i" "fmlookup cands i = Some c" for i c
    proof -
      have "c \<in> set kept" using i(2) unfolding kept by (rule fmran'I)
      moreover have id: "cd_id c = i" using fr i(2) by (simp add: fresh_cands_def)
      moreover obtain n where "n \<in> ?N" "n_id n = i" "n_kind n \<noteq> ''external''" using i(1) by (auto simp: counted_def)
      ultimately have "acceptable f c"
        using f [of i n] by (auto simp: acceptable_def kind_external_node_def)
      then show ?thesis using \<open>c \<in> set kept\<close> id by (auto simp: nt1(3))
    qed
    have full_reach: "fmlookup (im_reached st3) i \<noteq> None \<longleftrightarrow> i \<in> ?B (Suc k) - {?s}" for i
    proof
      assume "fmlookup (im_reached st3) i \<noteq> None"
      then show "i \<in> ?B (Suc k) - {?s}" using r3 reached_ok_ball by blast
    next
      assume i: "i \<in> ?B (Suc k) - {?s}"
      show "fmlookup (im_reached st3) i \<noteq> None"
      proof (cases "i \<in> cd_id ` set acc")
        case True
        then show ?thesis using ac by auto
      next
        case False
        have "fmlookup (im_reached st1) i \<noteq> None"
        proof (cases "i \<in> ?B k")
          case True
          then show ?thesis using r1 i by blast
        next
          case nb: False
          then obtain e where e: "counted ?N i" "e \<in> ?E" "e_kind e \<in> ?K" "near_end ?f e \<in> ?B k" "far_end ?f e = i"
            using i by auto
          then have "e \<in> X" unfolding XB B by (simp add: examined_at_def)
          then show ?thesis using seen [of e] e in_cands False i by auto
        qed
        then show ?thesis using ac False by auto
      qed
    qed
    have "job_layer s job (Suc k) (im_reached st3, fmempty) (examined_at s job (?I (Suc k)))"
      unfolding XB [symmetric]
    proof (rule layer_okI [OF _ full_reach r3])
      show "X \<subseteq> {e \<in> ?E. e_kind e \<in> ?K \<and> near_end ?f e \<in> ?B (Suc k)}" using X by auto
      fix e assume "e \<in> X" "counted ?N (far_end ?f e)" "far_end ?f e \<noteq> ?s"
      then have "far_end ?f e \<in> ?B (Suc k) - {?s}" using X by auto
      then show "fmlookup (im_reached st3) (far_end ?f e) \<noteq> None \<or> fmlookup fmempty (far_end ?f e) \<noteq> None"
        using full_reach by blast
    qed simp_all
    moreover have "set (im_frontier st3) = ?B (Suc k) - ?I (Suc k)"
    proof -
      have "i \<in> cd_id ` set acc \<longleftrightarrow> i \<in> ?B (Suc k) \<and> i \<notin> ?B k" for i
      proof
        assume "i \<in> cd_id ` set acc"
        then obtain c where c: "c \<in> set acc" "i = cd_id c" by blast
        then show "i \<in> ?B (Suc k) \<and> i \<notin> ?B k"
          using reached_ok_ball [OF entry_ok [OF c(1)]] c1 [OF cand [OF accE(1) [OF c(1)]]] by blast
      next
        assume i: "i \<in> ?B (Suc k) \<and> i \<notin> ?B k"
        then have "i \<noteq> ?s" using seed_in_ball by metis
        then have "fmlookup (im_reached st3) i \<noteq> None" "fmlookup (im_reached st1) i = None"
          using i full_reach r1 by blast+
        then show "i \<in> cd_id ` set acc" using ac by auto
      qed
      then show ?thesis using ac unfolding B by auto
    qed
    moreover have "fset (im_expanded st3) = ?I (Suc k)"
      using ac exd(1) st' IB unfolding B by (auto simp: fset_of_list_elem)
    moreover have "depth_at (im_depth st3) i = int (Suc k)" if fi: "i \<in> set (im_frontier st3)" for i
    proof -
      obtain c where c: "c \<in> set acc" "i = cd_id c" using fi ac by auto
      then show ?thesis using ac c1 [OF cand [OF accE(1) [OF c(1)]]] by (simp add: depth_at_def)
    qed
    moreover have "im_examined st3 = im_examined st1" using ac by simp
    ultimately show ?thesis unfolding between_def using exam by simp
  qed
  have "im_examined st3 = im_examined st1" "im_truncated st1 \<longrightarrow> im_truncated st3" using ac by auto
  then show ?thesis using run part exam tr fin by auto
qed


lemma between_partly: "between s job k st \<Longrightarrow> partly_reached s job k st"
  unfolding between_def layer_ok_def partly_reached_def fst_conv snd_conv
  by (elim conjE, intro exI [of _ "examined_at s job (job_inner s job k)"])
    (auto simp: examined_at_def)

lemma loop_spec:
  assumes sound: "sound s" and job: "ij_kinds job \<noteq> []" "ij_edge_work job \<le> max_int"
    and "between s job k st" "reached_count st \<le> ij_work job"
  shows "\<exists>st'. impact_loop (port s) (bport s) job st = Inr st' \<and> (\<exists>k. partly_reached s job k st') \<and>
    im_examined st' \<le> ij_edge_work job \<and> reached_count st' \<le> ij_work job \<and>
    (im_truncated st \<longrightarrow> im_truncated st') \<and>
    (\<not> im_truncated st' \<longrightarrow> (\<exists>k'. between s job k' st') \<and> (im_frontier st' = [] \<or> reached_count st' \<ge> ij_work job))"
  using assms(2-5)
proof (induction "port s" "bport s" job st arbitrary: k rule: impact_loop.induct)
  case (1 job st)
  show ?case
  proof (cases "im_frontier st \<noteq> [] \<and> reached_count st < ij_work job")
    case False
    then have "impact_loop (port s) (bport s) job st = Inr st" by (subst impact_loop.simps) (simp del: de_Morgan_conj)
    then show ?thesis using False 1(4,5) between_partly [OF 1(4)] by (auto simp: between_def)
  next
    case True
    obtain st1 where l: "impact_layer (port s) (bport s) job st = Inr st1" "partly_reached s job (Suc k) st1"
      "im_examined st1 \<le> ij_edge_work job" "im_truncated st \<longrightarrow> im_truncated st1"
      "\<not> im_truncated st1 \<longrightarrow> between s job (Suc k) st1"
      using layer_step [OF sound 1(2,3,4)] by blast
    have cnt: "reached_count st1 \<le> ij_work job" using layer_grows [OF l(1)] 1(5) by blast
    have eq: "impact_loop (port s) (bport s) job st =
        (if im_truncated st1 then Inr st1 else impact_loop (port s) (bport s) job st1)"
      using True l(1) by (subst impact_loop.simps) simp
    show ?thesis
    proof (cases "im_truncated st1")
      case True
      then show ?thesis using l cnt by (auto simp: eq)
    next
      case nt: False
      from 1(1) [OF True l(1) nt 1(2,3) l(5) [rule_format, OF nt] cnt] show ?thesis
        using nt l(4) by (simp add: eq)
    qed
  qed
qed

end

subsection \<open>The in-memory store\<close>

definition mem_bounded_port :: "store_error option \<Rightarrow> mem_store \<Rightarrow> bounded_port" where
  "mem_bounded_port ctx m = \<lparr>bp_incoming = mem_incoming_bounded ctx m, bp_outgoing = mem_outgoing_bounded ctx m\<rparr>"

definition indexable :: "mem_store \<Rightarrow> bool" where
  "indexable m \<longleftrightarrow> store_ok m \<and> \<not> closed m \<and> int (length (map_values (edges m))) \<le> max_int"

interpretation mb: bounded_lookup indexable "\<lambda>m. map_values (nodes m)" "\<lambda>m. map_values (edges m)"
    "mem_port None" "mem_bounded_port None"
proof (unfold_locales, goal_cases)
  case (6 m limit kinds i)
  have "int (length (edges_at e_to m i kinds)) \<le> max_int"
    using 6(1) length_filter_le [of _ "map_values (edges m)"] unfolding indexable_def edges_at_def
    by (smt (verit) of_nat_mono)
  then show ?case
    using 6 incident_bounded_eq [of m limit e_to i kinds True]
    by (simp add: indexable_def mem_bounded_port_def mem_incoming_bounded_def edges_at_def kind_matches_iff)
next
  case (7 m limit kinds i)
  have "int (length (edges_at e_from m i kinds)) \<le> max_int"
    using 7(1) length_filter_le [of _ "map_values (edges m)"] unfolding indexable_def edges_at_def
    by (smt (verit) of_nat_mono)
  then show ?case
    using 7 incident_bounded_eq [of m limit e_from i kinds False]
    by (simp add: indexable_def mem_bounded_port_def mem_outgoing_bounded_def edges_at_def kind_matches_iff)
qed (simp_all add: indexable_def mg.by_id mg.into mg.out_of mg.nodes_once mg.edges_once)


definition impact_reach :: "mem_store \<Rightarrow> analysis_params \<Rightarrow> nat \<Rightarrow> node_id set" where
  "impact_reach m p =
     ball (fmran' (nodes m)) (fmran' (edges m)) (direction_of p = forward) (set (fst (impact_kinds p))) (ap_symbol p)"

definition impact_edges :: "mem_store \<Rightarrow> analysis_params \<Rightarrow> node_id \<Rightarrow> edge set" where
  "impact_edges m p i =
     {e \<in> fmran' (edges m). e_kind e \<in> set (fst (impact_kinds p)) \<and> far_end (direction_of p = forward) e = i}"

definition impact_row :: "mem_store \<Rightarrow> analysis_params \<Rightarrow> reached_node \<Rightarrow> bool" where
  "impact_row m p x \<longleftrightarrow>
     (let i = rn_id (rd_node x) in
      i \<noteq> ap_symbol p \<and>
      (\<exists>d. rd_depth x = int d \<and> i \<in> impact_reach m p d \<and> (\<forall>j < d. i \<notin> impact_reach m p j)) \<and>
      (\<exists>n. fmlookup (nodes m) i = Some n \<and> n_kind n \<noteq> ''external'' \<and> rd_node x = node_to_result n) \<and>
      (\<exists>e \<in> impact_edges m p i. rd_via x = edge_to_result e))"

lemma max_nodes_pos: "0 < max_nodes_of p"
  by (simp add: max_nodes_of_def default_max_nodes_def)

lemma kind_limit_bounds: "0 < mx \<Longrightarrow> 0 < kind_limit mx \<and> kind_limit mx \<le> 16"
  by (simp add: kind_limit_def impact_max_kinds_def impact_kind_budget_factor_def)

lemma impact_kinds_ok: "fst (impact_kinds p) \<noteq> [] \<and> length (fst (impact_kinds p)) \<le> 16"
proof (cases "ap_kinds p = []")
  case True
  then show ?thesis by (simp add: impact_kinds_def dependency_kinds_def)
next
  case False
  note b = kind_limit_bounds [OF max_nodes_pos [of p]]
  then have "canonical_impact_kinds (ap_kinds p) (kind_limit (max_nodes_of p)) =
      (take (nat (kind_limit (max_nodes_of p))) (sorted_list_of_set (set (ap_kinds p))),
       int (card (set (ap_kinds p))) > kind_limit (max_nodes_of p))"
    by (intro conjunct1 [OF canonical_kinds_eq]) (simp_all add: max_int_def)
  then show ?thesis using False b by (auto simp: impact_kinds_def)
qed

lemma edge_work_bounds: "0 < mx \<Longrightarrow> 0 < edge_work_limit mx \<and> edge_work_limit mx \<le> max_int"
  by (auto simp: edge_work_limit_def impact_edge_work_multiplier_def max_int_def)

lemma work_bounds: "0 < mx \<Longrightarrow> 0 < work_limit mx \<and> work_limit mx \<le> max_int"
  by (auto simp: work_limit_def impact_work_multiplier_def max_int_def)

lemma job_fields [simp]:
  "ij_seed (job_of p) = ap_symbol p" "ij_forward (job_of p) = (direction_of p = forward)"
  "ij_kinds (job_of p) = fst (impact_kinds p)" "ij_work (job_of p) = work_limit (max_nodes_of p)"
  "ij_edge_work (job_of p) = edge_work_limit (max_nodes_of p)"
  by (simp_all add: job_of_def)

lemma start_between: "mb.between m (job_of p) 0 (impact_start p)"
  using edge_work_bounds [OF max_nodes_pos [of p]]
  by (auto simp: mb.between_def mb.job_inner_def mb.examined_at_def impact_start_def depth_at_def intro!: layer_okI)

lemma sort_reached_set [simp]: "set (sort_reached ns) = set ns" "length (sort_reached ns) = length ns"
  by (simp_all add: sort_reached_def)

lemma impact_runs:
  assumes "indexable m"
  shows "\<exists>st. impact_loop (mem_port None m) (mem_bounded_port None m) (job_of p) (impact_start p) = Inr st \<and>
    (\<exists>k. mb.partly_reached m (job_of p) k st) \<and> im_examined st \<le> edge_work_limit (max_nodes_of p) \<and>
    reached_count st \<le> work_limit (max_nodes_of p) \<and>
    (\<not> im_truncated st \<longrightarrow> (\<exists>k. mb.between m (job_of p) k st) \<and>
       (im_frontier st = [] \<or> reached_count st \<ge> work_limit (max_nodes_of p)))"
proof -
  have "reached_count (impact_start p) = 0" by (simp add: impact_start_def reached_count_def)
  then show ?thesis
    using mb.loop_spec [OF assms _ _ start_between [of m p]] impact_kinds_ok [of p]
      edge_work_bounds [OF max_nodes_pos [of p]] work_bounds [OF max_nodes_pos [of p]]
    by simp blast
qed

lemma partly_rows:
  assumes ok: "indexable m" and part: "mb.partly_reached m (job_of p) k st"
    and x: "fmlookup (im_reached st) i = Some x"
  shows "rn_id (rd_node x) = i \<and> impact_row m p x \<and> rd_depth x \<le> int k"
proof -
  have kn: "keyed n_id (nodes m)" using ok by (simp add: indexable_def store_keys)
  obtain X where kX: "X \<subseteq> fmran' (edges m)" "\<forall>e \<in> X. e_kind e \<in> set (fst (impact_kinds p))"
    and h: "reached_ok (fmran' (nodes m)) (fmran' (edges m)) (direction_of p = forward) (set (fst (impact_kinds p)))
       (ap_symbol p) k X i x"
    using part x unfolding mb.partly_reached_def set_map_values job_fields by blast
  obtain n where n: "n \<in> fmran' (nodes m)" "n_id n = i" "n_kind n \<noteq> ''external''" "rd_node x = node_to_result n"
    using h by (auto simp: reached_ok_def)
  have "fmlookup (nodes m) i = Some n" using n(1,2) keyedD [OF kn] by (auto elim!: fmran'E)
  moreover obtain e where "e \<in> X" "far_end (direction_of p = forward) e = i" "rd_via x = edge_to_result e"
    using h by (auto simp: reached_ok_def best_edge_def into_end_def)
  ultimately show ?thesis
    using h n kX unfolding impact_row_def Let_def
    by (auto simp: reached_ok_def distance_is_def impact_reach_def impact_edges_def)
qed

lemma whole_reach:
  assumes bt: "mb.between m (job_of p) k st" and fr: "im_frontier st = []"
  shows "fmlookup (im_reached st) i \<noteq> None \<longleftrightarrow> i \<in> (\<Union>k. impact_reach m p k) - {ap_symbol p}"
    and "fmlookup (im_reached st) i = Some x \<Longrightarrow> best_edge
      {e \<in> impact_edges m p i. near_end (direction_of p = forward) e \<in> (\<Union>k. impact_reach m p k)} (rd_via x)"
proof -
  let ?B = "ball (fmran' (nodes m)) (fmran' (edges m)) (direction_of p = forward) (set (fst (impact_kinds p))) (ap_symbol p)"
  note b = bt [unfolded mb.between_def set_map_values job_fields mb.job_inner_def]
  have "?B k \<subseteq> inner (fmran' (nodes m)) (fmran' (edges m)) (direction_of p = forward)
      (set (fst (impact_kinds p))) (ap_symbol p) k" using b fr by auto
  then have inner: "inner (fmran' (nodes m)) (fmran' (edges m)) (direction_of p = forward)
      (set (fst (impact_kinds p))) (ap_symbol p) k = ?B k" using inner_ball by blast
  then obtain l where l: "k = Suc l" using seed_in_ball by (cases k) fastforce+
  have U: "(\<Union>k. impact_reach m p k) = ?B k"
    unfolding impact_reach_def using inner ball_settles [of _ _ _ _ _ l] unfolding l by simp
  have ex: "mb.examined_at m (job_of p) (?B k) =
      {e \<in> fmran' (edges m). e_kind e \<in> set (fst (impact_kinds p)) \<and> near_end (direction_of p = forward) e \<in> ?B k}"
    by (simp add: mb.examined_at_def set_map_values)
  note layer = b [THEN conjunct1, unfolded inner ex layer_ok_def fst_conv]
  show "fmlookup (im_reached st) i \<noteq> None \<longleftrightarrow> i \<in> (\<Union>k. impact_reach m p k) - {ap_symbol p}"
    unfolding U using layer by blast
  show "best_edge {e \<in> impact_edges m p i. near_end (direction_of p = forward) e \<in> (\<Union>k. impact_reach m p k)} (rd_via x)"
    if "fmlookup (im_reached st) i = Some x"
  proof -
    have "{e \<in> impact_edges m p i. near_end (direction_of p = forward) e \<in> ?B k} =
       into_end (direction_of p = forward) {e \<in> fmran' (edges m). e_kind e \<in> set (fst (impact_kinds p)) \<and>
          near_end (direction_of p = forward) e \<in> ?B k} i"
      by (auto simp: into_end_def impact_edges_def)
    then show ?thesis unfolding U using layer that by (auto simp: reached_ok_def)
  qed
qed

lemma impact_answers:
  assumes ok: "indexable m" and seed: "ap_symbol p |\<in>| fmdom (nodes m)"
    and run: "impact_loop (mem_port None m) (mem_bounded_port None m) (job_of p) (impact_start p) = Inr st"
  shows "impact_analyze (Some (mem_port None m)) (Some (mem_bounded_port None m)) p = Inr (finish_impact p st)"
proof -
  have kn: "keyed n_id (nodes m)" using ok by (simp add: indexable_def store_keys)
  obtain n0 where "fmlookup (nodes m) (ap_symbol p) = Some n0" using seed by (auto simp: fmlookup_dom_iff)
  then have "n0 \<in> fmran' (nodes m)" "n_id n0 = ap_symbol p" using keyedD [OF kn] by (auto intro: fmran'I)
  then have "lp_nodes_by_id (mem_port None m) [ap_symbol p] \<noteq> Inr []"
    "\<exists>ns. lp_nodes_by_id (mem_port None m) [ap_symbol p] = Inr ns"
    using mb.by_id [OF ok, of "[ap_symbol p]"] by (auto simp: filter_empty_conv set_map_values)
  then show ?thesis using run by (auto simp: impact_analyze_def)
qed

definition impact_key :: "reached_node \<Rightarrow> int \<times> node_id" where
  "impact_key x = (tier_rank (re_tier (rd_via x)), rn_id (rd_node x))"

text \<open>
  C8: over a sound store the impact analyzer answers for every stored symbol.  It returns at most
  the requested number of nodes, in order; each is a stored, non-external node other than the symbol,
  under its exact distance along the requested kinds and direction, reached by a stored edge of
  those kinds.  When the answer is not marked truncated it is the whole reachable set, and each
  node carries the best of all the edges that lead to it from the symbol or the set.
\<close>

theorem impact_exact:
  assumes ok: "indexable m" and seed: "ap_symbol p |\<in>| fmdom (nodes m)"
  shows "\<exists>r. impact_analyze (Some (mem_port None m)) (Some (mem_bounded_port None m)) p = Inr r \<and>
    int (length (an_nodes r)) \<le> max_nodes_of p \<and> sorted (map impact_key (an_nodes r)) \<and>
    (\<forall>x \<in> set (an_nodes r). impact_row m p x) \<and>
    (\<not> an_truncated r \<longrightarrow>
       (\<lambda>x. rn_id (rd_node x)) ` set (an_nodes r) = (\<Union>k. impact_reach m p k) - {ap_symbol p} \<and>
       (\<forall>x \<in> set (an_nodes r). best_edge
          {e \<in> impact_edges m p (rn_id (rd_node x)). near_end (direction_of p = forward) e \<in> (\<Union>k. impact_reach m p k)}
          (rd_via x)))"
proof -
  obtain st k where run: "impact_loop (mem_port None m) (mem_bounded_port None m) (job_of p) (impact_start p) = Inr st"
    and part: "mb.partly_reached m (job_of p) k st"
    and full: "\<not> im_truncated st \<longrightarrow> (\<exists>k. mb.between m (job_of p) k st) \<and>
       (im_frontier st = [] \<or> reached_count st \<ge> work_limit (max_nodes_of p))"
    using impact_runs [OF ok, of p] by blast
  let ?r = "finish_impact p st"
  note eq = impact_answers [OF ok seed run]
  have sub: "set (an_nodes ?r) \<subseteq> fmran' (im_reached st)"
    by (auto simp: finish_impact_def Let_def set_map_values dest: in_set_takeD)
  have look: "fmlookup (im_reached st) (rn_id (rd_node x)) = Some x \<and> impact_row m p x" if xr: "x \<in> set (an_nodes ?r)" for x
  proof -
    obtain i where i: "fmlookup (im_reached st) i = Some x" using xr sub by (auto elim!: fmran'E dest!: subsetD)
    then show ?thesis using partly_rows [OF ok part i] by simp
  qed
  have len: "int (length (an_nodes ?r)) \<le> max_nodes_of p"
    using max_nodes_pos [of p] by (simp add: finish_impact_def Let_def)
  have srt: "sorted (map impact_key (an_nodes ?r))"
    by (simp add: finish_impact_def Let_def sort_reached_def impact_key_def [abs_def] take_map [symmetric] sorted_wrt_take)
  have whole: "(\<lambda>x. rn_id (rd_node x)) ` set (an_nodes ?r) = (\<Union>k. impact_reach m p k) - {ap_symbol p} \<and>
       (\<forall>x \<in> set (an_nodes ?r). best_edge
          {e \<in> impact_edges m p (rn_id (rd_node x)). near_end (direction_of p = forward) e \<in> (\<Union>k. impact_reach m p k)}
          (rd_via x))"
    if nt: "\<not> an_truncated ?r"
  proof -
    have "\<not> im_truncated st" "im_frontier st = []" and all: "set (an_nodes ?r) = fmran' (im_reached st)"
      using nt full by (auto simp: finish_impact_def Let_def set_map_values)
    then obtain k where k: "mb.between m (job_of p) k st" "im_frontier st = []" using full by blast
    note w = whole_reach [OF k]
    have "i \<in> (\<lambda>x. rn_id (rd_node x)) ` set (an_nodes ?r) \<longleftrightarrow> fmlookup (im_reached st) i \<noteq> None" for i
    proof
      assume "i \<in> (\<lambda>x. rn_id (rd_node x)) ` set (an_nodes ?r)"
      then show "fmlookup (im_reached st) i \<noteq> None" using look by auto
    next
      assume "fmlookup (im_reached st) i \<noteq> None"
      then obtain x where x: "fmlookup (im_reached st) i = Some x" by blast
      then show "i \<in> (\<lambda>x. rn_id (rd_node x)) ` set (an_nodes ?r)"
        unfolding all using partly_rows [OF ok part x] by (auto intro: fmran'I)
    qed
    then show ?thesis unfolding w(1) using look w(2) by blast
  qed
  show ?thesis using eq len srt look whole by blast
qed


text \<open>
  C29: whatever the graph, a request costs at most sixteen times its node bound in examined edges,
  keeps at most eight times that bound in nodes, and probes at most sixteen kinds; the traversal
  always ends with an answer.
\<close>

theorem impact_budgets:
  assumes "indexable m"
  shows "\<exists>st. impact_loop (mem_port None m) (mem_bounded_port None m) (job_of p) (impact_start p) = Inr st \<and>
    im_examined st \<le> 16 * max_nodes_of p \<and> reached_count st \<le> 8 * max_nodes_of p \<and>
    length (ij_kinds (job_of p)) \<le> 16"
proof -
  have "edge_work_limit (max_nodes_of p) \<le> 16 * max_nodes_of p" "work_limit (max_nodes_of p) \<le> 8 * max_nodes_of p"
    by (auto simp: edge_work_limit_def work_limit_def impact_edge_work_multiplier_def impact_work_multiplier_def max_int_def)
  then show ?thesis using impact_runs [OF assms, of p] impact_kinds_ok [of p] by (force intro: order_trans)
qed

text \<open>
  a request that names more distinct kinds than the kind budget admits is answered with direct
  neighbours only: the flag that reports the dropped kinds also stops the traversal after its
  first layer.
\<close>

theorem cut_kinds_stop:
  assumes ok: "indexable m" and cut: "snd (impact_kinds p)"
    and run: "impact_analyze (Some (mem_port None m)) (Some (mem_bounded_port None m)) p = Inr r"
    and found: "an_outcome r \<noteq> outcome_not_found"
  shows "an_truncated r \<and> (\<forall>x \<in> set (an_nodes r). rd_depth x \<le> 1)"
proof -
  let ?st = "impact_start p"
  obtain st1 where l: "impact_layer (mem_port None m) (mem_bounded_port None m) (job_of p) ?st = Inr st1"
    "mb.partly_reached m (job_of p) (Suc 0) st1" "im_truncated st1"
    using mb.layer_step [OF ok _ _ start_between [of m p]] impact_kinds_ok [of p]
      edge_work_bounds [OF max_nodes_pos [of p]] cut by (auto simp: impact_start_def)
  have "reached_count ?st = 0" by (simp add: impact_start_def reached_count_def)
  then have "im_frontier ?st \<noteq> [] \<and> reached_count ?st < ij_work (job_of p)"
    using work_bounds [OF max_nodes_pos [of p]] by (simp add: impact_start_def)
  then have "impact_loop (mem_port None m) (mem_bounded_port None m) (job_of p) ?st = Inr st1"
    using l by (subst impact_loop.simps) simp
  then have r: "r = finish_impact p st1"
    using run found by (auto simp: impact_analyze_def not_found_analysis_def split: sum.splits if_splits)
  have "rd_depth x \<le> 1" if "x \<in> set (an_nodes r)" for x
  proof -
    have "x \<in> fmran' (im_reached st1)"
      using that unfolding r by (auto simp: finish_impact_def Let_def set_map_values dest: in_set_takeD split: if_splits)
    then show ?thesis using partly_rows [OF ok l(2)] by (auto elim!: fmran'E)
  qed
  moreover have "an_truncated r" using l(3) by (simp add: r finish_impact_def Let_def)
  ultimately show ?thesis by blast
qed


subsection \<open>Witnesses\<close>

definition impact_request :: "string list \<Rightarrow> int \<Rightarrow> analysis_params" where
  "impact_request kinds limit =
     \<lparr>ap_symbol = n_id (fn_node ''g''), ap_target = [], ap_concept = [], ap_direction = [], ap_kinds = kinds,
      ap_max_nodes = limit, ap_max_paths = 0\<rparr>"

lemma small_indexable: "indexable (small_store (Finite 1))"
  using small_store_ok small_store_maps(3) small_values [of "Finite 1"] by (simp add: indexable_def max_int_def)

lemma small_seed: "ap_symbol (impact_request ks l) |\<in>| fmdom (nodes (small_store (Finite 1)))"
  by (simp add: impact_request_def small_store_maps)

theorem impact_exact_witness:
  "\<exists>r. impact_analyze (Some (mem_port None (small_store (Finite 1)))) (Some (mem_bounded_port None (small_store (Finite 1))))
     (impact_request [] 0) = Inr r \<and> (\<forall>x \<in> set (an_nodes r). impact_row (small_store (Finite 1)) (impact_request [] 0) x)"
  using impact_exact [OF small_indexable small_seed, of "[]" 0] by blast

theorem impact_budgets_witness:
  "\<exists>st. impact_loop (mem_port None (small_store (Finite 1))) (mem_bounded_port None (small_store (Finite 1)))
     (job_of (impact_request [] 0)) (impact_start (impact_request [] 0)) = Inr st \<and> im_examined st \<le> 16384"
  using impact_budgets [OF small_indexable, of "impact_request [] 0"]
  by (auto simp: impact_request_def max_nodes_of_def default_max_nodes_def)

theorem cut_kinds_stop_witness:
  "\<exists>r. impact_analyze (Some (mem_port None (small_store (Finite 1)))) (Some (mem_bounded_port None (small_store (Finite 1))))
     (impact_request [''calls'', ''defines'', ''references''] 1) = Inr r \<and> an_truncated r"
proof -
  let ?p = "impact_request [''calls'', ''defines'', ''references''] 1"
  obtain st where "impact_loop (mem_port None (small_store (Finite 1))) (mem_bounded_port None (small_store (Finite 1)))
      (job_of ?p) (impact_start ?p) = Inr st"
    using impact_runs [OF small_indexable] by blast
  note run = impact_answers [OF small_indexable small_seed this]
  have "kind_limit (max_nodes_of ?p) = 2"
    by (simp add: kind_limit_def max_nodes_of_def impact_request_def impact_kind_budget_factor_def impact_max_kinds_def max_int_def)
  then have cut: "snd (impact_kinds ?p)"
    using canonical_kinds_eq [of 2 "[''calls'', ''defines'', ''references'']"]
    by (simp add: impact_kinds_def impact_request_def max_int_def)
  have "an_outcome (finish_impact ?p st) \<noteq> outcome_not_found"
    by (simp add: finish_impact_def Let_def outcome_found_def outcome_empty_def outcome_not_found_def)
  then show ?thesis using cut_kinds_stop [OF small_indexable cut run] run by blast
qed

end
