(* ===== verification/CallChain.thy ===== *)
theory CallChain
  imports ImpactProps
begin

text \<open>
  The call-chain analyzer of \<open>engine/analysis/callchain.go\<close> with the path order of \<open>serialize.go\<close>, and the
  proof that its capped level-by-level search lists the simple call chains shortest first.  It reads
  through \<open>query.Reader\<close>, a record of the read functions the analyzers use.
\<close>

record reader_port =
  rp_get_node :: "node_id \<Rightarrow> store_error + node"
  rp_nodes :: "store_query \<Rightarrow> store_error + node list"
  rp_edges :: "store_query \<Rightarrow> store_error + edge list"

definition mem_reader :: "(string \<Rightarrow> string) \<Rightarrow> store_error option \<Rightarrow> mem_store \<Rightarrow> reader_port" where
  "mem_reader lower ctx m = \<lparr>rp_get_node = mem_get_node ctx m, rp_nodes = mem_nodes lower ctx m, rp_edges = mem_edges lower ctx m\<rparr>"

subsection \<open>Call chains\<close>

definition default_max_paths_chain :: int where "default_max_paths_chain = 10"
definition default_max_chain_depth :: nat where "default_max_chain_depth = 8"

definition sort_paths :: "result_edge list list \<Rightarrow> result_edge list list" where
  "sort_paths ps = sort_key (\<lambda>p. (length p, map re_id p)) ps"

text \<open>The sorted adjacency of a node.\<close>

definition chain_adj :: "edge list \<Rightarrow> node_id \<Rightarrow> result_edge list" where
  "chain_adj es cur = sort_key re_id (map edge_to_result (filter (\<lambda>e. e_from e = cur) es))"

record path_state =
  ps_cur :: node_id
  ps_edges :: "result_edge list"
  ps_visited :: "node_id fset"

type_synonym chain_acc = "result_edge list list \<times> path_state list"

definition extend :: "result_edge list \<Rightarrow> result_edge \<Rightarrow> result_edge list" where
  "extend path e = path @ [e]"

fun chain_neighbors :: "node_id \<Rightarrow> int \<Rightarrow> path_state \<Rightarrow> result_edge list \<Rightarrow> chain_acc \<Rightarrow> chain_acc" where
  "chain_neighbors target mx ps [] acc = acc"
| "chain_neighbors target mx ps (nb # nbs) (found, next_level) =
     (if int (length found) \<ge> mx then (found, next_level)
      else if re_to nb = target then chain_neighbors target mx ps nbs (found @ [extend (ps_edges ps) nb], next_level)
      else if re_to nb |\<in>| ps_visited ps then chain_neighbors target mx ps nbs (found, next_level)
      else chain_neighbors target mx ps nbs
             (found, next_level @ [\<lparr>ps_cur = re_to nb, ps_edges = extend (ps_edges ps) nb,
                                    ps_visited = finsert (re_to nb) (ps_visited ps)\<rparr>]))"

fun chain_level :: "(node_id \<Rightarrow> result_edge list) \<Rightarrow> node_id \<Rightarrow> int \<Rightarrow> path_state list \<Rightarrow> chain_acc \<Rightarrow> chain_acc" where
  "chain_level adj target mx [] acc = acc"
| "chain_level adj target mx (ps # pss) (found, next_level) =
     (if int (length found) \<ge> mx then (found, next_level)
      else chain_level adj target mx pss (chain_neighbors target mx ps (adj (ps_cur ps)) (found, next_level)))"

fun chain_levels ::
  "(node_id \<Rightarrow> result_edge list) \<Rightarrow> node_id \<Rightarrow> int \<Rightarrow> nat \<Rightarrow> path_state list \<Rightarrow> result_edge list list
     \<Rightarrow> result_edge list list" where
  "chain_levels adj target mx 0 frontier found = found"
| "chain_levels adj target mx (Suc d) frontier found =
     (if frontier = [] \<or> int (length found) \<ge> mx then found
      else case chain_level adj target mx frontier (found, []) of
             (found', next_level) \<Rightarrow> chain_levels adj target mx d next_level found')"

definition max_paths_of :: "analysis_params \<Rightarrow> int" where
  "max_paths_of p = (if ap_max_paths p \<le> 0 then default_max_paths_chain else ap_max_paths p)"

definition chain_start :: "node_id \<Rightarrow> path_state" where
  "chain_start s = \<lparr>ps_cur = s, ps_edges = [], ps_visited = {|s|}\<rparr>"

definition call_chain :: "reader_port \<Rightarrow> analysis_params \<Rightarrow> store_error + analysis" where
  "call_chain r p =
     (case rp_get_node r (ap_symbol p) of
        Inl err \<Rightarrow> if err = ErrNotFound then Inr (not_found_analysis ''call-chain'' (ap_symbol p)) else Inl err
      | Inr source \<Rightarrow>
          (case (if ap_target p = [] then Inr None else map_sum id Some (rp_get_node r (ap_target p))) of
             Inl err \<Rightarrow> if err = ErrNotFound then Inr (not_found_analysis ''call-chain'' (ap_symbol p)) else Inl err
           | Inr target \<Rightarrow>
               (case rp_edges r \<lparr>q_node_kind = [], q_edge_kind = ''calls'', q_text = []\<rparr> of
                  Inl err \<Rightarrow> Inl err
                | Inr es \<Rightarrow>
                    (let found = (if ap_target p = [] then []
                                  else chain_levels (chain_adj es) (ap_target p) (max_paths_of p) default_max_chain_depth
                                         [chain_start (ap_symbol p)] [])
                     in Inr \<lparr>an_analyzer = ''call-chain'',
                             an_outcome = (if found = [] then outcome_empty else outcome_found),
                             an_symbol = ap_symbol p, an_truncated = False, an_nodes = [],
                             an_paths = sort_paths found, an_locations = []\<rparr>))))"

subsection \<open>The levels without the cap\<close>

definition hits_of :: "(node_id \<Rightarrow> result_edge list) \<Rightarrow> node_id \<Rightarrow> path_state \<Rightarrow> result_edge list list" where
  "hits_of adj t ps = map (extend (ps_edges ps)) (filter (\<lambda>e. re_to e = t) (adj (ps_cur ps)))"

definition step_path :: "path_state \<Rightarrow> result_edge \<Rightarrow> path_state" where
  "step_path ps e = \<lparr>ps_cur = re_to e, ps_edges = extend (ps_edges ps) e, ps_visited = finsert (re_to e) (ps_visited ps)\<rparr>"

definition opens_of :: "(node_id \<Rightarrow> result_edge list) \<Rightarrow> node_id \<Rightarrow> path_state \<Rightarrow> path_state list" where
  "opens_of adj t ps = map (step_path ps) (filter (\<lambda>e. re_to e \<noteq> t \<and> re_to e |\<notin>| ps_visited ps) (adj (ps_cur ps)))"

fun levels_from :: "(node_id \<Rightarrow> result_edge list) \<Rightarrow> node_id \<Rightarrow> nat \<Rightarrow> path_state list \<Rightarrow> result_edge list list" where
  "levels_from adj t 0 Q = []"
| "levels_from adj t (Suc d) Q = concat (map (hits_of adj t) Q) @ levels_from adj t d (concat (map (opens_of adj t) Q))"

lemma neighbors_capped:
  assumes "chain_neighbors t (int mx) ps nbs (found, nx) = (found', nx')" "length found \<le> mx"
  defines "H \<equiv> map (extend (ps_edges ps)) (filter (\<lambda>e. re_to e = t) nbs)"
    and "P \<equiv> map (step_path ps) (filter (\<lambda>e. re_to e \<noteq> t \<and> re_to e |\<notin>| ps_visited ps) nbs)"
  shows "found' = take mx (found @ H) \<and> (length (found @ H) < mx \<longrightarrow> nx' = nx @ P)"
  using assms(1,2) unfolding H_def P_def
proof (induction nbs arbitrary: found nx)
  case (Cons nb nbs)
  show ?case
  proof (cases "int (length found) \<ge> int mx")
    case True
    then show ?thesis using Cons.prems by simp
  next
    case False
    consider "re_to nb = t" | "re_to nb \<noteq> t" "re_to nb |\<in>| ps_visited ps" | "re_to nb \<noteq> t" "re_to nb |\<notin>| ps_visited ps"
      by blast
    then show ?thesis
    proof cases
      case 1
      then show ?thesis
        using Cons.prems False Cons.IH [of "found @ [extend (ps_edges ps) nb]" nx] by simp
    next
      case 2
      then show ?thesis using Cons.prems False Cons.IH [of found nx] by simp
    next
      case 3
      then show ?thesis
        using Cons.prems False Cons.IH [of found "nx @ [step_path ps nb]"] by (simp add: step_path_def)
    qed
  qed
qed simp

lemma level_capped:
  assumes "chain_level adj t (int mx) Q (found, nx) = (found', nx')" "length found \<le> mx"
  shows "found' = take mx (found @ concat (map (hits_of adj t) Q)) \<and>
    (length (found @ concat (map (hits_of adj t) Q)) < mx \<longrightarrow> nx' = nx @ concat (map (opens_of adj t) Q))"
  using assms
proof (induction Q arbitrary: found nx)
  case (Cons ps Q)
  show ?case
  proof (cases "int (length found) \<ge> int mx")
    case True
    then show ?thesis using Cons.prems by simp
  next
    case False
    obtain f1 n1 where n: "chain_neighbors t (int mx) ps (adj (ps_cur ps)) (found, nx) = (f1, n1)" by fastforce
    note c = neighbors_capped [OF n Cons.prems(2), folded hits_of_def opens_of_def]
    have r: "chain_level adj t (int mx) Q (f1, n1) = (found', nx')" using Cons.prems False n by simp
    have l: "length f1 \<le> mx" using c by simp
    note ih = Cons.IH [OF r l]
    show ?thesis
    proof (cases "length (found @ hits_of adj t ps) < mx")
      case True
      then have "f1 = found @ hits_of adj t ps" "n1 = nx @ opens_of adj t ps" using c by simp_all
      then show ?thesis using ih by simp
    next
      case full: False
      then have "f1 = take mx (found @ hits_of adj t ps)" using c by simp
      then show ?thesis using ih full Cons.prems(2) by (simp add: min_absorb1)
    qed
  qed
qed simp

lemma levels_capped:
  "length found \<le> mx \<Longrightarrow> chain_levels adj t (int mx) d Q found = take mx (found @ levels_from adj t d Q)"
proof (induction d arbitrary: Q found)
  case (Suc d)
  show ?case
  proof (cases "Q = [] \<or> int (length found) \<ge> int mx")
    case True
    have "levels_from adj t k [] = []" for k by (induction k) simp_all
    then show ?thesis using True Suc.prems by auto
  next
    case False
    obtain f1 n1 where l: "chain_level adj t (int mx) Q (found, []) = (f1, n1)" by fastforce
    note c = level_capped [OF l Suc.prems]
    have "length f1 \<le> mx" using c by simp
    note ih = Suc.IH [OF this, of n1]
    show ?thesis
    proof (cases "length (found @ concat (map (hits_of adj t) Q)) < mx")
      case True
      then show ?thesis using False l c ih by simp
    next
      case full: False
      then have "f1 = take mx (found @ concat (map (hits_of adj t) Q))" "length f1 = mx" using c by simp_all
      then show ?thesis using False l ih full by simp
    qed
  qed
qed simp


subsection \<open>Chains\<close>

text \<open>
  The reference: a walk over the edges \<open>R\<close>, and a chain, a walk whose inner nodes are distinct and are neither
  the source nor the target.
\<close>

fun walks :: "result_edge set \<Rightarrow> node_id \<Rightarrow> result_edge list \<Rightarrow> node_id \<Rightarrow> bool" where
  "walks R x [] y \<longleftrightarrow> x = y"
| "walks R x (e # es) y \<longleftrightarrow> e \<in> R \<and> re_from e = x \<and> walks R (re_to e) es y"

lemma walks_snoc: "walks R x (p @ [e]) y \<longleftrightarrow> walks R x p (re_from e) \<and> e \<in> R \<and> re_to e = y"
  by (induction R x p y rule: walks.induct) auto

lemma walks_end: "walks R x p y \<Longrightarrow> walks R x p z \<Longrightarrow> y = z"
  by (induction R x p y rule: walks.induct) auto

definition is_chain :: "result_edge set \<Rightarrow> node_id \<Rightarrow> node_id \<Rightarrow> result_edge list \<Rightarrow> bool" where
  "is_chain R s t p \<longleftrightarrow> p \<noteq> [] \<and> walks R s p t \<and>
     distinct (s # map re_to (butlast p)) \<and> t \<notin> set (map re_to (butlast p))"

definition open_path :: "result_edge set \<Rightarrow> node_id \<Rightarrow> node_id \<Rightarrow> nat \<Rightarrow> path_state \<Rightarrow> bool" where
  "open_path R s t d ps \<longleftrightarrow> length (ps_edges ps) = d \<and> walks R s (ps_edges ps) (ps_cur ps) \<and>
     ps_visited ps = fset_of_list (s # map re_to (ps_edges ps)) \<and>
     distinct (s # map re_to (ps_edges ps)) \<and> t \<notin> set (map re_to (ps_edges ps))"

text \<open>The states of a level: one for each open path of its length.\<close>

definition level_states :: "result_edge set \<Rightarrow> node_id \<Rightarrow> node_id \<Rightarrow> nat \<Rightarrow> path_state list \<Rightarrow> bool" where
  "level_states R s t d Q \<longleftrightarrow> (\<forall>ps. ps \<in> set Q \<longleftrightarrow> open_path R s t d ps) \<and> distinct Q"

definition adj_ok :: "result_edge set \<Rightarrow> (node_id \<Rightarrow> result_edge list) \<Rightarrow> bool" where
  "adj_ok R adj \<longleftrightarrow> (\<forall>x. set (adj x) = {e \<in> R. re_from e = x} \<and> distinct (adj x))"

lemma open_path_edges: "open_path R s t d ps \<Longrightarrow> open_path R s t d qs \<Longrightarrow> ps_edges ps = ps_edges qs \<Longrightarrow> ps = qs"
proof (rule path_state.equality)
  assume a: "open_path R s t d ps" "open_path R s t d qs" "ps_edges ps = ps_edges qs"
  then show "ps_cur ps = ps_cur qs" unfolding open_path_def by (metis walks_end)
qed (simp_all add: open_path_def)

lemma open_step:
  assumes adj: "adj_ok R adj" and ps: "open_path R s t d ps"
  shows "qs \<in> set (opens_of adj t ps) \<longleftrightarrow>
    open_path R s t (Suc d) qs \<and> ps_edges qs \<noteq> [] \<and> butlast (ps_edges qs) = ps_edges ps"
proof
  assume "qs \<in> set (opens_of adj t ps)"
  then obtain e where e: "e \<in> set (adj (ps_cur ps))" "re_to e \<noteq> t" "re_to e |\<notin>| ps_visited ps" "qs = step_path ps e"
    by (auto simp: opens_of_def)
  then have "e \<in> R" "re_from e = ps_cur ps" using adj by (auto simp: adj_ok_def)
  then show "open_path R s t (Suc d) qs \<and> ps_edges qs \<noteq> [] \<and> butlast (ps_edges qs) = ps_edges ps"
    using ps e by (auto simp: open_path_def step_path_def extend_def walks_snoc fset_of_list_elem)
next
  assume q: "open_path R s t (Suc d) qs \<and> ps_edges qs \<noteq> [] \<and> butlast (ps_edges qs) = ps_edges ps"
  define e where "e = last (ps_edges qs)"
  have qe: "ps_edges qs = ps_edges ps @ [e]" using q by (metis append_butlast_last_id e_def)
  note o = conjunct1 [OF q, unfolded open_path_def qe]
  have w: "walks R s (ps_edges ps) (re_from e)" "e \<in> R" "re_to e = ps_cur qs"
    using o by (simp_all add: walks_snoc)
  have "re_from e = ps_cur ps" using w(1) ps by (auto simp: open_path_def intro: walks_end)
  then have "e \<in> set (adj (ps_cur ps))" using adj w(2) by (simp add: adj_ok_def)
  moreover have "re_to e \<noteq> t" "re_to e |\<notin>| ps_visited ps"
    using o ps by (auto simp: open_path_def fset_of_list_elem)
  moreover have "qs = step_path ps e"
    using o w(3) ps qe by (intro path_state.equality)
      (simp_all add: step_path_def extend_def open_path_def finsert_commute)
  ultimately show "qs \<in> set (opens_of adj t ps)" by (simp add: opens_of_def)
qed

lemma hit_step:
  assumes adj: "adj_ok R adj" and ps: "open_path R s t d ps"
  shows "p \<in> set (hits_of adj t ps) \<longleftrightarrow> is_chain R s t p \<and> butlast p = ps_edges ps"
proof
  assume "p \<in> set (hits_of adj t ps)"
  then obtain e where e: "e \<in> set (adj (ps_cur ps))" "re_to e = t" "p = ps_edges ps @ [e]"
    by (auto simp: hits_of_def extend_def)
  then have "e \<in> R" "re_from e = ps_cur ps" using adj by (auto simp: adj_ok_def)
  then show "is_chain R s t p \<and> butlast p = ps_edges ps"
    using ps e by (auto simp: open_path_def is_chain_def walks_snoc)
next
  assume p: "is_chain R s t p \<and> butlast p = ps_edges ps"
  define e where "e = last p"
  have pe: "p = ps_edges ps @ [e]" using p by (metis append_butlast_last_id e_def is_chain_def)
  have w: "walks R s (ps_edges ps) (re_from e)" "e \<in> R" "re_to e = t"
    using p unfolding is_chain_def pe by (simp_all add: walks_snoc)
  have "re_from e = ps_cur ps" using w(1) ps by (auto simp: open_path_def intro: walks_end)
  then show "p \<in> set (hits_of adj t ps)"
    using adj w(2,3) pe by (auto simp: hits_of_def adj_ok_def extend_def)
qed


lemma distinct_concat_map:
  assumes "distinct xs" "\<And>x. x \<in> set xs \<Longrightarrow> distinct (f x)"
    and "\<And>x y z. x \<in> set xs \<Longrightarrow> y \<in> set xs \<Longrightarrow> z \<in> set (f x) \<Longrightarrow> z \<in> set (f y) \<Longrightarrow> x = y"
  shows "distinct (concat (map f xs))"
  by (rule distinct_concat_disjoint [OF assms(1,2)]) (use assms(3) in auto)

lemma open_path_Suc:
  assumes "open_path R s t (Suc d) qs"
  shows "\<exists>ps. open_path R s t d ps \<and> ps_edges qs \<noteq> [] \<and> butlast (ps_edges qs) = ps_edges ps"
proof -
  obtain p e where pe: "ps_edges qs = p @ [e]" using assms by (cases "ps_edges qs" rule: rev_cases) (auto simp: open_path_def)
  let ?ps = "\<lparr>ps_cur = re_from e, ps_edges = p, ps_visited = fset_of_list (s # map re_to p)\<rparr>"
  have "open_path R s t d ?ps" using assms by (auto simp: open_path_def pe walks_snoc)
  then show ?thesis using pe by (intro exI [of _ ?ps]) simp
qed

lemma chain_Suc:
  assumes "is_chain R s t p"
  shows "\<exists>ps. open_path R s t (length p - 1) ps \<and> butlast p = ps_edges ps"
proof -
  obtain q e where pe: "p = q @ [e]" using assms by (cases p rule: rev_cases) (auto simp: is_chain_def)
  let ?ps = "\<lparr>ps_cur = re_from e, ps_edges = q, ps_visited = fset_of_list (s # map re_to q)\<rparr>"
  have "open_path R s t (length p - 1) ?ps" using assms by (auto simp: open_path_def is_chain_def pe walks_snoc)
  then show ?thesis using pe by (intro exI [of _ ?ps]) simp
qed

lemma level_hits:
  assumes adj: "adj_ok R adj" and lv: "level_states R s t d Q"
  shows "set (concat (map (hits_of adj t) Q)) = {p. is_chain R s t p \<and> length p = Suc d}"
    and "distinct (concat (map (hits_of adj t) Q))"
proof -
  have op: "ps \<in> set Q \<longleftrightarrow> open_path R s t d ps" for ps using lv by (simp add: level_states_def)
  show "set (concat (map (hits_of adj t) Q)) = {p. is_chain R s t p \<and> length p = Suc d}"
  proof (intro set_eqI iffI)
    fix p assume "p \<in> set (concat (map (hits_of adj t) Q))"
    then obtain ps where ps: "open_path R s t d ps" "p \<in> set (hits_of adj t ps)" using op by auto
    note h = hit_step [OF adj ps(1), THEN iffD1, OF ps(2)]
    have "length (butlast p) = d" "p \<noteq> []" using h ps(1) by (auto simp: open_path_def is_chain_def)
    then have "length p = Suc d" by (cases p rule: rev_cases) simp_all
    then show "p \<in> {p. is_chain R s t p \<and> length p = Suc d}" using h by simp
  next
    fix p assume p: "p \<in> {p. is_chain R s t p \<and> length p = Suc d}"
    then obtain ps where ps: "open_path R s t d ps" "butlast p = ps_edges ps" using chain_Suc [of R s t p] by auto
    then have "p \<in> set (hits_of adj t ps)" using hit_step [OF adj ps(1)] p by blast
    then show "p \<in> set (concat (map (hits_of adj t) Q))" using op ps(1) by auto
  qed
  show "distinct (concat (map (hits_of adj t) Q))"
  proof (rule distinct_concat_map)
    show "distinct Q" using lv by (simp add: level_states_def)
    show "distinct (hits_of adj t ps)" for ps
      using adj by (auto simp: hits_of_def adj_ok_def distinct_map inj_on_def extend_def)
    fix ps qs p assume "ps \<in> set Q" "qs \<in> set Q" "p \<in> set (hits_of adj t ps)" "p \<in> set (hits_of adj t qs)"
    then show "ps = qs" using hit_step [OF adj] op open_path_edges by metis
  qed
qed

lemma level_opens:
  assumes adj: "adj_ok R adj" and lv: "level_states R s t d Q"
  shows "level_states R s t (Suc d) (concat (map (opens_of adj t) Q))"
  unfolding level_states_def
proof
  have op: "ps \<in> set Q \<longleftrightarrow> open_path R s t d ps" for ps using lv by (simp add: level_states_def)
  show "\<forall>qs. qs \<in> set (concat (map (opens_of adj t) Q)) \<longleftrightarrow> open_path R s t (Suc d) qs"
  proof
    fix qs
    have "qs \<in> set (concat (map (opens_of adj t) Q)) \<longleftrightarrow> (\<exists>ps. open_path R s t d ps \<and> qs \<in> set (opens_of adj t ps))"
      using op by auto
    also have "\<dots> \<longleftrightarrow> open_path R s t (Suc d) qs"
      using open_step [OF adj] open_path_Suc by metis
    finally show "qs \<in> set (concat (map (opens_of adj t) Q)) \<longleftrightarrow> open_path R s t (Suc d) qs" .
  qed
  show "distinct (concat (map (opens_of adj t) Q))"
  proof (rule distinct_concat_map)
    show "distinct Q" using lv by (simp add: level_states_def)
    show "distinct (opens_of adj t ps)" for ps
      using adj by (auto simp: opens_of_def adj_ok_def distinct_map inj_on_def extend_def step_path_def)
    fix ps qs x assume "ps \<in> set Q" "qs \<in> set Q" "x \<in> set (opens_of adj t ps)" "x \<in> set (opens_of adj t qs)"
    then show "ps = qs" using open_step [OF adj] op open_path_edges by metis
  qed
qed

lemma levels_chains:
  assumes adj: "adj_ok R adj" and "level_states R s t d Q"
  shows "set (levels_from adj t k Q) = {p. is_chain R s t p \<and> d < length p \<and> length p \<le> d + k} \<and>
    distinct (levels_from adj t k Q) \<and> sorted (map length (levels_from adj t k Q))"
  using assms(2)
proof (induction k arbitrary: d Q)
  case (Suc k)
  let ?H = "concat (map (hits_of adj t) Q)" and ?Q = "concat (map (opens_of adj t) Q)"
  note h = level_hits [OF adj Suc.prems]
  note ih = Suc.IH [OF level_opens [OF adj Suc.prems]]
  have "set (levels_from adj t (Suc k) Q) = {p. is_chain R s t p \<and> d < length p \<and> length p \<le> d + Suc k}"
    using h(1) ih by auto
  moreover have "distinct (levels_from adj t (Suc k) Q)" using h ih by auto
  moreover have "sorted (map length (levels_from adj t (Suc k) Q))"
  proof -
    have "(\<forall>x \<in> set xs. length x = c) \<Longrightarrow> sorted (map length xs)" for xs :: "result_edge list list" and c
      by (induction xs) auto
    then have "sorted (map length ?H)" using h(1) by blast
    then show ?thesis using ih h(1) by (auto simp: sorted_append)
  qed
  ultimately show ?case by blast
qed auto


subsection \<open>The call chains of a store\<close>

definition call_edges :: "mem_store \<Rightarrow> result_edge set" where
  "call_edges m = edge_to_result ` {e \<in> fmran' (edges m). e_kind e = ''calls''}"

lemma chain_adj_ok:
  assumes "keyed e_id (edges m)" "set es = {e \<in> fmran' (edges m). e_kind e = ''calls''}" "distinct es"
  shows "adj_ok (call_edges m) (chain_adj es)"
proof -
  have inj: "inj_on edge_to_result (set es)"
  proof (rule inj_onI)
    fix e f assume "e \<in> set es" "f \<in> set es" "edge_to_result e = edge_to_result f"
    then have "e \<in> fmran' (edges m)" "f \<in> fmran' (edges m)" "e_id e = e_id f"
      using assms(2) by (auto simp: edge_to_result_def)
    then show "e = f" using keyedD [OF assms(1)] by (metis fmran'E option.inject)
  qed
  have "distinct (map edge_to_result (filter (\<lambda>e. e_from e = x) es))" for x
    using assms(3) inj by (auto simp: distinct_map intro: inj_on_subset)
  then show ?thesis
    using assms(2) by (auto simp: adj_ok_def chain_adj_def call_edges_def)
qed

lemma max_paths_pos: "0 < max_paths_of p"
  by (simp add: max_paths_of_def default_max_paths_chain_def)

definition chain_key :: "result_edge list \<Rightarrow> nat \<times> string list" where
  "chain_key p = (length p, map re_id p)"

lemma call_chain_eq:
  assumes "store_ok m" "\<not> closed m" "ap_symbol p |\<in>| fmdom (nodes m)" "ap_target p |\<in>| fmdom (nodes m)" "ap_target p \<noteq> []"
  shows "\<exists>L. call_chain (mem_reader lower None m) p = Inr
      \<lparr>an_analyzer = ''call-chain'', an_outcome = (if take (nat (max_paths_of p)) L = [] then outcome_empty else outcome_found),
       an_symbol = ap_symbol p, an_truncated = False, an_nodes = [],
       an_paths = sort_paths (take (nat (max_paths_of p)) L), an_locations = []\<rparr> \<and>
    set L = {q. is_chain (call_edges m) (ap_symbol p) (ap_target p) q \<and> length q \<le> 8} \<and> distinct L \<and> sorted (map length L)"
proof -
  let ?s = "ap_symbol p" and ?t = "ap_target p" and ?R = "call_edges m"
  have k: "keyed e_id (edges m)" using assms(1) by (simp add: store_keys)
  let ?es = "sort_key e_id (filter (\<lambda>e. e_kind e = ''calls'') (map_values (edges m)))"
  have es: "rp_edges (mem_reader lower None m) \<lparr>q_node_kind = [], q_edge_kind = ''calls'', q_text = []\<rparr> = Inr ?es"
    using assms(2) by (simp add: mem_reader_def mem_edges_def)
  have d: "distinct (map_values (edges m))"
    using ssorted_distinct [OF ssorted_values [OF k]] by (simp add: distinct_map)
  have adj: "adj_ok ?R (chain_adj ?es)"
    by (rule chain_adj_ok [OF k]) (use d in \<open>auto simp: set_map_values\<close>)
  have start: "level_states ?R ?s ?t 0 [chain_start ?s]"
    by (auto simp: level_states_def open_path_def chain_start_def intro!: path_state.equality)
  let ?L = "levels_from (chain_adj ?es) ?t 8 [chain_start ?s]"
  have "set ?L = {q. is_chain ?R ?s ?t q \<and> length q \<le> 8} \<and> distinct ?L \<and> sorted (map length ?L)"
    using levels_chains [OF adj start, of 8] by (auto simp: is_chain_def)
  moreover have "chain_levels (chain_adj ?es) ?t (max_paths_of p) 8 [chain_start ?s] [] = take (nat (max_paths_of p)) ?L"
    using levels_capped [of "[]" "nat (max_paths_of p)" "chain_adj ?es" ?t 8] max_paths_pos [of p] by simp
  moreover obtain n1 where "rp_get_node (mem_reader lower None m) ?s = Inr n1"
    using assms(2,3) by (auto simp: mem_reader_def mem_get_node_def fmlookup_dom_iff)
  moreover obtain n2 where "rp_get_node (mem_reader lower None m) ?t = Inr n2"
    using assms(2,4) by (auto simp: mem_reader_def mem_get_node_def fmlookup_dom_iff)
  ultimately show ?thesis
    using assms(5) es
    by (intro exI [of _ ?L]) (simp add: call_chain_def default_max_chain_depth_def Let_def del: take_eq_Nil take_eq_Nil2 levels_from.simps)
qed

definition short_chains :: "mem_store \<Rightarrow> analysis_params \<Rightarrow> result_edge list set" where
  "short_chains m p = {q. is_chain (call_edges m) (ap_symbol p) (ap_target p) q \<and> length q \<le> 8}"

text \<open>
  C9: between two stored symbols the call-chain analyzer lists simple call chains only, each once, at most the
  requested number, shortest first.  Nothing shorter than a listed chain is ever left out, and
  when fewer chains are listed than requested, all chains of at most eight calls are.
\<close>

theorem call_chains_exact:
  assumes "store_ok m" "\<not> closed m" "ap_symbol p |\<in>| fmdom (nodes m)" "ap_target p |\<in>| fmdom (nodes m)" "ap_target p \<noteq> []"
  shows "\<exists>r. call_chain (mem_reader lower None m) p = Inr r \<and>
    set (an_paths r) \<subseteq> short_chains m p \<and> distinct (an_paths r) \<and> int (length (an_paths r)) \<le> max_paths_of p \<and>
    sorted (map chain_key (an_paths r)) \<and>
    (\<forall>q \<in> short_chains m p - set (an_paths r). \<forall>q' \<in> set (an_paths r). length q' \<le> length q) \<and>
    (int (length (an_paths r)) < max_paths_of p \<longrightarrow> set (an_paths r) = short_chains m p) \<and>
    (an_outcome r = outcome_empty \<longleftrightarrow> short_chains m p = {})"
proof -
  obtain L where L: "call_chain (mem_reader lower None m) p = Inr
      \<lparr>an_analyzer = ''call-chain'', an_outcome = (if take (nat (max_paths_of p)) L = [] then outcome_empty else outcome_found),
       an_symbol = ap_symbol p, an_truncated = False, an_nodes = [],
       an_paths = sort_paths (take (nat (max_paths_of p)) L), an_locations = []\<rparr>"
    and set: "set L = short_chains m p" "distinct L" "sorted (map length L)"
    using call_chain_eq [OF assms] unfolding short_chains_def by blast
  let ?T = "take (nat (max_paths_of p)) L"
  have "length q' \<le> length q" if "q \<in> set L - set ?T" "q' \<in> set ?T" for q q'
  proof -
    have "sorted (map length (?T @ drop (nat (max_paths_of p)) L))" using set(3) by simp
    moreover have "q \<in> set (drop (nat (max_paths_of p)) L)"
      using that(1) by (metis Diff_iff UnE append_take_drop_id set_append)
    ultimately show ?thesis using that(2) unfolding map_append sorted_append by auto
  qed
  moreover have "int (length ?T) < max_paths_of p \<Longrightarrow> ?T = L" by auto
  moreover have "?T = [] \<longleftrightarrow> short_chains m p = {}" using max_paths_pos [of p] set(1) by auto
  moreover have "sorted (map chain_key (sort_paths ?T))" by (simp add: sort_paths_def chain_key_def [abs_def])
  moreover have "int (length ?T) \<le> max_paths_of p" using max_paths_pos [of p] by simp
  moreover have "set ?T \<subseteq> short_chains m p" unfolding set(1) [symmetric] by (rule set_take_subset)
  moreover have "(if ?T = [] then outcome_empty else outcome_found) = outcome_empty \<longleftrightarrow> ?T = []"
    by (simp add: outcome_empty_def outcome_found_def)
  moreover have "set (sort_paths L) = set L" "set (sort_paths ?T) = set ?T" "distinct (sort_paths ?T)" "length (sort_paths ?T) = length ?T"
    using set(2) by (simp_all add: sort_paths_def)
  ultimately show ?thesis
    unfolding L using set(1) by (intro exI [of _ "\<lparr>an_analyzer = ''call-chain'',
       an_outcome = (if ?T = [] then outcome_empty else outcome_found), an_symbol = ap_symbol p, an_truncated = False,
       an_nodes = [], an_paths = sort_paths ?T, an_locations = []\<rparr>"]) (simp del: take_eq_Nil take_eq_Nil2 length_take)
qed

theorem call_chains_exact_witness:
  "\<exists>r. call_chain (mem_reader id None (small_store (Finite 1)))
     \<lparr>ap_symbol = n_id (fn_node ''f''), ap_target = n_id (fn_node ''g''), ap_concept = [], ap_direction = [], ap_kinds = [],
      ap_max_nodes = 0, ap_max_paths = 0\<rparr> = Inr r \<and> [edge_to_result (call_edge (Finite 1))] \<in> set (an_paths r)"
proof -
  let ?m = "small_store (Finite 1)"
  let ?p = "\<lparr>ap_symbol = n_id (fn_node ''f''), ap_target = n_id (fn_node ''g''), ap_concept = [], ap_direction = [],
      ap_kinds = [], ap_max_nodes = 0, ap_max_paths = 0\<rparr>"
  let ?e = "edge_to_result (call_edge (Finite 1))"
  have R: "call_edges ?m = {?e}" by (auto simp: call_edges_def small_ran) (simp add: call_edge_def)
  have ft: "re_from ?e = n_id (fn_node ''f'')" "re_to ?e = n_id (fn_node ''g'')" by (simp_all add: call_edge_def)
  have named: "n_id (fn_node ''g'') \<noteq> []" by code_simp
  have only: "q = [?e]" if q: "is_chain {?e} (n_id (fn_node ''f'')) (n_id (fn_node ''g'')) q" for q
  proof -
    obtain e q' where c: "q = e # q'" using q by (cases q) (auto simp: is_chain_def)
    have e: "e = ?e" using q by (simp add: is_chain_def c)
    have "q' = []"
    proof (cases q')
      case (Cons e2 q2)
      then have "e2 = ?e" "re_from e2 = re_to ?e" using q e by (auto simp: is_chain_def c)
      then show ?thesis using ft fn_ids by simp
    qed
    then show ?thesis using c e by simp
  qed
  have here: "[?e] \<in> short_chains ?m ?p"
    using fn_ids ft by (simp add: short_chains_def is_chain_def R)
  have one: "short_chains ?m ?p \<subseteq> {[?e]}" using only by (auto simp: short_chains_def R)
  obtain r where r: "call_chain (mem_reader id None ?m) ?p = Inr r" "set (an_paths r) \<subseteq> short_chains ?m ?p"
    "distinct (an_paths r)" "int (length (an_paths r)) < max_paths_of ?p \<longrightarrow> set (an_paths r) = short_chains ?m ?p"
    using call_chains_exact [OF small_store_ok small_store_maps(3), of ?p "Finite 1" id] named
    by (auto simp: small_store_maps)
  have "length (an_paths r) \<le> 1"
    using card_mono [OF _ subset_trans [OF r(2) one]] distinct_card [OF r(3)] by simp
  then have "set (an_paths r) = short_chains ?m ?p"
    using r(4) by (simp add: max_paths_of_def default_max_paths_chain_def)
  then show ?thesis using r(1) here by blast
qed

end
