(* ===== verification/Concept.thy ===== *)
theory Concept
  imports CallChain
begin

text \<open>
  The concept analyzer of \<open>engine/analysis/concept.go\<close> with the handler heuristic and the location order of
  \<open>serialize.go\<close>: it joins the lexical search with the reference and call edges of the graph.  The searcher is
  a capability of the reader that may be absent; \<open>lower\<close> stands for \<open>strings.ToLower\<close>.
\<close>

definition kind_definition :: string where "kind_definition = ''definition''"
definition kind_handler :: string where "kind_handler = ''handler''"
definition kind_reference :: string where "kind_reference = ''reference''"
definition default_concept_limit :: int where "default_concept_limit = 100"

definition handler_kinds :: "string list" where
  "handler_kinds = [''handler'', ''error_handler'', ''route_handler'', ''event_handler'', ''exception_handler'']"

definition handler_name_patterns :: "string list" where
  "handler_name_patterns = [''handler'', ''handle'', ''servehttp'', ''recover'', ''onerror'', ''onerr'', ''middleware'']"

definition is_handler :: "(string \<Rightarrow> string) \<Rightarrow> result_node \<Rightarrow> bool" where
  "is_handler lower n \<longleftrightarrow> lower (rn_kind n) \<in> set handler_kinds \<or>
     (\<exists>p \<in> set handler_name_patterns. contains_str (lower (rn_qname n)) p)"

definition kind_rank :: "string \<Rightarrow> int" where
  "kind_rank k = (if k = kind_definition then 0 else if k = kind_handler then 1 else 2)"

definition loc_tier_rank :: "location \<Rightarrow> int" where
  "loc_tier_rank l = (case lo_via l of None \<Rightarrow> -1 | Some e \<Rightarrow> tier_rank (re_tier e))"

definition sort_locations :: "location list \<Rightarrow> location list" where
  "sort_locations ls = sort_key (\<lambda>l. (kind_rank (lo_kind l), loc_tier_rank l, rn_id (lo_node l))) ls"

subsection \<open>The join\<close>

text \<open>The nodes the search matched, by identity.\<close>

fun matched_nodes :: "ranked_node list \<Rightarrow> (node_id, result_node) fmap \<Rightarrow> (node_id, result_node) fmap" where
  "matched_nodes [] by_id = by_id"
| "matched_nodes (rn # rns) by_id = matched_nodes rns (fmupd (n_id (rn_node rn)) (node_to_result (rn_node rn)) by_id)"

text \<open>The best edge into a matched node, for each referrer.\<close>

fun referrer_edges ::
  "(node_id, result_node) fmap \<Rightarrow> edge list \<Rightarrow> (node_id, result_edge) fmap \<Rightarrow> (node_id, result_edge) fmap" where
  "referrer_edges by_id [] acc = acc"
| "referrer_edges by_id (e # es) acc =
     (if e_kind e \<noteq> ''references'' \<and> e_kind e \<noteq> ''calls'' then referrer_edges by_id es acc
      else if fmlookup by_id (e_to e) = None then referrer_edges by_id es acc
      else if (case fmlookup acc (e_from e) of
                 None \<Rightarrow> True
               | Some existing \<Rightarrow> edge_better (edge_to_result e) existing)
           then referrer_edges by_id es (fmupd (e_from e) (edge_to_result e) acc)
           else referrer_edges by_id es acc)"

definition definition_location :: "result_node \<Rightarrow> location" where
  "definition_location n = \<lparr>lo_node = n, lo_kind = kind_definition, lo_via = None, lo_depth = 0\<rparr>"

definition referrer_location :: "(string \<Rightarrow> string) \<Rightarrow> result_node \<Rightarrow> result_edge \<Rightarrow> location" where
  "referrer_location lower n e =
     \<lparr>lo_node = n, lo_kind = (if is_handler lower n then kind_handler else kind_reference), lo_via = Some e, lo_depth = 0\<rparr>"

fun referrer_locations ::
  "(string \<Rightarrow> string) \<Rightarrow> reader_port \<Rightarrow> (node_id, result_node) fmap \<Rightarrow> (node_id, result_edge) fmap
     \<Rightarrow> node_id list \<Rightarrow> location list" where
  "referrer_locations lower r by_id refs [] = []"
| "referrer_locations lower r by_id refs (i # is) =
     (if fmlookup by_id i \<noteq> None then referrer_locations lower r by_id refs is
      else case rp_get_node r i of
             Inl _ \<Rightarrow> referrer_locations lower r by_id refs is
           | Inr n \<Rightarrow> referrer_location lower (node_to_result n) (the (fmlookup refs i))
                        # referrer_locations lower r by_id refs is)"

fun dedup_locations :: "location list \<Rightarrow> (node_id, location) fmap \<Rightarrow> (node_id, location) fmap" where
  "dedup_locations [] acc = acc"
| "dedup_locations (l # ls) acc =
     (if (case fmlookup acc (rn_id (lo_node l)) of
            None \<Rightarrow> True
          | Some cur \<Rightarrow> kind_rank (lo_kind l) < kind_rank (lo_kind cur))
      then dedup_locations ls (fmupd (rn_id (lo_node l)) l acc)
      else dedup_locations ls acc)"

type_synonym searcher = "string \<Rightarrow> int \<Rightarrow> store_error + ranked_node list"

definition concept_analysis :: "string \<Rightarrow> location list \<Rightarrow> analysis" where
  "concept_analysis concept locs =
     \<lparr>an_analyzer = ''concept'', an_outcome = (if locs = [] then outcome_empty else outcome_found), an_symbol = concept,
      an_truncated = False, an_nodes = [], an_paths = [], an_locations = locs\<rparr>"

definition concept_analyze ::
  "(string \<Rightarrow> string) \<Rightarrow> searcher option \<Rightarrow> reader_port \<Rightarrow> analysis_params \<Rightarrow> store_error + analysis" where
  "concept_analyze lower searcher r p =
     (case searcher of
        None \<Rightarrow> Inr (concept_analysis (ap_concept p) [])
      | Some search_nodes \<Rightarrow>
          if ap_concept p = [] then Inr (concept_analysis (ap_concept p) [])
          else
            (case search_nodes (ap_concept p) default_concept_limit of
               Inl err \<Rightarrow> Inl err
             | Inr ranked \<Rightarrow>
                 let by_id = matched_nodes ranked fmempty in
                 (case rp_edges r any_query of
                    Inl err \<Rightarrow> Inl err
                  | Inr es \<Rightarrow>
                      let refs = referrer_edges by_id es fmempty;
                          locs = map definition_location (map_values by_id)
                                   @ referrer_locations lower r by_id refs (sorted_list_of_fset (fmdom refs))
                      in Inr (concept_analysis (ap_concept p)
                           (sort_locations (map_values (dedup_locations locs fmempty)))))))"

subsection \<open>The best edge of a referrer\<close>

text \<open>The reference: the calls and references from a node into a set of matched nodes, and the best of a set of edges.\<close>

definition links :: "edge set \<Rightarrow> node_id set \<Rightarrow> node_id \<Rightarrow> result_edge set" where
  "links E M i = edge_to_result ` {e \<in> E. e_from e = i \<and> e_kind e \<in> {''references'', ''calls''} \<and> e_to e \<in> M}"

definition best_link :: "result_edge set \<Rightarrow> result_edge \<Rightarrow> bool" where
  "best_link S e \<longleftrightarrow> e \<in> S \<and> (\<forall>x \<in> S. \<not> edge_better x e)"

definition best_known :: "result_edge set \<Rightarrow> result_edge option \<Rightarrow> bool" where
  "best_known S o' = (case o' of None \<Rightarrow> S = {} | Some e \<Rightarrow> best_link S e)"

lemma best_link_insert:
  assumes "best_known S o'"
  shows "best_known (insert x S)
    (if (case o' of None \<Rightarrow> True | Some e \<Rightarrow> edge_better x e) then Some x else o')"
  using assms by (cases o') (auto simp: best_known_def best_link_def edge_better_key)

lemma referrer_edges_best:
  "\<forall>i. best_known (links E (fmdom' by_id) i) (fmlookup acc i) \<Longrightarrow>
   \<forall>i. best_known (links (E \<union> set es) (fmdom' by_id) i) (fmlookup (referrer_edges by_id es acc) i)"
proof (induction es arbitrary: E acc)
  case (Cons e es)
  let ?M = "fmdom' by_id"
  let ?link = "e_kind e \<in> {''references'', ''calls''} \<and> e_to e \<in> ?M"
  let ?better = "case fmlookup acc (e_from e) of None \<Rightarrow> True | Some x \<Rightarrow> edge_better (edge_to_result e) x"
  let ?acc = "if ?link \<and> ?better then fmupd (e_from e) (edge_to_result e) acc else acc"
  have links: "links (insert e E) ?M i =
      (if ?link \<and> e_from e = i then insert (edge_to_result e) (links E ?M i) else links E ?M i)" for i
    by (auto simp: links_def)
  have "best_known (links (insert e E) ?M i) (fmlookup ?acc i)" for i
    using Cons.prems best_link_insert [of "links E ?M i" "fmlookup acc i" "edge_to_result e"] unfolding links
    by auto
  then have "\<forall>i. best_known (links (insert e E \<union> set es) ?M i) (fmlookup (referrer_edges by_id es ?acc) i)"
    by (intro Cons.IH) blast
  moreover have "referrer_edges by_id (e # es) acc = referrer_edges by_id es ?acc"
    by (simp add: fmdom'_notI fmlookup_dom'_iff)
  ultimately show ?case by simp
qed simp

subsection \<open>The locations of a concept\<close>

lemma dedup_distinct:
  "\<lbrakk>distinct (map (\<lambda>l. rn_id (lo_node l)) ls); keyed (\<lambda>l. rn_id (lo_node l)) acc;
    \<forall>l \<in> set ls. fmlookup acc (rn_id (lo_node l)) = None\<rbrakk> \<Longrightarrow>
   fmran' (dedup_locations ls acc) = fmran' acc \<union> set ls \<and>
   keyed (\<lambda>l. rn_id (lo_node l)) (dedup_locations ls acc)"
proof (induction ls arbitrary: acc)
  case (Cons l ls)
  let ?i = "rn_id (lo_node l)"
  let ?acc = "fmupd ?i l acc"
  have new: "fmlookup acc ?i = None" using Cons.prems(3) by simp
  have k: "keyed (\<lambda>l. rn_id (lo_node l)) ?acc" using Cons.prems(2) by (auto simp: keyed_def)
  have "\<forall>x \<in> set ls. fmlookup ?acc (rn_id (lo_node x)) = None" using Cons.prems(1,3) by force
  then have ih: "fmran' (dedup_locations ls ?acc) = fmran' ?acc \<union> set ls \<and>
      keyed (\<lambda>l. rn_id (lo_node l)) (dedup_locations ls ?acc)"
    using Cons.IH [OF _ k] Cons.prems(1) by simp
  have "fmran' ?acc = insert l (fmran' acc)"
    using new by (auto simp: fmran'_def ran_def split: if_splits) (metis option.distinct(1))
  then show ?case using ih new by simp
qed simp

lemma referrer_locations_eq:
  assumes "\<not> closed m"
  shows "referrer_locations lower (mem_reader lower None m) by_id refs is =
     map (\<lambda>i. referrer_location lower (node_to_result (the (fmlookup (nodes m) i))) (the (fmlookup refs i)))
       (filter (\<lambda>i. fmlookup by_id i = None \<and> i |\<in>| fmdom (nodes m)) is)"
  using assms by (induction "is") (auto simp: mem_reader_def mem_get_node_def fmlookup_dom_iff fmdom_notI)

lemma matched_nodes_eq:
  assumes "\<forall>rn \<in> set rs. fmlookup (nodes m) (n_id (rn_node rn)) = Some (rn_node rn)"
  shows "fmlookup (matched_nodes rs by_id) i =
    (if i \<in> (\<lambda>rn. n_id (rn_node rn)) ` set rs then map_option node_to_result (fmlookup (nodes m) i) else fmlookup by_id i)"
  using assms
proof (induction rs arbitrary: by_id)
  case (Cons rn rs)
  then show ?case by (cases "i = n_id (rn_node rn)") auto
qed simp

lemma search_stored:
  assumes "keyed n_id (nodes m)" "mem_search_nodes lower None m text limit = Inr ranked"
  shows "\<forall>rn \<in> set ranked. fmlookup (nodes m) (n_id (rn_node rn)) = Some (rn_node rn)"
proof -
  let ?hits = "sort_key (\<lambda>r. (n_qname (rn_node r), n_id (rn_node r)))
    (map (\<lambda>n. \<lparr>rn_node = n, rn_rank = Finite 0\<rparr>)
       (filter (\<lambda>n. contains_str (lower (n_qname n)) (lower (trim_space text))) (map_values (nodes m))))"
  have "set ranked \<subseteq> set ?hits"
    using assms(2) by (auto simp: mem_search_nodes_def Let_def simp del: set_sort split: if_splits dest: in_set_takeD)
  also have "\<dots> \<subseteq> {rn. rn_node rn \<in> fmran' (nodes m)}" by (auto simp: set_map_values)
  finally show ?thesis using assms(1) by (auto simp: keyed_def elim!: fmran'E)
qed

lemma links_distinct_ids:
  assumes "keyed e_id (edges m)" "best_link (links (fmran' (edges m)) M i) e" "best_link (links (fmran' (edges m)) M i) f"
  shows "e = f"
proof -
  have "result_edge_key e = result_edge_key f"
    using assms(2,3) unfolding best_link_def edge_better_key by (meson antisym_conv3)
  then have ids: "re_id e = re_id f" by (simp add: result_edge_key_def)
  obtain e' f' where ef: "e' \<in> fmran' (edges m)" "e = edge_to_result e'" "f' \<in> fmran' (edges m)" "f = edge_to_result f'"
    using assms(2,3) by (auto simp: best_link_def links_def)
  have "e_id e' = e_id f'" using ids ef(2,4) by (simp add: edge_to_result_def)
  then have "e' = f'" using ef(1,3) assms(1) by (metis fmran'E keyedD option.inject)
  then show ?thesis using ef(2,4) by simp
qed

text \<open>The answer of the join for a list of matches that are all stored.\<close>

definition matches_stored :: "mem_store \<Rightarrow> ranked_node list \<Rightarrow> bool" where
  "matches_stored m ranked \<longleftrightarrow> (\<forall>rn \<in> set ranked. fmlookup (nodes m) (n_id (rn_node rn)) = Some (rn_node rn))"

definition referrers_of :: "mem_store \<Rightarrow> ranked_node list \<Rightarrow> (node_id, result_edge) fmap" where
  "referrers_of m ranked = referrer_edges (matched_nodes ranked fmempty) (map_values (edges m)) fmempty"

definition match_ids :: "ranked_node list \<Rightarrow> node_id set" where
  "match_ids ranked = n_id ` rn_node ` set ranked"

lemma by_lookup:
  "matches_stored m ranked \<Longrightarrow> fmlookup (matched_nodes ranked fmempty) i =
     (if i \<in> match_ids ranked then map_option node_to_result (fmlookup (nodes m) i) else None)"
  using matched_nodes_eq [of ranked m fmempty i] by (simp add: matches_stored_def match_ids_def image_image)

lemma by_none:
  assumes "matches_stored m ranked"
  shows "fmlookup (matched_nodes ranked fmempty) i = None \<longleftrightarrow> i \<notin> match_ids ranked"
  using by_lookup [OF assms, of i] assms by (auto simp: matches_stored_def match_ids_def)

lemma by_keyed: "\<lbrakk>keyed n_id (nodes m); matches_stored m ranked\<rbrakk> \<Longrightarrow> keyed rn_id (matched_nodes ranked fmempty)"
  unfolding keyed_def by (auto simp: by_lookup node_to_result_def split: if_splits)

lemma by_values:
  assumes "matches_stored m ranked"
  shows "set (map_values (matched_nodes ranked fmempty)) = node_to_result ` rn_node ` set ranked"
proof
  have here: "fmlookup (matched_nodes ranked fmempty) (n_id n) = Some (node_to_result n)" if "n \<in> rn_node ` set ranked" for n
    using that by_lookup [OF assms, of "n_id n"] assms by (auto simp: matches_stored_def match_ids_def)
  show "node_to_result ` rn_node ` set ranked \<subseteq> set (map_values (matched_nodes ranked fmempty))"
    unfolding set_map_values using fmran'I [OF here] by (metis image_subsetI)
  show "set (map_values (matched_nodes ranked fmempty)) \<subseteq> node_to_result ` rn_node ` set ranked"
    using by_lookup [OF assms] assms unfolding set_map_values
    by (auto simp: matches_stored_def match_ids_def elim!: fmran'E split: if_splits)
qed

lemma referrers_lookup:
  assumes "keyed e_id (edges m)" "matches_stored m ranked"
  shows "fmlookup (referrers_of m ranked) i = Some e \<longleftrightarrow> best_link (links (fmran' (edges m)) (match_ids ranked) i) e"
proof -
  let ?by = "matched_nodes ranked fmempty"
  have dom: "fmdom' ?by = match_ids ranked"
    using by_none [OF assms(2)] by (metis fmdom'_notD fmdom'_notI subsetI subset_antisym)
  have "best_known (links (fmran' (edges m)) (match_ids ranked) i) (fmlookup (referrers_of m ranked) i)"
    using referrer_edges_best [of "{}" ?by fmempty "map_values (edges m)", unfolded dom]
    by (simp add: best_known_def links_def set_map_values referrers_of_def)
  then show ?thesis
    using links_distinct_ids [OF assms(1), of "match_ids ranked" i]
    by (auto simp: best_known_def best_link_def split: option.splits)
qed

definition referrer_ids :: "mem_store \<Rightarrow> ranked_node list \<Rightarrow> node_id list" where
  "referrer_ids m ranked =
     filter (\<lambda>i. fmlookup (matched_nodes ranked fmempty) i = None \<and> i |\<in>| fmdom (nodes m))
       (sorted_list_of_fset (fmdom (referrers_of m ranked)))"

definition referrer_at :: "(string \<Rightarrow> string) \<Rightarrow> mem_store \<Rightarrow> ranked_node list \<Rightarrow> node_id \<Rightarrow> location" where
  "referrer_at lower m ranked i =
     referrer_location lower (node_to_result (the (fmlookup (nodes m) i))) (the (fmlookup (referrers_of m ranked) i))"

lemma referrer_ids_iff:
  assumes "matches_stored m ranked"
  shows "i \<in> set (referrer_ids m ranked) \<longleftrightarrow> i \<notin> match_ids ranked \<and>
    (\<exists>n e. fmlookup (nodes m) i = Some n \<and> fmlookup (referrers_of m ranked) i = Some e)"
  unfolding referrer_ids_def set_filter mem_Collect_eq by_none [OF assms]
  by (auto simp: fmlookup_dom_iff)

lemma referrers_exact:
  assumes ke: "keyed e_id (edges m)" and kn: "keyed n_id (nodes m)" and st: "matches_stored m ranked"
  shows "referrer_at lower m ranked ` set (referrer_ids m ranked) =
    {referrer_location lower (node_to_result n) e | n e. n \<in> fmran' (nodes m) - rn_node ` set ranked \<and>
        best_link (links (fmran' (edges m)) (match_ids ranked) (n_id n)) e}" (is "?L = ?R")
proof
  show "?L \<subseteq> ?R"
  proof
    fix l assume "l \<in> ?L"
    then obtain i n e where i: "l = referrer_at lower m ranked i" "i \<notin> match_ids ranked"
      "fmlookup (nodes m) i = Some n" "fmlookup (referrers_of m ranked) i = Some e"
      using referrer_ids_iff [OF st] by blast
    then have "n_id n = i" "n \<in> fmran' (nodes m)" using keyedD [OF kn] by (auto intro: fmran'I)
    then show "l \<in> ?R" using i referrers_lookup [OF ke st] by (auto simp: referrer_at_def match_ids_def)
  qed
  show "?R \<subseteq> ?L"
  proof
    fix l assume "l \<in> ?R"
    then obtain n e where n: "l = referrer_location lower (node_to_result n) e" "n \<in> fmran' (nodes m)"
      "n \<notin> rn_node ` set ranked" "fmlookup (referrers_of m ranked) (n_id n) = Some e"
      using referrers_lookup [OF ke st] by auto
    have k: "fmlookup (nodes m) (n_id n) = Some n" using n(2) kn by (auto simp: keyed_def elim!: fmran'E)
    have "n_id n \<notin> match_ids ranked" using n(3) k st by (auto simp: matches_stored_def match_ids_def)
    then have "n_id n \<in> set (referrer_ids m ranked)" using referrer_ids_iff [OF st] k n(4) by blast
    moreover have "l = referrer_at lower m ranked (n_id n)" using n(1,4) k by (simp add: referrer_at_def)
    ultimately show "l \<in> ?L" by blast
  qed
qed

definition joined_locations :: "(string \<Rightarrow> string) \<Rightarrow> mem_store \<Rightarrow> ranked_node list \<Rightarrow> location list" where
  "joined_locations lower m ranked =
     map definition_location (map_values (matched_nodes ranked fmempty))
       @ map (referrer_at lower m ranked) (referrer_ids m ranked)"

lemma joined_distinct:
  assumes "keyed n_id (nodes m)" "matches_stored m ranked"
  shows "distinct (map (\<lambda>l. rn_id (lo_node l)) (joined_locations lower m ranked))"
proof -
  let ?by = "matched_nodes ranked fmempty" and ?is = "referrer_ids m ranked"
  have "rn_id (lo_node (referrer_at lower m ranked i)) = i" if "i \<in> set ?is" for i
    using that [unfolded referrer_ids_iff [OF assms(2)]] keyedD [OF assms(1)]
    by (auto simp: referrer_at_def referrer_location_def node_to_result_def)
  then have "map ((\<lambda>l. rn_id (lo_node l)) \<circ> referrer_at lower m ranked) ?is = ?is" by (simp add: map_idI)
  then have ids: "map (\<lambda>l. rn_id (lo_node l)) (joined_locations lower m ranked) = map rn_id (map_values ?by) @ ?is"
    by (simp add: joined_locations_def comp_def definition_location_def)
  have "set (map rn_id (map_values ?by)) = match_ids ranked"
    using by_values [OF assms(2)] by (simp add: image_image node_to_result_def match_ids_def)
  moreover have "distinct ?is" by (simp add: referrer_ids_def sorted_list_of_fset.rep_eq)
  ultimately show ?thesis unfolding ids distinct_append
    using referrer_ids_iff [OF assms(2)] distinct_map_values [OF by_keyed [OF assms]] by blast
qed

definition location_key :: "location \<Rightarrow> int \<times> int \<times> node_id" where
  "location_key l = (kind_rank (lo_kind l), loc_tier_rank l, rn_id (lo_node l))"

definition concept_locations :: "(string \<Rightarrow> string) \<Rightarrow> mem_store \<Rightarrow> node set \<Rightarrow> location set" where
  "concept_locations lower m M =
     (\<lambda>n. definition_location (node_to_result n)) ` M \<union>
     {referrer_location lower (node_to_result n) e | n e. n \<in> fmran' (nodes m) - M \<and>
        best_link (links (fmran' (edges m)) (n_id ` M) (n_id n)) e}"

lemma concept_locations_empty: "concept_locations lower m M = {} \<longleftrightarrow> M = {}"
  by (auto simp: concept_locations_def best_link_def links_def)

text \<open>
  C26: the answer to a concept lists every node the lexical search matched as a definition and every other stored
  node with a call or reference into a match, once, with its best edge, as a handler or a
  reference by the naming heuristic; definitions lead, then handlers, then references.
\<close>

theorem concept_exact:
  assumes "store_ok m" "\<not> closed m" "ap_concept p \<noteq> []"
    and "mem_search_nodes lower None m (ap_concept p) default_concept_limit = Inr ranked"
  shows "\<exists>r. concept_analyze lower (Some (mem_search_nodes lower None m)) (mem_reader lower None m) p = Inr r \<and>
    set (an_locations r) = concept_locations lower m (rn_node ` set ranked) \<and>
    distinct (map (\<lambda>l. rn_id (lo_node l)) (an_locations r)) \<and> sorted (map location_key (an_locations r)) \<and>
    (an_outcome r = outcome_empty \<longleftrightarrow> ranked = [])"
proof -
  have ke: "keyed e_id (edges m)" and kn: "keyed n_id (nodes m)" using assms(1) by (simp_all add: store_keys)
  have st: "matches_stored m ranked" using search_stored [OF kn assms(4)] by (simp add: matches_stored_def)
  let ?locs = "joined_locations lower m ranked"
  let ?out = "sort_locations (map_values (dedup_locations ?locs fmempty))"
  have dedup: "fmran' (dedup_locations ?locs fmempty) = set ?locs"
    "keyed (\<lambda>l. rn_id (lo_node l)) (dedup_locations ?locs fmempty)"
    using dedup_distinct [OF joined_distinct [OF kn st, of lower], of fmempty] by (simp_all add: fmran'_def)
  have "set ?out = set ?locs" by (simp add: sort_locations_def set_map_values dedup(1))
  then have set_out: "set ?out = concept_locations lower m (rn_node ` set ranked)"
    using referrers_exact [OF ke kn st, of lower]
    by (simp add: concept_locations_def joined_locations_def by_values [OF st] image_image match_ids_def)
  have reads: "rp_edges (mem_reader lower None m) any_query = Inr (map_values (edges m))"
    using mem_edges_any [OF assms(2) ke] by (simp add: mem_reader_def)
  have run: "concept_analyze lower (Some (mem_search_nodes lower None m)) (mem_reader lower None m) p =
      Inr (concept_analysis (ap_concept p) ?out)"
    using assms(3,4) reads
    by (simp add: concept_analyze_def referrer_locations_eq [OF assms(2)] Let_def joined_locations_def
        referrer_ids_def referrer_at_def [abs_def] referrers_of_def)
  have "distinct (map (\<lambda>l. rn_id (lo_node l)) ?out)"
    using distinct_map_values [OF dedup(2)] by (simp add: sort_locations_def distinct_map)
  moreover have "sorted (map location_key ?out)"
    by (simp add: sort_locations_def location_key_def [abs_def])
  moreover have "?out = [] \<longleftrightarrow> ranked = []"
    using set_out by (metis concept_locations_empty set_empty image_is_empty)
  moreover have "an_locations (concept_analysis (ap_concept p) ?out) = ?out"
    "an_outcome (concept_analysis (ap_concept p) ?out) = (if ?out = [] then outcome_empty else outcome_found)"
    by (simp_all only: concept_analysis_def analysis.simps)
  moreover have "outcome_found \<noteq> outcome_empty" by (simp add: outcome_empty_def outcome_found_def)
  ultimately show ?thesis
    unfolding run using set_out by (intro exI [of _ "concept_analysis (ap_concept p) ?out"]) presburger
qed

lemma distinct_singleton_list: "set xs = {x} \<Longrightarrow> distinct xs \<Longrightarrow> xs = [x]"
  using distinct_card [of xs] by (cases xs; cases "tl xs") auto

lemma fn_hit: "n_qname (fn_node q) = q"
  by (simp only: fn_node_def node.simps)

lemma hits_g: "contains_str (id ''f'') ''g'' = False" "contains_str (id ''g'') ''g'' = True"
  by code_simp+

theorem concept_exact_witness:
  "\<exists>r. concept_analyze id (Some (mem_search_nodes id None (small_store (Finite 1)))) (mem_reader id None (small_store (Finite 1)))
     \<lparr>ap_symbol = [], ap_target = [], ap_concept = ''g'', ap_direction = [], ap_kinds = [], ap_max_nodes = 0,
      ap_max_paths = 0\<rparr> = Inr r \<and>
   definition_location (node_to_result (fn_node ''g'')) \<in> set (an_locations r)"
proof -
  let ?m = "small_store (Finite 1)"
  let ?p = "\<lparr>ap_symbol = [], ap_target = [], ap_concept = ''g'', ap_direction = [], ap_kinds = [], ap_max_nodes = 0,
      ap_max_paths = 0\<rparr>"
  let ?hit = "\<lambda>n. contains_str (id (n_qname n)) ''g''"
  have "set (filter ?hit (map_values (nodes ?m))) = {fn_node ''g''}"
    unfolding set_filter small_values(2) Collect_conj_eq [symmetric] by (rule set_eqI) (auto simp only: fn_hit hits_g mem_Collect_eq insert_iff empty_iff)
  moreover have "distinct (filter ?hit (map_values (nodes ?m)))"
    by (rule distinct_filter [OF conjunct1 [OF distinct_map [THEN iffD1,
          OF distinct_map_values [OF conjunct1 [OF store_keys [OF small_store_ok]]]]]])
  ultimately have hits: "filter ?hit (map_values (nodes ?m)) = [fn_node ''g'']"
    by (rule distinct_singleton_list)
  have "trim_space ''g'' = ''g''" by code_simp
  then have s: "mem_search_nodes id None ?m (ap_concept ?p) default_concept_limit = Inr [\<lparr>rn_node = fn_node ''g'', rn_rank = Finite 0\<rparr>]"
    using hits small_store_maps(3) by (simp add: mem_search_nodes_def default_concept_limit_def)
  then show ?thesis
    using concept_exact [OF small_store_ok small_store_maps(3) _ s] by (auto simp: concept_locations_def)
qed

end
