(* ===== verification/Scc.thy ===== *)
theory Scc
  imports Prelude "HOL-Library.Sublist"
begin

text \<open>
  The call graph and Tarjan's strongly connected components of \<open>engine/analysis/interproc/scc.go\<close>, with the
  proof that \<open>TarjanSCC\<close> returns the components of the graph, each once and sorted, callees before callers.
  The recursion carries fuel; \<open>None\<close> is out of fuel or an empty stack, and the theorem shows neither happens.
\<close>

type_synonym call_graph = "(string, string list) fmap"

definition callees_of :: "call_graph \<Rightarrow> string \<Rightarrow> string list" where
  "callees_of g v = (case fmlookup g v of None \<Rightarrow> [] | Some ws \<Rightarrow> ws)"

definition graph_nodes :: "call_graph \<Rightarrow> string list" where
  "graph_nodes g =
     sorted_list_of_set (set (concat (map (\<lambda>v. v # callees_of g v) (sorted_list_of_fset (fmdom g)))))"

text \<open>A missing key of a Go map reads as zero.\<close>

definition at_or_zero :: "(string, nat) fmap \<Rightarrow> string \<Rightarrow> nat" where
  "at_or_zero m v = (case fmlookup m v of None \<Rightarrow> 0 | Some n \<Rightarrow> n)"

text \<open>The state; the head of \<open>tj_stack\<close> is the top of the stack.\<close>

record tarjan =
  tj_index :: "(string, nat) fmap"
  tj_lowlink :: "(string, nat) fmap"
  tj_on_stack :: "string fset"
  tj_stack :: "string list"
  tj_counter :: nat
  tj_result :: "string list list"

definition tarjan_start :: tarjan where
  "tarjan_start = \<lparr>tj_index = fmempty, tj_lowlink = fmempty, tj_on_stack = {||}, tj_stack = [], tj_counter = 0, tj_result = []\<rparr>"

definition open_node :: "string \<Rightarrow> tarjan \<Rightarrow> tarjan" where
  "open_node v t =
     t\<lparr>tj_index := fmupd v (tj_counter t) (tj_index t), tj_lowlink := fmupd v (tj_counter t) (tj_lowlink t),
       tj_counter := Suc (tj_counter t), tj_stack := v # tj_stack t, tj_on_stack := finsert v (tj_on_stack t)\<rparr>"

definition lower_link :: "string \<Rightarrow> nat \<Rightarrow> tarjan \<Rightarrow> tarjan" where
  "lower_link v n t =
     (if n < at_or_zero (tj_lowlink t) v then t\<lparr>tj_lowlink := fmupd v n (tj_lowlink t)\<rparr> else t)"

text \<open>The pop loop; reading the top of an empty stack panics.\<close>

fun pop_until :: "string \<Rightarrow> string list \<Rightarrow> string fset \<Rightarrow> string list \<Rightarrow> (string list \<times> string fset \<times> string list) option" where
  "pop_until v [] on component = None"
| "pop_until v (w # stack) on component =
     (if w = v then Some (stack, fminus on {|w|}, component @ [w])
      else pop_until v stack (fminus on {|w|}) (component @ [w]))"

definition close_node :: "string \<Rightarrow> tarjan \<Rightarrow> tarjan option" where
  "close_node v t =
     (if at_or_zero (tj_lowlink t) v = at_or_zero (tj_index t) v
      then (case pop_until v (tj_stack t) (tj_on_stack t) [] of
              None \<Rightarrow> None
            | Some (stack, on, component) \<Rightarrow>
                Some (t\<lparr>tj_stack := stack, tj_on_stack := on, tj_result := tj_result t @ [sort component]\<rparr>))
      else Some t)"

fun strong_connect :: "call_graph \<Rightarrow> nat \<Rightarrow> string \<Rightarrow> tarjan \<Rightarrow> tarjan option"
  and successors :: "call_graph \<Rightarrow> nat \<Rightarrow> string \<Rightarrow> string list \<Rightarrow> tarjan \<Rightarrow> tarjan option" where
  "strong_connect g 0 v t = None"
| "strong_connect g (Suc fuel) v t =
     (case successors g fuel v (callees_of g v) (open_node v t) of None \<Rightarrow> None | Some t' \<Rightarrow> close_node v t')"
| "successors g fuel v [] t = Some t"
| "successors g fuel v (w # ws) t =
     (if fmlookup (tj_index t) w = None then
        (case strong_connect g fuel w t of
           None \<Rightarrow> None
         | Some t' \<Rightarrow> successors g fuel v ws (lower_link v (at_or_zero (tj_lowlink t') w) t'))
      else if w |\<in>| tj_on_stack t then successors g fuel v ws (lower_link v (at_or_zero (tj_index t) w) t)
      else successors g fuel v ws t)"

fun connect_all :: "call_graph \<Rightarrow> nat \<Rightarrow> string list \<Rightarrow> tarjan \<Rightarrow> tarjan option" where
  "connect_all g fuel [] t = Some t"
| "connect_all g fuel (n # ns) t =
     (if fmlookup (tj_index t) n = None then
        (case strong_connect g fuel n t of None \<Rightarrow> None | Some t' \<Rightarrow> connect_all g fuel ns t')
      else connect_all g fuel ns t)"

definition tarjan_scc :: "call_graph \<Rightarrow> string list list option" where
  "tarjan_scc g = map_option tj_result (connect_all g (length (graph_nodes g)) (graph_nodes g) tarjan_start)"

subsection \<open>The invariant\<close>

definition calls_rel :: "call_graph \<Rightarrow> (string \<times> string) set" where
  "calls_rel g = {(x, y). y \<in> set (callees_of g x)}"

abbreviation reaches :: "call_graph \<Rightarrow> string \<Rightarrow> string \<Rightarrow> bool" where
  "reaches g x y \<equiv> (x, y) \<in> (calls_rel g)\<^sup>*"

definition visited :: "tarjan \<Rightarrow> string set" where "visited t = fmdom' (tj_index t)"
definition idx :: "tarjan \<Rightarrow> string \<Rightarrow> nat" where "idx t = at_or_zero (tj_index t)"
definition low :: "tarjan \<Rightarrow> string \<Rightarrow> nat" where "low t = at_or_zero (tj_lowlink t)"
definition popped :: "tarjan \<Rightarrow> string set" where "popped t = set (concat (tj_result t))"

text \<open>A strongly connected component: the nodes that reach a node and are reached from it.\<close>

definition component_of :: "call_graph \<Rightarrow> string \<Rightarrow> string set" where
  "component_of g x = {y. reaches g x y \<and> reaches g y x}"

definition callees_first :: "call_graph \<Rightarrow> string list list \<Rightarrow> bool" where
  "callees_first g cs \<longleftrightarrow>
     (\<forall>i < length cs. \<forall>x \<in> set (cs ! i). set (callees_of g x) \<subseteq> set (concat (take (Suc i) cs)))"

definition components_ok :: "call_graph \<Rightarrow> string list list \<Rightarrow> bool" where
  "components_ok g cs \<longleftrightarrow> callees_first g cs \<and> distinct (concat cs) \<and>
     (\<forall>c \<in> set cs. sorted c \<and> c \<noteq> [] \<and> (\<forall>x \<in> set c. set c = component_of g x))"

definition stack_ok :: "call_graph \<Rightarrow> string set \<Rightarrow> tarjan \<Rightarrow> bool" where
  "stack_ok g G t \<longleftrightarrow> G \<subseteq> set (tj_stack t) \<and>
     (\<forall>x \<in> set (tj_stack t). \<exists>y \<in> G. idx t y \<le> idx t x \<and> reaches g x y) \<and>
     (\<forall>x \<in> G. \<forall>y \<in> set (tj_stack t). idx t x \<le> idx t y \<longrightarrow> reaches g x y)"

definition state_ok :: "tarjan \<Rightarrow> bool" where
  "state_ok t \<longleftrightarrow> distinct (tj_stack t) \<and> fset (tj_on_stack t) = set (tj_stack t) \<and>
     visited t = set (tj_stack t) \<union> popped t \<and> set (tj_stack t) \<inter> popped t = {} \<and>
     sorted_wrt (\<lambda>x y. idx t y < idx t x) (tj_stack t) \<and> (\<forall>x \<in> visited t. idx t x < tj_counter t)"

text \<open>\<open>G\<close> holds the nodes whose call is under way.\<close>

definition tarjan_inv :: "call_graph \<Rightarrow> string set \<Rightarrow> tarjan \<Rightarrow> bool" where
  "tarjan_inv g G t \<longleftrightarrow> state_ok t \<and> stack_ok g G t \<and> components_ok g (tj_result t) \<and>
     (\<forall>x \<in> visited t - G. set (callees_of g x) \<subseteq> visited t) \<and> visited t \<subseteq> set (graph_nodes g)"

definition grows :: "string set \<Rightarrow> tarjan \<Rightarrow> tarjan \<Rightarrow> bool" where
  "grows X t t' \<longleftrightarrow> visited t \<subseteq> visited t' \<and> (\<forall>x \<in> visited t. idx t' x = idx t x) \<and>
     (\<forall>x \<in> visited t - X. low t' x = low t x) \<and> tj_counter t \<le> tj_counter t' \<and>
     suffix (tj_stack t) (tj_stack t') \<and> popped t \<subseteq> popped t'"

definition loop_ok :: "call_graph \<Rightarrow> string set \<Rightarrow> string \<Rightarrow> string list \<Rightarrow> string set \<Rightarrow> tarjan \<Rightarrow> bool" where
  "loop_ok g G v S D t \<longleftrightarrow> tarjan_inv g (insert v G) t \<and> v \<notin> G \<and> G \<subseteq> set S \<and> suffix (v # S) (tj_stack t) \<and>
     D \<subseteq> visited t \<and> low t v \<le> idx t v \<and>
     (\<exists>y \<in> set (tj_stack t). idx t y = low t v \<and> reaches g v y) \<and>
     (\<forall>x y. y \<in> set S \<and> y \<in> set (callees_of g x) \<and>
        (x \<in> set (tj_stack t) - set (v # S) \<or> x = v \<and> y \<in> D) \<longrightarrow> low t v \<le> idx t y)"

definition enters :: "call_graph \<Rightarrow> string set \<Rightarrow> string \<Rightarrow> tarjan \<Rightarrow> bool" where
  "enters g G v t \<longleftrightarrow> tarjan_inv g G t \<and> v \<notin> visited t \<and> v \<in> set (graph_nodes g) \<and> (\<forall>x \<in> G. reaches g x v)"

definition connected :: "call_graph \<Rightarrow> string set \<Rightarrow> string \<Rightarrow> tarjan \<Rightarrow> tarjan \<Rightarrow> bool" where
  "connected g G v t t' \<longleftrightarrow> tarjan_inv g G t' \<and> grows {} t t' \<and> v \<in> visited t' \<and> low t' v \<le> idx t' v \<and>
     tj_counter t \<le> idx t' v \<and> (v \<notin> set (tj_stack t') \<longrightarrow> low t' v = idx t' v) \<and>
     (v \<in> set (tj_stack t') \<longrightarrow> (\<exists>y \<in> set (tj_stack t). idx t' y = low t' v \<and> reaches g v y)) \<and>
     (\<forall>x y. x \<in> set (tj_stack t') - set (tj_stack t) \<and> y \<in> set (callees_of g x) \<and> y \<in> set (tj_stack t) \<longrightarrow>
        low t' v \<le> idx t' y)"

subsection \<open>Opening a node\<close>

lemma open_node_parts:
  "visited (open_node v t) = insert v (visited t)" "tj_stack (open_node v t) = v # tj_stack t"
  "popped (open_node v t) = popped t" "tj_result (open_node v t) = tj_result t"
  "idx (open_node v t) x = (if x = v then tj_counter t else idx t x)"
  "low (open_node v t) x = (if x = v then tj_counter t else low t x)"
  "tj_counter (open_node v t) = Suc (tj_counter t)" "tj_on_stack (open_node v t) = finsert v (tj_on_stack t)"
  by (auto simp: visited_def popped_def idx_def low_def open_node_def at_or_zero_def fmdom'_alt_def)

lemma open_loop:
  assumes "enters g G v t"
  shows "loop_ok g G v (tj_stack t) {} (open_node v t)" and "grows {v} t (open_node v t)"
proof -
  let ?t = "open_node v t"
  have inv: "tarjan_inv g G t" and v: "v \<notin> visited t" "v \<in> set (graph_nodes g)" and r: "\<And>x. x \<in> G \<Longrightarrow> reaches g x v"
    using assms by (auto simp: enters_def)
  have st: "state_ok t" and sk: "stack_ok g G t" using inv by (simp_all add: tarjan_inv_def)
  have vs: "v \<notin> set (tj_stack t)" "v \<notin> popped t" using v(1) st by (auto simp: state_ok_def)
  have lt: "x \<in> set (tj_stack t) \<Longrightarrow> idx t x < tj_counter t" for x using st by (auto simp: state_ok_def)
  have keep: "x \<in> set (tj_stack t) \<Longrightarrow> idx ?t x = idx t x" for x using vs by (auto simp: open_node_parts)
  have state: "state_ok ?t" unfolding state_ok_def
  proof (intro conjI)
    show "sorted_wrt (\<lambda>x y. idx ?t y < idx ?t x) (tj_stack ?t)"
      using st lt keep by (auto simp: state_ok_def open_node_parts(2) sorted_wrt_append
          intro: sorted_wrt_mono_rel [rotated]) (auto simp: open_node_parts)
    show "\<forall>x \<in> visited ?t. idx ?t x < tj_counter ?t"
      using st by (auto simp: state_ok_def open_node_parts less_Suc_eq)
  qed (use st vs in \<open>auto simp: state_ok_def open_node_parts\<close>)
  have stack: "stack_ok g (insert v G) ?t"
    unfolding stack_ok_def
  proof (intro conjI)
    show "insert v G \<subseteq> set (tj_stack ?t)" using sk by (auto simp: stack_ok_def open_node_parts)
    show "\<forall>x \<in> set (tj_stack ?t). \<exists>y \<in> insert v G. idx ?t y \<le> idx ?t x \<and> reaches g x y"
    proof
      fix x assume x: "x \<in> set (tj_stack ?t)"
      show "\<exists>y \<in> insert v G. idx ?t y \<le> idx ?t x \<and> reaches g x y"
      proof (cases "x = v")
        case False
        then have xs: "x \<in> set (tj_stack t)" using x by (simp add: open_node_parts)
        then obtain y where "y \<in> G" "idx t y \<le> idx t x" "reaches g x y" using sk by (auto simp: stack_ok_def)
        then show ?thesis using keep xs sk unfolding stack_ok_def by (metis insertI2 subsetD)
      qed auto
    qed
    show "\<forall>x \<in> insert v G. \<forall>y \<in> set (tj_stack ?t). idx ?t x \<le> idx ?t y \<longrightarrow> reaches g x y"
    proof (intro ballI impI)
      fix x y assume x: "x \<in> insert v G" and y: "y \<in> set (tj_stack ?t)" and le: "idx ?t x \<le> idx ?t y"
      show "reaches g x y"
      proof (cases "y = v")
        case True
        then show ?thesis using x r by auto
      next
        case False
        then have ys: "y \<in> set (tj_stack t)" using y by (simp add: open_node_parts)
        then have "x \<noteq> v" using le lt [OF ys] False by (auto simp: open_node_parts)
        then have xg: "x \<in> G" using x by simp
        then have "x \<in> set (tj_stack t)" using sk by (auto simp: stack_ok_def)
        then have "idx t x \<le> idx t y" using le keep ys by simp
        then show ?thesis using sk xg ys by (auto simp: stack_ok_def)
      qed
    qed
  qed
  have "tarjan_inv g (insert v G) ?t"
    using inv state stack v by (auto simp: tarjan_inv_def open_node_parts)
  then show "loop_ok g G v (tj_stack t) {} ?t"
    using sk vs by (auto simp: loop_ok_def stack_ok_def open_node_parts)
  show "grows {v} t ?t"
    using v by (auto simp: grows_def open_node_parts suffix_def)
qed

subsection \<open>Closing a node\<close>

lemma pop_until_split:
  "v \<notin> set new \<Longrightarrow> pop_until v (new @ v # S) on c = Some (S, fminus on (fset_of_list (new @ [v])), c @ new @ [v])"
proof (induction new arbitrary: on c)
  case (Cons w new)
  have "fminus (fminus on {|w|}) (fset_of_list (new @ [v])) = fminus on (fset_of_list ((w # new) @ [v]))"
    by (auto simp: fset_eq_iff)
  moreover have "w \<noteq> v" using Cons.prems by auto
  ultimately show ?case using Cons by simp
qed simp

lemma popped_closed:
  assumes "callees_first g cs" "x \<in> set (concat cs)"
  shows "set (callees_of g x) \<subseteq> set (concat cs)"
proof -
  obtain i where i: "i < length cs" "x \<in> set (cs ! i)" using assms(2) by (metis UN_E in_set_conv_nth set_concat)
  then have "set (callees_of g x) \<subseteq> set (concat (take (Suc i) cs))" using assms(1) by (auto simp: callees_first_def)
  also have "\<dots> \<subseteq> set (concat cs)" using set_take_subset [of "Suc i" cs] by auto
  finally show ?thesis .
qed

lemma reaches_closed:
  assumes "reaches g x y" "x \<in> X" "\<And>z. z \<in> X \<Longrightarrow> set (callees_of g z) \<subseteq> X"
  shows "y \<in> X"
  using assms(1,2)
proof (induction rule: rtrancl_induct)
  case (step y z)
  then show ?case using assms(3) by (auto simp: calls_rel_def)
qed simp

lemma stack_above:
  assumes "state_ok t" "tj_stack t = new @ v # S"
  shows "x \<in> set new \<Longrightarrow> idx t v < idx t x" and "x \<in> set S \<Longrightarrow> idx t x < idx t v"
    and "set new \<inter> insert v (set S) = {}" and "v \<notin> set S"
  using assms by (auto simp: state_ok_def sorted_wrt_append)

lemma component_closed:
  assumes loop: "loop_ok g G v S (set (callees_of g v)) t" and st: "tj_stack t = new @ v # S"
    and eq: "low t v = idx t v"
  shows "x \<in> set (new @ [v]) \<union> popped t \<Longrightarrow> set (callees_of g x) \<subseteq> set (new @ [v]) \<union> popped t"
proof
  fix y assume x: "x \<in> set (new @ [v]) \<union> popped t" and y: "y \<in> set (callees_of g x)"
  have inv: "tarjan_inv g (insert v G) t" and G: "v \<notin> G" "G \<subseteq> set S" and D: "set (callees_of g v) \<subseteq> visited t"
    using loop by (simp_all add: loop_ok_def)
  have ok: "state_ok t" using inv by (simp add: tarjan_inv_def)
  note ab = stack_above [OF ok st]
  show "y \<in> set (new @ [v]) \<union> popped t"
  proof (cases "x \<in> popped t")
    case True
    then show ?thesis
      using popped_closed [of g "tj_result t" x] inv y by (auto simp: tarjan_inv_def components_ok_def popped_def)
  next
    case False
    then have xn: "x \<in> set new \<or> x = v" using x by auto
    have "y \<in> visited t"
    proof (cases "x = v")
      case True
      then show ?thesis using D y by auto
    next
      case False
      then have "x \<in> visited t - insert v G" using xn ab(3) G(2) ok st by (auto simp: state_ok_def)
      then show ?thesis using inv y by (auto simp: tarjan_inv_def)
    qed
    moreover have "y \<notin> set S"
    proof
      assume yS: "y \<in> set S"
      have "x \<in> set (tj_stack t) - set (v # S) \<or> x = v \<and> y \<in> set (callees_of g v)"
        using xn ab(3,4) y st by auto
      then have "low t v \<le> idx t y" using loop yS y unfolding loop_ok_def by blast
      then show False using ab(2) [OF yS] eq by simp
    qed
    ultimately show ?thesis using ok st by (auto simp: state_ok_def)
  qed
qed

lemma component_found:
  assumes loop: "loop_ok g G v S (set (callees_of g v)) t" and st: "tj_stack t = new @ v # S"
    and eq: "low t v = idx t v" and x: "x \<in> set (new @ [v])"
  shows "set (new @ [v]) = component_of g x"
proof -
  let ?C = "set (new @ [v])"
  have inv: "tarjan_inv g (insert v G) t" and G: "v \<notin> G" "G \<subseteq> set S" using loop by (simp_all add: loop_ok_def)
  have ok: "state_ok t" and sk: "stack_ok g (insert v G) t" and comps: "components_ok g (tj_result t)"
    using inv by (simp_all add: tarjan_inv_def)
  note ab = stack_above [OF ok st]
  note closed = component_closed [OF loop st eq]
  have disj: "?C \<inter> popped t = {}" "set S \<inter> (?C \<union> popped t) = {}"
    using ok st ab(3,4) by (auto simp: state_ok_def)
  have stay: "reaches g z y \<Longrightarrow> z \<in> ?C \<Longrightarrow> y \<in> ?C \<union> popped t" for z y
    by (rule reaches_closed [of z y g]) (use closed in auto)
  have stay_popped: "reaches g z y \<Longrightarrow> z \<in> popped t \<Longrightarrow> y \<in> popped t" for z y
    by (rule reaches_closed [of z y g]) (use comps popped_closed [of g "tj_result t"] in \<open>auto simp: components_ok_def popped_def\<close>)
  have up: "reaches g v z" if "z \<in> ?C" for z
  proof -
    have "idx t v \<le> idx t z" using that ab(1) by (auto intro: less_imp_le)
    then show ?thesis using sk that st by (auto simp: stack_ok_def)
  qed
  have down: "reaches g z v" if z: "z \<in> ?C" for z
  proof -
    have "z \<in> set (tj_stack t)" using z st by auto
    then obtain y where y: "y \<in> insert v G" "reaches g z y" using sk unfolding stack_ok_def by blast
    then have "y \<in> ?C \<union> popped t" using stay z by blast
    then have "y = v" using y(1) G(2) disj(2) by auto
    then show ?thesis using y(2) by simp
  qed
  show ?thesis
  proof
    show "?C \<subseteq> component_of g x"
      using up down x by (auto simp: component_of_def intro: rtrancl_trans)
    show "component_of g x \<subseteq> ?C"
    proof
      fix y assume "y \<in> component_of g x"
      then have y: "reaches g x y" "reaches g y x" by (auto simp: component_of_def)
      then have "y \<in> ?C \<union> popped t" using stay x by blast
      moreover have "y \<notin> popped t" using stay_popped [OF y(2)] x disj(1) by blast
      ultimately show "y \<in> ?C" by blast
    qed
  qed
qed

lemma components_snoc:
  assumes "components_ok g cs" "set (concat cs) \<inter> set c = {}" "distinct c" "c \<noteq> []"
    and "\<And>x. x \<in> set c \<Longrightarrow> set c = component_of g x"
    and "\<And>x. x \<in> set c \<Longrightarrow> set (callees_of g x) \<subseteq> set c \<union> set (concat cs)"
  shows "components_ok g (cs @ [sort c])"
proof -
  have "callees_first g (cs @ [sort c])" unfolding callees_first_def
  proof (intro allI impI ballI)
    fix i x assume i: "i < length (cs @ [sort c])" and x: "x \<in> set ((cs @ [sort c]) ! i)"
    show "set (callees_of g x) \<subseteq> set (concat (take (Suc i) (cs @ [sort c])))"
    proof (cases "i < length cs")
      case True
      then have "x \<in> set (cs ! i)" using x by (simp add: nth_append)
      then have "set (callees_of g x) \<subseteq> set (concat (take (Suc i) cs))"
        using assms(1) True unfolding components_ok_def callees_first_def by blast
      then show ?thesis using True by auto
    next
      case False
      then have "i = length cs" using i by simp
      then show ?thesis using x assms(6) by (auto simp: nth_append)
    qed
  qed
  moreover have "sort c \<noteq> []" using assms(4) by (metis set_empty set_sort)
  ultimately show ?thesis using assms(1-5) by (auto simp: components_ok_def)
qed

lemma close_pops:
  assumes loop: "loop_ok g G v S (set (callees_of g v)) t" and st: "tj_stack t = new @ v # S"
    and eq: "low t v = idx t v"
  shows "\<exists>t'. close_node v t = Some t' \<and> tarjan_inv g G t' \<and> tj_stack t' = S \<and> popped t \<subseteq> popped t' \<and>
    tj_index t' = tj_index t \<and> tj_lowlink t' = tj_lowlink t \<and> tj_counter t' = tj_counter t"
proof -
  let ?c = "new @ [v]"
  have inv: "tarjan_inv g (insert v G) t" and G: "v \<notin> G" "G \<subseteq> set S" and D: "set (callees_of g v) \<subseteq> visited t"
    using loop by (simp_all add: loop_ok_def)
  have ok: "state_ok t" and sk: "stack_ok g (insert v G) t" and comps: "components_ok g (tj_result t)"
    using inv by (simp_all add: tarjan_inv_def)
  note ab = stack_above [OF ok st]
  define t' where "t' = t\<lparr>tj_stack := S, tj_on_stack := fminus (tj_on_stack t) (fset_of_list ?c),
      tj_result := tj_result t @ [sort ?c]\<rparr>"
  have vn: "v \<notin> set new" using ab(3) by auto
  have close: "close_node v t = Some t'"
    using eq pop_until_split [OF vn, of S "tj_on_stack t" "[]"] by (simp add: close_node_def st t'_def low_def idx_def)
  have parts: "visited t' = visited t" "tj_stack t' = S" "popped t' = popped t \<union> set ?c" "idx t' = idx t"
    "tj_counter t' = tj_counter t" "tj_on_stack t' = fminus (tj_on_stack t) (fset_of_list ?c)"
    by (auto simp: t'_def visited_def popped_def idx_def)
  have state: "state_ok t'"
    using ok ab(3,4) unfolding state_ok_def parts st
    by (auto simp: sorted_wrt_append fset_of_list.rep_eq)
  have stack: "stack_ok g G t'" unfolding stack_ok_def parts
  proof (intro conjI ballI)
    fix x assume x: "x \<in> set S"
    then have "x \<in> set (tj_stack t)" using st by simp
    then obtain y where "y \<in> insert v G" "idx t y \<le> idx t x" "reaches g x y" using sk unfolding stack_ok_def by blast
    then show "\<exists>y \<in> G. idx t y \<le> idx t x \<and> reaches g x y" using ab(2) [OF x] by auto
  next
    fix x y assume "x \<in> G" "y \<in> set S"
    then show "idx t x \<le> idx t y \<longrightarrow> reaches g x y" using sk st unfolding stack_ok_def by auto
  qed (use G in auto)
  have "components_ok g (tj_result t @ [sort ?c])"
  proof (rule components_snoc [OF comps])
    show "set (concat (tj_result t)) \<inter> set ?c = {}" using ok st by (auto simp: state_ok_def popped_def)
    show "distinct ?c" using ok st by (auto simp: state_ok_def)
    show "set ?c = component_of g x" if "x \<in> set ?c" for x by (rule component_found [OF loop st eq that])
    show "set (callees_of g x) \<subseteq> set ?c \<union> set (concat (tj_result t))" if "x \<in> set ?c" for x
      using component_closed [OF loop st eq, of x] that by (auto simp: popped_def)
  qed simp
  then have "tarjan_inv g G t'"
    using inv state stack D unfolding tarjan_inv_def parts by (auto simp: t'_def)
  then show ?thesis using close parts by (intro exI [of _ t']) (auto simp: t'_def)
qed

lemma close_keeps:
  assumes loop: "loop_ok g G v S (set (callees_of g v)) t" and st: "tj_stack t = new @ v # S"
    and lt: "low t v < idx t v"
  shows "tarjan_inv g G t" and "\<exists>y \<in> set S. idx t y = low t v \<and> reaches g v y"
proof -
  have inv: "tarjan_inv g (insert v G) t" and G: "v \<notin> G" "G \<subseteq> set S" and D: "set (callees_of g v) \<subseteq> visited t"
    and ex: "\<exists>y \<in> set (tj_stack t). idx t y = low t v \<and> reaches g v y"
    using loop by (simp_all add: loop_ok_def)
  have ok: "state_ok t" and sk: "stack_ok g (insert v G) t" using inv by (simp_all add: tarjan_inv_def)
  note ab = stack_above [OF ok st]
  obtain y where y: "y \<in> set (tj_stack t)" "idx t y = low t v" "reaches g v y" using ex by blast
  have yS: "y \<in> set S"
  proof -
    have "y \<notin> set new" "y \<noteq> v" using ab(1) [of y] y(2) lt by auto
    then show ?thesis using y(1) st by auto
  qed
  then show "\<exists>y \<in> set S. idx t y = low t v \<and> reaches g v y" using y by blast
  obtain z where z: "z \<in> insert v G" "idx t z \<le> idx t y" "reaches g y z" using sk y(1) unfolding stack_ok_def by blast
  then have zG: "z \<in> G" using y(2) lt by auto
  have "stack_ok g G t" unfolding stack_ok_def
  proof (intro conjI ballI)
    fix x assume x: "x \<in> set (tj_stack t)"
    then obtain w where w: "w \<in> insert v G" "idx t w \<le> idx t x" "reaches g x w" using sk unfolding stack_ok_def by blast
    show "\<exists>y \<in> G. idx t y \<le> idx t x \<and> reaches g x y"
    proof (cases "w = v")
      case True
      then have "reaches g x z" using w(3) y(3) z(3) by (meson rtrancl_trans)
      moreover have "idx t z \<le> idx t x" using z(2) y(2) lt w(2) True by simp
      ultimately show ?thesis using zG by blast
    qed (use w in auto)
  next
    fix x y assume "x \<in> G" "y \<in> set (tj_stack t)"
    then show "idx t x \<le> idx t y \<longrightarrow> reaches g x y" using sk unfolding stack_ok_def by auto
  qed (use G st in auto)
  then show "tarjan_inv g G t" using inv D unfolding tarjan_inv_def by auto
qed

lemma close_connected:
  assumes loop: "loop_ok g G v (tj_stack t0) (set (callees_of g v)) t" and gr: "grows {v} t0 t"
    and ent: "enters g G v t0" and cnt: "tj_counter t0 \<le> idx t v"
  shows "\<exists>t'. close_node v t = Some t' \<and> connected g G v t0 t'"
proof -
  let ?S = "tj_stack t0"
  obtain new where st: "tj_stack t = new @ v # ?S" using loop by (auto simp: loop_ok_def suffix_def)
  have ok: "state_ok t" using loop by (simp add: loop_ok_def tarjan_inv_def)
  note ab = stack_above [OF ok st]
  have vv: "v \<in> visited t" using ok st by (auto simp: state_ok_def)
  have gr0: "grows {} t0 t" using gr ent by (auto simp: grows_def enters_def)
  have le: "low t v \<le> idx t v" using loop by (simp add: loop_ok_def)
  show ?thesis
  proof (cases "low t v = idx t v")
    case True
    obtain t' where t': "close_node v t = Some t'" "tarjan_inv g G t'" "tj_stack t' = ?S" "popped t \<subseteq> popped t'"
      "tj_index t' = tj_index t" "tj_lowlink t' = tj_lowlink t" "tj_counter t' = tj_counter t"
      using close_pops [OF loop st True] by blast
    have same: "visited t' = visited t" "idx t' = idx t" "low t' = low t" using t' by (simp_all add: visited_def idx_def low_def)
    have "connected g G v t0 t'"
      unfolding connected_def same t'(3) using t'(2,4,7) gr0 vv le cnt True ab(4) same by (auto simp: grows_def t'(3))
    then show ?thesis using t'(1) by blast
  next
    case False
    then have lt: "low t v < idx t v" using le by simp
    note keeps = close_keeps [OF loop st lt]
    have "low t v \<le> idx t y" if "x \<in> set (tj_stack t) - set ?S" "y \<in> set (callees_of g x)" "y \<in> set ?S" for x y
      using loop that unfolding loop_ok_def by auto
    then have "connected g G v t0 t"
      unfolding connected_def using keeps gr0 vv le cnt st by auto
    moreover have "close_node v t = Some t" using False by (simp add: close_node_def low_def idx_def)
    ultimately show ?thesis by blast
  qed
qed

subsection \<open>One callee\<close>

lemma lower_link_parts:
  "visited (lower_link v n t) = visited t" "tj_stack (lower_link v n t) = tj_stack t"
  "popped (lower_link v n t) = popped t" "idx (lower_link v n t) = idx t"
  "tj_counter (lower_link v n t) = tj_counter t"
  "low (lower_link v n t) x = (if x = v then min n (low t v) else low t x)"
  "tarjan_inv g G (lower_link v n t) = tarjan_inv g G t"
  by (auto simp: lower_link_def visited_def popped_def idx_def low_def at_or_zero_def tarjan_inv_def stack_ok_def state_ok_def
      min_def)

lemma loop_visited:
  assumes loop: "loop_ok g G v S D t" and w: "w \<in> set (callees_of g v)" "w \<in> visited t"
  shows "loop_ok g G v S (insert w D) (if w |\<in>| tj_on_stack t then lower_link v (idx t w) t else t)"
proof -
  have ok: "state_ok t" using loop by (simp add: loop_ok_def tarjan_inv_def)
  then have on: "w |\<in>| tj_on_stack t \<longleftrightarrow> w \<in> set (tj_stack t)" by (auto simp: state_ok_def)
  have S: "set S \<subseteq> set (tj_stack t)" using loop by (auto simp: loop_ok_def suffix_def)
  have edge: "reaches g v w" using w(1) by (auto simp: calls_rel_def)
  show ?thesis
  proof (cases "w \<in> set (tj_stack t)")
    case False
    then have "w \<notin> set S" using S by blast
    then show ?thesis using loop w False on unfolding loop_ok_def by auto
  next
    case True
    have "\<exists>y \<in> set (tj_stack t). idx t y = min (idx t w) (low t v) \<and> reaches g v y"
      using loop True edge unfolding loop_ok_def by (auto simp: min_def)
    then show ?thesis using loop w True on unfolding loop_ok_def lower_link_parts
      by (auto simp: lower_link_parts min_le_iff_disj)
  qed
qed

lemma set_graph_nodes: "set (graph_nodes g) = (\<Union>v \<in> fset (fmdom g). insert v (set (callees_of g v)))"
  unfolding graph_nodes_def set_sorted_list_of_set [OF finite_set] by (simp add: sorted_list_of_fset.rep_eq)

lemma callee_node: "w \<in> set (callees_of g v) \<Longrightarrow> w \<in> set (graph_nodes g)"
proof -
  assume w: "w \<in> set (callees_of g v)"
  then have "v |\<in>| fmdom g" by (cases "fmlookup g v") (auto simp: callees_of_def fmlookup_dom_iff)
  then show ?thesis unfolding set_graph_nodes using w by blast
qed

lemma loop_enters:
  assumes loop: "loop_ok g G v S D t" and w: "w \<in> set (callees_of g v)" "w \<notin> visited t"
  shows "enters g (insert v G) w t"
proof -
  have inv: "tarjan_inv g (insert v G) t" and G: "G \<subseteq> set S" and suf: "suffix (v # S) (tj_stack t)"
    using loop by (simp_all add: loop_ok_def)
  obtain new where st: "tj_stack t = new @ v # S" using suf by (auto simp: suffix_def)
  have ok: "state_ok t" using inv by (simp add: tarjan_inv_def)
  have edge: "reaches g v w" using w(1) by (auto simp: calls_rel_def)
  have "w \<in> set (graph_nodes g)"
    using w(1) by (rule callee_node)
  moreover have "reaches g x w" if "x \<in> insert v G" for x
  proof -
    have "idx t x \<le> idx t v"
      using that G stack_above(2) [OF ok st, of x] by (auto intro: less_imp_le)
    then have "reaches g x v" using inv that st unfolding tarjan_inv_def stack_ok_def by auto
    then show ?thesis using edge by (rule rtrancl_trans)
  qed
  ultimately show ?thesis using inv w(2) by (simp add: enters_def)
qed

lemma loop_connected:
  assumes loop: "loop_ok g G v S D t" and w: "w \<in> set (callees_of g v)" "w \<notin> visited t"
    and con: "connected g (insert v G) w t t'"
  shows "loop_ok g G v S (insert w D) (lower_link v (low t' w) t')"
proof -
  have ok: "state_ok t" and inv: "tarjan_inv g (insert v G) t" and G: "v \<notin> G" "G \<subseteq> set S"
    using loop by (simp_all add: loop_ok_def tarjan_inv_def)
  obtain new where st: "tj_stack t = new @ v # S" using loop by (auto simp: loop_ok_def suffix_def)
  have gr: "grows {} t t'" and inv': "tarjan_inv g (insert v G) t'" using con by (simp_all add: connected_def)
  have sv: "set (tj_stack t) \<subseteq> visited t" using ok by (auto simp: state_ok_def)
  have same: "x \<in> visited t \<Longrightarrow> idx t' x = idx t x \<and> low t' x = low t x" for x using gr by (auto simp: grows_def)
  have v: "v \<in> visited t" using sv st by auto
  have suf: "suffix (v # S) (tj_stack t')"
  proof -
    have "suffix (v # S) (tj_stack t)" using st by (simp add: suffix_def)
    then show ?thesis using gr by (auto simp: grows_def intro: suffix_order.trans)
  qed
  have sub: "set (tj_stack t) \<subseteq> set (tj_stack t')" using gr by (auto simp: grows_def suffix_def)
  have wS: "w \<notin> set S" using w(2) sv st by auto
  have lv: "low t v \<le> idx t v" using loop by (simp add: loop_ok_def)
  have cnt: "idx t v < tj_counter t" using ok v by (auto simp: state_ok_def)
  have low: "\<exists>y \<in> set (tj_stack t'). idx t' y = min (low t' w) (low t v) \<and> reaches g v y"
  proof (cases "low t' w < low t v")
    case True
    then have "w \<in> set (tj_stack t')" using con lv cnt by (force simp: connected_def)
    then obtain y where y: "y \<in> set (tj_stack t)" "idx t' y = low t' w" "reaches g w y" using con by (auto simp: connected_def)
    moreover have "reaches g v y"
      using w(1) y(3) by (auto simp: calls_rel_def intro: converse_rtrancl_into_rtrancl)
    ultimately show ?thesis using True sub by (auto simp: min_def)
  next
    case False
    obtain y where "y \<in> set (tj_stack t)" "idx t y = low t v" "reaches g v y" using loop by (auto simp: loop_ok_def)
    then show ?thesis using False sub same sv by (metis min.absorb2 not_less subset_iff)
  qed
  have below: "min (low t' w) (low t v) \<le> idx t' y"
    if y: "y \<in> set S" "y \<in> set (callees_of g x)"
      and x: "x \<in> set (tj_stack t') - set (v # S) \<or> x = v \<and> y \<in> insert w D" for x y
  proof (cases "x \<in> set (tj_stack t') \<and> x \<notin> set (tj_stack t)")
    case True
    then show ?thesis using con y st unfolding connected_def by (auto simp: min_le_iff_disj)
  next
    case False
    then have "x \<in> set (tj_stack t) - set (v # S) \<or> x = v \<and> y \<in> D" using x y(1) wS by auto
    then have "low t v \<le> idx t y" using loop y unfolding loop_ok_def by blast
    then show ?thesis using same y(1) sv st by (auto simp: min_le_iff_disj)
  qed
  have D: "insert w D \<subseteq> visited t'" using loop gr con by (auto simp: loop_ok_def grows_def connected_def)
  have eq: "low (lower_link v (low t' w) t') v = min (low t' w) (low t v)" "idx t' v = idx t v"
    using same [OF v] by (simp_all add: lower_link_parts)
  show ?thesis unfolding loop_ok_def lower_link_parts(1-5,7) eq
  proof (intro conjI allI impI)
    fix x y assume "y \<in> set S \<and> y \<in> set (callees_of g x) \<and>
        (x \<in> set (tj_stack t') - set (v # S) \<or> x = v \<and> y \<in> insert w D)"
    then show "min (low t' w) (low t v) \<le> idx t' y" using below [of y x] by blast
  qed (use inv' G suf D lv low in \<open>auto simp: min_le_iff_disj\<close>)
qed

lemma grows_lower:
  assumes "grows {v} t0 t" "grows {} t t'"
  shows "grows {v} t0 (lower_link v n t')"
proof -
  have sub: "x \<in> visited t0 \<Longrightarrow> x \<in> visited t" for x using assms(1) by (auto simp: grows_def)
  have "low (lower_link v n t') x = low t0 x" if "x \<in> visited t0 - {v}" for x
    using that sub assms by (simp add: grows_def lower_link_parts)
  moreover have "idx t' x = idx t0 x" if "x \<in> visited t0" for x
    using that sub assms by (simp add: grows_def)
  moreover have "suffix (tj_stack t0) (tj_stack t')"
    using assms by (auto simp: grows_def intro: suffix_order.trans)
  moreover have "visited t0 \<subseteq> visited t'" "popped t0 \<subseteq> popped t'" "tj_counter t0 \<le> tj_counter t'"
    using assms by (auto simp: grows_def)
  ultimately show ?thesis unfolding grows_def lower_link_parts(1-5) by blast
qed

text \<open>Enough fuel: one unit for each node that is not visited yet.\<close>

definition unvisited :: "call_graph \<Rightarrow> tarjan \<Rightarrow> nat" where
  "unvisited g t = card (set (graph_nodes g) - visited t)"

lemma unvisited_mono: "visited t \<subseteq> visited t' \<Longrightarrow> unvisited g t' \<le> unvisited g t"
  unfolding unvisited_def by (rule card_mono) auto

lemma unvisited_open: "v \<in> set (graph_nodes g) \<Longrightarrow> v \<notin> visited t \<Longrightarrow> unvisited g t = Suc (unvisited g (open_node v t))"
proof -
  assume v: "v \<in> set (graph_nodes g)" "v \<notin> visited t"
  have "set (graph_nodes g) - visited t = insert v (set (graph_nodes g) - visited (open_node v t))"
    using v by (auto simp: open_node_parts)
  moreover have "v \<notin> set (graph_nodes g) - visited (open_node v t)" by (simp only: open_node_parts) blast
  ultimately show ?thesis unfolding unvisited_def
    by (simp only: card_insert_disjoint [OF finite_Diff [OF finite_set]] not_False_eq_True)
qed

lemma lookup_visited: "fmlookup (tj_index t) w = None \<longleftrightarrow> w \<notin> visited t"
  by (auto simp: visited_def fmlookup_dom'_iff)

lemma connect_returns:
  shows "\<lbrakk>enters g G v t; unvisited g t \<le> fuel\<rbrakk> \<Longrightarrow>
      \<exists>t'. strong_connect g fuel v t = Some t' \<and> connected g G v t t'"
    and "\<lbrakk>loop_ok g G v S D t; grows {v} t0 t; set ws \<subseteq> set (callees_of g v); unvisited g t \<le> fuel\<rbrakk> \<Longrightarrow>
      \<exists>t'. successors g fuel v ws t = Some t' \<and> loop_ok g G v S (D \<union> set ws) t' \<and> grows {v} t0 t' \<and> idx t' v = idx t v"
proof (induction g fuel v t and g fuel v ws t arbitrary: G and G S D t0 rule: strong_connect_successors.induct)
  case (1 g v t)
  then show ?case by (auto simp: enters_def unvisited_def)
next
  case (2 g fuel v t)
  have v: "v \<in> set (graph_nodes g)" "v \<notin> visited t" using 2(2) by (simp_all add: enters_def)
  have fuel: "unvisited g (open_node v t) \<le> fuel" using 2(3) unvisited_open [OF v] by simp
  obtain t' where t': "successors g fuel v (callees_of g v) (open_node v t) = Some t'"
    "loop_ok g G v (tj_stack t) (set (callees_of g v)) t'" "grows {v} t t'" "idx t' v = idx (open_node v t) v"
    using 2(1) [OF open_loop(1) [OF 2(2)] open_loop(2) [OF 2(2)] subset_refl fuel] by auto
  then show ?case
    using close_connected [OF t'(2,3) 2(2)] by (simp add: open_node_parts)
next
  case (3 g fuel v t)
  then show ?case by auto
next
  case (4 g fuel v w ws t)
  note loop = "4.prems"(1) and gr = "4.prems"(2)
  have w: "w \<in> set (callees_of g v)" and ws: "set ws \<subseteq> set (callees_of g v)" using "4.prems"(3) by auto
  have ok: "state_ok t" using loop by (simp add: loop_ok_def tarjan_inv_def)
  have v: "v \<in> visited t" using loop ok by (auto simp: loop_ok_def state_ok_def suffix_def)
  show ?case
  proof (cases "w \<in> visited t")
    case False
    have "\<exists>t'. strong_connect g fuel w t = Some t' \<and> connected g (insert v G) w t t'"
      using "4.IH"(1) [OF _ loop_enters [OF loop w False] "4.prems"(4)] False by (simp add: lookup_visited)
    then obtain t' where t': "strong_connect g fuel w t = Some t'" "connected g (insert v G) w t t'" by blast
    let ?t = "lower_link v (low t' w) t'"
    have grt: "grows {} t t'" using t'(2) by (simp add: connected_def)
    have lp: "loop_ok g G v S (insert w D) ?t" by (rule loop_connected [OF loop w False t'(2)])
    have g0: "grows {v} t0 ?t" by (rule grows_lower [OF gr grt])
    have fuel: "unvisited g ?t \<le> fuel"
      using unvisited_mono [of t ?t g] grt "4.prems"(4) by (simp add: grows_def lower_link_parts)
    have i: "idx ?t v = idx t v" using grt v by (simp add: grows_def lower_link_parts)
    obtain t'' where "successors g fuel v ws ?t = Some t''" "loop_ok g G v S (insert w D \<union> set ws) t''"
      "grows {v} t0 t''" "idx t'' v = idx ?t v"
      using "4.IH"(2) [OF _ t'(1) lp [unfolded low_def] g0 [unfolded low_def] ws fuel [unfolded low_def]] False
      by (auto simp: lookup_visited low_def)
    then show ?thesis using False t'(1) i by (auto simp: lookup_visited low_def)
  next
    case True
    let ?t = "if w |\<in>| tj_on_stack t then lower_link v (idx t w) t else t"
    have lp: "loop_ok g G v S (insert w D) ?t" by (rule loop_visited [OF loop w True])
    have "grows {} t t" by (simp add: grows_def)
    then have g0: "grows {v} t0 ?t" using gr grows_lower [OF gr, of t "idx t w"] by simp
    have fuel: "unvisited g ?t \<le> fuel" using "4.prems"(4) by (simp add: unvisited_def lower_link_parts)
    have i: "idx ?t v = idx t v" by (simp add: lower_link_parts)
    have "\<exists>t''. successors g fuel v ws ?t = Some t'' \<and> loop_ok g G v S (insert w D \<union> set ws) t'' \<and>
        grows {v} t0 t'' \<and> idx t'' v = idx ?t v"
    proof (cases "w |\<in>| tj_on_stack t")
      case on: True
      show ?thesis
        using "4.IH"(3) [OF _ on lp [unfolded if_P [OF on] idx_def] g0 [unfolded if_P [OF on] idx_def] ws
            fuel [unfolded if_P [OF on] idx_def]] True on by (simp add: lookup_visited idx_def)
    next
      case off: False
      show ?thesis
        using "4.IH"(4) [OF _ off lp [unfolded if_not_P [OF off]] g0 [unfolded if_not_P [OF off]] ws
            fuel [unfolded if_not_P [OF off]]] True off by (simp add: lookup_visited)
    qed
    then show ?thesis using True i by (auto simp: lookup_visited idx_def split: if_splits)
  qed
qed

subsection \<open>The components of the graph\<close>

lemma start_ok: "tarjan_inv g {} tarjan_start"
  by (simp add: tarjan_inv_def state_ok_def stack_ok_def components_ok_def callees_first_def tarjan_start_def
      visited_def popped_def)

lemma empty_stack: "tarjan_inv g {} t \<Longrightarrow> tj_stack t = []"
  by (cases "tj_stack t") (auto simp: tarjan_inv_def stack_ok_def)

lemma connect_all_returns:
  "\<lbrakk>tarjan_inv g {} t; set ns \<subseteq> set (graph_nodes g); length (graph_nodes g) \<le> fuel\<rbrakk> \<Longrightarrow>
    \<exists>t'. connect_all g fuel ns t = Some t' \<and> tarjan_inv g {} t' \<and> visited t \<union> set ns \<subseteq> visited t'"
proof (induction ns arbitrary: t)
  case (Cons n ns)
  show ?case
  proof (cases "n \<in> visited t")
    case True
    obtain t' where "connect_all g fuel ns t = Some t'" "tarjan_inv g {} t'" "visited t \<union> set ns \<subseteq> visited t'"
      using Cons.IH [OF Cons.prems(1) _ Cons.prems(3)] Cons.prems(2) by auto
    then show ?thesis using True by (auto simp: lookup_visited)
  next
    case False
    have "unvisited g t \<le> card (set (graph_nodes g))" unfolding unvisited_def by (rule card_mono) auto
    then have fuel: "unvisited g t \<le> fuel"
      using card_length [of "graph_nodes g"] Cons.prems(3) by linarith
    have "enters g {} n t" using Cons.prems False by (simp add: enters_def)
    then obtain t1 where t1: "strong_connect g fuel n t = Some t1" "connected g {} n t t1"
      using connect_returns(1) fuel by blast
    then have "tarjan_inv g {} t1" "visited t \<subseteq> visited t1" "n \<in> visited t1" by (auto simp: connected_def grows_def)
    moreover obtain t' where "connect_all g fuel ns t1 = Some t'" "tarjan_inv g {} t'" "visited t1 \<union> set ns \<subseteq> visited t'"
      using Cons.IH [OF \<open>tarjan_inv g {} t1\<close>] Cons.prems by auto
    ultimately show ?thesis using t1(1) False by (auto simp: lookup_visited)
  qed
qed simp

lemma tarjan_components:
  "\<exists>cs. tarjan_scc g = Some cs \<and> set (concat cs) = set (graph_nodes g) \<and> distinct (concat cs) \<and>
     (\<forall>c \<in> set cs. sorted c \<and> c \<noteq> [] \<and> (\<forall>x \<in> set c. set c = component_of g x)) \<and> callees_first g cs"
proof -
  obtain t where t: "connect_all g (length (graph_nodes g)) (graph_nodes g) tarjan_start = Some t"
    "tarjan_inv g {} t" "set (graph_nodes g) \<subseteq> visited t"
    using connect_all_returns [OF start_ok subset_refl order_refl] by blast
  have "visited t = set (concat (tj_result t))"
    using t(2) empty_stack [OF t(2)] by (simp add: tarjan_inv_def state_ok_def popped_def)
  then show ?thesis
    using t unfolding tarjan_scc_def tarjan_inv_def components_ok_def by auto
qed

text \<open>
  C14: \<open>TarjanSCC\<close> returns, without running out of stack, the strongly connected components of the call
  graph: every node is in exactly one list, each list is sorted and is the set of the nodes mutually
  reachable with any of its members, and no list calls into a later one.
\<close>

theorem tarjan_finds_components:
  "\<exists>cs. tarjan_scc g = Some cs \<and> set (concat cs) = set (graph_nodes g) \<and> distinct (concat cs) \<and>
     (\<forall>c \<in> set cs. sorted c \<and> c \<noteq> [] \<and> (\<forall>x \<in> set c. set c = component_of g x)) \<and> callees_first g cs"
  by (rule tarjan_components)

definition pair_cycle :: call_graph where
  "pair_cycle = fmap_of_list [(''a'', [''b'']), (''b'', [''a''])]"

lemma pair_cycle_nodes: "set (graph_nodes pair_cycle) = {''a'', ''b''}"
  unfolding set_graph_nodes by (auto simp: pair_cycle_def callees_of_def)

theorem tarjan_finds_components_witness:
  "\<exists>cs. tarjan_scc pair_cycle = Some cs \<and> {''a'', ''b''} \<in> set ` set cs"
proof -
  obtain cs where *: "tarjan_scc pair_cycle = Some cs \<and> set (concat cs) = set (graph_nodes pair_cycle) \<and> distinct (concat cs) \<and>
     (\<forall>c \<in> set cs. sorted c \<and> c \<noteq> [] \<and> (\<forall>x \<in> set c. set c = component_of pair_cycle x)) \<and> callees_first pair_cycle cs"
    using tarjan_finds_components [of pair_cycle] by (rule exE)
  note cs = conjunct1 [OF *] conjunct1 [OF conjunct2 [OF *]] conjunct1 [OF conjunct2 [OF conjunct2 [OF conjunct2 [OF *]]]]
  have "''a'' \<in> set (concat cs)" unfolding cs(2) pair_cycle_nodes by (rule insertI1)
  then obtain c where c: "c \<in> set cs" "''a'' \<in> set c" unfolding set_concat by blast
  have "(''a'', ''b'') \<in> calls_rel pair_cycle" "(''b'', ''a'') \<in> calls_rel pair_cycle"
    by (simp_all add: calls_rel_def callees_of_def pair_cycle_def)
  then have "''b'' \<in> component_of pair_cycle ''a''" unfolding component_of_def by blast
  moreover have "set c = component_of pair_cycle ''a''" using cs(3) c by blast
  moreover have "set c \<subseteq> {''a'', ''b''}"
    unfolding pair_cycle_nodes [symmetric] cs(2) [symmetric] set_concat using c(1) by blast
  ultimately have "set c = {''a'', ''b''}" using c(2) by blast
  then show ?thesis using cs(1) c(1) by (metis imageI)
qed

end
