(* ===== verification/Interproc.thy ===== *)
theory Interproc
  imports Concept Scc TrustScope
begin

text \<open>
  The interprocedural solver of \<open>engine/analysis/interproc\<close>: the resource caps (\<open>caps.go\<close>), the summary
  cache (\<open>summary.go\<close>), the fixpoint over the components of the call graph (\<open>fixpoint.go\<close>) and the analyzer
  that builds the call graph (\<open>interproc.go\<close>).  \<open>sha\<close> stands for SHA-256 in hexadecimal; a diagnostic
  is the value its text is printed from; \<open>polls\<close> gives what the n-th check of the context finds.
\<close>

subsection \<open>Caps\<close>

record caps =
  cp_procedures :: int
  cp_iterations :: int
  cp_scc_size :: int
  cp_entries :: int
  cp_work :: int

definition default_caps :: caps where
  "default_caps = \<lparr>cp_procedures = 5000, cp_iterations = 50, cp_scc_size = 100, cp_entries = 10000, cp_work = 500000\<rparr>"

record cap_hit =
  ch_cap :: string
  ch_value :: int
  ch_limit :: int

definition check_cap :: "string \<Rightarrow> int \<Rightarrow> int \<Rightarrow> cap_hit option" where
  "check_cap name limit n =
     (if limit > 0 \<and> n > limit then Some \<lparr>ch_cap = name, ch_value = n, ch_limit = limit\<rparr> else None)"

definition check_procedures :: "caps \<Rightarrow> int \<Rightarrow> cap_hit option" where
  "check_procedures c n = check_cap ''max_procedures'' (cp_procedures c) n"
definition check_iterations :: "caps \<Rightarrow> int \<Rightarrow> cap_hit option" where
  "check_iterations c n = check_cap ''max_iterations'' (cp_iterations c) n"
definition check_scc_size :: "caps \<Rightarrow> int \<Rightarrow> cap_hit option" where
  "check_scc_size c n = check_cap ''max_scc_size'' (cp_scc_size c) n"
definition check_summary_entries :: "caps \<Rightarrow> int \<Rightarrow> cap_hit option" where
  "check_summary_entries c n = check_cap ''max_summary_entries'' (cp_entries c) n"
definition check_total_work :: "caps \<Rightarrow> int \<Rightarrow> cap_hit option" where
  "check_total_work c n = check_cap ''max_total_work'' (cp_work c) n"

subsection \<open>Summaries and their cache\<close>

record summary =
  su_proc :: string
  su_hash :: string
  su_inputs :: "string list"
  su_outputs :: "string list"
  su_approximate :: bool
  su_iterations :: int

definition summary_equal :: "summary \<Rightarrow> summary \<Rightarrow> bool" where
  "summary_equal s s' \<longleftrightarrow> su_outputs s = su_outputs s'"

definition content_key :: "(string \<Rightarrow> string) \<Rightarrow> string \<Rightarrow> string list \<Rightarrow> string" where
  "content_key sha p labels = sha (''proc='' @ p @ '';inputs='' @ join_with '','' (sort labels))"

record cache_stats =
  cs_hits :: int
  cs_misses :: int
  cs_evictions :: int
  cs_size :: int

record summary_cache =
  sc_entries :: "(string, summary) fmap"
  sc_order :: "string list"
  sc_max :: int
  sc_hits :: int
  sc_misses :: int
  sc_evictions :: int

definition new_summary_cache :: "int \<Rightarrow> summary_cache" where
  "new_summary_cache mx =
     \<lparr>sc_entries = fmempty, sc_order = [], sc_max = mx, sc_hits = 0, sc_misses = 0, sc_evictions = 0\<rparr>"

definition cache_get :: "summary_cache \<Rightarrow> string \<Rightarrow> summary option" where
  "cache_get c ck = fmlookup (sc_entries c) ck"

definition cache_size :: "summary_cache \<Rightarrow> int" where
  "cache_size c = int (fcard (fmdom (sc_entries c)))"

definition evict_oldest :: "summary_cache \<Rightarrow> summary_cache" where
  "evict_oldest c =
     (case sc_order c of
        [] \<Rightarrow> c
      | oldest # rest \<Rightarrow>
          c\<lparr>sc_order := rest, sc_entries := fmdrop oldest (sc_entries c), sc_evictions := sc_evictions c + 1\<rparr>)"

definition cache_put :: "summary_cache \<Rightarrow> string \<Rightarrow> summary \<Rightarrow> summary_cache" where
  "cache_put c ck s =
     (if fmlookup (sc_entries c) ck \<noteq> None then c\<lparr>sc_entries := fmupd ck s (sc_entries c)\<rparr>
      else let c' = (if sc_max c > 0 \<and> cache_size c \<ge> sc_max c then evict_oldest c else c)
           in c'\<lparr>sc_entries := fmupd ck s (sc_entries c'), sc_order := sc_order c' @ [ck]\<rparr>)"

definition record_hit :: "summary_cache \<Rightarrow> summary_cache" where
  "record_hit c = c\<lparr>sc_hits := sc_hits c + 1\<rparr>"
definition record_miss :: "summary_cache \<Rightarrow> summary_cache" where
  "record_miss c = c\<lparr>sc_misses := sc_misses c + 1\<rparr>"

definition stats_of :: "summary_cache \<Rightarrow> cache_stats" where
  "stats_of c = \<lparr>cs_hits = sc_hits c, cs_misses = sc_misses c, cs_evictions = sc_evictions c, cs_size = cache_size c\<rparr>"

subsection \<open>The solver\<close>

type_synonym transfer = "string list \<Rightarrow> (string \<Rightarrow> summary) \<Rightarrow> string list"

record proc_body =
  pb_id :: string
  pb_callees :: "string list"
  pb_inputs :: "string list"
  pb_transfer :: "transfer option"

datatype diagnostic = CapExceeded cap_hit | CapExceededForScc "string list" cap_hit

definition default_widening_threshold :: int where "default_widening_threshold = 3"

record fixpoint_solver =
  fx_caps :: caps
  fx_widening :: int
  fx_cache :: summary_cache

definition new_fixpoint_solver :: "caps \<Rightarrow> int \<Rightarrow> summary_cache option \<Rightarrow> fixpoint_solver" where
  "new_fixpoint_solver c widening cache =
     \<lparr>fx_caps = c, fx_widening = (if widening \<le> 0 then default_widening_threshold else widening),
      fx_cache = (case cache of None \<Rightarrow> new_summary_cache (cp_entries c) | Some k \<Rightarrow> k)\<rparr>"

record solve_state =
  ss_summaries :: "(string, summary) fmap"
  ss_diags :: "diagnostic list"
  ss_cache :: summary_cache
  ss_work :: int
  ss_polls :: nat

definition empty_summary :: "string \<Rightarrow> summary" where
  "empty_summary p = \<lparr>su_proc = p, su_hash = [], su_inputs = [], su_outputs = [], su_approximate = False, su_iterations = 0\<rparr>"

definition callee_lookup :: "(string, summary) fmap \<Rightarrow> string \<Rightarrow> summary" where
  "callee_lookup known p = (case fmlookup known p of Some s \<Rightarrow> s | None \<Rightarrow> empty_summary p)"

definition output_labels :: "bool \<Rightarrow> proc_body \<Rightarrow> (string, summary) fmap \<Rightarrow> string list" where
  "output_labels widening body known =
     (if widening then pb_inputs body
      else case pb_transfer body of
             Some f \<Rightarrow> f (pb_inputs body) (callee_lookup known)
           | None \<Rightarrow> pb_inputs body)"

definition new_summary :: "(string \<Rightarrow> string) \<Rightarrow> string \<Rightarrow> proc_body \<Rightarrow> bool \<Rightarrow> int \<Rightarrow> (string, summary) fmap \<Rightarrow> summary" where
  "new_summary sha p body widening iteration known =
     \<lparr>su_proc = p, su_hash = content_key sha p (pb_inputs body), su_inputs = pb_inputs body,
      su_outputs = sort (output_labels widening body known), su_approximate = widening, su_iterations = iteration\<rparr>"

definition add_diag :: "diagnostic \<Rightarrow> solve_state \<Rightarrow> solve_state" where
  "add_diag d st = st\<lparr>ss_diags := ss_diags st @ [d]\<rparr>"

definition store_summary :: "caps \<Rightarrow> string \<Rightarrow> string \<Rightarrow> summary \<Rightarrow> solve_state \<Rightarrow> solve_state" where
  "store_summary c ck p s st =
     (let st1 = st\<lparr>ss_summaries := fmupd p s (ss_summaries st)\<rparr>
      in case check_summary_entries c (cache_size (ss_cache st1) + 1) of
           Some hit \<Rightarrow> add_diag (CapExceeded hit) st1
         | None \<Rightarrow> st1\<lparr>ss_cache := cache_put (ss_cache st1) ck s\<rparr>)"

text \<open>One pass over a component: the state, whether a summary changed, whether the work cap ended the run.\<close>

fun scc_pass ::
  "(string \<Rightarrow> string) \<Rightarrow> caps \<Rightarrow> (string, proc_body) fmap \<Rightarrow> bool \<Rightarrow> int \<Rightarrow> string list \<Rightarrow> solve_state \<Rightarrow> bool
     \<Rightarrow> solve_state \<times> bool \<times> bool" where
  "scc_pass sha c procs widening iteration [] st changed = (st, changed, False)"
| "scc_pass sha c procs widening iteration (p # ps) st changed =
     (case fmlookup procs p of
        None \<Rightarrow> scc_pass sha c procs widening iteration ps st changed
      | Some body \<Rightarrow>
          (let st1 = st\<lparr>ss_work := ss_work st + 1\<rparr>;
               ck = content_key sha p (pb_inputs body)
           in case check_total_work c (ss_work st1) of
                Some hit \<Rightarrow> (add_diag (CapExceeded hit) st1, changed, True)
              | None \<Rightarrow>
                  (case cache_get (ss_cache st1) ck of
                     Some cached \<Rightarrow>
                       scc_pass sha c procs widening iteration ps
                         (st1\<lparr>ss_cache := record_hit (ss_cache st1),
                              ss_summaries := (if fmlookup (ss_summaries st1) p = None then fmupd p cached (ss_summaries st1)
                                               else ss_summaries st1)\<rparr>) changed
                   | None \<Rightarrow>
                       (let st2 = st1\<lparr>ss_cache := record_miss (ss_cache st1)\<rparr>;
                            s = new_summary sha p body widening iteration (ss_summaries st2);
                            changed' = (case fmlookup (ss_summaries st2) p of
                                          Some prev \<Rightarrow> changed \<or> \<not> summary_equal prev s
                                        | None \<Rightarrow> True)
                        in scc_pass sha c procs widening iteration ps (store_summary c ck p s st2) changed'))))"

definition mark_approximate :: "string list \<Rightarrow> (string, summary) fmap \<Rightarrow> (string, summary) fmap" where
  "mark_approximate scc known =
     fold (\<lambda>p m. case fmlookup m p of Some s \<Rightarrow> fmupd p (s\<lparr>su_approximate := True\<rparr>) m | None \<Rightarrow> m) scc known"

datatype solve_end = Proceed solve_state | EndRun solve_state | Interrupted solve_state store_error

text \<open>The loop over a component, which has no bound of its own.\<close>

partial_function (option) scc_loop ::
  "(string \<Rightarrow> string) \<Rightarrow> (nat \<Rightarrow> store_error option) \<Rightarrow> caps \<Rightarrow> int \<Rightarrow> (string, proc_body) fmap \<Rightarrow> string list
     \<Rightarrow> int \<Rightarrow> solve_state \<Rightarrow> bool \<Rightarrow> solve_end option" where
  "scc_loop sha polls c threshold procs scc iteration st changed =
     (if \<not> changed then Some (Proceed st)
      else case polls (ss_polls st) of
        Some err \<Rightarrow> Some (Interrupted (st\<lparr>ss_polls := Suc (ss_polls st)\<rparr>) err)
      | None \<Rightarrow>
          (case check_iterations c (iteration + 1) of
             Some hit \<Rightarrow>
               Some (Proceed ((add_diag (CapExceededForScc scc hit) (st\<lparr>ss_polls := Suc (ss_polls st)\<rparr>))
                       \<lparr>ss_summaries := mark_approximate scc (ss_summaries st)\<rparr>))
           | None \<Rightarrow>
               (case scc_pass sha c procs (iteration + 1 > threshold) (iteration + 1) scc
                       (st\<lparr>ss_polls := Suc (ss_polls st)\<rparr>) False of
                  (st', changed', ended) \<Rightarrow>
                    if ended then Some (EndRun st')
                    else scc_loop sha polls c threshold procs scc (iteration + 1) st' changed')))"

definition make_approximate_summary :: "(string \<Rightarrow> string) \<Rightarrow> string \<Rightarrow> string list \<Rightarrow> int \<Rightarrow> summary" where
  "make_approximate_summary sha p labels iterations =
     \<lparr>su_proc = p, su_hash = content_key sha p labels, su_inputs = labels, su_outputs = sort labels,
      su_approximate = True, su_iterations = iterations\<rparr>"

fun approximate_scc ::
  "(string \<Rightarrow> string) \<Rightarrow> (string, proc_body) fmap \<Rightarrow> string list \<Rightarrow> solve_state \<Rightarrow> solve_state" where
  "approximate_scc sha procs [] st = st"
| "approximate_scc sha procs (p # ps) st =
     (case fmlookup procs p of
        None \<Rightarrow> approximate_scc sha procs ps st
      | Some body \<Rightarrow>
          (let s = make_approximate_summary sha p (pb_inputs body) 0
           in approximate_scc sha procs ps
                (st\<lparr>ss_summaries := fmupd p s (ss_summaries st),
                    ss_cache := cache_put (ss_cache st) (content_key sha p (pb_inputs body)) s\<rparr>)))"

fun solve_sccs ::
  "(string \<Rightarrow> string) \<Rightarrow> (nat \<Rightarrow> store_error option) \<Rightarrow> caps \<Rightarrow> int \<Rightarrow> (string, proc_body) fmap \<Rightarrow> string list list
     \<Rightarrow> solve_state \<Rightarrow> solve_end option" where
  "solve_sccs sha polls c threshold procs [] st = Some (Proceed st)"
| "solve_sccs sha polls c threshold procs (scc # sccs) st =
     (let st1 = st\<lparr>ss_polls := Suc (ss_polls st)\<rparr>
      in case polls (ss_polls st) of
           Some err \<Rightarrow> Some (Interrupted st1 err)
         | None \<Rightarrow>
             (case check_scc_size c (int (length scc)) of
                Some hit \<Rightarrow>
                  solve_sccs sha polls c threshold procs sccs
                    (approximate_scc sha procs scc (add_diag (CapExceededForScc scc hit) st1))
              | None \<Rightarrow>
                  (case scc_loop sha polls c threshold procs scc 0 st1 True of
                     None \<Rightarrow> None
                   | Some (Proceed st2) \<Rightarrow> solve_sccs sha polls c threshold procs sccs st2
                   | Some e \<Rightarrow> Some e)))"

record solve_result =
  so_summaries :: "(string, summary) fmap"
  so_sccs :: "string list list"
  so_diags :: "diagnostic list"
  so_stats :: cache_stats

definition zero_stats :: cache_stats where
  "zero_stats = \<lparr>cs_hits = 0, cs_misses = 0, cs_evictions = 0, cs_size = 0\<rparr>"

text \<open>The result, the error, and the cache the run leaves.\<close>

definition solve ::
  "(string \<Rightarrow> string) \<Rightarrow> (nat \<Rightarrow> store_error option) \<Rightarrow> fixpoint_solver \<Rightarrow> (string, proc_body) fmap \<Rightarrow> string list list
     \<Rightarrow> (solve_result \<times> store_error option \<times> summary_cache) option" where
  "solve sha polls fx procs sccs =
     (let c = fx_caps fx;
          diags = (case check_procedures c (int (fcard (fmdom procs))) of None \<Rightarrow> [] | Some hit \<Rightarrow> [CapExceeded hit]);
          st = \<lparr>ss_summaries = fmempty, ss_diags = diags, ss_cache = fx_cache fx, ss_work = 0, ss_polls = 0\<rparr>;
          result = (\<lambda>st stats. \<lparr>so_summaries = ss_summaries st, so_sccs = sccs, so_diags = ss_diags st, so_stats = stats\<rparr>)
      in case solve_sccs sha polls c (fx_widening fx) procs sccs st of
           None \<Rightarrow> None
         | Some (Proceed st') \<Rightarrow> Some (result st' (stats_of (ss_cache st')), None, ss_cache st')
         | Some (EndRun st') \<Rightarrow> Some (result st' (stats_of (ss_cache st')), None, ss_cache st')
         | Some (Interrupted st' err) \<Rightarrow> Some (result st' zero_stats, Some err, ss_cache st'))"

subsection \<open>The analyzer\<close>

definition build_transfer :: "string list \<Rightarrow> transfer" where
  "build_transfer qs = (\<lambda>input look.
     sorted_list_of_set (set (input @ concat (map (\<lambda>q. su_outputs (look q)) qs))))"

definition call_graph_of :: "edge list \<Rightarrow> call_graph" where
  "call_graph_of es =
     fmmap sort (fold (\<lambda>e g. if e_kind e = ''calls'' then fmupd (e_from e) (callees_of g (e_from e) @ [e_to e]) g else g)
       es fmempty)"

record interproc_analyzer =
  ia_caps :: caps
  ia_widening :: int
  ia_cache :: summary_cache

definition new_interproc :: "caps \<Rightarrow> int \<Rightarrow> interproc_analyzer" where
  "new_interproc c widening =
     \<lparr>ia_caps = c, ia_widening = (if widening \<le> 0 then default_widening_threshold else widening),
      ia_cache = new_summary_cache (cp_entries c)\<rparr>"

definition proc_ids :: "call_graph \<Rightarrow> node list \<Rightarrow> string list" where
  "proc_ids g ns = (if graph_nodes g = [] then map n_id ns else graph_nodes g)"

definition proc_of :: "call_graph \<Rightarrow> string \<Rightarrow> proc_body" where
  "proc_of g p = \<lparr>pb_id = p, pb_callees = callees_of g p, pb_inputs = [p], pb_transfer = Some (build_transfer (callees_of g p))\<rparr>"

definition procs_of :: "call_graph \<Rightarrow> node list \<Rightarrow> (string, proc_body) fmap" where
  "procs_of g ns = fmap_of_list (map (\<lambda>p. (p, proc_of g p)) (proc_ids g ns))"

text \<open>The analyzer with the cache it keeps between runs, and the result or the error.\<close>

definition interproc_run ::
  "(string \<Rightarrow> string) \<Rightarrow> (nat \<Rightarrow> store_error option) \<Rightarrow> interproc_analyzer \<Rightarrow> reader_port
     \<Rightarrow> (interproc_analyzer \<times> (store_error + solve_result)) option" where
  "interproc_run sha polls a r =
     (case rp_nodes r any_query of
        Inl err \<Rightarrow> Some (a, Inl err)
      | Inr ns \<Rightarrow>
          (case rp_edges r any_query of
             Inl err \<Rightarrow> Some (a, Inl err)
           | Inr es \<Rightarrow>
               if ns = []
               then Some (a, Inr \<lparr>so_summaries = fmempty, so_sccs = [], so_diags = [], so_stats = stats_of (ia_cache a)\<rparr>)
               else
                 (let g = call_graph_of es in
                  case tarjan_scc g of
                    None \<Rightarrow> None
                  | Some sccs \<Rightarrow>
                      (case solve sha polls (new_fixpoint_solver (ia_caps a) (ia_widening a) (Some (ia_cache a)))
                              (procs_of g ns) sccs of
                         None \<Rightarrow> None
                       | Some (res, err, cache) \<Rightarrow>
                           Some (a\<lparr>ia_cache := cache\<rparr>, case err of None \<Rightarrow> Inr res | Some e \<Rightarrow> Inl e)))))"

subsection \<open>The loop ends\<close>

lemma cache_get_records [simp]:
  "cache_get (record_hit c) = cache_get c" "cache_get (record_miss c) = cache_get c"
  "sc_max (record_hit c) = sc_max c" "sc_max (record_miss c) = sc_max c"
  "cache_size (record_hit c) = cache_size c" "cache_size (record_miss c) = cache_size c"
  by (auto simp: cache_get_def record_hit_def record_miss_def cache_size_def)

lemma cache_put_max: "sc_max (cache_put c ck s) = sc_max c"
  by (auto simp: cache_put_def evict_oldest_def Let_def split: list.split)

lemma cache_put_room:
  assumes "sc_max c > 0 \<longrightarrow> cache_size c < sc_max c"
  shows "sc_entries (cache_put c ck s) = fmupd ck s (sc_entries c)"
  using assms by (auto simp: cache_put_def Let_def)

lemma store_summary_parts:
  "ss_summaries (store_summary c ck p s st) = fmupd p s (ss_summaries st)"
  "sc_max (ss_cache (store_summary c ck p s st)) = sc_max (ss_cache st)"
  "ss_polls (store_summary c ck p s st) = ss_polls st"
  by (auto simp: store_summary_def Let_def add_diag_def cache_put_max split: option.split)

lemma store_summary_cache:
  assumes "sc_max (ss_cache st) = cp_entries c"
  shows "sc_entries (ss_cache (store_summary c ck p s st)) =
    (if check_summary_entries c (cache_size (ss_cache st) + 1) = None then fmupd ck s (sc_entries (ss_cache st))
     else sc_entries (ss_cache st))"
proof (cases "check_summary_entries c (cache_size (ss_cache st) + 1)")
  case None
  then have "sc_max (ss_cache st) > 0 \<longrightarrow> cache_size (ss_cache st) < sc_max (ss_cache st)"
    using assms by (auto simp: check_summary_entries_def check_cap_def split: if_splits)
  then show ?thesis using None by (simp add: store_summary_def Let_def cache_put_room)
qed (simp add: store_summary_def Let_def add_diag_def)

text \<open>A procedure that a widened pass leaves as it is.\<close>

definition settled :: "(string \<Rightarrow> string) \<Rightarrow> (string, proc_body) fmap \<Rightarrow> solve_state \<Rightarrow> string \<Rightarrow> bool" where
  "settled sha procs st p \<longleftrightarrow>
     (case fmlookup procs p of
        None \<Rightarrow> True
      | Some body \<Rightarrow>
          cache_get (ss_cache st) (content_key sha p (pb_inputs body)) \<noteq> None \<or>
          (\<exists>s. fmlookup (ss_summaries st) p = Some s \<and> su_outputs s = sort (pb_inputs body)))"

text \<open>What one procedure of a pass does, when the work cap does not end the run.\<close>

definition proc_step ::
  "(string \<Rightarrow> string) \<Rightarrow> caps \<Rightarrow> bool \<Rightarrow> int \<Rightarrow> string \<Rightarrow> proc_body \<Rightarrow> solve_state \<Rightarrow> bool \<Rightarrow> solve_state \<times> bool" where
  "proc_step sha c widening iteration p body st changed =
     (let st1 = st\<lparr>ss_work := ss_work st + 1\<rparr>; ck = content_key sha p (pb_inputs body)
      in case cache_get (ss_cache st1) ck of
           Some cached \<Rightarrow>
             (st1\<lparr>ss_cache := record_hit (ss_cache st1),
                  ss_summaries := (if fmlookup (ss_summaries st1) p = None then fmupd p cached (ss_summaries st1)
                                   else ss_summaries st1)\<rparr>, changed)
         | None \<Rightarrow>
             (let st2 = st1\<lparr>ss_cache := record_miss (ss_cache st1)\<rparr>;
                  s = new_summary sha p body widening iteration (ss_summaries st2)
              in (store_summary c ck p s st2,
                  case fmlookup (ss_summaries st2) p of Some prev \<Rightarrow> changed \<or> \<not> summary_equal prev s | None \<Rightarrow> True)))"

lemma scc_pass_Cons:
  "scc_pass sha c procs widening iteration (p # ps) st changed =
     (case fmlookup procs p of
        None \<Rightarrow> scc_pass sha c procs widening iteration ps st changed
      | Some body \<Rightarrow>
          (case check_total_work c (ss_work st + 1) of
             Some hit \<Rightarrow> (add_diag (CapExceeded hit) (st\<lparr>ss_work := ss_work st + 1\<rparr>), changed, True)
           | None \<Rightarrow>
               (case proc_step sha c widening iteration p body st changed of
                  (st', changed') \<Rightarrow> scc_pass sha c procs widening iteration ps st' changed')))"
  by (simp add: proc_step_def Let_def split: option.split)

declare scc_pass.simps(2) [simp del]

lemma proc_step_max: "sc_max (ss_cache (fst (proc_step sha c widening iteration p body st changed))) = sc_max (ss_cache st)"
  by (auto simp: proc_step_def Let_def record_hit_def record_miss_def store_summary_parts split: option.split)

lemma proc_step_settles:
  fixes sha :: "string \<Rightarrow> string" and iteration :: int and changed :: bool
  assumes "sc_max (ss_cache st) = cp_entries c" "fmlookup procs p = Some body"
  defines "st' \<equiv> fst (proc_step sha c True iteration p body st changed)"
  shows "settled sha procs st q \<Longrightarrow> settled sha procs st' q" and "settled sha procs st' p"
proof -
  let ?ck = "content_key sha p (pb_inputs body)"
  have "settled sha procs st' p \<and> (settled sha procs st q \<longrightarrow> settled sha procs st' q)"
  proof (cases "cache_get (ss_cache st) ?ck")
    case None
    let ?st = "st\<lparr>ss_work := ss_work st + 1, ss_cache := record_miss (ss_cache st)\<rparr>"
    let ?s = "new_summary sha p body True iteration (ss_summaries st)"
    have st': "st' = store_summary c ?ck p ?s ?st"
      using None by (simp add: st'_def proc_step_def Let_def)
    have out: "su_outputs ?s = sort (pb_inputs body)" by (simp add: new_summary_def output_labels_def)
    have "sc_max (ss_cache ?st) = cp_entries c" using assms(1) by (simp add: record_miss_def)
    note ent = store_summary_cache [OF this, of ?ck p ?s]
    have "settled sha procs st' p" using assms(2) out by (simp add: settled_def st' store_summary_parts)
    moreover have "settled sha procs st' q" if "settled sha procs st q"
    proof (cases "q = p")
      case True
      then show ?thesis using \<open>settled sha procs st' p\<close> by simp
    next
      case False
      then show ?thesis using that ent
        by (auto simp: settled_def st' store_summary_parts cache_get_def record_miss_def split: option.splits if_splits)
    qed
    ultimately show ?thesis by blast
  next
    case (Some cached)
    then have st': "st' = st\<lparr>ss_work := ss_work st + 1, ss_cache := record_hit (ss_cache st),
        ss_summaries := (if fmlookup (ss_summaries st) p = None then fmupd p cached (ss_summaries st) else ss_summaries st)\<rparr>"
      by (simp add: st'_def proc_step_def Let_def)
    have get: "cache_get (ss_cache st') = cache_get (ss_cache st)"
      by (rule ext) (simp add: st' cache_get_def record_hit_def)
    have "settled sha procs st' q" if "settled sha procs st q"
    proof (cases "q = p")
      case True
      then show ?thesis using Some assms(2) by (simp add: settled_def get)
    next
      case False
      then show ?thesis using that by (auto simp: settled_def get st' split: option.splits)
    qed
    moreover have "settled sha procs st' p" using Some assms(2) by (simp add: settled_def get)
    ultimately show ?thesis by blast
  qed
  then show "settled sha procs st q \<Longrightarrow> settled sha procs st' q" and "settled sha procs st' p" by blast+
qed

lemma proc_step_quiet:
  assumes "settled sha procs st p" "fmlookup procs p = Some body"
  shows "snd (proc_step sha c True iteration p body st changed) = changed"
  using assms
  by (auto simp: settled_def proc_step_def Let_def summary_equal_def new_summary_def output_labels_def split: option.split)

lemma pass_max:
  "scc_pass sha c procs widening iteration ps st changed = (st', changed', ended) \<Longrightarrow> sc_max (ss_cache st') = sc_max (ss_cache st)"
proof (induction ps arbitrary: st changed)
  case (Cons p ps)
  then show ?case
    by (auto simp: scc_pass_Cons add_diag_def split: option.splits prod.splits)
      (metis fst_conv proc_step_max)
qed simp

lemma pass_settles:
  "\<lbrakk>scc_pass sha c procs True iteration ps st changed = (st', changed', False); sc_max (ss_cache st) = cp_entries c\<rbrakk> \<Longrightarrow>
    (\<forall>q. settled sha procs st q \<longrightarrow> settled sha procs st' q) \<and> (\<forall>p \<in> set ps. settled sha procs st' p)"
proof (induction ps arbitrary: st changed)
  case (Cons p ps)
  show ?case
  proof (cases "fmlookup procs p")
    case None
    then show ?thesis using Cons by (auto simp: scc_pass_Cons settled_def [of _ _ _ p])
  next
    case (Some body)
    obtain st1 ch1 where s1: "proc_step sha c True iteration p body st changed = (st1, ch1)" by fastforce
    have r: "scc_pass sha c procs True iteration ps st1 ch1 = (st', changed', False)"
      using Cons.prems(1) Some s1 by (auto simp: scc_pass_Cons split: option.splits)
    have m: "sc_max (ss_cache st1) = cp_entries c"
      using proc_step_max [of sha c True iteration p body st changed] s1 Cons.prems(2) by simp
    note st = proc_step_settles [where sha=sha and iteration=iteration and changed=changed, OF Cons.prems(2) Some, unfolded s1 fst_conv]
    show ?thesis using Cons.IH [OF r m] st by auto
  qed
qed simp

lemma pass_quiet:
  "\<lbrakk>scc_pass sha c procs True iteration ps st changed = (st', changed', ended); sc_max (ss_cache st) = cp_entries c;
    \<forall>p \<in> set ps. settled sha procs st p\<rbrakk> \<Longrightarrow> changed' = changed"
proof (induction ps arbitrary: st)
  case (Cons p ps)
  show ?case
  proof (cases "fmlookup procs p")
    case None
    then show ?thesis using Cons by (auto simp: scc_pass_Cons)
  next
    case (Some body)
    have q: "snd (proc_step sha c True iteration p body st changed) = changed"
      by (rule proc_step_quiet) (use Cons.prems(3) Some in auto)
    then obtain st1 where s1: "proc_step sha c True iteration p body st changed = (st1, changed)" by (metis prod.collapse)
    have m: "sc_max (ss_cache st1) = cp_entries c"
      using proc_step_max [of sha c True iteration p body st changed] s1 Cons.prems(2) by simp
    have "\<forall>p \<in> set ps. settled sha procs st1 p"
      using proc_step_settles(1) [where sha=sha and iteration=iteration and changed=changed, OF Cons.prems(2) Some, unfolded s1 fst_conv] Cons.prems(3) by auto
    then show ?thesis
      using Cons.IH [OF _ m] Cons.prems(1) Some s1 by (auto simp: scc_pass_Cons split: option.splits)
  qed
qed simp

lemma settled_polls: "settled sha procs (st\<lparr>ss_polls := n\<rparr>) p = settled sha procs st p"
  by (cases "fmlookup procs p") (simp_all add: settled_def)

text \<open>A loop that returns, with the cache's size as it was.\<close>

definition loop_ends :: "int \<Rightarrow> solve_end option \<Rightarrow> bool" where
  "loop_ends mx r \<longleftrightarrow> (\<exists>e. r = Some e \<and> (\<forall>st. e = Proceed st \<longrightarrow> sc_max (ss_cache st) = mx))"

lemma loop_unroll:
  assumes "scc_pass sha c procs (iteration + 1 > threshold) (iteration + 1) scc (st\<lparr>ss_polls := Suc (ss_polls st)\<rparr>) False =
      (st', ch', ended)"
    and "sc_max (ss_cache st) = mx"
    and "\<not> ended \<Longrightarrow> loop_ends mx (scc_loop sha polls c threshold procs scc (iteration + 1) st' ch')"
  shows "loop_ends mx (scc_loop sha polls c threshold procs scc iteration st changed)"
  using assms by (subst scc_loop.simps) (auto simp: loop_ends_def add_diag_def split: option.split)

lemma loop_settled:
  assumes "sc_max (ss_cache st) = cp_entries c" "\<forall>p \<in> set scc. settled sha procs st p" "threshold \<le> iteration"
  shows "loop_ends (cp_entries c) (scc_loop sha polls c threshold procs scc iteration st changed)"
proof -
  obtain st' ch' ended where
    r: "scc_pass sha c procs True (iteration + 1) scc (st\<lparr>ss_polls := Suc (ss_polls st)\<rparr>) False = (st', ch', ended)"
    by (metis prod_cases3)
  have "\<not> ch'" using pass_quiet [OF r] assms(1,2) by (simp add: settled_polls)
  moreover have "sc_max (ss_cache st') = cp_entries c" using pass_max [OF r] assms(1) by simp
  ultimately have "loop_ends (cp_entries c) (scc_loop sha polls c threshold procs scc (iteration + 1) st' ch')"
    by (subst scc_loop.simps) (simp add: loop_ends_def)
  moreover have "(iteration + 1 > threshold) = True" using assms(3) by simp
  ultimately show ?thesis using loop_unroll [where iteration = iteration and threshold = threshold and st = st and polls = polls and changed = changed
        and mx = "cp_entries c" and scc = scc] r assms(1)
    by presburger
qed

lemma loop_widened:
  assumes "sc_max (ss_cache st) = cp_entries c" "threshold \<le> iteration"
  shows "loop_ends (cp_entries c) (scc_loop sha polls c threshold procs scc iteration st changed)"
proof -
  obtain st' ch' ended where
    r: "scc_pass sha c procs True (iteration + 1) scc (st\<lparr>ss_polls := Suc (ss_polls st)\<rparr>) False = (st', ch', ended)"
    by (metis prod_cases3)
  have "loop_ends (cp_entries c) (scc_loop sha polls c threshold procs scc (iteration + 1) st' ch')" if ended: "\<not> ended"
  proof (rule loop_settled)
    show "sc_max (ss_cache st') = cp_entries c" using pass_max [OF r] assms(1) by simp
    have "scc_pass sha c procs True (iteration + 1) scc (st\<lparr>ss_polls := Suc (ss_polls st)\<rparr>) False = (st', ch', False)"
      using r ended by simp
    then show "\<forall>p \<in> set scc. settled sha procs st' p" using pass_settles assms(1) by fastforce
  qed (use assms(2) in simp)
  moreover have "(iteration + 1 > threshold) = True" using assms(2) by simp
  ultimately show ?thesis using loop_unroll [where iteration = iteration and threshold = threshold and st = st and polls = polls and changed = changed
        and mx = "cp_entries c" and scc = scc] r assms(1)
    by presburger
qed

lemma loop_returns:
  "sc_max (ss_cache st) = cp_entries c \<Longrightarrow>
   loop_ends (cp_entries c) (scc_loop sha polls c threshold procs scc iteration st changed)"
proof (induction "nat (threshold - iteration)" arbitrary: iteration st changed)
  case 0
  then show ?case by (intro loop_widened) auto
next
  case (Suc n)
  obtain st' ch' ended where
    r: "scc_pass sha c procs (iteration + 1 > threshold) (iteration + 1) scc (st\<lparr>ss_polls := Suc (ss_polls st)\<rparr>) False =
      (st', ch', ended)"
    by (metis prod_cases3)
  have m: "sc_max (ss_cache st') = cp_entries c" using pass_max [OF r] Suc.prems by simp
  have "loop_ends (cp_entries c) (scc_loop sha polls c threshold procs scc (iteration + 1) st' ch')"
    using Suc.hyps(2) by (intro Suc.hyps(1) m) simp
  then show ?case using Suc.prems by (intro loop_unroll [OF r]) simp_all
qed

lemma approximate_max: "sc_max (ss_cache (approximate_scc sha procs ps st)) = sc_max (ss_cache st)"
  by (induction ps arbitrary: st) (simp_all add: cache_put_max Let_def split: option.split)

lemma sccs_return:
  "sc_max (ss_cache st) = cp_entries c \<Longrightarrow> \<exists>e. solve_sccs sha polls c threshold procs sccs st = Some e"
proof (induction sccs arbitrary: st)
  case (Cons scc sccs)
  let ?st = "st\<lparr>ss_polls := Suc (ss_polls st)\<rparr>"
  obtain e where e: "scc_loop sha polls c threshold procs scc 0 ?st True = Some e"
    "\<And>st'. e = Proceed st' \<Longrightarrow> sc_max (ss_cache st') = cp_entries c"
    using loop_returns [of ?st c sha polls threshold procs scc 0 True] Cons.prems unfolding loop_ends_def by auto
  have "\<exists>e'. solve_sccs sha polls c threshold procs sccs st' = Some e'" if "e = Proceed st'" for st'
    using Cons.IH [OF e(2) [OF that]] .
  then have loop: "\<exists>e'. (case Some e of None \<Rightarrow> None | Some (Proceed st2) \<Rightarrow> solve_sccs sha polls c threshold procs sccs st2
      | Some e \<Rightarrow> Some e) = Some e'"
    by (cases e) simp_all
  have big: "\<exists>e'. solve_sccs sha polls c threshold procs sccs (approximate_scc sha procs scc (add_diag d ?st)) = Some e'" for d
    using Cons.prems by (intro Cons.IH) (simp add: approximate_max add_diag_def)
  show ?case
    using loop big by (cases "polls (ss_polls st)"; cases "check_scc_size c (int (length scc))") (simp_all add: Let_def e(1))
qed simp

text \<open>
  C19: whatever the transfer functions, monotone or not, the procedures, the components, the caps and the
  context, the solver returns, though its loop over a component has no bound of its own.  The cache has
  the capacity of the entry cap, as both callers construct it.
\<close>

theorem solver_terminates:
  assumes "sc_max (fx_cache fx) = cp_entries (fx_caps fx)"
  shows "\<exists>r. solve sha polls fx procs sccs = Some r"
proof -
  define st where "st = \<lparr>ss_summaries = fmempty,
      ss_diags = (case check_procedures (fx_caps fx) (int (fcard (fmdom procs))) of None \<Rightarrow> [] | Some hit \<Rightarrow> [CapExceeded hit]),
      ss_cache = fx_cache fx, ss_work = 0, ss_polls = 0\<rparr>"
  have "sc_max (ss_cache st) = cp_entries (fx_caps fx)" using assms by (simp add: st_def)
  then obtain e where "solve_sccs sha polls (fx_caps fx) (fx_widening fx) procs sccs st = Some e"
    using sccs_return by blast
  then show ?thesis unfolding solve_def Let_def st_def [symmetric] by (cases e) simp_all
qed

theorem solver_terminates_witness:
  "\<exists>r. solve id (\<lambda>_. None) (new_fixpoint_solver default_caps 0 None)
     (fmap_of_list [(''p'', \<lparr>pb_id = ''p'', pb_callees = [''p''], pb_inputs = [''a''],
        pb_transfer = Some (\<lambda>ls look. if su_outputs (look ''p'') = [] then ls else [])\<rparr>)]) [[''p'']] = Some r"
  by (rule solver_terminates) (simp add: new_fixpoint_solver_def new_summary_cache_def)

end
