(* ===== verification/InterprocProps.thy ===== *)
theory InterprocProps
  imports Interproc
begin

text \<open>
  What the interprocedural analyzer computes: on a call graph without mutual recursion, the labels that reach
  a procedure through its calls, exactly; on a recursive component, less, because the second pass
  over a component finds every summary in the cache and changes nothing.
\<close>

subsection \<open>One sweep\<close>

text \<open>The summaries of a sweep over procedures in order, each from the summaries before it.\<close>

definition sweep_step :: "(string \<Rightarrow> string) \<Rightarrow> (string \<Rightarrow> proc_body) \<Rightarrow> string \<Rightarrow> (string, summary) fmap \<Rightarrow> (string, summary) fmap" where
  "sweep_step sha bd p known = fmupd p (new_summary sha p (bd p) False 1 known) known"

definition key_of :: "(string \<Rightarrow> string) \<Rightarrow> (string \<Rightarrow> proc_body) \<Rightarrow> string \<Rightarrow> string" where
  "key_of sha bd p = content_key sha p (pb_inputs (bd p))"

definition room :: "caps \<Rightarrow> nat \<Rightarrow> bool" where
  "room c n \<longleftrightarrow> (cp_procedures c \<le> 0 \<or> int n \<le> cp_procedures c) \<and> (cp_scc_size c \<le> 0 \<or> int n \<le> cp_scc_size c) \<and>
     (cp_iterations c \<le> 0 \<or> 2 \<le> cp_iterations c) \<and> (cp_entries c \<le> 0 \<or> int n \<le> cp_entries c) \<and>
     (cp_work c \<le> 0 \<or> 2 * int n \<le> cp_work c)"

text \<open>The state after the procedures of \<open>D\<close> have their summaries, with \<open>w\<close> visits done.\<close>

definition swept :: "(string \<Rightarrow> string) \<Rightarrow> (string \<Rightarrow> proc_body) \<Rightarrow> caps \<Rightarrow> string set \<Rightarrow> nat \<Rightarrow> solve_state \<Rightarrow> bool" where
  "swept sha bd c D w st \<longleftrightarrow> fmdom' (ss_summaries st) = D \<and> fmdom' (sc_entries (ss_cache st)) = key_of sha bd ` D \<and>
     (\<forall>p \<in> D. fmlookup (sc_entries (ss_cache st)) (key_of sha bd p) = fmlookup (ss_summaries st) p) \<and>
     sc_max (ss_cache st) = cp_entries c \<and> ss_work st = int w \<and> ss_diags st = []"

lemma swept_size:
  assumes "swept sha bd c D w st" "inj_on (key_of sha bd) D"
  shows "cache_size (ss_cache st) = int (card D)"
  using assms by (simp add: swept_def cache_size_def fcard.rep_eq fmdom'_alt_def [symmetric] card_image)

lemma first_step:
  assumes sw: "swept sha bd c D w st" and inj: "inj_on (key_of sha bd) (insert p D)" and p: "p \<notin> D"
    and n: "room c n" "Suc (card D) \<le> n"
  shows "\<exists>st'. proc_step sha c False 1 p (bd p) st ch = (st', True) \<and> swept sha bd c (insert p D) (Suc w) st' \<and>
    ss_summaries st' = sweep_step sha bd p (ss_summaries st) \<and> ss_polls st' = ss_polls st"
proof -
  let ?ck = "content_key sha p (pb_inputs (bd p))"
  have "?ck \<notin> key_of sha bd ` D" using inj p by (auto simp: key_of_def [symmetric])
  then have get: "cache_get (ss_cache st) ?ck = None"
    using sw by (auto simp: swept_def cache_get_def fmdom'_notD)
  have none: "fmlookup (ss_summaries st) p = None" using sw p by (auto simp: swept_def fmdom'_notD)
  let ?st = "st\<lparr>ss_work := ss_work st + 1, ss_cache := record_miss (ss_cache st)\<rparr>"
  let ?s = "new_summary sha p (bd p) False 1 (ss_summaries st)"
  let ?st' = "store_summary c ?ck p ?s ?st"
  have step: "proc_step sha c False 1 p (bd p) st ch = (?st', True)"
    using get none by (simp add: proc_step_def Let_def)
  have size: "cache_size (ss_cache st) = int (card D)"
    by (rule swept_size [OF sw inj_on_subset [OF inj]]) auto
  have fits: "check_summary_entries c (cache_size (ss_cache ?st) + 1) = None"
    using size n by (auto simp: check_summary_entries_def check_cap_def room_def)
  have "sc_max (ss_cache ?st) = cp_entries c" using sw by (simp add: swept_def)
  note ent = store_summary_cache [OF this, of ?ck p ?s]
  have "ss_diags ?st' = [] \<and> ss_work ?st' = int (Suc w)"
    using fits sw by (simp add: store_summary_def Let_def swept_def)
  moreover have "fmdom' (sc_entries (ss_cache ?st')) = key_of sha bd ` insert p D"
    using ent fits sw by (simp add: swept_def key_of_def record_miss_def)
  moreover have "fmdom' (ss_summaries ?st') = insert p D"
    using sw by (simp add: store_summary_parts swept_def)
  moreover have "fmlookup (sc_entries (ss_cache ?st')) (key_of sha bd q) = fmlookup (ss_summaries ?st') q"
    if q: "q \<in> insert p D" for q
  proof (cases "q = p")
    case True
    then show ?thesis using ent fits by (simp add: key_of_def store_summary_parts)
  next
    case False
    then have "key_of sha bd q \<noteq> key_of sha bd p" using inj q p unfolding inj_on_def by blast
    then show ?thesis using ent fits sw False q by (simp add: key_of_def store_summary_parts swept_def record_miss_def)
  qed
  ultimately have "swept sha bd c (insert p D) (Suc w) ?st'"
    using sw by (simp add: swept_def store_summary_parts)
  then show ?thesis using step by (simp add: store_summary_parts sweep_step_def)
qed

lemma first_pass:
  "\<lbrakk>swept sha bd c D w st; \<forall>p \<in> set ps. fmlookup procs p = Some (bd p); distinct ps; set ps \<inter> D = {};
    inj_on (key_of sha bd) (set ps \<union> D); room c n; length ps + card D \<le> n; finite D; w + length ps \<le> 2 * n\<rbrakk> \<Longrightarrow>
   \<exists>st'. scc_pass sha c procs False 1 ps st ch = (st', ch \<or> ps \<noteq> [], False) \<and> swept sha bd c (set ps \<union> D) (w + length ps) st' \<and>
     ss_summaries st' = fold (sweep_step sha bd) ps (ss_summaries st) \<and> ss_polls st' = ss_polls st"
proof (induction ps arbitrary: st D w ch)
  case (Cons p ps)
  have p: "p \<notin> D" "fmlookup procs p = Some (bd p)" using Cons.prems(2,4) by auto
  have inj: "inj_on (key_of sha bd) (insert p D)" using Cons.prems(5) by (rule inj_on_subset) auto
  obtain st1 where st1: "proc_step sha c False 1 p (bd p) st ch = (st1, True)" "swept sha bd c (insert p D) (Suc w) st1"
    "ss_summaries st1 = sweep_step sha bd p (ss_summaries st)" "ss_polls st1 = ss_polls st"
    using first_step [OF Cons.prems(1) inj p(1) Cons.prems(6), of ch] Cons.prems(7) by auto
  have work: "check_total_work c (ss_work st + 1) = None"
    using Cons.prems(1,6,9) by (auto simp: check_total_work_def check_cap_def swept_def room_def)
  have "\<exists>st'. scc_pass sha c procs False 1 ps st1 True = (st', True \<or> ps \<noteq> [], False) \<and>
      swept sha bd c (set ps \<union> insert p D) (Suc w + length ps) st' \<and>
      ss_summaries st' = fold (sweep_step sha bd) ps (ss_summaries st1) \<and> ss_polls st' = ss_polls st1"
    using Cons.prems p by (intro Cons.IH st1(2)) (auto simp: insert_commute card_insert_if)
  then show ?case using p(2) work st1 by (auto simp: scc_pass_Cons)
qed simp

lemma second_pass:
  "\<lbrakk>swept sha bd c D w st; \<forall>p \<in> set ps. fmlookup procs p = Some (bd p); set ps \<subseteq> D; room c n; w + length ps \<le> 2 * n\<rbrakk> \<Longrightarrow>
   \<exists>st'. scc_pass sha c procs wd it ps st ch = (st', ch, False) \<and> swept sha bd c D (w + length ps) st' \<and>
     ss_summaries st' = ss_summaries st \<and> ss_polls st' = ss_polls st"
proof (induction ps arbitrary: st w)
  case (Cons p ps)
  have p: "p \<in> D" "fmlookup procs p = Some (bd p)" using Cons.prems(2,3) by auto
  have "content_key sha p (pb_inputs (bd p)) \<in> fmdom' (sc_entries (ss_cache st))"
    using Cons.prems(1) p(1) by (auto simp: swept_def key_of_def)
  then obtain s where get: "cache_get (ss_cache st) (content_key sha p (pb_inputs (bd p))) = Some s"
    by (auto simp: cache_get_def fmlookup_dom'_iff)
  obtain s' where known: "fmlookup (ss_summaries st) p = Some s'"
    using Cons.prems(1) p(1) by (auto simp: swept_def fmlookup_dom'_iff)
  let ?st = "st\<lparr>ss_work := ss_work st + 1, ss_cache := record_hit (ss_cache st)\<rparr>"
  have step: "proc_step sha c wd it p (bd p) st ch = (?st, ch)"
    using get known by (simp add: proc_step_def Let_def)
  have sw: "swept sha bd c D (Suc w) ?st" using Cons.prems(1) by (simp add: swept_def record_hit_def)
  have work: "check_total_work c (ss_work st + 1) = None"
    using Cons.prems(1,4,5) by (auto simp: check_total_work_def check_cap_def swept_def room_def)
  have "\<exists>st'. scc_pass sha c procs wd it ps ?st ch = (st', ch, False) \<and> swept sha bd c D (Suc w + length ps) st' \<and>
      ss_summaries st' = ss_summaries ?st \<and> ss_polls st' = ss_polls ?st"
    using Cons.prems by (intro Cons.IH sw) auto
  then show ?case using p(2) work step by (auto simp: scc_pass_Cons)
qed simp

lemma polls_irrelevant: "swept sha bd c D w (st\<lparr>ss_polls := k\<rparr>) = swept sha bd c D w st"
  by (simp add: swept_def)

lemma component_loop:
  assumes sw: "swept sha bd c D (2 * card D) st" and procs: "\<forall>p \<in> set ps. fmlookup procs p = Some (bd p)"
    and ps: "distinct ps" "ps \<noteq> []" "set ps \<inter> D = {}" and inj: "inj_on (key_of sha bd) (set ps \<union> D)"
    and n: "room c n" "length ps + card D \<le> n" and D: "finite D" and threshold: "1 \<le> threshold"
  shows "\<exists>st'. scc_loop sha (\<lambda>_. None) c threshold procs ps 0 st True = Some (Proceed st') \<and>
    swept sha bd c (set ps \<union> D) (2 * card (set ps \<union> D)) st' \<and>
    ss_summaries st' = fold (sweep_step sha bd) ps (ss_summaries st)"
proof -
  let ?D = "set ps \<union> D"
  have card: "card ?D = length ps + card D" using ps D by (simp add: card_Un_disjoint distinct_card)
  have it: "check_iterations c 1 = None" "check_iterations c 2 = None"
    using n(1) by (auto simp: check_iterations_def check_cap_def room_def)
  obtain st1 where st1:
    "scc_pass sha c procs False 1 ps (st\<lparr>ss_polls := Suc (ss_polls st)\<rparr>) False = (st1, True, False)"
    "swept sha bd c ?D (2 * card D + length ps) st1" "ss_summaries st1 = fold (sweep_step sha bd) ps (ss_summaries st)"
    using first_pass [of sha bd c D "2 * card D" "st\<lparr>ss_polls := Suc (ss_polls st)\<rparr>" ps procs n False] assms
    by (auto simp: polls_irrelevant)
  obtain st2 where st2:
    "scc_pass sha c procs (2 > threshold) 2 ps (st1\<lparr>ss_polls := Suc (ss_polls st1)\<rparr>) False = (st2, False, False)"
    "swept sha bd c ?D (2 * card D + length ps + length ps) st2" "ss_summaries st2 = ss_summaries st1"
    using second_pass [of sha bd c ?D "2 * card D + length ps" "st1\<lparr>ss_polls := Suc (ss_polls st1)\<rparr>" ps procs n "2 > threshold" 2 False]
      st1(2) procs n by (auto simp: polls_irrelevant)
  have "scc_loop sha (\<lambda>_. None) c threshold procs ps 2 st2 False = Some (Proceed st2)"
    by (subst scc_loop.simps) simp
  then have "scc_loop sha (\<lambda>_. None) c threshold procs ps 1 st1 True = Some (Proceed st2)"
    using st2(1) it(2) by (subst scc_loop.simps) simp
  then have "scc_loop sha (\<lambda>_. None) c threshold procs ps 0 st True = Some (Proceed st2)"
    using st1(1) it(1) threshold by (subst scc_loop.simps) simp
  moreover have "2 * card D + length ps + length ps = 2 * card ?D" using card by simp
  ultimately show ?thesis using st2(2,3) st1(3) by metis
qed

lemma sccs_sweep:
  "\<lbrakk>swept sha bd c D (2 * card D) st; \<forall>p \<in> set (concat sccs). fmlookup procs p = Some (bd p);
    distinct (concat sccs); [] \<notin> set sccs; set (concat sccs) \<inter> D = {}; inj_on (key_of sha bd) (set (concat sccs) \<union> D);
    room c n; length (concat sccs) + card D \<le> n; finite D; 1 \<le> threshold\<rbrakk> \<Longrightarrow>
   \<exists>st'. solve_sccs sha (\<lambda>_. None) c threshold procs sccs st = Some (Proceed st') \<and>
     swept sha bd c (set (concat sccs) \<union> D) (2 * card (set (concat sccs) \<union> D)) st' \<and>
     ss_summaries st' = fold (sweep_step sha bd) (concat sccs) (ss_summaries st)"
proof (induction sccs arbitrary: st D)
  case Nil
  then show ?case by (simp add: swept_def)
next
  case (Cons ps sccs)
  let ?st = "st\<lparr>ss_polls := Suc (ss_polls st)\<rparr>"
  have inj: "inj_on (key_of sha bd) (set ps \<union> D)" using Cons.prems(6) by (rule inj_on_subset) auto
  have "\<exists>st'. scc_loop sha (\<lambda>_. None) c threshold procs ps 0 ?st True = Some (Proceed st') \<and>
      swept sha bd c (set ps \<union> D) (2 * card (set ps \<union> D)) st' \<and>
      ss_summaries st' = fold (sweep_step sha bd) ps (ss_summaries ?st)"
    by (rule component_loop [where n = n]) (use Cons.prems inj in \<open>auto simp: polls_irrelevant\<close>)
  then obtain st1 where st1: "scc_loop sha (\<lambda>_. None) c threshold procs ps 0 ?st True = Some (Proceed st1)"
      "swept sha bd c (set ps \<union> D) (2 * card (set ps \<union> D)) st1"
      "ss_summaries st1 = fold (sweep_step sha bd) ps (ss_summaries st)"
    by auto
  have card: "card (set ps \<union> D) = length ps + card D"
    using Cons.prems(3,5,9) by (subst card_Un_disjoint) (auto simp: distinct_card)
  have size: "check_scc_size c (int (length ps)) = None"
    using Cons.prems(7,8) by (auto simp: check_scc_size_def check_cap_def room_def)
  have "\<exists>st'. solve_sccs sha (\<lambda>_. None) c threshold procs sccs st1 = Some (Proceed st') \<and>
     swept sha bd c (set (concat sccs) \<union> (set ps \<union> D)) (2 * card (set (concat sccs) \<union> (set ps \<union> D))) st' \<and>
     ss_summaries st' = fold (sweep_step sha bd) (concat sccs) (ss_summaries st1)"
    using Cons.prems card by (intro Cons.IH [OF st1(2)]) (auto simp: Un_assoc intro: inj_on_subset)
  moreover have "set (concat sccs) \<union> (set ps \<union> D) = set (concat (ps # sccs)) \<union> D" by auto
  ultimately show ?case using st1(1,3) size by (simp add: Let_def)
qed

subsection \<open>A second run with the cache of the first\<close>

lemma cached_pass:
  "\<lbrakk>\<forall>p \<in> set ps. fmlookup procs p = Some (bd p) \<and> fmlookup (sc_entries (ss_cache st)) (key_of sha bd p) = fmlookup old p \<and>
      fmlookup old p \<noteq> None;
    \<forall>q. fmlookup (ss_summaries st) q = (if q \<in> D then fmlookup old q else None); room c n; ss_work st = int w; w + length ps \<le> 2 * n\<rbrakk> \<Longrightarrow>
   \<exists>st'. scc_pass sha c procs wd it ps st ch = (st', ch, False) \<and> sc_entries (ss_cache st') = sc_entries (ss_cache st) \<and>
     (\<forall>q. fmlookup (ss_summaries st') q = (if q \<in> set ps \<union> D then fmlookup old q else None)) \<and>
     ss_work st' = int (w + length ps) \<and> ss_diags st' = ss_diags st"
proof (induction ps arbitrary: st D w)
  case (Cons p ps)
  have p: "fmlookup procs p = Some (bd p)" using Cons.prems(1) by simp
  obtain s where s: "fmlookup old p = Some s" "cache_get (ss_cache st) (content_key sha p (pb_inputs (bd p))) = Some s"
    using Cons.prems(1) by (auto simp: cache_get_def key_of_def)
  let ?st = "st\<lparr>ss_work := ss_work st + 1, ss_cache := record_hit (ss_cache st),
      ss_summaries := (if fmlookup (ss_summaries st) p = None then fmupd p s (ss_summaries st) else ss_summaries st)\<rparr>"
  have step: "proc_step sha c wd it p (bd p) st ch = (?st, ch)" using s(2) by (simp add: proc_step_def Let_def)
  have work: "check_total_work c (ss_work st + 1) = None"
    using Cons.prems(3-5) by (auto simp: check_total_work_def check_cap_def room_def)
  have known: "\<forall>q. fmlookup (ss_summaries ?st) q = (if q \<in> insert p D then fmlookup old q else None)"
    using Cons.prems(2) s(1) by auto
  have same: "sc_entries (ss_cache ?st) = sc_entries (ss_cache st)" by (simp add: record_hit_def)
  have "\<exists>st'. scc_pass sha c procs wd it ps ?st ch = (st', ch, False) \<and> sc_entries (ss_cache st') = sc_entries (ss_cache ?st) \<and>
     (\<forall>q. fmlookup (ss_summaries st') q = (if q \<in> set ps \<union> insert p D then fmlookup old q else None)) \<and>
     ss_work st' = int (Suc w + length ps) \<and> ss_diags st' = ss_diags ?st"
    using Cons.prems same by (intro Cons.IH known) simp_all
  then show ?case using p work step same by (auto simp: scc_pass_Cons)
qed simp

lemma cached_sccs:
  "\<lbrakk>\<forall>p \<in> set (concat sccs). fmlookup procs p = Some (bd p) \<and> fmlookup (sc_entries (ss_cache st)) (key_of sha bd p) = fmlookup old p \<and>
      fmlookup old p \<noteq> None;
    \<forall>q. fmlookup (ss_summaries st) q = (if q \<in> D then fmlookup old q else None); room c n; ss_work st = int w;
    w + length (concat sccs) \<le> n\<rbrakk> \<Longrightarrow>
   \<exists>st'. solve_sccs sha (\<lambda>_. None) c threshold procs sccs st = Some (Proceed st') \<and> ss_diags st' = ss_diags st \<and>
     (\<forall>q. fmlookup (ss_summaries st') q = (if q \<in> set (concat sccs) \<union> D then fmlookup old q else None))"
proof (induction sccs arbitrary: st D w)
  case (Cons ps sccs)
  let ?st = "st\<lparr>ss_polls := Suc (ss_polls st)\<rparr>"
  let ?st2 = "?st\<lparr>ss_polls := Suc (ss_polls ?st)\<rparr>"
  have size: "check_scc_size c (int (length ps)) = None" and it: "check_iterations c 1 = None"
    using Cons.prems(3,5) by (auto simp: check_scc_size_def check_iterations_def check_cap_def room_def)
  have "\<exists>st'. scc_pass sha c procs (1 > threshold) 1 ps ?st2 False = (st', False, False) \<and>
     sc_entries (ss_cache st') = sc_entries (ss_cache ?st2) \<and>
     (\<forall>q. fmlookup (ss_summaries st') q = (if q \<in> set ps \<union> D then fmlookup old q else None)) \<and>
     ss_work st' = int (w + length ps) \<and> ss_diags st' = ss_diags ?st2"
    using Cons.prems by (intro cached_pass [where bd = bd and n = n]) auto
  then obtain st1 where st1: "scc_pass sha c procs (1 > threshold) 1 ps ?st2 False = (st1, False, False)"
     "sc_entries (ss_cache st1) = sc_entries (ss_cache st)" "ss_work st1 = int (w + length ps)" "ss_diags st1 = ss_diags st"
     "\<forall>q. fmlookup (ss_summaries st1) q = (if q \<in> set ps \<union> D then fmlookup old q else None)"
    by auto
  have "scc_loop sha (\<lambda>_. None) c threshold procs ps 1 st1 False = Some (Proceed st1)" by (subst scc_loop.simps) simp
  then have loop: "scc_loop sha (\<lambda>_. None) c threshold procs ps 0 ?st True = Some (Proceed st1)"
    using st1(1) it by (subst scc_loop.simps) simp
  have "\<exists>st'. solve_sccs sha (\<lambda>_. None) c threshold procs sccs st1 = Some (Proceed st') \<and> ss_diags st' = ss_diags st1 \<and>
     (\<forall>q. fmlookup (ss_summaries st') q = (if q \<in> set (concat sccs) \<union> (set ps \<union> D) then fmlookup old q else None))"
    using Cons.prems st1(2,3) by (intro Cons.IH [OF _ st1(5), where w = "w + length ps"]) auto
  moreover have "set (concat sccs) \<union> (set ps \<union> D) = set (concat (ps # sccs)) \<union> D" by auto
  moreover have "solve_sccs sha (\<lambda>_. None) c threshold procs (ps # sccs) st = solve_sccs sha (\<lambda>_. None) c threshold procs sccs st1"
    using loop size by (simp add: Let_def)
  ultimately show ?case by (simp only: st1(4))
qed simp

subsection \<open>The labels of a sweep\<close>

abbreviation sweep :: "(string \<Rightarrow> string) \<Rightarrow> call_graph \<Rightarrow> string list \<Rightarrow> (string, summary) fmap" where
  "sweep sha g ps \<equiv> fold (sweep_step sha (proc_of g)) ps fmempty"

lemma sweep_dom: "fmdom' (sweep sha g ps) = set ps"
  by (induction ps rule: rev_induct) (simp_all add: sweep_step_def)

lemma sweep_snoc:
  "fmlookup (sweep sha g (ps @ [p])) q =
     (if q = p then Some (new_summary sha p (proc_of g p) False 1 (sweep sha g ps)) else fmlookup (sweep sha g ps) q)"
  by (simp add: sweep_step_def)

lemma new_outputs:
  "set (su_outputs (new_summary sha p (proc_of g p) False 1 known)) =
     insert p (\<Union>q \<in> set (callees_of g p). set (su_outputs (callee_lookup known q)))"
  "sorted (su_outputs (new_summary sha p (proc_of g p) False 1 known))"
  "distinct (su_outputs (new_summary sha p (proc_of g p) False 1 known))"
  "\<not> su_approximate (new_summary sha p (proc_of g p) False 1 known)"
proof -
  let ?L = "[p] @ concat (map (\<lambda>q. su_outputs (callee_lookup known q)) (callees_of g p))"
  have out: "su_outputs (new_summary sha p (proc_of g p) False 1 known) = sort (sorted_list_of_set (set ?L))"
    by (simp only: new_summary_def output_labels_def proc_of_def build_transfer_def proc_body.simps summary.simps
        option.simps if_False)
  have fin: "set (sorted_list_of_set (set ?L)) = set ?L" by (rule set_sorted_list_of_set [OF finite_set])
  show "set (su_outputs (new_summary sha p (proc_of g p) False 1 known)) =
     insert p (\<Union>q \<in> set (callees_of g p). set (su_outputs (callee_lookup known q)))"
    unfolding out set_sort fin by auto
  show "sorted (su_outputs (new_summary sha p (proc_of g p) False 1 known))" unfolding out by simp
  show "distinct (su_outputs (new_summary sha p (proc_of g p) False 1 known))"
    unfolding out distinct_sort by (rule distinct_sorted_list_of_set)
qed (simp add: new_summary_def)

lemma sweep_bounded: "fmlookup (sweep sha g ps) q = Some s \<Longrightarrow> set (su_outputs s) \<subseteq> set ps"
proof (induction ps arbitrary: q s rule: rev_induct)
  case (snoc p ps)
  have "set (su_outputs (callee_lookup (sweep sha g ps) r)) \<subseteq> set ps" for r
    using snoc.IH by (auto simp: callee_lookup_def empty_summary_def split: option.splits)
  then show ?case using snoc.prems snoc.IH [of q s] unfolding sweep_snoc
    by (auto simp: new_outputs split: if_splits) blast+
qed simp

lemma sweep_append:
  "set ps \<inter> set qs = {} \<Longrightarrow> q \<in> set ps \<Longrightarrow> fmlookup (sweep sha g (ps @ qs)) q = fmlookup (sweep sha g ps) q"
proof (induction qs rule: rev_induct)
  case (snoc r qs)
  have "fmlookup (sweep sha g ((ps @ qs) @ [r])) q = fmlookup (sweep sha g (ps @ qs)) q"
    using snoc.prems unfolding sweep_snoc by auto
  then show ?case using snoc by simp
qed simp

definition plain_summary :: "summary \<Rightarrow> bool" where
  "plain_summary s \<longleftrightarrow> \<not> su_approximate s \<and> sorted (su_outputs s) \<and> distinct (su_outputs s)"

lemma sweep_plain: "fmlookup (sweep sha g ps) q = Some s \<Longrightarrow> plain_summary s"
proof (induction ps arbitrary: q s rule: rev_induct)
  case (snoc p ps)
  then show ?case unfolding sweep_snoc
    by (auto simp: plain_summary_def new_outputs split: if_splits)
qed simp

lemma reaches_step: "{q. reaches g p q} = insert p (\<Union>r \<in> set (callees_of g p). {q. reaches g r q})"
proof (intro set_eqI iffI)
  fix q assume "q \<in> {q. reaches g p q}"
  then show "q \<in> insert p (\<Union>r \<in> set (callees_of g p). {q. reaches g r q})"
    by (auto simp: calls_rel_def elim: converse_rtranclE)
next
  fix q assume "q \<in> insert p (\<Union>r \<in> set (callees_of g p). {q. reaches g r q})"
  then show "q \<in> {q. reaches g p q}" by (auto simp: calls_rel_def intro: converse_rtrancl_into_rtrancl)
qed

text \<open>Callees first, each procedure after all its callees but itself.\<close>

definition callees_before :: "call_graph \<Rightarrow> string list \<Rightarrow> bool" where
  "callees_before g ps \<longleftrightarrow> (\<forall>us p vs. ps = us @ p # vs \<longrightarrow> set (callees_of g p) \<subseteq> insert p (set us))"

lemma reaches_self:
  assumes "set (callees_of g p) \<subseteq> insert p X"
  shows "{q. reaches g p q} = insert p (\<Union>r \<in> set (callees_of g p) - {p}. {q. reaches g r q})"
proof
  show "{q. reaches g p q} \<subseteq> insert p (\<Union>r \<in> set (callees_of g p) - {p}. {q. reaches g r q})"
  proof
    fix q assume "q \<in> {q. reaches g p q}"
    then have "reaches g p q" by simp
    then show "q \<in> insert p (\<Union>r \<in> set (callees_of g p) - {p}. {q. reaches g r q})"
    proof (induction rule: rtrancl_induct)
      case (step y z)
      then show ?case by (auto simp: calls_rel_def intro: rtrancl_into_rtrancl)
    qed simp
  qed
  show "insert p (\<Union>r \<in> set (callees_of g p) - {p}. {q. reaches g r q}) \<subseteq> {q. reaches g p q}"
    using reaches_step [of p] by auto
qed

lemma sweep_exact:
  "\<lbrakk>callees_before g ps; distinct ps; fmlookup (sweep sha g ps) q = Some s\<rbrakk> \<Longrightarrow> set (su_outputs s) = {r. reaches g q r}"
proof (induction ps arbitrary: q s rule: rev_induct)
  case (snoc p ps)
  have before: "callees_before g ps" using snoc.prems(1) by (auto simp: callees_before_def)
  have callees: "set (callees_of g p) \<subseteq> insert p (set ps)" using snoc.prems(1) by (auto simp: callees_before_def)
  show ?case
  proof (cases "q = p")
    case False
    then show ?thesis using snoc before unfolding sweep_snoc by auto
  next
    case True
    have out: "set (su_outputs (callee_lookup (sweep sha g ps) r)) = (if r \<in> set ps then {q. reaches g r q} else {})" for r
    proof (cases "fmlookup (sweep sha g ps) r")
      case None
      then have "r \<notin> set ps" using sweep_dom [of sha] by (metis fmdom'_notI)
      then show ?thesis using None by (simp add: callee_lookup_def empty_summary_def)
    next
      case (Some u)
      then have "r \<in> set ps" using sweep_dom [of sha] by (metis fmdom'I)
      then show ?thesis using Some snoc.IH [OF before _ Some] snoc.prems(2) by (simp add: callee_lookup_def)
    qed
    have "p \<notin> set ps" using snoc.prems(2) by simp
    then have "(\<Union>r \<in> set (callees_of g p). if r \<in> set ps then {q. reaches g r q} else {}) =
        (\<Union>r \<in> set (callees_of g p) - {p}. {q. reaches g r q})"
      using callees by auto
    then show ?thesis
      using True snoc.prems(3) reaches_self [OF callees] unfolding sweep_snoc by (auto simp: new_outputs out)
  qed
qed simp

subsection \<open>The call graph of a store\<close>

definition call_pairs :: "mem_store \<Rightarrow> (string \<times> string) set" where
  "call_pairs m = {(e_from e, e_to e) | e. e \<in> fmran' (edges m) \<and> e_kind e = ''calls''}"

lemma callees_upd: "callees_of (fmupd x ws g) y = (if y = x then ws else callees_of g y)"
  by (simp add: callees_of_def)

lemma callees_fold:
  "set (callees_of (fold (\<lambda>e g. if e_kind e = ''calls'' then fmupd (e_from e) (callees_of g (e_from e) @ [e_to e]) g else g) es g) x) =
     set (callees_of g x) \<union> {e_to e | e. e \<in> set es \<and> e_kind e = ''calls'' \<and> e_from e = x}"
proof (induction es arbitrary: g)
  case (Cons e es)
  show ?case unfolding fold_simps Cons.IH by (auto simp: callees_upd)
qed simp

lemma callees_graph:
  "set (callees_of (call_graph_of es) x) = {e_to e | e. e \<in> set es \<and> e_kind e = ''calls'' \<and> e_from e = x}"
proof -
  have "set (callees_of (fmmap sort g) x) = set (callees_of g x)" for g :: call_graph
    by (cases "fmlookup g x") (simp_all add: callees_of_def)
  then show ?thesis unfolding call_graph_of_def by (simp add: callees_fold callees_of_def [of fmempty])
qed

lemma graph_keys: "x |\<in>| fmdom (call_graph_of es) \<Longrightarrow> callees_of (call_graph_of es) x \<noteq> []"
proof -
  let ?f = "\<lambda>e g. if e_kind e = ''calls'' then fmupd (e_from e) (callees_of g (e_from e) @ [e_to e]) g else g"
  have "\<forall>y. y |\<in>| fmdom g \<longrightarrow> callees_of g y \<noteq> [] \<Longrightarrow> \<forall>y. y |\<in>| fmdom (fold ?f es g) \<longrightarrow> callees_of (fold ?f es g) y \<noteq> []"
    for g :: call_graph
  proof (induction es arbitrary: g)
    case (Cons e es)
    show ?case unfolding fold_simps by (rule Cons.IH) (use Cons.prems in \<open>auto simp: callees_upd\<close>)
  qed simp
  from this [of fmempty] have ne: "y |\<in>| fmdom (fold ?f es fmempty) \<Longrightarrow> callees_of (fold ?f es fmempty) y \<noteq> []" for y by simp
  assume "x |\<in>| fmdom (call_graph_of es)"
  then have x: "x |\<in>| fmdom (fold ?f es fmempty)" by (simp add: call_graph_of_def)
  then obtain ws where ws: "fmlookup (fold ?f es fmempty) x = Some ws" by (auto simp: fmlookup_dom_iff)
  then have "ws \<noteq> []" using ne [OF x] by (simp add: callees_of_def)
  then have "sort ws \<noteq> []" by (metis set_empty set_sort)
  then show "callees_of (call_graph_of es) x \<noteq> []" using ws by (simp add: call_graph_of_def callees_of_def)
qed

definition store_graph :: "mem_store \<Rightarrow> call_graph" where
  "store_graph m = call_graph_of (map_values (edges m))"

lemma store_graph_rel: "calls_rel (store_graph m) = call_pairs m"
  by (auto simp: calls_rel_def store_graph_def callees_graph call_pairs_def set_map_values)

lemma store_graph_nodes: "set (graph_nodes (store_graph m)) = Field (call_pairs m)"
proof
  show "Field (call_pairs m) \<subseteq> set (graph_nodes (store_graph m))"
  proof
    fix x assume "x \<in> Field (call_pairs m)"
    then obtain y where "y \<in> set (callees_of (store_graph m) x) \<or> x \<in> set (callees_of (store_graph m) y)"
      unfolding store_graph_rel [symmetric] Field_def calls_rel_def by auto
    moreover have "x |\<in>| fmdom (store_graph m)" if "y \<in> set (callees_of (store_graph m) x)"
      using that by (cases "fmlookup (store_graph m) x") (auto simp: callees_of_def fmlookup_dom_iff)
    ultimately show "x \<in> set (graph_nodes (store_graph m))" using callee_node by (auto simp: set_graph_nodes)
  qed
  show "set (graph_nodes (store_graph m)) \<subseteq> Field (call_pairs m)"
  proof
    fix x assume "x \<in> set (graph_nodes (store_graph m))"
    then obtain v where v: "v |\<in>| fmdom (store_graph m)" "x = v \<or> x \<in> set (callees_of (store_graph m) v)"
      by (auto simp: set_graph_nodes)
    then obtain w where "w \<in> set (callees_of (store_graph m) v)"
      using graph_keys [of v "map_values (edges m)"] by (fastforce simp: store_graph_def neq_Nil_conv)
    then show "x \<in> Field (call_pairs m)"
      using v(2) unfolding store_graph_rel [symmetric] Field_def calls_rel_def by auto
  qed
qed

lemma calls_have_nodes:
  assumes "store_ok m" "call_pairs m \<noteq> {}"
  shows "map_values (nodes m) \<noteq> []"
proof -
  obtain e where "e \<in> fmran' (edges m)" using assms(2) by (auto simp: call_pairs_def)
  then obtain k where "fmlookup (edges m) k = Some e" by (rule fmran'E)
  then have "e_from e |\<in>| fmdom (nodes m)" using assms(1) unfolding store_ok_def endpoints_stored_def by blast
  then obtain n where "n \<in> fmran' (nodes m)" by (auto simp: fmlookup_dom_iff intro: fmran'I)
  then show ?thesis by (metis empty_iff empty_set set_map_values)
qed

subsection \<open>The run\<close>

text \<open>A request the caps do not cut, with a hash that tells the procedures apart.\<close>

definition uncapped :: "(string \<Rightarrow> string) \<Rightarrow> caps \<Rightarrow> mem_store \<Rightarrow> bool" where
  "uncapped sha c m \<longleftrightarrow> room c (card (Field (call_pairs m))) \<and> inj_on (\<lambda>p. content_key sha p [p]) (Field (call_pairs m))"

definition begin_solve :: "summary_cache \<Rightarrow> solve_state" where
  "begin_solve cache = \<lparr>ss_summaries = fmempty, ss_diags = [], ss_cache = cache, ss_work = 0, ss_polls = 0\<rparr>"

definition store_procs :: "mem_store \<Rightarrow> (string, proc_body) fmap" where
  "store_procs m = procs_of (store_graph m) (map_values (nodes m))"

lemma store_procs_lookup:
  assumes "call_pairs m \<noteq> {}"
  shows "fmlookup (store_procs m) p = (if p \<in> Field (call_pairs m) then Some (proc_of (store_graph m) p) else None)"
    and "fmdom' (store_procs m) = Field (call_pairs m)"
proof -
  have "graph_nodes (store_graph m) \<noteq> []" using assms store_graph_nodes [of m] by (auto simp: Field_def)
  then have ids: "proc_ids (store_graph m) (map_values (nodes m)) = graph_nodes (store_graph m)" by (simp add: proc_ids_def)
  show look: "fmlookup (store_procs m) p = (if p \<in> Field (call_pairs m) then Some (proc_of (store_graph m) p) else None)" for p
    unfolding store_procs_def procs_of_def ids store_graph_nodes [symmetric]
    by (simp add: fmlookup_of_list map_of_map_restrict restrict_map_def)
  show "fmdom' (store_procs m) = Field (call_pairs m)" using look by (auto simp: fmlookup_dom'_iff split: if_splits)
qed

lemma store_procs_fit:
  assumes "call_pairs m \<noteq> {}" "room c (card (Field (call_pairs m)))"
  shows "check_procedures c (int (fcard (fmdom (store_procs m)))) = None"
  using assms(2) store_procs_lookup(2) [OF assms(1)]
  by (auto simp: check_procedures_def check_cap_def room_def fcard.rep_eq fmdom'_alt_def)

lemma run_from:
  assumes m: "store_ok m" "\<not> closed m" "call_pairs m \<noteq> {}"
    and a: "ia_widening a > 0" "room (ia_caps a) (card (Field (call_pairs m)))"
    and cs: "tarjan_scc (store_graph m) = Some cs"
    and st: "solve_sccs sha (\<lambda>_. None) (ia_caps a) (ia_widening a) (store_procs m) cs (begin_solve (ia_cache a)) = Some (Proceed st)"
  shows "interproc_run sha (\<lambda>_. None) a (mem_reader lower None m) = Some (a\<lparr>ia_cache := ss_cache st\<rparr>,
      Inr \<lparr>so_summaries = ss_summaries st, so_sccs = cs, so_diags = ss_diags st, so_stats = stats_of (ss_cache st)\<rparr>)"
proof -
  have k: "keyed n_id (nodes m)" "keyed e_id (edges m)" using m(1) by (simp_all add: store_keys)
  have reads: "rp_nodes (mem_reader lower None m) any_query = Inr (map_values (nodes m))"
    "rp_edges (mem_reader lower None m) any_query = Inr (map_values (edges m))"
    using mem_nodes_any [OF m(2) k(1)] mem_edges_any [OF m(2) k(2)] by (simp_all add: mem_reader_def)
  have nodes: "map_values (nodes m) \<noteq> []" by (rule calls_have_nodes [OF m(1,3)])
  have fx: "new_fixpoint_solver (ia_caps a) (ia_widening a) (Some (ia_cache a)) =
      \<lparr>fx_caps = ia_caps a, fx_widening = ia_widening a, fx_cache = ia_cache a\<rparr>"
    using a(1) by (simp add: new_fixpoint_solver_def)
  have solve: "solve sha (\<lambda>_. None) \<lparr>fx_caps = ia_caps a, fx_widening = ia_widening a, fx_cache = ia_cache a\<rparr> (store_procs m) cs =
      Some (\<lparr>so_summaries = ss_summaries st, so_sccs = cs, so_diags = ss_diags st, so_stats = stats_of (ss_cache st)\<rparr>,
        None, ss_cache st)"
    unfolding solve_def Let_def fixpoint_solver.simps store_procs_fit [OF m(3) a(2)] option.case(1) begin_solve_def [symmetric] st
    by simp
  show ?thesis
    unfolding interproc_run_def reads sum.case if_not_P [OF nodes] Let_def store_graph_def [symmetric] cs option.case(2)
      store_procs_def [symmetric] fx solve prod.case by simp
qed

lemma run_eq:
  assumes m: "store_ok m" "\<not> closed m" "call_pairs m \<noteq> {}" and c: "uncapped sha c m"
  shows "\<exists>st cs. tarjan_scc (store_graph m) = Some cs \<and>
    interproc_run sha (\<lambda>_. None) (new_interproc c widening) (mem_reader lower None m) =
      Some ((new_interproc c widening)\<lparr>ia_cache := ss_cache st\<rparr>,
        Inr \<lparr>so_summaries = sweep sha (store_graph m) (concat cs), so_sccs = cs, so_diags = [], so_stats = stats_of (ss_cache st)\<rparr>) \<and>
    ss_summaries st = sweep sha (store_graph m) (concat cs) \<and>
    swept sha (proc_of (store_graph m)) c (Field (call_pairs m)) (2 * card (Field (call_pairs m))) st"
proof -
  let ?g = "store_graph m"
  let ?a = "new_interproc c widening"
  obtain cs where cs: "tarjan_scc ?g = Some cs" "set (concat cs) = set (graph_nodes ?g)" "distinct (concat cs)"
    "\<forall>c \<in> set cs. c \<noteq> []"
    using tarjan_components [of ?g] by blast
  have field: "set (concat cs) = Field (call_pairs m)" using cs(2) store_graph_nodes by simp
  have len: "length (concat cs) = card (Field (call_pairs m))" using distinct_card [OF cs(3)] field by simp
  have sw: "swept sha (proc_of ?g) c {} (2 * card {}) (begin_solve (ia_cache ?a))"
    by (simp add: swept_def new_summary_cache_def begin_solve_def new_interproc_def)
  have w: "1 \<le> ia_widening ?a" by (simp add: new_interproc_def default_widening_threshold_def)
  have keys: "key_of sha (proc_of ?g) = (\<lambda>p. content_key sha p [p])" by (rule ext) (simp add: key_of_def proc_of_def)
  have inj: "inj_on (key_of sha (proc_of ?g)) (set (concat cs) \<union> {})" using c unfolding keys field by (simp add: uncapped_def)
  have procs: "\<forall>p \<in> set (concat cs). fmlookup (store_procs m) p = Some (proc_of ?g p)"
    unfolding field store_procs_lookup(1) [OF m(3)] by simp
  have r: "room c (card (Field (call_pairs m)))" using c by (simp add: uncapped_def)
  have ne: "[] \<notin> set cs" using cs(4) by blast
  have "length (concat cs) + card {} \<le> card (Field (call_pairs m))" using len by simp
  from sccs_sweep [OF sw procs cs(3) ne _ inj r this _ w] obtain st where
    st: "solve_sccs sha (\<lambda>_. None) c (ia_widening ?a) (store_procs m) cs (begin_solve (ia_cache ?a)) = Some (Proceed st)"
    "swept sha (proc_of ?g) c (set (concat cs) \<union> {}) (2 * card (set (concat cs) \<union> {})) st"
    "ss_summaries st = fold (sweep_step sha (proc_of ?g)) (concat cs) (ss_summaries (begin_solve (ia_cache ?a)))"
    by auto
  have sums: "ss_summaries st = sweep sha ?g (concat cs)" unfolding st(3) by (simp add: begin_solve_def)
  have caps: "ia_caps ?a = c" by (simp add: new_interproc_def)
  have "interproc_run sha (\<lambda>_. None) ?a (mem_reader lower None m) = Some (?a\<lparr>ia_cache := ss_cache st\<rparr>,
      Inr \<lparr>so_summaries = ss_summaries st, so_sccs = cs, so_diags = ss_diags st, so_stats = stats_of (ss_cache st)\<rparr>)"
    by (rule run_from [OF m _ _ cs(1)]) (use w r st(1) caps in simp_all)
  moreover have "ss_diags st = []" using st(2) by (simp add: swept_def)
  ultimately show ?thesis using cs(1) st(2) sums field by auto
qed

text \<open>
  C18: the analyzer keeps its cache between runs and its keys name the procedure only.  Once it has run on
  a store, it answers for every other store with the same procedures as for the first, whatever calls have
  been added, removed or redirected in between, and raises no diagnostic.
\<close>

theorem second_run_is_stale:
  assumes "store_ok m" "\<not> closed m" "call_pairs m \<noteq> {}" "uncapped sha c m"
    and "store_ok m'" "\<not> closed m'" "Field (call_pairs m') = Field (call_pairs m)"
  shows "\<exists>a r a' r'. interproc_run sha (\<lambda>_. None) (new_interproc c widening) (mem_reader lower None m) = Some (a, Inr r) \<and>
    interproc_run sha (\<lambda>_. None) a (mem_reader lower None m') = Some (a', Inr r') \<and>
    so_summaries r' = so_summaries r \<and> so_diags r' = []"
proof -
  let ?P = "Field (call_pairs m)" and ?g' = "store_graph m'"
  obtain st cs where st: "interproc_run sha (\<lambda>_. None) (new_interproc c widening) (mem_reader lower None m) =
      Some ((new_interproc c widening)\<lparr>ia_cache := ss_cache st\<rparr>,
        Inr \<lparr>so_summaries = sweep sha (store_graph m) (concat cs), so_sccs = cs, so_diags = [], so_stats = stats_of (ss_cache st)\<rparr>)"
    "ss_summaries st = sweep sha (store_graph m) (concat cs)"
    "swept sha (proc_of (store_graph m)) c ?P (2 * card ?P) st"
    using run_eq [OF assms(1-4)] by blast
  let ?a = "(new_interproc c widening)\<lparr>ia_cache := ss_cache st\<rparr>" and ?old = "ss_summaries st"
  have ne': "call_pairs m' \<noteq> {}" using assms(3,7) by (auto simp: Field_def)
  obtain cs' where cs': "tarjan_scc ?g' = Some cs'" "set (concat cs') = set (graph_nodes ?g')" "distinct (concat cs')"
    using tarjan_components [of ?g'] by blast
  have field: "set (concat cs') = ?P" using cs'(2) store_graph_nodes [of m'] assms(7) by simp
  have len: "0 + length (concat cs') \<le> card ?P" using distinct_card [OF cs'(3)] field by simp
  have w: "ia_widening ?a > 0" by (simp add: new_interproc_def default_widening_threshold_def)
  have caps: "ia_caps ?a = c" "ia_cache ?a = ss_cache st" by (simp_all add: new_interproc_def)
  have r: "room c (card ?P)" using assms(4) by (simp add: uncapped_def)
  have keys: "key_of sha (proc_of g) = (\<lambda>p. content_key sha p [p])" for g
    by (rule ext) (simp add: key_of_def proc_of_def)
  have "fmlookup ?old p \<noteq> None" if "p \<in> ?P" for p using st(3) that by (auto simp: swept_def fmlookup_dom'_iff)
  then have "\<forall>p \<in> set (concat cs'). fmlookup (store_procs m') p = Some (proc_of ?g' p) \<and>
      fmlookup (sc_entries (ss_cache (begin_solve (ss_cache st)))) (key_of sha (proc_of ?g') p) = fmlookup ?old p \<and> fmlookup ?old p \<noteq> None"
    using st(3) unfolding field store_procs_lookup(1) [OF ne'] assms(7) keys by (simp add: swept_def keys begin_solve_def)
  from cached_sccs [OF this _ r _ len, of "{}"] obtain st' where
    st': "solve_sccs sha (\<lambda>_. None) c (ia_widening ?a) (store_procs m') cs' (begin_solve (ss_cache st)) = Some (Proceed st')"
      "ss_diags st' = []" "\<forall>q. fmlookup (ss_summaries st') q = (if q \<in> set (concat cs') \<union> {} then fmlookup ?old q else None)"
    by (auto simp: begin_solve_def)
  have run: "interproc_run sha (\<lambda>_. None) ?a (mem_reader lower None m') = Some (?a\<lparr>ia_cache := ss_cache st'\<rparr>,
      Inr \<lparr>so_summaries = ss_summaries st', so_sccs = cs', so_diags = ss_diags st', so_stats = stats_of (ss_cache st')\<rparr>)"
    by (rule run_from [OF assms(5,6) ne' w _ cs'(1)]) (use r st'(1) caps assms(7) in simp_all)
  have "ss_summaries st' = ?old"
  proof (rule fmap_ext)
    fix q
    show "fmlookup (ss_summaries st') q = fmlookup ?old q"
      using st'(3) field st(3) by (auto simp: swept_def fmdom'_notD)
  qed
  then show ?thesis using st(1,2) run st'(2) by simp
qed

lemma run_sweeps:
  assumes "store_ok m" "\<not> closed m" "call_pairs m \<noteq> {}" "uncapped sha c m"
  shows "\<exists>a r. interproc_run sha (\<lambda>_. None) (new_interproc c widening) (mem_reader lower None m) = Some (a, Inr r) \<and>
    tarjan_scc (store_graph m) = Some (so_sccs r) \<and> so_diags r = [] \<and>
    so_summaries r = sweep sha (store_graph m) (concat (so_sccs r))"
proof -
  from run_eq [OF assms, of widening lower] obtain st cs where e: "tarjan_scc (store_graph m) = Some cs \<and>
    interproc_run sha (\<lambda>_. None) (new_interproc c widening) (mem_reader lower None m) =
      Some ((new_interproc c widening)\<lparr>ia_cache := ss_cache st\<rparr>,
        Inr \<lparr>so_summaries = sweep sha (store_graph m) (concat cs), so_sccs = cs, so_diags = [], so_stats = stats_of (ss_cache st)\<rparr>) \<and>
    ss_summaries st = sweep sha (store_graph m) (concat cs) \<and>
    swept sha (proc_of (store_graph m)) c (Field (call_pairs m)) (2 * card (Field (call_pairs m))) st"
    by (elim exE)
  show ?thesis
    by (rule exI [of _ "(new_interproc c widening)\<lparr>ia_cache := ss_cache st\<rparr>"],
        rule exI [of _ "\<lparr>so_summaries = sweep sha (store_graph m) (concat cs), so_sccs = cs, so_diags = [],
            so_stats = stats_of (ss_cache st)\<rparr>"]) (use e in simp)
qed

lemma singletons: "\<forall>c \<in> set cs. \<exists>x. c = [x] \<Longrightarrow> concat (take k cs) = take k (concat cs)"
proof (induction cs arbitrary: k)
  case (Cons c cs)
  then obtain x where "c = [x]" by auto
  then show ?case using Cons by (cases k) auto
qed simp

lemma acyclic_order:
  assumes "callees_first g cs" "distinct (concat cs)" "\<forall>c \<in> set cs. c \<noteq> [] \<and> (\<forall>x \<in> set c. set c = component_of g x)"
    and "\<And>x y. reaches g x y \<Longrightarrow> reaches g y x \<Longrightarrow> x = y"
  shows "callees_before g (concat cs)"
proof -
  have single: "\<exists>x. c = [x]" if c: "c \<in> set cs" for c
  proof -
    obtain x xs where cx: "c = x # xs" using assms(3) c by (cases c) auto
    have "set c = component_of g x" using assms(3) c cx by auto
    then have "set c \<subseteq> {x}" using assms(4) [of x] by (auto simp: component_of_def)
    moreover have "distinct c" using assms(2) c by (auto simp: distinct_concat_iff)
    ultimately have "xs = []" using cx by (cases xs) auto
    then show ?thesis using cx by blast
  qed
  show ?thesis unfolding callees_before_def
  proof (intro allI impI)
    fix us p vs assume eq: "concat cs = us @ p # vs"
    have "\<forall>c \<in> set cs. length c = 1" using single by fastforce
    then have len: "length (concat cs) = length cs" by (induction cs) auto
    have i: "length us < length cs" using eq len by simp
    have "concat (take (Suc (length us)) cs) = us @ [p]" "concat (take (length us) cs) = us"
      using singletons [of cs] single eq by simp_all
    then have "cs ! length us = [p]" using i by (simp add: take_Suc_conv_app_nth)
    then have "p \<in> set (cs ! length us)" by simp
    then have "set (callees_of g p) \<subseteq> set (concat (take (Suc (length us)) cs))"
      using assms(1) i unfolding callees_first_def by blast
    then show "set (callees_of g p) \<subseteq> insert p (set us)"
      unfolding \<open>concat (take (Suc (length us)) cs) = us @ [p]\<close> by simp
  qed
qed

text \<open>
  C16: on a store whose calls form no cycle but self calls, and below the caps, the interprocedural analyzer
  summarises every procedure exactly: its output labels are the identities of the procedures it reaches
  through calls, sorted, not approximate, and no diagnostic is raised.
\<close>

theorem interproc_exact:
  assumes "store_ok m" "\<not> closed m" "call_pairs m \<noteq> {}" "uncapped sha c m"
    and "\<And>x y. (x, y) \<in> (call_pairs m)\<^sup>* \<Longrightarrow> (y, x) \<in> (call_pairs m)\<^sup>* \<Longrightarrow> x = y"
  shows "\<exists>a r. interproc_run sha (\<lambda>_. None) (new_interproc c widening) (mem_reader lower None m) = Some (a, Inr r) \<and>
    so_diags r = [] \<and> fmdom' (so_summaries r) = Field (call_pairs m) \<and>
    (\<forall>p s. fmlookup (so_summaries r) p = Some s \<longrightarrow>
       plain_summary s \<and> set (su_outputs s) = {q. (p, q) \<in> (call_pairs m)\<^sup>*})"
proof -
  obtain a r where r: "interproc_run sha (\<lambda>_. None) (new_interproc c widening) (mem_reader lower None m) = Some (a, Inr r)"
    "tarjan_scc (store_graph m) = Some (so_sccs r)" "so_diags r = []"
    "so_summaries r = sweep sha (store_graph m) (concat (so_sccs r))"
    using run_sweeps [OF assms(1-4)] by blast
  obtain cs where cs: "so_sccs r = cs" "set (concat cs) = set (graph_nodes (store_graph m))" "distinct (concat cs)"
    "\<forall>c \<in> set cs. c \<noteq> [] \<and> (\<forall>x \<in> set c. set c = component_of (store_graph m) x)" "callees_first (store_graph m) cs"
    using tarjan_components [of "store_graph m"] r(2) by auto
  have "callees_before (store_graph m) (concat cs)"
    by (rule acyclic_order [OF cs(5,3,4)]) (use assms(5) store_graph_rel [of m] in auto)
  note exact = sweep_exact [OF this cs(3), of sha, unfolded store_graph_rel]
  have "fmdom' (so_summaries r) = Field (call_pairs m)"
    unfolding r(4) cs(1) sweep_dom cs(2) by (rule store_graph_nodes)
  moreover have "plain_summary s \<and> set (su_outputs s) = {q. (p, q) \<in> (call_pairs m)\<^sup>*}"
    if "fmlookup (so_summaries r) p = Some s" for p s
    using that sweep_plain exact unfolding r(4) cs(1) by blast
  ultimately show ?thesis using r(1,3) by blast
qed

text \<open>
  C17: on any store below the caps the fixpoint over a recursive component is cut after one pass: the
  first member of every component reaches all its members, yet its summary lists none of them but
  itself, is not marked approximate, and no diagnostic is raised.
\<close>

theorem recursion_is_cut:
  assumes "store_ok m" "\<not> closed m" "call_pairs m \<noteq> {}" "uncapped sha c m"
  shows "\<exists>a r. interproc_run sha (\<lambda>_. None) (new_interproc c widening) (mem_reader lower None m) = Some (a, Inr r) \<and>
    so_diags r = [] \<and> set (concat (so_sccs r)) = Field (call_pairs m) \<and>
    (\<forall>scc \<in> set (so_sccs r). (\<forall>q. q \<in> set scc \<longleftrightarrow> (hd scc, q) \<in> (call_pairs m)\<^sup>* \<and> (q, hd scc) \<in> (call_pairs m)\<^sup>*) \<and>
       (\<exists>s. fmlookup (so_summaries r) (hd scc) = Some s \<and> \<not> su_approximate s \<and> set (su_outputs s) \<inter> set scc = {hd scc}))"
proof -
  let ?g = "store_graph m"
  obtain a r where r: "interproc_run sha (\<lambda>_. None) (new_interproc c widening) (mem_reader lower None m) = Some (a, Inr r)"
    "tarjan_scc ?g = Some (so_sccs r)" "so_diags r = []" "so_summaries r = sweep sha ?g (concat (so_sccs r))"
    using run_sweeps [OF assms] by blast
  obtain cs where cs: "so_sccs r = cs" "distinct (concat cs)"
    "\<forall>c \<in> set cs. c \<noteq> [] \<and> (\<forall>x \<in> set c. set c = component_of ?g x)" "set (concat cs) = set (graph_nodes ?g)"
    using tarjan_components [of ?g] r(2) by auto
  have "(\<forall>q. q \<in> set scc \<longleftrightarrow> (hd scc, q) \<in> (call_pairs m)\<^sup>* \<and> (q, hd scc) \<in> (call_pairs m)\<^sup>*) \<and>
       (\<exists>s. fmlookup (so_summaries r) (hd scc) = Some s \<and> \<not> su_approximate s \<and> set (su_outputs s) \<inter> set scc = {hd scc})"
    if scc: "scc \<in> set cs" for scc
  proof -
    obtain p ps where pp: "scc = p # ps" using cs(3) scc by (cases scc) auto
    obtain us vs where uv: "cs = us @ scc # vs" using scc by (meson split_list)
    have eq: "concat cs = (concat us @ [p]) @ (ps @ concat vs)" using uv pp by simp
    have disj: "set (concat us @ [p]) \<inter> set (ps @ concat vs) = {}" using cs(2) unfolding eq distinct_append by blast
    let ?s = "new_summary sha p (proc_of ?g p) False 1 (sweep sha ?g (concat us))"
    have l: "fmlookup (sweep sha ?g (concat us @ [p])) p = Some ?s" unfolding sweep_snoc by simp
    note b = sweep_bounded [OF l]
    have s: "fmlookup (so_summaries r) p = Some ?s"
      unfolding r(4) cs(1) eq by (subst sweep_append [OF disj]) (simp_all only: l, simp)
    have "p \<in> set (su_outputs ?s)" unfolding new_outputs(1) by blast
    moreover have "set ps \<inter> set (concat us @ [p]) = {}" using disj by auto
    ultimately have "set (su_outputs ?s) \<inter> set scc = {p}" using b unfolding pp list.set by blast
    moreover have "set scc = component_of ?g p" using cs(3) scc pp by auto
    then have "\<forall>q. q \<in> set scc \<longleftrightarrow> (p, q) \<in> (call_pairs m)\<^sup>* \<and> (q, p) \<in> (call_pairs m)\<^sup>*"
      unfolding component_of_def store_graph_rel by blast
    ultimately show ?thesis using s new_outputs(4) [of sha p ?g] pp by auto
  qed
  note each = this
  show ?thesis
  proof (intro exI [of _ a] exI [of _ r] conjI)
    show "\<forall>scc \<in> set (so_sccs r). (\<forall>q. q \<in> set scc \<longleftrightarrow> (hd scc, q) \<in> (call_pairs m)\<^sup>* \<and> (q, hd scc) \<in> (call_pairs m)\<^sup>*) \<and>
       (\<exists>s. fmlookup (so_summaries r) (hd scc) = Some s \<and> \<not> su_approximate s \<and> set (su_outputs s) \<inter> set scc = {hd scc})"
      using each unfolding cs(1) by (rule ballI)
  qed (simp_all only: r(1,3) cs(1,4) store_graph_nodes)
qed

subsection \<open>Two stores\<close>

lemma key_injective: "inj (\<lambda>p. content_key id p [p])"
proof (rule injI)
  fix p q :: string
  assume "content_key id p [p] = content_key id q [q]"
  then have eq: "p @ '';inputs='' @ p = q @ '';inputs='' @ q" by (simp add: content_key_def)
  then have "length (p @ '';inputs='' @ p) = length (q @ '';inputs='' @ q)" by (rule arg_cong)
  then have "length p = length q" by simp
  then show "p = q" using eq by simp
qed

lemma small_room: "finite X \<Longrightarrow> card X \<le> 2 \<Longrightarrow> room default_caps (card X)"
  by (simp add: room_def default_caps_def)

lemma small_calls: "call_pairs (small_store c) = {(n_id (fn_node ''f''), n_id (fn_node ''g''))}"
  unfolding call_pairs_def small_ran by (auto simp: call_edge_def)

lemma two_uncapped: "Field (call_pairs m) = {x, y} \<Longrightarrow> uncapped id default_caps m"
  unfolding uncapped_def using inj_on_subset [OF key_injective subset_UNIV] small_room [of "{x, y}"] card_insert_le_m1 [of 2 "{y}" x]
  by simp

theorem interproc_exact_witness:
  "\<exists>a r s. interproc_run id (\<lambda>_. None) (new_interproc default_caps 0) (mem_reader id None (small_store (Finite 1))) = Some (a, Inr r) \<and>
     fmlookup (so_summaries r) (n_id (fn_node ''f'')) = Some s \<and> n_id (fn_node ''g'') \<in> set (su_outputs s)"
proof -
  let ?m = "small_store (Finite 1)" and ?f = "n_id (fn_node ''f'')" and ?g = "n_id (fn_node ''g'')"
  have R: "call_pairs ?m = {(?f, ?g)}" by (rule small_calls)
  have field: "Field (call_pairs ?m) = {?f, ?g}" unfolding R by (auto simp: Field_def)
  have ne: "call_pairs ?m \<noteq> {}" unfolding R by simp
  have "(x, y) \<in> {(?f, ?g)}\<^sup>* \<Longrightarrow> x = y \<or> x = ?f \<and> y = ?g" for x y
    by (induction rule: rtrancl_induct) (use fn_ids in auto)
  then have acyclic: "x = y" if "(x, y) \<in> (call_pairs ?m)\<^sup>*" "(y, x) \<in> (call_pairs ?m)\<^sup>*" for x y
    using that fn_ids unfolding R by blast
  obtain a r where r: "interproc_run id (\<lambda>_. None) (new_interproc default_caps 0) (mem_reader id None ?m) = Some (a, Inr r)"
    "fmdom' (so_summaries r) = Field (call_pairs ?m)"
    "\<forall>p s. fmlookup (so_summaries r) p = Some s \<longrightarrow> plain_summary s \<and> set (su_outputs s) = {q. (p, q) \<in> (call_pairs ?m)\<^sup>*}"
    using interproc_exact [OF small_store_ok small_store_maps(3) ne two_uncapped [OF field] acyclic] by blast
  have "?f \<in> fmdom' (so_summaries r)" using r(2) field by simp
  then obtain s where "fmlookup (so_summaries r) ?f = Some s" by (meson fmlookup_dom'_iff)
  moreover have "(?f, ?g) \<in> (call_pairs ?m)\<^sup>*" unfolding R by blast
  ultimately show ?thesis using r(1,3) by blast
qed

definition back_edge :: edge where
  "back_edge =
     \<lparr>e_id = derive_id sum_hash edge_id_domain_tag [n_id (fn_node ''g''), n_id (fn_node ''f''), ''calls''],
      e_from = n_id (fn_node ''g''), e_to = n_id (fn_node ''f''), e_kind = ''calls'',
      e_tier = ''derived'', e_conf = Finite 1, e_reason = ''call'', e_evidence = [''a.go:2'']\<rparr>"

definition cycle_store :: mem_store where
  "cycle_store = fst (mem_put_edge None (small_store (Finite 1)) back_edge)"

lemma edge_ids: "e_id (call_edge (Finite 1)) \<noteq> e_id back_edge"
  by code_simp

lemma cycle_reach: "mem_reach {fn_node ''f'', fn_node ''g''} {call_edge (Finite 1), back_edge} cycle_store"
  unfolding cycle_store_def small_store_def
  by (rule mem_reach.step [OF _ mem_step.put_edge],
      rule mem_reach.step [OF _ mem_step.put_edge],
      rule mem_reach.step [OF _ mem_step.put_node],
      rule mem_reach.step [OF mem_reach.start mem_step.put_node]) simp_all

lemma cycle_ok: "store_ok cycle_store"
proof -
  have "addressed {fn_node ''f'', fn_node ''g''} {call_edge (Finite 1), back_edge}"
    using fn_ids edge_ids by (auto simp: addressed_def)
  then show ?thesis using reach_drawn [OF cycle_reach] by simp
qed

lemma cycle_maps:
  "edges cycle_store = fmupd (e_id back_edge) back_edge (edges (small_store (Finite 1)))" "\<not> closed cycle_store"
  by (simp_all add: cycle_store_def put_edge_eq small_store_maps) (simp_all add: back_edge_def small_store_maps)

lemma two_values: "k \<noteq> k' \<Longrightarrow> fmran' (fmupd k v (fmupd k' v' fmempty)) = {v, v'}"
  by (auto simp: fmran'_def ran_def split: if_splits)

lemma cycle_calls:
  "call_pairs cycle_store = {(n_id (fn_node ''f''), n_id (fn_node ''g'')), (n_id (fn_node ''g''), n_id (fn_node ''f''))}"
proof -
  have "fmran' (edges cycle_store) = {back_edge, call_edge (Finite 1)}"
    unfolding cycle_maps small_store_maps(2) by (rule two_values [OF edge_ids [symmetric]])
  moreover have "e_from (call_edge (Finite 1)) = n_id (fn_node ''f'')" "e_to (call_edge (Finite 1)) = n_id (fn_node ''g'')"
    "e_kind (call_edge (Finite 1)) = ''calls''" "e_from back_edge = n_id (fn_node ''g'')" "e_to back_edge = n_id (fn_node ''f'')"
    "e_kind back_edge = ''calls''"
    by (simp_all only: call_edge_def back_edge_def edge.simps)
  ultimately show ?thesis unfolding call_pairs_def
    by (auto intro: exI [of _ back_edge] exI [of _ "call_edge (Finite 1)"])
qed

theorem recursion_is_cut_witness:
  "\<exists>a r p q s. interproc_run id (\<lambda>_. None) (new_interproc default_caps 0) (mem_reader id None cycle_store) = Some (a, Inr r) \<and>
     (p, q) \<in> call_pairs cycle_store \<and> fmlookup (so_summaries r) p = Some s \<and> q \<notin> set (su_outputs s)"
proof -
  let ?f = "n_id (fn_node ''f'')" and ?g = "n_id (fn_node ''g'')"
  let ?R = "call_pairs cycle_store"
  have R: "?R = {(?f, ?g), (?g, ?f)}" by (rule cycle_calls)
  have field: "Field ?R = {?f, ?g}" unfolding R by (auto simp: Field_def)
  have ne: "?R \<noteq> {}" unfolding R by simp
  obtain a r where r: "interproc_run id (\<lambda>_. None) (new_interproc default_caps 0) (mem_reader id None cycle_store) = Some (a, Inr r)"
    "set (concat (so_sccs r)) = Field ?R"
    "\<forall>scc \<in> set (so_sccs r). (\<forall>q. q \<in> set scc \<longleftrightarrow> (hd scc, q) \<in> ?R\<^sup>* \<and> (q, hd scc) \<in> ?R\<^sup>*) \<and>
       (\<exists>s. fmlookup (so_summaries r) (hd scc) = Some s \<and> \<not> su_approximate s \<and> set (su_outputs s) \<inter> set scc = {hd scc})"
    using recursion_is_cut [OF cycle_ok cycle_maps(2) ne two_uncapped [OF field]] by blast
  obtain scc where scc: "scc \<in> set (so_sccs r)" "?f \<in> set scc" using r(2) field by auto
  let ?p = "hd scc"
  obtain s where s: "fmlookup (so_summaries r) ?p = Some s" "set (su_outputs s) \<inter> set scc = {?p}" using r(3) scc(1) by blast
  have mem: "q \<in> set scc \<longleftrightarrow> (?p, q) \<in> ?R\<^sup>* \<and> (q, ?p) \<in> ?R\<^sup>*" for q using r(3) scc(1) by blast
  have fg: "(?f, ?g) \<in> ?R" "(?g, ?f) \<in> ?R" unfolding R by simp_all
  have "?g \<in> set scc" using mem [of ?f] mem [of ?g] scc(2) fg
    by (meson converse_rtrancl_into_rtrancl rtrancl_into_rtrancl)
  have p: "?p \<in> {?f, ?g}"
  proof -
    have "?p \<in> set scc" using s(2) by blast
    then have "?p \<in> set (concat (so_sccs r))" using scc(1) by auto
    then show ?thesis by (simp only: r(2) field)
  qed
  define q where "q = (if ?p = ?f then ?g else ?f)"
  have "(?p, q) \<in> ?R" "q \<in> set scc" "q \<noteq> ?p"
    using p fg fn_ids scc(2) \<open>?g \<in> set scc\<close> by (auto simp: q_def)
  then show ?thesis using r(1) s by blast
qed

text \<open>The same two functions, with the call turned round.\<close>

definition turned_store :: mem_store where
  "turned_store = fst (mem_put_edge None
       (fst (mem_put_node None (fst (mem_put_node None new_mem_store (fn_node ''f''))) (fn_node ''g'')))
       back_edge)"

lemma turned_maps:
  "edges turned_store = fmupd (e_id back_edge) back_edge fmempty" "\<not> closed turned_store"
  by (simp_all add: turned_store_def put_node_eq put_edge_eq) (simp_all add: new_mem_store_def back_edge_def)

lemma turned_ok: "store_ok turned_store"
proof -
  have "mem_reach {fn_node ''f'', fn_node ''g''} {back_edge} turned_store"
    unfolding turned_store_def
    by (rule mem_reach.step [OF _ mem_step.put_edge],
        rule mem_reach.step [OF _ mem_step.put_node],
        rule mem_reach.step [OF mem_reach.start mem_step.put_node]) simp_all
  moreover have "addressed {fn_node ''f'', fn_node ''g''} {back_edge}" using fn_ids by (auto simp: addressed_def)
  ultimately show ?thesis using reach_drawn by blast
qed

lemma turned_calls: "call_pairs turned_store = {(n_id (fn_node ''g''), n_id (fn_node ''f''))}"
proof -
  have "fmran' (edges turned_store) = {back_edge}" unfolding turned_maps by (auto simp: fmran'_def ran_def split: if_splits)
  moreover have "e_from back_edge = n_id (fn_node ''g'')" "e_to back_edge = n_id (fn_node ''f'')" "e_kind back_edge = ''calls''"
    by (simp_all only: back_edge_def edge.simps)
  ultimately show ?thesis unfolding call_pairs_def by auto
qed

theorem second_run_is_stale_witness:
  "\<exists>a r a' r'. interproc_run id (\<lambda>_. None) (new_interproc default_caps 0) (mem_reader id None (small_store (Finite 1))) = Some (a, Inr r) \<and>
     interproc_run id (\<lambda>_. None) a (mem_reader id None turned_store) = Some (a', Inr r') \<and>
     so_summaries r' = so_summaries r \<and> call_pairs turned_store \<noteq> call_pairs (small_store (Finite 1))"
proof -
  let ?m = "small_store (Finite 1)"
  have R: "call_pairs ?m = {(n_id (fn_node ''f''), n_id (fn_node ''g''))}" by (rule small_calls)
  have field: "Field (call_pairs ?m) = {n_id (fn_node ''f''), n_id (fn_node ''g'')}" unfolding R by (auto simp: Field_def)
  have ne: "call_pairs ?m \<noteq> {}" unfolding R by simp
  have same: "Field (call_pairs turned_store) = Field (call_pairs ?m)" unfolding R turned_calls by (auto simp: Field_def)
  have diff: "call_pairs turned_store \<noteq> call_pairs ?m" unfolding R turned_calls using fn_ids by simp
  show ?thesis
    using second_run_is_stale [OF small_store_ok small_store_maps(3) ne two_uncapped [OF field] turned_ok turned_maps(2) same] diff
    by blast
qed

end
