(* ===== verification/Pdg.thy ===== *)
theory Pdg
  imports CallChain Scc "HOL-Library.Product_Lexorder"
begin

text \<open>
  The program dependence graph of \<open>engine/analysis/pdg\<close>: the adjacency \<open>pdg.go\<close> builds, the data dependences of
  \<open>reaching.go\<close>, a worklist that propagates definitions along the configured edges, and the control
  dependences of \<open>postdom.go\<close>.  The worklist is a heap over node identities, here a sorted list; the set
  of a node is a finite set.
\<close>

subsection \<open>Data dependences\<close>

definition edge_kind_data_dep :: string where "edge_kind_data_dep = ''data_dep''"

record pdg_config =
  pc_edge_kinds :: "string list"
  pc_max_nodes :: int
  pc_max_work :: int
  pc_max_depth :: int

definition default_pdg_config :: pdg_config where
  "default_pdg_config =
     \<lparr>pc_edge_kinds = [''calls'', ''references'', ''defines''], pc_max_nodes = 10000, pc_max_work = 200000, pc_max_depth = 500\<rparr>"

record dep_edge =
  de_from :: string
  de_to :: string
  de_kind :: string
  de_rule :: string

text \<open>The diagnostics: the context ended after so many iterations, or the work cap was exceeded.\<close>

datatype rd_diagnostic = RdCancelled int | RdMaxWork int

type_synonym reach_map = "(string, string fset) fmap"

definition reach_of :: "reach_map \<Rightarrow> string \<Rightarrow> string fset" where
  "reach_of r v = (case fmlookup r v of None \<Rightarrow> {||} | Some s \<Rightarrow> s)"

definition push_item :: "string \<Rightarrow> string list \<Rightarrow> string list" where
  "push_item v wl = insort v wl"

text \<open>One successor of the popped node: its set grows, and it is queued when it did.\<close>

definition visit_successor :: "string \<Rightarrow> string \<Rightarrow> reach_map \<times> string list \<Rightarrow> reach_map \<times> string list" where
  "visit_successor u succ s =
     (case s of (r, wl) \<Rightarrow>
        (fmupd succ (reach_of r succ |\<union>| reach_of r u) r,
         if reach_of r u |\<subseteq>| reach_of r succ then wl else push_item succ wl))"

partial_function (option) rd_loop ::
  "(nat \<Rightarrow> bool) \<Rightarrow> call_graph \<Rightarrow> pdg_config \<Rightarrow> nat \<Rightarrow> reach_map \<Rightarrow> string list
     \<Rightarrow> (reach_map \<times> rd_diagnostic list \<times> bool) option" where
  "rd_loop cancelled adj cfg work r wl =
     (case wl of
        [] \<Rightarrow> Some (r, [], False)
      | u # rest \<Rightarrow>
          if cancelled work then Some (r, [RdCancelled (int work)], True)
          else if pc_max_work cfg > 0 \<and> int (Suc work) > pc_max_work cfg then Some (r, [RdMaxWork (pc_max_work cfg)], False)
          else (case fold (visit_successor u) (callees_of adj u) (r, rest) of
                  (r', wl') \<Rightarrow> rd_loop cancelled adj cfg (Suc work) r' wl'))"

definition dep_edges_of :: "reach_map \<Rightarrow> string \<Rightarrow> dep_edge list" where
  "dep_edges_of r v =
     map (\<lambda>d. \<lparr>de_from = d, de_to = v, de_kind = edge_kind_data_dep, de_rule = ''reaching_definitions''\<rparr>)
       (sorted_list_of_fset (reach_of r v |-| {|v|}))"

definition sort_deps :: "dep_edge list \<Rightarrow> dep_edge list" where
  "sort_deps es = sort_key (\<lambda>e. (de_from e, de_to e, de_kind e)) es"

definition reaching_defs ::
  "(nat \<Rightarrow> bool) \<Rightarrow> string list \<Rightarrow> call_graph \<Rightarrow> pdg_config \<Rightarrow> (dep_edge list \<times> rd_diagnostic list) option" where
  "reaching_defs cancelled node_ids adj cfg =
     (let r = fold (\<lambda>v r. fmupd v {|v|} r) node_ids fmempty;
          wl = fold push_item (filter (\<lambda>v. callees_of adj v \<noteq> []) node_ids) []
      in case rd_loop cancelled adj cfg 0 r wl of
           None \<Rightarrow> None
         | Some (r', diags, True) \<Rightarrow> Some ([], diags)
         | Some (r', diags, False) \<Rightarrow> Some (sort_deps (concat (map (dep_edges_of r') node_ids)), diags))"

subsection \<open>Control dependences\<close>

definition edge_kind_control_dep :: string where "edge_kind_control_dep = ''control_dep''"

definition add_flow :: "string \<times> string \<Rightarrow> call_graph \<Rightarrow> call_graph" where
  "add_flow p g = fmupd (fst p) (callees_of g (fst p) @ [snd p]) g"

definition flow_pairs :: "call_graph \<Rightarrow> (string \<times> string) list" where
  "flow_pairs adj = concat (map (\<lambda>a. map (\<lambda>b. (a, b)) (callees_of adj a)) (sorted_list_of_fset (fmdom adj)))"

definition reverse_adj :: "call_graph \<Rightarrow> call_graph" where
  "reverse_adj adj = fmmap sort (fold (\<lambda>(a, b). add_flow (b, a)) (flow_pairs adj) fmempty)"

text \<open>The exit is the smallest node without successors, or the largest node.\<close>

definition exit_node :: "call_graph \<Rightarrow> string list \<Rightarrow> string" where
  "exit_node adj node_ids =
     (case sort (filter (\<lambda>v. callees_of adj v = []) node_ids) of
        x # _ \<Rightarrow> x
      | [] \<Rightarrow> last (sort node_ids))"

text \<open>The depth-first search under the exit; the fuel bounds the depth.\<close>

fun post_order :: "call_graph \<Rightarrow> nat \<Rightarrow> string list \<Rightarrow> string fset \<times> string list \<Rightarrow> (string fset \<times> string list) option" where
  "post_order g fuel [] s = Some s"
| "post_order g 0 (n # ns) s = None"
| "post_order g (Suc fuel) (n # ns) (seen, post) =
     (if n |\<in>| seen then post_order g (Suc fuel) ns (seen, post)
      else case post_order g fuel (sort (callees_of g n)) (finsert n seen, post) of
             None \<Rightarrow> None
           | Some (seen', post') \<Rightarrow> post_order g (Suc fuel) ns (seen', post' @ [n]))"

definition reverse_post_order :: "string \<Rightarrow> call_graph \<Rightarrow> string list \<Rightarrow> string list option" where
  "reverse_post_order start_id g all_nodes =
     (case post_order g (length all_nodes + 2) [start_id] ({||}, []) of
        None \<Rightarrow> None
      | Some (seen, post) \<Rightarrow> Some (rev post @ sort (filter (\<lambda>v. v |\<notin>| seen) all_nodes)))"

definition rpo_index :: "string list \<Rightarrow> string \<Rightarrow> nat" where
  "rpo_index rpo v = (case find (\<lambda>i. rpo ! i = v) [0..<length rpo] of None \<Rightarrow> 0 | Some i \<Rightarrow> i)"

definition parent_of :: "(string, string) fmap \<Rightarrow> string \<Rightarrow> string" where
  "parent_of idom v = (case fmlookup idom v of None \<Rightarrow> [] | Some p \<Rightarrow> p)"

partial_function (option) climb :: "string list \<Rightarrow> (string, string) fmap \<Rightarrow> string \<Rightarrow> string \<Rightarrow> string option" where
  "climb rpo idom f1 f2 =
     (if rpo_index rpo f1 > rpo_index rpo f2 then climb rpo idom (parent_of idom f1) f2 else Some f1)"

partial_function (option) intersect :: "string list \<Rightarrow> (string, string) fmap \<Rightarrow> string \<Rightarrow> string \<Rightarrow> string option" where
  "intersect rpo idom f1 f2 =
     (if f1 = f2 then Some f1
      else Option.bind (climb rpo idom f1 f2) (\<lambda>f1'.
        Option.bind (climb rpo idom f2 f1') (\<lambda>f2'. intersect rpo idom f1' f2')))"

text \<open>The common ancestor of the successors that have one already; the outer option is termination.\<close>

fun meet_preds :: "string list \<Rightarrow> (string, string) fmap \<Rightarrow> string list \<Rightarrow> string option \<Rightarrow> string option option" where
  "meet_preds rpo idom [] cur = Some cur"
| "meet_preds rpo idom (p # ps) cur =
     (if fmlookup idom p = None then meet_preds rpo idom ps cur
      else case cur of
             None \<Rightarrow> meet_preds rpo idom ps (Some p)
           | Some c \<Rightarrow>
               (case intersect rpo idom c p of
                  None \<Rightarrow> None
                | Some c' \<Rightarrow> meet_preds rpo idom ps (Some c')))"

fun idom_round ::
  "call_graph \<Rightarrow> string \<Rightarrow> string list \<Rightarrow> string list \<Rightarrow> (string, string) fmap \<times> bool \<Rightarrow> ((string, string) fmap \<times> bool) option" where
  "idom_round adj exit rpo [] s = Some s"
| "idom_round adj exit rpo (b # bs) (idom, changed) =
     (if b = exit then idom_round adj exit rpo bs (idom, changed)
      else case meet_preds rpo idom (callees_of adj b) None of
             None \<Rightarrow> None
           | Some None \<Rightarrow> idom_round adj exit rpo bs (idom, changed)
           | Some (Some new_idom) \<Rightarrow>
               if fmlookup idom b = Some new_idom then idom_round adj exit rpo bs (idom, changed)
               else idom_round adj exit rpo bs (fmupd b new_idom idom, True))"

partial_function (option) idom_loop ::
  "call_graph \<Rightarrow> string \<Rightarrow> string list \<Rightarrow> (string, string) fmap \<Rightarrow> (string, string) fmap option" where
  "idom_loop adj exit rpo idom =
     Option.bind (idom_round adj exit rpo rpo (idom, False)) (\<lambda>s.
       if snd s then idom_loop adj exit rpo (fst s) else Some (fst s))"

text \<open>The bounded walk up the tree from a successor of \<open>a\<close>, and the nodes it meets.\<close>

fun walk_up :: "(string, string) fmap \<Rightarrow> string \<Rightarrow> nat \<Rightarrow> string \<Rightarrow> string list" where
  "walk_up idom a 0 cur = []"
| "walk_up idom a (Suc n) cur =
     (if fmlookup idom a = Some cur then []
      else if cur = [] then []
      else cur # (case fmlookup idom cur of
                    None \<Rightarrow> []
                  | Some parent \<Rightarrow> if parent = cur then [] else walk_up idom a n parent))"

definition control_targets :: "call_graph \<Rightarrow> (string, string) fmap \<Rightarrow> nat \<Rightarrow> string \<Rightarrow> string list" where
  "control_targets adj idom n a =
     remdups (filter (\<lambda>c. c \<noteq> a) (concat (map (walk_up idom a n) (callees_of adj a))))"

definition control_edge :: "string \<Rightarrow> string \<Rightarrow> dep_edge" where
  "control_edge a c = \<lparr>de_from = a, de_to = c, de_kind = edge_kind_control_dep, de_rule = ''post_dominance_frontier''\<rparr>"

definition control_deps :: "string list \<Rightarrow> call_graph \<Rightarrow> dep_edge list option" where
  "control_deps node_ids adj =
     (if node_ids = [] then Some []
      else
        (let exit = exit_node adj node_ids in
         Option.bind (reverse_post_order exit (reverse_adj adj) node_ids) (\<lambda>rpo.
           Option.bind (idom_loop adj exit rpo (fmupd exit exit fmempty)) (\<lambda>idom.
             Some (sort_deps (concat (map (\<lambda>a. map (control_edge a) (control_targets adj idom (Suc (length node_ids)) a))
                     (sorted_list_of_fset (fmdom adj)))))))))"

subsection \<open>The analyzer\<close>

text \<open>The nodes analyzed, cut at the cap, and their adjacency along the configured kinds.\<close>

definition pdg_node_ids :: "pdg_config \<Rightarrow> node list \<Rightarrow> string list" where
  "pdg_node_ids cfg ns =
     (let ids = sorted_list_of_set (set (map n_id ns))
      in if pc_max_nodes cfg > 0 \<and> int (length ids) > pc_max_nodes cfg then take (nat (pc_max_nodes cfg)) ids else ids)"

definition flows :: "pdg_config \<Rightarrow> string list \<Rightarrow> edge \<Rightarrow> bool" where
  "flows cfg ids e \<longleftrightarrow> (pc_edge_kinds cfg = [] \<or> e_kind e \<in> set (pc_edge_kinds cfg)) \<and>
     e_from e \<in> set ids \<and> e_to e \<in> set ids"

fun dedup_ids :: "string list \<Rightarrow> string list" where
  "dedup_ids (x # y # xs) = (if x = y then dedup_ids (y # xs) else x # dedup_ids (y # xs))"
| "dedup_ids xs = xs"

definition pdg_adj :: "pdg_config \<Rightarrow> string list \<Rightarrow> edge list \<Rightarrow> call_graph" where
  "pdg_adj cfg ids es =
     fmmap (\<lambda>vs. dedup_ids (sort vs)) (fold (\<lambda>e. add_flow (e_from e, e_to e)) (filter (flows cfg ids) es) fmempty)"

record pdg_node =
  pn_id :: string
  pn_kind :: string
  pn_qname :: string
  pn_source_path :: string
  pn_line :: int
  pn_col :: int

definition pdg_node_of :: "node \<Rightarrow> pdg_node" where
  "pdg_node_of n = \<lparr>pn_id = n_id n, pn_kind = n_kind n, pn_qname = n_qname n, pn_source_path = n_path n, pn_line = n_line n,
     pn_col = n_col n\<rparr>"

record pdg_result =
  pr_data :: "dep_edge list"
  pr_control :: "dep_edge list"
  pr_nodes :: "pdg_node list"
  pr_diags :: "rd_diagnostic list"

definition node_by_id :: "node list \<Rightarrow> (string, node) fmap" where
  "node_by_id ns = fold (\<lambda>n. fmupd (n_id n) n) ns fmempty"

definition pdg_run ::
  "(nat \<Rightarrow> bool) \<Rightarrow> pdg_config \<Rightarrow> reader_port \<Rightarrow> (store_error + pdg_result) option" where
  "pdg_run cancelled cfg r =
     (case rp_nodes r any_query of
        Inl err \<Rightarrow> Some (Inl err)
      | Inr ns \<Rightarrow>
          (case rp_edges r any_query of
             Inl err \<Rightarrow> Some (Inl err)
           | Inr es \<Rightarrow>
               if ns = [] then Some (Inr \<lparr>pr_data = [], pr_control = [], pr_nodes = [], pr_diags = []\<rparr>)
               else
                 (let ids = pdg_node_ids cfg ns; adj = pdg_adj cfg ids es in
                  Option.bind (reaching_defs cancelled ids adj cfg) (\<lambda>(data, diags).
                    Option.bind (control_deps ids adj) (\<lambda>control.
                      Some (Inr \<lparr>pr_data = data, pr_control = control,
                                 pr_nodes = map (\<lambda>i. pdg_node_of (the (fmlookup (node_by_id ns) i))) ids,
                                 pr_diags = diags\<rparr>))))))"

subsection \<open>The invariant of the worklist\<close>

definition rd_inv :: "string set \<Rightarrow> call_graph \<Rightarrow> reach_map \<Rightarrow> string set \<Rightarrow> bool" where
  "rd_inv V adj r W \<longleftrightarrow>
     (\<forall>v \<in> V. v |\<in>| reach_of r v \<and> fset (reach_of r v) \<subseteq> {d \<in> V. reaches adj d v}) \<and>
     (\<forall>u \<in> V - W. \<forall>v \<in> set (callees_of adj u). reach_of r u |\<subseteq>| reach_of r v)"

definition missing :: "string set \<Rightarrow> reach_map \<Rightarrow> nat" where
  "missing V r = (\<Sum>v \<in> V. card V - fcard (reach_of r v))"

lemma reach_upd: "reach_of (fmupd v s r) x = (if x = v then s else reach_of r x)"
  by (simp add: reach_of_def)

lemma set_push [simp]: "set (push_item v wl) = insert v (set wl)"
  by (simp add: push_item_def set_insort_key)

text \<open>The invariant while the successors of \<open>u\<close> are visited, \<open>S\<close> those still to come.\<close>

definition visiting :: "string set \<Rightarrow> call_graph \<Rightarrow> string \<Rightarrow> string set \<Rightarrow> reach_map \<times> string list \<Rightarrow> bool" where
  "visiting V adj u S s \<longleftrightarrow> rd_inv V adj (fst s) (insert u (set (snd s))) \<and>
     (\<forall>v \<in> set (callees_of adj u) - S. u \<in> set (snd s) \<or> reach_of (fst s) u |\<subseteq>| reach_of (fst s) v)"

definition measure_of :: "string set \<Rightarrow> reach_map \<times> string list \<Rightarrow> nat \<times> nat" where
  "measure_of V s = (missing V (fst s), length (snd s))"

lemma visit_inv:
  assumes inv: "visiting V adj u (insert x S) (r, wl)" and u: "u \<in> V" "x \<in> V" "x \<in> set (callees_of adj u)"
    and V: "\<And>v. v \<in> V \<Longrightarrow> set (callees_of adj v) \<subseteq> V"
  shows "visiting V adj u S (visit_successor u x (r, wl))"
proof -
  obtain r' wl' where s: "visit_successor u x (r, wl) = (r', wl')" by fastforce
  have r': "reach_of r' y = (if y = x then reach_of r x |\<union>| reach_of r u else reach_of r y)" for y
    using s by (auto simp: visit_successor_def reach_upd)
  have grow: "reach_of r y |\<subseteq>| reach_of r' y" for y by (auto simp: r')
  have wl': "set wl' = (if reach_of r u |\<subseteq>| reach_of r x then set wl else insert x (set wl))"
    using s by (cases "reach_of r u |\<subseteq>| reach_of r x") (auto simp: visit_successor_def)
  have same: "reach_of r' y = reach_of r y" if "y \<notin> set wl'" for y
    using that by (cases "y = x") (auto simp: r' wl' split: if_splits)
  have reach: "v |\<in>| reach_of r v" "fset (reach_of r v) \<subseteq> {d \<in> V. reaches adj d v}" if "v \<in> V" for v
    using inv that by (auto simp: visiting_def rd_inv_def)
  have "v |\<in>| reach_of r' v \<and> fset (reach_of r' v) \<subseteq> {d \<in> V. reaches adj d v}" if v: "v \<in> V" for v
  proof (cases "v = x")
    case True
    have "reaches adj d x" if "reaches adj d u" for d
      using that u(3) by (auto simp: calls_rel_def intro: rtrancl_into_rtrancl)
    then show ?thesis using reach [OF u(1)] reach [OF u(2)] True by (auto simp: r')
  next
    case False
    then show ?thesis using reach [OF v] by (simp add: r')
  qed
  moreover have "reach_of r' y |\<subseteq>| reach_of r' v"
    if y: "y \<in> V - insert u (set wl')" "v \<in> set (callees_of adj y)" for y v
  proof -
    have "y \<notin> set wl" using y(1) wl' by (auto split: if_splits)
    then have "reach_of r y |\<subseteq>| reach_of r v" using inv y by (auto simp: visiting_def rd_inv_def)
    then show ?thesis using same [of y] y(1) grow [of v] by auto
  qed
  ultimately have "rd_inv V adj r' (insert u (set wl'))" by (auto simp: rd_inv_def)
  moreover have "u \<in> set wl' \<or> reach_of r' u |\<subseteq>| reach_of r' v" if v: "v \<in> set (callees_of adj u) - S" for v
  proof (cases "u \<in> set wl'")
    case False
    then have u': "reach_of r' u = reach_of r u" by (rule same)
    show ?thesis
    proof (cases "v = x")
      case True
      then show ?thesis using u' by (auto simp: r')
    next
      case neq: False
      have "u \<notin> set wl" using False wl' by (auto split: if_splits)
      then have "reach_of r u |\<subseteq>| reach_of r v" using inv v neq by (auto simp: visiting_def)
      then show ?thesis using u' grow [of v] by auto
    qed
  qed simp
  ultimately show ?thesis by (simp add: visiting_def s)
qed

text \<open>A visit queues nothing, or some set grew.\<close>

definition progress :: "string set \<Rightarrow> reach_map \<times> string list \<Rightarrow> reach_map \<times> string list \<Rightarrow> bool" where
  "progress V s s' \<longleftrightarrow> missing V (fst s') < missing V (fst s) \<or> missing V (fst s') = missing V (fst s) \<and> snd s' = snd s"

lemma visit_progress:
  assumes inv: "visiting V adj u S (r, wl)" and x: "x \<in> V" and V: "finite V" and u: "u \<in> V"
  shows "progress V (r, wl) (visit_successor u x (r, wl))"
proof (cases "reach_of r u |\<subseteq>| reach_of r x")
  case True
  then have "reach_of (fst (visit_successor u x (r, wl))) y = reach_of r y" for y
    by (auto simp: visit_successor_def reach_upd)
  then show ?thesis using True by (simp add: visit_successor_def missing_def progress_def)
next
  case False
  let ?r = "fst (visit_successor u x (r, wl))"
  have r: "reach_of ?r y = (if y = x then reach_of r x |\<union>| reach_of r u else reach_of r y)" for y
    by (simp add: visit_successor_def reach_upd)
  have sub: "fset (reach_of r v) \<subseteq> V" if "v \<in> V" for v using inv that by (auto simp: visiting_def rd_inv_def)
  have "reach_of r x |\<subset>| reach_of r x |\<union>| reach_of r u" using False by auto
  then have "fcard (reach_of r x) < fcard (reach_of ?r x)" unfolding r by (simp add: pfsubset_fcard_mono)
  moreover have "fcard (reach_of ?r x) \<le> card V"
    unfolding r fcard.rep_eq using sub [OF x] sub [OF u] V by (auto intro!: card_mono)
  ultimately have "card V - fcard (reach_of ?r x) < card V - fcard (reach_of r x)" by linarith
  then have "missing V ?r < missing V r"
    unfolding missing_def using x V by (intro sum_strict_mono_ex1) (auto simp: r)
  then show ?thesis by (simp add: progress_def)
qed

lemma fold_visits:
  assumes "u \<in> V" "finite V" and V: "\<And>v. v \<in> V \<Longrightarrow> set (callees_of adj v) \<subseteq> V"
  shows "\<lbrakk>visiting V adj u (set xs) s; set xs \<subseteq> set (callees_of adj u)\<rbrakk> \<Longrightarrow>
    visiting V adj u {} (fold (visit_successor u) xs s) \<and> progress V s (fold (visit_successor u) xs s)"
proof (induction xs arbitrary: s)
  case Nil
  then show ?case by (simp add: progress_def)
next
  case (Cons x xs)
  obtain r wl where s: "s = (r, wl)" by fastforce
  have x: "x \<in> set (callees_of adj u)" "x \<in> V" using Cons.prems(2) V [OF assms(1)] by auto
  have "visiting V adj u (insert x (set xs)) (r, wl)" using Cons.prems(1) s by simp
  note v = visit_inv [OF this assms(1) x(2,1) V] and p = visit_progress [OF this x(2) assms(2,1)]
  note ih = Cons.IH [OF v]
  then show ?case using Cons.prems(2) p s by (auto simp: progress_def)
qed

lemma pop_visit:
  assumes "rd_inv V adj r (set (u # rest))" "u \<in> V" "finite V" "set rest \<subseteq> V"
    and V: "\<And>v. v \<in> V \<Longrightarrow> set (callees_of adj v) \<subseteq> V"
    and f: "fold (visit_successor u) (callees_of adj u) (r, rest) = (r', wl')"
  shows "rd_inv V adj r' (set wl')" and "progress V (r, rest) (r', wl')"
proof -
  have "visiting V adj u (set (callees_of adj u)) (r, rest)" using assms(1) by (simp add: visiting_def)
  from fold_visits [OF assms(2,3) V this subset_refl] have v: "visiting V adj u {} (r', wl')" and p: "progress V (r, rest) (r', wl')"
    by (simp_all add: f)
  show "progress V (r, rest) (r', wl')" by (rule p)
  have inv: "rd_inv V adj r' (insert u (set wl'))"
    and here: "\<And>v. v \<in> set (callees_of adj u) \<Longrightarrow> u \<in> set wl' \<or> reach_of r' u |\<subseteq>| reach_of r' v"
    using v unfolding visiting_def by auto
  have "reach_of r' y |\<subseteq>| reach_of r' x" if "y \<in> V - set wl'" "x \<in> set (callees_of adj y)" for y x
  proof (cases "y = u")
    case True
    then show ?thesis using here [of x] that by simp
  next
    case False
    then show ?thesis using inv that unfolding rd_inv_def by simp
  qed
  then show "rd_inv V adj r' (set wl')" using inv unfolding rd_inv_def by simp
qed

lemma queued_in:
  "\<lbrakk>set (snd s) \<subseteq> V; set xs \<subseteq> V\<rbrakk> \<Longrightarrow> set (snd (fold (visit_successor u) xs s)) \<subseteq> V"
proof (induction xs arbitrary: s)
  case (Cons x xs)
  have "set (snd (visit_successor u x s)) \<subseteq> V" using Cons.prems by (cases s) (auto simp: visit_successor_def)
  then show ?case using Cons by simp
qed simp

lemma loop_reaches:
  assumes "finite V" and V: "\<And>v. v \<in> V \<Longrightarrow> set (callees_of adj v) \<subseteq> V"
  shows "\<lbrakk>rd_inv V adj r (set wl); set wl \<subseteq> V\<rbrakk> \<Longrightarrow>
    \<exists>r' diags. rd_loop (\<lambda>_. False) adj cfg work r wl = Some (r', diags, False) \<and>
      (\<exists>W. rd_inv V adj r' W \<and> (diags = [] \<longrightarrow> W = {})) \<and> (pc_max_work cfg \<le> 0 \<longrightarrow> diags = [])"
proof (induction "(r, wl)" arbitrary: r wl work
    rule: wf_induct_rule [OF wf_measures [of "[\<lambda>s. missing V (fst s), \<lambda>s. length (snd s)]"]])
  case 1
  show ?case
  proof (cases wl)
    case Nil
    then show ?thesis using 1(2) by (subst rd_loop.simps) auto
  next
    case (Cons u rest)
    show ?thesis
    proof (cases "pc_max_work cfg > 0 \<and> int (Suc work) > pc_max_work cfg")
      case True
      then show ?thesis using 1(2) Cons by (subst rd_loop.simps) auto
    next
      case False
      obtain r' wl' where f: "fold (visit_successor u) (callees_of adj u) (r, rest) = (r', wl')" by fastforce
      have u: "u \<in> V" "set rest \<subseteq> V" using 1(3) Cons by auto
      note pv = pop_visit [OF 1(2) [unfolded Cons] u(1) assms(1) u(2) V f]
      have "set wl' \<subseteq> V" using queued_in [of "(r, rest)" V "callees_of adj u" u] f u V [OF u(1)] by simp
      moreover have "((r', wl'), (r, wl)) \<in> measures [\<lambda>s. missing V (fst s), \<lambda>s. length (snd s)]"
        using pv(2) Cons by (auto simp: progress_def)
      ultimately have ih: "\<exists>r'' diags. rd_loop (\<lambda>_. False) adj cfg (Suc work) r' wl' = Some (r'', diags, False) \<and>
          (\<exists>W. rd_inv V adj r'' W \<and> (diags = [] \<longrightarrow> W = {})) \<and> (pc_max_work cfg \<le> 0 \<longrightarrow> diags = [])"
        by (intro 1(1) pv(1))
      have "rd_loop (\<lambda>_. False) adj cfg work r wl = rd_loop (\<lambda>_. False) adj cfg (Suc work) r' wl'"
        by (subst rd_loop.simps) (simp only: Cons list.case if_not_P [OF False] f prod.case if_False)
      then show ?thesis using ih by simp
    qed
  qed
qed


subsection \<open>The dependence edges\<close>

lemma reach_self_fold:
  "reach_of (fold (\<lambda>v r. fmupd v {|v|} r) vs r) x = (if x \<in> set vs then {|x|} else reach_of r x)"
  by (induction vs arbitrary: r) (auto simp: reach_upd)

lemma initial_inv:
  assumes "set wl = {v \<in> set vs. callees_of adj v \<noteq> []}"
  shows "rd_inv (set vs) adj (fold (\<lambda>v r. fmupd v {|v|} r) vs fmempty) (set wl)"
  using assms by (auto simp: rd_inv_def reach_self_fold)

lemma set_fold_push: "set (fold push_item vs wl) = set vs \<union> set wl"
  by (induction vs arbitrary: wl) auto

lemma fixpoint_reaches:
  assumes inv: "rd_inv V adj r {}" and V: "\<And>v. v \<in> V \<Longrightarrow> set (callees_of adj v) \<subseteq> V" and d: "d \<in> V"
  shows "reaches adj d v \<Longrightarrow> v \<in> V \<and> d |\<in>| reach_of r v"
proof (induction rule: rtrancl_induct)
  case base
  then show ?case using inv d by (simp add: rd_inv_def)
next
  case (step y z)
  then have "z \<in> set (callees_of adj y)" by (simp add: calls_rel_def)
  then show ?case using step.IH inv V by (force simp: rd_inv_def)
qed

lemma set_dedup: "set (dedup_ids xs) = set xs"
  by (induction xs rule: dedup_ids.induct) auto

lemma add_flows:
  "set (callees_of (fold (\<lambda>e. add_flow (e_from e, e_to e)) es g) a) = set (callees_of g a) \<union> {e_to e |e. e \<in> set es \<and> e_from e = a}"
  by (induction es arbitrary: g) (auto simp: add_flow_def callees_of_def)

lemma callees_fmmap: "f [] = [] \<Longrightarrow> callees_of (fmmap f g) a = f (callees_of g a)"
  by (simp add: callees_of_def split: option.split)

lemma pdg_adj_flows: "set (callees_of (pdg_adj cfg ids es) a) = {e_to e |e. e \<in> set es \<and> flows cfg ids e \<and> e_from e = a}"
  unfolding pdg_adj_def
  by (subst callees_fmmap) (auto simp: set_dedup add_flows, simp add: callees_of_def)

definition dep_key :: "dep_edge \<Rightarrow> string \<times> string \<times> string" where
  "dep_key e = (de_from e, de_to e, de_kind e)"

definition data_edge :: "string \<Rightarrow> string \<Rightarrow> dep_edge" where
  "data_edge d v = \<lparr>de_from = d, de_to = v, de_kind = edge_kind_data_dep, de_rule = ''reaching_definitions''\<rparr>"

lemma dep_edges_eq: "dep_edges_of r v = map (\<lambda>d. data_edge d v) (sorted_list_of_fset (reach_of r v |-| {|v|}))"
  by (simp add: dep_edges_of_def data_edge_def)

lemma dep_edges_distinct: "distinct vs \<Longrightarrow> distinct (concat (map (dep_edges_of r) vs))"
  by (induction vs) (auto simp: dep_edges_eq distinct_map inj_on_def data_edge_def sorted_list_of_fset.rep_eq)

lemma set_dep_edges: "set (concat (map (dep_edges_of r) vs)) = {data_edge d v |d v. v \<in> set vs \<and> d |\<in>| reach_of r v \<and> d \<noteq> v}"
  by (auto simp: dep_edges_eq)

lemma reaching_total:
  assumes V: "\<And>v. v \<in> set vs \<Longrightarrow> set (callees_of adj v) \<subseteq> set vs" and "distinct vs"
  defines "true_deps \<equiv> {data_edge d v |d v. d \<in> set vs \<and> v \<in> set vs \<and> d \<noteq> v \<and> reaches adj d v}"
  shows "\<exists>data diags. reaching_defs (\<lambda>_. False) vs adj cfg = Some (data, diags) \<and>
    set data \<subseteq> true_deps \<and> (diags = [] \<longrightarrow> set data = true_deps) \<and> (pc_max_work cfg \<le> 0 \<longrightarrow> diags = []) \<and>
    distinct data \<and> sorted (map dep_key data)"
proof -
  let ?wl = "fold push_item (filter (\<lambda>v. callees_of adj v \<noteq> []) vs) []"
  have wl: "set ?wl = {v \<in> set vs. callees_of adj v \<noteq> []}" by (simp add: set_fold_push)
  then have "set ?wl \<subseteq> set vs" by auto
  from loop_reaches [OF finite_set V initial_inv [OF wl] this, of cfg 0] obtain r diags W where
    run: "rd_loop (\<lambda>_. False) adj cfg 0 (fold (\<lambda>v r. fmupd v {|v|} r) vs fmempty) ?wl = Some (r, diags, False)"
    and inv: "rd_inv (set vs) adj r W" "diags = [] \<longrightarrow> W = {}" and cap: "pc_max_work cfg \<le> 0 \<longrightarrow> diags = []"
    by metis
  let ?data = "sort_deps (concat (map (dep_edges_of r) vs))"
  have data: "set ?data = {data_edge d v |d v. v \<in> set vs \<and> d |\<in>| reach_of r v \<and> d \<noteq> v}"
    unfolding sort_deps_def set_sort by (rule set_dep_edges)
  have sound: "d \<in> set vs \<and> reaches adj d v" if "v \<in> set vs" "d |\<in>| reach_of r v" for d v
    using inv(1) that by (auto simp: rd_inv_def)
  have "d |\<in>| reach_of r v" if "diags = []" "d \<in> set vs" "reaches adj d v" for d v
  proof -
    have "rd_inv (set vs) adj r {}" using inv that(1) by simp
    from fixpoint_reaches [OF this V that(2,3)] show ?thesis by simp
  qed
  then have "diags = [] \<longrightarrow> set ?data = true_deps"
    unfolding data true_deps_def using sound by blast
  moreover have "set ?data \<subseteq> true_deps" unfolding data true_deps_def using sound by blast
  moreover have "reaching_defs (\<lambda>_. False) vs adj cfg = Some (?data, diags)"
    unfolding reaching_defs_def Let_def run by simp
  moreover have "distinct ?data" by (simp only: sort_deps_def distinct_sort dep_edges_distinct [OF assms(2)])
  moreover have "sorted (map dep_key ?data)" by (simp add: sort_deps_def dep_key_def [abs_def])
  ultimately show ?thesis using cap by blast
qed

text \<open>The reference: a flow of a stored edge of a configured kind, and its transitive closure.\<close>

definition stored_flow :: "pdg_config \<Rightarrow> mem_store \<Rightarrow> (string \<times> string) set" where
  "stored_flow cfg m =
     {(e_from e, e_to e) |e. e \<in> fmran' (edges m) \<and> (pc_edge_kinds cfg = [] \<or> e_kind e \<in> set (pc_edge_kinds cfg))}"

definition true_data_deps :: "pdg_config \<Rightarrow> mem_store \<Rightarrow> dep_edge set" where
  "true_data_deps cfg m = {data_edge d v |d v. d \<noteq> v \<and> (d, v) \<in> (stored_flow cfg m)\<^sup>+}"

definition fits_nodes :: "pdg_config \<Rightarrow> mem_store \<Rightarrow> bool" where
  "fits_nodes cfg m \<longleftrightarrow> pc_max_nodes cfg \<le> 0 \<or> int (card (fmran' (nodes m))) \<le> pc_max_nodes cfg"

lemma stored_ends:
  assumes "store_ok m" "(a, b) \<in> stored_flow cfg m"
  shows "a \<in> n_id ` fmran' (nodes m)" "b \<in> n_id ` fmran' (nodes m)"
proof -
  obtain e k where "fmlookup (edges m) k = Some e" "e_from e = a" "e_to e = b"
    using assms(2) by (auto simp: stored_flow_def elim: fmran'E)
  then have "a |\<in>| fmdom (nodes m)" "b |\<in>| fmdom (nodes m)"
    using assms(1) unfolding store_ok_def endpoints_stored_def by blast+
  moreover have "keyed n_id (nodes m)" using assms(1) by (simp add: store_keys)
  then have "x \<in> n_id ` fmran' (nodes m)" if "x |\<in>| fmdom (nodes m)" for x
    using that unfolding fmlookup_dom_iff by (metis fmran'I imageI keyedD)
  ultimately show "a \<in> n_id ` fmran' (nodes m)" "b \<in> n_id ` fmran' (nodes m)" by blast+
qed

lemma node_ids_all:
  assumes "fits_nodes cfg m" "set ns = fmran' (nodes m)"
  shows "pdg_node_ids cfg ns = sorted_list_of_set (n_id ` fmran' (nodes m))"
proof -
  have "card (n_id ` fmran' (nodes m)) \<le> card (fmran' (nodes m))" using assms(2) by (metis List.finite_set card_image_le)
  then show ?thesis using assms by (auto simp: pdg_node_ids_def fits_nodes_def Let_def)
qed

lemma adj_rel:
  assumes "store_ok m" "set es = fmran' (edges m)" "set ids = n_id ` fmran' (nodes m)"
  shows "calls_rel (pdg_adj cfg ids es) = stored_flow cfg m"
proof -
  have "(a, b) \<in> calls_rel (pdg_adj cfg ids es) \<longleftrightarrow> (a, b) \<in> stored_flow cfg m" for a b
    using stored_ends [OF assms(1), of a b cfg] unfolding calls_rel_def pdg_adj_flows assms(2)
    by (auto simp: flows_def stored_flow_def assms(3))
  then show ?thesis by auto
qed

lemma flow_closure_ends:
  "\<lbrakk>store_ok m; (a, b) \<in> (stored_flow cfg m)\<^sup>+\<rbrakk> \<Longrightarrow> a \<in> n_id ` fmran' (nodes m) \<and> b \<in> n_id ` fmran' (nodes m)"
  using stored_ends by (metis tranclD tranclD2)

lemma data_deps_of_store:
  assumes "store_ok m" "fits_nodes cfg m" "set ns = fmran' (nodes m)" "set es = fmran' (edges m)"
  defines "ids \<equiv> pdg_node_ids cfg ns"
  shows "\<exists>data diags. reaching_defs (\<lambda>_. False) ids (pdg_adj cfg ids es) cfg = Some (data, diags) \<and>
    set data \<subseteq> true_data_deps cfg m \<and> (diags = [] \<longrightarrow> set data = true_data_deps cfg m) \<and> (pc_max_work cfg \<le> 0 \<longrightarrow> diags = []) \<and>
    distinct data \<and> sorted (map dep_key data)"
proof -
  have ids: "ids = sorted_list_of_set (n_id ` fmran' (nodes m))" unfolding ids_def by (rule node_ids_all [OF assms(2,3)])
  have fin: "finite (fmran' (nodes m))" using assms(3) by (metis List.finite_set)
  then have set_ids: "set ids = n_id ` fmran' (nodes m)" and "distinct ids" by (simp_all add: ids)
  have closed: "set (callees_of (pdg_adj cfg ids es) v) \<subseteq> set ids" for v
    unfolding pdg_adj_flows by (auto simp: flows_def)
  have "{data_edge d v |d v. d \<in> set ids \<and> v \<in> set ids \<and> d \<noteq> v \<and> reaches (pdg_adj cfg ids es) d v} = true_data_deps cfg m"
    unfolding true_data_deps_def adj_rel [OF assms(1,4) set_ids] set_ids rtrancl_eq_or_trancl
    using flow_closure_ends [OF assms(1), of _ _ cfg] by blast
  then show ?thesis using reaching_total [OF closed \<open>distinct ids\<close>, of cfg] by simp
qed

text \<open>
  C15: The data dependences of a sound store are the transitive closure of its flows.  On a graph within the
  node cap the worklist of the reaching definitions always ends; each edge it emits is a dependence between
  two different nodes connected by a path of stored edges of the configured kinds; without a diagnostic
  the edges are exactly these pairs, and without a work cap there is no diagnostic.  The list is in strict
  canonical order, and a completed run of the analyzer reports this list.
\<close>

theorem data_deps_exact:
  assumes "store_ok m" "\<not> closed m" "fits_nodes cfg m"
  shows "\<exists>data diags.
    reaching_defs (\<lambda>_. False) (pdg_node_ids cfg (map_values (nodes m)))
      (pdg_adj cfg (pdg_node_ids cfg (map_values (nodes m))) (map_values (edges m))) cfg = Some (data, diags) \<and>
    set data \<subseteq> true_data_deps cfg m \<and> (diags = [] \<longrightarrow> set data = true_data_deps cfg m) \<and> (pc_max_work cfg \<le> 0 \<longrightarrow> diags = []) \<and>
    distinct data \<and> sorted (map dep_key data) \<and>
    (\<forall>res. pdg_run (\<lambda>_. False) cfg (mem_reader lower None m) = Some (Inr res) \<longrightarrow> pr_data res = data \<and> pr_diags res = diags)"
proof -
  have k: "keyed n_id (nodes m)" "keyed e_id (edges m)" using assms(1) by (simp_all add: store_keys)
  have reads: "rp_nodes (mem_reader lower None m) any_query = Inr (map_values (nodes m))"
    "rp_edges (mem_reader lower None m) any_query = Inr (map_values (edges m))"
    using mem_nodes_any [OF assms(2) k(1)] mem_edges_any [OF assms(2) k(2)] by (simp_all add: mem_reader_def)
  obtain data diags where d: "reaching_defs (\<lambda>_. False) (pdg_node_ids cfg (map_values (nodes m)))
      (pdg_adj cfg (pdg_node_ids cfg (map_values (nodes m))) (map_values (edges m))) cfg = Some (data, diags)"
    "set data \<subseteq> true_data_deps cfg m" "diags = [] \<longrightarrow> set data = true_data_deps cfg m" "pc_max_work cfg \<le> 0 \<longrightarrow> diags = []"
    "distinct data" "sorted (map dep_key data)"
    using data_deps_of_store [OF assms(1,3) set_map_values set_map_values] by blast
  have "pr_data res = data \<and> pr_diags res = diags"
    if run: "pdg_run (\<lambda>_. False) cfg (mem_reader lower None m) = Some (Inr res)" for res
  proof (cases "map_values (nodes m) = []")
    case True
    then have "fmran' (nodes m) = {}" by (metis empty_set set_map_values)
    then have "pdg_node_ids cfg (map_values (nodes m)) = []" by (simp add: pdg_node_ids_def True)
    then have "data = [] \<and> diags = []" using d(1) by (auto simp: reaching_defs_def Let_def sort_deps_def rd_loop.simps)
    moreover have "res = \<lparr>pr_data = [], pr_control = [], pr_nodes = [], pr_diags = []\<rparr>"
      using run by (simp add: pdg_run_def reads True)
    ultimately show ?thesis by simp
  next
    case False
    then show ?thesis using run d(1) by (auto simp: pdg_run_def reads Let_def bind_eq_Some_conv)
  qed
  then show ?thesis using d by blast
qed

lemma small_flow: "stored_flow default_pdg_config (small_store (Finite 1)) = {(n_id (fn_node ''f''), n_id (fn_node ''g''))}"
  unfolding stored_flow_def small_ran default_pdg_config_def by (auto simp: call_edge_def)

theorem data_deps_exact_witness:
  "\<exists>data diags. reaching_defs (\<lambda>_. False)
      (pdg_node_ids (default_pdg_config\<lparr>pc_max_work := 0\<rparr>) (map_values (nodes (small_store (Finite 1)))))
      (pdg_adj (default_pdg_config\<lparr>pc_max_work := 0\<rparr>)
        (pdg_node_ids (default_pdg_config\<lparr>pc_max_work := 0\<rparr>) (map_values (nodes (small_store (Finite 1)))))
        (map_values (edges (small_store (Finite 1))))) (default_pdg_config\<lparr>pc_max_work := 0\<rparr>) = Some (data, diags) \<and>
    set data = {data_edge (n_id (fn_node ''f'')) (n_id (fn_node ''g''))}"
proof -
  let ?cfg = "default_pdg_config\<lparr>pc_max_work := 0\<rparr>"
  let ?m = "small_store (Finite 1)"
  have flow: "stored_flow ?cfg ?m = {(n_id (fn_node ''f''), n_id (fn_node ''g''))}"
    using small_flow by (simp add: stored_flow_def)
  have neq: "n_id (fn_node ''f'') \<noteq> n_id (fn_node ''g'')" by (simp add: fn_ids)
  have "(stored_flow ?cfg ?m)\<^sup>+ = stored_flow ?cfg ?m" unfolding flow using neq by (intro trancl_id transI) auto
  then have deps: "true_data_deps ?cfg ?m = {data_edge (n_id (fn_node ''f'')) (n_id (fn_node ''g''))}"
    unfolding true_data_deps_def using neq by (auto simp: flow)
  have "fits_nodes ?cfg ?m" by (simp add: fits_nodes_def default_pdg_config_def small_ran card_insert_if)
  from data_deps_exact [OF small_store_ok small_store_maps(3) this, of id] show ?thesis
    unfolding deps by (auto simp: default_pdg_config_def)
qed

subsection \<open>Control dependences with several exits\<close>

text \<open>
  The reference: \<open>x\<close> post-dominates \<open>n\<close> when every path from \<open>n\<close> to a node without successors meets \<open>x\<close>;
  \<open>x\<close> is control dependent on \<open>n\<close> when it post-dominates a successor of \<open>n\<close> and is not a strict
  post-dominator of \<open>n\<close>.
\<close>

inductive exit_path :: "call_graph \<Rightarrow> string \<Rightarrow> string list \<Rightarrow> bool" for adj where
  stop: "callees_of adj n = [] \<Longrightarrow> exit_path adj n [n]"
| go: "\<lbrakk>n' \<in> set (callees_of adj n); exit_path adj n' p\<rbrakk> \<Longrightarrow> exit_path adj n (n # p)"

inductive_cases exit_pathE: "exit_path adj n p"

definition post_dominates :: "call_graph \<Rightarrow> string \<Rightarrow> string \<Rightarrow> bool" where
  "post_dominates adj x n \<longleftrightarrow> (\<forall>p. exit_path adj n p \<longrightarrow> x \<in> set p)"

definition control_dependent :: "call_graph \<Rightarrow> string \<Rightarrow> string \<Rightarrow> bool" where
  "control_dependent adj n x \<longleftrightarrow>
     (\<exists>s \<in> set (callees_of adj n). post_dominates adj x s) \<and> (x = n \<or> \<not> post_dominates adj x n)"

definition fork :: "string \<Rightarrow> string \<Rightarrow> string \<Rightarrow> call_graph" where
  "fork a b c = fmupd a [b, c] fmempty"

lemma fork_callees: "callees_of (fork a b c) x = (if x = a then [b, c] else [])"
  by (simp add: fork_def callees_of_def)

lemma leaf_dominated:
  assumes "callees_of adj n = []"
  shows "post_dominates adj x n \<longleftrightarrow> x = n"
proof -
  have "exit_path adj n p \<longleftrightarrow> p = [n]" for p using assms by (auto elim: exit_pathE intro: exit_path.stop)
  then show ?thesis by (auto simp: post_dominates_def)
qed

lemma fork_dependent:
  assumes "a \<noteq> b" "a \<noteq> c" "b \<noteq> c"
  shows "control_dependent (fork a b c) a b" "control_dependent (fork a b c) a c"
proof -
  let ?g = "fork a b c"
  have leaf: "post_dominates ?g b b" "post_dominates ?g c c" using assms by (simp_all add: leaf_dominated fork_callees)
  have "exit_path ?g a [a, x]" if "x = b \<or> x = c" for x
    using that assms by (intro exit_path.go [of x] exit_path.stop) (auto simp: fork_callees)
  then have "exit_path ?g a [a, b]" "exit_path ?g a [a, c]" by blast+
  then have "\<not> post_dominates ?g b a" "\<not> post_dominates ?g c a"
    unfolding post_dominates_def using assms by fastforce+
  then show "control_dependent ?g a b" "control_dependent ?g a c"
    using leaf by (auto simp: control_dependent_def fork_callees)
qed

lemma sort_distinct: "distinct xs \<Longrightarrow> sort xs = sorted_list_of_set (set xs)"
  by (metis sorted_list_of_set_sort_remdups distinct_remdups_id)

lemma fork_exit:
  assumes "a \<noteq> b" "a \<noteq> c" "b < c" "distinct ids" "set ids = {a, b, c}"
  shows "exit_node (fork a b c) ids = b"
proof -
  let ?ls = "filter (\<lambda>v. callees_of (fork a b c) v = []) ids"
  have "sort ?ls = sorted_list_of_set (set ?ls)" using assms(4) by (intro sort_distinct distinct_filter)
  also have "set ?ls = {b, c}" using assms by (auto simp: fork_callees)
  also have "sorted_list_of_set {b, c} = [b, c]" using assms(3) by (simp add: less_imp_le)
  finally show ?thesis by (simp add: exit_node_def)
qed

lemma fork_pairs: "flow_pairs (fork a b c) = [(a, b), (a, c)]"
proof -
  have "sorted_list_of_fset (fmdom (fork a b c)) = [a]" by (simp add: fork_def sorted_list_of_fset.rep_eq)
  then show ?thesis by (simp add: flow_pairs_def fork_callees)
qed

lemma fork_reverse: "b \<noteq> c \<Longrightarrow> reverse_adj (fork a b c) = fmap_of_list [(b, [a]), (c, [a])]"
  by (rule fmap_ext) (auto simp: reverse_adj_def fork_pairs add_flow_def callees_of_def)

lemma fork_order:
  assumes "a \<noteq> b" "a \<noteq> c" "b \<noteq> c" "distinct ids" "set ids = {a, b, c}"
  shows "reverse_post_order b (reverse_adj (fork a b c)) ids = Some [b, a, c]"
proof -
  have callees: "callees_of (reverse_adj (fork a b c)) x = (if x = b \<or> x = c then [a] else [])" for x
    using assms(3) by (simp add: fork_reverse callees_of_def)
  have len: "length ids = 3" using assms distinct_card [of ids] by simp
  have "sort (filter (\<lambda>v. v |\<notin>| {|a, b|}) ids) = sorted_list_of_set (set (filter (\<lambda>v. v |\<notin>| {|a, b|}) ids))"
    using assms(4) by (intro sort_distinct distinct_filter)
  also have "set (filter (\<lambda>v. v |\<notin>| {|a, b|}) ids) = {c}" using assms by auto
  finally have rest: "sort (filter (\<lambda>v. v |\<notin>| {|a, b|}) ids) = [c]" by simp
  have "post_order (reverse_adj (fork a b c)) (length ids + 2) [b] ({||}, []) = Some ({|a, b|}, [a, b])"
    using assms by (simp add: len callees numeral_eq_Suc)
  then show ?thesis using rest by (simp add: reverse_post_order_def)
qed

lemma fork_tree:
  assumes "a \<noteq> b" "a \<noteq> c" "b \<noteq> c"
  shows "idom_loop (fork a b c) b [b, a, c] (fmupd b b fmempty) = Some (fmupd a b (fmupd b b fmempty))"
proof -
  have step: "idom_round (fork a b c) b [b, a, c] [b, a, c] (idom, ch) =
      Some (fmupd a b (fmupd b b fmempty), ch \<or> fmlookup idom a = None)"
    if "idom = fmupd b b fmempty \<or> idom = fmupd a b (fmupd b b fmempty)" for idom ch
    using that assms by (auto simp: fork_callees)
  show ?thesis
    by (subst idom_loop.simps, subst step, simp, simp add: assms, subst idom_loop.simps, subst step, simp, simp add: assms)
qed

text \<open>
  C20: A branch with two exits loses a control dependence.  Under the textbook definition both leaves of a
  fork are control dependent on the branching node; the analyzer takes the smaller leaf as the one exit
  of the graph, so it counts as a post-dominator of the branch, and only the other leaf is reported.
\<close>

theorem fork_loses_dependence:
  assumes "a \<noteq> b" "a \<noteq> c" "b < c" "distinct ids" "set ids = {a, b, c}"
  shows "control_deps ids (fork a b c) = Some [control_edge a c] \<and>
    {x. control_dependent (fork a b c) a x} = {b, c}"
proof -
  have neq: "b \<noteq> c" "c \<noteq> []" using assms(3) by auto
  have len: "length ids = 3" using assms neq distinct_card [of ids] by simp
  have dom: "sorted_list_of_fset (fmdom (fork a b c)) = [a]" by (simp add: fork_def sorted_list_of_fset.rep_eq)
  let ?idom = "fmupd a b (fmupd b b fmempty)"
  have targets: "control_targets (fork a b c) ?idom (Suc (length ids)) a = [c]"
    using assms neq by (simp add: control_targets_def fork_callees)
  have "ids \<noteq> []" using len by auto
  then have "control_deps ids (fork a b c) = Some [control_edge a c]"
    unfolding control_deps_def Let_def fork_exit [OF assms] fork_order [OF assms(1,2) neq(1) assms(4,5)]
    using fork_tree [OF assms(1,2) neq(1)] by (simp add: dom targets sort_deps_def)
  moreover have "control_dependent (fork a b c) a x \<Longrightarrow> x = b \<or> x = c" for x
    using assms by (auto simp: control_dependent_def fork_callees leaf_dominated)
  then have "{x. control_dependent (fork a b c) a x} = {b, c}"
    using fork_dependent [OF assms(1,2) neq(1)] by blast
  ultimately show ?thesis by blast
qed

theorem fork_loses_dependence_witness:
  "control_deps [''a'', ''b'', ''c''] (fork ''a'' ''b'' ''c'') = Some [control_edge ''a'' ''c''] \<and>
   control_dependent (fork ''a'' ''b'' ''c'') ''a'' ''b''"
proof -
  have neq: "''a'' \<noteq> ''b''" "''a'' \<noteq> ''c''" "''b'' < ''c''" by code_simp+
  show ?thesis using fork_loses_dependence [OF neq, of "[''a'', ''b'', ''c'']"] by (auto simp: set_eq_iff)
qed

end
