(* ===== verification/Heap.thy ===== *)
theory Heap
  imports Prelude "HOL-Library.Multiset"
begin

text \<open>
  \<open>container/heap\<close> as the worklists of the analyzers use it: a binary heap in a slice, ordered by a key.
  \<open>sift_up\<close> and \<open>sift_down\<close> are the library's \<open>up\<close> and \<open>down\<close>; equal keys leave in the order the
  array gives them.
\<close>

definition swap_at :: "nat \<Rightarrow> nat \<Rightarrow> 'a list \<Rightarrow> 'a list" where
  "swap_at i j h = h[i := h ! j, j := h ! i]"

function sift_up :: "('a \<Rightarrow> 'k::linorder) \<Rightarrow> nat \<Rightarrow> 'a list \<Rightarrow> 'a list" where
  "sift_up key j h =
     (if j = 0 \<or> \<not> key (h ! j) < key (h ! ((j - 1) div 2)) then h
      else sift_up key ((j - 1) div 2) (swap_at ((j - 1) div 2) j h))"
  by auto
termination by (relation "measure (\<lambda>(key, j, h). j)") auto

definition smaller_child :: "('a \<Rightarrow> 'k::linorder) \<Rightarrow> nat \<Rightarrow> nat \<Rightarrow> 'a list \<Rightarrow> nat" where
  "smaller_child key i n h =
     (if 2 * i + 2 < n \<and> key (h ! (2 * i + 2)) < key (h ! (2 * i + 1)) then 2 * i + 2 else 2 * i + 1)"

function sift_down :: "('a \<Rightarrow> 'k::linorder) \<Rightarrow> nat \<Rightarrow> nat \<Rightarrow> 'a list \<Rightarrow> 'a list" where
  "sift_down key i n h =
     (if n \<le> 2 * i + 1 \<or> \<not> key (h ! smaller_child key i n h) < key (h ! i) then h
      else sift_down key (smaller_child key i n h) n (swap_at i (smaller_child key i n h) h))"
  by auto
termination by (relation "measure (\<lambda>(key, i, n, h). n - i)") (auto simp: smaller_child_def)

declare sift_up.simps [simp del] sift_down.simps [simp del]

definition push_heap :: "('a \<Rightarrow> 'k::linorder) \<Rightarrow> 'a \<Rightarrow> 'a list \<Rightarrow> 'a list" where
  "push_heap key x h = sift_up key (length h) (h @ [x])"

definition pop_heap :: "('a \<Rightarrow> 'k::linorder) \<Rightarrow> 'a list \<Rightarrow> 'a \<times> 'a list" where
  "pop_heap key h =
     (let n = length h - 1; h' = sift_down key 0 n (swap_at 0 n h) in (last h', butlast h'))"

subsection \<open>The heap property\<close>

definition heap_ok :: "('a \<Rightarrow> 'k::linorder) \<Rightarrow> nat \<Rightarrow> 'a list \<Rightarrow> bool" where
  "heap_ok key n h \<longleftrightarrow> (\<forall>i. 0 < i \<and> i < n \<longrightarrow> key (h ! ((i - 1) div 2)) \<le> key (h ! i))"

lemma length_swap [simp]: "length (swap_at i j h) = length h"
  by (simp add: swap_at_def)

lemma nth_swap: "\<lbrakk>i < length h; j < length h\<rbrakk> \<Longrightarrow> swap_at i j h ! k = (if k = j then h ! i else if k = i then h ! j else h ! k)"
  by (auto simp: swap_at_def nth_list_update)

lemma mset_swap_at [simp]: "\<lbrakk>i < length h; j < length h\<rbrakk> \<Longrightarrow> mset (swap_at i j h) = mset h"
  by (simp add: swap_at_def mset_swap)

lemma heap_root: "\<lbrakk>heap_ok key n h; i < n\<rbrakk> \<Longrightarrow> key (h ! 0) \<le> key (h ! i)"
proof (induction i rule: less_induct)
  case (less i)
  show ?case
  proof (cases "i = 0")
    case False
    then have "key (h ! 0) \<le> key (h ! ((i - 1) div 2))" using less by auto
    also have "\<dots> \<le> key (h ! i)" using less.prems False by (auto simp: heap_ok_def)
    finally show ?thesis .
  qed simp
qed

lemma length_sift_up [simp]: "length (sift_up key j h) = length h"
  by (induction key j h rule: sift_up.induct) (subst sift_up.simps, simp)

lemma mset_sift_up: "j < length h \<Longrightarrow> mset (sift_up key j h) = mset h"
proof (induction key j h rule: sift_up.induct)
  case (1 key j h)
  then show ?case by (subst sift_up.simps) auto
qed

text \<open>Only \<open>j\<close> may be smaller than its parent; its children are above that parent.\<close>

definition rising :: "('a \<Rightarrow> 'k::linorder) \<Rightarrow> nat \<Rightarrow> 'a list \<Rightarrow> bool" where
  "rising key j h \<longleftrightarrow>
     (\<forall>i. 0 < i \<and> i < length h \<and> i \<noteq> j \<longrightarrow> key (h ! ((i - 1) div 2)) \<le> key (h ! i)) \<and>
     (\<forall>i. 0 < i \<and> i < length h \<and> 0 < j \<and> (i - 1) div 2 = j \<longrightarrow> key (h ! ((j - 1) div 2)) \<le> key (h ! i))"

lemma sift_up_heap: "\<lbrakk>rising key j h; j < length h\<rbrakk> \<Longrightarrow> heap_ok key (length h) (sift_up key j h)"
proof (induction key j h rule: sift_up.induct)
  case (1 key j h)
  let ?p = "(j - 1) div 2"
  show ?case
  proof (cases "j = 0 \<or> \<not> key (h ! j) < key (h ! ?p)")
    case True
    then show ?thesis using 1(2) by (subst sift_up.simps) (fastforce simp: rising_def heap_ok_def not_less)
  next
    case False
    then have p: "?p < j" "?p < length h" using 1(3) by auto
    let ?h = "swap_at ?p j h"
    have nth: "?h ! k = (if k = j then h ! ?p else if k = ?p then h ! j else h ! k)" for k
      by (rule nth_swap [OF p(2) 1(3)])
    have kid: "(k - 1) div 2 \<noteq> k" if "0 < k" for k :: nat using that by linarith
    have up: "key (h ! ((i - 1) div 2)) \<le> key (h ! i)" if "0 < i" "i < length h" "i \<noteq> j" for i
      using 1(2) that by (auto simp: rising_def)
    have grand: "key (h ! ?p) \<le> key (h ! i)" if "0 < i" "i < length h" "(i - 1) div 2 = j" for i
      using 1(2) that False by (auto simp: rising_def)
    have "rising key ?p ?h" unfolding rising_def length_swap
    proof (intro conjI allI impI)
      fix i assume i: "0 < i \<and> i < length h \<and> i \<noteq> ?p"
      show "key (?h ! ((i - 1) div 2)) \<le> key (?h ! i)"
      proof (cases "i = j")
        case True
        then show ?thesis using False nth p by auto
      next
        case neq: False
        consider "(i - 1) div 2 = j" | "(i - 1) div 2 = ?p" | "(i - 1) div 2 \<noteq> j" "(i - 1) div 2 \<noteq> ?p" by blast
        then show ?thesis
        proof cases
          case 1
          have "?h ! ((i - 1) div 2) = h ! ?p" unfolding 1 nth by simp
          moreover have "?h ! i = h ! i" using neq i unfolding nth by simp
          ultimately show ?thesis using grand [of i] i 1 by simp
        next
          case 2
          then have "key (h ! ?p) \<le> key (h ! i)" using up [of i] i neq by auto
          then have "key (h ! j) \<le> key (h ! i)" using False by auto
          moreover have "?h ! ((i - 1) div 2) = h ! j" "?h ! i = h ! i" unfolding 2 nth using p i neq by simp_all
          ultimately show ?thesis by simp
        next
          case 3
          then have "?h ! ((i - 1) div 2) = h ! ((i - 1) div 2)" "?h ! i = h ! i" unfolding nth using i neq by simp_all
          then show ?thesis using up [of i] i neq by simp
        qed
      qed
    next
      fix i assume i: "0 < i \<and> i < length h \<and> 0 < ?p \<and> (i - 1) div 2 = ?p"
      have pp: "(?p - 1) div 2 \<noteq> j" using div_le_dividend [of "?p - 1" 2] p by (metis diff_le_self le_trans not_less)
      have pq: "(?p - 1) div 2 \<noteq> ?p" using kid i by blast
      have a: "key (h ! ((?p - 1) div 2)) \<le> key (h ! ?p)" using up [of ?p] i p by auto
      moreover have "key (h ! ?p) \<le> key (h ! i)" if "i \<noteq> j" using up [of i] i that by auto
      moreover have "i \<noteq> ?p" using kid i by metis
      moreover have "?h ! ((?p - 1) div 2) = h ! ((?p - 1) div 2)" using pp pq nth [of "(?p - 1) div 2"] by (simp only: if_False)
      moreover have "?h ! i = (if i = j then h ! ?p else h ! i)"
        using nth [of i] \<open>i \<noteq> ?p\<close> by (simp only: if_False)
      ultimately show "key (?h ! ((?p - 1) div 2)) \<le> key (?h ! i)"
        by (cases "i = j") (simp_all only: if_True if_False simp_thms order_trans)
    qed
    then have "heap_ok key (length ?h) (sift_up key ?p ?h)" using 1(1) False p by auto
    then show ?thesis using False by (subst sift_up.simps) simp
  qed
qed

lemma push_heap_ok:
  assumes "heap_ok key (length h) h"
  shows "heap_ok key (length (push_heap key x h)) (push_heap key x h)" and "mset (push_heap key x h) = add_mset x (mset h)"
proof -
  have "rising key (length h) (h @ [x])"
    unfolding rising_def
  proof (intro conjI allI impI)
    fix i assume i: "0 < i \<and> i < length (h @ [x]) \<and> i \<noteq> length h"
    then have "i < length h" "(i - 1) div 2 < length h" by auto
    then show "key ((h @ [x]) ! ((i - 1) div 2)) \<le> key ((h @ [x]) ! i)"
      using assms i by (simp add: heap_ok_def nth_append)
  next
    fix i assume "0 < i \<and> i < length (h @ [x]) \<and> 0 < length h \<and> (i - 1) div 2 = length h"
    then have "i \<le> length h" "length h = (i - 1) div 2" "0 < i" by auto
    then show "key ((h @ [x]) ! ((length h - 1) div 2)) \<le> key ((h @ [x]) ! i)" by linarith
  qed
  then show "heap_ok key (length (push_heap key x h)) (push_heap key x h)"
    using sift_up_heap [of key "length h" "h @ [x]"] by (simp add: push_heap_def)
  show "mset (push_heap key x h) = add_mset x (mset h)"
    by (simp add: push_heap_def mset_sift_up)
qed

lemma length_sift_down [simp]: "length (sift_down key i n h) = length h"
  by (induction key i n h rule: sift_down.induct) (subst sift_down.simps, simp)

lemma child_bounds: "2 * i + 1 < n \<Longrightarrow> smaller_child key i n h < n \<and> i < smaller_child key i n h \<and> (smaller_child key i n h - 1) div 2 = i"
  by (auto simp: smaller_child_def)

lemma child_least:
  "\<lbrakk>0 < k; k < n; (k - 1) div 2 = i\<rbrakk> \<Longrightarrow> key (h ! smaller_child key i n h) \<le> key (h ! k)"
proof -
  assume k: "0 < k" "k < n" "(k - 1) div 2 = i"
  then have "k = 2 * i + 1 \<or> k = 2 * i + 2" by linarith
  then show ?thesis using k by (auto simp: smaller_child_def not_less)
qed

lemma sift_down_keeps:
  "\<lbrakk>i < n; n \<le> length h\<rbrakk> \<Longrightarrow> mset (sift_down key i n h) = mset h \<and> drop n (sift_down key i n h) = drop n h"
proof (induction key i n h rule: sift_down.induct)
  case (1 key i n h)
  let ?c = "smaller_child key i n h"
  show ?case
  proof (cases "n \<le> 2 * i + 1 \<or> \<not> key (h ! ?c) < key (h ! i)")
    case True
    then show ?thesis by (subst (1 2) sift_down.simps) simp
  next
    case False
    then have c: "?c < n" "i < ?c" using child_bounds [of i n key h] by auto
    have "drop n (swap_at i ?c h) = drop n h" using c 1(2) by (simp add: swap_at_def)
    then show ?thesis using 1 False c by (subst (1 2) sift_down.simps) simp
  qed
qed

definition sinking :: "('a \<Rightarrow> 'k::linorder) \<Rightarrow> nat \<Rightarrow> nat \<Rightarrow> 'a list \<Rightarrow> bool" where
  "sinking key j n h \<longleftrightarrow>
     (\<forall>i. 0 < i \<and> i < n \<and> (i - 1) div 2 \<noteq> j \<longrightarrow> key (h ! ((i - 1) div 2)) \<le> key (h ! i)) \<and>
     (\<forall>i. 0 < i \<and> i < n \<and> 0 < j \<and> (i - 1) div 2 = j \<longrightarrow> key (h ! ((j - 1) div 2)) \<le> key (h ! i))"

lemma sift_down_heap: "\<lbrakk>sinking key i n h; i < n; n \<le> length h\<rbrakk> \<Longrightarrow> heap_ok key n (sift_down key i n h)"
proof (induction key i n h rule: sift_down.induct)
  case (1 key j n h)
  let ?c = "smaller_child key j n h"
  show ?case
  proof (cases "n \<le> 2 * j + 1 \<or> \<not> key (h ! ?c) < key (h ! j)")
    case True
    have "key (h ! ((i - 1) div 2)) \<le> key (h ! i)" if i: "0 < i" "i < n" for i
    proof (cases "(i - 1) div 2 = j")
      case eq: True
      then have "2 * j + 1 < n" using i by linarith
      then have "key (h ! j) \<le> key (h ! ?c)" using True by auto
      also have "\<dots> \<le> key (h ! i)" using child_least [OF i eq] .
      finally show ?thesis using eq by simp
    next
      case False
      then show ?thesis using 1(2) i by (auto simp: sinking_def)
    qed
    then show ?thesis using True by (subst sift_down.simps) (simp add: heap_ok_def)
  next
    case False
    then have c: "?c < n" "j < ?c" "(?c - 1) div 2 = j" using child_bounds [of j n key h] by auto
    let ?h = "swap_at j ?c h"
    have nth: "?h ! k = (if k = ?c then h ! j else if k = j then h ! ?c else h ! k)" for k
      using nth_swap [of j h ?c k] c 1(3,4) by auto
    have ok: "key (h ! ((i - 1) div 2)) \<le> key (h ! i)" if "0 < i" "i < n" "(i - 1) div 2 \<noteq> j" for i
      using 1(2) that by (auto simp: sinking_def)
    have "sinking key ?c n ?h" unfolding sinking_def
    proof (intro conjI allI impI)
      fix i assume i: "0 < i \<and> i < n \<and> (i - 1) div 2 \<noteq> ?c"
      show "key (?h ! ((i - 1) div 2)) \<le> key (?h ! i)"
      proof (cases "(i - 1) div 2 = j")
        case True
        have "i \<noteq> j" using True i by (metis div_le_dividend diff_less le_less_trans less_irrefl less_one)
        moreover have "key (h ! ?c) \<le> key (h ! i)" using child_least True i by blast
        ultimately show ?thesis using True False c by (auto simp: nth)
      next
        case neq: False
        have "i \<noteq> ?c" using neq c by auto
        moreover have "key (h ! ((j - 1) div 2)) \<le> key (h ! ?c)" if "i = j"
          using 1(2) c i that unfolding sinking_def by auto
        moreover have "(j - 1) div 2 \<noteq> ?c" using c by linarith
        ultimately show ?thesis using ok [of i] neq i by (auto simp: nth)
      qed
    next
      fix i assume i: "0 < i \<and> i < n \<and> 0 < ?c \<and> (i - 1) div 2 = ?c"
      have "key (h ! ?c) \<le> key (h ! i)" using ok [of i] i c by auto
      moreover have "i \<noteq> ?c" "i \<noteq> j" using i c by linarith+
      ultimately show "key (?h ! ((?c - 1) div 2)) \<le> key (?h ! i)" using c by (auto simp: nth)
    qed
    then have "heap_ok key n (sift_down key ?c n ?h)" using 1 False c by auto
    then show ?thesis using False by (subst sift_down.simps) simp
  qed
qed

text \<open>Popping a heap takes a least element out.\<close>

lemma pop_heap_ok:
  assumes "heap_ok key (length h) h" "h \<noteq> []" "pop_heap key h = (x, h')"
  shows "heap_ok key (length h') h'" and "mset h = add_mset x (mset h')" and "\<forall>y \<in> set h'. key x \<le> key y"
proof -
  define n where "n = length h - 1"
  let ?s = "swap_at 0 n h"
  let ?d = "sift_down key 0 n ?s"
  have n: "length h = Suc n" using assms(2) by (cases h) (simp_all add: n_def)
  have x: "x = last ?d" and h': "h' = butlast ?d" using assms(3) by (simp_all add: pop_heap_def Let_def n_def)
  have ne: "?d \<noteq> []" using n by (metis length_sift_down length_swap list.size(3) nat.distinct(1))
  have nth: "?s ! k = (if k = n then h ! 0 else if k = 0 then h ! n else h ! k)" for k
    by (rule nth_swap) (simp_all add: n)
  have keeps: "mset ?d = mset h \<and> drop n ?d = drop n ?s"
  proof (cases "n = 0")
    case True
    then show ?thesis by (subst (1 2) sift_down.simps) (simp add: n)
  next
    case False
    then show ?thesis using sift_down_keeps [of 0 n ?s key] by (simp add: n)
  qed
  have "last ?d = ?d ! n" using ne by (simp add: last_conv_nth n)
  also have "\<dots> = drop n ?d ! 0" by (simp add: n)
  also have "\<dots> = ?s ! n" using keeps by (simp add: n)
  finally have top: "x = h ! 0" by (simp add: x nth)
  have all: "?d = h' @ [x]" using ne by (simp add: x h')
  then have "mset ?d = add_mset x (mset h')" by simp
  then show m: "mset h = add_mset x (mset h')" using keeps by simp
  have len: "length h' = n" using m n by (metis size_mset size_add_mset Suc_inject)
  have "heap_ok key n ?d"
  proof (cases "n = 0")
    case False
    have "sinking key 0 n ?s" using assms(1) by (auto simp: sinking_def heap_ok_def nth n)
    then show ?thesis using sift_down_heap [of key 0 n ?s] False by (simp add: n)
  qed (simp add: heap_ok_def)
  then have d: "key ((h' @ [x]) ! ((i - 1) div 2)) \<le> key ((h' @ [x]) ! i)" if "0 < i" "i < n" for i
    using that unfolding heap_ok_def all by blast
  have "key (h' ! ((i - 1) div 2)) \<le> key (h' ! i)" if i: "0 < i" "i < n" for i
  proof -
    have "(i - 1) div 2 < length h'" using i len by simp
    then show ?thesis using d [OF i] i len by (simp only: nth_append if_True)
  qed
  then show "heap_ok key (length h') h'" by (simp add: heap_ok_def len)
  have "key (h ! 0) \<le> key y" if "y \<in> set h" for y
    using that heap_root [OF assms(1)] by (auto simp: in_set_conv_nth)
  moreover have "set h' \<subseteq> set h" using m by (metis set_mset_mset set_mset_add_mset_insert subset_insertI)
  ultimately show "\<forall>y \<in> set h'. key x \<le> key y" by (auto simp: top)
qed

end
