(* ===== verification/Taint.thy ===== *)
theory Taint
  imports CallChain TrustScope Heap "HOL-Library.Product_Lexorder"
begin

text \<open>
  The taint analyzer of \<open>engine/analysis/taint\<close>: its configuration and label sets (\<open>config.go\<close>), the caps
  (\<open>caps.go\<close>), the findings (\<open>finding.go\<close>) and the propagation (\<open>taint.go\<close>).  \<open>lower\<close> stands for
  \<open>strings.ToLower\<close>, \<open>polls\<close> gives what the n-th check of the context finds, and \<open>order\<close> is the order in
  which Go's map iteration visits the sources.
\<close>

subsection \<open>The configuration\<close>

record pack_ref =
  pk_id :: string
  pk_version :: string
  pk_sha256 :: string

record source_def =
  sd_id :: string
  sd_label :: string
  sd_kinds :: "string list"
  sd_names :: "string list"
  sd_pack :: "pack_ref option"

record sink_def =
  kd_id :: string
  kd_category :: string
  kd_kinds :: "string list"
  kd_names :: "string list"
  kd_pack :: "pack_ref option"

record sanitizer_def =
  nd_id :: string
  nd_names :: "string list"
  nd_remove :: "string list"
  nd_pack :: "pack_ref option"

record taint_config =
  tc_version :: string
  tc_sources :: "source_def list"
  tc_sinks :: "sink_def list"
  tc_sanitizers :: "sanitizer_def list"
  tc_hash :: string
  tc_packs :: "pack_ref list"

datatype config_error =
  VersionEmpty | NoSource | NoSink | SourceIdEmpty | SourceLabelEmpty string | SinkIdEmpty | SanitizerIdEmpty
| DuplicateId string

fun validate_sources :: "source_def list \<Rightarrow> string fset \<Rightarrow> config_error + string fset" where
  "validate_sources [] ids = Inr ids"
| "validate_sources (s # ss) ids =
     (if sd_id s = [] then Inl SourceIdEmpty
      else if sd_label s = [] then Inl (SourceLabelEmpty (sd_id s))
      else if sd_id s |\<in>| ids then Inl (DuplicateId (sd_id s))
      else validate_sources ss (finsert (sd_id s) ids))"

fun validate_named :: "config_error \<Rightarrow> string list \<Rightarrow> string fset \<Rightarrow> config_error + string fset" where
  "validate_named missing [] ids = Inr ids"
| "validate_named missing (i # is) ids =
     (if i = [] then Inl missing
      else if i |\<in>| ids then Inl (DuplicateId i)
      else validate_named missing is (finsert i ids))"

definition validate_config :: "taint_config \<Rightarrow> config_error option" where
  "validate_config c =
     (if tc_version c = [] then Some VersionEmpty
      else if tc_sources c = [] then Some NoSource
      else if tc_sinks c = [] then Some NoSink
      else case validate_sources (tc_sources c) {||} of
             Inl err \<Rightarrow> Some err
           | Inr ids \<Rightarrow>
               (case validate_named SinkIdEmpty (map kd_id (tc_sinks c)) ids of
                  Inl err \<Rightarrow> Some err
                | Inr ids' \<Rightarrow>
                    (case validate_named SanitizerIdEmpty (map nd_id (tc_sanitizers c)) ids' of
                       Inl err \<Rightarrow> Some err
                     | Inr _ \<Rightarrow> None)))"

definition match_def :: "(string \<Rightarrow> string) \<Rightarrow> string \<Rightarrow> string \<Rightarrow> string list \<Rightarrow> string list \<Rightarrow> bool" where
  "match_def lower kind_lower name_lower kinds names \<longleftrightarrow>
     (\<exists>k \<in> set kinds. lower k = kind_lower) \<or> (\<exists>p \<in> set names. contains_str name_lower (lower p))"

text \<open>The label and identity of the first matching source; empty strings mean no match.\<close>

definition match_source :: "(string \<Rightarrow> string) \<Rightarrow> taint_config \<Rightarrow> string \<Rightarrow> string \<Rightarrow> string \<times> string" where
  "match_source lower c kind qname =
     (case find (\<lambda>s. match_def lower (lower kind) (lower qname) (sd_kinds s) (sd_names s)) (tc_sources c) of
        None \<Rightarrow> ([], [])
      | Some s \<Rightarrow> (sd_label s, sd_id s))"

definition match_sink :: "(string \<Rightarrow> string) \<Rightarrow> taint_config \<Rightarrow> string \<Rightarrow> string \<Rightarrow> string \<times> string" where
  "match_sink lower c kind qname =
     (case find (\<lambda>s. match_def lower (lower kind) (lower qname) (kd_kinds s) (kd_names s)) (tc_sinks c) of
        None \<Rightarrow> ([], [])
      | Some s \<Rightarrow> (kd_id s, kd_category s))"

definition match_sanitizer :: "(string \<Rightarrow> string) \<Rightarrow> taint_config \<Rightarrow> string \<Rightarrow> sanitizer_def option" where
  "match_sanitizer lower c qname =
     find (\<lambda>s. \<exists>p \<in> set (nd_names s). contains_str (lower qname) (lower p)) (tc_sanitizers c)"

definition add_pack :: "string \<Rightarrow> pack_ref option \<Rightarrow> (string, pack_ref) fmap \<Rightarrow> (string, pack_ref) fmap" where
  "add_pack i pack idx = (case pack of None \<Rightarrow> idx | Some p \<Rightarrow> fmupd i p idx)"

definition pack_index :: "taint_config \<Rightarrow> (string, pack_ref) fmap" where
  "pack_index c =
     (if tc_packs c = [] then fmempty
      else fold (\<lambda>d. add_pack (nd_id d) (nd_pack d)) (tc_sanitizers c)
             (fold (\<lambda>d. add_pack (kd_id d) (kd_pack d)) (tc_sinks c)
               (fold (\<lambda>d. add_pack (sd_id d) (sd_pack d)) (tc_sources c) fmempty)))"

fun collect_packs :: "(string, pack_ref) fmap \<Rightarrow> string list \<Rightarrow> string fset \<Rightarrow> pack_ref list" where
  "collect_packs idx [] seen = []"
| "collect_packs idx (i # is) seen =
     (case fmlookup idx i of
        None \<Rightarrow> collect_packs idx is seen
      | Some r \<Rightarrow>
          if pk_id r |\<in>| seen then collect_packs idx is seen
          else r # collect_packs idx is (finsert (pk_id r) seen))"

definition packs_for_defs :: "(string, pack_ref) fmap \<Rightarrow> string list \<Rightarrow> pack_ref list" where
  "packs_for_defs idx is = (if fmdom idx = {||} then [] else sort_key pk_id (collect_packs idx is {||}))"

definition default_taint_config :: taint_config where
  "default_taint_config =
     \<lparr>tc_version = ''1.0.0'',
      tc_sources = map (\<lambda>(i, l, ns). \<lparr>sd_id = i, sd_label = l, sd_kinds = [], sd_names = ns, sd_pack = None\<rparr>)
        [(''http_request'', ''user_input'', [''http.Request'', ''net/http.Request'']),
         (''request_form'', ''user_input'', [''.FormValue'', ''.PostFormValue'', ''.URL.Query'']),
         (''env_var'', ''env_input'', [''os.Getenv'', ''os.LookupEnv'']),
         (''stdin'', ''user_input'', [''os.Stdin'', ''bufio.NewReader'', ''bufio.NewScanner'']),
         (''json_decode'', ''deserialized'', [''json.Unmarshal'', ''json.NewDecoder'', ''json.Decoder.Decode'']),
         (''xml_decode'', ''deserialized'', [''xml.Unmarshal'', ''xml.NewDecoder'', ''xml.Decoder.Decode'']),
         (''yaml_decode'', ''deserialized'', [''yaml.Unmarshal'', ''yaml.NewDecoder'']),
         (''gob_decode'', ''deserialized'', [''gob.NewDecoder'', ''gob.Decoder.Decode''])],
      tc_sinks = map (\<lambda>(i, cat, ns). \<lparr>kd_id = i, kd_category = cat, kd_kinds = [], kd_names = ns, kd_pack = None\<rparr>)
        [(''sql_exec'', ''sql_injection'',
            [''database/sql.DB.Query'', ''database/sql.DB.Exec'', ''database/sql.DB.QueryRow'', ''.Query('', ''.Exec('', ''.QueryRow('']),
         (''os_exec'', ''command_injection'', [''os/exec.Command'', ''os/exec.CommandContext'', ''syscall.Exec'']),
         (''file_open'', ''path_traversal'', [''os.Open'', ''os.Create'', ''os.OpenFile'', ''os.ReadFile'', ''os.WriteFile'']),
         (''template_exec'', ''template_injection'',
            [''template.Template.Execute'', ''template.Template.ExecuteTemplate'', ''html/template.Template.Execute'']),
         (''http_redirect'', ''open_redirect'', [''http.Redirect'']),
         (''net_dial'', ''ssrf'', [''net.Dial'', ''net.DialTimeout'', ''http.Get'', ''http.Post'', ''http.NewRequest'']),
         (''ldap_search'', ''ldap_injection'', [''ldap.Search'', ''ldap.SearchRequest'']),
         (''log_write'', ''log_injection'', [''log.Printf'', ''log.Print'', ''log.Println'']),
         (''regex_compile'', ''redos'', [''regexp.Compile'', ''regexp.MustCompile''])],
      tc_sanitizers = map (\<lambda>(i, ns, rm). \<lparr>nd_id = i, nd_names = ns, nd_remove = rm, nd_pack = None\<rparr>)
        [(''html_escape'', [''html.EscapeString'', ''template.HTMLEscapeString''], [''user_input'']),
         (''url_escape'', [''url.QueryEscape'', ''url.PathEscape''], []),
         (''filepath_clean'', [''filepath.Clean'', ''path.Clean''], []),
         (''sql_param'', [''pq.QuoteIdentifier'', ''pq.QuoteLiteral''], []),
         (''strconv'', [''strconv.Atoi'', ''strconv.ParseInt'', ''strconv.ParseFloat'', ''strconv.ParseBool''], [])],
      tc_hash = [], tc_packs = []\<rparr>"

subsection \<open>Label sets\<close>

type_synonym label_set = "string list"

definition new_label_set :: "string list \<Rightarrow> label_set" where
  "new_label_set ls = sort (remdups ls)"

text \<open>\<open>sort.SearchStrings\<close>: the binary search for the first position not below the label.\<close>

function search_strings :: "label_set \<Rightarrow> string \<Rightarrow> nat \<Rightarrow> nat \<Rightarrow> nat" where
  "search_strings ls l i j =
     (if i < j then
        (if \<not> l \<le> ls ! ((i + j) div 2) then search_strings ls l ((i + j) div 2 + 1) j
         else search_strings ls l i ((i + j) div 2))
      else i)"
  by auto
termination by (relation "measure (\<lambda>(ls, l, i, j). j - i)") auto

declare search_strings.simps [simp del]

definition has_label :: "label_set \<Rightarrow> string \<Rightarrow> bool" where
  "has_label ls l =
     (let i = search_strings ls l 0 (length ls) in i < length ls \<and> ls ! i = l)"

definition label_union :: "label_set \<Rightarrow> label_set \<Rightarrow> label_set" where
  "label_union ls ls' = new_label_set (ls @ ls')"

definition remove_labels :: "label_set \<Rightarrow> string list \<Rightarrow> label_set" where
  "remove_labels ls rm = (if rm = [] then [] else filter (\<lambda>l. l \<notin> set rm) ls)"

definition label_string :: "label_set \<Rightarrow> string" where
  "label_string ls = ''{'' @ join_with '','' ls @ ''}''"

definition is_subset :: "label_set \<Rightarrow> label_set \<Rightarrow> bool" where
  "is_subset sub super \<longleftrightarrow> (\<forall>l \<in> set sub. has_label super l)"

subsection \<open>Caps and findings\<close>

record taint_caps =
  tp_nodes :: int
  tp_work :: int
  tp_depth :: int

definition default_taint_caps :: taint_caps where
  "default_taint_caps = \<lparr>tp_nodes = 10000, tp_work = 100000, tp_depth = 200\<rparr>"

record taint_cap_hit =
  th_cap :: string
  th_value :: int
  th_limit :: int

definition exceeded :: "taint_caps \<Rightarrow> int \<Rightarrow> int \<Rightarrow> int \<Rightarrow> taint_cap_hit option" where
  "exceeded c n w d =
     (if tp_nodes c > 0 \<and> n > tp_nodes c then Some \<lparr>th_cap = ''max_nodes'', th_value = n, th_limit = tp_nodes c\<rparr>
      else if tp_work c > 0 \<and> w > tp_work c then Some \<lparr>th_cap = ''max_work'', th_value = w, th_limit = tp_work c\<rparr>
      else if tp_depth c > 0 \<and> d > tp_depth c then Some \<lparr>th_cap = ''max_depth'', th_value = d, th_limit = tp_depth c\<rparr>
      else None)"

record taint_step =
  st_node :: node_id
  st_kind :: string
  st_qname :: string
  st_path :: string
  st_line :: int
  st_col :: int
  st_labels :: label_set
  st_edge_kind :: string
  st_tier :: string
  st_conf :: float64
  st_reason :: string
  st_rule :: string

record taint_finding =
  tf_source :: node_id
  tf_source_name :: string
  tf_source_def :: string
  tf_sink :: node_id
  tf_sink_name :: string
  tf_sink_def :: string
  tf_category :: string
  tf_labels :: label_set
  tf_path :: "taint_step list"
  tf_length :: int
  tf_incomplete :: bool
  tf_cap_hit :: "taint_cap_hit option"
  tf_config :: string
  tf_packs :: "pack_ref list"

text \<open>The diagnostic names the source and the cap.\<close>

record taint_result =
  tr_findings :: "taint_finding list"
  tr_truncated :: bool
  tr_diags :: "(node_id \<times> taint_cap_hit) list"
  tr_config :: string
  tr_packs :: "pack_ref list"
  tr_sinks :: int
  tr_sources :: int

definition sort_taint_findings :: "taint_finding list \<Rightarrow> taint_finding list" where
  "sort_taint_findings fs =
     sort_key (\<lambda>f. (tf_source f, tf_sink f, tf_length f, join_with '','' (tf_labels f))) fs"

definition taint_finding_key :: "taint_finding \<Rightarrow> node_id \<times> node_id \<times> string" where
  "taint_finding_key f = (tf_source f, tf_sink f, label_string (tf_labels f))"

fun best_findings ::
  "taint_finding list \<Rightarrow> (node_id \<times> node_id \<times> string, taint_finding) fmap \<Rightarrow> (node_id \<times> node_id \<times> string, taint_finding) fmap" where
  "best_findings [] best = best"
| "best_findings (f # fs) best =
     (if (case fmlookup best (taint_finding_key f) of None \<Rightarrow> True | Some old \<Rightarrow> tf_length f < tf_length old)
      then best_findings fs (fmupd (taint_finding_key f) f best)
      else best_findings fs best)"

definition dedup_findings :: "taint_finding list \<Rightarrow> taint_finding list" where
  "dedup_findings fs = map_values (best_findings fs fmempty)"

subsection \<open>The propagation\<close>

text \<open>The interprocedural summaries: whether there is one, and the labels that come out.\<close>

record summary_provider =
  sp_has :: "string \<Rightarrow> bool"
  sp_transfer :: "string \<Rightarrow> label_set \<Rightarrow> label_set"

definition noop_summaries :: summary_provider where
  "noop_summaries = \<lparr>sp_has = (\<lambda>_. False), sp_transfer = (\<lambda>_ ls. ls)\<rparr>"

record taint_analyzer =
  ta_config :: taint_config
  ta_caps :: taint_caps
  ta_summaries :: summary_provider

definition new_taint_analyzer :: "taint_config \<Rightarrow> taint_caps \<Rightarrow> summary_provider option \<Rightarrow> taint_analyzer" where
  "new_taint_analyzer cfg c summaries =
     \<lparr>ta_config = cfg, ta_caps = c, ta_summaries = (case summaries of None \<Rightarrow> noop_summaries | Some s \<Rightarrow> s)\<rparr>"

text \<open>What a run reads from the graph: the nodes, the sorted adjacency, the sources, sinks and sanitizers.\<close>

record taint_graph =
  tg_nodes :: "(node_id, node) fmap"
  tg_adj :: "node_id \<Rightarrow> edge list"
  tg_sources :: "(node_id, string \<times> string) fmap"
  tg_sinks :: "(node_id, string \<times> string) fmap"
  tg_sanitizers :: "(node_id, sanitizer_def) fmap"

definition taint_adj :: "edge list \<Rightarrow> node_id \<Rightarrow> edge list" where
  "taint_adj es u = sort_key (\<lambda>e. (e_to e, e_id e)) (filter (\<lambda>e. e_from e = u) es)"

definition classify :: "(node \<Rightarrow> 'v option) \<Rightarrow> node list \<Rightarrow> (node_id, 'v) fmap" where
  "classify f ns = fold (\<lambda>n m. case f n of None \<Rightarrow> m | Some v \<Rightarrow> fmupd (n_id n) v m) ns fmempty"

definition source_of :: "(string \<Rightarrow> string) \<Rightarrow> taint_config \<Rightarrow> node \<Rightarrow> (string \<times> string) option" where
  "source_of lower c n = (let s = match_source lower c (n_kind n) (n_qname n) in if fst s = [] then None else Some s)"

definition sink_of :: "(string \<Rightarrow> string) \<Rightarrow> taint_config \<Rightarrow> node \<Rightarrow> (string \<times> string) option" where
  "sink_of lower c n = (let s = match_sink lower c (n_kind n) (n_qname n) in if fst s = [] then None else Some s)"

definition taint_graph_of :: "(string \<Rightarrow> string) \<Rightarrow> taint_config \<Rightarrow> node list \<Rightarrow> edge list \<Rightarrow> taint_graph" where
  "taint_graph_of lower c ns es =
     \<lparr>tg_nodes = fold (\<lambda>n. fmupd (n_id n) n) ns fmempty, tg_adj = taint_adj es,
      tg_sources = classify (source_of lower c) ns, tg_sinks = classify (sink_of lower c) ns,
      tg_sanitizers = classify (\<lambda>n. match_sanitizer lower c (n_qname n)) ns\<rparr>"

record work_item =
  wi_node :: node_id
  wi_labels :: label_set
  wi_depth :: int

definition wi_key :: "work_item \<Rightarrow> int \<times> node_id" where
  "wi_key w = (wi_depth w, wi_node w)"

text \<open>The state of the propagation from one source.\<close>

record source_run =
  sr_labels :: "(node_id, label_set) fmap"
  sr_parent :: "(node_id, node_id) fmap"
  sr_edge :: "(node_id, edge) fmap"
  sr_depth :: "(node_id, int) fmap"
  sr_count :: int
  sr_queue :: "work_item list"

definition start_run :: "node_id \<Rightarrow> label_set \<Rightarrow> source_run" where
  "start_run s ls =
     \<lparr>sr_labels = fmupd s ls fmempty, sr_parent = fmempty, sr_edge = fmempty, sr_depth = fmupd s 0 fmempty,
      sr_count = 1, sr_queue = push_heap wi_key \<lparr>wi_node = s, wi_labels = ls, wi_depth = 0\<rparr> []\<rparr>"

text \<open>The labels that survive the sanitizer and the summary of a successor; \<open>None\<close> stops the path.\<close>

definition pass_labels :: "summary_provider \<Rightarrow> taint_graph \<Rightarrow> label_set \<Rightarrow> node_id \<Rightarrow> label_set option" where
  "pass_labels sp g ls v =
     (let after = (case fmlookup (tg_sanitizers g) v of
                     None \<Rightarrow> Some ls
                   | Some san \<Rightarrow> (let ls' = remove_labels ls (nd_remove san) in if ls' = [] then None else Some ls'))
      in case after of
           None \<Rightarrow> None
         | Some ls' \<Rightarrow>
             (case fmlookup (tg_nodes g) v of
                None \<Rightarrow> Some ls'
              | Some n \<Rightarrow>
                  if sp_has sp (n_qname n) then
                    (let ls'' = sp_transfer sp (n_qname n) ls' in if ls'' = [] then None else Some ls'')
                  else Some ls'))"

definition enter_node :: "work_item \<Rightarrow> edge \<Rightarrow> label_set \<Rightarrow> source_run \<Rightarrow> source_run" where
  "enter_node item e ls s =
     s\<lparr>sr_labels := fmupd (e_to e) ls (sr_labels s),
       sr_count := (if fmlookup (sr_depth s) (e_to e) = None then sr_count s + 1 else sr_count s),
       sr_depth := fmupd (e_to e) (wi_depth item + 1) (sr_depth s),
       sr_parent := fmupd (e_to e) (wi_node item) (sr_parent s),
       sr_edge := fmupd (e_to e) e (sr_edge s),
       sr_queue := push_heap wi_key \<lparr>wi_node = e_to e, wi_labels = ls, wi_depth = wi_depth item + 1\<rparr> (sr_queue s)\<rparr>"

definition visit_flow :: "summary_provider \<Rightarrow> taint_graph \<Rightarrow> work_item \<Rightarrow> edge \<Rightarrow> source_run \<Rightarrow> source_run" where
  "visit_flow sp g item e s =
     (case pass_labels sp g (wi_labels item) (e_to e) of
        None \<Rightarrow> s
      | Some ls \<Rightarrow>
          (case fmlookup (sr_labels s) (e_to e) of
             None \<Rightarrow> enter_node item e ls s
           | Some prev \<Rightarrow> if is_subset ls prev then s else enter_node item e (label_union prev ls) s))"

text \<open>The nodes from the target back to the source, with the guard against cycles.\<close>

function back_path :: "(node_id, node_id) fmap \<Rightarrow> node_id \<Rightarrow> node_id fset \<Rightarrow> node_id \<Rightarrow> node_id list" where
  "back_path parents source seen cur =
     (if cur = source \<or> cur |\<in>| seen then []
      else cur # (case fmlookup parents cur of
                    None \<Rightarrow> []
                  | Some p \<Rightarrow> back_path parents source (finsert cur seen) p))"
  by pat_completeness auto
termination
proof (relation "measure (\<lambda>(parents, source, seen, cur). fcard (fmdom parents |-| seen))", goal_cases)
  case (2 parents source seen cur p)
  then have "cur |\<in>| fmdom parents |-| seen" by (simp add: fmdomI)
  then have "fcard (fmdom parents |-| seen |-| {|cur|}) < fcard (fmdom parents |-| seen)" by (rule fcard_fminus1_less)
  moreover have "fmdom parents |-| finsert cur seen = fmdom parents |-| seen |-| {|cur|}" by blast
  ultimately show ?case by simp
qed simp

declare back_path.simps [simp del]

definition zero_tier :: string where "zero_tier = []"

definition step_at :: "taint_graph \<Rightarrow> source_run \<Rightarrow> node_id \<Rightarrow> node_id \<Rightarrow> taint_step" where
  "step_at g s source v =
     (let base = (case fmlookup (tg_nodes g) v of
                    None \<Rightarrow> \<lparr>st_node = v, st_kind = [], st_qname = [], st_path = [], st_line = 0, st_col = 0, st_labels = [],
                             st_edge_kind = [], st_tier = zero_tier, st_conf = Finite 0, st_reason = [], st_rule = []\<rparr>
                  | Some n \<Rightarrow> \<lparr>st_node = v, st_kind = n_kind n, st_qname = n_qname n, st_path = n_path n, st_line = n_line n,
                               st_col = n_col n, st_labels = [], st_edge_kind = [], st_tier = zero_tier, st_conf = Finite 0,
                               st_reason = [], st_rule = []\<rparr>)\<lparr>st_labels := (case fmlookup (sr_labels s) v of None \<Rightarrow> [] | Some ls \<Rightarrow> ls)\<rparr>
      in case fmlookup (sr_edge s) v of
           Some e \<Rightarrow> base\<lparr>st_edge_kind := e_kind e, st_tier := e_tier e, st_conf := e_conf e, st_reason := e_reason e,
                           st_rule := ''taint_propagation''\<rparr>
         | None \<Rightarrow> if v = source then base\<lparr>st_rule := ''taint_source''\<rparr> else base)"

definition reconstruct_path :: "taint_graph \<Rightarrow> source_run \<Rightarrow> node_id \<Rightarrow> node_id \<Rightarrow> taint_step list" where
  "reconstruct_path g s source target =
     map (step_at g s source) (source # rev (back_path (sr_parent s) source {||} target))"

definition name_at :: "taint_graph \<Rightarrow> node_id \<Rightarrow> string" where
  "name_at g v = (case fmlookup (tg_nodes g) v of None \<Rightarrow> [] | Some n \<Rightarrow> n_qname n)"

definition new_taint_finding ::
  "taint_config \<Rightarrow> taint_graph \<Rightarrow> source_run \<Rightarrow> node_id \<Rightarrow> string \<Rightarrow> work_item \<Rightarrow> string \<times> string \<Rightarrow> taint_finding" where
  "new_taint_finding cfg g s source def_id item sink =
     (let path = reconstruct_path g s source (wi_node item)
      in \<lparr>tf_source = source, tf_source_name = name_at g source, tf_source_def = def_id, tf_sink = wi_node item,
          tf_sink_name = name_at g (wi_node item), tf_sink_def = fst sink, tf_category = snd sink,
          tf_labels = wi_labels item, tf_path = path, tf_length = int (length path), tf_incomplete = False,
          tf_cap_hit = None, tf_config = tc_hash cfg, tf_packs = packs_for_defs (pack_index cfg) [def_id, fst sink]\<rparr>)"

record propagation =
  pg_findings :: "taint_finding list"
  pg_diags :: "(node_id \<times> taint_cap_hit) list"
  pg_work :: int
  pg_polls :: nat

definition mark_incomplete :: "node_id \<Rightarrow> taint_cap_hit \<Rightarrow> taint_finding \<Rightarrow> taint_finding" where
  "mark_incomplete source hit f =
     (if tf_source f = source then f\<lparr>tf_incomplete := True, tf_cap_hit := Some hit\<rparr> else f)"

partial_function (option) taint_loop ::
  "(nat \<Rightarrow> store_error option) \<Rightarrow> taint_analyzer \<Rightarrow> taint_graph \<Rightarrow> node_id \<Rightarrow> string \<Rightarrow> source_run \<Rightarrow> propagation
     \<Rightarrow> (store_error + propagation) option" where
  "taint_loop polls a g source def_id s pg =
     (if sr_queue s = [] then Some (Inr pg)
      else case polls (pg_polls pg) of
        Some err \<Rightarrow> Some (Inl err)
      | None \<Rightarrow>
          (let (item, queue) = pop_heap wi_key (sr_queue s); work = pg_work pg + 1
           in case exceeded (ta_caps a) (sr_count s) work (wi_depth item) of
                Some hit \<Rightarrow>
                  Some (Inr (pg\<lparr>pg_polls := pg_polls pg + 1, pg_work := work, pg_diags := pg_diags pg @ [(source, hit)],
                                 pg_findings := map (mark_incomplete source hit) (pg_findings pg)\<rparr>))
              | None \<Rightarrow>
                  (let found = (case fmlookup (tg_sinks g) (wi_node item) of
                                  None \<Rightarrow> []
                                | Some sink \<Rightarrow>
                                    if wi_labels item = [] then []
                                    else [new_taint_finding (ta_config a) g s source def_id item sink])
                   in taint_loop polls a g source def_id
                        (fold (visit_flow (ta_summaries a) g item) (tg_adj g (wi_node item)) (s\<lparr>sr_queue := queue\<rparr>))
                        (pg\<lparr>pg_polls := pg_polls pg + 1, pg_work := work, pg_findings := pg_findings pg @ found\<rparr>))))"

fun taint_sources ::
  "(nat \<Rightarrow> store_error option) \<Rightarrow> taint_analyzer \<Rightarrow> taint_graph \<Rightarrow> node_id list \<Rightarrow> propagation
     \<Rightarrow> (store_error + propagation) option" where
  "taint_sources polls a g [] pg = Some (Inr pg)"
| "taint_sources polls a g (s # ss) pg =
     (case polls (pg_polls pg) of
        Some err \<Rightarrow> Some (Inl err)
      | None \<Rightarrow>
          (case the (fmlookup (tg_sources g) s) of
             (label, def_id) \<Rightarrow>
               (case taint_loop polls a g s def_id (start_run s (new_label_set [label])) (pg\<lparr>pg_polls := pg_polls pg + 1\<rparr>) of
                  None \<Rightarrow> None
                | Some (Inl err) \<Rightarrow> Some (Inl err)
                | Some (Inr pg') \<Rightarrow> taint_sources polls a g ss pg')))"

definition taint_result_of :: "taint_config \<Rightarrow> taint_graph \<Rightarrow> taint_finding list \<Rightarrow> (node_id \<times> taint_cap_hit) list \<Rightarrow> taint_result" where
  "taint_result_of cfg g fs diags =
     \<lparr>tr_findings = fs, tr_truncated = False, tr_diags = diags, tr_config = tc_hash cfg, tr_packs = tc_packs cfg,
      tr_sinks = int (fcard (fmdom (tg_sinks g))), tr_sources = int (fcard (fmdom (tg_sources g)))\<rparr>"

definition taint_run ::
  "(string \<Rightarrow> string) \<Rightarrow> (node_id list \<Rightarrow> node_id list) \<Rightarrow> (nat \<Rightarrow> store_error option) \<Rightarrow> taint_analyzer \<Rightarrow> reader_port
     \<Rightarrow> (store_error + taint_result) option" where
  "taint_run lower order polls a r =
     (case rp_nodes r any_query of
        Inl err \<Rightarrow> Some (Inl err)
      | Inr ns \<Rightarrow>
          (case rp_edges r any_query of
             Inl err \<Rightarrow> Some (Inl err)
           | Inr es \<Rightarrow>
               (let cfg = ta_config a; g = taint_graph_of lower cfg ns es in
                if fmdom (tg_sources g) = {||} \<or> fmdom (tg_sinks g) = {||} then Some (Inr (taint_result_of cfg g [] []))
                else case taint_sources polls a g (order (sorted_list_of_fset (fmdom (tg_sources g))))
                            \<lparr>pg_findings = [], pg_diags = [], pg_work = 0, pg_polls = 0\<rparr> of
                       None \<Rightarrow> None
                     | Some (Inl err) \<Rightarrow> Some (Inl err)
                     | Some (Inr pg) \<Rightarrow>
                         Some (Inr (taint_result_of cfg g (sort_taint_findings (dedup_findings (pg_findings pg))) (pg_diags pg))))))"

end
