(* ===== verification/TaintProps.thy ===== *)
theory TaintProps
  imports Taint
begin

text \<open>
  The proof that the propagation of \<open>engine/analysis/taint/taint.go\<close>, without summaries and below its caps,
  finds exactly the sinks a source reaches past the sanitizers, each with a shortest path.
\<close>

subsection \<open>Single labels\<close>

lemma has_only: "has_label [l] l' \<longleftrightarrow> l' = l" if "l' = l"
  using that by (simp add: has_label_def search_strings.simps)

lemma subset_only [simp]: "is_subset [l] [l]"
  by (simp add: is_subset_def has_only)

definition carries :: "taint_graph \<Rightarrow> string \<Rightarrow> node_id \<Rightarrow> bool" where
  "carries g l v \<longleftrightarrow> (case fmlookup (tg_sanitizers g) v of None \<Rightarrow> True | Some d \<Rightarrow> nd_remove d \<noteq> [] \<and> l \<notin> set (nd_remove d))"

lemma pass_only: "pass_labels noop_summaries g [l] v = (if carries g l v then Some [l] else None)"
  by (auto simp: pass_labels_def carries_def noop_summaries_def remove_labels_def Let_def split: option.splits)

definition carry_rel :: "taint_graph \<Rightarrow> string \<Rightarrow> (node_id \<times> node_id) set" where
  "carry_rel g l = {(u, v). v \<in> e_to ` set (tg_adj g u) \<and> carries g l v}"

subsection \<open>Visiting the successors\<close>

abbreviation found :: "source_run \<Rightarrow> node_id set" where "found s \<equiv> fmdom' (sr_depth s)"

definition hop_depth :: "source_run \<Rightarrow> node_id \<Rightarrow> int" where "hop_depth s v = the (fmlookup (sr_depth s) v)"

definition item_at :: "string \<Rightarrow> source_run \<Rightarrow> node_id \<Rightarrow> work_item" where
  "item_at l s v = \<lparr>wi_node = v, wi_labels = [l], wi_depth = hop_depth s v\<rparr>"

definition labelled :: "string \<Rightarrow> source_run \<Rightarrow> bool" where
  "labelled l s \<longleftrightarrow> (\<forall>v. fmlookup (sr_labels s) v = (if v \<in> found s then Some [l] else None)) \<and>
     sr_count s = int (card (found s)) \<and> heap_ok wi_key (length (sr_queue s)) (sr_queue s)"

text \<open>The nodes \<open>N\<close> entered from \<open>u\<close> between two states.\<close>

definition entered_from :: "string \<Rightarrow> node_id \<Rightarrow> int \<Rightarrow> node_id set \<Rightarrow> source_run \<Rightarrow> source_run \<Rightarrow> bool" where
  "entered_from l u d N s s' \<longleftrightarrow> labelled l s' \<and> found s' = found s \<union> N \<and> N \<inter> found s = {} \<and> finite N \<and>
     (\<forall>v \<in> N. fmlookup (sr_depth s') v = Some (d + 1) \<and> fmlookup (sr_parent s') v = Some u) \<and>
     (\<forall>v. v \<notin> N \<longrightarrow> fmlookup (sr_depth s') v = fmlookup (sr_depth s) v \<and> fmlookup (sr_parent s') v = fmlookup (sr_parent s) v) \<and>
     mset (sr_queue s') = mset (sr_queue s) + image_mset (\<lambda>v. \<lparr>wi_node = v, wi_labels = [l], wi_depth = d + 1\<rparr>) (mset_set N)"

lemma fmdom'_finite [simp]: "finite (fmdom' f)"
  by (simp add: fmdom'_alt_def)

lemma visit_one:
  assumes "labelled l s"
  shows "entered_from l u d (if carries g l (e_to e) \<and> e_to e \<notin> found s then {e_to e} else {}) s
    (visit_flow noop_summaries g \<lparr>wi_node = u, wi_labels = [l], wi_depth = d\<rparr> e s)"
proof (cases "carries g l (e_to e) \<and> e_to e \<notin> found s")
  case False
  then have "visit_flow noop_summaries g \<lparr>wi_node = u, wi_labels = [l], wi_depth = d\<rparr> e s = s"
    using assms by (auto simp: visit_flow_def pass_only labelled_def)
  then show ?thesis unfolding if_not_P [OF False] using assms by (simp add: entered_from_def)
next
  case True
  let ?i = "\<lparr>wi_node = u, wi_labels = [l], wi_depth = d\<rparr>"
  let ?q = "\<lparr>wi_node = e_to e, wi_labels = [l], wi_depth = d + 1\<rparr>"
  have new: "fmlookup (sr_depth s) (e_to e) = None" using True by (simp add: fmlookup_dom'_iff)
  have "visit_flow noop_summaries g ?i e s = enter_node ?i e [l] s"
    using assms True by (simp add: visit_flow_def pass_only labelled_def)
  moreover have "entered_from l u d {e_to e} s (enter_node ?i e [l] s)"
    using assms True new push_heap_ok [of wi_key "sr_queue s" ?q]
    by (auto simp: entered_from_def labelled_def enter_node_def)
  ultimately show ?thesis using True by simp
qed

lemma entered_trans:
  assumes "entered_from l u d N s s'" "entered_from l u d N' s' s''"
  shows "entered_from l u d (N \<union> N') s s''"
proof -
  have disj: "N \<inter> N' = {}" "finite N" "finite N'" using assms by (auto simp: entered_from_def)
  show ?thesis
    using assms unfolding entered_from_def mset_set_Union [OF disj(2,3,1)] image_mset_union
    by (auto simp: ac_simps)
qed

lemma visit_all:
  assumes "labelled l s"
  shows "entered_from l u d {v \<in> e_to ` set es. carries g l v \<and> v \<notin> found s} s
    (fold (visit_flow noop_summaries g \<lparr>wi_node = u, wi_labels = [l], wi_depth = d\<rparr>) es s)"
  using assms
proof (induction es arbitrary: s)
  case Nil
  then show ?case by (simp add: entered_from_def)
next
  case (Cons e es)
  let ?v = "visit_flow noop_summaries g \<lparr>wi_node = u, wi_labels = [l], wi_depth = d\<rparr>"
  let ?one = "if carries g l (e_to e) \<and> e_to e \<notin> found s then {e_to e} else {}"
  have one: "entered_from l u d ?one s (?v e s)" by (rule visit_one [OF Cons.prems])
  then have lab: "labelled l (?v e s)" and f: "found (?v e s) = found s \<union> ?one" by (simp_all add: entered_from_def)
  have "entered_from l u d (?one \<union> {v \<in> e_to ` set es. carries g l v \<and> v \<notin> found (?v e s)}) s (fold ?v es (?v e s))"
    by (rule entered_trans [OF one Cons.IH [OF lab]])
  moreover have "?one \<union> {v \<in> e_to ` set es. carries g l v \<and> v \<notin> found (?v e s)} =
      {v \<in> e_to ` set (e # es). carries g l v \<and> v \<notin> found s}"
    unfolding f by auto
  ultimately show ?case by simp
qed

subsection \<open>The breadth-first invariant\<close>

text \<open>\<open>P\<close> holds the nodes already taken from the queue.\<close>

definition bfs_inv :: "taint_graph \<Rightarrow> string \<Rightarrow> node_id \<Rightarrow> node_id set \<Rightarrow> source_run \<Rightarrow> bool" where
  "bfs_inv g l src P s \<longleftrightarrow> labelled l s \<and> P \<subseteq> found s \<and>
     src \<in> found s \<and> hop_depth s src = 0 \<and> (\<forall>v \<in> found s. 0 \<le> hop_depth s v) \<and> fmlookup (sr_parent s) src = None \<and>
     (\<forall>v \<in> found s - {src}. \<exists>p \<in> P. fmlookup (sr_parent s) v = Some p \<and> (p, v) \<in> carry_rel g l \<and> hop_depth s v = hop_depth s p + 1) \<and>
     mset (sr_queue s) = image_mset (item_at l s) (mset_set (found s - P)) \<and>
     (\<forall>p \<in> P. \<forall>v. (p, v) \<in> carry_rel g l \<longrightarrow> v \<in> found s \<and> hop_depth s v \<le> hop_depth s p + 1) \<and>
     (\<forall>p \<in> P. \<forall>q \<in> found s - P. hop_depth s p \<le> hop_depth s q)"

lemma bfs_start: "bfs_inv g l src {} (start_run src [l])"
  by (simp add: bfs_inv_def start_run_def labelled_def push_heap_def sift_up.simps heap_ok_def hop_depth_def item_at_def)

lemma bfs_pop:
  assumes inv: "bfs_inv g l src P s" and q: "sr_queue s \<noteq> []" and pop: "pop_heap wi_key (sr_queue s) = (item, queue)"
  obtains u where "u \<in> found s - P" "item = item_at l s u" "\<forall>v \<in> found s - P. hop_depth s u \<le> hop_depth s v"
    "heap_ok wi_key (length queue) queue" "mset queue = image_mset (item_at l s) (mset_set (found s - P - {u}))"
proof -
  have h: "heap_ok wi_key (length (sr_queue s)) (sr_queue s)" using inv by (simp add: bfs_inv_def labelled_def)
  note p = pop_heap_ok [OF h q pop]
  have ms: "image_mset (item_at l s) (mset_set (found s - P)) = add_mset item (mset queue)"
    using inv p(2) by (simp add: bfs_inv_def)
  then have "item \<in># image_mset (item_at l s) (mset_set (found s - P))" by simp
  then obtain u where u: "u \<in> found s - P" "item = item_at l s u" by auto
  have "mset_set (found s - P) = add_mset u (mset_set (found s - P - {u}))"
    using u(1) by (metis fmdom'_finite finite_Diff mset_set.remove)
  then have rest: "mset queue = image_mset (item_at l s) (mset_set (found s - P - {u}))" using ms u(2) by simp
  have "hop_depth s u \<le> hop_depth s v" if v: "v \<in> found s - P" for v
  proof (cases "v = u")
    case False
    then have "item_at l s v \<in># mset queue" unfolding rest using v by simp
    then have "wi_key item \<le> wi_key (item_at l s v)" using p(3) by auto
    then show ?thesis by (auto simp: u(2) wi_key_def item_at_def)
  qed simp
  then show ?thesis using that u p(1) rest by blast
qed

lemma bfs_visit:
  assumes inv: "bfs_inv g l src P s" and u: "u \<in> found s - P" and least: "\<forall>v \<in> found s - P. hop_depth s u \<le> hop_depth s v"
    and queue: "heap_ok wi_key (length queue) queue" "mset queue = image_mset (item_at l s) (mset_set (found s - P - {u}))"
  defines "s' \<equiv> fold (visit_flow noop_summaries g (item_at l s u)) (tg_adj g u) (s\<lparr>sr_queue := queue\<rparr>)"
  shows "bfs_inv g l src (insert u P) s'" and "found s \<subseteq> found s'" and "\<forall>v \<in> found s. hop_depth s' v = hop_depth s v"
    and "\<forall>v \<in> found s. fmlookup (sr_parent s') v = fmlookup (sr_parent s) v"
proof -
  let ?d = "hop_depth s u"
  define N where "N = {v \<in> e_to ` set (tg_adj g u). carries g l v \<and> v \<notin> found s}"
  have lab: "labelled l (s\<lparr>sr_queue := queue\<rparr>)" using inv queue(1) by (simp add: bfs_inv_def labelled_def)
  have E: "entered_from l u ?d N (s\<lparr>sr_queue := queue\<rparr>) s'"
    unfolding s'_def item_at_def N_def using visit_all [OF lab, of u ?d "tg_adj g u" g] by simp
  have f: "found s' = found s \<union> N" "N \<inter> found s = {}" "finite N" "labelled l s'" using E by (auto simp: entered_from_def)
  have new: "hop_depth s' v = ?d + 1" "fmlookup (sr_parent s') v = Some u" "(u, v) \<in> carry_rel g l" if "v \<in> N" for v
    using E that by (auto simp: entered_from_def hop_depth_def N_def carry_rel_def)
  have old: "hop_depth s' v = hop_depth s v" "fmlookup (sr_parent s') v = fmlookup (sr_parent s) v" if "v \<in> found s" for v
    using E that f(2) by (auto simp: entered_from_def hop_depth_def)
  have u_new: "u \<notin> N" using u f(2) by auto
  show "found s \<subseteq> found s'" using f(1) by simp
  show "\<forall>v \<in> found s. hop_depth s' v = hop_depth s v" "\<forall>v \<in> found s. fmlookup (sr_parent s') v = fmlookup (sr_parent s) v"
    using old by blast+
  have src: "src \<in> found s" "hop_depth s src = 0" "fmlookup (sr_parent s) src = None" "P \<subseteq> found s"
    using inv by (simp_all add: bfs_inv_def)
  have tree: "\<exists>p \<in> insert u P. fmlookup (sr_parent s') v = Some p \<and> (p, v) \<in> carry_rel g l \<and> hop_depth s' v = hop_depth s' p + 1"
    if v: "v \<in> found s' - {src}" for v
  proof (cases "v \<in> N")
    case True
    then show ?thesis using new old(1) [of u] u by auto
  next
    case False
    then have v: "v \<in> found s - {src}" using v f(1) by auto
    then obtain p where "p \<in> P" "fmlookup (sr_parent s) v = Some p" "(p, v) \<in> carry_rel g l" "hop_depth s v = hop_depth s p + 1"
      using inv unfolding bfs_inv_def by blast
    then show ?thesis using old v src(4) by auto
  qed
  have "found s' - insert u P = (found s - P - {u}) \<union> N" using f(1,2) src(4) u by auto
  moreover have "mset_set ((found s - P - {u}) \<union> N) = mset_set (found s - P - {u}) + mset_set N"
    using f(2,3) by (intro mset_set_Union) auto
  moreover have "mset (sr_queue s') = mset queue + image_mset (\<lambda>v. \<lparr>wi_node = v, wi_labels = [l], wi_depth = ?d + 1\<rparr>) (mset_set N)"
    using E by (simp add: entered_from_def)
  moreover have "image_mset (\<lambda>v. \<lparr>wi_node = v, wi_labels = [l], wi_depth = ?d + 1\<rparr>) (mset_set N) = image_mset (item_at l s') (mset_set N)"
    using new(1) f(3) by (intro image_mset_cong) (simp add: item_at_def)
  moreover have "image_mset (item_at l s) (mset_set (found s - P - {u})) = image_mset (item_at l s') (mset_set (found s - P - {u}))"
    using old(1) by (intro image_mset_cong) (simp add: item_at_def)
  ultimately have ms: "mset (sr_queue s') = image_mset (item_at l s') (mset_set (found s' - insert u P))"
    using queue(2) by simp
  have closed: "v \<in> found s' \<and> hop_depth s' v \<le> hop_depth s' p + 1" if p: "p \<in> insert u P" "(p, v) \<in> carry_rel g l" for p v
  proof (cases "p = u")
    case True
    show ?thesis
    proof (cases "v \<in> found s")
      case v: True
      have "hop_depth s v \<le> ?d + 1"
      proof (cases "v = src")
        case True
        then show ?thesis using src(2) inv u unfolding bfs_inv_def by force
      next
        case False
        then obtain p where "p \<in> P" "hop_depth s v = hop_depth s p + 1" using inv v unfolding bfs_inv_def by blast
        moreover have "hop_depth s p \<le> ?d" using inv u \<open>p \<in> P\<close> unfolding bfs_inv_def by blast
        ultimately show ?thesis by simp
      qed
      then show ?thesis using True old v u f(1) by auto
    next
      case False
      then have "v \<in> N" using p(2) True by (auto simp: N_def carry_rel_def)
      then show ?thesis using new old(1) [of u] u True f(1) by auto
    qed
  next
    case False
    then have "v \<in> found s \<and> hop_depth s v \<le> hop_depth s p + 1" using inv p unfolding bfs_inv_def by blast
    then show ?thesis using old False p(1) src(4) f(1) by auto
  qed
  have "hop_depth s' p \<le> hop_depth s' q" if "p \<in> insert u P" "q \<in> found s' - insert u P" for p q
  proof -
    have p: "p \<in> found s" "hop_depth s p \<le> ?d" using that u src(4) inv unfolding bfs_inv_def by blast+
    show ?thesis
    proof (cases "q \<in> N")
      case True
      then show ?thesis using p new old by auto
    next
      case False
      then have "q \<in> found s - P" using that f(1) by auto
      then show ?thesis using p least old by force
    qed
  qed
  moreover have "\<forall>v \<in> found s'. 0 \<le> hop_depth s' v"
    using inv new(1) old(1) u unfolding f(1) bfs_inv_def by force
  ultimately show "bfs_inv g l src (insert u P) s'"
    unfolding bfs_inv_def using f tree ms closed src old u by auto
qed

subsection \<open>The paths\<close>

definition is_path :: "(node_id \<times> node_id) set \<Rightarrow> node_id \<Rightarrow> node_id \<Rightarrow> node_id list \<Rightarrow> bool" where
  "is_path R s t p \<longleftrightarrow> p \<noteq> [] \<and> hd p = s \<and> last p = t \<and> successively (\<lambda>x y. (x, y) \<in> R) p"

definition shortest_path :: "(node_id \<times> node_id) set \<Rightarrow> node_id \<Rightarrow> node_id \<Rightarrow> node_id list \<Rightarrow> bool" where
  "shortest_path R s t p \<longleftrightarrow> is_path R s t p \<and> (\<forall>q. is_path R s t q \<longrightarrow> length p \<le> length q)"

lemma path_snoc: "is_path R s t (p @ [v]) \<longleftrightarrow> v = t \<and> (p = [] \<and> s = t \<or> (\<exists>u. is_path R s u p \<and> (u, v) \<in> R))"
  by (auto simp: is_path_def successively_append_iff hd_append)

lemma path_reaches: "is_path R s t p \<Longrightarrow> (s, t) \<in> R\<^sup>*"
proof (induction p arbitrary: t rule: rev_induct)
  case (snoc v p)
  then show ?case unfolding path_snoc by (auto intro: rtrancl_into_rtrancl)
qed (simp add: is_path_def)

lemma back_ok:
  assumes inv: "bfs_inv g l src P s"
  shows "\<lbrakk>v \<in> found s; \<forall>w. w |\<in>| seen \<longrightarrow> hop_depth s v < hop_depth s w\<rbrakk> \<Longrightarrow>
    is_path (carry_rel g l) src v (src # rev (back_path (sr_parent s) src seen v)) \<and>
    int (length (back_path (sr_parent s) src seen v)) = hop_depth s v \<and>
    distinct (back_path (sr_parent s) src seen v) \<and>
    (\<forall>w \<in> set (back_path (sr_parent s) src seen v). w \<in> found s \<and> hop_depth s w \<le> hop_depth s v)"
proof (induction "nat (hop_depth s v)" arbitrary: v seen rule: less_induct)
  case less
  show ?case
  proof (cases "v = src")
    case True
    then have "back_path (sr_parent s) src seen v = []" by (simp add: back_path.simps)
    then show ?thesis using True inv by (simp add: is_path_def bfs_inv_def)
  next
    case False
    then obtain p where p: "p \<in> P" "fmlookup (sr_parent s) v = Some p" "(p, v) \<in> carry_rel g l" "hop_depth s v = hop_depth s p + 1"
      using inv less(2) unfolding bfs_inv_def by blast
    have pf: "p \<in> found s" "0 \<le> hop_depth s p" using inv p(1) unfolding bfs_inv_def by blast+
    let ?b = "back_path (sr_parent s) src (finsert v seen) p"
    have ih: "is_path (carry_rel g l) src p (src # rev ?b) \<and> int (length ?b) = hop_depth s p \<and> distinct ?b \<and>
        (\<forall>w \<in> set ?b. w \<in> found s \<and> hop_depth s w \<le> hop_depth s p)"
      using less(1) [OF _ pf(1), of "finsert v seen"] less(3) p(4) pf(2) by force
    have "v |\<notin>| seen" using less(3) by auto
    then have b: "back_path (sr_parent s) src seen v = v # ?b" using False p(2) by (subst back_path.simps) simp
    have "is_path (carry_rel g l) src v ((src # rev ?b) @ [v])" unfolding path_snoc using ih p(3) by blast
    moreover have "v \<notin> set ?b" using ih p(4) by force
    ultimately show ?thesis unfolding b using ih p(4) less(2) by force
  qed
qed

lemma found_reached:
  assumes "bfs_inv g l src P s" "v \<in> found s"
  shows "(src, v) \<in> (carry_rel g l)\<^sup>*"
  by (rule path_reaches [OF conjunct1 [OF back_ok [OF assms, of "{||}"]]]) simp

lemma walk_depth:
  assumes inv: "bfs_inv g l src P s"
  shows "is_path (carry_rel g l) src w q \<Longrightarrow>
    w \<in> found s \<and> hop_depth s w < int (length q) \<or> (\<exists>x \<in> found s - P. hop_depth s x < int (length q))"
proof (induction q arbitrary: w rule: rev_induct)
  case (snoc v q)
  show ?case
  proof (cases "q = []")
    case True
    then show ?thesis using snoc.prems inv by (auto simp: path_snoc is_path_def bfs_inv_def)
  next
    case False
    then obtain u where u: "is_path (carry_rel g l) src u q" "(u, w) \<in> carry_rel g l" "v = w"
      using snoc.prems unfolding path_snoc by blast
    show ?thesis
    proof (cases "u \<in> P \<and> hop_depth s u < int (length q)")
      case True
      then have "w \<in> found s \<and> hop_depth s w \<le> hop_depth s u + 1" using inv u(2) unfolding bfs_inv_def by blast
      then show ?thesis using True by auto
    next
      case False
      then show ?thesis using snoc.IH [OF u(1)] by force
    qed
  qed
qed (simp add: is_path_def)

lemma popped_shortest:
  assumes inv: "bfs_inv g l src P s" and u: "u \<in> found s - P" "\<forall>v \<in> found s - P. hop_depth s u \<le> hop_depth s v"
  shows "shortest_path (carry_rel g l) src u (src # rev (back_path (sr_parent s) src {||} u))"
proof -
  have b: "is_path (carry_rel g l) src u (src # rev (back_path (sr_parent s) src {||} u))"
    "int (length (back_path (sr_parent s) src {||} u)) = hop_depth s u"
    using back_ok [OF inv, of u "{||}"] u(1) by auto
  moreover have "hop_depth s u < int (length q)" if q: "is_path (carry_rel g l) src u q" for q
    using walk_depth [OF inv q] u(2) by (meson le_less_trans)
  ultimately show ?thesis unfolding shortest_path_def by force
qed

lemma bfs_end:
  assumes inv: "bfs_inv g l src P s" and "sr_queue s = []"
  shows "{v. (src, v) \<in> (carry_rel g l)\<^sup>*} = P"
proof -
  have "mset_set (found s - P) = {#}" using assms by (simp add: bfs_inv_def)
  then have P: "found s = P" using inv by (auto simp: mset_set_empty_iff bfs_inv_def)
  have "v \<in> P" if "(src, v) \<in> (carry_rel g l)\<^sup>*" for v
    using that by (induction rule: rtrancl_induct) (use inv P in \<open>auto simp: bfs_inv_def\<close>)
  moreover have "(src, v) \<in> (carry_rel g l)\<^sup>*" if "v \<in> P" for v
    using found_reached [OF inv] that P by blast
  ultimately show ?thesis by blast
qed

subsection \<open>The loop\<close>

definition exact_finding :: "taint_graph \<Rightarrow> string \<Rightarrow> node_id \<Rightarrow> taint_finding \<Rightarrow> bool" where
  "exact_finding g l src f \<longleftrightarrow> tf_source f = src \<and> tf_labels f = [l] \<and>
     shortest_path (carry_rel g l) src (tf_sink f) (map st_node (tf_path f)) \<and>
     tf_length f = int (length (tf_path f)) \<and> \<not> tf_incomplete f \<and> tf_cap_hit f = None"

definition cap_room :: "taint_caps \<Rightarrow> int \<Rightarrow> int \<Rightarrow> bool" where
  "cap_room c n w \<longleftrightarrow> (tp_nodes c \<le> 0 \<or> n \<le> tp_nodes c) \<and> (tp_work c \<le> 0 \<or> w \<le> tp_work c) \<and> (tp_depth c \<le> 0 \<or> n \<le> tp_depth c)"

lemma room_mono: "\<lbrakk>cap_room c n w; w' \<le> w\<rbrakk> \<Longrightarrow> cap_room c n w'"
  by (auto simp: cap_room_def)

lemma room_ok: "\<lbrakk>cap_room c n w; n' \<le> n; w' \<le> w; d \<le> n\<rbrakk> \<Longrightarrow> exceeded c n' w' d = None"
  by (auto simp: cap_room_def exceeded_def)

lemma step_at_node [simp]: "st_node (step_at g s src v) = v"
  by (simp add: step_at_def Let_def split: option.split)

lemma new_finding_exact:
  assumes inv: "bfs_inv g l src P s" and u: "u \<in> found s - P" "\<forall>v \<in> found s - P. hop_depth s u \<le> hop_depth s v"
  shows "exact_finding g l src (new_taint_finding cfg g s src d (item_at l s u) sink)"
proof -
  have "map st_node (reconstruct_path g s src u) = src # rev (back_path (sr_parent s) src {||} u)"
    by (simp add: reconstruct_path_def comp_def)
  then show ?thesis using popped_shortest [OF inv u]
    by (simp add: exact_finding_def new_taint_finding_def item_at_def Let_def)
qed

definition sinks_from :: "taint_graph \<Rightarrow> string \<Rightarrow> node_id \<Rightarrow> node_id set" where
  "sinks_from g l src = {v. v |\<in>| fmdom (tg_sinks g) \<and> (src, v) \<in> (carry_rel g l)\<^sup>*}"

definition found_all :: "taint_graph \<Rightarrow> string \<Rightarrow> node_id \<Rightarrow> node_id set \<Rightarrow> taint_finding list \<Rightarrow> bool" where
  "found_all g l src P fs \<longleftrightarrow> (\<forall>f \<in> set fs. exact_finding g l src f) \<and> distinct (map tf_sink fs) \<and>
     tf_sink ` set fs = sinks_from g l src - P"

lemma loop_finds:
  assumes U: "finite U" "\<And>u v. \<lbrakk>u \<in> U; (u, v) \<in> carry_rel g l\<rbrakk> \<Longrightarrow> v \<in> U" "src \<in> U"
    and a: "ta_summaries a = noop_summaries"
  shows "\<lbrakk>bfs_inv g l src P s; cap_room (ta_caps a) (int (card U)) (pg_work pg + int (card (U - P)))\<rbrakk> \<Longrightarrow>
    \<exists>pg' fs. taint_loop (\<lambda>_. None) a g src d s pg = Some (Inr pg') \<and> pg_findings pg' = pg_findings pg @ fs \<and>
      pg_diags pg' = pg_diags pg \<and> pg_work pg' \<le> pg_work pg + int (card (U - P)) \<and> found_all g l src P fs"
proof (induction "card (U - P)" arbitrary: P s pg rule: less_induct)
  case less
  have inv: "bfs_inv g l src P s" by (rule less(2))
  have reach: "v \<in> U" if "(src, v) \<in> (carry_rel g l)\<^sup>*" for v
    using that by (induction rule: rtrancl_induct) (use U in auto)
  show ?case
  proof (cases "sr_queue s = []")
    case True
    have "found_all g l src P []" using bfs_end [OF inv True] by (auto simp: found_all_def sinks_from_def)
    then show ?thesis using True by (subst taint_loop.simps) (intro exI [of _ pg] exI [of _ "[]"], simp)
  next
    case False
    obtain item queue where pop: "pop_heap wi_key (sr_queue s) = (item, queue)" by fastforce
    obtain u where u: "u \<in> found s - P" "item = item_at l s u" "\<forall>v \<in> found s - P. hop_depth s u \<le> hop_depth s v"
      "heap_ok wi_key (length queue) queue" "mset queue = image_mset (item_at l s) (mset_set (found s - P - {u}))"
      by (rule bfs_pop [OF inv False pop])
    let ?s = "fold (visit_flow noop_summaries g (item_at l s u)) (tg_adj g u) (s\<lparr>sr_queue := queue\<rparr>)"
    have next': "bfs_inv g l src (insert u P) ?s" by (rule bfs_visit(1) [OF inv u(1,3,4,5)])
    note b = back_ok [OF inv, of u "{||}", simplified]
    have found_U: "found s \<subseteq> U" using found_reached [OF inv] reach by blast
    then have uU: "u \<in> U - P" using u(1) by auto
    then have card: "card (U - P) = Suc (card (U - insert u P))"
      using U(1) by (metis Diff_insert card_Suc_Diff1 finite_Diff)
    have count: "sr_count s \<le> int (card U)"
      using inv card_mono [OF U(1) found_U] by (simp add: bfs_inv_def labelled_def)
    have "card (set (back_path (sr_parent s) src {||} u)) \<le> card U"
      using b u(1) found_U by (intro card_mono [OF U(1)]) auto
    then have depth: "wi_depth item \<le> int (card U)" using b u(1) distinct_card by (force simp: u(2) item_at_def)
    have it: "wi_node item = u" "wi_labels item = [l]" by (simp_all add: u(2) item_at_def)
    have free: "exceeded (ta_caps a) (sr_count s) (pg_work pg + 1) (wi_depth item) = None"
      by (rule room_ok [OF less(3) count _ depth]) (simp add: card)
    define new where "new = (case fmlookup (tg_sinks g) u of
        None \<Rightarrow> [] | Some sink \<Rightarrow> [new_taint_finding (ta_config a) g s src d item sink])"
    define pg1 where "pg1 = pg\<lparr>pg_polls := pg_polls pg + 1, pg_work := pg_work pg + 1, pg_findings := pg_findings pg @ new\<rparr>"
    have step: "taint_loop (\<lambda>_. None) a g src d s pg = taint_loop (\<lambda>_. None) a g src d ?s pg1"
      using False free unfolding new_def pg1_def u(2) [symmetric]
      by (subst taint_loop.simps) (simp add: pop it a split: option.split)
    have "cap_room (ta_caps a) (int (card U)) (pg_work pg1 + int (card (U - insert u P)))"
      using less(3) by (simp add: card pg1_def ac_simps)
    then obtain pg' fs where ih: "taint_loop (\<lambda>_. None) a g src d ?s pg1 = Some (Inr pg')" "pg_findings pg' = pg_findings pg1 @ fs"
      "pg_diags pg' = pg_diags pg1" "pg_work pg' \<le> pg_work pg1 + int (card (U - insert u P))" "found_all g l src (insert u P) fs"
      using less(1) [OF _ next', of pg1] card by auto
    have here: "u \<in> sinks_from g l src \<longleftrightarrow> fmlookup (tg_sinks g) u \<noteq> None"
      using found_reached [OF inv, of u] u(1) by (auto simp: sinks_from_def fmlookup_dom_iff)
    have new: "\<forall>f \<in> set new. exact_finding g l src f \<and> tf_sink f = u" "map tf_sink new = (if u \<in> sinks_from g l src then [u] else [])"
      using new_finding_exact [OF inv u(1,3)] here
      by (auto simp: new_def u(2) new_taint_finding_def item_at_def Let_def split: option.split)
    have "u \<notin> tf_sink ` set fs" using ih(5) by (simp add: found_all_def)
    then have "distinct (map tf_sink (new @ fs))" using ih(5) new by (auto simp: found_all_def)
    moreover have "tf_sink ` set (new @ fs) = sinks_from g l src - P"
    proof -
      have "tf_sink ` set new = set (map tf_sink new)" by simp
      then have "tf_sink ` set (new @ fs) = (if u \<in> sinks_from g l src then {u} else {}) \<union> (sinks_from g l src - insert u P)"
        using ih(5) new(2) by (simp add: found_all_def image_Un)
      then show ?thesis using u(1) by auto
    qed
    ultimately have "found_all g l src P (new @ fs)" using ih(5) new(1) by (auto simp: found_all_def)
    then show ?thesis
      unfolding step using ih(1-4) card by (intro exI [of _ pg'] exI [of _ "new @ fs"]) (simp add: pg1_def)
  qed
qed

subsection \<open>All sources\<close>

definition all_found :: "taint_graph \<Rightarrow> node_id set \<Rightarrow> taint_finding list \<Rightarrow> bool" where
  "all_found g S fs \<longleftrightarrow> distinct (map (\<lambda>f. (tf_source f, tf_sink f)) fs) \<and>
     (\<forall>f \<in> set fs. \<exists>l d. fmlookup (tg_sources g) (tf_source f) = Some (l, d) \<and> exact_finding g l (tf_source f) f) \<and>
     (\<lambda>f. (tf_source f, tf_sink f)) ` set fs =
       {(s, t). s \<in> S \<and> (\<exists>l d. fmlookup (tg_sources g) s = Some (l, d) \<and> t \<in> sinks_from g l s)}"

lemma found_all_one:
  assumes "found_all g l src {} fs" "fmlookup (tg_sources g) src = Some (l, d)"
  shows "all_found g {src} fs"
proof -
  have src: "tf_source f = src" if "f \<in> set fs" for f using assms(1) that by (auto simp: found_all_def exact_finding_def)
  have "map (\<lambda>f. (tf_source f, tf_sink f)) fs = map (Pair src) (map tf_sink fs)" using src by simp
  then have "distinct (map (\<lambda>f. (tf_source f, tf_sink f)) fs)"
    using assms(1) unfolding found_all_def by (simp only: distinct_map [of "Pair src"]) (simp add: inj_on_def)
  moreover have "(\<lambda>f. (tf_source f, tf_sink f)) ` set fs = Pair src ` (tf_sink ` set fs)" using src by force
  ultimately show ?thesis using assms src by (force simp: all_found_def found_all_def)
qed

lemma all_found_append:
  assumes "all_found g S fs" "all_found g T fs'" "S \<inter> T = {}"
  shows "all_found g (S \<union> T) (fs @ fs')"
proof -
  have "(\<lambda>f. (tf_source f, tf_sink f)) ` set fs \<inter> (\<lambda>f. (tf_source f, tf_sink f)) ` set fs' = {}"
    using assms unfolding all_found_def by auto
  then have "distinct (map (\<lambda>f. (tf_source f, tf_sink f)) (fs @ fs'))" using assms by (simp add: all_found_def)
  moreover have "(\<lambda>f. (tf_source f, tf_sink f)) ` set (fs @ fs') =
      {(s, t). s \<in> S \<union> T \<and> (\<exists>l d. fmlookup (tg_sources g) s = Some (l, d) \<and> t \<in> sinks_from g l s)}"
    using assms unfolding all_found_def set_append image_Un by auto
  ultimately show ?thesis using assms by (auto simp: all_found_def)
qed

lemma sources_find:
  assumes U: "finite U" "\<And>u v l. \<lbrakk>u \<in> U; (u, v) \<in> carry_rel g l\<rbrakk> \<Longrightarrow> v \<in> U"
    and a: "ta_summaries a = noop_summaries"
  shows "\<lbrakk>set ss \<subseteq> U; set ss \<subseteq> fmdom' (tg_sources g); distinct ss;
    cap_room (ta_caps a) (int (card U)) (pg_work pg + int (length ss * card U))\<rbrakk> \<Longrightarrow>
    \<exists>pg' fs. taint_sources (\<lambda>_. None) a g ss pg = Some (Inr pg') \<and> pg_findings pg' = pg_findings pg @ fs \<and>
      pg_diags pg' = pg_diags pg \<and> all_found g (set ss) fs"
proof (induction ss arbitrary: pg)
  case Nil
  then show ?case by (auto simp: all_found_def)
next
  case (Cons s ss)
  obtain l d where ld: "fmlookup (tg_sources g) s = Some (l, d)"
    using Cons.prems(2) by (auto simp: fmlookup_dom'_iff)
  let ?pg = "pg\<lparr>pg_polls := pg_polls pg + 1\<rparr>"
  have room: "cap_room (ta_caps a) (int (card U)) (pg_work pg + int (card U) + int (length ss * card U))"
    using Cons.prems(4) by (simp add: ac_simps)
  then have "cap_room (ta_caps a) (int (card U)) (pg_work ?pg + int (card (U - {})))"
    by (rule room_mono) simp
  then have "\<exists>pg' fs. taint_loop (\<lambda>_. None) a g s d (start_run s [l]) ?pg = Some (Inr pg') \<and> pg_findings pg' = pg_findings ?pg @ fs \<and>
      pg_diags pg' = pg_diags ?pg \<and> pg_work pg' \<le> pg_work ?pg + int (card (U - {})) \<and> found_all g l s {} fs"
    using Cons.prems(1) by (intro loop_finds [OF U(1,2) _ a bfs_start]) simp_all
  then obtain pg1 fs1 where
    one: "taint_loop (\<lambda>_. None) a g s d (start_run s [l]) ?pg = Some (Inr pg1)" "pg_findings pg1 = pg_findings pg @ fs1"
      "pg_diags pg1 = pg_diags pg" "pg_work pg1 \<le> pg_work pg + int (card U)" "found_all g l s {} fs1"
    by (elim exE conjE) (rule that, simp_all)
  have "cap_room (ta_caps a) (int (card U)) (pg_work pg1 + int (length ss * card U))"
    by (rule room_mono [OF room]) (use one(4) in simp)
  then obtain pg' fs where rest: "taint_sources (\<lambda>_. None) a g ss pg1 = Some (Inr pg')" "pg_findings pg' = pg_findings pg1 @ fs"
    "pg_diags pg' = pg_diags pg1" "all_found g (set ss) fs"
    using Cons.IH [of pg1] Cons.prems by auto
  have "all_found g ({s} \<union> set ss) (fs1 @ fs)"
    using all_found_append [OF found_all_one [OF one(5) ld] rest(4)] Cons.prems(3) by simp
  moreover have "taint_sources (\<lambda>_. None) a g (s # ss) pg = Some (Inr pg')"
    using one(1) rest(1) by (simp add: ld new_label_set_def)
  ultimately show ?case using one(2,3) rest(2,3) by (intro exI [of _ pg'] exI [of _ "fs1 @ fs"]) simp
qed

subsection \<open>Deduplication\<close>

lemma best_findings_all:
  "\<lbrakk>distinct (map taint_finding_key fs); taint_finding_key ` set fs \<inter> fmdom' best = {}; keyed taint_finding_key best\<rbrakk> \<Longrightarrow>
   fmran' (best_findings fs best) = fmran' best \<union> set fs \<and> keyed taint_finding_key (best_findings fs best)"
proof (induction fs arbitrary: best)
  case (Cons f fs)
  have new: "fmlookup best (taint_finding_key f) = None" using Cons.prems(2) by (auto simp: fmlookup_dom'_iff)
  let ?b = "fmupd (taint_finding_key f) f best"
  have "fmran' (best_findings fs ?b) = fmran' ?b \<union> set fs \<and> keyed taint_finding_key (best_findings fs ?b)"
    using Cons.prems by (intro Cons.IH) (auto simp: keyed_upd)
  moreover have "fmran' ?b = insert f (fmran' best)"
    using new by (auto simp: fmran'_def ran_def fmlookup_dom_iff split: if_splits) (metis option.distinct(1))
  ultimately show ?case using new by simp
qed simp

subsection \<open>The store\<close>

text \<open>The reference: sources and sinks of a store, and the flows past the sanitizers of a label.\<close>

definition source_label :: "(string \<Rightarrow> string) \<Rightarrow> taint_config \<Rightarrow> mem_store \<Rightarrow> node_id \<Rightarrow> string \<Rightarrow> bool" where
  "source_label lower cfg m s l \<longleftrightarrow>
     (\<exists>n \<in> fmran' (nodes m). n_id n = s \<and> fst (match_source lower cfg (n_kind n) (n_qname n)) = l \<and> l \<noteq> [])"

definition sink_node :: "(string \<Rightarrow> string) \<Rightarrow> taint_config \<Rightarrow> mem_store \<Rightarrow> node_id \<Rightarrow> bool" where
  "sink_node lower cfg m t \<longleftrightarrow> (\<exists>n \<in> fmran' (nodes m). n_id n = t \<and> fst (match_sink lower cfg (n_kind n) (n_qname n)) \<noteq> [])"

definition sanitized :: "(string \<Rightarrow> string) \<Rightarrow> taint_config \<Rightarrow> mem_store \<Rightarrow> string \<Rightarrow> node_id \<Rightarrow> bool" where
  "sanitized lower cfg m l v \<longleftrightarrow>
     (\<exists>n \<in> fmran' (nodes m). \<exists>d. n_id n = v \<and> match_sanitizer lower cfg (n_qname n) = Some d \<and>
        (nd_remove d = [] \<or> l \<in> set (nd_remove d)))"

definition taint_flow :: "(string \<Rightarrow> string) \<Rightarrow> taint_config \<Rightarrow> mem_store \<Rightarrow> string \<Rightarrow> (node_id \<times> node_id) set" where
  "taint_flow lower cfg m l =
     {(e_from e, e_to e) |e. e \<in> fmran' (edges m) \<and> \<not> sanitized lower cfg m l (e_to e)}"

lemma classify_fold:
  "distinct (map n_id ns) \<Longrightarrow> (\<forall>n \<in> set ns. fmlookup acc (n_id n) = None) \<Longrightarrow>
   fmlookup (fold (\<lambda>n m. case f n of None \<Rightarrow> m | Some v \<Rightarrow> fmupd (n_id n) v m) ns acc) i = Some v \<longleftrightarrow>
     fmlookup acc i = Some v \<or> (\<exists>n \<in> set ns. n_id n = i \<and> f n = Some v)"
proof (induction ns arbitrary: acc)
  case (Cons n ns)
  let ?acc = "case f n of None \<Rightarrow> acc | Some v \<Rightarrow> fmupd (n_id n) v acc"
  have "\<forall>x \<in> set ns. fmlookup ?acc (n_id x) = None" using Cons.prems by (force split: option.split)
  note ih = Cons.IH [OF _ this]
  have "fmlookup ?acc i = Some v \<longleftrightarrow> fmlookup acc i = Some v \<or> n_id n = i \<and> f n = Some v"
    using Cons.prems(2) by (auto split: option.split)
  then show ?case using ih Cons.prems(1) by auto
qed simp

lemma classify_lookup:
  "distinct (map n_id ns) \<Longrightarrow> fmlookup (classify f ns) i = Some v \<longleftrightarrow> (\<exists>n \<in> set ns. n_id n = i \<and> f n = Some v)"
  unfolding classify_def by (subst classify_fold) auto

definition store_taint_graph :: "(string \<Rightarrow> string) \<Rightarrow> taint_config \<Rightarrow> mem_store \<Rightarrow> taint_graph" where
  "store_taint_graph lower cfg m = taint_graph_of lower cfg (map_values (nodes m)) (map_values (edges m))"

lemma store_classified:
  assumes "store_ok m"
  shows "(\<exists>d. fmlookup (tg_sources (store_taint_graph lower cfg m)) s = Some (l, d)) \<longleftrightarrow> source_label lower cfg m s l"
    and "t |\<in>| fmdom (tg_sinks (store_taint_graph lower cfg m)) \<longleftrightarrow> sink_node lower cfg m t"
    and "carry_rel (store_taint_graph lower cfg m) l = taint_flow lower cfg m l"
proof -
  have d: "distinct (map n_id (map_values (nodes m)))" by (intro distinct_map_values) (use assms in \<open>simp add: store_keys\<close>)
  note c = classify_lookup [OF d, unfolded set_map_values]
  show "(\<exists>d. fmlookup (tg_sources (store_taint_graph lower cfg m)) s = Some (l, d)) \<longleftrightarrow> source_label lower cfg m s l"
    by (auto simp: store_taint_graph_def taint_graph_of_def c source_label_def source_of_def Let_def split: if_splits)
      (metis prod.collapse)
  show "t |\<in>| fmdom (tg_sinks (store_taint_graph lower cfg m)) \<longleftrightarrow> sink_node lower cfg m t"
    by (auto simp: store_taint_graph_def taint_graph_of_def fmlookup_dom_iff c sink_node_def sink_of_def Let_def split: if_splits)
      (metis prod.collapse)
  have "carries (store_taint_graph lower cfg m) l v \<longleftrightarrow> \<not> sanitized lower cfg m l v" for v
  proof (cases "fmlookup (tg_sanitizers (store_taint_graph lower cfg m)) v")
    case None
    then have "\<not> (\<exists>n \<in> fmran' (nodes m). \<exists>d. n_id n = v \<and> match_sanitizer lower cfg (n_qname n) = Some d)"
      using c [of "\<lambda>n. match_sanitizer lower cfg (n_qname n)" v] by (force simp: store_taint_graph_def taint_graph_of_def)
    then show ?thesis using None by (auto simp: carries_def sanitized_def)
  next
    case (Some d)
    then have "fmlookup (classify (\<lambda>n. match_sanitizer lower cfg (n_qname n)) (map_values (nodes m))) v = Some d"
      by (simp add: store_taint_graph_def taint_graph_of_def)
    then have iff: "(\<exists>n \<in> fmran' (nodes m). n_id n = v \<and> match_sanitizer lower cfg (n_qname n) = Some d') \<longleftrightarrow> d' = d" for d'
      unfolding c [of "\<lambda>n. match_sanitizer lower cfg (n_qname n)" v, symmetric] by auto
    have "sanitized lower cfg m l v \<longleftrightarrow> (\<exists>d'. (\<exists>n \<in> fmran' (nodes m). n_id n = v \<and> match_sanitizer lower cfg (n_qname n) = Some d') \<and>
        (nd_remove d' = [] \<or> l \<in> set (nd_remove d')))"
      unfolding sanitized_def by blast
    then have "sanitized lower cfg m l v \<longleftrightarrow> nd_remove d = [] \<or> l \<in> set (nd_remove d)" unfolding iff by simp
    then show ?thesis using Some by (simp add: carries_def)
  qed
  then show "carry_rel (store_taint_graph lower cfg m) l = taint_flow lower cfg m l"
    by (auto simp: carry_rel_def taint_flow_def store_taint_graph_def taint_graph_of_def taint_adj_def set_map_values)
qed

text \<open>A run no cap cuts: enough room for every node, and for every source to visit every node.\<close>

definition taint_room :: "taint_caps \<Rightarrow> mem_store \<Rightarrow> bool" where
  "taint_room c m \<longleftrightarrow> cap_room c (int (card (n_id ` fmran' (nodes m)))) (int (card (n_id ` fmran' (nodes m)) * card (n_id ` fmran' (nodes m))))"

lemma adj_stored:
  assumes "store_ok m" "(u, v) \<in> carry_rel (store_taint_graph lower cfg m) l"
  shows "v \<in> n_id ` fmran' (nodes m)"
proof -
  obtain e k where "fmlookup (edges m) k = Some e" "e_to e = v"
    using assms(2) by (auto simp: store_classified(3) [OF assms(1)] taint_flow_def elim: fmran'E)
  then have "v |\<in>| fmdom (nodes m)" using assms(1) unfolding store_ok_def endpoints_stored_def by blast
  moreover have "keyed n_id (nodes m)" using assms(1) by (simp add: store_keys)
  ultimately show ?thesis unfolding fmlookup_dom_iff by (metis fmran'I imageI keyedD)
qed

text \<open>What the propagation over the sources of a store leaves.\<close>

lemma store_sources_find:
  assumes "store_ok m" "taint_room (ta_caps a) m" "ta_summaries a = noop_summaries"
    and "mset ss = mset (sorted_list_of_fset (fmdom (tg_sources (store_taint_graph lower cfg m))))"
  shows "\<exists>pg fs. taint_sources (\<lambda>_. None) a (store_taint_graph lower cfg m) ss
      \<lparr>pg_findings = [], pg_diags = [], pg_work = 0, pg_polls = 0\<rparr> = Some (Inr pg) \<and> pg_findings pg = fs \<and> pg_diags pg = [] \<and>
    all_found (store_taint_graph lower cfg m) (fset (fmdom (tg_sources (store_taint_graph lower cfg m)))) fs"
proof -
  let ?g = "store_taint_graph lower cfg m" and ?U = "n_id ` fmran' (nodes m)"
  have ss: "set ss = fset (fmdom (tg_sources ?g))" "distinct ss"
    using assms(4) by (metis set_mset_mset sorted_list_of_fset_simps(1), metis mset_eq_imp_distinct_iff distinct_sorted_list_of_set sorted_list_of_fset.rep_eq)
  have fin: "finite ?U" using set_map_values [of "nodes m"] by (metis List.finite_set finite_imageI)
  have sub: "set ss \<subseteq> ?U"
    unfolding ss(1) using store_classified(1) [OF assms(1), where lower = lower and cfg = cfg] by (auto simp: fmlookup_dom_iff source_label_def)
  then have "length ss \<le> card ?U" using fin ss(2) by (metis card_mono distinct_card)
  then have "cap_room (ta_caps a) (int (card ?U)) (0 + int (length ss * card ?U))"
    using assms(2) unfolding taint_room_def by (elim room_mono) (simp only: add_0 of_nat_le_iff mult_le_mono1)
  then show ?thesis
    using sources_find [OF fin adj_stored [OF assms(1)] assms(3) sub _ ss(2),
        where pg = "\<lparr>pg_findings = [], pg_diags = [], pg_work = 0, pg_polls = 0\<rparr>"]
    by (auto simp: ss(1) fmdom'_alt_def)
qed

lemma keyed_sources: "all_found g S fs \<Longrightarrow> distinct (map taint_finding_key fs)"
proof -
  assume "all_found g S fs"
  then have "distinct (map (\<lambda>f. (tf_source f, tf_sink f)) fs)" by (simp add: all_found_def)
  then have "distinct (map (\<lambda>k. (fst k, fst (snd k))) (map taint_finding_key fs))" by (simp add: taint_finding_key_def comp_def)
  then show ?thesis unfolding distinct_map [of _ "map taint_finding_key fs"] by blast
qed

lemma dedup_all:
  assumes "all_found g S fs"
  shows "set (sort_taint_findings (dedup_findings fs)) = set fs" and "distinct (map taint_finding_key (sort_taint_findings (dedup_findings fs)))"
proof -
  have b: "fmran' (best_findings fs fmempty) = set fs" "keyed taint_finding_key (best_findings fs fmempty)"
    using best_findings_all [OF keyed_sources [OF assms], of fmempty] by (simp_all add: fmran'_def)
  show "set (sort_taint_findings (dedup_findings fs)) = set fs"
    by (simp add: sort_taint_findings_def dedup_findings_def set_map_values b(1))
  have "distinct (map taint_finding_key (map_values (best_findings fs fmempty)))" by (rule distinct_map_values [OF b(2)])
  then show "distinct (map taint_finding_key (sort_taint_findings (dedup_findings fs)))"
    unfolding sort_taint_findings_def dedup_findings_def by (simp add: distinct_map)
qed

text \<open>
  C10: Without summaries, and when the caps leave room for the graph, the taint analyzer reports
  exactly the true flows, whatever order Go's map iteration visits the sources in.  There is one finding
  for each pair of a source and a sink it reaches along stored edges without entering a sanitizer of its
  label, and no other finding; its labels are the source's label, its path is a shortest such path, and it is
  not marked incomplete.  No diagnostic is raised and the candidates are counted.
\<close>

theorem taint_exact:
  assumes "store_ok m" "\<not> closed m" "taint_room c m" "\<And>xs. mset (order xs) = mset xs"
  shows "\<exists>r. taint_run lower order (\<lambda>_. None) (new_taint_analyzer cfg c None) (mem_reader lower None m) = Some (Inr r) \<and>
    tr_diags r = [] \<and> distinct (map (\<lambda>f. (tf_source f, tf_sink f)) (tr_findings r)) \<and>
    (\<lambda>f. (tf_source f, tf_sink f)) ` set (tr_findings r) =
      {(s, t). sink_node lower cfg m t \<and> (\<exists>l. source_label lower cfg m s l \<and> (s, t) \<in> (taint_flow lower cfg m l)\<^sup>*)} \<and>
    (\<forall>f \<in> set (tr_findings r). \<exists>l. source_label lower cfg m (tf_source f) l \<and> tf_labels f = [l] \<and> \<not> tf_incomplete f \<and>
       shortest_path (taint_flow lower cfg m l) (tf_source f) (tf_sink f) (map st_node (tf_path f)))"
proof -
  let ?g = "store_taint_graph lower cfg m" and ?a = "new_taint_analyzer cfg c None"
  let ?r = "mem_reader lower None m"
  have k: "keyed n_id (nodes m)" "keyed e_id (edges m)" using assms(1) by (simp_all add: store_keys)
  have reads: "rp_nodes ?r any_query = Inr (map_values (nodes m))" "rp_edges ?r any_query = Inr (map_values (edges m))"
    using mem_nodes_any [OF assms(2) k(1)] mem_edges_any [OF assms(2) k(2)] by (simp_all add: mem_reader_def)
  have a: "ta_caps ?a = c" "ta_config ?a = cfg" "ta_summaries ?a = noop_summaries" by (simp_all add: new_taint_analyzer_def)
  note spec = store_classified [OF assms(1), where lower = lower and cfg = cfg]
  show ?thesis
  proof (cases "fmdom (tg_sources ?g) = {||} \<or> fmdom (tg_sinks ?g) = {||}")
    case True
    then have "taint_run lower order (\<lambda>_. None) ?a ?r = Some (Inr (taint_result_of cfg ?g [] []))"
      by (simp add: taint_run_def reads a store_taint_graph_def Let_def)
    moreover have "\<not> (sink_node lower cfg m t \<and> source_label lower cfg m s l)" for s t l
      using True spec(1) [of s l] spec(2) [of t] by (auto simp: fmlookup_dom_iff [symmetric] dest: fmdomI)
    ultimately show ?thesis by (auto simp: taint_result_of_def)
  next
    case False
    obtain pg fs where pg: "taint_sources (\<lambda>_. None) ?a ?g (order (sorted_list_of_fset (fmdom (tg_sources ?g))))
        \<lparr>pg_findings = [], pg_diags = [], pg_work = 0, pg_polls = 0\<rparr> = Some (Inr pg)" "pg_findings pg = fs" "pg_diags pg = []"
      "all_found ?g (fset (fmdom (tg_sources ?g))) fs"
      using store_sources_find [OF assms(1) _ a(3) assms(4)] assms(3) a(1) by metis
    let ?fs = "sort_taint_findings (dedup_findings fs)"
    have run: "taint_run lower order (\<lambda>_. None) ?a ?r = Some (Inr (taint_result_of cfg ?g ?fs []))"
      using False pg(1,2,3) by (simp add: taint_run_def reads a store_taint_graph_def Let_def)
    have pairs: "(\<lambda>f. (tf_source f, tf_sink f)) ` set fs =
        {(s, t). sink_node lower cfg m t \<and> (\<exists>l. source_label lower cfg m s l \<and> (s, t) \<in> (taint_flow lower cfg m l)\<^sup>*)}"
    proof -
      have ex: "(\<exists>l d. fmlookup (tg_sources ?g) s = Some (l, d) \<and> Q l) \<longleftrightarrow> (\<exists>l. source_label lower cfg m s l \<and> Q l)" for s Q
        unfolding spec(1) [symmetric] by blast
      have iff: "(\<exists>l d. fmlookup (tg_sources ?g) s = Some (l, d) \<and> t \<in> sinks_from ?g l s) \<longleftrightarrow>
          sink_node lower cfg m t \<and> (\<exists>l. source_label lower cfg m s l \<and> (s, t) \<in> (taint_flow lower cfg m l)\<^sup>*)" for s t
        unfolding ex [of s "\<lambda>l. t \<in> sinks_from ?g l s"] unfolding sinks_from_def mem_Collect_eq spec(2,3) by blast
      have dom: "s \<in> fset (fmdom (tg_sources ?g))" if "source_label lower cfg m s l" for s l
        using that unfolding spec(1) [symmetric] by (blast intro: fmdomI)
      have "(\<lambda>f. (tf_source f, tf_sink f)) ` set fs = {(s, t). s \<in> fset (fmdom (tg_sources ?g)) \<and>
          (\<exists>l d. fmlookup (tg_sources ?g) s = Some (l, d) \<and> t \<in> sinks_from ?g l s)}"
        using pg(4) unfolding all_found_def by (elim conjE)
      then show ?thesis unfolding iff using dom by blast
    qed
    have each: "\<exists>l. source_label lower cfg m (tf_source f) l \<and> tf_labels f = [l] \<and> \<not> tf_incomplete f \<and>
        shortest_path (taint_flow lower cfg m l) (tf_source f) (tf_sink f) (map st_node (tf_path f))" if "f \<in> set fs" for f
      using pg(4) that unfolding all_found_def exact_finding_def spec(3) using spec(1) by blast
    have "distinct (map (\<lambda>f. (tf_source f, tf_sink f)) ?fs)"
    proof -
      have "inj_on (\<lambda>f. (tf_source f, tf_sink f)) (set fs)" "distinct ?fs"
        using pg(4) dedup_all(2) [OF pg(4)] by (auto simp: all_found_def distinct_map)
      then show ?thesis by (simp add: distinct_map dedup_all(1) [OF pg(4)])
    qed
    then show ?thesis unfolding run using pairs each dedup_all(1) [OF pg(4)]
      by (intro exI [of _ "taint_result_of cfg ?g ?fs []"]) (simp add: taint_result_of_def)
  qed
qed

definition letter_config :: "string list \<Rightarrow> string list \<Rightarrow> taint_config" where
  "letter_config froms tos =
     \<lparr>tc_version = ''1'', tc_sources = [\<lparr>sd_id = ''from'', sd_label = ''in'', sd_kinds = [], sd_names = froms, sd_pack = None\<rparr>],
      tc_sinks = [\<lparr>kd_id = ''to'', kd_category = ''out'', kd_kinds = [], kd_names = tos, kd_pack = None\<rparr>],
      tc_sanitizers = [], tc_hash = [], tc_packs = []\<rparr>"

lemma letter_spec:
  "fst (match_source id (letter_config froms tos) k q) = (if \<exists>p \<in> set froms. contains_str q p then ''in'' else [])"
  "fst (match_sink id (letter_config froms tos) k q) = (if \<exists>p \<in> set tos. contains_str q p then ''to'' else [])"
  "\<not> sanitized id (letter_config froms tos) m l v"
  by (simp_all add: letter_config_def match_source_def match_sink_def match_def_def sanitized_def match_sanitizer_def)

lemma letters: "contains_str ''f'' ''f''" "contains_str ''g'' ''g''"
  by code_simp+

definition no_caps :: taint_caps where "no_caps = \<lparr>tp_nodes = 0, tp_work = 0, tp_depth = 0\<rparr>"

theorem taint_exact_witness:
  "\<exists>r. taint_run id id (\<lambda>_. None) (new_taint_analyzer (letter_config [''f''] [''g'']) no_caps None)
       (mem_reader id None (small_store (Finite 1))) = Some (Inr r) \<and>
     (n_id (fn_node ''f''), n_id (fn_node ''g'')) \<in> (\<lambda>f. (tf_source f, tf_sink f)) ` set (tr_findings r)"
proof -
  let ?m = "small_store (Finite 1)" and ?cfg = "letter_config [''f''] [''g'']"
  have ran: "fmran' (nodes ?m) = {fn_node ''f'', fn_node ''g''}" by (metis set_map_values small_values(2))
  have "source_label id ?cfg ?m (n_id (fn_node ''f'')) ''in''"
    unfolding source_label_def ran by (intro bexI [of _ "fn_node ''f''"]) (simp_all add: letter_spec fn_qname letters)
  moreover have "sink_node id ?cfg ?m (n_id (fn_node ''g''))"
    unfolding sink_node_def ran by (intro bexI [of _ "fn_node ''g''"]) (simp_all add: letter_spec fn_qname letters)
  moreover have "(n_id (fn_node ''f''), n_id (fn_node ''g'')) \<in> (taint_flow id ?cfg ?m ''in'')\<^sup>*"
    unfolding taint_flow_def small_ran using letter_spec(3)
    by (intro r_into_rtrancl) (auto simp: call_edge_def)
  moreover have "taint_room no_caps ?m" by (simp add: taint_room_def cap_room_def no_caps_def)
  ultimately show ?thesis
    using taint_exact [OF small_store_ok small_store_maps(3), where c = no_caps and order = id and lower = id and cfg = ?cfg] by fastforce
qed

subsection \<open>An exhausted work cap\<close>

abbreviation pair_of :: "taint_finding \<Rightarrow> node_id \<times> node_id" where
  "pair_of f \<equiv> (tf_source f, tf_sink f)"

text \<open>Once the work cap is used up, no source finds anything.\<close>

lemma exhausted_loop:
  assumes "0 < tp_work (ta_caps a)" "tp_work (ta_caps a) \<le> pg_work pg"
  shows "\<exists>pg'. taint_loop (\<lambda>_. None) a g src d s pg = Some (Inr pg') \<and>
    map pair_of (pg_findings pg') = map pair_of (pg_findings pg) \<and> pg_work pg \<le> pg_work pg'"
proof (cases "sr_queue s = []")
  case False
  obtain item queue where pop: "pop_heap wi_key (sr_queue s) = (item, queue)" by fastforce
  have "exceeded (ta_caps a) (sr_count s) (pg_work pg + 1) (wi_depth item) \<noteq> None"
    using assms by (auto simp: exceeded_def)
  then obtain hit where "exceeded (ta_caps a) (sr_count s) (pg_work pg + 1) (wi_depth item) = Some hit" by blast
  moreover have "pair_of (mark_incomplete src hit f) = pair_of f" for hit f by (simp add: mark_incomplete_def)
  ultimately show ?thesis using False by (subst taint_loop.simps) (simp add: pop comp_def)
qed (subst taint_loop.simps, simp)

lemma exhausted_sources:
  "\<lbrakk>0 < tp_work (ta_caps a); tp_work (ta_caps a) \<le> pg_work pg\<rbrakk> \<Longrightarrow>
   \<exists>pg'. taint_sources (\<lambda>_. None) a g ss pg = Some (Inr pg') \<and> map pair_of (pg_findings pg') = map pair_of (pg_findings pg)"
proof (induction ss arbitrary: pg)
  case (Cons s ss)
  obtain l d where ld: "the (fmlookup (tg_sources g) s) = (l, d)" by fastforce
  obtain pg1 where one: "taint_loop (\<lambda>_. None) a g s d (start_run s (new_label_set [l])) (pg\<lparr>pg_polls := pg_polls pg + 1\<rparr>) = Some (Inr pg1)"
    "map pair_of (pg_findings pg1) = map pair_of (pg_findings pg)" "pg_work pg \<le> pg_work pg1"
    using exhausted_loop [OF Cons.prems(1), of "pg\<lparr>pg_polls := pg_polls pg + 1\<rparr>"] Cons.prems(2) by fastforce
  then obtain pg' where "taint_sources (\<lambda>_. None) a g ss pg1 = Some (Inr pg')"
    "map pair_of (pg_findings pg') = map pair_of (pg_findings pg1)"
    using Cons.IH [OF Cons.prems(1), of pg1] Cons.prems(2) by auto
  then show ?case using one by (simp add: ld)
qed simp

lemma pop_single: "pop_heap f [x] = (x, [])"
  by (simp add: pop_heap_def swap_at_def sift_down.simps)

lemma single_source:
  assumes "tp_work (ta_caps a) = 1" "tp_nodes (ta_caps a) \<le> 0 \<or> 1 \<le> tp_nodes (ta_caps a)"
    and "fmlookup (tg_sources g) s = Some (l, d)" "s |\<in>| fmdom (tg_sinks g)" "pg_work pg = 0" "pg_findings pg = []"
  shows "\<exists>pg'. taint_sources (\<lambda>_. None) a g (s # ss) pg = Some (Inr pg') \<and> map pair_of (pg_findings pg') = [(s, s)]"
proof -
  let ?r = "start_run s [l]" and ?i = "\<lparr>wi_node = s, wi_labels = [l], wi_depth = 0\<rparr>"
  obtain sink where sink: "fmlookup (tg_sinks g) s = Some sink" using assms(4) by (auto simp: fmlookup_dom_iff)
  let ?f = "new_taint_finding (ta_config a) g ?r s d ?i sink"
  let ?pg = "pg\<lparr>pg_polls := pg_polls pg + 1\<rparr>"
  let ?pg1 = "?pg\<lparr>pg_polls := pg_polls ?pg + 1, pg_work := 1, pg_findings := [?f]\<rparr>"
  let ?s = "fold (visit_flow (ta_summaries a) g ?i) (tg_adj g s) (?r\<lparr>sr_queue := []\<rparr>)"
  have q: "sr_queue ?r = [?i]" "sr_count ?r = 1" by (simp_all add: start_run_def push_heap_def sift_up.simps)
  have "exceeded (ta_caps a) 1 1 0 = None" using assms(1,2) by (auto simp: exceeded_def)
  then have step: "taint_loop (\<lambda>_. None) a g s d ?r ?pg = taint_loop (\<lambda>_. None) a g s d ?s ?pg1"
    using assms(5,6) by (subst taint_loop.simps) (simp add: q pop_single sink)
  obtain pg1 where one: "taint_loop (\<lambda>_. None) a g s d ?s ?pg1 = Some (Inr pg1)"
    "map pair_of (pg_findings pg1) = map pair_of (pg_findings ?pg1)" "pg_work ?pg1 \<le> pg_work pg1"
    using exhausted_loop [of a ?pg1] assms(1) by fastforce
  obtain pg' where "taint_sources (\<lambda>_. None) a g ss pg1 = Some (Inr pg')" "map pair_of (pg_findings pg') = map pair_of (pg_findings pg1)"
    using exhausted_sources [of a pg1] assms(1) one(3) by fastforce
  moreover have "pair_of ?f = (s, s)" by (simp add: new_taint_finding_def Let_def)
  moreover have "new_label_set [l] = [l]" by (simp add: new_label_set_def)
  ultimately show ?thesis using one step assms(3) by (simp del: fold.simps)
qed

text \<open>
  C13: Under a work cap of one visit the report depends on the order of Go's map iteration: of all the nodes
  that are a source and a sink, the analyzer reports the one whose source the iteration happens to visit
  first, and nothing else.
\<close>

theorem capped_run_depends_on_order:
  assumes "store_ok m" "\<not> closed m" "source_label lower cfg m s l" "sink_node lower cfg m s"
    and "tp_work c = 1" "tp_nodes c \<le> 0 \<or> 1 \<le> tp_nodes c" "\<And>xs. s \<in> set xs \<Longrightarrow> order xs = s # remove1 s xs"
  shows "\<exists>r. taint_run lower order (\<lambda>_. None) (new_taint_analyzer cfg c None) (mem_reader lower None m) = Some (Inr r) \<and>
    map (\<lambda>f. (tf_source f, tf_sink f)) (tr_findings r) = [(s, s)]"
proof -
  let ?g = "store_taint_graph lower cfg m" and ?a = "new_taint_analyzer cfg c None" and ?r = "mem_reader lower None m"
  let ?pg = "\<lparr>pg_findings = [], pg_diags = [], pg_work = 0, pg_polls = 0\<rparr>"
  let ?ids = "sorted_list_of_fset (fmdom (tg_sources ?g))"
  have k: "keyed n_id (nodes m)" "keyed e_id (edges m)" using assms(1) by (simp_all add: store_keys)
  have reads: "rp_nodes ?r any_query = Inr (map_values (nodes m))" "rp_edges ?r any_query = Inr (map_values (edges m))"
    using mem_nodes_any [OF assms(2) k(1)] mem_edges_any [OF assms(2) k(2)] by (simp_all add: mem_reader_def)
  have a: "ta_caps ?a = c" "ta_config ?a = cfg" by (simp_all add: new_taint_analyzer_def)
  obtain d where d: "fmlookup (tg_sources ?g) s = Some (l, d)"
    using assms(3) store_classified(1) [OF assms(1), where lower = lower and cfg = cfg] by blast
  have sink: "s |\<in>| fmdom (tg_sinks ?g)" using assms(4) store_classified(2) [OF assms(1), where lower = lower and cfg = cfg] by blast
  have "s \<in> set ?ids" using fmdomI [OF d] by simp
  then have order: "order ?ids = s # remove1 s ?ids" by (rule assms(7))
  obtain pg where pg: "taint_sources (\<lambda>_. None) ?a ?g (order ?ids) ?pg = Some (Inr pg)" "map pair_of (pg_findings pg) = [(s, s)]"
    using single_source [of ?a ?g s l d ?pg "remove1 s ?ids"] assms(5,6) d sink unfolding order by (auto simp: a)
  then obtain f where f: "pg_findings pg = [f]" "tf_source f = s" "tf_sink f = s" by auto
  have one: "map_values (fmupd i f fmempty) = [f]" for i :: "node_id \<times> node_id \<times> string"
    by (simp add: map_values_def sorted_list_of_fset.rep_eq)
  have "sort_taint_findings (dedup_findings (pg_findings pg)) = [f]"
    by (simp add: f(1) sort_taint_findings_def dedup_findings_def one)
  moreover have "fmdom (tg_sources ?g) \<noteq> {||}" "fmdom (tg_sinks ?g) \<noteq> {||}" using fmdomI [OF d] sink by auto
  ultimately have "taint_run lower order (\<lambda>_. None) ?a ?r = Some (Inr (taint_result_of cfg ?g [f] (pg_diags pg)))"
    using pg(1) by (simp add: taint_run_def reads a store_taint_graph_def Let_def)
  then show ?thesis using f(2,3) by (simp add: taint_result_of_def)
qed

definition first_of :: "node_id \<Rightarrow> node_id list \<Rightarrow> node_id list" where
  "first_of s xs = (if s \<in> set xs then s # remove1 s xs else xs)"

theorem capped_run_depends_on_order_witness:
  "\<exists>r r'. taint_run id (first_of (n_id (fn_node ''f''))) (\<lambda>_. None)
       (new_taint_analyzer (letter_config [''f'', ''g''] [''f'', ''g'']) (no_caps\<lparr>tp_work := 1\<rparr>) None)
       (mem_reader id None (small_store (Finite 1))) = Some (Inr r) \<and>
     taint_run id (first_of (n_id (fn_node ''g''))) (\<lambda>_. None)
       (new_taint_analyzer (letter_config [''f'', ''g''] [''f'', ''g'']) (no_caps\<lparr>tp_work := 1\<rparr>) None)
       (mem_reader id None (small_store (Finite 1))) = Some (Inr r') \<and> r \<noteq> r'"
proof -
  let ?m = "small_store (Finite 1)" and ?cfg = "letter_config [''f'', ''g''] [''f'', ''g'']" and ?c = "no_caps\<lparr>tp_work := 1\<rparr>"
  have ran: "fmran' (nodes ?m) = {fn_node ''f'', fn_node ''g''}" by (metis set_map_values small_values(2))
  have "source_label id ?cfg ?m (n_id (fn_node q)) ''in''" "sink_node id ?cfg ?m (n_id (fn_node q))" if "q = ''f'' \<or> q = ''g''" for q
    unfolding source_label_def sink_node_def ran
    using that by (auto intro!: bexI [of _ "fn_node q"] simp: letter_spec fn_qname letters)
  then have run: "\<exists>r. taint_run id (first_of (n_id (fn_node q))) (\<lambda>_. None) (new_taint_analyzer ?cfg ?c None) (mem_reader id None ?m) = Some (Inr r) \<and>
      map pair_of (tr_findings r) = [(n_id (fn_node q), n_id (fn_node q))]" if "q = ''f'' \<or> q = ''g''" for q
    using that by (intro capped_run_depends_on_order [OF small_store_ok small_store_maps(3)]) (auto simp: no_caps_def first_of_def)
  obtain r where r: "taint_run id (first_of (n_id (fn_node ''f''))) (\<lambda>_. None) (new_taint_analyzer ?cfg ?c None) (mem_reader id None ?m) = Some (Inr r)"
    "map pair_of (tr_findings r) = [(n_id (fn_node ''f''), n_id (fn_node ''f''))]"
    using run [OF disjI1 [OF refl]] by (elim exE conjE)
  obtain r' where r': "taint_run id (first_of (n_id (fn_node ''g''))) (\<lambda>_. None) (new_taint_analyzer ?cfg ?c None) (mem_reader id None ?m) = Some (Inr r')"
    "map pair_of (tr_findings r') = [(n_id (fn_node ''g''), n_id (fn_node ''g''))]"
    using run [OF disjI2 [OF refl]] by (elim exE conjE)
  have "r \<noteq> r'" using r(2) r'(2) fn_ids by (metis list.inject prod.inject)
  then show ?thesis using r(1) r'(1) by blast
qed

end
