(* ===== verification/TaintLoad.thy ===== *)
theory TaintLoad
  imports TaintProps
begin

text \<open>
  Loading the taint configuration, \<open>engine/analysis/taint/load.go\<close>: the project's definitions over the built-in ones, the
  rule packs on top, and the content hash.  \<open>json\<close> stands for \<open>encoding/json\<close>; the project file is given as
  what reading and decoding it returns, the packs as what the pack loader returns.
\<close>

subsection \<open>The content hash\<close>

text \<open>FNV-1a over 64 bits.\<close>

definition fnv64a :: "string \<Rightarrow> 64 word" where
  "fnv64a s = fold (\<lambda>c h. (h XOR of_nat (of_char c)) * 1099511628211) s 14695981039346656037"

text \<open>\<open>computeConfigHash\<close> sorts the definitions by identity, in the slices its caller holds.\<close>

definition sort_config :: "taint_config \<Rightarrow> taint_config" where
  "sort_config c =
     c\<lparr>tc_sources := sort_key sd_id (tc_sources c), tc_sinks := sort_key kd_id (tc_sinks c),
       tc_sanitizers := sort_key nd_id (tc_sanitizers c)\<rparr>"

definition compute_config_hash :: "(taint_config \<Rightarrow> string option) \<Rightarrow> taint_config \<Rightarrow> string" where
  "compute_config_hash json c =
     (case json (sort_config (c\<lparr>tc_hash := []\<rparr>)) of None \<Rightarrow> [] | Some b \<Rightarrow> format_id (fnv64a b))"

text \<open>\<open>c.ContentHash = computeConfigHash(c)\<close>, with its effect on the slices.\<close>

definition stamp_config :: "(taint_config \<Rightarrow> string option) \<Rightarrow> taint_config \<Rightarrow> taint_config" where
  "stamp_config json c = (sort_config c)\<lparr>tc_hash := compute_config_hash json c\<rparr>"

subsection \<open>The project's definitions\<close>

datatype load_error =
  ReadConfig string | ParseConfig string | PacksDeclared | SourcePack string | SinkPack string | SanitizerPack string
| InvalidMerged config_error | PacksUnloadable string | RefusedOverride string | InvalidPacked config_error

fun index_defs :: "('d \<Rightarrow> string) \<Rightarrow> nat \<Rightarrow> 'd list \<Rightarrow> (string, nat) fmap \<Rightarrow> (string, nat) fmap" where
  "index_defs ident k [] idx = idx"
| "index_defs ident k (d # ds) idx = index_defs ident (Suc k) ds (fmupd (ident d) k idx)"

fun overlay_defs :: "('d \<Rightarrow> string) \<Rightarrow> 'd list \<Rightarrow> (string, nat) fmap \<Rightarrow> 'd list \<Rightarrow> 'd list" where
  "overlay_defs ident out idx [] = out"
| "overlay_defs ident out idx (d # ds) =
     (case fmlookup idx (ident d) of
        Some i \<Rightarrow> overlay_defs ident (out[i := d]) idx ds
      | None \<Rightarrow> overlay_defs ident (out @ [d]) (fmupd (ident d) (length out) idx) ds)"

definition merge_defs :: "('d \<Rightarrow> string) \<Rightarrow> 'd list \<Rightarrow> 'd list \<Rightarrow> 'd list" where
  "merge_defs ident base overlay = overlay_defs ident base (index_defs ident 0 base fmempty) overlay"

definition merge_sources :: "source_def list \<Rightarrow> source_def list \<Rightarrow> source_def list" where
  "merge_sources = merge_defs sd_id"
definition merge_sinks :: "sink_def list \<Rightarrow> sink_def list \<Rightarrow> sink_def list" where
  "merge_sinks = merge_defs kd_id"
definition merge_sanitizers :: "sanitizer_def list \<Rightarrow> sanitizer_def list \<Rightarrow> sanitizer_def list" where
  "merge_sanitizers = merge_defs nd_id"

definition merge_config :: "taint_config \<Rightarrow> taint_config \<Rightarrow> taint_config" where
  "merge_config base overlay =
     \<lparr>tc_version = (if tc_version overlay \<noteq> [] then tc_version overlay else tc_version base),
      tc_sources = merge_sources (tc_sources base) (tc_sources overlay),
      tc_sinks = merge_sinks (tc_sinks base) (tc_sinks overlay),
      tc_sanitizers = merge_sanitizers (tc_sanitizers base) (tc_sanitizers overlay), tc_hash = [], tc_packs = []\<rparr>"

text \<open>A project file may not claim a pack; the decoding is an argument.\<close>

definition declared_pack :: "taint_config \<Rightarrow> load_error option" where
  "declared_pack c =
     (if tc_packs c \<noteq> [] then Some PacksDeclared
      else case find (\<lambda>d. sd_pack d \<noteq> None) (tc_sources c) of
             Some d \<Rightarrow> Some (SourcePack (sd_id d))
           | None \<Rightarrow>
               (case find (\<lambda>d. kd_pack d \<noteq> None) (tc_sinks c) of
                  Some d \<Rightarrow> Some (SinkPack (kd_id d))
                | None \<Rightarrow>
                    (case find (\<lambda>d. nd_pack d \<noteq> None) (tc_sanitizers c) of
                       Some d \<Rightarrow> Some (SanitizerPack (nd_id d))
                     | None \<Rightarrow> None)))"

definition merge_project_config ::
  "(taint_config \<Rightarrow> string option) \<Rightarrow> taint_config \<Rightarrow> string + taint_config \<Rightarrow> load_error + taint_config" where
  "merge_project_config json base decoded =
     (case decoded of
        Inl err \<Rightarrow> Inl (ParseConfig err)
      | Inr overlay \<Rightarrow>
          (case declared_pack overlay of
             Some err \<Rightarrow> Inl err
           | None \<Rightarrow>
               (let merged = merge_config base overlay in
                case validate_config merged of
                  Some err \<Rightarrow> Inl (InvalidMerged err)
                | None \<Rightarrow> Inr (stamp_config json merged))))"

subsection \<open>Rule packs\<close>

record pack_set =
  ps_sources :: "(source_def \<times> pack_ref) list"
  ps_sinks :: "(sink_def \<times> pack_ref) list"
  ps_sanitizers :: "(sanitizer_def \<times> pack_ref) list"
  ps_refs :: "pack_ref list"

text \<open>Claiming identities, one after the other; the first that is owned is refused.\<close>

fun claim_ids :: "string list \<Rightarrow> string fset \<Rightarrow> string option" where
  "claim_ids [] owned = None"
| "claim_ids (i # is) owned = (if i |\<in>| owned then Some i else claim_ids is (finsert i owned))"

definition config_ids :: "taint_config \<Rightarrow> string list" where
  "config_ids c = map sd_id (tc_sources c) @ map kd_id (tc_sinks c) @ map nd_id (tc_sanitizers c)"

definition pack_ids :: "pack_set \<Rightarrow> string list" where
  "pack_ids s = map (sd_id \<circ> fst) (ps_sources s) @ map (kd_id \<circ> fst) (ps_sinks s) @ map (nd_id \<circ> fst) (ps_sanitizers s)"

definition add_pack_defs :: "pack_set \<Rightarrow> taint_config \<Rightarrow> taint_config" where
  "add_pack_defs s c =
     c\<lparr>tc_sources := tc_sources c @ map (\<lambda>(d, r). d\<lparr>sd_pack := Some r\<rparr>) (ps_sources s),
       tc_sinks := tc_sinks c @ map (\<lambda>(d, r). d\<lparr>kd_pack := Some r\<rparr>) (ps_sinks s),
       tc_sanitizers := tc_sanitizers c @ map (\<lambda>(d, r). d\<lparr>nd_pack := Some r\<rparr>) (ps_sanitizers s),
       tc_packs := ps_refs s\<rparr>"

definition apply_packs ::
  "(taint_config \<Rightarrow> string option) \<Rightarrow> string + pack_set \<Rightarrow> taint_config \<Rightarrow> load_error + taint_config" where
  "apply_packs json packs c =
     (case packs of
        Inl err \<Rightarrow> Inl (PacksUnloadable err)
      | Inr s \<Rightarrow>
          if pack_ids s = [] then Inr c
          else case claim_ids (pack_ids s) (fset_of_list (config_ids c)) of
                 Some i \<Rightarrow> Inl (RefusedOverride i)
               | None \<Rightarrow>
                   (let out = add_pack_defs s c in
                    case validate_config out of
                      Some err \<Rightarrow> Inl (InvalidPacked err)
                    | None \<Rightarrow> Inr (stamp_config json out)))"

text \<open>The project file: a read error, absent, or present with what decoding it gives.\<close>

type_synonym project_file = "string + (string + taint_config) option"

definition load_taint_config ::
  "(taint_config \<Rightarrow> string option) \<Rightarrow> project_file \<Rightarrow> string + pack_set \<Rightarrow> load_error + taint_config" where
  "load_taint_config json file packs =
     (case file of
        Inl err \<Rightarrow> Inl (ReadConfig err)
      | Inr None \<Rightarrow> apply_packs json packs default_taint_config
      | Inr (Some decoded) \<Rightarrow>
          (case merge_project_config json default_taint_config decoded of
             Inl err \<Rightarrow> Inl err
           | Inr c \<Rightarrow> apply_packs json packs c))"

definition config_fingerprint ::
  "(taint_config \<Rightarrow> string option) \<Rightarrow> project_file \<Rightarrow> string + pack_set \<Rightarrow> string" where
  "config_fingerprint json file packs =
     (case file of
        Inl err \<Rightarrow> ''unreadable''
      | Inr f \<Rightarrow>
          (case (case f of None \<Rightarrow> Inr default_taint_config | Some decoded \<Rightarrow> merge_project_config json default_taint_config decoded) of
             Inl err \<Rightarrow> ''invalid''
           | Inr c \<Rightarrow> (case apply_packs json packs c of Inl err \<Rightarrow> ''invalid'' | Inr c' \<Rightarrow> tc_hash c')))"

subsection \<open>Merging by identity\<close>

definition lookup_def :: "('d \<Rightarrow> string) \<Rightarrow> string \<Rightarrow> 'd list \<Rightarrow> 'd option" where
  "lookup_def ident i ds = find (\<lambda>d. ident d = i) ds"

lemma lookup_simps [simp]:
  "lookup_def ident i [] = None"
  "lookup_def ident i (d # ds) = (if ident d = i then Some d else lookup_def ident i ds)"
  "lookup_def ident i (xs @ ys) = (case lookup_def ident i xs of Some d \<Rightarrow> Some d | None \<Rightarrow> lookup_def ident i ys)"
  unfolding lookup_def_def by simp_all (induction xs, simp_all)

lemma lookup_iff: "distinct (map ident ds) \<Longrightarrow> lookup_def ident i ds = Some d \<longleftrightarrow> d \<in> set ds \<and> ident d = i"
  by (induction ds) (auto simp: rev_image_eqI)

lemma lookup_update:
  "\<lbrakk>distinct (map ident ds); k < length ds; ident d = ident (ds ! k)\<rbrakk> \<Longrightarrow>
   lookup_def ident i (ds[k := d]) = (if ident d = i then Some d else lookup_def ident i ds)"
proof (induction ds arbitrary: k)
  case (Cons x ds)
  show ?case
  proof (cases k)
    case (Suc j)
    then have "ident d \<in> ident ` set ds" using Cons.prems by (metis Suc_less_eq imageI length_Cons nth_Cons_Suc nth_mem)
    then have "ident d \<noteq> ident x" using Cons.prems by auto
    then show ?thesis using Cons Suc by auto
  qed (use Cons.prems in auto)
qed simp

definition indexed_defs :: "('d \<Rightarrow> string) \<Rightarrow> 'd list \<Rightarrow> (string, nat) fmap \<Rightarrow> bool" where
  "indexed_defs ident ds idx \<longleftrightarrow> distinct (map ident ds) \<and>
     (\<forall>i k. fmlookup idx i = Some k \<longleftrightarrow> k < length ds \<and> ident (ds ! k) = i)"

lemma index_defs_lookup:
  "\<lbrakk>distinct (map ident ds); \<forall>d \<in> set ds. fmlookup idx (ident d) = None\<rbrakk> \<Longrightarrow>
   fmlookup (index_defs ident n ds idx) i = Some k \<longleftrightarrow>
     fmlookup idx i = Some k \<or> n \<le> k \<and> k < n + length ds \<and> ident (ds ! (k - n)) = i"
proof (induction ds arbitrary: n idx)
  case (Cons d ds)
  have "\<forall>x \<in> set ds. fmlookup (fmupd (ident d) n idx) (ident x) = None" using Cons.prems by auto
  note ih = Cons.IH [OF _ this, of "Suc n"]
  show ?case using ih Cons.prems by (cases "k = n") (auto simp: nth_Cons' Suc_diff_le)
qed auto

lemma index_ok: "distinct (map ident ds) \<Longrightarrow> indexed_defs ident ds (index_defs ident 0 ds fmempty)"
  by (simp add: indexed_defs_def index_defs_lookup)

lemma overlay_step:
  assumes "indexed_defs ident out idx"
  shows "fmlookup idx (ident d) = Some k \<Longrightarrow> indexed_defs ident (out[k := d]) idx"
    and "fmlookup idx (ident d) = None \<Longrightarrow> indexed_defs ident (out @ [d]) (fmupd (ident d) (length out) idx)"
proof -
  assume "fmlookup idx (ident d) = Some k"
  then have k: "k < length out" "ident (out ! k) = ident d" using assms by (auto simp: indexed_defs_def)
  then have "map ident (out[k := d]) = map ident out" by (metis length_map list_update_id map_update nth_map)
  moreover have "ident (out[k := d] ! j) = ident (out ! j)" if "j < length out" for j
    using k that by (cases "j = k") simp_all
  ultimately show "indexed_defs ident (out[k := d]) idx" using assms by (auto simp: indexed_defs_def)
next
  assume "fmlookup idx (ident d) = None"
  then have new: "\<forall>j < length out. ident (out ! j) \<noteq> ident d" using assms unfolding indexed_defs_def by (metis option.distinct(1))
  then have "ident d \<notin> ident ` set out" by (metis (no_types, lifting) imageE in_set_conv_nth)
  moreover have "fmlookup (fmupd (ident d) (length out) idx) i = Some k \<longleftrightarrow>
      k < length (out @ [d]) \<and> ident ((out @ [d]) ! k) = i" for i k
    using assms new unfolding indexed_defs_def by (auto simp: nth_append less_Suc_eq)
  ultimately show "indexed_defs ident (out @ [d]) (fmupd (ident d) (length out) idx)"
    using assms by (auto simp: indexed_defs_def)
qed

lemma overlay_merges:
  "indexed_defs ident out idx \<Longrightarrow>
   distinct (map ident (overlay_defs ident out idx ds)) \<and>
   take (length out) (map ident (overlay_defs ident out idx ds)) = map ident out \<and>
   length out \<le> length (overlay_defs ident out idx ds) \<and>
   lookup_def ident i (overlay_defs ident out idx ds) =
     (case lookup_def ident i (rev ds) of Some d \<Rightarrow> Some d | None \<Rightarrow> lookup_def ident i out)"
proof (induction ds arbitrary: out idx)
  case Nil
  then show ?case by (simp add: indexed_defs_def)
next
  case (Cons d ds)
  show ?case
  proof (cases "fmlookup idx (ident d)")
    case None
    let ?r = "overlay_defs ident (out @ [d]) (fmupd (ident d) (length out) idx) ds"
    note ih = Cons.IH [OF overlay_step(2) [OF Cons.prems None]]
    have "take (length out) (map ident ?r) = take (length out) (take (length (out @ [d])) (map ident ?r))" by simp
    also have "\<dots> = map ident out" using ih by simp
    finally have "take (length out) (map ident ?r) = map ident out" .
    moreover have "lookup_def ident (ident d) out = None"
    proof (rule ccontr)
      assume "lookup_def ident (ident d) out \<noteq> None"
      then obtain x where "x \<in> set out" "ident x = ident d"
        using lookup_iff [of ident out "ident d"] Cons.prems by (auto simp: indexed_defs_def)
      then show False using Cons.prems None unfolding indexed_defs_def in_set_conv_nth by (metis option.distinct(1))
    qed
    ultimately show ?thesis using ih None by (auto split: option.split)
  next
    case (Some k)
    have k: "k < length out" "ident d = ident (out ! k)" "distinct (map ident out)"
      using Some Cons.prems by (auto simp: indexed_defs_def)
    have "map ident (out[k := d]) = map ident out" using k by (metis length_map list_update_id map_update nth_map)
    then show ?thesis using Cons.IH [OF overlay_step(1) [OF Cons.prems Some]] Some lookup_update [OF k(3,1,2)]
      by (auto split: option.split)
  qed
qed

text \<open>
  Merging definitions by identity: the identities stay distinct, the base's come first and in their order,
  and each identity resolves to the last overlay definition that has it, or else to the base's own.
\<close>

theorem merge_by_identity:
  assumes "distinct (map ident base)"
  shows "distinct (map ident (merge_defs ident base overlay)) \<and>
    take (length base) (map ident (merge_defs ident base overlay)) = map ident base \<and>
    (\<forall>i. lookup_def ident i (merge_defs ident base overlay) =
       (case lookup_def ident i (rev overlay) of Some d \<Rightarrow> Some d | None \<Rightarrow> lookup_def ident i base))"
  using overlay_merges [OF index_ok [OF assms]] by (simp add: merge_defs_def)

theorem merge_by_identity_witness:
  "lookup_def sd_id ''env_var'' (merge_defs sd_id (tc_sources default_taint_config)
     [\<lparr>sd_id = ''env_var'', sd_label = ''x'', sd_kinds = [], sd_names = [], sd_pack = None\<rparr>]) =
   Some \<lparr>sd_id = ''env_var'', sd_label = ''x'', sd_kinds = [], sd_names = [], sd_pack = None\<rparr>"
proof -
  have "distinct (map sd_id (tc_sources default_taint_config))" by code_simp
  from merge_by_identity [OF this, of "[\<lparr>sd_id = ''env_var'', sd_label = ''x'', sd_kinds = [], sd_names = [], sd_pack = None\<rparr>]"]
  show ?thesis by simp
qed

subsection \<open>Packs\<close>

lemma claim_ids_free: "claim_ids is owned = None \<longleftrightarrow> distinct is \<and> set is \<inter> fset owned = {}"
  by (induction "is" arbitrary: owned) auto

lemma validate_sources_ids:
  "validate_sources ss ids = Inr ids' \<Longrightarrow> distinct (map sd_id ss) \<and> sd_id ` set ss \<inter> fset ids = {} \<and> fset ids' = fset ids \<union> sd_id ` set ss"
  by (induction ss arbitrary: ids) (auto split: if_splits)

lemma validate_named_ids:
  "validate_named e is ids = Inr ids' \<Longrightarrow> distinct is \<and> set is \<inter> fset ids = {} \<and> fset ids' = fset ids \<union> set is"
  by (induction "is" arbitrary: ids) (auto split: if_splits)

lemma valid_distinct:
  assumes "validate_config c = None"
  shows "distinct (config_ids c)"
proof -
  obtain i1 i2 i3 where "validate_sources (tc_sources c) {||} = Inr i1" "validate_named SinkIdEmpty (map kd_id (tc_sinks c)) i1 = Inr i2"
    "validate_named SanitizerIdEmpty (map nd_id (tc_sanitizers c)) i2 = Inr i3"
    using assms by (auto simp: validate_config_def split: if_splits sum.splits)
  from validate_sources_ids [OF this(1)] validate_named_ids [OF this(2)] validate_named_ids [OF this(3)]
  show ?thesis by (auto simp: config_ids_def)
qed

lemma stamp_same:
  "set (tc_sources (stamp_config json c)) = set (tc_sources c)" "set (tc_sinks (stamp_config json c)) = set (tc_sinks c)"
  "set (tc_sanitizers (stamp_config json c)) = set (tc_sanitizers c)" "mset (config_ids (stamp_config json c)) = mset (config_ids c)"
  "tc_packs (stamp_config json c) = tc_packs c"
  by (simp_all add: stamp_config_def sort_config_def config_ids_def)

text \<open>
  C12: Rule packs only add.  When applying the packs succeeds, every source, sink and sanitizer of the configuration
  is still there unchanged; each added one carries its pack's provenance and an identity the configuration did
  not have; all identities are distinct; and without pack definitions the configuration is returned as it was.
\<close>

theorem packs_only_add:
  assumes "apply_packs json (Inr s) c = Inr c'"
  shows "set (tc_sources c) \<subseteq> set (tc_sources c') \<and> set (tc_sinks c) \<subseteq> set (tc_sinks c') \<and>
    set (tc_sanitizers c) \<subseteq> set (tc_sanitizers c') \<and> (pack_ids s = [] \<longrightarrow> c' = c) \<and>
    (pack_ids s \<noteq> [] \<longrightarrow> distinct (config_ids c') \<and> tc_packs c' = ps_refs s) \<and>
    (\<forall>d \<in> set (tc_sources c') - set (tc_sources c). sd_pack d \<noteq> None \<and> sd_id d \<notin> set (config_ids c)) \<and>
    (\<forall>d \<in> set (tc_sinks c') - set (tc_sinks c). kd_pack d \<noteq> None \<and> kd_id d \<notin> set (config_ids c)) \<and>
    (\<forall>d \<in> set (tc_sanitizers c') - set (tc_sanitizers c). nd_pack d \<noteq> None \<and> nd_id d \<notin> set (config_ids c))"
proof (cases "pack_ids s = []")
  case True
  then have "c' = c" using assms by (simp add: apply_packs_def)
  then show ?thesis using True by simp
next
  case False
  let ?out = "add_pack_defs s c"
  have claims: "claim_ids (pack_ids s) (fset_of_list (config_ids c)) = None" and valid: "validate_config ?out = None"
    and c': "c' = stamp_config json ?out"
    using assms False by (auto simp: apply_packs_def Let_def split: option.splits)
  have free: "set (pack_ids s) \<inter> set (config_ids c) = {}"
    using claims by (simp add: claim_ids_free fset_of_list.rep_eq)
  have dist: "distinct (config_ids c')"
    using valid_distinct [OF valid] stamp_same(4) [of json ?out] unfolding c' by (metis mset_eq_imp_distinct_iff)
  note sets = stamp_same [of json ?out, folded c']
  have "sd_pack d \<noteq> None \<and> sd_id d \<notin> set (config_ids c)" if "d \<in> set (tc_sources c') - set (tc_sources c)" for d
    using that free unfolding sets by (force simp: add_pack_defs_def pack_ids_def)
  moreover have "kd_pack d \<noteq> None \<and> kd_id d \<notin> set (config_ids c)" if "d \<in> set (tc_sinks c') - set (tc_sinks c)" for d
    using that free unfolding sets by (force simp: add_pack_defs_def pack_ids_def)
  moreover have "nd_pack d \<noteq> None \<and> nd_id d \<notin> set (config_ids c)" if "d \<in> set (tc_sanitizers c') - set (tc_sanitizers c)" for d
    using that free unfolding sets by (force simp: add_pack_defs_def pack_ids_def)
  moreover have "tc_packs c' = ps_refs s" unfolding sets by (simp add: add_pack_defs_def)
  moreover have "set (tc_sources c) \<subseteq> set (tc_sources c')" "set (tc_sinks c) \<subseteq> set (tc_sinks c')"
    "set (tc_sanitizers c) \<subseteq> set (tc_sanitizers c')"
    unfolding sets by (simp_all add: add_pack_defs_def)
  ultimately show ?thesis using False dist by blast
qed

definition one_pack :: pack_set where
  "one_pack = \<lparr>ps_sources = [(\<lparr>sd_id = ''mine'', sd_label = ''x'', sd_kinds = [], sd_names = [''m''], sd_pack = None\<rparr>,
       \<lparr>pk_id = ''p'', pk_version = ''1'', pk_sha256 = ''00''\<rparr>)], ps_sinks = [], ps_sanitizers = [],
     ps_refs = [\<lparr>pk_id = ''p'', pk_version = ''1'', pk_sha256 = ''00''\<rparr>]\<rparr>"

theorem packs_only_add_witness:
  "\<exists>c'. apply_packs (\<lambda>_. None) (Inr one_pack) default_taint_config = Inr c' \<and>
     set (tc_sources default_taint_config) \<subseteq> set (tc_sources c') \<and> distinct (config_ids c')"
proof -
  have "pack_ids one_pack = [''mine'']" by (simp add: pack_ids_def one_pack_def)
  moreover have "claim_ids [''mine''] (fset_of_list (config_ids default_taint_config)) = None"
    unfolding claim_ids_free fset_of_list.rep_eq by code_simp
  moreover have "validate_config (add_pack_defs one_pack default_taint_config) = None" by code_simp
  ultimately have "apply_packs (\<lambda>_. None) (Inr one_pack) default_taint_config =
      Inr (stamp_config (\<lambda>_. None) (add_pack_defs one_pack default_taint_config))" by (simp add: apply_packs_def)
  moreover from packs_only_add [OF this] have "set (tc_sources default_taint_config) \<subseteq>
      set (tc_sources (stamp_config (\<lambda>_. None) (add_pack_defs one_pack default_taint_config)))" by blast
  moreover from packs_only_add [OF calculation(1)] \<open>pack_ids one_pack = [''mine'']\<close>
  have "distinct (config_ids (stamp_config (\<lambda>_. None) (add_pack_defs one_pack default_taint_config)))" by (metis list.distinct(1))
  ultimately show ?thesis by blast
qed

subsection \<open>Hashing reorders\<close>

definition empty_overlay :: taint_config where
  "empty_overlay = \<lparr>tc_version = [], tc_sources = [], tc_sinks = [], tc_sanitizers = [], tc_hash = [], tc_packs = []\<rparr>"

definition no_packs :: pack_set where
  "no_packs = \<lparr>ps_sources = [], ps_sinks = [], ps_sanitizers = [], ps_refs = []\<rparr>"

definition ascii_lower :: "string \<Rightarrow> string" where
  "ascii_lower s = map (\<lambda>c. if 65 \<le> (of_char c :: nat) \<and> (of_char c :: nat) \<le> 90 then char_of ((of_char c :: nat) + 32) else c) s"

definition source_matches :: "(string \<Rightarrow> string) \<Rightarrow> string \<Rightarrow> string \<Rightarrow> source_def \<Rightarrow> bool" where
  "source_matches lower k q d \<longleftrightarrow> match_def lower (lower k) (lower q) (sd_kinds d) (sd_names d)"

definition sink_matches :: "(string \<Rightarrow> string) \<Rightarrow> string \<Rightarrow> string \<Rightarrow> sink_def \<Rightarrow> bool" where
  "sink_matches lower k q d \<longleftrightarrow> match_def lower (lower k) (lower q) (kd_kinds d) (kd_names d)"

definition sanitizer_matches :: "(string \<Rightarrow> string) \<Rightarrow> string \<Rightarrow> sanitizer_def \<Rightarrow> bool" where
  "sanitizer_matches lower q d \<longleftrightarrow> (\<exists>p \<in> set (nd_names d). contains_str (lower q) (lower p))"

lemma match_finds:
  "match_source lower c k q =
     (case find (source_matches lower k q) (tc_sources c) of None \<Rightarrow> ([], []) | Some d \<Rightarrow> (sd_label d, sd_id d))"
  "match_sink lower c k q =
     (case find (sink_matches lower k q) (tc_sinks c) of None \<Rightarrow> ([], []) | Some d \<Rightarrow> (kd_id d, kd_category d))"
  "match_sanitizer lower c q = find (sanitizer_matches lower q) (tc_sanitizers c)"
  by (simp_all add: match_source_def match_sink_def match_sanitizer_def source_matches_def [abs_def]
      sink_matches_def [abs_def] sanitizer_matches_def [abs_def])

lemma find_sorted_least:
  "sorted (map f xs) \<Longrightarrow> find P xs = Some d \<Longrightarrow> t \<in> set xs \<Longrightarrow> P t \<Longrightarrow> f d \<le> (f t :: 'k :: linorder)"
  by (induction xs) (auto split: if_splits)

text \<open>The first match of a sorted list and of another list of the same definitions.\<close>

lemma first_of_sorted:
  fixes f :: "'d \<Rightarrow> 'k :: linorder"
  assumes srt: "sorted (map f xs)" and inj: "inj_on f (set xs)" and same: "set ys = set xs"
  shows "find P ys = None \<longleftrightarrow> find P xs = None"
    and "find P ys = Some d \<Longrightarrow>
      \<exists>e. find P xs = Some e \<and> (f e = f d \<longleftrightarrow> e = d) \<and> (f e \<noteq> f d \<longleftrightarrow> (\<exists>t \<in> set ys. P t \<and> f t < f d))"
proof -
  show none: "find P ys = None \<longleftrightarrow> find P xs = None" by (simp add: find_None_iff same)
  assume ys: "find P ys = Some d"
  then have d: "d \<in> set xs" "P d" unfolding same [symmetric] by (auto simp: find_Some_iff)
  obtain e where e: "find P xs = Some e" using ys none by fastforce
  then have "e \<in> set xs" "P e" by (auto simp: find_Some_iff)
  moreover have least: "f e \<le> f t" if "t \<in> set xs" "P t" for t
    by (rule find_sorted_least [OF srt e that])
  ultimately have "f e = f d \<longleftrightarrow> e = d" using inj_onD [OF inj, of e d] d by blast
  moreover have "f e \<noteq> f d \<longleftrightarrow> (\<exists>t \<in> set ys. P t \<and> f t < f d)"
  proof
    assume "f e \<noteq> f d"
    then have "f e < f d" using least [OF d] by simp
    then show "\<exists>t \<in> set ys. P t \<and> f t < f d" using \<open>e \<in> set xs\<close> \<open>P e\<close> unfolding same by blast
  next
    assume "\<exists>t \<in> set ys. P t \<and> f t < f d"
    then obtain t where "t \<in> set xs" "P t" "f t < f d" unfolding same by blast
    then show "f e \<noteq> f d" using least [of t] by auto
  qed
  ultimately have "f e = f d \<longleftrightarrow> e = d" "f e \<noteq> f d \<longleftrightarrow> (\<exists>t \<in> set ys. P t \<and> f t < f d)" .
  then show "\<exists>e. find P xs = Some e \<and> (f e = f d \<longleftrightarrow> e = d) \<and> (f e \<noteq> f d \<longleftrightarrow> (\<exists>t \<in> set ys. P t \<and> f t < f d))"
    using e by blast
qed

lemma find_differs:
  fixes f :: "'d \<Rightarrow> 'k :: linorder"
  assumes "sorted (map f xs)" "inj_on f (set xs)" "set ys = set xs"
  shows "find P xs \<noteq> find P ys \<longleftrightarrow> (\<exists>d t. find P ys = Some d \<and> t \<in> set ys \<and> P t \<and> f t < f d)"
  using first_of_sorted [OF assms, of P] by (cases "find P ys") auto

lemma picked_differs:
  fixes f :: "'d \<Rightarrow> 'k :: linorder"
  assumes "sorted (map f xs)" "inj_on f (set xs)" "set ys = set xs" and pick: "\<And>d. f d = k (g d)"
  shows "(case find P xs of None \<Rightarrow> z | Some d \<Rightarrow> g d) \<noteq> (case find P ys of None \<Rightarrow> z | Some d \<Rightarrow> g d) \<longleftrightarrow>
    (\<exists>t \<in> set ys. P t \<and> f t < k (case find P ys of None \<Rightarrow> z | Some d \<Rightarrow> g d))"
proof (cases "find P ys")
  case None
  then have "\<not> (\<exists>t \<in> set ys. P t)" by (simp add: find_None_iff)
  then show ?thesis using None first_of_sorted(1) [OF assms(1-3), of P] by auto
next
  case (Some d)
  then obtain e where e: "find P xs = Some e" "f e = f d \<longleftrightarrow> e = d" "f e \<noteq> f d \<longleftrightarrow> (\<exists>t \<in> set ys. P t \<and> f t < f d)"
    using first_of_sorted(2) [OF assms(1-3) Some] by blast
  have "g e = g d \<longleftrightarrow> e = d" using e(2) pick by metis
  then show ?thesis using e Some by (simp add: pick [symmetric])
qed

text \<open>The definitions in the order they are written down: built in, of the project, of the packs.\<close>

definition listed_config :: "taint_config option \<Rightarrow> pack_set \<Rightarrow> taint_config" where
  "listed_config overlay s =
     add_pack_defs s (case overlay of
        None \<Rightarrow> default_taint_config
      | Some ov \<Rightarrow> merge_config default_taint_config ov)"

lemma stamp_sorted:
  "sorted (map sd_id (tc_sources (stamp_config json c)))" "sorted (map kd_id (tc_sinks (stamp_config json c)))"
  "sorted (map nd_id (tc_sanitizers (stamp_config json c)))"
  by (simp_all add: stamp_config_def sort_config_def)

lemma add_pack_sets:
  "set (tc_sources (add_pack_defs s c)) = set (tc_sources c) \<union> (\<lambda>(d, r). d\<lparr>sd_pack := Some r\<rparr>) ` set (ps_sources s)"
  "set (tc_sinks (add_pack_defs s c)) = set (tc_sinks c) \<union> (\<lambda>(d, r). d\<lparr>kd_pack := Some r\<rparr>) ` set (ps_sinks s)"
  "set (tc_sanitizers (add_pack_defs s c)) = set (tc_sanitizers c) \<union> (\<lambda>(d, r). d\<lparr>nd_pack := Some r\<rparr>) ` set (ps_sanitizers s)"
  by (simp_all add: add_pack_defs_def)

lemma loaded_config:
  assumes "load_taint_config json (Inr (map_option Inr overlay)) (Inr s) = Inr c" "overlay \<noteq> None \<or> pack_ids s \<noteq> []"
  obtains out where "c = stamp_config json out" "validate_config out = None"
    "set (tc_sources out) = set (tc_sources (listed_config overlay s))"
    "set (tc_sinks out) = set (tc_sinks (listed_config overlay s))"
    "set (tc_sanitizers out) = set (tc_sanitizers (listed_config overlay s))"
proof -
  let ?base = "case overlay of None \<Rightarrow> default_taint_config | Some ov \<Rightarrow> merge_config default_taint_config ov"
  obtain c1 where c1: "apply_packs json (Inr s) c1 = Inr c"
    and merged: "overlay = None \<and> c1 = default_taint_config \<or>
      (c1 = stamp_config json ?base \<and> validate_config ?base = None)"
    using assms(1)
    by (cases overlay)
      (auto simp: load_taint_config_def merge_project_config_def Let_def split: sum.splits option.splits)
  have base: "set (tc_sources c1) = set (tc_sources ?base)" "set (tc_sinks c1) = set (tc_sinks ?base)"
    "set (tc_sanitizers c1) = set (tc_sanitizers ?base)"
    using merged by (auto simp: stamp_same)
  show thesis
  proof (cases "pack_ids s = []")
    case True
    then have "ps_sources s = []" "ps_sinks s = []" "ps_sanitizers s = []" by (simp_all add: pack_ids_def)
    moreover have "c = c1" using c1 True by (simp add: apply_packs_def)
    ultimately show thesis
      using that [of ?base] merged assms(2) True
      by (auto simp: listed_config_def add_pack_sets)
  next
    case False
    then have "c = stamp_config json (add_pack_defs s c1)" "validate_config (add_pack_defs s c1) = None"
      using c1 by (auto simp: apply_packs_def Let_def split: option.splits)
    then show thesis
      by (rule that) (simp_all add: listed_config_def add_pack_sets base)
  qed
qed

text \<open>
  C11: Computing the content hash reorders the definitions it hashes, and the first match wins.  As soon as a
  project file or a pack contributes, the loaded configuration holds the listed definitions, but of
  several matching ones the least identity decides instead of the first in the list: a source, sink or sanitizer is
  matched differently from the listed order exactly when some later match has the smaller identity.
\<close>

theorem loading_reorders_definitions:
  assumes "load_taint_config json (Inr (map_option Inr overlay)) (Inr s) = Inr c" "overlay \<noteq> None \<or> pack_ids s \<noteq> []"
    and "listed = listed_config overlay s"
  shows "(set (tc_sources c) = set (tc_sources listed) \<and> set (tc_sinks c) = set (tc_sinks listed) \<and>
      set (tc_sanitizers c) = set (tc_sanitizers listed)) \<and>
    (match_source lower c k q \<noteq> match_source lower listed k q \<longleftrightarrow>
      (\<exists>t \<in> set (tc_sources listed). source_matches lower k q t \<and> sd_id t < snd (match_source lower listed k q))) \<and>
    (match_sink lower c k q \<noteq> match_sink lower listed k q \<longleftrightarrow>
      (\<exists>t \<in> set (tc_sinks listed). sink_matches lower k q t \<and> kd_id t < fst (match_sink lower listed k q))) \<and>
    (match_sanitizer lower c q \<noteq> match_sanitizer lower listed q \<longleftrightarrow>
      (\<exists>d t. match_sanitizer lower listed q = Some d \<and> t \<in> set (tc_sanitizers listed) \<and>
         sanitizer_matches lower q t \<and> nd_id t < nd_id d))"
proof -
  obtain out where c: "c = stamp_config json out" and valid: "validate_config out = None"
    and sets: "set (tc_sources out) = set (tc_sources listed)" "set (tc_sinks out) = set (tc_sinks listed)"
      "set (tc_sanitizers out) = set (tc_sanitizers listed)"
    using loaded_config [OF assms(1,2)] unfolding assms(3) by metis
  have dist: "distinct (config_ids out)" by (rule valid_distinct [OF valid])
  have cs: "set (tc_sources listed) = set (tc_sources c)" "set (tc_sinks listed) = set (tc_sinks c)"
    "set (tc_sanitizers listed) = set (tc_sanitizers c)"
    by (simp_all add: c stamp_same sets)
  have inj: "inj_on sd_id (set (tc_sources c))" "inj_on kd_id (set (tc_sinks c))" "inj_on nd_id (set (tc_sanitizers c))"
    using dist by (simp_all add: c stamp_same config_ids_def distinct_map)
  note srt = stamp_sorted [of json out, folded c]
  have "match_source lower c k q \<noteq> match_source lower listed k q \<longleftrightarrow>
      (\<exists>t \<in> set (tc_sources listed). source_matches lower k q t \<and> sd_id t < snd (match_source lower listed k q))"
    unfolding match_finds(1) by (rule picked_differs [OF srt(1) inj(1) cs(1)]) simp
  moreover have "match_sink lower c k q \<noteq> match_sink lower listed k q \<longleftrightarrow>
      (\<exists>t \<in> set (tc_sinks listed). sink_matches lower k q t \<and> kd_id t < fst (match_sink lower listed k q))"
    unfolding match_finds(2) by (rule picked_differs [OF srt(2) inj(2) cs(2)]) simp
  moreover have "match_sanitizer lower c q \<noteq> match_sanitizer lower listed q \<longleftrightarrow>
      (\<exists>d t. match_sanitizer lower listed q = Some d \<and> t \<in> set (tc_sanitizers listed) \<and>
         sanitizer_matches lower q t \<and> nd_id t < nd_id d)"
    unfolding match_finds(3) by (rule find_differs [OF srt(3) inj(3) cs(3)])
  ultimately show ?thesis by (simp add: cs)
qed

theorem loading_reorders_definitions_witness:
  "\<exists>c. load_taint_config (\<lambda>_. None) (Inr (Some (Inr empty_overlay))) (Inr no_packs) = Inr c \<and>
     match_source ascii_lower c ''call'' ''os.Getenv(r.FormValue)'' \<noteq> (''user_input'', ''request_form'') \<and>
     match_source ascii_lower default_taint_config ''call'' ''os.Getenv(r.FormValue)'' = (''user_input'', ''request_form'')"
proof -
  let ?d = default_taint_config and ?q = "''os.Getenv(r.FormValue)''"
  have m: "merge_config ?d empty_overlay = ?d"
    by (simp add: merge_config_def empty_overlay_def merge_sources_def merge_sinks_def merge_sanitizers_def merge_defs_def)
      (simp add: default_taint_config_def)
  have "validate_config ?d = None" by code_simp
  then have merged: "merge_project_config json ?d (Inr empty_overlay) = Inr (stamp_config json ?d)" for json
    unfolding merge_project_config_def sum.case Let_def m
    by (simp only: option.case) (simp add: declared_pack_def empty_overlay_def)
  have none: "apply_packs json (Inr no_packs) c = Inr c" for json c by (simp add: apply_packs_def pack_ids_def no_packs_def)
  have l: "listed_config (Some empty_overlay) no_packs = ?d"
    by (simp add: listed_config_def m add_pack_defs_def no_packs_def) (simp add: default_taint_config_def)
  have load: "load_taint_config (\<lambda>_. None) (Inr (map_option Inr (Some empty_overlay))) (Inr no_packs) =
      Inr (stamp_config (\<lambda>_. None) ?d)"
    by (simp add: load_taint_config_def merged none)
  have listed: "match_source ascii_lower ?d ''call'' ?q = (''user_input'', ''request_form'')" by code_simp
  have "list_ex (\<lambda>t. source_matches ascii_lower ''call'' ?q t \<and> sd_id t < ''request_form'') (tc_sources ?d)" by code_simp
  then have "match_source ascii_lower (stamp_config (\<lambda>_. None) ?d) ''call'' ?q \<noteq> match_source ascii_lower ?d ''call'' ?q"
    using loading_reorders_definitions [OF load _ refl, of ascii_lower "''call''" ?q]
    unfolding l listed by (auto simp: list_ex_iff)
  then show ?thesis using load listed by auto
qed

end
