(* ===== verification/Spec2Isabelle.thy ===== *)
theory Spec2Isabelle
  imports Recovery EditSaga InterprocProps Pdg TaintLoad
begin

text \<open>
  A verification development of graphi, a code-intelligence engine written in Go.

  \<^bold>\<open>The program.\<close>  graphi parses a repository into a graph of nodes (symbols, files, packages,
  external boundaries) and edges (calls, references, definitions, imports), keeps it in a graph
  store with a metadata sidecar, and answers structural queries over it.  A full pass rebuilds the
  graph, an incremental pass follows edits, both leave markers and generations in the two stores,
  and a trust layer tells a reader whether what it sees is verified, fresh and clean: snapshot
  facts with a digest, evidence rows per file and package, policies that turn them into a verdict.
  Over the same graph run the analyzers (impact, call chains, concepts, summaries, program
  dependences, taint), and an editor renames symbols in the sources and re-indexes them.

  \<^bold>\<open>Theories and code.\<close>
  \<^item> \<open>Prelude\<close>: strings, \<open>strings.TrimSpace\<close>, strictly sorted lists, the lemma collections.
  \<^item> \<open>Model\<close>, \<open>Wire\<close>: \<open>core/model\<close>.  \<open>node\<close> and \<open>edge\<close> are the structs of \<open>node.go\<close> and
    \<open>edge.go\<close>; \<open>new_node\<close>, \<open>new_edge\<close>, \<open>derive_id\<close> and \<open>normalize_path\<close> are the constructors
    and \<open>id.go\<close>; \<open>marshal\<close> and \<open>unmarshal\<close> are \<open>serialize.go\<close> over the documents that
    \<open>encoding/json\<close> prints and reads, with what the text does to their values: \<open>json_string\<close>
    puts U+FFFD for bytes that are not UTF-8, and \<open>json_encode\<close> refuses a float that is not finite.
  \<^item> \<open>Treap\<close>, \<open>Index\<close>, \<open>MemStore\<close>, \<open>MemReads\<close>, \<open>Snapshot\<close>, \<open>Aggregates\<close>:
    \<open>core/graphstore\<close>.  \<open>mem_store\<close> is \<open>MemStore\<close> of \<open>memory.go\<close> with its catalogs and eight
    indexes, two of them treaps (\<open>kind_tree.go\<close>, \<open>edge_id_tree.go\<close>); each method is one function,
    because the mutex makes it one step.  The selective and bounded reads are \<open>memory_lookup.go\<close>,
    the snapshot envelope is \<open>snapshot.go\<close>, the one-pass aggregates are \<open>brief_aggregate.go\<close>,
    \<open>trust_aggregate.go\<close> and \<open>degree_sample.go\<close>.
  \<^item> \<open>Query\<close>, \<open>Neighborhood\<close>, \<open>QueryProps\<close>: \<open>engine/query\<close>, the ten structural operations,
    their dispatch, canonical order and serializer, over the selective read port.
  \<^item> \<open>TrustFacts\<close>, \<open>TrustModel\<close>, \<open>TrustPolicy\<close>, \<open>TrustScope\<close>: \<open>engine/trust\<close>, the facts and
    the state derivation with its verifying reader, the closed registries, every policy rule, the
    scope resolver and the capability matrix.
  \<^item> \<open>Evidence\<close>: the signals of a pass, their fold into rows and the sidecar tables
    (\<open>engine/ingest/trust_evidence.go\<close>, \<open>trust_fold.go\<close>).
  \<^item> \<open>TrustReport\<close>: the trust report and the abstention block of \<open>surfaces/client\<close>.
  \<^item> \<open>WarmStart\<close>, \<open>Recovery\<close>: the two passes of \<open>engine/ingest\<close> as programs of durable writes
    (\<open>prog\<close>), the markers and stamps of \<open>warmstart.go\<close>, the publication of the trust snapshot
    (\<open>trust_persist.go\<close>), drift, and the freshness probe of \<open>internal/freshness\<close>.
  \<^item> \<open>EditPlan\<close>, \<open>EditSaga\<close>: \<open>engine/edit\<close>, splicing of spans and the rename plan (\<open>planner.go\<close>,
    \<open>refactor.go\<close>), and the single-file and batch sagas with their compensation (\<open>edit.go\<close>).
  \<^item> \<open>Impact\<close>, \<open>ImpactProps\<close>, \<open>CallChain\<close>, \<open>Concept\<close>: the analyzers \<open>impact.go\<close>,
    \<open>callchain.go\<close> and \<open>concept.go\<close> of \<open>engine/analysis\<close>, reading through \<open>reader_port\<close>.
  \<^item> \<open>Scc\<close>, \<open>Interproc\<close>, \<open>InterprocProps\<close>: \<open>engine/analysis/interproc\<close>, Tarjan's algorithm
    (\<open>scc.go\<close>), the caps, the summary cache, the fixpoint solver and the analyzer.
  \<^item> \<open>Pdg\<close>: \<open>engine/analysis/pdg\<close>, the reaching definitions, the post-dominator tree and the control
    dependences.
  \<^item> \<open>Heap\<close>, \<open>Taint\<close>, \<open>TaintProps\<close>, \<open>TaintLoad\<close>: \<open>container/heap\<close> on a slice, and
    \<open>engine/analysis/taint\<close>: the propagation (\<open>taint.go\<close>), the configuration (\<open>config.go\<close>) and its
    loading, merging and hashing (\<open>load.go\<close>).

  \<^bold>\<open>How the parts interact.\<close>  Every write of the store goes through the index operations, whose
  contracts are the locales \<open>key_index\<close> and \<open>sorted_set\<close>, interpreted on the code's maps and
  treaps.  The queries read through the locale \<open>graph_lookup\<close> and the scope resolver through
  \<open>symbol_lookup\<close>, both interpreted on the in-memory store.  The report composes the probe, the
  verifying reader, the resolver, the evidence rows and a policy.  The passes write the graph, the
  sidecar and the trust triple; the reader's side is the same \<open>trust_evaluate\<close>.  The analyzers read
  the store through \<open>mem_reader\<close> or its ports; the taint and summary analyzers share the graph
  algorithms' references (\<open>reaches\<close>, paths over stored edges).  The sagas write files, call the
  ingester, and compensate in the graph store when a later step fails.

  \<^bold>\<open>What the lemmas show.\<close>  The store: every reachable state is consistent with its indexes, and
  each indexed, bounded or merged read equals a scan (MemReads, Snapshot).  Serialization and
  snapshots round trip for values that the text carries (UTF-8 strings, no NaN, no path that looks
  drive-prefixed) and provably not for others, and loading fails closed.  Queries: directed lookups and neighborhoods
  against set and distance specifications, every branch of dispatch, canonical output.  Trust: the
  exact conditions of the gate, monotonicity and explanation of verdicts, what a CURRENT or a PASS
  entitles a reader to.  Passes: a crash after any number of writes leaves a disk from which no warm
  start is granted without a certified graph, publication is never torn, a full pass recovers from
  any disk, and the passes terminate; a pass cut after its second transaction leaves the old
  snapshot reading CURRENT.  Edits: a rename plan is token-wise renaming and is undone by
  the rename back, a saga lands wholly or leaves everything as it was, unless the error says that its compensation
  failed.  Analyzers: impact is the
  ranked ball within budgets, call chains are the simple chains, Tarjan's components are the
  strongly connected components, data dependences are the transitive closure of the flows, taint
  findings are the sanitizer-free reachable pairs with shortest paths.  Where the code departs from
  what it means to do the theorems say so: recursive components are cut after one pass and a second
  run is stale (InterprocProps), a branch with two exits loses a control dependence (Pdg), a work cap
  makes the taint report depend on map order (TaintProps), hashing reorders a configuration,
  so that the least identity decides between matching definitions (TaintLoad).  Constructors, treaps and report blocks have their own bounds and error theorems.

  \<^bold>\<open>Bounds and fuel.\<close>  Tarjan's recursion takes the number of nodes as fuel, which
  \<open>tarjan_finds_components\<close> shows to be enough; the post-order of \<open>Pdg\<close> takes the number of nodes plus
  two as the bound on its depth, and running out is the value \<open>None\<close>.  The worklists of the
  summaries, the reaching definitions, the post-dominators and the taint propagation are
  \<open>partial_function\<close>s, so that not returning is \<open>None\<close>; that the solver, the reaching definitions and the
  propagation return is proved, that the post-dominator iteration returns is not (its theorem
  computes it on a fork of any three nodes).  A crash is the number \<open>n\<close> of
  durable writes after which \<open>run n\<close> stops a pass; a full pass has at most fourteen writes and an
  incremental one at most thirteen, so these numbers reach the end of every pass.  The hop loop of
  a neighborhood is recursion on the clamped depth, at most five; the merge of cursors and the path
  cleaner have measures.  Counters of Go's \<open>int\<close> type are unbounded integers where nothing
  in the code comes near their width; where the width matters (\<open>boundedProbeLimit\<close>, the treap
  priorities, the length prefixes of an identity) it is written out.

  \<^bold>\<open>Parameters.\<close>  Code outside the repository is an argument: \<open>xxhash\<close>, SHA-256, the JSON text of the trust
  documents, query results and taint configurations,
  \<open>strings.ToLower\<close>, \<open>time.Parse\<close>, the operating system's path resolution.  A map that the
  code ranges over in Go's random order is written in key order; the results are sorted afterwards
  or a theorem shows that the order does not matter.  The order of the taint sources is a parameter,
  because there it does matter.

  \<^bold>\<open>Not modelled.\<close>  The SQLite backend (its statements are SQL; the in-memory store is the reference
  for the same ports), parsers and extractors (\<open>core/parse\<close>, tree-sitter), the language resolvers
  (\<open>engine/link\<close>, \<open>engine/typeresolve\<close>, \<open>engine/jvmresolve\<close>), whose results are inputs of the
  passes, retrieval and embeddings (floating-point models), the refactor entry points, blast radius
  and undo of the editor, the other analyzers (metrics, risk, contracts, triage, history, the
  intraprocedural taint over Go syntax trees and the persisted interprocedural one), clone detection
  and structural search in \<open>engine/query\<close>, watching, review and agent tools, the command line, MCP, HTTP
  and daemon surfaces, and the evaluation and release tooling
  under \<open>cmd\<close> and \<open>internal\<close>.  Concurrency inside the store is excluded by its lock; a context
  that is cancelled between two reads of one query is not modelled, one that is cancelled before it
  is.
\<close>

end
